(* ===== verification/Pi_Prelude.thy ===== *)
theory Pi_Prelude
  imports Complex_Main "HOL-Library.Word" "HOL-Library.AList"
begin

text \<open>
  Shared vocabulary of the development: JavaScript strings as lists of UTF-16 code units, bytes,
  JavaScript \<open>Map\<close> objects as association lists that keep insertion order, results of code that
  may throw (\<open>'e + 'a\<close>, with \<open>Inl\<close> for the thrown error), decimal printing as a template literal
  does it, and the addition of IEEE doubles. The generic lemmas below are the ones the component
  theories use; each is declared where automation finds it.
\<close>

named_theorems result_simps \<open>rewriting for code that may throw\<close>

section \<open>Strings, bytes and numbers\<close>

type_synonym js_string = "16 word list"
type_synonym byte = "8 word"
type_synonym bytes = "byte list"
type_synonym ident = string

text \<open>The code units of an ASCII literal.\<close>

definition js :: "string \<Rightarrow> js_string" where
  "js s = map (\<lambda>c. of_nat (of_char c)) s"

text \<open>The largest safe integer of JavaScript, \<open>Number.MAX_SAFE_INTEGER\<close>.\<close>

definition max_safe_integer :: int where
  "max_safe_integer = 2 ^ 53 - 1"

text \<open>Decimal digits, the value of a template literal \<open>${n}\<close> for a natural number.\<close>

fun decimal :: "nat \<Rightarrow> string" where
  "decimal n = (if n < 10 then [char_of (48 + n)] else decimal (n div 10) @ [char_of (48 + n mod 10)])"

declare decimal.simps [simp del]

definition decimal_int :: "int \<Rightarrow> string" where
  "decimal_int i = (if i < 0 then ''-'' @ decimal (nat (- i)) else decimal (nat i))"

lemma decimal_digits: "c \<in> set (decimal n) \<Longrightarrow> 48 \<le> (of_char c :: nat) \<and> (of_char c :: nat) < 58"
  by (induction n rule: decimal.induct) (subst (asm) decimal.simps, auto split: if_splits simp: of_char_of)

lemma decimal_value: "foldl (\<lambda>a c. 10 * a + (of_char c - 48)) 0 (decimal n) = (n :: nat)"
  by (induction n rule: decimal.induct) (subst decimal.simps, auto simp: of_char_of)

lemma decimal_inject [simp]: "decimal m = decimal n \<longleftrightarrow> m = n"
  using decimal_value by metis

text \<open>A separator that the right part does not contain splits a key in one way only.\<close>

lemma separator_unique:
  assumes "xs @ z # ds = ys @ z # es" and "z \<notin> set ds" and "z \<notin> set es"
  shows "xs = ys \<and> ds = es"
proof -
  have tw: "takeWhile (\<lambda>c. c \<noteq> z) (rev (us @ z # vs)) = rev vs" if "z \<notin> set vs" for us vs
    using that by (induction vs rule: rev_induct) auto
  have "rev ds = takeWhile (\<lambda>c. c \<noteq> z) (rev (xs @ z # ds))" using tw [OF assms(2)] by simp
  also have "\<dots> = rev es" using tw [OF assms(3)] by (simp only: assms(1))
  finally have "ds = es" by simp
  with assms(1) show ?thesis by simp
qed

text \<open>
  Sums of costs are sums of IEEE doubles. A finite double is the rational number it denotes; the
  sum of two doubles is their exact sum rounded to 53 significant bits (or to the spacing of the
  subnormal numbers), ties to even. Sums that leave the finite range are outside the model.
\<close>

fun bit_length :: "int \<Rightarrow> int" where
  "bit_length n = (if n \<le> 0 then 0 else 1 + bit_length (n div 2))"

declare bit_length.simps [simp del]

definition binary_exponent :: "rat \<Rightarrow> int" where
  "binary_exponent x =
     (let (p, q) = quotient_of \<bar>x\<bar>; k = bit_length p - bit_length q
      in if 2 powi k \<le> \<bar>x\<bar> then k else k - 1)"

definition round_half_even :: "rat \<Rightarrow> int" where
  "round_half_even x =
     (let f = \<lfloor>x\<rfloor>; d = x - of_int f
      in if d < 1 / 2 then f else if 1 / 2 < d then f + 1 else if even f then f else f + 1)"

definition round_double :: "rat \<Rightarrow> rat" where
  "round_double x =
     (if x = 0 then 0
      else let e = max (binary_exponent x - 52) (- 1074)
           in of_int (round_half_even (x / 2 powi e)) * 2 powi e)"

definition double_add :: "rat \<Rightarrow> rat \<Rightarrow> rat" where
  "double_add x y = round_double (x + y)"

section \<open>Code that may throw\<close>

definition bindR :: "'e + 'a \<Rightarrow> ('a \<Rightarrow> 'e + 'b) \<Rightarrow> 'e + 'b" where
  "bindR m f = (case m of Inl e \<Rightarrow> Inl e | Inr a \<Rightarrow> f a)"

definition guardR :: "bool \<Rightarrow> 'e \<Rightarrow> 'e + unit" where
  "guardR b e = (if b then Inr () else Inl e)"

text \<open>A \<open>for\<close> loop whose body may throw; the first error ends it.\<close>

fun foldR :: "('s \<Rightarrow> 'a \<Rightarrow> 'e + 's) \<Rightarrow> 's \<Rightarrow> 'a list \<Rightarrow> 'e + 's" where
  "foldR f s [] = Inr s"
| "foldR f s (x # xs) = (case f s x of Inl e \<Rightarrow> Inl e | Inr s' \<Rightarrow> foldR f s' xs)"

lemma bindR_simps [simp, result_simps]:
  "bindR (Inl e) f = Inl e"
  "bindR (Inr a) f = f a"
  by (simp_all add: bindR_def)

lemma bindR_Inr_iff [result_simps]: "bindR m f = Inr b \<longleftrightarrow> (\<exists>a. m = Inr a \<and> f a = Inr b)"
  by (cases m) simp_all

lemma bindR_Inl_iff [result_simps]:
  "bindR m f = Inl e \<longleftrightarrow> m = Inl e \<or> (\<exists>a. m = Inr a \<and> f a = Inl e)"
  by (cases m) simp_all

lemma guardR_simps [simp, result_simps]:
  "guardR b e = Inr u \<longleftrightarrow> b"
  "guardR b e = Inl e' \<longleftrightarrow> \<not> b \<and> e = e'"
  "guardR True e = Inr ()"
  "guardR False e = Inl e"
  by (simp_all add: guardR_def)

lemma foldR_append [result_simps]:
  "foldR f s (xs @ ys) = (case foldR f s xs of Inl e \<Rightarrow> Inl e | Inr s' \<Rightarrow> foldR f s' ys)"
  by (induction xs arbitrary: s) (auto split: sum.splits)

lemma foldR_invariant:
  assumes "foldR f s xs = Inr s'" and "I s"
    and "\<And>s x s'. I s \<Longrightarrow> x \<in> set xs \<Longrightarrow> f s x = Inr s' \<Longrightarrow> I s'"
  shows "I s'"
  using assms
proof (induction xs arbitrary: s)
  case Nil
  then show ?case by simp
next
  case (Cons x xs)
  from Cons.prems(1) obtain t where t: "f s x = Inr t" and rest: "foldR f t xs = Inr s'"
    by (auto split: sum.splits)
  have "I t" using Cons.prems(2,3) t by (meson list.set_intros(1))
  with rest show ?case by (rule Cons.IH) (meson Cons.prems(3) list.set_intros(2))
qed

text \<open>
  A loop whose body accepts an element according to the elements before it. \<open>A pre s\<close> says that
  \<open>s\<close> is a state after \<open>pre\<close>.
\<close>

lemma foldR_accepts:
  assumes "A pre s" and "R pre xs"
    and "\<And>pre x xs. R pre (x # xs) \<Longrightarrow> R (pre @ [x]) xs"
    and "\<And>pre s x xs. A pre s \<Longrightarrow> R pre (x # xs) \<Longrightarrow> (\<exists>t. f s x = Inr t) \<longleftrightarrow> P pre x"
    and "\<And>pre s x xs t. A pre s \<Longrightarrow> R pre (x # xs) \<Longrightarrow> f s x = Inr t \<Longrightarrow> A (pre @ [x]) t"
  shows "(\<exists>t. foldR f s xs = Inr t) \<longleftrightarrow> (\<forall>i<length xs. P (pre @ take i xs) (xs ! i))"
  using assms(1,2)
proof (induction xs arbitrary: pre s)
  case Nil
  then show ?case by simp
next
  case (Cons x xs)
  have all: "(\<forall>i<length (x # xs). P (pre @ take i (x # xs)) ((x # xs) ! i)) \<longleftrightarrow>
      P pre x \<and> (\<forall>i<length xs. P ((pre @ [x]) @ take i xs) (xs ! i))"
    by (auto simp: All_less_Suc2)
  show ?case
  proof (cases "f s x")
    case (Inl e)
    then have "\<not> P pre x" using assms(4) [OF Cons.prems] by simp
    with Inl all show ?thesis by simp
  next
    case (Inr t)
    then have "P pre x" using assms(4) [OF Cons.prems] by simp
    moreover have "(\<exists>t'. foldR f t xs = Inr t') \<longleftrightarrow> (\<forall>i<length xs. P ((pre @ [x]) @ take i xs) (xs ! i))"
      using Cons.IH [OF assms(5) [OF Cons.prems Inr] assms(3) [OF Cons.prems(2)]] .
    ultimately show ?thesis using Inr all by simp
  qed
qed

text \<open>A loop that pushes what its body returns for each element.\<close>

lemma foldR_collect:
  "foldR (\<lambda>ys x. bindR (f x) (\<lambda>y. Inr (ys @ [y]))) acc xs = Inr zs \<longleftrightarrow>
     (\<exists>ys. zs = acc @ ys \<and> list_all2 (\<lambda>x y. f x = Inr y) xs ys)"
proof (induction xs arbitrary: acc)
  case Nil
  then show ?case by auto
next
  case (Cons x xs)
  then show ?case by (cases "f x") (auto simp: list_all2_Cons1)
qed

section \<open>Machines and their invariants\<close>

text \<open>
  A component with state is a start state and an operation that may reject its argument. The states
  it can be in are those some sequence of accepted operations leads to.
\<close>

inductive reach :: "('s \<Rightarrow> 'm \<Rightarrow> 'e + 's) \<Rightarrow> 's \<Rightarrow> 's \<Rightarrow> bool" for step s0 where
  start: "reach step s0 s0"
| next_state: "reach step s0 s \<Longrightarrow> step s m = Inr t \<Longrightarrow> reach step s0 t"

locale machine_invariant =
  fixes step :: "'s \<Rightarrow> 'm \<Rightarrow> 'e + 's" and s0 :: 's and inv :: "'s \<Rightarrow> bool"
  assumes inv_start: "inv s0"
    and inv_step: "inv s \<Longrightarrow> step s m = Inr t \<Longrightarrow> inv t"
begin

lemma reach_inv: "reach step s0 s \<Longrightarrow> inv s"
  by (induction rule: reach.induct) (auto intro: inv_start inv_step)

lemma run_inv: "inv s \<Longrightarrow> foldR step s ms = Inr t \<Longrightarrow> inv t"
  by (rule foldR_invariant [where f = step and s = s and xs = ms]) (auto intro: inv_step)

lemma run_start_inv: "foldR step s0 ms = Inr t \<Longrightarrow> inv t"
  by (rule run_inv [OF inv_start])

end

lemma foldR_reach:
  assumes "foldR step s ms = Inr t" and "reach step s0 s"
  shows "reach step s0 t"
  using assms(1)
  by (rule foldR_invariant) (use assms(2) in \<open>auto intro: reach.next_state\<close>)

section \<open>JavaScript maps in insertion order\<close>

text \<open>
  \<open>map.set(k, v)\<close> is \<open>AList.update\<close> (a present key keeps its place, a new key goes last),
  \<open>map.get(k)\<close> is \<open>map_of\<close>, \<open>map.delete(k)\<close> is \<open>AList.delete\<close>, \<open>map.has(k)\<close> is
  \<open>map_has\<close>.
\<close>

definition map_has :: "('k \<times> 'v) list \<Rightarrow> 'k \<Rightarrow> bool" where
  "map_has m k = (map_of m k \<noteq> None)"

lemma map_has_iff: "map_has m k \<longleftrightarrow> k \<in> fst ` set m"
  by (simp add: map_has_def map_of_eq_None_iff)

lemma alist_of_update: "map_of (AList.update k v m) = (map_of m)(k \<mapsto> v)"
  by (simp add: update_conv')

lemma update_fresh: "k \<notin> fst ` set m \<Longrightarrow> AList.update k v m = m @ [(k, v)]"
  by (induction m) auto

lemma fst_set_update [simp]: "fst ` set (AList.update k v m) = insert k (fst ` set m)"
  by (simp add: dom_update)

lemma alist_update_memD: "x \<in> set (AList.update k v m) \<Longrightarrow> x = (k, v) \<or> x \<in> set m"
  by (induction m) (auto split: if_splits)

lemma fst_set_delete [simp]: "fst ` set (AList.delete k m) = fst ` set m - {k}"
  by (metis delete_keys list.set_map set_removeAll)

lemma delete_map_key:
  "AList.delete k (map (\<lambda>x. (key x, x)) xs) = map (\<lambda>x. (key x, x)) (filter (\<lambda>x. key x \<noteq> k) xs)"
  by (induction xs) auto

lemma hd_key_update [simp]: "fst (hd (AList.update k v m)) = (if m = [] then k else fst (hd m))"
  by (cases m) auto

lemma update_nonempty [simp]: "AList.update k v m \<noteq> []"
  by (cases m) auto

lemma distinct_keys_update [intro]:
  "distinct (map fst m) \<Longrightarrow> distinct (map fst (AList.update k v m))"
  by (rule distinct_update)

lemma distinct_keys_delete [intro]:
  "distinct (map fst m) \<Longrightarrow> distinct (map fst (AList.delete k m))"
  by (rule distinct_delete)

lemma alist_of_delete: "map_of (AList.delete k m) = (map_of m)(k := None)"
  by (simp add: delete_conv')

lemma map_of_map_key: "map_of (map (\<lambda>x. (key x, x)) xs) k = find (\<lambda>x. key x = k) xs"
  by (induction xs) auto

lemma fst_set_map_key [simp]: "fst ` set (map (\<lambda>x. (key x, x)) xs) = key ` set xs"
  by force

section \<open>Lists\<close>

text \<open>
  A loop that pushes the matching elements and breaks when \<open>results.length\<close> reaches the limit.
\<close>

fun collect :: "int option \<Rightarrow> ('a \<Rightarrow> bool) \<Rightarrow> nat \<Rightarrow> 'a list \<Rightarrow> 'a list" where
  "collect lmt P n [] = []"
| "collect lmt P n (x # xs) =
     (if \<not> P x then collect lmt P n xs
      else if lmt = Some (int (Suc n)) then [x]
      else x # collect lmt P (Suc n) xs)"

lemma collect_None [simp]: "collect None P n xs = filter P xs"
  by (induction xs arbitrary: n) auto

lemma collect_Some: "int n < m \<Longrightarrow> collect (Some m) P n xs = take (nat m - n) (filter P xs)"
proof (induction xs arbitrary: n)
  case Nil
  then show ?case by simp
next
  case (Cons x xs)
  show ?case
  proof (cases "m = int (Suc n)")
    case True
    then have "nat m - n = 1" by simp
    with Cons True show ?thesis by simp
  next
    case False
    with Cons.prems have "nat m - n = Suc (nat m - Suc n)" and "int (Suc n) < m" by linarith+
    with Cons False show ?thesis by simp
  qed
qed

lemma find_Some_iff': "find P xs = Some x \<Longrightarrow> x \<in> set xs \<and> P x"
  by (induction xs) (auto split: if_splits)

lemma find_None_iff': "find P xs = None \<longleftrightarrow> (\<forall>x\<in>set xs. \<not> P x)"
  by (induction xs) auto

lemma mem_map_filter: "y \<in> set (List.map_filter f xs) \<longleftrightarrow> (\<exists>x\<in>set xs. f x = Some y)"
  by (force simp: List.map_filter_def)

lemma map_filter_append: "List.map_filter f (xs @ ys) = List.map_filter f xs @ List.map_filter f ys"
  by (simp add: List.map_filter_def)

lemma distinct_map_find:
  "distinct (map key xs) \<Longrightarrow> x \<in> set xs \<Longrightarrow> find (\<lambda>y. key y = key x) xs = Some x"
  by (induction xs) (auto simp: image_iff)

text \<open>The prefix up to and including the first match, and the limit of a query.\<close>

fun take_until :: "('a \<Rightarrow> bool) \<Rightarrow> 'a list \<Rightarrow> 'a list" where
  "take_until P [] = []"
| "take_until P (x # xs) = x # (if P x then [] else take_until P xs)"

definition take_limit :: "int option \<Rightarrow> 'a list \<Rightarrow> 'a list" where
  "take_limit lmt xs = (case lmt of None \<Rightarrow> xs | Some n \<Rightarrow> take (nat n) xs)"

lemma collect_limit:
  "(\<And>n. lmt = Some n \<Longrightarrow> 0 < n) \<Longrightarrow> collect lmt P 0 xs = take_limit lmt (filter P xs)"
  by (cases lmt) (auto simp: take_limit_def collect_Some)

lemma take_until_False [simp]: "take_until (\<lambda>_. False) xs = xs"
  by (induction xs) auto

lemma set_take_until: "set (take_until P xs) \<subseteq> set xs"
  by (induction xs) auto

end
