(* ===== verification/Js_Value.thy ===== *)
theory Js_Value
  imports Pi_Prelude "HOL-Library.Multiset"
begin

text \<open>
  JavaScript values as the program handles them when their type is \<open>unknown\<close>: tool arguments,
  entry details, protocol messages. A value is a finite tree; a value that contains itself has no
  counterpart here.
\<close>

section \<open>Numbers\<close>

text \<open>
  A JavaScript number is an IEEE double. Doubles with an integral value other than minus zero are
  named by that integer, the other finite ones (minus zero and the fractions) by their 64 bits.
\<close>

datatype js_number = JInt int | JFrac "64 word" | JNaN | JInf bool

definition num_of_bits :: "64 word \<Rightarrow> js_number" where
  "num_of_bits b =
     (let n = unat b; s = (n div 2 ^ 63 = 1); e = n div 2 ^ 52 mod 2 ^ 11; m = n mod 2 ^ 52
      in if e = 2047 then (if m = 0 then JInf s else JNaN)
         else let k = (if e = 0 then 1 else e); M = (if e = 0 then m else m + 2 ^ 52);
                  integral = (1075 \<le> k \<or> M mod 2 ^ (1075 - k) = 0);
                  v = (if 1075 \<le> k then int M * 2 ^ (k - 1075) else int (M div 2 ^ (1075 - k)))
              in if \<not> integral \<or> v = 0 \<and> s then JFrac b else JInt (if s then - v else v))"

text \<open>A fraction is in normal form when its bits denote no integral number and are finite.\<close>

definition wf_number :: "js_number \<Rightarrow> bool" where
  "wf_number x = (case x of JFrac b \<Rightarrow> num_of_bits b = JFrac b | _ \<Rightarrow> True)"

definition is_finite_number :: "js_number \<Rightarrow> bool" where
  "is_finite_number x = (case x of JInt _ \<Rightarrow> True | JFrac _ \<Rightarrow> True | _ \<Rightarrow> False)"

definition is_safe_integer :: "int \<Rightarrow> bool" where
  "is_safe_integer i = (\<bar>i\<bar> \<le> max_safe_integer)"

section \<open>Values\<close>

text \<open>
  \<open>JHole\<close> is a missing array slot. The flag of \<open>JObject\<close> says whether the object has an
  enumerable symbol-keyed property; its list holds the own enumerable string-keyed properties in
  the order \<open>Object.keys\<close> gives them. Its prototype is \<open>Object.prototype\<close>. \<open>JOther t\<close> is a value of type \<open>t\<close> that is none of the
  above: a function, a symbol, a bigint, or an object that is not plain.
\<close>

datatype js_value =
    JUndefined | JHole | JNull | JBool bool | JNumber js_number | JString js_string
  | JBytes bytes | JArray "js_value list" | JObject bool "(js_string \<times> js_value) list"
  | JOther string

text \<open>
  \<open>Object.keys\<close> enumerates the array-index keys first, in ascending order, and then the other
  keys in the order they were defined.
\<close>

fun digits_value :: "nat \<Rightarrow> js_string \<Rightarrow> nat option" where
  "digits_value acc [] = Some acc"
| "digits_value acc (c # cs) =
     (if 48 \<le> unat c \<and> unat c \<le> 57 then digits_value (10 * acc + (unat c - 48)) cs else None)"

definition array_index :: "js_string \<Rightarrow> nat option" where
  "array_index k =
     (if k = [] \<or> hd k = 48 \<and> length k \<noteq> 1 then None
      else case digits_value 0 k of None \<Rightarrow> None | Some n \<Rightarrow> if int n < 0xFFFFFFFF then Some n else None)"

definition own_keys_order :: "(js_string \<times> 'a) list \<Rightarrow> (js_string \<times> 'a) list" where
  "own_keys_order es =
     sort_key (\<lambda>(k, _). the (array_index k)) (filter (\<lambda>(k, _). array_index k \<noteq> None) es)
     @ filter (\<lambda>(k, _). array_index k = None) es"

lemma own_keys_order_Nil [simp]: "own_keys_order [] = []"
  by (simp add: own_keys_order_def)

lemma set_own_keys_order [simp]: "set (own_keys_order es) = set es"
  by (auto simp: own_keys_order_def)

lemma sort_key_sorted: "sorted (map f xs) \<Longrightarrow> sort_key f xs = xs"
  by (induction xs) (auto simp: insort_is_Cons)

lemma partition_sort_idem:
  assumes "\<And>x. Q x \<longleftrightarrow> \<not> P x" and "ys = sort_key f (filter P xs) @ filter Q xs"
  shows "sort_key f (filter P ys) @ filter Q ys = ys"
proof -
  have none: "filter P (filter Q xs) = []" "filter Q (filter P xs) = []" using assms(1) by (auto simp: filter_empty_conv)
  have "filter P ys = sort_key f (filter P xs)" "filter Q ys = filter Q xs"
    unfolding assms(2) filter_append filter_sort none by simp_all
  then show ?thesis using assms(2) by (simp add: sort_key_sorted)
qed

lemma own_keys_order_idem: "own_keys_order (own_keys_order es) = own_keys_order es"
  unfolding own_keys_order_def [of "own_keys_order es"]
  by (rule partition_sort_idem) (auto simp: own_keys_order_def)

lemma own_keys_order_mset: "mset (own_keys_order es) = mset es"
proof -
  have "filter (\<lambda>(k, _). array_index k = None) es = filter (\<lambda>x. \<not> (case x of (k, _) \<Rightarrow> array_index k \<noteq> None)) es"
    by (rule filter_cong) auto
  then show ?thesis unfolding own_keys_order_def by (simp del: split_paired_All)
qed

lemma own_keys_order_distinct: "distinct (map fst es) \<Longrightarrow> distinct (map fst (own_keys_order es))"
  using own_keys_order_mset [of es] by (metis mset_eq_imp_distinct_iff mset_map)

lemma own_keys_order_map_of: "distinct (map fst es) \<Longrightarrow> map_of (own_keys_order es) = map_of es"
  using map_of_inject_set [of "own_keys_order es" es] by (simp add: own_keys_order_distinct)

text \<open>The values a JavaScript program can build: numbers in normal form, objects with distinct
  keys in enumeration order.\<close>

fun wf_value :: "js_value \<Rightarrow> bool" where
  "wf_value (JNumber x) = wf_number x"
| "wf_value (JArray vs) = list_all wf_value vs"
| "wf_value (JObject s es) =
     (distinct (map fst es) \<and> own_keys_order es = es \<and> list_all (\<lambda>(k, v). wf_value v) es)"
| "wf_value _ = True"

end
