(* ===== verification/Session_Types.thy ===== *)
theory Session_Types
  imports Js_Value
begin

text \<open>
  The data of the durable session: messages (\<open>ai/src/types.ts\<close>, \<open>agent/src/harness/messages.ts\<close>),
  tree entries, lane records, queries and errors (\<open>agent/src/harness/session/types.ts\<close>). A
  discriminated union is a datatype with one constructor per tag; fields that every member of a
  union shares are fields of the enclosing record. An optional field is an \<open>option\<close>, a field of
  type \<open>string | null\<close> an \<open>option\<close> whose \<open>None\<close> is \<open>null\<close>. Identifiers, names and
  discriminants are HOL strings; texts whose length the program measures are JavaScript strings.
  Counts of tokens, sequence numbers and timestamps are natural numbers: they stay below
  \<open>Number.MAX_SAFE_INTEGER\<close>, where JavaScript arithmetic on them is exact.
\<close>

section \<open>Messages\<close>

datatype stop_reason =
  Pending | Stop | Length_stop | ToolUse | Error_stop | Aborted | Deferred

record usage_cost =
  cost_input :: rat
  cost_output :: rat
  cost_cacheRead :: rat
  cost_cacheWrite :: rat
  cost_total :: rat

record usage =
  u_input :: nat
  u_output :: nat
  u_cacheRead :: nat
  u_cacheWrite :: nat
  u_cacheWrite1h :: "nat option"
  u_reasoning :: "nat option"
  u_totalTokens :: nat
  u_cost :: usage_cost

record text_content =
  txt_text :: js_string
  txt_textSignature :: "string option"

record thinking_content =
  thk_thinking :: js_string
  thk_thinkingSignature :: "string option"
  thk_redacted :: "bool option"

record image_content =
  img_data :: string
  img_mimeType :: string

record tool_call =
  tc_id :: ident
  tc_name :: ident
  tc_arguments :: js_value
  tc_thoughtSignature :: "string option"
  tc_namespace :: "string option"

datatype user_block = UText text_content | UImage image_content

datatype assistant_block = AText text_content | AThinking thinking_content | AToolCall tool_call

datatype user_content = ContentString js_string | ContentBlocks "user_block list"

record deferred_handle =
  dh_provider :: ident
  dh_modelId :: ident
  dh_api :: ident
  dh_id :: ident
  dh_expiresAt :: "nat option"
  dh_pollAfterMs :: "nat option"
  dh_data :: "js_value option"

record user_message =
  um_content :: user_content
  um_timestamp :: nat

record assistant_message =
  am_content :: "assistant_block list"
  am_api :: ident
  am_provider :: ident
  am_model :: ident
  am_responseModel :: "ident option"
  am_responseId :: "ident option"
  am_diagnostics :: "js_value option"
  am_usage :: usage
  am_stopReason :: stop_reason
  am_deferred :: "deferred_handle option"
  am_errorMessage :: "string option"
  am_rawStopReason :: "string option"
  am_endTurn :: "bool option"
  am_timestamp :: nat

record tool_result_message =
  tr_toolCallId :: ident
  tr_toolName :: ident
  tr_content :: "user_block list"
  tr_details :: "js_value option"
  tr_usage :: "usage option"
  tr_addedToolNames :: "ident list option"
  tr_isError :: bool
  tr_timestamp :: nat

record bash_execution_message =
  be_command :: js_string
  be_output :: js_string
  be_exitCode :: "int option"
  be_cancelled :: bool
  be_truncated :: bool
  be_fullOutputPath :: "js_string option"
  be_timestamp :: nat
  be_excludeFromContext :: "bool option"

record custom_message =
  cm_customType :: ident
  cm_content :: user_content
  cm_display :: bool
  cm_details :: "js_value option"
  cm_timestamp :: nat

record branch_summary_message =
  bs_summary :: js_string
  bs_fromId :: ident
  bs_timestamp :: nat

record compaction_summary_message =
  cs_summary :: js_string
  cs_tokensBefore :: nat
  cs_timestamp :: nat

datatype agent_message =
    UserMessage user_message
  | AssistantMessage assistant_message
  | ToolResultMessage tool_result_message
  | BashExecutionMessage bash_execution_message
  | CustomMessage custom_message
  | BranchSummaryMessage branch_summary_message
  | CompactionSummaryMessage compaction_summary_message

section \<open>Entries\<close>

record compaction_payload =
  cp_summary :: js_string
  cp_retainedTail :: "agent_message list"
  cp_tokensBefore :: nat
  cp_details :: "js_value option"
  cp_usage :: "usage option"

record branch_summary_payload =
  bp_fromId :: ident
  bp_summary :: js_string
  bp_details :: "js_value option"
  bp_usage :: "usage option"

text \<open>What the seven entry types hold beside the fields of \<open>EntryBase\<close>.\<close>

datatype entry_payload =
    MessageEntry agent_message bool
  | ModelChangeEntry ident ident
  | ThinkingLevelEntry ident
  | ActiveToolsEntry "ident list"
  | CompactionEntry compaction_payload
  | BranchSummaryEntry branch_summary_payload
  | CustomEntry ident "js_value option"

datatype entry_type =
    Type_message | Type_model_change | Type_thinking_level_change | Type_active_tools_change
  | Type_compaction | Type_branch_summary | Type_custom

record entry =
  entry_id :: ident
  entry_seq :: nat
  parentId :: "ident option"
  entry_timestamp :: nat
  payload :: entry_payload

text \<open>A provisioned entry is an entry less what the storage assigns.\<close>

record provisioned_entry =
  prov_id :: ident
  prov_payload :: entry_payload

fun payload_type :: "entry_payload \<Rightarrow> entry_type" where
  "payload_type (MessageEntry _ _) = Type_message"
| "payload_type (ModelChangeEntry _ _) = Type_model_change"
| "payload_type (ThinkingLevelEntry _) = Type_thinking_level_change"
| "payload_type (ActiveToolsEntry _) = Type_active_tools_change"
| "payload_type (CompactionEntry _) = Type_compaction"
| "payload_type (BranchSummaryEntry _) = Type_branch_summary"
| "payload_type (CustomEntry _ _) = Type_custom"

definition entry_type_of :: "entry \<Rightarrow> entry_type" where
  "entry_type_of e = payload_type (payload e)"

section \<open>Lane records\<close>

record run_intent =
  originalPrompt :: "agent_message list"
  initialMessages :: "provisioned_entry list"
  systemPromptOverride :: "string option"
  resumeData :: "(ident \<times> js_value) list option"

record compaction_intent =
  ci_customInstructions :: "string option"
  ci_resultEntryId :: ident

record navigation_intent =
  ni_targetId :: "ident option"
  ni_summarize :: bool
  ni_customInstructions :: "string option"
  ni_label :: "string option"
  ni_summaryEntryId :: "ident option"

datatype intent = RunIntent run_intent | CompactionIntent compaction_intent | NavigationIntent navigation_intent

datatype operation_kind = Kind_run | Kind_compaction | Kind_navigation

fun intent_kind :: "intent \<Rightarrow> operation_kind" where
  "intent_kind (RunIntent _) = Kind_run"
| "intent_kind (CompactionIntent _) = Kind_compaction"
| "intent_kind (NavigationIntent _) = Kind_navigation"

datatype operation_outcome = Completed | Aborted_outcome | Failed | Declined

datatype step_kind = Step_assistant | Step_branch_summary | Step_compaction

text \<open>
  The reducer reads \<open>compactionReason\<close> as an unknown value, so it is any string or absent here.
\<close>

record step_attempt =
  sa_runId :: ident
  sa_step :: step_kind
  sa_attempt :: nat
  sa_resultEntryId :: ident
  sa_compactionReason :: "string option"

datatype replay_mode = Replay_never | Replay_safe

record tool_started =
  ts_runId :: ident
  ts_assistantEntryId :: ident
  ts_toolIndex :: nat
  ts_toolCallId :: ident
  ts_toolName :: ident
  ts_effectiveArgs :: js_value
  ts_resultEntryId :: ident
  ts_replay :: replay_mode

datatype queue_kind = Steer | FollowUp | NextRun

datatype usage_cause =
    Cause_assistant | Cause_compaction | Cause_branch_summary | Cause_deferred_fetch
  | Cause_tool | Cause_hook | Cause_adjustment

record usage_info =
  ui_usage :: usage
  ui_cause :: usage_cause
  ui_runId :: "ident option"
  ui_entryId :: "ident option"
  ui_attempt :: "nat option"
  ui_stopReason :: "stop_reason option"
  ui_toolCallId :: "ident option"
  ui_details :: "js_value option"

datatype record_payload =
    OperationStarted "ident option" intent
  | AbortRequested ident
  | OperationFinished ident operation_outcome "(string \<times> string) option"
  | StepAttempt step_attempt
  | ToolStarted tool_started
  | QueueEnqueued queue_kind "ident option" provisioned_entry
  | QueueCancelled "ident option" ident
  | WriteDeferred ident provisioned_entry
  | UsageRecord usage_info

datatype record_type =
    Rec_operation_started | Rec_abort_requested | Rec_operation_finished | Rec_step_attempt
  | Rec_tool_started | Rec_queue_enqueued | Rec_queue_cancelled | Rec_write_deferred | Rec_usage

record lane_record =
  record_id :: ident
  record_seq :: nat
  record_lane :: ident
  record_timestamp :: nat
  record_payload :: record_payload

record new_record =
  new_id :: ident
  new_lane :: ident
  new_payload :: record_payload

fun record_type_of_payload :: "record_payload \<Rightarrow> record_type" where
  "record_type_of_payload (OperationStarted _ _) = Rec_operation_started"
| "record_type_of_payload (AbortRequested _) = Rec_abort_requested"
| "record_type_of_payload (OperationFinished _ _ _) = Rec_operation_finished"
| "record_type_of_payload (StepAttempt _) = Rec_step_attempt"
| "record_type_of_payload (ToolStarted _) = Rec_tool_started"
| "record_type_of_payload (QueueEnqueued _ _ _) = Rec_queue_enqueued"
| "record_type_of_payload (QueueCancelled _ _) = Rec_queue_cancelled"
| "record_type_of_payload (WriteDeferred _ _) = Rec_write_deferred"
| "record_type_of_payload (UsageRecord _) = Rec_usage"

definition record_type_of :: "lane_record \<Rightarrow> record_type" where
  "record_type_of r = record_type_of_payload (record_payload r)"

text \<open>The \<open>runId\<close> property of a record, absent on a start and where the record has none.\<close>

fun payload_runId :: "record_payload \<Rightarrow> ident option" where
  "payload_runId (OperationStarted _ _) = None"
| "payload_runId (AbortRequested r) = Some r"
| "payload_runId (OperationFinished r _ _) = Some r"
| "payload_runId (StepAttempt a) = Some (sa_runId a)"
| "payload_runId (ToolStarted t) = Some (ts_runId t)"
| "payload_runId (QueueEnqueued _ r _) = r"
| "payload_runId (QueueCancelled r _) = r"
| "payload_runId (WriteDeferred r _) = Some r"
| "payload_runId (UsageRecord u) = ui_runId u"

definition record_runId :: "lane_record \<Rightarrow> ident option" where
  "record_runId r = payload_runId (record_payload r)"

fun payload_intent_kind :: "record_payload \<Rightarrow> operation_kind option" where
  "payload_intent_kind (OperationStarted _ i) = Some (intent_kind i)"
| "payload_intent_kind _ = None"

section \<open>Queries, statistics, log and errors\<close>

datatype entry_order = NewestFirst | OldestFirst

text \<open>Limits and cursors are integers here, since the code checks that they are in range.\<close>

record entry_query =
  eq_type :: "entry_type option"
  eq_customType :: "ident option"
  eq_order :: "entry_order option"
  eq_limit :: "int option"
  eq_afterSeq :: "int option"

record branch_bounds =
  bb_stopAtType :: "entry_type option"
  bb_stopAtId :: "ident option"

record record_query =
  rq_lane :: "ident option"
  rq_type :: "record_type option"
  rq_runId :: "ident option"
  rq_operationKind :: "operation_kind option"
  rq_afterSeq :: "int option"
  rq_order :: "entry_order option"
  rq_limit :: "int option"

record session_stats =
  messageCount :: nat
  cachedTokens :: nat
  uncachedTokens :: nat
  statTotalTokens :: nat
  costTotal :: rat

type_synonym lane_pointer = "ident \<times> ident option"

datatype log_item =
    LogEntry nat entry
  | LogRecord nat lane_record
  | LogLane nat ident "ident option"
  | LogName nat "string option"
  | LogLabel nat ident "string option"

fun log_seq :: "log_item \<Rightarrow> nat" where
  "log_seq (LogEntry n _) = n"
| "log_seq (LogRecord n _) = n"
| "log_seq (LogLane n _ _) = n"
| "log_seq (LogName n _) = n"
| "log_seq (LogLabel n _ _) = n"

datatype fork_position = Before | At

datatype fork_options = ForkBranch "ident option" "fork_position option" | ForkTree

record session_metadata =
  meta_id :: ident
  createdAt :: nat
  parentSessionId :: "ident option"

datatype session_error_code =
    Not_found | Already_exists | Invalid_entry | Invalid_payload | Invalid_lane | Invalid_query
  | Invalid_fork_target | Storage_error

datatype session_error = SessionError (error_code: session_error_code) string

end
