(* ===== verification/Session_State.thy ===== *)
theory Session_State
  imports Session_Types
begin

text \<open>
  The in-memory session state of \<open>agent/src/harness/session/state.ts\<close>: one append-only log of
  entries, records, lane moves and facts, its indexes, and the queries on them. Every JavaScript
  \<open>Map\<close> of the class is an association list in insertion order. The theory gives the class and
  its operations, the invariant that every mutation preserves, and what the queries return.
\<close>

section \<open>State and mutations\<close>

record session_state =
  sequence :: nat
  usedIds :: "ident set"
  entries :: "entry list"
  entriesById :: "(ident \<times> entry) list"
  records :: "lane_record list"
  openOperationsByLane :: "(ident \<times> (ident \<times> lane_record) list) list"
  lanes :: "lane_pointer list"
  logItems :: "log_item list"
  stats :: session_stats
  sessionName :: "string option"
  labels :: "(ident \<times> string) list"

definition init_state :: session_state where
  "init_state =
     \<lparr>sequence = 0, usedIds = {}, entries = [], entriesById = [], records = [],
      openOperationsByLane = [], lanes = [(''main'', None)], logItems = [],
      stats = \<lparr>messageCount = 0, cachedTokens = 0, uncachedTokens = 0, statTotalTokens = 0, costTotal = 0\<rparr>,
      sessionName = None, labels = []\<rparr>"

datatype session_mutation =
    MutEntry "ident option" entry
  | MutRecord lane_record
  | MutLane nat ident "ident option"
  | MutName nat "string option"
  | MutLabel nat ident "string option"

fun mutation_seq :: "session_mutation \<Rightarrow> nat" where
  "mutation_seq (MutEntry _ e) = entry_seq e"
| "mutation_seq (MutRecord r) = record_seq r"
| "mutation_seq (MutLane n _ _) = n"
| "mutation_seq (MutName n _) = n"
| "mutation_seq (MutLabel n _ _) = n"

definition invalidMutation :: "string \<Rightarrow> session_error" where
  "invalidMutation m = SessionError Invalid_entry (''Invalid session mutation: '' @ m)"

definition assertValidLimit :: "int option \<Rightarrow> session_error + unit" where
  "assertValidLimit lmt =
     guardR (case lmt of None \<Rightarrow> True | Some n \<Rightarrow> 0 < n)
       (SessionError Invalid_query ''limit must be a positive integer'')"

definition assertValidCursor :: "int option \<Rightarrow> session_error + unit" where
  "assertValidCursor afterSeq =
     guardR (case afterSeq of None \<Rightarrow> True | Some n \<Rightarrow> 0 \<le> n)
       (SessionError Invalid_query ''cursor sequence must be a non-negative integer'')"

definition ordered :: "'a list \<Rightarrow> entry_order option \<Rightarrow> 'a list" where
  "ordered xs order = (if order = Some OldestFirst then xs else rev xs)"

definition nextSequence :: "session_state \<Rightarrow> nat" where
  "nextSequence s = sequence s + 1"

definition getLanes :: "session_state \<Rightarrow> lane_pointer list" where
  "getLanes s = lanes s"

definition requireLane :: "session_state \<Rightarrow> ident \<Rightarrow> session_error + ident option" where
  "requireLane s lane =
     (case map_of (lanes s) lane of
        None \<Rightarrow> Inl (SessionError Invalid_lane (''Lane not found: '' @ lane))
      | Some leafId \<Rightarrow> Inr leafId)"

definition validateNewLane :: "session_state \<Rightarrow> ident \<Rightarrow> session_error + unit" where
  "validateNewLane s lane =
     guardR (\<not> map_has (lanes s) lane) (SessionError Already_exists (''Lane already exists: '' @ lane))"

definition validateTarget :: "session_state \<Rightarrow> ident option \<Rightarrow> session_error + unit" where
  "validateTarget s targetId =
     (case targetId of
        None \<Rightarrow> Inr ()
      | Some t \<Rightarrow> guardR (map_has (entriesById s) t) (SessionError Not_found (''Entry not found: '' @ t)))"

definition validateUnusedId :: "session_state \<Rightarrow> ident \<Rightarrow> session_error + unit" where
  "validateUnusedId s i =
     guardR (i \<notin> usedIds s) (SessionError Already_exists (''Session id already exists: '' @ i))"

text \<open>The body of \<open>applyMutation\<close>, one definition per case of its switch; the sequence check that
  precedes the switch is in \<open>applyMutation\<close>.\<close>

definition apply_entry :: "session_state \<Rightarrow> ident option \<Rightarrow> entry \<Rightarrow> session_error + session_state" where
  "apply_entry s lane e =
     bindR (guardR (entry_id e \<notin> usedIds s) (invalidMutation (''contains duplicate id '' @ entry_id e))) (\<lambda>_.
     bindR (case lane of
              None \<Rightarrow> Inr ()
            | Some l \<Rightarrow>
                (case map_of (lanes s) l of
                   None \<Rightarrow> Inl (invalidMutation (''references missing lane '' @ l))
                 | Some leafId \<Rightarrow>
                     guardR (parentId e = leafId) (invalidMutation ''does not chain to the lane leaf''))) (\<lambda>_.
     bindR (case parentId e of
              None \<Rightarrow> Inr ()
            | Some p \<Rightarrow> guardR (map_has (entriesById s) p) (invalidMutation (''references missing parent '' @ p))) (\<lambda>_.
     Inr (s\<lparr>sequence := entry_seq e,
           usedIds := insert (entry_id e) (usedIds s),
           entries := entries s @ [e],
           entriesById := AList.update (entry_id e) e (entriesById s),
           lanes := (case lane of None \<Rightarrow> lanes s | Some l \<Rightarrow> AList.update l (Some (entry_id e)) (lanes s)),
           logItems := logItems s @ [LogEntry (entry_seq e) e],
           stats := (if entry_type_of e = Type_message
                     then (stats s)\<lparr>messageCount := messageCount (stats s) + 1\<rparr> else stats s)\<rparr>))))"

definition track_operation ::
    "(ident \<times> (ident \<times> lane_record) list) list \<Rightarrow> lane_record \<Rightarrow> (ident \<times> (ident \<times> lane_record) list) list" where
  "track_operation ops r =
     (case record_payload r of
        OperationStarted _ _ \<Rightarrow>
          (let openOperations = (case map_of ops (record_lane r) of None \<Rightarrow> [] | Some m \<Rightarrow> m)
           in AList.update (record_lane r) (AList.update (record_id r) r openOperations) ops)
      | OperationFinished runId _ _ \<Rightarrow>
          (case map_of ops (record_lane r) of
             None \<Rightarrow> ops
           | Some m \<Rightarrow> AList.update (record_lane r) (AList.delete runId m) ops)
      | _ \<Rightarrow> ops)"

definition add_usage :: "session_stats \<Rightarrow> usage \<Rightarrow> session_stats" where
  "add_usage st u =
     st\<lparr>cachedTokens := cachedTokens st + u_cacheRead u,
        uncachedTokens := uncachedTokens st + (u_input u + u_cacheWrite u),
        statTotalTokens := statTotalTokens st + u_totalTokens u,
        costTotal := double_add (costTotal st) (cost_total (u_cost u))\<rparr>"

definition apply_record :: "session_state \<Rightarrow> lane_record \<Rightarrow> session_error + session_state" where
  "apply_record s r =
     bindR (guardR (map_has (lanes s) (record_lane r))
              (invalidMutation (''references missing lane '' @ record_lane r))) (\<lambda>_.
     bindR (guardR (record_id r \<notin> usedIds s) (invalidMutation (''contains duplicate id '' @ record_id r))) (\<lambda>_.
     Inr (s\<lparr>sequence := record_seq r,
           usedIds := insert (record_id r) (usedIds s),
           records := records s @ [r],
           openOperationsByLane := track_operation (openOperationsByLane s) r,
           logItems := logItems s @ [LogRecord (record_seq r) r],
           stats := (case record_payload r of UsageRecord u \<Rightarrow> add_usage (stats s) (ui_usage u) | _ \<Rightarrow> stats s)\<rparr>)))"

definition apply_lane :: "session_state \<Rightarrow> nat \<Rightarrow> ident \<Rightarrow> ident option \<Rightarrow> session_error + session_state" where
  "apply_lane s n lane leafId =
     bindR (case leafId of
              None \<Rightarrow> Inr ()
            | Some t \<Rightarrow> guardR (map_has (entriesById s) t) (invalidMutation (''references missing lane target '' @ t))) (\<lambda>_.
     Inr (s\<lparr>sequence := n, lanes := AList.update lane leafId (lanes s),
           logItems := logItems s @ [LogLane n lane leafId]\<rparr>))"

definition apply_name :: "session_state \<Rightarrow> nat \<Rightarrow> string option \<Rightarrow> session_error + session_state" where
  "apply_name s n nm = Inr (s\<lparr>sequence := n, sessionName := nm, logItems := logItems s @ [LogName n nm]\<rparr>)"

definition apply_label ::
    "session_state \<Rightarrow> nat \<Rightarrow> ident \<Rightarrow> string option \<Rightarrow> session_error + session_state" where
  "apply_label s n targetId label =
     bindR (guardR (map_has (entriesById s) targetId)
              (invalidMutation (''references missing label target '' @ targetId))) (\<lambda>_.
     Inr (s\<lparr>sequence := n,
           labels := (case label of None \<Rightarrow> AList.delete targetId (labels s)
                      | Some l \<Rightarrow> AList.update targetId l (labels s)),
           logItems := logItems s @ [LogLabel n targetId label]\<rparr>))"

definition applyMutation :: "session_state \<Rightarrow> session_mutation \<Rightarrow> session_error + session_state" where
  "applyMutation s m =
     bindR (guardR (mutation_seq m = sequence s + 1)
              (invalidMutation (''has non-consecutive seq '' @ decimal (mutation_seq m)))) (\<lambda>_.
     case m of
       MutEntry lane e \<Rightarrow> apply_entry s lane e
     | MutRecord r \<Rightarrow> apply_record s r
     | MutLane n lane leafId \<Rightarrow> apply_lane s n lane leafId
     | MutName n nm \<Rightarrow> apply_name s n nm
     | MutLabel n targetId label \<Rightarrow> apply_label s n targetId label)"

section \<open>Queries\<close>

definition getEntry :: "session_state \<Rightarrow> ident \<Rightarrow> entry option" where
  "getEntry s i = map_of (entriesById s) i"

definition matchesEntryQuery :: "entry \<Rightarrow> entry_query \<Rightarrow> bool" where
  "matchesEntryQuery e q =
     ((case eq_type q of None \<Rightarrow> True | Some t \<Rightarrow> entry_type_of e = t) \<and>
      (case eq_customType q of None \<Rightarrow> True
       | Some c \<Rightarrow> (case payload e of CustomEntry c' _ \<Rightarrow> c' = c | _ \<Rightarrow> False)) \<and>
      (case eq_afterSeq q of None \<Rightarrow> True
       | Some n \<Rightarrow> if eq_order q = Some OldestFirst then n < int (entry_seq e) else int (entry_seq e) < n))"

definition findEntries :: "session_state \<Rightarrow> entry_query \<Rightarrow> session_error + entry list" where
  "findEntries s q =
     bindR (assertValidLimit (eq_limit q)) (\<lambda>_.
     bindR (assertValidCursor (eq_afterSeq q)) (\<lambda>_.
     Inr (collect (eq_limit q) (\<lambda>e. matchesEntryQuery e q) 0 (ordered (entries s) (eq_order q)))))"

text \<open>
  The generator \<open>walkToRoot\<close> yields entries and may then throw. Its model gives the entries it
  yields, in order, and the error that ends it, if any. The bounds are absent in one of its uses.
\<close>

definition reaches_bound :: "entry \<Rightarrow> branch_bounds option \<Rightarrow> bool" where
  "reaches_bound e bounds =
     (case bounds of None \<Rightarrow> False
      | Some b \<Rightarrow> Some (entry_id e) = bb_stopAtId b \<or> Some (entry_type_of e) = bb_stopAtType b)"

function walk_key ::
    "(ident \<times> entry) list \<Rightarrow> branch_bounds option \<Rightarrow> ident set \<Rightarrow> ident \<Rightarrow> entry list \<times> session_error option" where
  "walk_key byId bounds visited key =
     (case map_of byId key of
        None \<Rightarrow> ([], Some (SessionError Invalid_entry (''Entry not found: '' @ key)))
      | Some current \<Rightarrow>
          if entry_id current \<in> visited then
            ([], Some (SessionError Invalid_entry (''Session branch contains a cycle at '' @ entry_id current)))
          else if reaches_bound current bounds then ([current], None)
          else (case parentId current of
                  None \<Rightarrow> ([current], None)
                | Some p \<Rightarrow>
                    (case walk_key byId bounds (insert (entry_id current) visited) p of
                       (rest, err) \<Rightarrow> (current # rest, err))))"
  by pat_completeness auto
termination
proof (relation "measure (\<lambda>(byId, _, visited, _). card (entry_id ` snd ` set byId - visited))")
  fix byId :: "(ident \<times> entry) list" and bounds visited key current p
  assume cur: "map_of byId key = Some current" and new: "entry_id current \<notin> visited"
  let ?ids = "entry_id ` snd ` set byId"
  have "entry_id current \<in> ?ids" using map_of_SomeD [OF cur] by force
  with new have "?ids - insert (entry_id current) visited \<subset> ?ids - visited" by blast
  then have "card (?ids - insert (entry_id current) visited) < card (?ids - visited)"
    by (simp add: psubset_card_mono)
  then show "((byId, bounds, insert (entry_id current) visited, p), byId, bounds, visited, key)
      \<in> measure (\<lambda>(byId, _, visited, _). card (entry_id ` snd ` set byId - visited))"
    by simp
qed simp

declare walk_key.simps [simp del]

definition walkToRoot ::
    "session_state \<Rightarrow> ident option \<Rightarrow> branch_bounds option \<Rightarrow> entry list \<times> session_error option" where
  "walkToRoot s start bounds =
     (case start of
        None \<Rightarrow> ([], None)
      | Some st \<Rightarrow>
          if map_has (entriesById s) st then walk_key (entriesById s) bounds {} st
          else ([], Some (SessionError Not_found (''Entry not found: '' @ st))))"

text \<open>
  The two loops of \<open>findEntriesOnBranch\<close>. The newest-first loop consumes the generator and may
  break before it throws; the oldest-first one collects the whole path first.
\<close>

fun branch_newest ::
    "entry_query \<Rightarrow> nat \<Rightarrow> entry list \<Rightarrow> session_error option \<Rightarrow> session_error + entry list" where
  "branch_newest q n [] err = (case err of None \<Rightarrow> Inr [] | Some e \<Rightarrow> Inl e)"
| "branch_newest q n (x # xs) err =
     (if \<not> matchesEntryQuery x q then
        (if eq_limit q = Some (int n) then Inr [] else branch_newest q n xs err)
      else if eq_limit q = Some (int (Suc n)) then Inr [x]
      else bindR (branch_newest q (Suc n) xs err) (\<lambda>rest. Inr (x # rest)))"

fun branch_oldest :: "entry_query \<Rightarrow> branch_bounds \<Rightarrow> nat \<Rightarrow> entry list \<Rightarrow> entry list" where
  "branch_oldest q b n [] = []"
| "branch_oldest q b n (x # xs) =
     (let n' = (if matchesEntryQuery x q then Suc n else n);
          rest = (if reaches_bound x (Some b) \<or> eq_limit q = Some (int n') then []
                  else branch_oldest q b n' xs)
      in if matchesEntryQuery x q then x # rest else rest)"

definition findEntriesOnBranch ::
    "session_state \<Rightarrow> entry_query \<Rightarrow> branch_bounds \<Rightarrow> ident \<Rightarrow> session_error + entry list" where
  "findEntriesOnBranch s q b start =
     bindR (assertValidLimit (eq_limit q)) (\<lambda>_.
     bindR (assertValidCursor (eq_afterSeq q)) (\<lambda>_.
     if eq_order q = Some OldestFirst then
       (case walkToRoot s (Some start) None of
          (path, Some e) \<Rightarrow> Inl e
        | (path, None) \<Rightarrow> Inr (branch_oldest q b 0 (rev path)))
     else
       (case walkToRoot s (Some start) (Some b) of (path, err) \<Rightarrow> branch_newest q 0 path err)))"

definition matchesRecordQuery :: "lane_record \<Rightarrow> record_query \<Rightarrow> bool" where
  "matchesRecordQuery r q =
     ((case rq_lane q of None \<Rightarrow> True | Some l \<Rightarrow> record_lane r = l) \<and>
      (case rq_type q of None \<Rightarrow> True | Some t \<Rightarrow> record_type_of r = t) \<and>
      (case rq_runId q of None \<Rightarrow> True
       | Some i \<Rightarrow> if record_type_of r = Rec_operation_started then record_id r = i else record_runId r = Some i) \<and>
      (case rq_operationKind q of None \<Rightarrow> True
       | Some k \<Rightarrow> payload_intent_kind (record_payload r) = Some k) \<and>
      (case rq_afterSeq q of None \<Rightarrow> True | Some n \<Rightarrow> n < int (record_seq r)))"

definition findRecords :: "session_state \<Rightarrow> record_query \<Rightarrow> session_error + lane_record list" where
  "findRecords s q =
     bindR (assertValidLimit (rq_limit q)) (\<lambda>_.
     bindR (assertValidCursor (rq_afterSeq q)) (\<lambda>_.
     Inr (collect (rq_limit q) (\<lambda>r. matchesRecordQuery r q) 0 (ordered (records s) (rq_order q)))))"

definition findOpenOperations :: "session_state \<Rightarrow> ident \<Rightarrow> int option \<Rightarrow> session_error + lane_record list" where
  "findOpenOperations s lane lmt =
     bindR (assertValidLimit lmt) (\<lambda>_.
     let ops = (case map_of (openOperationsByLane s) lane of None \<Rightarrow> [] | Some m \<Rightarrow> rev (map snd m))
     in Inr (case lmt of None \<Rightarrow> ops | Some n \<Rightarrow> take (nat n) ops))"

definition getLog :: "session_state \<Rightarrow> int option \<Rightarrow> int option \<Rightarrow> session_error + log_item list" where
  "getLog s afterSeq lmt =
     bindR (assertValidLimit lmt) (\<lambda>_.
     bindR (assertValidCursor afterSeq) (\<lambda>_.
     Inr (collect lmt (\<lambda>i. case afterSeq of None \<Rightarrow> True | Some n \<Rightarrow> n < int (log_seq i)) 0 (logItems s))))"

definition getName :: "session_state \<Rightarrow> string option" where
  "getName s = sessionName s"

definition getLabel :: "session_state \<Rightarrow> ident \<Rightarrow> string option" where
  "getLabel s i = map_of (labels s) i"

definition getStats :: "session_state \<Rightarrow> session_stats" where
  "getStats s = stats s"

section \<open>Forks\<close>

text \<open>The branch scope selects an entry, the main leaf by default, and forks at it or before it.\<close>

definition fork_target ::
    "session_state \<Rightarrow> ident option \<Rightarrow> fork_position option \<Rightarrow> session_error + ident option" where
  "fork_target s entryId position =
     bindR (case entryId of Some i \<Rightarrow> Inr (Some i) | None \<Rightarrow> requireLane s ''main'') (\<lambda>selected.
     case selected of
       None \<Rightarrow> Inr None
     | Some i \<Rightarrow>
         (case getEntry s i of
            Some e \<Rightarrow>
              if entry_type_of e = Type_message then
                (let pos = (case position of Some p \<Rightarrow> p | None \<Rightarrow> if entryId = None then At else Before)
                 in Inr (if pos = At then Some (entry_id e) else parentId e))
              else Inl (SessionError Invalid_fork_target (''Fork target is not a message entry: '' @ i))
          | None \<Rightarrow> Inl (SessionError Invalid_fork_target (''Fork target is not a message entry: '' @ i))))"

definition whole_query :: entry_query where
  "whole_query = \<lparr>eq_type = None, eq_customType = None, eq_order = Some OldestFirst,
                  eq_limit = None, eq_afterSeq = None\<rparr>"

definition no_bounds :: branch_bounds where
  "no_bounds = \<lparr>bb_stopAtType = None, bb_stopAtId = None\<rparr>"

definition fork_source ::
    "session_state \<Rightarrow> fork_options \<Rightarrow> session_error + (entry list \<times> lane_pointer list)" where
  "fork_source s options =
     (case options of
        ForkTree \<Rightarrow> bindR (findEntries s whole_query) (\<lambda>copied. Inr (copied, getLanes s))
      | ForkBranch entryId position \<Rightarrow>
          bindR (fork_target s entryId position) (\<lambda>targetId.
          bindR (case targetId of None \<Rightarrow> Inr [] | Some t \<Rightarrow> findEntriesOnBranch s whole_query no_bounds t)
                (\<lambda>copied. Inr (copied, [(''main'', targetId)]))))"

fun number_entries :: "nat \<Rightarrow> entry list \<Rightarrow> session_mutation list" where
  "number_entries n [] = []"
| "number_entries n (e # es) = MutEntry None (e\<lparr>entry_seq := n\<rparr>) # number_entries (Suc n) es"

fun number_lanes :: "nat \<Rightarrow> lane_pointer list \<Rightarrow> session_mutation list" where
  "number_lanes n [] = []"
| "number_lanes n ((lane, leafId) # ps) = MutLane n lane leafId # number_lanes (Suc n) ps"

fun number_labels :: "nat \<Rightarrow> (ident \<times> string) list \<Rightarrow> session_mutation list" where
  "number_labels n [] = []"
| "number_labels n ((t, l) # ls) = MutLabel n t (Some l) # number_labels (Suc n) ls"

definition copied_labels :: "(ident \<times> string) list \<Rightarrow> entry list \<Rightarrow> (ident \<times> string) list" where
  "copied_labels ls es =
     concat (map (\<lambda>e. case map_of ls (entry_id e) of None \<Rightarrow> [] | Some l \<Rightarrow> [(entry_id e, l)]) es)"

definition createForkMutations :: "session_state \<Rightarrow> fork_options \<Rightarrow> session_error + session_mutation list" where
  "createForkMutations s options =
     bindR (fork_source s options) (\<lambda>(copied, forkLanes).
     let n1 = 1 + length copied; n2 = n1 + length forkLanes;
         nameMuts = (case sessionName s of None \<Rightarrow> [] | Some nm \<Rightarrow> [MutName n2 (Some nm)])
     in Inr (number_entries 1 copied @ number_lanes n1 forkLanes @ nameMuts
             @ number_labels (n2 + length nameMuts) (copied_labels (labels s) copied)))"

section \<open>The invariant\<close>

text \<open>The ids of the entries, and of everything that has an id.\<close>

definition entry_ids :: "session_state \<Rightarrow> ident set" where
  "entry_ids s = entry_id ` set (entries s)"

text \<open>Every parent is an entry that was appended earlier.\<close>

fun parents_ok :: "ident set \<Rightarrow> entry list \<Rightarrow> bool" where
  "parents_ok A [] = True"
| "parents_ok A (e # es) =
     ((case parentId e of None \<Rightarrow> True | Some p \<Rightarrow> p \<in> A) \<and> parents_ok (insert (entry_id e) A) es)"

definition index_inv :: "session_state \<Rightarrow> bool" where
  "index_inv s \<longleftrightarrow>
     entriesById s = map (\<lambda>e. (entry_id e, e)) (entries s) \<and>
     distinct (map entry_id (entries s) @ map record_id (records s)) \<and>
     usedIds s = entry_ids s \<union> record_id ` set (records s)"

definition tree_inv :: "session_state \<Rightarrow> bool" where
  "tree_inv s \<longleftrightarrow>
     parents_ok {} (entries s) \<and>
     distinct (map fst (lanes s)) \<and> lanes s \<noteq> [] \<and> fst (hd (lanes s)) = ''main'' \<and>
     (\<forall>(l, leaf) \<in> set (lanes s). case leaf of None \<Rightarrow> True | Some t \<Rightarrow> t \<in> entry_ids s) \<and>
     (\<forall>r \<in> set (records s). map_has (lanes s) (record_lane r)) \<and>
     distinct (map fst (labels s)) \<and> fst ` set (labels s) \<subseteq> entry_ids s"

fun log_entry :: "log_item \<Rightarrow> entry option" where
  "log_entry (LogEntry n e) = (if n = entry_seq e then Some e else None)"
| "log_entry _ = None"

fun log_record :: "log_item \<Rightarrow> lane_record option" where
  "log_record (LogRecord n r) = (if n = record_seq r then Some r else None)"
| "log_record _ = None"

text \<open>The log numbers its items from one without a gap, and the entries and records are those
  of the log.\<close>

definition log_inv :: "session_state \<Rightarrow> bool" where
  "log_inv s \<longleftrightarrow>
     map log_seq (logItems s) = [1..<sequence s + 1] \<and>
     entries s = List.map_filter log_entry (logItems s) \<and>
     records s = List.map_filter log_record (logItems s)"

text \<open>The operations of a lane that have started and not finished, oldest first.\<close>

definition open_step :: "ident \<Rightarrow> lane_record list \<Rightarrow> lane_record \<Rightarrow> lane_record list" where
  "open_step lane ops r =
     (if record_lane r \<noteq> lane then ops
      else case record_payload r of
        OperationStarted _ _ \<Rightarrow> ops @ [r]
      | OperationFinished runId _ _ \<Rightarrow> filter (\<lambda>x. record_id x \<noteq> runId) ops
      | _ \<Rightarrow> ops)"

definition open_operations :: "ident \<Rightarrow> lane_record list \<Rightarrow> lane_record list" where
  "open_operations lane rs = foldl (open_step lane) [] rs"

definition ops_of :: "(ident \<times> (ident \<times> lane_record) list) list \<Rightarrow> ident \<Rightarrow> (ident \<times> lane_record) list" where
  "ops_of ops lane = (case map_of ops lane of None \<Rightarrow> [] | Some m \<Rightarrow> m)"

definition ops_inv :: "session_state \<Rightarrow> bool" where
  "ops_inv s \<longleftrightarrow>
     (\<forall>lane. ops_of (openOperationsByLane s) lane
        = map (\<lambda>r. (record_id r, r)) (open_operations lane (records s)))"

definition usages :: "lane_record list \<Rightarrow> usage list" where
  "usages rs = concat (map (\<lambda>r. case record_payload r of UsageRecord u \<Rightarrow> [ui_usage u] | _ \<Rightarrow> []) rs)"

definition stats_inv :: "session_state \<Rightarrow> bool" where
  "stats_inv s \<longleftrightarrow>
     stats s =
       \<lparr>messageCount = length (filter (\<lambda>e. entry_type_of e = Type_message) (entries s)),
        cachedTokens = sum_list (map u_cacheRead (usages (records s))),
        uncachedTokens = sum_list (map (\<lambda>u. u_input u + u_cacheWrite u) (usages (records s))),
        statTotalTokens = sum_list (map u_totalTokens (usages (records s))),
        costTotal = foldl double_add 0 (map (\<lambda>u. cost_total (u_cost u)) (usages (records s)))\<rparr>"

definition wf_state :: "session_state \<Rightarrow> bool" where
  "wf_state s \<longleftrightarrow> index_inv s \<and> tree_inv s \<and> log_inv s \<and> ops_inv s \<and> stats_inv s"

lemmas apply_defs = apply_entry_def apply_record_def apply_lane_def apply_name_def apply_label_def

lemma parents_ok_append: "parents_ok A (xs @ ys) \<longleftrightarrow> parents_ok A xs \<and> parents_ok (A \<union> entry_id ` set xs) ys"
  by (induction xs arbitrary: A) (auto simp: insert_commute Un_commute)

lemma map_filter_snoc [simp]:
  "List.map_filter f (xs @ [x]) = List.map_filter f xs @ (case f x of None \<Rightarrow> [] | Some y \<Rightarrow> [y])"
  by (auto simp: List.map_filter_def split: option.splits)

lemma index_inv_has [simp]: "index_inv s \<Longrightarrow> map_has (entriesById s) i \<longleftrightarrow> i \<in> entry_ids s"
  by (auto simp: index_inv_def map_has_iff entry_ids_def image_iff)

lemma wf_init: "wf_state init_state"
  by (simp add: wf_state_def init_state_def index_inv_def entry_ids_def tree_inv_def map_has_def log_inv_def
      ops_inv_def ops_of_def open_operations_def stats_inv_def usages_def List.map_filter_def)

text \<open>What an accepted mutation did, one case per kind; the invariants are proved case by case.\<close>

lemma applyMutation_elim [consumes 1, case_names Entry Record Lane Name Label]:
  assumes "applyMutation s m = Inr t"
  obtains
    (Entry) lane e where "m = MutEntry lane e" "entry_seq e = sequence s + 1" "entry_id e \<notin> usedIds s"
      "\<And>l. lane = Some l \<Longrightarrow> map_of (lanes s) l = Some (parentId e)"
      "\<And>p. parentId e = Some p \<Longrightarrow> map_has (entriesById s) p"
      "t = s\<lparr>sequence := sequence s + 1, usedIds := insert (entry_id e) (usedIds s),
             entries := entries s @ [e], entriesById := AList.update (entry_id e) e (entriesById s),
             lanes := (case lane of None \<Rightarrow> lanes s | Some l \<Rightarrow> AList.update l (Some (entry_id e)) (lanes s)),
             logItems := logItems s @ [LogEntry (sequence s + 1) e],
             stats := (if entry_type_of e = Type_message
                       then (stats s)\<lparr>messageCount := messageCount (stats s) + 1\<rparr> else stats s)\<rparr>"
  | (Record) r where "m = MutRecord r" "record_seq r = sequence s + 1" "map_has (lanes s) (record_lane r)"
      "record_id r \<notin> usedIds s"
      "t = s\<lparr>sequence := sequence s + 1, usedIds := insert (record_id r) (usedIds s),
             records := records s @ [r], openOperationsByLane := track_operation (openOperationsByLane s) r,
             logItems := logItems s @ [LogRecord (sequence s + 1) r],
             stats := (case record_payload r of UsageRecord u \<Rightarrow> add_usage (stats s) (ui_usage u) | _ \<Rightarrow> stats s)\<rparr>"
  | (Lane) lane leafId where "m = MutLane (sequence s + 1) lane leafId"
      "\<And>i. leafId = Some i \<Longrightarrow> map_has (entriesById s) i"
      "t = s\<lparr>sequence := sequence s + 1, lanes := AList.update lane leafId (lanes s),
             logItems := logItems s @ [LogLane (sequence s + 1) lane leafId]\<rparr>"
  | (Name) nm where "m = MutName (sequence s + 1) nm"
      "t = s\<lparr>sequence := sequence s + 1, sessionName := nm, logItems := logItems s @ [LogName (sequence s + 1) nm]\<rparr>"
  | (Label) targetId label where "m = MutLabel (sequence s + 1) targetId label"
      "map_has (entriesById s) targetId"
      "t = s\<lparr>sequence := sequence s + 1,
             labels := (case label of None \<Rightarrow> AList.delete targetId (labels s)
                        | Some l \<Rightarrow> AList.update targetId l (labels s)),
             logItems := logItems s @ [LogLabel (sequence s + 1) targetId label]\<rparr>"
proof (cases m)
  case (MutEntry lane e)
  with assms have "entry_seq e = sequence s + 1" and "apply_entry s lane e = Inr t"
    by (auto simp: applyMutation_def result_simps)
  then show thesis
    by (intro Entry [OF MutEntry]) (auto simp: apply_entry_def result_simps split: option.splits)
next
  case (MutRecord r)
  with assms have "record_seq r = sequence s + 1" and "apply_record s r = Inr t"
    by (auto simp: applyMutation_def result_simps)
  then show thesis
    by (intro Record [OF MutRecord]) (auto simp: apply_record_def result_simps)
next
  case (MutLane n lane leafId)
  with assms have "n = sequence s + 1" and "apply_lane s n lane leafId = Inr t"
    by (auto simp: applyMutation_def result_simps)
  with MutLane show thesis
    by (intro Lane) (auto simp: apply_lane_def result_simps split: option.splits)
next
  case (MutName n nm)
  with assms have "n = sequence s + 1" and "apply_name s n nm = Inr t"
    by (auto simp: applyMutation_def result_simps)
  with MutName show thesis by (intro Name) (auto simp: apply_name_def)
next
  case (MutLabel n targetId label)
  with assms have "n = sequence s + 1" and "apply_label s n targetId label = Inr t"
    by (auto simp: applyMutation_def result_simps)
  with MutLabel show thesis by (intro Label) (auto simp: apply_label_def result_simps)
qed

lemma index_inv_apply:
  assumes "applyMutation s m = Inr t" and "index_inv s"
  shows "index_inv t"
  using assms
proof (cases rule: applyMutation_elim)
  case (Entry lane e)
  have "entry_id e \<notin> fst ` set (entriesById s)"
    using assms(2) Entry(3) by (auto simp: index_inv_def entry_ids_def)
  with Entry assms(2) show ?thesis
    by (auto simp: index_inv_def entry_ids_def update_fresh)
qed (auto simp: index_inv_def entry_ids_def)

lemma log_inv_apply:
  assumes "applyMutation s m = Inr t" and "log_inv s"
  shows "log_inv t"
  using assms by (cases rule: applyMutation_elim) (auto simp: log_inv_def)

lemma tree_inv_apply:
  assumes "applyMutation s m = Inr t" and "index_inv s" and "tree_inv s"
  shows "tree_inv t"
  using assms(1)
proof (cases rule: applyMutation_elim)
  case (Entry lane e)
  have "entries t = entries s @ [e]" "labels t = labels s" "records t = records s"
    "entry_ids t = insert (entry_id e) (entry_ids s)"
    using Entry by (simp_all add: entry_ids_def)
  moreover have "parents_ok {} (entries s @ [e])"
    using assms(2,3) Entry(5) by (auto simp: tree_inv_def parents_ok_append entry_ids_def split: option.splits)
  moreover have "lanes t = (case lane of None \<Rightarrow> lanes s | Some l \<Rightarrow> AList.update l (Some (entry_id e)) (lanes s))"
    using Entry by simp
  ultimately show ?thesis
    using assms(3) by (auto simp: tree_inv_def map_has_iff dest!: alist_update_memD split: option.splits)
next
  case (Label targetId label)
  with assms(2,3) show ?thesis
    by (auto simp: tree_inv_def entry_ids_def split: option.splits)
next
  case (Record r)
  with assms(3) show ?thesis by (auto simp: tree_inv_def entry_ids_def split: option.splits)
next
  case (Lane lane leafId)
  with assms(2,3) show ?thesis
    by (auto simp: tree_inv_def index_inv_def entry_ids_def map_has_iff dest!: alist_update_memD split: option.splits)
next
  case (Name nm)
  with assms(3) show ?thesis by (auto simp: tree_inv_def entry_ids_def split: option.splits)
qed

lemma open_operations_snoc: "open_operations lane (rs @ [r]) = open_step lane (open_operations lane rs) r"
  by (simp add: open_operations_def)

lemma open_operations_subset: "set (open_operations lane rs) \<subseteq> set rs"
proof (induction rs rule: rev_induct)
  case Nil
  then show ?case by (simp add: open_operations_def)
next
  case (snoc r rs)
  then show ?case
    by (auto simp: open_operations_snoc open_step_def split: record_payload.splits if_splits)
qed

lemma ops_of_track:
  "ops_of (track_operation ops r) lane =
     (if record_lane r \<noteq> lane then ops_of ops lane
      else case record_payload r of
        OperationStarted _ _ \<Rightarrow> AList.update (record_id r) r (ops_of ops lane)
      | OperationFinished runId _ _ \<Rightarrow> AList.delete runId (ops_of ops lane)
      | _ \<Rightarrow> ops_of ops lane)"
  by (auto simp: ops_of_def track_operation_def alist_of_update split: record_payload.splits option.splits)

lemma ops_inv_apply:
  assumes "applyMutation s m = Inr t" and "index_inv s" and "ops_inv s"
  shows "ops_inv t"
  using assms(1)
proof (cases rule: applyMutation_elim)
  case (Record r)
  let ?key = "\<lambda>ops. map (\<lambda>r. (record_id r, r)) ops"
  have fresh: "record_id r \<notin> fst ` set (?key (open_operations lane (records s)))" for lane
    using assms(2) Record(4) open_operations_subset by (fastforce simp: index_inv_def)
  have "ops_of (track_operation (openOperationsByLane s) r) lane
        = ?key (open_step lane (open_operations lane (records s)) r)" for lane
    using assms(3) update_fresh [OF fresh]
    by (simp add: ops_of_track ops_inv_def open_step_def delete_map_key split: record_payload.split)
  with Record show ?thesis by (simp add: ops_inv_def open_operations_snoc)
qed (use assms(3) in \<open>auto simp: ops_inv_def\<close>)

lemma usages_snoc [simp]:
  "usages (rs @ [r]) = usages rs @ (case record_payload r of UsageRecord u \<Rightarrow> [ui_usage u] | _ \<Rightarrow> [])"
  by (simp add: usages_def)

lemma stats_inv_apply:
  assumes "applyMutation s m = Inr t" and "stats_inv s"
  shows "stats_inv t"
  using assms
proof (cases rule: applyMutation_elim)
  case (Record r)
  with assms(2) show ?thesis
    by (cases "record_payload r") (auto simp: stats_inv_def add_usage_def)
qed (auto simp: stats_inv_def)

interpretation session_machine: machine_invariant applyMutation init_state wf_state
  by unfold_locales
    (auto simp: wf_init, auto simp: wf_state_def
      intro: index_inv_apply tree_inv_apply log_inv_apply ops_inv_apply stats_inv_apply)

lemma wf_apply: "wf_state s \<Longrightarrow> applyMutation s m = Inr t \<Longrightarrow> wf_state t"
  by (rule session_machine.inv_step)

section \<open>What the queries return\<close>

text \<open>
  The path of an entry: the entry itself, then its parent, and so on to a root.
\<close>

fun branch_path :: "session_state \<Rightarrow> ident \<Rightarrow> entry list \<Rightarrow> bool" where
  "branch_path s i [] = False"
| "branch_path s i (e # es) =
     (getEntry s i = Some e \<and> entry_id e = i \<and>
      (case parentId e of None \<Rightarrow> es = [] | Some p \<Rightarrow> branch_path s p es))"

lemma parents_ok_nth:
  "parents_ok A es \<Longrightarrow> n < length es \<Longrightarrow> parentId (es ! n) = Some p \<Longrightarrow>
     p \<in> A \<or> (\<exists>k<n. entry_id (es ! k) = p)"
proof (induction es arbitrary: A n)
  case Nil
  then show ?case by simp
next
  case (Cons e es)
  show ?case
  proof (cases n)
    case 0
    with Cons.prems show ?thesis by (auto split: option.splits)
  next
    case (Suc m)
    with Cons.IH [of "insert (entry_id e) A" m] Cons.prems
    have "p \<in> insert (entry_id e) A \<or> (\<exists>k<m. entry_id (es ! k) = p)" by auto
    then show ?thesis using Suc by (metis Suc_less_eq insertE nth_Cons_0 nth_Cons_Suc zero_less_Suc)
  qed
qed

lemma getEntry_nth:
  assumes "index_inv s" and "n < length (entries s)"
  shows "getEntry s (entry_id (entries s ! n)) = Some (entries s ! n)"
  using assms by (simp add: index_inv_def getEntry_def map_of_map_key distinct_map_find)

lemma getEntry_SomeD: "index_inv s \<Longrightarrow> getEntry s i = Some e \<Longrightarrow> e \<in> set (entries s) \<and> entry_id e = i"
  by (auto simp: index_inv_def getEntry_def map_of_map_key dest: find_Some_iff')

lemma parent_position:
  assumes "tree_inv s" and "n < length (entries s)" and "parentId (entries s ! n) = Some p"
  obtains k where "k < n" "entry_id (entries s ! k) = p"
  using parents_ok_nth [of "{}" "entries s" n p] assms by (auto simp: tree_inv_def)

text \<open>On a well-formed state the walk from an entry never throws and never meets a cycle: it
  follows positions downwards.\<close>

lemma walk_key_path:
  assumes "index_inv s" and "tree_inv s"
  shows "n < length (entries s) \<Longrightarrow> (\<forall>k\<le>n. entry_id (entries s ! k) \<notin> visited) \<Longrightarrow>
    \<exists>path. walk_key (entriesById s) None visited (entry_id (entries s ! n)) = (path, None)
      \<and> branch_path s (entry_id (entries s ! n)) path"
proof (induction n arbitrary: visited rule: less_induct)
  case (less n)
  let ?e = "entries s ! n"
  have e: "map_of (entriesById s) (entry_id ?e) = Some ?e"
    using getEntry_nth [OF assms(1) less.prems(1)] by (simp add: getEntry_def)
  have new: "entry_id ?e \<notin> visited" using less.prems(2) by simp
  show ?case
  proof (cases "parentId ?e")
    case None
    with e new show ?thesis
      by (subst walk_key.simps) (simp add: reaches_bound_def getEntry_def)
  next
    case (Some p)
    then obtain k where k: "k < n" "entry_id (entries s ! k) = p"
      using parent_position [OF assms(2) less.prems(1)] by blast
    have "\<forall>j\<le>k. entry_id (entries s ! j) \<notin> insert (entry_id ?e) visited"
    proof (intro allI impI)
      fix j assume "j \<le> k"
      then have "j < n" using k(1) by simp
      then have "entry_id (entries s ! j) \<noteq> entry_id ?e"
        using assms(1) less.prems(1) nth_eq_iff_index_eq [of "map entry_id (entries s)" j n]
        by (auto simp: index_inv_def)
      then show "entry_id (entries s ! j) \<notin> insert (entry_id ?e) visited"
        using less.prems(2) \<open>j < n\<close> by simp
    qed
    then obtain path where "walk_key (entriesById s) None (insert (entry_id ?e) visited) p = (path, None)"
        and "branch_path s p path"
      using less.IH [OF k(1), of "insert (entry_id ?e) visited"] less.prems(1) k by auto
    with Some e new show ?thesis
      by (subst walk_key.simps) (simp add: reaches_bound_def getEntry_def)
  qed
qed

lemma walkToRoot_path:
  assumes "wf_state s" and "i \<in> entry_ids s"
  obtains path where "walkToRoot s (Some i) None = (path, None)" "branch_path s i path"
proof -
  from assms have inv: "index_inv s" "tree_inv s" by (simp_all add: wf_state_def)
  from assms(2) obtain n where n: "n < length (entries s)" "entry_id (entries s ! n) = i"
    by (auto simp: entry_ids_def in_set_conv_nth)
  obtain path where "walk_key (entriesById s) None {} i = (path, None)" "branch_path s i path"
    using walk_key_path [OF inv n(1), of "{}"] n(2) by auto
  with inv assms(2) show thesis by (intro that) (simp_all add: walkToRoot_def)
qed

text \<open>Bounds cut the walk after the first entry that meets them.\<close>

lemma walk_key_bounds:
  assumes "walk_key byId None visited key = (path, None)"
  shows "walk_key byId bounds visited key = (take_until (\<lambda>e. reaches_bound e bounds) path, None)"
  using assms
proof (induction byId "None :: branch_bounds option" visited key arbitrary: path rule: walk_key.induct)
  case (1 byId visited key)
  from "1.prems" obtain current where cur: "map_of byId key = Some current" "entry_id current \<notin> visited"
    by (subst (asm) walk_key.simps) (auto split: option.splits if_splits)
  show ?case
  proof (cases "parentId current")
    case None
    with "1.prems" cur have "path = [current]"
      by (subst (asm) walk_key.simps) (simp add: reaches_bound_def)
    with None cur show ?thesis by (subst walk_key.simps) simp
  next
    case (Some p)
    with "1.prems" cur obtain rest where rest: "path = current # rest"
        "walk_key byId None (insert (entry_id current) visited) p = (rest, None)"
      by (subst (asm) walk_key.simps) (auto simp: reaches_bound_def split: prod.splits)
    have "walk_key byId bounds (insert (entry_id current) visited) p
        = (take_until (\<lambda>e. reaches_bound e bounds) rest, None)"
      by (rule "1.hyps" [OF cur _ Some rest(2)]) (simp add: reaches_bound_def)
    with Some cur rest(1) show ?thesis by (subst walk_key.simps) simp
  qed
qed

lemma branch_newest_limit:
  assumes "\<And>k. eq_limit q = Some k \<Longrightarrow> int n < k"
  shows "branch_newest q n xs None = Inr (collect (eq_limit q) (\<lambda>e. matchesEntryQuery e q) n xs)"
  using assms
proof (induction xs arbitrary: n)
  case Nil
  then show ?case by simp
next
  case (Cons x xs)
  have "branch_newest q (Suc n) xs None = Inr (collect (eq_limit q) (\<lambda>e. matchesEntryQuery e q) (Suc n) xs)"
    if "eq_limit q \<noteq> Some (int (Suc n))"
    using Cons.prems that by (intro Cons.IH) fastforce
  with Cons show ?case by auto
qed

lemma branch_oldest_limit:
  assumes "\<And>k. eq_limit q = Some k \<Longrightarrow> int n < k"
  shows "branch_oldest q b n xs
    = collect (eq_limit q) (\<lambda>e. matchesEntryQuery e q) n (take_until (\<lambda>e. reaches_bound e (Some b)) xs)"
  using assms
proof (induction xs arbitrary: n)
  case Nil
  then show ?case by simp
next
  case (Cons x xs)
  have "branch_oldest q b (Suc n) xs = collect (eq_limit q) (\<lambda>e. matchesEntryQuery e q) (Suc n)
      (take_until (\<lambda>e. reaches_bound e (Some b)) xs)"
    if "eq_limit q \<noteq> Some (int (Suc n))"
    using Cons.prems that by (intro Cons.IH) fastforce
  with Cons show ?case by (auto simp: Let_def)
qed

definition valid_query :: "int option \<Rightarrow> int option \<Rightarrow> bool" where
  "valid_query lmt afterSeq =
     ((case lmt of None \<Rightarrow> True | Some n \<Rightarrow> 0 < n) \<and> (case afterSeq of None \<Rightarrow> True | Some n \<Rightarrow> 0 \<le> n))"

lemmas assert_defs = assertValidLimit_def assertValidCursor_def

lemma assert_valid:
  "valid_query lmt afterSeq \<Longrightarrow> assertValidLimit lmt = Inr () \<and> assertValidCursor afterSeq = Inr ()"
  by (auto simp: valid_query_def assert_defs split: option.splits)

lemma valid_limit_pos: "valid_query lmt afterSeq \<Longrightarrow> lmt = Some n \<Longrightarrow> 0 < n"
  by (simp add: valid_query_def)

lemma findEntries_eq:
  assumes "valid_query (eq_limit q) (eq_afterSeq q)"
  shows "findEntries s q
    = Inr (take_limit (eq_limit q) (filter (\<lambda>e. matchesEntryQuery e q) (ordered (entries s) (eq_order q))))"
  using assert_valid [OF assms] valid_limit_pos [OF assms] by (simp add: findEntries_def collect_limit)

lemma findEntriesOnBranch_eq:
  assumes "valid_query (eq_limit q) (eq_afterSeq q)" and "walkToRoot s (Some i) None = (path, None)"
  shows "findEntriesOnBranch s q b i
    = Inr (take_limit (eq_limit q) (filter (\<lambda>e. matchesEntryQuery e q)
        (take_until (\<lambda>e. reaches_bound e (Some b)) (if eq_order q = Some OldestFirst then rev path else path))))"
proof (cases "eq_order q = Some OldestFirst")
  case True
  with assms(2) assert_valid [OF assms(1)] valid_limit_pos [OF assms(1)] show ?thesis
    by (simp add: findEntriesOnBranch_def branch_oldest_limit collect_limit)
next
  case False
  from assms(2) have "walk_key (entriesById s) None {} i = (path, None)" and "map_has (entriesById s) i"
    by (auto simp: walkToRoot_def split: if_splits)
  then have "walkToRoot s (Some i) (Some b) = (take_until (\<lambda>e. reaches_bound e (Some b)) path, None)"
    by (simp add: walkToRoot_def walk_key_bounds)
  with False assert_valid [OF assms(1)] valid_limit_pos [OF assms(1)] show ?thesis
    by (simp add: findEntriesOnBranch_def branch_newest_limit collect_limit)
qed

section \<open>Forks replay on a fresh state\<close>

text \<open>The effect of the four groups of fork mutations on a state that is at the right sequence
  number.\<close>

fun renumber :: "nat \<Rightarrow> entry list \<Rightarrow> entry list" where
  "renumber n [] = []"
| "renumber n (e # es) = e\<lparr>entry_seq := n\<rparr> # renumber (Suc n) es"

lemma renumber_ids [simp]: "map entry_id (renumber n es) = map entry_id es"
  by (induction n es rule: renumber.induct) auto

lemma renumber_set_ids [simp]: "entry_id ` set (renumber n es) = entry_id ` set es"
  by (metis list.set_map renumber_ids)

lemma renumber_length [simp]: "length (renumber n es) = length es"
  by (induction n es rule: renumber.induct) auto

lemma apply_entries:
  assumes "index_inv s" and "parents_ok (entry_ids s) es" and "distinct (map entry_id es)"
    and "entry_id ` set es \<inter> usedIds s = {}" and "n = sequence s + 1"
  shows "\<exists>t. foldR applyMutation s (number_entries n es) = Inr t \<and> index_inv t
    \<and> entries t = entries s @ renumber n es \<and> records t = records s
    \<and> lanes t = lanes s \<and> labels t = labels s \<and> sessionName t = sessionName s
    \<and> sequence t = sequence s + length es"
  using assms
proof (induction es arbitrary: s n)
  case Nil
  then show ?case by simp
next
  case (Cons e es)
  let ?e = "e\<lparr>entry_seq := n\<rparr>"
  have "entry_id e \<notin> usedIds s" and "\<And>p. parentId e = Some p \<Longrightarrow> map_has (entriesById s) p"
    using Cons.prems by (auto split: option.splits)
  then obtain t where t: "applyMutation s (MutEntry None ?e) = Inr t"
    using Cons.prems(5) by (auto simp: applyMutation_def apply_entry_def result_simps split: option.splits)
  then have t': "entries t = entries s @ [?e]" "records t = records s" "lanes t = lanes s"
      "labels t = labels s" "sessionName t = sessionName s" "sequence t = sequence s + 1"
      "usedIds t = insert (entry_id e) (usedIds s)" "entry_ids t = insert (entry_id e) (entry_ids s)"
    using Cons.prems(5) by (auto simp: applyMutation_def apply_entry_def result_simps entry_ids_def)
  have "index_inv t" using index_inv_apply [OF t Cons.prems(1)] .
  moreover have "parents_ok (entry_ids t) es" "distinct (map entry_id es)" "entry_id ` set es \<inter> usedIds t = {}"
    using Cons.prems t' by auto
  ultimately obtain u where "foldR applyMutation t (number_entries (Suc n) es) = Inr u" "index_inv u"
      "entries u = entries t @ renumber (Suc n) es" "records u = records t" "lanes u = lanes t"
      "labels u = labels t" "sessionName u = sessionName t" "sequence u = sequence t + length es"
    using Cons.IH [of t "Suc n"] Cons.prems(5) t'(6) by auto
  with t t' show ?case by simp
qed

lemma apply_lanes:
  assumes "index_inv s" and "\<forall>(l, leaf) \<in> set ps. case leaf of None \<Rightarrow> True | Some i \<Rightarrow> i \<in> entry_ids s"
    and "n = sequence s + 1"
  shows "\<exists>t. foldR applyMutation s (number_lanes n ps) = Inr t \<and> index_inv t
    \<and> entries t = entries s \<and> records t = records s \<and> labels t = labels s \<and> sessionName t = sessionName s
    \<and> lanes t = foldl (\<lambda>m (l, leaf). AList.update l leaf m) (lanes s) ps
    \<and> sequence t = sequence s + length ps"
  using assms
proof (induction n ps arbitrary: s rule: number_lanes.induct)
  case (1 n)
  then show ?case by simp
next
  case (2 n lane leaf ps)
  have ok: "\<And>i. leaf = Some i \<Longrightarrow> map_has (entriesById s) i" using "2.prems" by auto
  obtain t where t: "applyMutation s (MutLane n lane leaf) = Inr t"
      and t': "t = s\<lparr>sequence := n, lanes := AList.update lane leaf (lanes s),
                    logItems := logItems s @ [LogLane n lane leaf]\<rparr>"
    using ok "2.prems"(3) by (auto simp: applyMutation_def apply_lane_def result_simps split: option.splits)
  have "index_inv t" using index_inv_apply [OF t "2.prems"(1)] .
  moreover have "\<forall>(l, leaf) \<in> set ps. case leaf of None \<Rightarrow> True | Some i \<Rightarrow> i \<in> entry_ids t"
    using "2.prems"(2) t' by (auto simp: entry_ids_def split: option.splits)
  ultimately show ?case using "2.IH" [of t] t t' "2.prems"(3) by auto
qed

lemma apply_labels:
  assumes "index_inv s" and "fst ` set ls \<subseteq> entry_ids s" and "n = sequence s + 1"
  shows "\<exists>t. foldR applyMutation s (number_labels n ls) = Inr t
    \<and> entries t = entries s \<and> records t = records s \<and> lanes t = lanes s \<and> sessionName t = sessionName s
    \<and> map_of (labels t) = map_of (labels s) ++ map_of (rev ls)"
  using assms
proof (induction n ls arbitrary: s rule: number_labels.induct)
  case (1 n)
  then show ?case by simp
next
  case (2 n i l ls)
  obtain t where t: "applyMutation s (MutLabel n i (Some l)) = Inr t"
      and t': "t = s\<lparr>sequence := n, labels := AList.update i l (labels s),
                    logItems := logItems s @ [LogLabel n i (Some l)]\<rparr>"
    using "2.prems" by (auto simp: applyMutation_def apply_label_def result_simps)
  have "index_inv t" using index_inv_apply [OF t "2.prems"(1)] .
  moreover have "fst ` set ls \<subseteq> entry_ids t" using "2.prems"(2) t' by (auto simp: entry_ids_def)
  ultimately obtain u where "foldR applyMutation t (number_labels (Suc n) ls) = Inr u"
      "entries u = entries t" "records u = records t" "lanes u = lanes t" "sessionName u = sessionName t"
      "map_of (labels u) = map_of (labels t) ++ map_of (rev ls)"
    using "2.IH" [of t] t' "2.prems"(3) by auto
  with t t' show ?case by (simp add: update_conv')
qed

text \<open>What a fork copies: entries closed under parents, and lanes that point into them.\<close>

definition fork_ok :: "entry list \<Rightarrow> lane_pointer list \<Rightarrow> bool" where
  "fork_ok es ps \<longleftrightarrow>
     parents_ok {} es \<and> distinct (map entry_id es) \<and> distinct (map fst ps) \<and>
     ps \<noteq> [] \<and> fst (hd ps) = ''main'' \<and>
     (\<forall>(l, leaf) \<in> set ps. case leaf of None \<Rightarrow> True | Some i \<Rightarrow> i \<in> entry_id ` set es)"

lemma branch_path_walk_closed:
  assumes "branch_path s i path"
  shows "parents_ok {} (rev path) \<and> i \<in> entry_id ` set path"
  using assms
proof (induction path arbitrary: i)
  case Nil
  then show ?case by simp
next
  case (Cons e es)
  then show ?case by (auto simp: parents_ok_append split: option.splits)
qed

lemma branch_path_positions:
  assumes "index_inv s" and "tree_inv s"
  shows "branch_path s i path \<Longrightarrow> n < length (entries s) \<Longrightarrow> entry_id (entries s ! n) = i \<Longrightarrow>
    distinct (map entry_id path) \<and> set path \<subseteq> set (take (Suc n) (entries s))"
proof (induction path arbitrary: i n)
  case Nil
  then show ?case by simp
next
  case (Cons e es)
  have e: "e = entries s ! n"
    using Cons.prems getEntry_nth [OF assms(1)] by auto
  have e_in: "e \<in> set (take (Suc n) (entries s))"
    using Cons.prems(2) e by (simp add: take_Suc_conv_app_nth)
  show ?case
  proof (cases "parentId e")
    case None
    with Cons.prems(1) e_in show ?thesis by simp
  next
    case (Some p)
    then obtain k where k: "k < n" "entry_id (entries s ! k) = p"
      using parent_position [OF assms(2) Cons.prems(2)] e by blast
    have rest: "distinct (map entry_id es)" "set es \<subseteq> set (take (Suc k) (entries s))"
      using Cons.IH [of p k] Cons.prems Some k by auto
    have sub: "set es \<subseteq> set (take n (entries s))"
      using rest(2) k(1) set_take_subset_set_take [of "Suc k" n "entries s"] by auto
    have "entry_id e \<notin> entry_id ` set es"
    proof
      assume "entry_id e \<in> entry_id ` set es"
      then obtain x where "x \<in> set (take n (entries s))" "entry_id x = entry_id (entries s ! n)"
        using sub e by force
      then obtain j where "j < n" "entry_id (entries s ! j) = entry_id (entries s ! n)"
        by (auto simp: in_set_conv_nth)
      then show False
        using assms(1) Cons.prems(2) nth_eq_iff_index_eq [of "map entry_id (entries s)" j n]
        by (auto simp: index_inv_def)
    qed
    moreover have "set es \<subseteq> set (take (Suc n) (entries s))"
      using sub set_take_subset_set_take [of n "Suc n" "entries s"] by auto
    ultimately show ?thesis using rest(1) e_in by auto
  qed
qed

lemma branch_path_distinct:
  assumes "wf_state s" and "branch_path s i path"
  shows "distinct (map entry_id path)"
proof -
  from assms obtain e where "getEntry s i = Some e" by (cases path) auto
  then have "e \<in> set (entries s)" "entry_id e = i"
    using getEntry_SomeD assms(1) by (auto simp: wf_state_def)
  then obtain n where "n < length (entries s)" "entry_id (entries s ! n) = i"
    by (auto simp: in_set_conv_nth)
  with branch_path_positions assms show ?thesis by (auto simp: wf_state_def)
qed

lemma whole_query_simps [simp]:
  "matchesEntryQuery e whole_query" "eq_limit whole_query = None" "eq_afterSeq whole_query = None"
  "eq_order whole_query = Some OldestFirst" "valid_query None None" "\<not> reaches_bound e (Some no_bounds)"
  by (simp_all add: matchesEntryQuery_def whole_query_def no_bounds_def reaches_bound_def valid_query_def)

lemma fork_source_tree: "fork_source s ForkTree = Inr (entries s, lanes s)"
  by (simp add: fork_source_def findEntries_eq getLanes_def take_limit_def ordered_def)

lemma branch_whole:
  assumes "wf_state s" and "t \<in> entry_ids s"
  obtains path where "findEntriesOnBranch s whole_query no_bounds t = Inr (rev path)" "branch_path s t path"
proof -
  obtain path where path: "walkToRoot s (Some t) None = (path, None)" "branch_path s t path"
    using walkToRoot_path [OF assms] by blast
  have "findEntriesOnBranch s whole_query no_bounds t = Inr (rev path)"
    using findEntriesOnBranch_eq [OF _ path(1), of whole_query no_bounds] by (simp add: take_limit_def)
  from this path(2) show thesis by (rule that)
qed

lemma findEntriesOnBranch_known:
  "index_inv s \<Longrightarrow> findEntriesOnBranch s whole_query no_bounds t = Inr es \<Longrightarrow> t \<in> entry_ids s"
  by (auto simp: findEntriesOnBranch_def result_simps walkToRoot_def split: if_splits)

lemma fork_source_branch:
  assumes "wf_state s" and "fork_source s (ForkBranch entryId position) = Inr (es, ps)"
  shows "fork_ok es ps \<and> set es \<subseteq> set (entries s)"
proof -
  have inv: "index_inv s" "tree_inv s" using assms(1) by (simp_all add: wf_state_def)
  from assms(2) obtain targetId where ps: "ps = [(''main'', targetId)]"
    and es: "(case targetId of None \<Rightarrow> Inr [] | Some t \<Rightarrow> findEntriesOnBranch s whole_query no_bounds t) = Inr es"
    by (auto simp: fork_source_def bindR_Inr_iff)
  show ?thesis
  proof (cases targetId)
    case None
    with es ps show ?thesis by (simp add: fork_ok_def)
  next
    case (Some t)
    have t: "t \<in> entry_ids s" using es Some findEntriesOnBranch_known [OF inv(1)] by auto
    obtain path where whole: "findEntriesOnBranch s whole_query no_bounds t = Inr (rev path)"
        and path': "branch_path s t path"
      by (rule branch_whole [OF assms(1) t])
    from whole es Some path' have path: "es = rev path" "branch_path s t path" by simp_all
    obtain n where n: "n < length (entries s)" "entry_id (entries s ! n) = t"
      using t by (auto simp: entry_ids_def in_set_conv_nth)
    have "set path \<subseteq> set (entries s)"
      using branch_path_positions [OF inv path(2) n] set_take_subset by fast
    with Some ps path(1) branch_path_walk_closed [OF path(2)] branch_path_distinct [OF assms(1) path(2)]
    show ?thesis by (simp add: fork_ok_def rev_map [symmetric])
  qed
qed

lemma copied_labels_simps [simp]:
  "copied_labels ls [] = []"
  "copied_labels ls (e # es) =
     (case map_of ls (entry_id e) of None \<Rightarrow> [] | Some l \<Rightarrow> [(entry_id e, l)]) @ copied_labels ls es"
  by (simp_all add: copied_labels_def)

lemma copied_labels_set: "fst ` set (copied_labels ls es) \<subseteq> entry_id ` set es"
  by (induction es) (auto split: option.splits)

lemma copied_labels_mem:
  "(i, l) \<in> set (copied_labels ls es) \<longleftrightarrow> i \<in> entry_id ` set es \<and> map_of ls i = Some l"
proof (induction es)
  case Nil
  then show ?case by simp
next
  case (Cons e es)
  then show ?case by (cases "map_of ls (entry_id e)"; cases "i = entry_id e") auto
qed

lemma copied_labels_distinct: "distinct (map entry_id es) \<Longrightarrow> distinct (map fst (copied_labels ls es))"
proof (induction es)
  case Nil
  then show ?case by simp
next
  case (Cons e es)
  then have "entry_id e \<notin> fst ` set (copied_labels ls es)"
    using copied_labels_set [of ls es] by auto
  with Cons show ?case by (simp split: option.split)
qed

lemma map_of_copied_labels:
  assumes "distinct (map entry_id es)"
  shows "map_of (rev (copied_labels ls es)) i = (if i \<in> entry_id ` set es then map_of ls i else None)"
    (is "map_of ?m i = ?v")
proof -
  have "distinct (map fst ?m)"
    using copied_labels_distinct [OF assms] by (simp add: rev_map [symmetric])
  then have some: "map_of ?m i = Some l \<longleftrightarrow> (i, l) \<in> set ?m" for l
    by (rule map_of_eq_Some_iff)
  have "(i, l) \<in> set ?m \<longleftrightarrow> ?v = Some l" for l
    by (simp add: copied_labels_mem)
  with some have "map_of ?m i = Some l \<longleftrightarrow> ?v = Some l" for l by blast
  then show ?thesis by (metis not_None_eq)
qed

text \<open>Lanes of a fork: setting the pointers one after another on the initial lane map gives the
  pointers themselves, because the first of them is the main lane.\<close>

lemma foldl_update_fresh:
  "distinct (map fst (m @ ps)) \<Longrightarrow> foldl (\<lambda>m (l, leaf). AList.update l leaf m) m ps = m @ ps"
proof (induction ps arbitrary: m)
  case Nil
  then show ?case by simp
next
  case (Cons p ps)
  obtain l leaf where p: "p = (l, leaf)" by force
  have "l \<notin> fst ` set m" using Cons.prems p by auto
  then have "AList.update l leaf m = m @ [(l, leaf)]" by (rule update_fresh)
  with Cons p show ?case by simp
qed

lemma fork_lanes:
  assumes "fork_ok es ps"
  shows "foldl (\<lambda>m (l, leaf). AList.update l leaf m) [(''main'', None)] ps = ps"
proof (cases ps)
  case Nil
  with assms show ?thesis by (simp add: fork_ok_def)
next
  case (Cons p qs)
  with assms obtain leaf where "p = (''main'', leaf)" by (cases p) (simp add: fork_ok_def)
  with Cons assms foldl_update_fresh [of "[p]" qs] show ?thesis by (simp add: fork_ok_def)
qed

text \<open>The replay of the fork mutations, group after group.\<close>

lemma fork_replay:
  assumes "fork_ok es ps"
  shows "\<exists>t. foldR applyMutation init_state
       (number_entries 1 es @ number_lanes (1 + length es) ps @
        (case nm of None \<Rightarrow> [] | Some x \<Rightarrow> [MutName (1 + length es + length ps) (Some x)]) @
        number_labels (1 + length es + length ps + (if nm = None then 0 else 1)) (copied_labels ls es)) = Inr t
    \<and> entries t = renumber 1 es \<and> records t = [] \<and> lanes t = ps \<and> sessionName t = nm
    \<and> (\<forall>i. getLabel t i = (if i \<in> entry_id ` set es then map_of ls i else None))"
proof -
  have init: "index_inv init_state" using wf_init by (simp add: wf_state_def)
  obtain t1 where t1: "foldR applyMutation init_state (number_entries 1 es) = Inr t1" "index_inv t1"
      "entries t1 = renumber 1 es" "records t1 = []" "lanes t1 = [(''main'', None)]" "labels t1 = []"
      "sessionName t1 = None" "sequence t1 = length es"
    using apply_entries [OF init, of es 1] assms by (auto simp: fork_ok_def entry_ids_def init_state_def)
  have ids: "entry_ids t1 = entry_id ` set es" using t1(3) by (simp add: entry_ids_def)
  obtain t2 where t2: "foldR applyMutation t1 (number_lanes (1 + length es) ps) = Inr t2" "index_inv t2"
      "entries t2 = entries t1" "records t2 = []" "labels t2 = []" "sessionName t2 = None" "lanes t2 = ps"
      "sequence t2 = length es + length ps"
    using apply_lanes [OF t1(2), of ps "1 + length es"] assms t1 fork_lanes [OF assms]
    unfolding fork_ok_def ids by auto
  obtain t3 where t3: "foldR applyMutation t2 (case nm of None \<Rightarrow> [] | Some x \<Rightarrow>
        [MutName (1 + length es + length ps) (Some x)]) = Inr t3" "index_inv t3"
      "entries t3 = entries t1" "records t3 = []" "labels t3 = []" "sessionName t3 = nm" "lanes t3 = ps"
      "sequence t3 = length es + length ps + (if nm = None then 0 else 1)"
    using t2 by (cases nm) (auto simp: applyMutation_def apply_name_def index_inv_def entry_ids_def)
  have sub: "fst ` set (copied_labels ls es) \<subseteq> entry_ids t3"
    using copied_labels_set ids t3(3) by (simp add: entry_ids_def)
  have "1 + length es + length ps + (if nm = None then 0 else 1) = sequence t3 + 1"
    using t3(8) by simp
  then obtain t where "foldR applyMutation t3 (number_labels
        (1 + length es + length ps + (if nm = None then 0 else 1)) (copied_labels ls es)) = Inr t"
      "entries t = entries t3" "records t = records t3" "lanes t = lanes t3" "sessionName t = sessionName t3"
      "map_of (labels t) = map_of (labels t3) ++ map_of (rev (copied_labels ls es))"
    using apply_labels [OF t3(2) sub] by blast
  with t1 t2 t3 assms show ?thesis
    by (auto simp: foldR_append getLabel_def map_of_copied_labels fork_ok_def)
qed

text \<open>When a mutation is accepted.\<close>

fun accepts :: "session_state \<Rightarrow> session_mutation \<Rightarrow> bool" where
  "accepts s (MutEntry lane e) =
     (entry_id e \<notin> usedIds s \<and>
      (case lane of None \<Rightarrow> True | Some l \<Rightarrow> map_of (lanes s) l = Some (parentId e)) \<and>
      (case parentId e of None \<Rightarrow> True | Some p \<Rightarrow> p \<in> entry_ids s))"
| "accepts s (MutRecord r) = (map_has (lanes s) (record_lane r) \<and> record_id r \<notin> usedIds s)"
| "accepts s (MutLane n l leaf) = (case leaf of None \<Rightarrow> True | Some i \<Rightarrow> i \<in> entry_ids s)"
| "accepts s (MutName n nm) = True"
| "accepts s (MutLabel n i label) = (i \<in> entry_ids s)"

lemma fork_target_message:
  assumes "getEntry s i = Some e" and "entry_type_of e = Type_message" and "index_inv s"
  shows "fork_target s (Some i) position
    = Inr (if position = Some At then Some i else parentId e)"
  using assms getEntry_SomeD [OF assms(3,1)]
  by (auto simp: fork_target_def Let_def split: option.split fork_position.split)

text \<open>A fork of the whole tree always succeeds on a well-formed state, and its mutations replay
  without error on a fresh state. The copy has the same entries in the same order, numbered from
  one, the same lanes, name and labels, and no records; it is again well formed.\<close>

lemma fork_tree_copy:
  assumes "wf_state s"
  shows "\<exists>ms t. createForkMutations s ForkTree = Inr ms \<and> foldR applyMutation init_state ms = Inr t
    \<and> wf_state t \<and> entries t = renumber 1 (entries s) \<and> lanes t = lanes s \<and> sessionName t = sessionName s
    \<and> (\<forall>i. getLabel t i = getLabel s i) \<and> records t = []"
proof -
  have ok: "fork_ok (entries s) (lanes s)"
    using assms by (auto simp: wf_state_def fork_ok_def index_inv_def tree_inv_def entry_ids_def)
  have labels: "(if i \<in> entry_id ` set (entries s) then map_of (labels s) i else None) = getLabel s i" for i
    using assms map_of_eq_None_iff [of "labels s" i]
    by (auto simp: wf_state_def tree_inv_def entry_ids_def getLabel_def)
  show ?thesis
    using fork_replay [OF ok, of "sessionName s" "labels s"] session_machine.run_start_inv
    by (cases "sessionName s") (auto simp: createForkMutations_def fork_source_tree labels)
qed

section \<open>An example session\<close>

text \<open>Two messages on the main lane, a label, a name, an operation that is open and a second lane;
  the witnesses below evaluate the operations on it.\<close>

definition demo_message :: "ident \<Rightarrow> ident option \<Rightarrow> nat \<Rightarrow> entry" where
  "demo_message i p n =
     \<lparr>entry_id = i, entry_seq = n, parentId = p, entry_timestamp = 100 + n,
      payload = MessageEntry (UserMessage \<lparr>um_content = ContentString (js ''hi''), um_timestamp = 7\<rparr>) False\<rparr>"

definition demo_start :: lane_record where
  "demo_start =
     \<lparr>record_id = ''op'', record_seq = 5, record_lane = ''main'', record_timestamp = 105,
      record_payload = OperationStarted (Some ''b'')
        (CompactionIntent \<lparr>ci_customInstructions = None, ci_resultEntryId = ''c''\<rparr>)\<rparr>"

definition demo_mutations :: "session_mutation list" where
  "demo_mutations =
     [MutEntry (Some ''main'') (demo_message ''a'' None 1),
      MutEntry (Some ''main'') (demo_message ''b'' (Some ''a'') 2),
      MutLabel 3 ''a'' (Some ''start''), MutName 4 (Some ''demo''), MutRecord demo_start,
      MutLane 6 ''side'' (Some ''a'')]"

definition demo_state :: session_state where
  "demo_state =
     (case foldR applyMutation init_state demo_mutations of Inl _ \<Rightarrow> init_state | Inr s \<Rightarrow> s)"

lemmas demo_defs = demo_message_def demo_start_def demo_mutations_def init_state_def

lemma demo_replay: "foldR applyMutation init_state demo_mutations = Inr demo_state"
  by (simp add: demo_state_def demo_defs applyMutation_def apply_defs map_has_def split: sum.split)

lemma demo_fields:
  "entries demo_state = [demo_message ''a'' None 1, demo_message ''b'' (Some ''a'') 2]"
  "lanes demo_state = [(''main'', Some ''b''), (''side'', Some ''a'')]"
  "records demo_state = [demo_start]" "sessionName demo_state = Some ''demo''"
  by (simp_all add: demo_state_def demo_defs applyMutation_def apply_defs map_has_def)

lemma demo_wf: "wf_state demo_state"
  using demo_replay by (rule session_machine.run_start_inv)

lemma demo_ids: "entry_ids demo_state = {''a'', ''b''}"
  by (simp add: entry_ids_def demo_fields demo_message_def)

section \<open>Properties\<close>

text \<open>C1: Every state the session can reach by accepted mutations is well formed: ids are unique
  across entries and records, the id index is the entry list, parents precede their children, lanes
  and labels point to entries, the log is numbered without gaps from one and holds exactly the
  entries and records, the open-operation index agrees with the records, and the statistics are the
  sums over the log.\<close>

theorem reachable_wf_state: "reach applyMutation init_state s \<Longrightarrow> wf_state s"
  by (rule session_machine.reach_inv)

theorem reachable_wf_state_witness: "wf_state demo_state"
proof -
  have "reach applyMutation init_state demo_state"
    using foldR_reach [OF demo_replay reach.start] .
  then show ?thesis by (rule reachable_wf_state)
qed

text \<open>C24: From every entry of a well-formed state the walk to the root ends without an error: no
  missing parent and no cycle. It yields the entry, its parent and so on to a root, each once.\<close>

theorem walkToRoot_total:
  assumes "wf_state s" and "i \<in> entry_ids s"
  shows "\<exists>path. walkToRoot s (Some i) None = (path, None) \<and> branch_path s i path
    \<and> distinct (map entry_id path)"
  using walkToRoot_path [OF assms] branch_path_distinct [OF assms(1)] by metis

theorem walkToRoot_total_witness:
  "walkToRoot demo_state (Some ''b'') None
     = ([demo_message ''b'' (Some ''a'') 2, demo_message ''a'' None 1], None)
   \<and> (\<exists>path. walkToRoot demo_state (Some ''b'') None = (path, None) \<and> branch_path demo_state ''b'' path
        \<and> distinct (map entry_id path))"
proof
  show "\<exists>path. walkToRoot demo_state (Some ''b'') None = (path, None) \<and> branch_path demo_state ''b'' path
      \<and> distinct (map entry_id path)"
    by (rule walkToRoot_total [OF demo_wf]) (simp add: demo_ids)
  have "entriesById demo_state = map (\<lambda>e. (entry_id e, e)) (entries demo_state)"
    using demo_wf by (simp add: wf_state_def index_inv_def)
  then show "walkToRoot demo_state (Some ''b'') None
      = ([demo_message ''b'' (Some ''a'') 2, demo_message ''a'' None 1], None)"
    by (simp add: demo_fields demo_message_def walkToRoot_def map_has_def walk_key.simps reaches_bound_def)
qed

text \<open>C23: On a well-formed state a valid branch query from an entry returns exactly the entries of
  the path from that entry to the root (from the root when the order is oldest first), cut after the
  first entry that meets a bound, filtered by the query, and cut to the limit. The lazy newest-first
  loop and the eager oldest-first loop agree on this.\<close>

theorem findEntriesOnBranch_spec:
  assumes "wf_state s" and "i \<in> entry_ids s" and "valid_query (eq_limit q) (eq_afterSeq q)"
  shows "\<exists>path. branch_path s i path \<and>
    findEntriesOnBranch s q b i
      = Inr (take_limit (eq_limit q) (filter (\<lambda>e. matchesEntryQuery e q)
          (take_until (\<lambda>e. reaches_bound e (Some b)) (if eq_order q = Some OldestFirst then rev path else path))))"
  using walkToRoot_path [OF assms(1,2)] findEntriesOnBranch_eq [OF assms(3)] by metis

theorem findEntriesOnBranch_spec_witness:
  "\<exists>path. branch_path demo_state ''b'' path \<and>
    findEntriesOnBranch demo_state (whole_query\<lparr>eq_limit := Some 1\<rparr>) no_bounds ''b''
      = Inr (take_limit (Some 1) (filter (\<lambda>e. matchesEntryQuery e (whole_query\<lparr>eq_limit := Some 1\<rparr>))
          (take_until (\<lambda>e. reaches_bound e (Some no_bounds)) (rev path))))"
  using findEntriesOnBranch_spec [OF demo_wf, of "''b''" "whole_query\<lparr>eq_limit := Some 1\<rparr>" no_bounds]
  by (simp add: demo_ids valid_query_def whole_query_def)

lemma findOpen_spec:
  assumes "wf_state s" and "valid_query lmt None"
  shows "findOpenOperations s lane lmt = Inr (take_limit lmt (rev (open_operations lane (records s))))"
proof -
  have "ops_of (openOperationsByLane s) lane = map (\<lambda>r. (record_id r, r)) (open_operations lane (records s))"
    using assms(1) by (simp add: wf_state_def ops_inv_def)
  then have "map snd (ops_of (openOperationsByLane s) lane) = open_operations lane (records s)"
    by (simp add: comp_def)
  then have "(case map_of (openOperationsByLane s) lane of None \<Rightarrow> [] | Some m \<Rightarrow> rev (map snd m))
      = rev (open_operations lane (records s))"
    by (auto simp: ops_of_def split: option.splits)
  then show ?thesis
    using assert_valid [OF assms(2)]
    by (simp add: findOpenOperations_def take_limit_def Let_def)
qed

text \<open>The open-operation index implements its specification. On a well-formed state
  \<open>findOpenOperations\<close> returns the operations of the lane that have started and not finished,
  newest first, cut to the limit.\<close>

theorem findOpenOperations_refines:
  assumes "wf_state s" and "valid_query lmt None"
  shows "findOpenOperations s lane lmt = Inr (take_limit lmt (rev (open_operations lane (records s))))"
  using assms by (rule findOpen_spec)

text \<open>A fork at a message entry succeeds on a well-formed state: its mutations replay without
  error on a fresh state, which holds exactly the branch of that entry (with the entry when the
  position is \<open>at\<close>, up to its parent otherwise), oldest first and numbered from one, and whose only
  lane is the main lane at the end of that branch.\<close>

theorem fork_branch_replays:
  assumes "wf_state s" and "getEntry s i = Some e" and "entry_type_of e = Type_message"
    and "target = (if position = Some At then Some i else parentId e)"
  shows "\<exists>path ms t. createForkMutations s (ForkBranch (Some i) position) = Inr ms
    \<and> foldR applyMutation init_state ms = Inr t \<and> wf_state t
    \<and> (case target of None \<Rightarrow> path = [] | Some j \<Rightarrow> branch_path s j path)
    \<and> entries t = renumber 1 (rev path) \<and> lanes t = [(''main'', target)]
    \<and> sessionName t = sessionName s \<and> records t = []"
proof -
  have inv: "index_inv s" "tree_inv s" using assms(1) by (simp_all add: wf_state_def)
  have "j \<in> entry_ids s" if "target = Some j" for j
  proof (cases "position = Some At")
    case True
    with that assms(2,4) getEntry_SomeD [OF inv(1) assms(2)] show ?thesis by (auto simp: entry_ids_def)
  next
    case False
    obtain n where "n < length (entries s)" "e = entries s ! n"
      using getEntry_SomeD [OF inv(1) assms(2)] by (auto simp: in_set_conv_nth)
    with False that assms(4) obtain k where "k < n" "entry_id (entries s ! k) = j"
      using parent_position [OF inv(2)] by metis
    with \<open>n < length (entries s)\<close> show ?thesis by (force simp: entry_ids_def)
  qed
  then obtain path where path: "case target of None \<Rightarrow> path = [] | Some j \<Rightarrow> branch_path s j path"
      "(case target of None \<Rightarrow> Inr [] | Some j \<Rightarrow> findEntriesOnBranch s whole_query no_bounds j) = Inr (rev path)"
    by (cases target) (auto elim: branch_whole [OF assms(1)])
  have source: "fork_source s (ForkBranch (Some i) position) = Inr (rev path, [(''main'', target)])"
    using path(2) by (simp add: fork_source_def fork_target_message [OF assms(2,3) inv(1)] assms(4))
  have ok: "fork_ok (rev path) [(''main'', target)]"
    using fork_source_branch [OF assms(1) source] by simp
  show ?thesis
    using fork_replay [OF ok, of "sessionName s" "labels s"] path(1) source session_machine.run_start_inv
    by (intro exI [of _ path]; cases "sessionName s") (auto simp: createForkMutations_def)
qed

text \<open>C29: A well-formed state accepts a mutation exactly when its number is the next one and the ids
  and pointers it mentions are right; every rejection is an \<open>invalid_entry\<close> error.\<close>

theorem applyMutation_accepts:
  assumes "wf_state s"
  shows "((\<exists>t. applyMutation s m = Inr t) \<longleftrightarrow> mutation_seq m = nextSequence s \<and> accepts s m) \<and>
    (\<forall>e. applyMutation s m = Inl e \<longrightarrow> error_code e = Invalid_entry)"
proof
  have inv: "index_inv s" using assms by (simp add: wf_state_def)
  show "(\<exists>t. applyMutation s m = Inr t) \<longleftrightarrow> mutation_seq m = nextSequence s \<and> accepts s m"
    using inv by (cases m) (auto simp: applyMutation_def apply_defs result_simps nextSequence_def split: option.splits)
  show "\<forall>e. applyMutation s m = Inl e \<longrightarrow> error_code e = Invalid_entry"
    by (cases m) (auto simp: applyMutation_def apply_defs result_simps invalidMutation_def split: option.splits)
qed

theorem applyMutation_accepts_witness:
  "(\<exists>t. applyMutation demo_state (MutLane 7 ''side'' (Some ''b'')) = Inr t)
   \<and> \<not> (\<exists>t. applyMutation demo_state (MutLane 8 ''side'' None) = Inr t)"
proof -
  have "nextSequence demo_state = 7"
    by (simp add: nextSequence_def demo_state_def demo_defs applyMutation_def apply_defs map_has_def)
  with applyMutation_accepts [OF demo_wf, of "MutLane 7 ''side'' (Some ''b'')"]
    applyMutation_accepts [OF demo_wf, of "MutLane 8 ''side'' None"]
  show ?thesis by (simp add: demo_ids)
qed

end
