(* ===== verification/Lane_Reducer.thy ===== *)
theory Lane_Reducer
  imports Session_State "HOL-Library.Multiset"
begin

text \<open>
  The lane reducer of \<open>agent/src/harness/reducer.ts\<close>: the validation of the record log of a lane
  and the reconstruction of its orchestration state. \<open>Guard.IsDeepEqual\<close> of the typebox package
  is the argument \<open>isDeepEqual\<close>; \<open>structuredClone\<close> is the identity on values. The theory shows
  what a log has to satisfy to be accepted, and what the reconstructed state says about it.
\<close>

section \<open>Data\<close>

datatype corruption_reason =
    Multiple_open_operations | Unknown_operation | Record_after_finish | Non_consecutive_attempt
  | Invalid_compaction_reason | Queue_after_abort | Invalid_queue_cancellation | Inconsistent_step
  | Tool_call_mismatch | Duplicate_tool_invocation | Provisioned_entry_mismatch | Invalid_deferred_handle

datatype corruption = RecordLogCorruption (reason: corruption_reason) string

text \<open>An operation start, as the type \<open>OperationStartedRecord\<close> has it.\<close>

record operation_started =
  os_id :: ident
  os_seq :: nat
  os_lane :: ident
  os_timestamp :: nat
  os_sourceLeafId :: "ident option"
  os_intent :: intent

fun started_of :: "lane_record \<Rightarrow> operation_started option" where
  "started_of r =
     (case record_payload r of
        OperationStarted src i \<Rightarrow>
          Some \<lparr>os_id = record_id r, os_seq = record_seq r, os_lane = record_lane r,
                os_timestamp = record_timestamp r, os_sourceLeafId = src, os_intent = i\<rparr>
      | _ \<Rightarrow> None)"

record record_log_slice =
  sl_lane :: ident
  sl_openOperations :: "operation_started list"
  sl_records :: "lane_record list"
  sl_entries :: "entry list"

record lane_configuration =
  cf_model :: "ident \<times> ident"
  cf_thinkingLevel :: ident
  cf_activeToolNames :: "ident list"

datatype failure_source = From_step | From_deferred_fetch

record terminal_failure =
  tf_entryId :: ident
  tf_source :: failure_source
  tf_message :: assistant_message

record tool_batch_call =
  bc_toolIndex :: nat
  bc_toolCall :: tool_call
  bc_started :: "lane_record option"
  bc_resultExists :: bool
  bc_terminate :: bool

record tool_batch =
  tb_assistantEntryId :: ident
  tb_calls :: "tool_batch_call list"
  tb_truncated :: bool
  tb_unresolved :: bool

record step_state =
  ss_kind :: step_kind
  ss_attempts :: nat
  ss_resultEntryId :: ident
  ss_compactionReason :: "string option"

datatype message_role =
  Role_user | Role_assistant | Role_toolResult | Role_bashExecution | Role_custom | Role_branchSummary
  | Role_compactionSummary

fun role_of :: "agent_message \<Rightarrow> message_role" where
  "role_of (UserMessage _) = Role_user"
| "role_of (AssistantMessage _) = Role_assistant"
| "role_of (ToolResultMessage _) = Role_toolResult"
| "role_of (BashExecutionMessage _) = Role_bashExecution"
| "role_of (CustomMessage _) = Role_custom"
| "role_of (BranchSummaryMessage _) = Role_branchSummary"
| "role_of (CompactionSummaryMessage _) = Role_compactionSummary"

record newest_own =
  no_entryId :: ident
  no_type :: entry_type
  no_role :: "message_role option"
  no_stopReason :: "stop_reason option"

record operation_targets =
  tg_result :: "bool option"
  tg_summary :: "bool option"

record operation_state =
  op_id :: ident
  op_kind :: operation_kind
  op_intent :: intent
  op_aborting :: bool
  op_step :: "step_state option"
  op_toolBatch :: "tool_batch option"
  op_missingInitialMessages :: "provisioned_entry list"
  op_pendingSteer :: "provisioned_entry list"
  op_pendingFollowUp :: "provisioned_entry list"
  op_pendingWrites :: "provisioned_entry list"
  op_deferred :: "deferred_handle option"
  op_overflowRecoveryUsed :: bool
  op_newestOwn :: "newest_own option"
  op_targets :: operation_targets

record lane_state =
  ls_lane :: ident
  ls_leafId :: "ident option"
  ls_operation :: "operation_state option"
  ls_pendingNextRun :: "provisioned_entry list"

record lane_reduction_input = record_log_slice +
  in_leafId :: "ident option"
  in_ownEntries :: "entry list"
  in_configurationEntries :: "entry list"
  in_defaults :: lane_configuration

record lane_reduction_result =
  laneState :: lane_state
  effectiveConfiguration :: lane_configuration
  terminalFailure :: "terminal_failure option"

section \<open>Validation\<close>

text \<open>An entry less its position in the session.\<close>

definition entry_content :: "entry \<Rightarrow> provisioned_entry" where
  "entry_content e = \<lparr>prov_id = entry_id e, prov_payload = payload e\<rparr>"

type_synonym entry_index = "(ident \<times> entry) list"
type_synonym deep_equal = "provisioned_entry \<Rightarrow> provisioned_entry \<Rightarrow> bool"

definition matchesProvisionedEntry :: "deep_equal \<Rightarrow> entry \<Rightarrow> provisioned_entry \<Rightarrow> bool" where
  "matchesProvisionedEntry isDeepEqual e target = isDeepEqual (entry_content e) target"

definition validateExactProvisionedEntry ::
    "deep_equal \<Rightarrow> entry_index \<Rightarrow> provisioned_entry \<Rightarrow> corruption + unit" where
  "validateExactProvisionedEntry isDeepEqual byId target =
     (case map_of byId (prov_id target) of
        None \<Rightarrow> Inr ()
      | Some e \<Rightarrow>
          guardR (matchesProvisionedEntry isDeepEqual e target)
            (RecordLogCorruption Provisioned_entry_mismatch
              (''Provisioned entry '' @ prov_id target @ '' exists with content different from its intent'')))"

definition validateResultEntry ::
    "entry_index \<Rightarrow> ident \<Rightarrow> (entry \<Rightarrow> bool) \<Rightarrow> string \<Rightarrow> corruption + unit" where
  "validateResultEntry byId resultEntryId matches description =
     (case map_of byId resultEntryId of
        None \<Rightarrow> Inr ()
      | Some e \<Rightarrow>
          guardR (matches e)
            (RecordLogCorruption Provisioned_entry_mismatch
              (''Provisioned '' @ description @ '' entry '' @ resultEntryId @ '' exists with different content'')))"

fun step_name :: "step_kind \<Rightarrow> string" where
  "step_name Step_assistant = ''assistant''"
| "step_name Step_branch_summary = ''branch_summary''"
| "step_name Step_compaction = ''compaction''"

definition validateAttemptReason :: "ident \<Rightarrow> step_attempt \<Rightarrow> corruption + unit" where
  "validateAttemptReason rid a =
     (if sa_step a = Step_compaction then
        guardR (sa_compactionReason a \<in> {Some ''manual'', Some ''threshold'', Some ''overflow''})
          (RecordLogCorruption Invalid_compaction_reason
            (''Compaction attempt '' @ rid @ '' has no valid compaction reason''))
      else
        guardR (sa_compactionReason a = None)
          (RecordLogCorruption Invalid_compaction_reason
            (step_name (sa_step a) @ '' attempt '' @ rid @ '' has a compaction reason'')))"

text \<open>Whether an attempt continues the series of the previous one: same step, no result yet.\<close>

definition continuesSeries :: "entry_index \<Rightarrow> nat \<Rightarrow> step_attempt \<Rightarrow> step_attempt option \<Rightarrow> bool" where
  "continuesSeries byId sq a previous =
     (case previous of
        None \<Rightarrow> False
      | Some p \<Rightarrow>
          sa_step p = sa_step a \<and>
          (case map_of byId (sa_resultEntryId p) of None \<Rightarrow> True | Some e \<Rightarrow> sq \<le> entry_seq e))"

definition validateAttemptSequence ::
    "ident \<Rightarrow> nat \<Rightarrow> step_attempt \<Rightarrow> step_attempt option \<Rightarrow> entry_index \<Rightarrow> corruption + unit" where
  "validateAttemptSequence rid sq a previous byId =
     (let continues = continuesSeries byId sq a previous;
          expectedAttempt = (case previous of Some p \<Rightarrow> if continues then sa_attempt p + 1 else 1 | None \<Rightarrow> 1)
      in bindR (guardR (sa_attempt a = expectedAttempt)
                 (RecordLogCorruption Non_consecutive_attempt
                   (step_name (sa_step a) @ '' attempt '' @ rid @ '' is '' @ decimal (sa_attempt a)
                    @ ''; expected '' @ decimal expectedAttempt))) (\<lambda>_.
         case previous of
           None \<Rightarrow> Inr ()
         | Some p \<Rightarrow>
             if \<not> continues \<or> sa_step a = Step_assistant then Inr ()
             else bindR (guardR (sa_resultEntryId a = sa_resultEntryId p)
                          (RecordLogCorruption Inconsistent_step
                            (step_name (sa_step a) @ '' attempts disagree on their result entry id''))) (\<lambda>_.
                  guardR (sa_compactionReason a = sa_compactionReason p)
                    (RecordLogCorruption Inconsistent_step
                      (step_name (sa_step a) @ '' attempts disagree on their compaction reason'')))))"

definition is_assistant_entry :: "entry \<Rightarrow> bool" where
  "is_assistant_entry e = (case payload e of MessageEntry (AssistantMessage _) _ \<Rightarrow> True | _ \<Rightarrow> False)"

definition validateAttemptResult :: "entry_index \<Rightarrow> step_attempt \<Rightarrow> corruption + unit" where
  "validateAttemptResult byId a =
     (case sa_step a of
        Step_assistant \<Rightarrow>
          validateResultEntry byId (sa_resultEntryId a) is_assistant_entry ''assistant result''
      | Step_compaction \<Rightarrow>
          validateResultEntry byId (sa_resultEntryId a) (\<lambda>e. entry_type_of e = Type_compaction) ''compaction result''
      | Step_branch_summary \<Rightarrow>
          validateResultEntry byId (sa_resultEntryId a) (\<lambda>e. entry_type_of e = Type_branch_summary)
            ''branch-summary result'')"

definition tool_calls :: "assistant_block list \<Rightarrow> tool_call list" where
  "tool_calls bs = List.map_filter (\<lambda>b. case b of AToolCall c \<Rightarrow> Some c | _ \<Rightarrow> None) bs"

definition is_result_of :: "ident \<Rightarrow> entry \<Rightarrow> bool" where
  "is_result_of callId e =
     (case payload e of MessageEntry (ToolResultMessage m) _ \<Rightarrow> tr_toolCallId m = callId | _ \<Rightarrow> False)"

definition is_named_result_of :: "ident \<Rightarrow> ident \<Rightarrow> entry \<Rightarrow> bool" where
  "is_named_result_of callId toolName e =
     (case payload e of
        MessageEntry (ToolResultMessage m) _ \<Rightarrow> tr_toolCallId m = callId \<and> tr_toolName m = toolName
      | _ \<Rightarrow> False)"

text \<open>The key of an invocation, the assistant entry id and the ordinal around a NUL character.\<close>

definition invocation_key :: "tool_started \<Rightarrow> string" where
  "invocation_key t = ts_assistantEntryId t @ [CHR 0x00] @ decimal (ts_toolIndex t)"

definition validateToolStart ::
    "ident \<Rightarrow> tool_started \<Rightarrow> entry_index \<Rightarrow> string set \<Rightarrow> corruption + string set" where
  "validateToolStart rid t byId invocations =
     bindR (guardR (invocation_key t \<notin> invocations)
             (RecordLogCorruption Duplicate_tool_invocation
               (''Tool invocation '' @ ts_assistantEntryId t @ '':'' @ decimal (ts_toolIndex t) @ '' is duplicated''))) (\<lambda>_.
     bindR (case map_of byId (ts_assistantEntryId t) of
              Some e \<Rightarrow>
                (case payload e of
                   MessageEntry (AssistantMessage m) _ \<Rightarrow>
                     (let calls = tool_calls (am_content m)
                      in guardR (ts_toolIndex t < length calls \<and> tc_id (calls ! ts_toolIndex t) = ts_toolCallId t
                                 \<and> tc_name (calls ! ts_toolIndex t) = ts_toolName t)
                           (RecordLogCorruption Tool_call_mismatch
                             (''Tool start '' @ rid @ '' does not match its assistant tool-call ordinal'')))
                 | _ \<Rightarrow> Inl (RecordLogCorruption Tool_call_mismatch
                            (''Tool start '' @ rid @ '' does not reference an assistant entry'')))
            | None \<Rightarrow> Inl (RecordLogCorruption Tool_call_mismatch
                        (''Tool start '' @ rid @ '' does not reference an assistant entry''))) (\<lambda>_.
     bindR (validateResultEntry byId (ts_resultEntryId t)
              (is_named_result_of (ts_toolCallId t) (ts_toolName t)) ''tool result'') (\<lambda>_.
     Inr (insert (invocation_key t) invocations))))"

definition lacks_handle :: "entry \<Rightarrow> bool" where
  "lacks_handle e =
     (case payload e of
        MessageEntry (AssistantMessage m) _ \<Rightarrow> am_stopReason m = Deferred \<and> am_deferred m = None
      | _ \<Rightarrow> False)"

fun validateDeferredHandles :: "entry list \<Rightarrow> corruption + unit" where
  "validateDeferredHandles [] = Inr ()"
| "validateDeferredHandles (e # es) =
     bindR (guardR (\<not> lacks_handle e)
             (RecordLogCorruption Invalid_deferred_handle
               (''Deferred assistant entry '' @ entry_id e @ '' does not carry a handle''))) (\<lambda>_.
     validateDeferredHandles es)"

fun validateTargets :: "deep_equal \<Rightarrow> entry_index \<Rightarrow> provisioned_entry list \<Rightarrow> corruption + unit" where
  "validateTargets isDeepEqual byId [] = Inr ()"
| "validateTargets isDeepEqual byId (t # ts) =
     bindR (validateExactProvisionedEntry isDeepEqual byId t) (\<lambda>_. validateTargets isDeepEqual byId ts)"

definition validateOperationResult :: "deep_equal \<Rightarrow> entry_index \<Rightarrow> intent \<Rightarrow> corruption + unit" where
  "validateOperationResult isDeepEqual byId i =
     (case i of
        RunIntent r \<Rightarrow> validateTargets isDeepEqual byId (initialMessages r)
      | CompactionIntent c \<Rightarrow>
          validateResultEntry byId (ci_resultEntryId c) (\<lambda>e. entry_type_of e = Type_compaction) ''manual compaction''
      | NavigationIntent n \<Rightarrow>
          (case ni_summaryEntryId n of
             None \<Rightarrow> Inr ()
           | Some sid \<Rightarrow>
               if sid = [] then Inr ()
               else validateResultEntry byId sid (\<lambda>e. entry_type_of e = Type_branch_summary) ''navigation summary''))"

text \<open>The maps and sets the validation loop fills.\<close>

record validation_state =
  vs_starts :: "ident set"
  vs_finishedAt :: "(ident \<times> nat) list"
  vs_abortedAt :: "(ident \<times> nat) list"
  vs_queueEnqueues :: "(ident \<times> nat \<times> ident option) list"
  vs_latestAttempt :: "(ident \<times> step_attempt) list"
  vs_toolInvocations :: "string set"

fun queue_name :: "queue_kind \<Rightarrow> string" where
  "queue_name Steer = ''steer''"
| "queue_name FollowUp = ''followUp''"
| "queue_name NextRun = ''nextRun''"

definition check_run :: "validation_state \<Rightarrow> lane_record \<Rightarrow> corruption + unit" where
  "check_run st r =
     (case record_runId r of
        None \<Rightarrow> Inr ()
      | Some rid \<Rightarrow>
          bindR (guardR (rid \<in> vs_starts st)
                  (RecordLogCorruption Unknown_operation
                    (''Record '' @ record_id r @ '' references unknown operation '' @ rid))) (\<lambda>_.
          guardR (case map_of (vs_finishedAt st) rid of None \<Rightarrow> True | Some f \<Rightarrow> record_seq r \<le> f)
            (RecordLogCorruption Record_after_finish
              (''Record '' @ record_id r @ '' follows the finish of operation '' @ rid))))"

definition check_payload ::
    "deep_equal \<Rightarrow> entry_index \<Rightarrow> validation_state \<Rightarrow> lane_record \<Rightarrow> corruption + validation_state" where
  "check_payload isDeepEqual byId st r =
     (case record_payload r of
        OperationStarted _ i \<Rightarrow> Inr st
      | OperationFinished rid _ _ \<Rightarrow> Inr (st\<lparr>vs_finishedAt := AList.update rid (record_seq r) (vs_finishedAt st)\<rparr>)
      | AbortRequested rid \<Rightarrow> Inr (st\<lparr>vs_abortedAt := AList.update rid (record_seq r) (vs_abortedAt st)\<rparr>)
      | StepAttempt a \<Rightarrow>
          bindR (validateAttemptReason (record_id r) a) (\<lambda>_.
          bindR (validateAttemptSequence (record_id r) (record_seq r) a
                   (map_of (vs_latestAttempt st) (sa_runId a)) byId) (\<lambda>_.
          bindR (validateAttemptResult byId a) (\<lambda>_.
          Inr (st\<lparr>vs_latestAttempt := AList.update (sa_runId a) a (vs_latestAttempt st)\<rparr>))))
      | ToolStarted t \<Rightarrow>
          bindR (validateToolStart (record_id r) t byId (vs_toolInvocations st)) (\<lambda>inv.
          Inr (st\<lparr>vs_toolInvocations := inv\<rparr>))
      | QueueEnqueued q rid target \<Rightarrow>
          bindR (guardR (q = NextRun \<or>
                   (case rid of None \<Rightarrow> True
                    | Some run \<Rightarrow> (case map_of (vs_abortedAt st) run of None \<Rightarrow> True | Some a \<Rightarrow> record_seq r \<le> a)))
                  (RecordLogCorruption Queue_after_abort
                    (queue_name q @ '' item '' @ prov_id target @ '' was enqueued after abort''))) (\<lambda>_.
          bindR (validateExactProvisionedEntry isDeepEqual byId target) (\<lambda>_.
          Inr (st\<lparr>vs_queueEnqueues := AList.update (prov_id target) (record_seq r, rid) (vs_queueEnqueues st)\<rparr>)))
      | QueueCancelled rid entryId \<Rightarrow>
          bindR (guardR (case map_of (vs_queueEnqueues st) entryId of
                           None \<Rightarrow> False
                         | Some (sq, rid') \<Rightarrow> sq < record_seq r \<and> rid' = rid \<and> \<not> map_has byId entryId)
                  (RecordLogCorruption Invalid_queue_cancellation
                    (''Queue cancellation '' @ record_id r @ '' has no pending matching enqueue''))) (\<lambda>_.
          Inr st)
      | WriteDeferred _ target \<Rightarrow>
          bindR (validateExactProvisionedEntry isDeepEqual byId target) (\<lambda>_. Inr st)
      | UsageRecord _ \<Rightarrow> Inr st)"

text \<open>One turn of the loop of \<open>validateRecordLog\<close>.\<close>

definition check_record ::
    "deep_equal \<Rightarrow> entry_index \<Rightarrow> validation_state \<Rightarrow> lane_record \<Rightarrow> corruption + validation_state" where
  "check_record isDeepEqual byId st r =
     (case record_payload r of
        OperationStarted _ i \<Rightarrow>
          bindR (validateOperationResult isDeepEqual byId i) (\<lambda>_.
          Inr (st\<lparr>vs_starts := insert (record_id r) (vs_starts st)\<rparr>))
      | _ \<Rightarrow> bindR (check_run st r) (\<lambda>_. check_payload isDeepEqual byId st r))"

definition index_entries :: "entry list \<Rightarrow> entry_index" where
  "index_entries es = fold (\<lambda>e m. AList.update (entry_id e) e m) es []"

definition init_validation :: validation_state where
  "init_validation =
     \<lparr>vs_starts = {}, vs_finishedAt = [], vs_abortedAt = [], vs_queueEnqueues = [], vs_latestAttempt = [],
      vs_toolInvocations = {}\<rparr>"

definition validateRecordLog :: "deep_equal \<Rightarrow> ('a) record_log_slice_scheme \<Rightarrow> corruption + unit" where
  "validateRecordLog isDeepEqual input =
     bindR (guardR (length (sl_openOperations input) \<le> 1)
             (RecordLogCorruption Multiple_open_operations
               (''Lane '' @ sl_lane input @ '' has at least two open operations''))) (\<lambda>_.
     let byId = index_entries (sl_entries input)
     in bindR (validateDeferredHandles (map snd byId)) (\<lambda>_.
        bindR (foldR (check_record isDeepEqual byId) init_validation (sort_key record_seq (sl_records input))) (\<lambda>_.
        Inr ())))"

section \<open>Reduction\<close>

definition configure :: "lane_configuration \<Rightarrow> entry \<Rightarrow> lane_configuration" where
  "configure c e =
     (case payload e of
        ModelChangeEntry provider modelId \<Rightarrow> c\<lparr>cf_model := (provider, modelId)\<rparr>
      | ThinkingLevelEntry level \<Rightarrow> c\<lparr>cf_thinkingLevel := level\<rparr>
      | ActiveToolsEntry names \<Rightarrow> c\<lparr>cf_activeToolNames := names\<rparr>
      | MessageEntry (AssistantMessage m) _ \<Rightarrow> c\<lparr>cf_model := (am_provider m, am_model m)\<rparr>
      | _ \<Rightarrow> c)"

definition deriveEffectiveConfiguration :: "lane_reduction_input \<Rightarrow> lane_configuration" where
  "deriveEffectiveConfiguration input =
     foldl configure (in_defaults input)
       (sort_key entry_seq (map snd (index_entries (in_configurationEntries input @ in_ownEntries input))))"

definition deriveNewestOwn :: "entry option \<Rightarrow> newest_own option" where
  "deriveNewestOwn entryOpt =
     (case entryOpt of
        None \<Rightarrow> None
      | Some e \<Rightarrow>
          (case payload e of
             MessageEntry m _ \<Rightarrow>
               Some \<lparr>no_entryId = entry_id e, no_type = entry_type_of e, no_role = Some (role_of m),
                     no_stopReason = (case m of AssistantMessage a \<Rightarrow> Some (am_stopReason a) | _ \<Rightarrow> None)\<rparr>
           | _ \<Rightarrow> Some \<lparr>no_entryId = entry_id e, no_type = entry_type_of e, no_role = None, no_stopReason = None\<rparr>))"

fun assistant_of :: "entry \<Rightarrow> assistant_message option" where
  "assistant_of e = (case payload e of MessageEntry (AssistantMessage m) _ \<Rightarrow> Some m | _ \<Rightarrow> None)"

definition entry_calls :: "entry \<Rightarrow> tool_call list" where
  "entry_calls e = (case assistant_of e of None \<Rightarrow> [] | Some m \<Rightarrow> tool_calls (am_content m))"

text \<open>The starts of the tool calls of an assistant entry, by ordinal; a later one replaces an earlier one.\<close>

definition tool_starts :: "ident \<Rightarrow> ident \<Rightarrow> lane_record list \<Rightarrow> (nat \<times> lane_record) list" where
  "tool_starts operationId assistantId rs =
     fold (\<lambda>r m. case record_payload r of
             ToolStarted t \<Rightarrow>
               if ts_runId t = operationId \<and> ts_assistantEntryId t = assistantId
               then AList.update (ts_toolIndex t) r m else m
           | _ \<Rightarrow> m) rs []"

fun started_result :: "entry_index \<Rightarrow> lane_record option \<Rightarrow> entry option" where
  "started_result byId None = None"
| "started_result byId (Some r) =
     (case record_payload r of ToolStarted t \<Rightarrow> map_of byId (ts_resultEntryId t) | _ \<Rightarrow> None)"

definition batch_call ::
    "(nat \<times> lane_record) list \<Rightarrow> entry \<Rightarrow> entry list \<Rightarrow> entry_index \<Rightarrow> ident set \<Rightarrow> nat \<Rightarrow> tool_call \<Rightarrow> tool_batch_call" where
  "batch_call starts assistant own byId deferredWriteIds i c =
     (let started = map_of starts i;
          blocked = find (\<lambda>e. entry_seq assistant < entry_seq e \<and> entry_id e \<notin> deferredWriteIds \<and> is_result_of (tc_id c) e) own;
          result = (case started_result byId started of Some e \<Rightarrow> Some e | None \<Rightarrow> blocked)
      in \<lparr>bc_toolIndex = i, bc_toolCall = c, bc_started = started, bc_resultExists = (result \<noteq> None),
          bc_terminate = (case result of
             Some e \<Rightarrow> (case payload e of MessageEntry _ terminate \<Rightarrow> terminate | _ \<Rightarrow> False)
           | None \<Rightarrow> False)\<rparr>)"

definition deriveToolBatch ::
    "ident \<Rightarrow> lane_record list \<Rightarrow> entry list \<Rightarrow> entry_index \<Rightarrow> ident set \<Rightarrow> tool_batch option" where
  "deriveToolBatch operationId rs own byId deferredWriteIds =
     (case find (\<lambda>e. entry_calls e \<noteq> []) (rev own) of
        None \<Rightarrow> None
      | Some assistant \<Rightarrow>
          (let starts = tool_starts operationId (entry_id assistant) rs;
               calls = map (\<lambda>(i, c). batch_call starts assistant own byId deferredWriteIds i c)
                         (enumerate 0 (entry_calls assistant))
           in Some \<lparr>tb_assistantEntryId = entry_id assistant, tb_calls = calls,
                    tb_truncated = (case assistant_of assistant of Some m \<Rightarrow> am_stopReason m = Length_stop | None \<Rightarrow> False),
                    tb_unresolved = list_ex (\<lambda>c. \<not> bc_resultExists c) calls\<rparr>))"

definition cancelled_ids :: "lane_record list \<Rightarrow> ident set" where
  "cancelled_ids rs =
     set (List.map_filter (\<lambda>r. case record_payload r of QueueCancelled _ i \<Rightarrow> Some i | _ \<Rightarrow> None) rs)"

text \<open>The queue items of a log that are neither delivered nor cancelled.\<close>

definition pendingQueue ::
    "lane_record list \<Rightarrow> entry_index \<Rightarrow> (queue_kind \<times> ident option \<times> provisioned_entry) list" where
  "pendingQueue rs byId =
     List.map_filter (\<lambda>r. case record_payload r of
         QueueEnqueued q rid t \<Rightarrow>
           if \<not> map_has byId (prov_id t) \<and> prov_id t \<notin> cancelled_ids rs then Some (q, rid, t) else None
       | _ \<Rightarrow> None) rs"

definition intent_initial :: "intent \<Rightarrow> provisioned_entry list" where
  "intent_initial i = (case i of RunIntent r \<Rightarrow> initialMessages r | _ \<Rightarrow> [])"

definition pendingNextRun ::
    "(queue_kind \<times> ident option \<times> provisioned_entry) list \<Rightarrow> operation_started option \<Rightarrow> provisioned_entry list" where
  "pendingNextRun pend started =
     (let captured = (case started of None \<Rightarrow> {} | Some s \<Rightarrow> prov_id ` set (intent_initial (os_intent s)))
      in map (\<lambda>(_, _, t). t) (filter (\<lambda>(q, _, t). q = NextRun \<and> prov_id t \<notin> captured) pend))"

definition pendingFor ::
    "queue_kind \<Rightarrow> ident \<Rightarrow> (queue_kind \<times> ident option \<times> provisioned_entry) list \<Rightarrow> provisioned_entry list" where
  "pendingFor q run pend = map (\<lambda>(_, _, t). t) (filter (\<lambda>(q', rid, _). q' = q \<and> rid = Some run) pend)"

definition belongs_to :: "ident \<Rightarrow> lane_record \<Rightarrow> bool" where
  "belongs_to run r =
     (if record_type_of r = Rec_operation_started then record_id r = run else record_runId r = Some run)"

definition deferred_writes :: "lane_record list \<Rightarrow> provisioned_entry list" where
  "deferred_writes rs = List.map_filter (\<lambda>r. case record_payload r of WriteDeferred _ t \<Rightarrow> Some t | _ \<Rightarrow> None) rs"

definition attempts_of :: "lane_record list \<Rightarrow> step_attempt list" where
  "attempts_of rs = List.map_filter (\<lambda>r. case record_payload r of StepAttempt a \<Rightarrow> Some a | _ \<Rightarrow> None) rs"

definition last_opt :: "'a list \<Rightarrow> 'a option" where
  "last_opt xs = (if xs = [] then None else Some (last xs))"

definition derive_step :: "lane_record list \<Rightarrow> entry_index \<Rightarrow> step_state option" where
  "derive_step opRecords byId =
     (case last_opt (attempts_of opRecords) of
        None \<Rightarrow> None
      | Some a \<Rightarrow>
          if map_has byId (sa_resultEntryId a) then None
          else Some \<lparr>ss_kind = sa_step a, ss_attempts = sa_attempt a, ss_resultEntryId = sa_resultEntryId a,
                     ss_compactionReason = (if sa_step a = Step_compaction then sa_compactionReason a else None)\<rparr>)"

text \<open>The ids of the inputs an operation has taken, and the highest sequence number of those that
  are stored as messages (\<open>None\<close> for minus infinity).\<close>

definition consumed_ids :: "intent \<Rightarrow> lane_record list \<Rightarrow> ident list" where
  "consumed_ids i opRecords =
     map prov_id (intent_initial i) @
     List.map_filter (\<lambda>r. case record_payload r of
         QueueEnqueued q _ t \<Rightarrow> if q \<noteq> NextRun then Some (prov_id t) else None | _ \<Rightarrow> None) opRecords"

definition newest_consumed :: "entry_index \<Rightarrow> ident list \<Rightarrow> nat option" where
  "newest_consumed byId ids =
     foldl (\<lambda>acc i. case map_of byId i of
        Some e \<Rightarrow>
          if entry_type_of e = Type_message
          then Some (case acc of None \<Rightarrow> entry_seq e | Some m \<Rightarrow> max m (entry_seq e)) else acc
      | None \<Rightarrow> acc) None ids"

definition overflow_used :: "nat option \<Rightarrow> lane_record list \<Rightarrow> bool" where
  "overflow_used newest opRecords =
     list_ex (\<lambda>r. case record_payload r of
        StepAttempt a \<Rightarrow>
          sa_step a = Step_compaction \<and> sa_compactionReason a = Some ''overflow'' \<and>
          (case newest of None \<Rightarrow> True | Some m \<Rightarrow> m < record_seq r)
      | _ \<Rightarrow> False) opRecords"

definition derive_targets :: "entry_index \<Rightarrow> intent \<Rightarrow> operation_targets" where
  "derive_targets byId i =
     (case i of
        RunIntent _ \<Rightarrow> \<lparr>tg_result = None, tg_summary = None\<rparr>
      | CompactionIntent c \<Rightarrow> \<lparr>tg_result = Some (map_has byId (ci_resultEntryId c)), tg_summary = None\<rparr>
      | NavigationIntent n \<Rightarrow>
          \<lparr>tg_result = None,
           tg_summary = (case ni_summaryEntryId n of None \<Rightarrow> None
             | Some sid \<Rightarrow> if sid = [] then None else Some (map_has byId sid))\<rparr>)"

definition has_stop :: "stop_reason \<Rightarrow> entry \<Rightarrow> bool" where
  "has_stop sr e = (case assistant_of e of Some m \<Rightarrow> am_stopReason m = sr | None \<Rightarrow> False)"

definition derive_deferred :: "entry option \<Rightarrow> deferred_handle option" where
  "derive_deferred newest =
     (case newest of None \<Rightarrow> None
      | Some e \<Rightarrow> (case assistant_of e of
          Some m \<Rightarrow> if am_stopReason m = Deferred then am_deferred m else None | None \<Rightarrow> None))"

definition produced_by_step :: "ident \<Rightarrow> lane_record list \<Rightarrow> bool" where
  "produced_by_step i opRecords = list_ex (\<lambda>a. sa_resultEntryId a = i) (attempts_of opRecords)"

definition produced_by_fetch :: "ident \<Rightarrow> lane_record list \<Rightarrow> entry list \<Rightarrow> bool" where
  "produced_by_fetch i opRecords own =
     (list_ex (\<lambda>r. case record_payload r of
         UsageRecord u \<Rightarrow> ui_cause u = Cause_deferred_fetch \<and> ui_entryId u = Some i | _ \<Rightarrow> False) opRecords
      \<or> (2 \<le> length own \<and> has_stop Deferred (own ! (length own - 2))))"

definition derive_failure :: "lane_record list \<Rightarrow> entry list \<Rightarrow> ident set \<Rightarrow> terminal_failure option" where
  "derive_failure opRecords own deferredWriteIds =
     (case last_opt own of
        None \<Rightarrow> None
      | Some e \<Rightarrow>
          (case assistant_of e of
             None \<Rightarrow> None
           | Some m \<Rightarrow>
               if am_stopReason m = Error_stop \<and> entry_id e \<notin> deferredWriteIds
                  \<and> (produced_by_step (entry_id e) opRecords \<or> produced_by_fetch (entry_id e) opRecords own)
               then Some \<lparr>tf_entryId = entry_id e,
                          tf_source = (if produced_by_step (entry_id e) opRecords then From_step else From_deferred_fetch),
                          tf_message = m\<rparr>
               else None))"

text \<open>The part of \<open>reduceLaneState\<close> that follows the check for an open operation.\<close>

definition reduce_operation ::
    "operation_started \<Rightarrow> lane_record list \<Rightarrow> entry list \<Rightarrow> entry_index \<Rightarrow> operation_state \<times> terminal_failure option" where
  "reduce_operation started rs own byId =
     (let pend = pendingQueue rs byId;
          opRecords = filter (belongs_to (os_id started)) rs;
          aborting = list_ex (\<lambda>r. record_type_of r = Rec_abort_requested) opRecords;
          writes = deferred_writes opRecords;
          deferredWriteIds = prov_id ` set writes;
          i = os_intent started
      in (\<lparr>op_id = os_id started, op_kind = intent_kind i, op_intent = i, op_aborting = aborting,
           op_step = derive_step opRecords byId,
           op_toolBatch = deriveToolBatch (os_id started) opRecords own byId deferredWriteIds,
           op_missingInitialMessages = filter (\<lambda>t. \<not> map_has byId (prov_id t)) (intent_initial i),
           op_pendingSteer = (if aborting then [] else pendingFor Steer (os_id started) pend),
           op_pendingFollowUp = (if aborting then [] else pendingFor FollowUp (os_id started) pend),
           op_pendingWrites = filter (\<lambda>t. \<not> map_has byId (prov_id t)) writes,
           op_deferred = derive_deferred (last_opt own),
           op_overflowRecoveryUsed = overflow_used (newest_consumed byId (consumed_ids i opRecords)) opRecords,
           op_newestOwn = deriveNewestOwn (last_opt own),
           op_targets = derive_targets byId i\<rparr>,
          derive_failure opRecords own deferredWriteIds))"

definition reduceLaneState :: "deep_equal \<Rightarrow> lane_reduction_input \<Rightarrow> corruption + lane_reduction_result" where
  "reduceLaneState isDeepEqual input =
     bindR (validateRecordLog isDeepEqual input) (\<lambda>_.
     let rs = sort_key record_seq (sl_records input);
         own = sort_key entry_seq (in_ownEntries input);
         byId = index_entries (sl_entries input @ own);
         started = (case sl_openOperations input of [] \<Rightarrow> None | s # _ \<Rightarrow> Some s);
         pendNext = pendingNextRun (pendingQueue rs byId) started;
         config = deriveEffectiveConfiguration input
     in Inr (case started of
               None \<Rightarrow>
                 \<lparr>laneState = \<lparr>ls_lane = sl_lane input, ls_leafId = in_leafId input, ls_operation = None,
                               ls_pendingNextRun = pendNext\<rparr>,
                  effectiveConfiguration = config, terminalFailure = None\<rparr>
             | Some s \<Rightarrow>
                 (case reduce_operation s rs own byId of
                    (op, failure) \<Rightarrow>
                      \<lparr>laneState = \<lparr>ls_lane = sl_lane input, ls_leafId = in_leafId input, ls_operation = Some op,
                                    ls_pendingNextRun = pendNext\<rparr>,
                       effectiveConfiguration = config, terminalFailure = failure\<rparr>)))"

section \<open>What a valid log is\<close>

text \<open>
  The validation loop keeps maps and sets. The specification below speaks of the records that come
  before a record in the log instead.
\<close>

definition target_ok :: "deep_equal \<Rightarrow> entry_index \<Rightarrow> provisioned_entry \<Rightarrow> bool" where
  "target_ok eq byId t = (case map_of byId (prov_id t) of None \<Rightarrow> True | Some e \<Rightarrow> eq (entry_content e) t)"

definition result_ok :: "entry_index \<Rightarrow> ident \<Rightarrow> (entry \<Rightarrow> bool) \<Rightarrow> bool" where
  "result_ok byId i P = (case map_of byId i of None \<Rightarrow> True | Some e \<Rightarrow> P e)"

definition intent_ok :: "deep_equal \<Rightarrow> entry_index \<Rightarrow> intent \<Rightarrow> bool" where
  "intent_ok eq byId i =
     (case i of
        RunIntent r \<Rightarrow> (\<forall>t\<in>set (initialMessages r). target_ok eq byId t)
      | CompactionIntent c \<Rightarrow> result_ok byId (ci_resultEntryId c) (\<lambda>e. entry_type_of e = Type_compaction)
      | NavigationIntent n \<Rightarrow>
          (case ni_summaryEntryId n of None \<Rightarrow> True
           | Some sid \<Rightarrow> sid = [] \<or> result_ok byId sid (\<lambda>e. entry_type_of e = Type_branch_summary)))"

definition starts_run :: "ident \<Rightarrow> lane_record \<Rightarrow> bool" where
  "starts_run rid r = (record_type_of r = Rec_operation_started \<and> record_id r = rid)"

definition finishes_run :: "ident \<Rightarrow> lane_record \<Rightarrow> bool" where
  "finishes_run rid r = (case record_payload r of OperationFinished rid' _ _ \<Rightarrow> rid' = rid | _ \<Rightarrow> False)"

definition aborts_run :: "ident \<Rightarrow> lane_record \<Rightarrow> bool" where
  "aborts_run rid r = (case record_payload r of AbortRequested rid' \<Rightarrow> rid' = rid | _ \<Rightarrow> False)"

definition enqueue_of :: "ident \<Rightarrow> lane_record \<Rightarrow> (nat \<times> ident option) option" where
  "enqueue_of i r =
     (case record_payload r of
        QueueEnqueued _ rid t \<Rightarrow> if prov_id t = i then Some (record_seq r, rid) else None
      | _ \<Rightarrow> None)"

definition last_enqueue :: "ident \<Rightarrow> lane_record list \<Rightarrow> (nat \<times> ident option) option" where
  "last_enqueue i rs = last_opt (List.map_filter (enqueue_of i) rs)"

definition last_attempt :: "ident \<Rightarrow> lane_record list \<Rightarrow> step_attempt option" where
  "last_attempt rid rs = last_opt (filter (\<lambda>a. sa_runId a = rid) (attempts_of rs))"

definition started_tools :: "lane_record list \<Rightarrow> tool_started list" where
  "started_tools rs = List.map_filter (\<lambda>r. case record_payload r of ToolStarted t \<Rightarrow> Some t | _ \<Rightarrow> None) rs"

text \<open>The attempt numbering: an attempt that continues a series is the next one of it and, unless the
  step is an assistant step, has the result id and the reason of the series; any other is the first.\<close>

definition attempt_ok :: "entry_index \<Rightarrow> lane_record list \<Rightarrow> nat \<Rightarrow> step_attempt \<Rightarrow> bool" where
  "attempt_ok byId pre sq a =
     ((if sa_step a = Step_compaction
       then sa_compactionReason a \<in> {Some ''manual'', Some ''threshold'', Some ''overflow''}
       else sa_compactionReason a = None) \<and>
      (case last_attempt (sa_runId a) pre of
         Some p \<Rightarrow>
           if continuesSeries byId sq a (Some p)
           then sa_attempt a = sa_attempt p + 1 \<and>
                (sa_step a = Step_assistant \<or>
                 sa_resultEntryId a = sa_resultEntryId p \<and> sa_compactionReason a = sa_compactionReason p)
           else sa_attempt a = 1
       | None \<Rightarrow> sa_attempt a = 1) \<and>
      result_ok byId (sa_resultEntryId a)
        (case sa_step a of
           Step_assistant \<Rightarrow> is_assistant_entry
         | Step_compaction \<Rightarrow> (\<lambda>e. entry_type_of e = Type_compaction)
         | Step_branch_summary \<Rightarrow> (\<lambda>e. entry_type_of e = Type_branch_summary)))"

definition tool_ok :: "entry_index \<Rightarrow> lane_record list \<Rightarrow> tool_started \<Rightarrow> bool" where
  "tool_ok byId pre t =
     ((\<forall>t'\<in>set (started_tools pre).
         \<not> (ts_assistantEntryId t' = ts_assistantEntryId t \<and> ts_toolIndex t' = ts_toolIndex t)) \<and>
      (case map_of byId (ts_assistantEntryId t) of
         None \<Rightarrow> False
       | Some e \<Rightarrow>
           ts_toolIndex t < length (entry_calls e) \<and>
           tc_id (entry_calls e ! ts_toolIndex t) = ts_toolCallId t \<and>
           tc_name (entry_calls e ! ts_toolIndex t) = ts_toolName t) \<and>
      result_ok byId (ts_resultEntryId t) (is_named_result_of (ts_toolCallId t) (ts_toolName t)))"

definition payload_ok :: "deep_equal \<Rightarrow> entry_index \<Rightarrow> lane_record list \<Rightarrow> lane_record \<Rightarrow> bool" where
  "payload_ok eq byId pre r =
     (case record_payload r of
        OperationStarted _ i \<Rightarrow> intent_ok eq byId i
      | StepAttempt a \<Rightarrow> attempt_ok byId pre (record_seq r) a
      | ToolStarted t \<Rightarrow> tool_ok byId pre t
      | QueueEnqueued q rid t \<Rightarrow>
          (q = NextRun \<or> (\<forall>run x. rid = Some run \<longrightarrow> x \<in> set pre \<longrightarrow> \<not> aborts_run run x)) \<and> target_ok eq byId t
      | QueueCancelled rid i \<Rightarrow> (\<exists>sq. last_enqueue i pre = Some (sq, rid)) \<and> \<not> map_has byId i
      | WriteDeferred _ t \<Rightarrow> target_ok eq byId t
      | _ \<Rightarrow> True)"

text \<open>A record of a run comes after its start and before its finish.\<close>

definition run_ok :: "lane_record list \<Rightarrow> lane_record \<Rightarrow> bool" where
  "run_ok pre r =
     (\<forall>rid. record_runId r = Some rid \<longrightarrow>
        (\<exists>s\<in>set pre. starts_run rid s) \<and> (\<forall>f\<in>set pre. \<not> finishes_run rid f))"

definition record_ok :: "deep_equal \<Rightarrow> entry_index \<Rightarrow> lane_record list \<Rightarrow> lane_record \<Rightarrow> bool" where
  "record_ok eq byId pre r = (run_ok pre r \<and> payload_ok eq byId pre r)"

text \<open>The records with a smaller sequence number, in order.\<close>

definition before_record :: "lane_record list \<Rightarrow> lane_record \<Rightarrow> lane_record list" where
  "before_record rs r = sort_key record_seq (filter (\<lambda>x. record_seq x < record_seq r) rs)"

definition log_ok :: "deep_equal \<Rightarrow> entry_index \<Rightarrow> lane_record list \<Rightarrow> bool" where
  "log_ok eq byId rs = (\<forall>r\<in>set rs. record_ok eq byId (before_record rs r) r)"

section \<open>The loop implements the specification\<close>

lemma exact_ok [simp]: "validateExactProvisionedEntry eq byId t = Inr u \<longleftrightarrow> target_ok eq byId t"
  by (auto simp: validateExactProvisionedEntry_def target_ok_def matchesProvisionedEntry_def split: option.split)

lemma result_entry_ok [simp]: "validateResultEntry byId i P d = Inr u \<longleftrightarrow> result_ok byId i P"
  by (auto simp: validateResultEntry_def result_ok_def split: option.split)

lemma targets_ok [simp]: "validateTargets eq byId ts = Inr u \<longleftrightarrow> (\<forall>t\<in>set ts. target_ok eq byId t)"
  by (induction ts) (auto simp: bindR_Inr_iff)

lemma operation_result_ok [simp]: "validateOperationResult eq byId i = Inr u \<longleftrightarrow> intent_ok eq byId i"
  by (auto simp: validateOperationResult_def intent_ok_def split: intent.split option.split)

lemma handles_ok [simp]: "validateDeferredHandles es = Inr u \<longleftrightarrow> (\<forall>e\<in>set es. \<not> lacks_handle e)"
  by (induction es) (auto simp: bindR_Inr_iff)

lemma attempt_validated:
  "(\<exists>u v w. validateAttemptReason rid a = Inr u
     \<and> validateAttemptSequence rid sq a (last_attempt (sa_runId a) pre) byId = Inr v
     \<and> validateAttemptResult byId a = Inr w) \<longleftrightarrow> attempt_ok byId pre sq a"
  by (cases "last_attempt (sa_runId a) pre"; cases "sa_step a")
    (auto simp: validateAttemptReason_def validateAttemptSequence_def validateAttemptResult_def attempt_ok_def
      continuesSeries_def Let_def bindR_Inr_iff)

lemma invocation_key_inject [simp]:
  "invocation_key t = invocation_key t' \<longleftrightarrow>
     ts_assistantEntryId t = ts_assistantEntryId t' \<and> ts_toolIndex t = ts_toolIndex t'"
proof -
  have "CHR 0x00 \<notin> set (decimal n)" for n using decimal_digits [of "CHR 0x00" n] by auto
  then show ?thesis by (auto simp: invocation_key_def dest: separator_unique)
qed

lemma tool_validated:
  assumes "keys = invocation_key ` set (started_tools pre)"
  shows "validateToolStart rid t byId keys = Inr keys' \<longleftrightarrow>
    tool_ok byId pre t \<and> keys' = insert (invocation_key t) keys"
proof -
  have call: "(case map_of byId (ts_assistantEntryId t) of
        Some e \<Rightarrow> (case payload e of
             MessageEntry (AssistantMessage m) _ \<Rightarrow>
               (let calls = tool_calls (am_content m)
                in guardR (ts_toolIndex t < length calls \<and> tc_id (calls ! ts_toolIndex t) = ts_toolCallId t
                           \<and> tc_name (calls ! ts_toolIndex t) = ts_toolName t) err1)
           | _ \<Rightarrow> Inl err2)
      | None \<Rightarrow> Inl err2) = Inr u \<longleftrightarrow>
      (case map_of byId (ts_assistantEntryId t) of
         None \<Rightarrow> False
       | Some e \<Rightarrow>
           ts_toolIndex t < length (entry_calls e) \<and>
           tc_id (entry_calls e ! ts_toolIndex t) = ts_toolCallId t \<and>
           tc_name (entry_calls e ! ts_toolIndex t) = ts_toolName t)" for err1 err2 u
    by (auto simp: entry_calls_def Let_def split: option.split entry_payload.split agent_message.split)
  have "invocation_key t \<notin> keys \<longleftrightarrow> (\<forall>t'\<in>set (started_tools pre).
      \<not> (ts_assistantEntryId t' = ts_assistantEntryId t \<and> ts_toolIndex t' = ts_toolIndex t))"
    unfolding assms image_iff invocation_key_inject by metis
  then show ?thesis
    unfolding validateToolStart_def tool_ok_def bindR_Inr_iff guardR_simps call result_entry_ok by auto
qed

text \<open>The state of the loop after the records \<open>pre\<close>.\<close>

definition validation_of :: "lane_record list \<Rightarrow> validation_state \<Rightarrow> bool" where
  "validation_of pre st \<longleftrightarrow>
     vs_starts st = {record_id s | s. s \<in> set pre \<and> record_type_of s = Rec_operation_started} \<and>
     (\<forall>rid. map_of (vs_finishedAt st) rid = last_opt (map record_seq (filter (finishes_run rid) pre))) \<and>
     (\<forall>rid. map_of (vs_abortedAt st) rid = last_opt (map record_seq (filter (aborts_run rid) pre))) \<and>
     (\<forall>i. map_of (vs_queueEnqueues st) i = last_enqueue i pre) \<and>
     (\<forall>rid. map_of (vs_latestAttempt st) rid = last_attempt rid pre) \<and>
     vs_toolInvocations st = invocation_key ` set (started_tools pre)"

lemma last_opt_simps [simp]: "last_opt [] = None" "last_opt (xs @ [x]) = Some x"
  by (simp_all add: last_opt_def)

lemma last_opt_mem: "last_opt xs = Some x \<Longrightarrow> x \<in> set xs"
  by (auto simp: last_opt_def split: if_splits)

lemma last_opt_None [simp]: "last_opt xs = None \<longleftrightarrow> xs = []"
  by (simp add: last_opt_def)

lemma later_than_last:
  assumes "\<forall>x\<in>set pre. record_seq x < n"
  shows "(case last_opt (map record_seq (filter P pre)) of None \<Rightarrow> True | Some m \<Rightarrow> n \<le> m) \<longleftrightarrow> (\<forall>x\<in>set pre. \<not> P x)"
proof (cases "filter P pre = []")
  case True
  then show ?thesis by (auto simp: filter_empty_conv)
next
  case False
  then obtain m where m: "last_opt (map record_seq (filter P pre)) = Some m" by (auto simp: last_opt_def)
  have "m < n" using last_opt_mem [OF m] assms by auto
  with m False show ?thesis by (auto simp: filter_empty_conv)
qed

lemma last_enqueue_earlier:
  assumes "\<forall>x\<in>set pre. record_seq x < n" and "last_enqueue i pre = Some (sq, rid)"
  shows "sq < n"
proof -
  obtain x where "x \<in> set pre" "enqueue_of i x = Some (sq, rid)"
    using last_opt_mem [OF assms(2) [unfolded last_enqueue_def]] by (auto simp: mem_map_filter)
  then have "sq = record_seq x" by (auto simp: enqueue_of_def split: record_payload.splits if_splits)
  with assms(1) \<open>x \<in> set pre\<close> show ?thesis by simp
qed

lemma check_run_ok:
  assumes "validation_of pre st" and "\<forall>x\<in>set pre. record_seq x < record_seq r"
  shows "check_run st r = Inr u \<longleftrightarrow> run_ok pre r"
proof (cases "record_runId r")
  case None
  then show ?thesis by (simp add: check_run_def run_ok_def)
next
  case (Some rid)
  have "rid \<in> vs_starts st \<longleftrightarrow> (\<exists>s\<in>set pre. starts_run rid s)"
    using assms(1) by (auto simp: validation_of_def starts_run_def)
  moreover have "map_of (vs_finishedAt st) rid = last_opt (map record_seq (filter (finishes_run rid) pre))"
    using assms(1) by (simp add: validation_of_def)
  ultimately show ?thesis
    using Some by (simp add: check_run_def run_ok_def bindR_Inr_iff later_than_last [OF assms(2)])
qed

lemma payload_cases:
  assumes "validation_of pre st" and "\<forall>x\<in>set pre. record_seq x < record_seq r"
    and "record_type_of r \<noteq> Rec_operation_started"
  shows "(\<exists>st'. check_payload eq byId st r = Inr st') \<longleftrightarrow> payload_ok eq byId pre r"
proof (cases "record_payload r")
  case (StepAttempt a)
  have "map_of (vs_latestAttempt st) (sa_runId a) = last_attempt (sa_runId a) pre"
    using assms(1) by (simp add: validation_of_def)
  then show ?thesis
    using StepAttempt attempt_validated [of "record_id r" a "record_seq r" pre byId]
    by (simp add: check_payload_def payload_ok_def bindR_Inr_iff)
next
  case (ToolStarted t)
  have "vs_toolInvocations st = invocation_key ` set (started_tools pre)"
    using assms(1) by (simp add: validation_of_def)
  from tool_validated [OF this] ToolStarted show ?thesis
    by (simp add: check_payload_def payload_ok_def bindR_Inr_iff)
next
  case (QueueEnqueued q rid t)
  have "map_of (vs_abortedAt st) run = last_opt (map record_seq (filter (aborts_run run) pre))" for run
    using assms(1) by (simp add: validation_of_def)
  then have "(case rid of None \<Rightarrow> True | Some run \<Rightarrow>
        (case map_of (vs_abortedAt st) run of None \<Rightarrow> True | Some a \<Rightarrow> record_seq r \<le> a)) \<longleftrightarrow>
      (\<forall>run x. rid = Some run \<longrightarrow> x \<in> set pre \<longrightarrow> \<not> aborts_run run x)"
    by (cases rid) (simp_all add: later_than_last [OF assms(2)] Ball_def)
  with QueueEnqueued show ?thesis by (simp add: check_payload_def payload_ok_def bindR_Inr_iff)
next
  case (QueueCancelled rid i)
  have "map_of (vs_queueEnqueues st) i = last_enqueue i pre" using assms(1) by (simp add: validation_of_def)
  with QueueCancelled show ?thesis
    using last_enqueue_earlier [OF assms(2), of i]
    by (cases "last_enqueue i pre") (auto simp: check_payload_def payload_ok_def bindR_Inr_iff)
qed (use assms(3) in \<open>auto simp: check_payload_def payload_ok_def bindR_Inr_iff record_type_of_def\<close>)

lemma check_record_iff:
  assumes "validation_of pre st" and "\<forall>x\<in>set pre. record_seq x < record_seq r"
  shows "(\<exists>st'. check_record eq byId st r = Inr st') \<longleftrightarrow> record_ok eq byId pre r"
proof (cases "record_type_of r = Rec_operation_started")
  case True
  then obtain src i where "record_payload r = OperationStarted src i"
    by (cases "record_payload r") (auto simp: record_type_of_def)
  then show ?thesis
    by (simp add: check_record_def record_ok_def run_ok_def payload_ok_def record_runId_def bindR_Inr_iff)
next
  case False
  then have "check_record eq byId st r = bindR (check_run st r) (\<lambda>_. check_payload eq byId st r)"
    by (cases "record_payload r") (simp_all add: check_record_def record_type_of_def)
  then show ?thesis
    using payload_cases [OF assms False] check_run_ok [OF assms]
    by (simp add: record_ok_def bindR_Inr_iff)
qed

lemma attempts_of_snoc [simp]:
  "attempts_of (rs @ [r]) = attempts_of rs @ (case record_payload r of StepAttempt a \<Rightarrow> [a] | _ \<Rightarrow> [])"
  by (simp add: attempts_of_def split: record_payload.split)

lemma started_tools_snoc [simp]:
  "started_tools (rs @ [r]) = started_tools rs @ (case record_payload r of ToolStarted t \<Rightarrow> [t] | _ \<Rightarrow> [])"
  by (simp add: started_tools_def split: record_payload.split)

lemma last_enqueue_snoc [simp]:
  "last_enqueue i (rs @ [r]) = (case enqueue_of i r of None \<Rightarrow> last_enqueue i rs | Some x \<Rightarrow> Some x)"
  by (simp add: last_enqueue_def split: option.split)

lemma last_attempt_snoc [simp]:
  "last_attempt rid (rs @ [r]) =
     (case record_payload r of StepAttempt a \<Rightarrow> if sa_runId a = rid then Some a else last_attempt rid rs
      | _ \<Rightarrow> last_attempt rid rs)"
  by (simp add: last_attempt_def split: record_payload.split)

lemma starts_snoc:
  "{record_id s | s. s \<in> set (pre @ [r]) \<and> record_type_of s = Rec_operation_started} =
     (if record_type_of r = Rec_operation_started then {record_id r} else {})
     \<union> {record_id s | s. s \<in> set pre \<and> record_type_of s = Rec_operation_started}"
  by auto

lemmas record_kind_defs = record_type_of_def finishes_run_def aborts_run_def enqueue_of_def alist_of_update

lemma check_record_state:
  assumes "validation_of pre st" and "check_record eq byId st r = Inr st'"
  shows "validation_of (pre @ [r]) st'"
proof (cases "record_payload r")
  case (ToolStarted t)
  have inv: "vs_toolInvocations st = invocation_key ` set (started_tools pre)"
    using assms(1) by (simp add: validation_of_def)
  have "st' = st\<lparr>vs_toolInvocations := insert (invocation_key t) (vs_toolInvocations st)\<rparr>"
    using assms(2) ToolStarted tool_validated [OF inv]
    by (auto simp: check_record_def check_payload_def bindR_Inr_iff)
  then show ?thesis using assms(1) ToolStarted unfolding validation_of_def starts_snoc
    by (simp add: record_kind_defs)
next
  case (OperationStarted src i)
  then have "st' = st\<lparr>vs_starts := insert (record_id r) (vs_starts st)\<rparr>"
    using assms(2) by (auto simp: check_record_def bindR_Inr_iff)
  then show ?thesis using assms(1) OperationStarted unfolding validation_of_def starts_snoc
    by (simp add: record_kind_defs)
next
  case (OperationFinished rid oc err)
  then have "st' = st\<lparr>vs_finishedAt := AList.update rid (record_seq r) (vs_finishedAt st)\<rparr>"
    using assms(2) by (auto simp: check_record_def check_payload_def bindR_Inr_iff)
  then show ?thesis using assms(1) OperationFinished unfolding validation_of_def starts_snoc
    by (simp add: record_kind_defs)
next
  case (AbortRequested rid)
  then have "st' = st\<lparr>vs_abortedAt := AList.update rid (record_seq r) (vs_abortedAt st)\<rparr>"
    using assms(2) by (auto simp: check_record_def check_payload_def bindR_Inr_iff)
  then show ?thesis using assms(1) AbortRequested unfolding validation_of_def starts_snoc
    by (simp add: record_kind_defs)
next
  case (StepAttempt a)
  then have "st' = st\<lparr>vs_latestAttempt := AList.update (sa_runId a) a (vs_latestAttempt st)\<rparr>"
    using assms(2) by (auto simp: check_record_def check_payload_def bindR_Inr_iff)
  then show ?thesis using assms(1) StepAttempt unfolding validation_of_def starts_snoc
    by (simp add: record_kind_defs)
next
  case (QueueEnqueued q rid t)
  then have "st' = st\<lparr>vs_queueEnqueues := AList.update (prov_id t) (record_seq r, rid) (vs_queueEnqueues st)\<rparr>"
    using assms(2) by (auto simp: check_record_def check_payload_def bindR_Inr_iff)
  then show ?thesis using assms(1) QueueEnqueued unfolding validation_of_def starts_snoc
    by (simp add: record_kind_defs)
qed (use assms in \<open>auto simp: check_record_def check_payload_def bindR_Inr_iff validation_of_def starts_snoc
      record_kind_defs\<close>)

text \<open>On a log whose sequence numbers are distinct the loop accepts exactly the valid logs.\<close>

lemma before_record_take:
  assumes "distinct (map record_seq rs)" and "i < length rs"
  shows "before_record rs (sort_key record_seq rs ! i) = take i (sort_key record_seq rs)"
proof -
  let ?s = "sort_key record_seq rs"
  have strict: "sorted_wrt (<) (map record_seq ?s)"
    using assms(1) by (simp add: strict_sorted_iff distinct_map)
  have len: "i < length ?s" using assms(2) by simp
  have "filter (\<lambda>x. record_seq x < record_seq (?s ! i)) ?s = take i ?s"
  proof -
    have "filter (\<lambda>x. record_seq x < record_seq (?s ! i)) (take i ?s) = take i ?s"
      using strict len by (auto simp: filter_id_conv in_set_conv_nth sorted_wrt_iff_nth_less)
    moreover have "record_seq (?s ! i) \<le> record_seq x" if x: "x \<in> set (drop i ?s)" for x
    proof -
      obtain k where "k < length (drop i ?s)" "x = drop i ?s ! k" using x unfolding in_set_conv_nth by blast
      then show ?thesis using sorted_nth_mono [of "map record_seq ?s" i "i + k"] len by simp
    qed
    then have "filter (\<lambda>x. record_seq x < record_seq (?s ! i)) (drop i ?s) = []"
      by (auto simp: filter_empty_conv not_less)
    ultimately show ?thesis by (metis append_Nil2 append_take_drop_id filter_append)
  qed
  then show ?thesis by (simp add: before_record_def filter_sort)
qed

lemma validate_loop:
  assumes "distinct (map record_seq rs)"
  shows "(\<exists>st. foldR (check_record eq byId) init_validation (sort_key record_seq rs) = Inr st) \<longleftrightarrow> log_ok eq byId rs"
proof -
  let ?s = "sort_key record_seq rs"
  let ?R = "\<lambda>pre xs. sorted_wrt (<) (map record_seq (pre @ xs))"
  have strict: "?R [] ?s" using assms by (simp add: strict_sorted_iff distinct_map)
  have init: "validation_of [] init_validation"
    by (simp add: validation_of_def init_validation_def last_enqueue_def last_attempt_def attempts_of_def
        started_tools_def List.map_filter_def)
  have "(\<exists>st. foldR (check_record eq byId) init_validation ?s = Inr st) \<longleftrightarrow>
      (\<forall>i<length ?s. record_ok eq byId ([] @ take i ?s) (?s ! i))"
  proof (rule foldR_accepts [where A = validation_of and R = ?R, OF init strict])
    fix pre st x xs
    assume v: "validation_of pre st" and r: "?R pre (x # xs)"
    have "\<forall>y\<in>set pre. record_seq y < record_seq x" using r by (auto simp: sorted_wrt_append)
    from check_record_iff [OF v this] show "(\<exists>t. check_record eq byId st x = Inr t) \<longleftrightarrow> record_ok eq byId pre x" .
  qed (auto intro: check_record_state)
  also have "\<dots> \<longleftrightarrow> (\<forall>i<length ?s. record_ok eq byId (before_record rs (?s ! i)) (?s ! i))"
    using before_record_take [OF assms] by simp
  also have "\<dots> \<longleftrightarrow> (\<forall>r\<in>set ?s. record_ok eq byId (before_record rs r) r)"
    by (simp only: all_set_conv_all_nth)
  finally show ?thesis by (simp add: log_ok_def)
qed

lemma validate_ok:
  assumes "distinct (map record_seq (sl_records input))"
  shows "validateRecordLog eq input = Inr () \<longleftrightarrow>
    length (sl_openOperations input) \<le> 1 \<and>
    (\<forall>e \<in> snd ` set (index_entries (sl_entries input)). \<not> lacks_handle e) \<and>
    log_ok eq (index_entries (sl_entries input)) (sl_records input)"
  using validate_loop [OF assms, of eq "index_entries (sl_entries input)"]
  by (auto simp: validateRecordLog_def Let_def bindR_Inr_iff)

section \<open>Facts about the reduction\<close>

lemma map_of_index: "map_of (index_entries es) i = find (\<lambda>e. entry_id e = i) (rev es)"
proof (induction es rule: rev_induct)
  case Nil
  then show ?case by (simp add: index_entries_def)
next
  case (snoc e es)
  have "index_entries (es @ [e]) = AList.update (entry_id e) e (index_entries es)" by (simp add: index_entries_def)
  with snoc show ?case by (simp add: alist_of_update)
qed

lemma index_entries_has: "map_has (index_entries es) i \<longleftrightarrow> i \<in> entry_id ` set es"
  unfolding map_has_def map_of_index by (simp add: find_None_iff' image_iff) metis

lemma find_append: "find P (xs @ ys) = (case find P xs of None \<Rightarrow> find P ys | Some x \<Rightarrow> Some x)"
  by (induction xs) auto

lemma find_unique:
  assumes "distinct (map entry_id es)" and "e \<in> set es" and "entry_id e = i"
  shows "find (\<lambda>e. entry_id e = i) (rev es) = Some e"
  using distinct_map_find [of entry_id "rev es" e] assms by (simp add: rev_map [symmetric])

lemma index_own:
  assumes "distinct (map entry_id es)" and "set own \<subseteq> set es"
  shows "map_of (index_entries (es @ own)) = map_of (index_entries es)"
proof
  fix i
  show "map_of (index_entries (es @ own)) i = map_of (index_entries es) i"
  proof (cases "find (\<lambda>e. entry_id e = i) (rev own)")
    case None
    then show ?thesis by (simp add: map_of_index find_append)
  next
    case (Some e)
    then have "e \<in> set es" "entry_id e = i" using find_Some_iff' [OF Some] assms(2) by auto
    then show ?thesis using Some find_unique [OF assms(1)] by (simp add: map_of_index find_append)
  qed
qed

lemma sort_key_perm:
  assumes "mset xs = mset ys" and "distinct (map k xs)"
  shows "sort_key k xs = sort_key k ys"
proof -
  have "inj_on k (set xs)" using assms(2) by (simp add: distinct_map)
  then show ?thesis using sort_key_inj_key_eq [of xs "sort_key k ys" k] assms(1) by simp
qed

text \<open>What an accepted reduction consists of.\<close>

lemma reduce_elim:
  assumes "reduceLaneState eq input = Inr res"
  obtains "validateRecordLog eq input = Inr ()"
    "ls_operation (laneState res) =
       (case sl_openOperations input of [] \<Rightarrow> None
        | s # _ \<Rightarrow> Some (fst (reduce_operation s (sort_key record_seq (sl_records input))
            (sort_key entry_seq (in_ownEntries input))
            (index_entries (sl_entries input @ sort_key entry_seq (in_ownEntries input))))))"
  using assms
  by (auto simp: reduceLaneState_def bindR_Inr_iff Let_def split: list.splits prod.splits)

lemma reduce_op_elim:
  assumes "reduceLaneState eq input = Inr res" and "ls_operation (laneState res) = Some op"
  obtains s where "sl_openOperations input = [s]"
    "op = fst (reduce_operation s (sort_key record_seq (sl_records input))
            (sort_key entry_seq (in_ownEntries input))
            (index_entries (sl_entries input @ sort_key entry_seq (in_ownEntries input))))"
    "validateRecordLog eq input = Inr ()"
proof -
  have len: "length (sl_openOperations input) \<le> 1" if "validateRecordLog eq input = Inr ()"
    using that by (auto simp: validateRecordLog_def bindR_Inr_iff)
  show thesis
    using assms(1)
  proof (rule reduce_elim)
    assume v: "validateRecordLog eq input = Inr ()"
      and o: "ls_operation (laneState res) =
       (case sl_openOperations input of [] \<Rightarrow> None
        | s # _ \<Rightarrow> Some (fst (reduce_operation s (sort_key record_seq (sl_records input))
            (sort_key entry_seq (in_ownEntries input))
            (index_entries (sl_entries input @ sort_key entry_seq (in_ownEntries input))))))"
    obtain s where "sl_openOperations input = [s]"
      using len [OF v] o assms(2) by (cases "sl_openOperations input") auto
    then show thesis using that v o assms(2) by simp
  qed
qed

lemma valid_record:
  assumes "validateRecordLog eq input = Inr ()" and "distinct (map record_seq (sl_records input))"
    and "r \<in> set (sl_records input)"
  shows "record_ok eq (index_entries (sl_entries input)) (before_record (sl_records input) r) r"
  using assms validate_ok [OF assms(2), of eq] by (auto simp: log_ok_def)

subsection \<open>Attempts\<close>

lemma attempts_belonging:
  "attempts_of (filter (belongs_to run) rs) = filter (\<lambda>a. sa_runId a = run) (attempts_of rs)"
proof (induction rs rule: rev_induct)
  case Nil
  then show ?case by (simp add: attempts_of_def List.map_filter_def)
next
  case (snoc r rs)
  then show ?case
    by (cases "record_payload r") (auto simp: belongs_to_def record_type_of_def record_runId_def)
qed

text \<open>In a valid log the attempts of a run end with a numbered series of one step.\<close>

lemma attempt_series:
  assumes "\<forall>i<length rs. record_ok eq byId (take i rs) (rs ! i)" and "last_attempt run rs = Some a"
  shows "\<exists>us vs. filter (\<lambda>a. sa_runId a = run) (attempts_of rs) = us @ vs
    \<and> map sa_attempt vs = [1..<Suc (sa_attempt a)] \<and> (\<forall>v\<in>set vs. sa_step v = sa_step a)"
  using assms
proof (induction rs arbitrary: a rule: rev_induct)
  case Nil
  then show ?case by (simp add: last_attempt_def attempts_of_def List.map_filter_def)
next
  case (snoc r rs)
  have prefix: "\<forall>i<length rs. record_ok eq byId (take i rs) (rs ! i)"
  proof (intro allI impI)
    fix i
    assume "i < length rs"
    with spec [OF snoc.prems(1), of i] show "record_ok eq byId (take i rs) (rs ! i)" by (simp add: nth_append)
  qed
  show ?case
  proof (cases "\<exists>b. record_payload r = StepAttempt b \<and> sa_runId b = run")
    case False
    then have "last_attempt run rs = Some a" using snoc.prems(2) by (auto split: record_payload.splits if_splits)
    moreover have "filter (\<lambda>a. sa_runId a = run) (attempts_of (rs @ [r])) = filter (\<lambda>a. sa_runId a = run) (attempts_of rs)"
      using False by (auto split: record_payload.split)
    ultimately show ?thesis using snoc.IH [OF prefix] by simp
  next
    case True
    then have r: "record_payload r = StepAttempt a" "sa_runId a = run" using snoc.prems(2) by auto
    have "record_ok eq byId rs r" using spec [OF snoc.prems(1), of "length rs"] by simp
    then have ok: "attempt_ok byId rs (record_seq r) a" using r by (simp add: record_ok_def payload_ok_def)
    have split: "filter (\<lambda>a. sa_runId a = run) (attempts_of (rs @ [r])) = filter (\<lambda>a. sa_runId a = run) (attempts_of rs) @ [a]"
      using r by simp
    show ?thesis
    proof (cases "\<exists>p. last_attempt run rs = Some p \<and> continuesSeries byId (record_seq r) a (Some p)")
      case True
      then obtain p where p: "last_attempt run rs = Some p" "continuesSeries byId (record_seq r) a (Some p)" by blast
      then have n: "sa_attempt a = Suc (sa_attempt p)" "sa_step p = sa_step a"
        using ok r(2) by (auto simp: attempt_ok_def continuesSeries_def)
      obtain us vs where "filter (\<lambda>a. sa_runId a = run) (attempts_of rs) = us @ vs"
          "map sa_attempt vs = [1..<Suc (sa_attempt p)]" "\<forall>v\<in>set vs. sa_step v = sa_step p"
        using snoc.IH [OF prefix p(1)] by blast
      then show ?thesis using split n by (intro exI [of _ us] exI [of _ "vs @ [a]"]) auto
    next
      case False
      then have "sa_attempt a = 1"
        using ok r(2) by (auto simp: attempt_ok_def split: option.splits)
      then show ?thesis using split
        by (intro exI [of _ "filter (\<lambda>a. sa_runId a = run) (attempts_of rs)"] exI [of _ "[a]"]) simp
    qed
  qed
qed

lemma valid_prefixes:
  assumes "validateRecordLog eq input = Inr ()" and "distinct (map record_seq (sl_records input))"
  shows "\<forall>i<length (sl_records input). record_ok eq (index_entries (sl_entries input))
      (take i (sort_key record_seq (sl_records input))) (sort_key record_seq (sl_records input) ! i)"
proof (intro allI impI)
  fix i
  assume i: "i < length (sl_records input)"
  have "sort_key record_seq (sl_records input) ! i \<in> set (sl_records input)"
    using i nth_mem [of i "sort_key record_seq (sl_records input)"] by simp
  from valid_record [OF assms this] before_record_take [OF assms(2) i]
  show "record_ok eq (index_entries (sl_entries input))
      (take i (sort_key record_seq (sl_records input))) (sort_key record_seq (sl_records input) ! i)" by simp
qed

subsection \<open>Tool batches\<close>

lemma tool_starts_mem:
  assumes "map_of (tool_starts run aid rs) i = Some r"
  shows "\<exists>t. r \<in> set rs \<and> record_payload r = ToolStarted t \<and> ts_runId t = run \<and> ts_assistantEntryId t = aid \<and> ts_toolIndex t = i"
  using assms
proof (induction rs rule: rev_induct)
  case Nil
  then show ?case by (simp add: tool_starts_def)
next
  case (snoc x rs)
  show ?case
  proof (cases "\<exists>t. record_payload x = ToolStarted t \<and> ts_runId t = run \<and> ts_assistantEntryId t = aid")
    case True
    then obtain t where t: "record_payload x = ToolStarted t" "ts_runId t = run" "ts_assistantEntryId t = aid" by blast
    then have "tool_starts run aid (rs @ [x]) = AList.update (ts_toolIndex t) x (tool_starts run aid rs)"
      by (simp add: tool_starts_def)
    then show ?thesis using snoc t by (cases "ts_toolIndex t = i") (auto simp: alist_of_update)
  next
    case False
    then have "tool_starts run aid (rs @ [x]) = tool_starts run aid rs"
      by (auto simp: tool_starts_def split: record_payload.split)
    then show ?thesis using snoc by auto
  qed
qed

lemma batch_elim:
  assumes "deriveToolBatch run rs own byId dw = Some b"
  obtains e where "e \<in> set own" "entry_calls e \<noteq> []" "tb_assistantEntryId b = entry_id e"
    "tb_calls b = map (\<lambda>(i, c). batch_call (tool_starts run (entry_id e) rs) e own byId dw i c) (enumerate 0 (entry_calls e))"
    "tb_unresolved b = list_ex (\<lambda>c. \<not> bc_resultExists c) (tb_calls b)"
proof (cases "find (\<lambda>e. entry_calls e \<noteq> []) (rev own)")
  case None
  with assms show thesis by (simp add: deriveToolBatch_def)
next
  case (Some e)
  from find_Some_iff' [OF this] assms Some show thesis
    by (intro that [of e]) (auto simp: deriveToolBatch_def Let_def)
qed

lemma pendingQueue_mem:
  "(q, rid, t) \<in> set (pendingQueue rs byId) \<longleftrightarrow>
     (\<exists>r\<in>set rs. record_payload r = QueueEnqueued q rid t) \<and> \<not> map_has byId (prov_id t) \<and> prov_id t \<notin> cancelled_ids rs"
proof -
  have "(case record_payload r of
         QueueEnqueued q rid t \<Rightarrow>
           if \<not> map_has byId (prov_id t) \<and> prov_id t \<notin> cancelled_ids rs then Some (q, rid, t) else None
       | _ \<Rightarrow> None) = Some (q, rid, t) \<longleftrightarrow>
      record_payload r = QueueEnqueued q rid t \<and> \<not> map_has byId (prov_id t) \<and> prov_id t \<notin> cancelled_ids rs" for r
    by (cases "record_payload r") auto
  then show ?thesis by (simp add: pendingQueue_def mem_map_filter) blast
qed

lemma pendingFor_mem: "t \<in> set (pendingFor q run pend) \<longleftrightarrow> (q, Some run, t) \<in> set pend"
  by (force simp: pendingFor_def)

lemma cancelled_mem: "i \<in> cancelled_ids rs \<longleftrightarrow> (\<exists>r\<in>set rs. \<exists>rid. record_payload r = QueueCancelled rid i)"
proof -
  have "(case record_payload r of QueueCancelled _ i \<Rightarrow> Some i | _ \<Rightarrow> None) = Some i \<longleftrightarrow>
      (\<exists>rid. record_payload r = QueueCancelled rid i)" for r
    by (cases "record_payload r") auto
  then show ?thesis unfolding cancelled_ids_def mem_map_filter by blast
qed

section \<open>An example lane\<close>

text \<open>A run in its second assistant step, after one tool call, with a steering message waiting.\<close>

definition demo_usage :: usage where
  "demo_usage =
     \<lparr>u_input = 1, u_output = 1, u_cacheRead = 0, u_cacheWrite = 0, u_cacheWrite1h = None, u_reasoning = None,
      u_totalTokens = 2,
      u_cost = \<lparr>cost_input = 0, cost_output = 0, cost_cacheRead = 0, cost_cacheWrite = 0, cost_total = 0\<rparr>\<rparr>"

definition demo_call :: tool_call where
  "demo_call = \<lparr>tc_id = ''c1'', tc_name = ''bash'', tc_arguments = JObject False [], tc_thoughtSignature = None,
                tc_namespace = None\<rparr>"

definition demo_assistant :: assistant_message where
  "demo_assistant =
     \<lparr>am_content = [AToolCall demo_call], am_api = ''api'', am_provider = ''prov'', am_model = ''model'',
      am_responseModel = None, am_responseId = None, am_diagnostics = None, am_usage = demo_usage,
      am_stopReason = ToolUse, am_deferred = None, am_errorMessage = None, am_rawStopReason = None,
      am_endTurn = None, am_timestamp = 4\<rparr>"

definition demo_entry :: entry where
  "demo_entry = \<lparr>entry_id = ''m'', entry_seq = 4, parentId = None, entry_timestamp = 4,
                 payload = MessageEntry (AssistantMessage demo_assistant) False\<rparr>"

definition demo_record :: "ident \<Rightarrow> nat \<Rightarrow> record_payload \<Rightarrow> lane_record" where
  "demo_record i n p = \<lparr>record_id = i, record_seq = n, record_lane = ''main'', record_timestamp = n, record_payload = p\<rparr>"

definition demo_intent :: intent where
  "demo_intent = RunIntent \<lparr>originalPrompt = [], initialMessages = [], systemPromptOverride = None, resumeData = None\<rparr>"

definition demo_target :: provisioned_entry where
  "demo_target = \<lparr>prov_id = ''q'', prov_payload = ThinkingLevelEntry ''high''\<rparr>"

definition demo_tool :: tool_started where
  "demo_tool = \<lparr>ts_runId = ''r'', ts_assistantEntryId = ''m'', ts_toolIndex = 0, ts_toolCallId = ''c1'',
                ts_toolName = ''bash'', ts_effectiveArgs = JObject False [], ts_resultEntryId = ''t'', ts_replay = Replay_safe\<rparr>"

definition demo_attempt :: "ident \<Rightarrow> nat \<Rightarrow> step_attempt" where
  "demo_attempt i n = \<lparr>sa_runId = ''r'', sa_step = Step_assistant, sa_attempt = n, sa_resultEntryId = i,
                       sa_compactionReason = None\<rparr>"

definition demo_records :: "lane_record list" where
  "demo_records =
     [demo_record ''r'' 2 (OperationStarted None demo_intent),
      demo_record ''s1'' 3 (StepAttempt (demo_attempt ''m'' 1)),
      demo_record ''x'' 5 (ToolStarted demo_tool),
      demo_record ''k'' 6 (QueueEnqueued Steer (Some ''r'') demo_target),
      demo_record ''s2'' 7 (StepAttempt (demo_attempt ''m2'' 1)),
      demo_record ''s3'' 8 (StepAttempt (demo_attempt ''m3'' 2))]"

definition demo_input :: lane_reduction_input where
  "demo_input =
     \<lparr>sl_lane = ''main'',
      sl_openOperations = [\<lparr>os_id = ''r'', os_seq = 2, os_lane = ''main'', os_timestamp = 2, os_sourceLeafId = None, os_intent = demo_intent\<rparr>],
      sl_records = demo_records, sl_entries = [demo_entry], in_leafId = Some ''m'', in_ownEntries = [demo_entry],
      in_configurationEntries = [],
      in_defaults = \<lparr>cf_model = (''p'', ''d''), cf_thinkingLevel = ''off'', cf_activeToolNames = []\<rparr>\<rparr>"

lemmas demo_input_defs = demo_input_def demo_records_def demo_record_def demo_attempt_def demo_tool_def demo_target_def
  demo_intent_def demo_entry_def demo_assistant_def demo_call_def

lemma demo_input_fields:
  "sl_records demo_input = demo_records" "sl_entries demo_input = [demo_entry]" "in_ownEntries demo_input = [demo_entry]"
  by (simp_all add: demo_input_def)

lemma demo_index: "index_entries [demo_entry] = [(''m'', demo_entry)]"
  by (simp add: index_entries_def demo_entry_def)

lemma demo_sorted: "sort_key record_seq demo_records = demo_records"
  by (simp add: demo_records_def demo_record_def)

lemma demo_distinct: "distinct (map record_seq demo_records)"
  by (simp add: demo_records_def demo_record_def)

lemma demo_valid: "validateRecordLog (=) demo_input = Inr ()"
proof -
  have "foldR (check_record (=) [(''m'', demo_entry)]) init_validation demo_records \<noteq> Inl e" for e
    by (simp add: demo_input_defs init_validation_def check_record_def check_run_def check_payload_def
        validateOperationResult_def validateAttemptReason_def validateAttemptSequence_def continuesSeries_def
        validateAttemptResult_def validateResultEntry_def validateToolStart_def validateExactProvisionedEntry_def
        tool_calls_def List.map_filter_def is_assistant_entry_def record_runId_def Let_def)
  then obtain st where "foldR (check_record (=) [(''m'', demo_entry)]) init_validation demo_records = Inr st"
    by (meson sum.exhaust)
  moreover have "\<not> lacks_handle demo_entry" by (simp add: lacks_handle_def demo_entry_def demo_assistant_def)
  ultimately show ?thesis by (simp add: validateRecordLog_def demo_input_def demo_index demo_sorted Let_def)
qed

lemma demo_reduces:
  obtains res op where "reduceLaneState (=) demo_input = Inr res" "ls_operation (laneState res) = Some op"
    "op_id op = ''r''" "\<not> op_aborting op"
proof -
  let ?own = "sort_key entry_seq (in_ownEntries demo_input)"
  let ?op = "fst (reduce_operation (hd (sl_openOperations demo_input)) demo_records ?own
      (index_entries (sl_entries demo_input @ ?own)))"
  have "\<exists>res. reduceLaneState (=) demo_input = Inr res \<and> ls_operation (laneState res) = Some ?op"
    using demo_valid by (simp add: reduceLaneState_def demo_input_def demo_sorted Let_def split: prod.split)
  moreover have "op_id ?op = ''r''" by (simp add: reduce_operation_def Let_def demo_input_def)
  moreover have "list_all (\<lambda>r. record_type_of r \<noteq> Rec_abort_requested) demo_records"
    by (simp add: demo_records_def demo_record_def record_type_of_def)
  then have "\<not> op_aborting ?op"
    by (simp add: reduce_operation_def Let_def list_ex_iff list_all_iff)
  ultimately show thesis using that by blast
qed

section \<open>Properties of the reducer\<close>

text \<open>C25: On a log with distinct sequence numbers \<open>validateRecordLog\<close> accepts exactly the valid logs:
  at most one open operation, every deferred assistant entry carries its handle, and every record is
  in order with the records before it. A record of a run comes after the start of the run and before
  its finish; attempts are numbered consecutively within their step; no tool call is started twice and
  each start matches the call of its assistant entry; nothing is queued for a run after its abort;
  only a queued item that was not delivered is cancelled; an entry stored under a provisioned id has
  the intended content.\<close>

theorem validateRecordLog_iff:
  assumes "distinct (map record_seq (sl_records input))"
  shows "validateRecordLog isDeepEqual input = Inr () \<longleftrightarrow>
    length (sl_openOperations input) \<le> 1 \<and>
    (\<forall>e \<in> snd ` set (index_entries (sl_entries input)). \<not> lacks_handle e) \<and>
    log_ok isDeepEqual (index_entries (sl_entries input)) (sl_records input)"
  using assms by (rule validate_ok)

theorem validateRecordLog_iff_witness:
  "log_ok (=) (index_entries (sl_entries demo_input)) (sl_records demo_input)"
  using validateRecordLog_iff [of demo_input "(=)"] demo_valid demo_distinct by (simp add: demo_input_def)

text \<open>The reduction does not depend on the order in which the records of the slice arrive.\<close>

theorem reduceLaneState_order:
  assumes "mset rs = mset (sl_records input)" and "distinct (map record_seq (sl_records input))"
  shows "reduceLaneState isDeepEqual (input\<lparr>sl_records := rs\<rparr>) = reduceLaneState isDeepEqual input"
proof -
  have "sort_key record_seq rs = sort_key record_seq (sl_records input)"
    using sort_key_perm [OF assms(1) [symmetric] assms(2)] by simp
  then show ?thesis
    by (simp add: reduceLaneState_def validateRecordLog_def deriveEffectiveConfiguration_def Let_def
        cong: option.case_cong prod.case_cong)
qed

text \<open>C30: A message queued for the open run, to steer it or to follow it up, is never both stored and cancelled, and an entry
  stored under its id is deeply equal to it. Unless the run is being aborted, the message is pending in the queue it was put in exactly when it is
  neither stored nor cancelled, so it has exactly one of the three fates. When the run is being aborted, that is when its log has an abort request, both queues are
  empty and what is neither stored nor cancelled is dropped. The operation's own entries are
  among the entries of the slice; of deep equality nothing is assumed.\<close>

theorem queued_message_fate:
  assumes "reduceLaneState isDeepEqual input = Inr res" and "ls_operation (laneState res) = Some op"
    and "distinct (map record_seq (sl_records input))" and "distinct (map entry_id (sl_entries input))"
    and "set (in_ownEntries input) \<subseteq> set (sl_entries input)"
    and "r \<in> set (sl_records input)" and "record_payload r = QueueEnqueued q (Some (op_id op)) t" and "q \<noteq> NextRun"
  shows "(\<forall>e\<in>set (sl_entries input). entry_id e = prov_id t \<longrightarrow>
        isDeepEqual (entry_content e) t \<and> prov_id t \<notin> cancelled_ids (sl_records input))
    \<and> (op_aborting op \<longleftrightarrow> (\<exists>a\<in>set (sl_records input). record_payload a = AbortRequested (op_id op)))
    \<and> (if op_aborting op then op_pendingSteer op = [] \<and> op_pendingFollowUp op = []
       else t \<in> set (if q = Steer then op_pendingSteer op else op_pendingFollowUp op) \<longleftrightarrow>
         prov_id t \<notin> entry_id ` set (sl_entries input) \<and> prov_id t \<notin> cancelled_ids (sl_records input))"
proof (intro conjI ballI impI)
  let ?own = "sort_key entry_seq (in_ownEntries input)"
  let ?rs = "sort_key record_seq (sl_records input)"
  let ?byId = "index_entries (sl_entries input @ ?own)"
  obtain s where s: "op = fst (reduce_operation s ?rs ?own ?byId)" "validateRecordLog isDeepEqual input = Inr ()"
    using assms(1,2) by (rule reduce_op_elim) blast
  have own: "set ?own \<subseteq> set (sl_entries input)" using assms(5) by simp
  have has: "map_has ?byId i \<longleftrightarrow> i \<in> entry_id ` set (sl_entries input)" for i
    using own by (auto simp: index_entries_has)
  have cancel: "cancelled_ids ?rs = cancelled_ids (sl_records input)" unfolding set_eq_iff cancelled_mem by simp
  have "belongs_to i a \<and> record_type_of a = Rec_abort_requested \<longleftrightarrow> record_payload a = AbortRequested i" for i a
    by (cases "record_payload a") (auto simp: belongs_to_def record_type_of_def record_runId_def)
  then show "op_aborting op \<longleftrightarrow> (\<exists>a\<in>set (sl_records input). record_payload a = AbortRequested (op_id op))"
    unfolding s(1) by (simp add: reduce_operation_def Let_def list_ex_iff) blast
  show "if op_aborting op then op_pendingSteer op = [] \<and> op_pendingFollowUp op = []
       else t \<in> set (if q = Steer then op_pendingSteer op else op_pendingFollowUp op) \<longleftrightarrow>
         prov_id t \<notin> entry_id ` set (sl_entries input) \<and> prov_id t \<notin> cancelled_ids (sl_records input)"
    using assms(6-8) has cancel unfolding s(1)
    by (cases q) (auto simp: reduce_operation_def Let_def pendingFor_mem pendingQueue_mem)
  fix e assume e: "e \<in> set (sl_entries input)" "entry_id e = prov_id t"
  have "record_ok isDeepEqual (index_entries (sl_entries input)) (before_record (sl_records input) r) r"
    by (rule valid_record [OF s(2) assms(3,6)])
  then show "isDeepEqual (entry_content e) t"
    using assms(7) find_unique [OF assms(4) e] by (simp add: record_ok_def payload_ok_def target_ok_def map_of_index)
  show "prov_id t \<notin> cancelled_ids (sl_records input)"
  proof
    assume "prov_id t \<in> cancelled_ids (sl_records input)"
    then obtain c rid where c: "c \<in> set (sl_records input)" "record_payload c = QueueCancelled rid (prov_id t)"
      by (auto simp: cancelled_mem)
    then have "\<not> map_has (index_entries (sl_entries input)) (prov_id t)"
      using valid_record [OF s(2) assms(3) c(1)] by (simp add: record_ok_def payload_ok_def)
    then show False using e by (force simp: index_entries_has)
  qed
qed

theorem queued_message_fate_witness:
  "\<exists>res op. reduceLaneState (=) demo_input = Inr res \<and> ls_operation (laneState res) = Some op
    \<and> demo_target \<in> set (op_pendingSteer op)"
proof -
  obtain res op where res: "reduceLaneState (=) demo_input = Inr res" "ls_operation (laneState res) = Some op"
      and op: "op_id op = ''r''" "\<not> op_aborting op" by (rule demo_reduces)
  let ?r = "demo_record ''k'' 6 (QueueEnqueued Steer (Some ''r'') demo_target)"
  have r: "?r \<in> set (sl_records demo_input)" "record_payload ?r = QueueEnqueued Steer (Some (op_id op)) demo_target"
    by (simp_all add: demo_input_fields demo_records_def demo_record_def op)
  have d: "distinct (map record_seq (sl_records demo_input))" "distinct (map entry_id (sl_entries demo_input))"
      "set (in_ownEntries demo_input) \<subseteq> set (sl_entries demo_input)"
    using demo_distinct by (simp_all add: demo_input_fields)
  have "prov_id demo_target \<notin> cancelled_ids demo_records"
    by (simp add: cancelled_mem demo_records_def demo_record_def)
  moreover have "entry_id demo_entry \<noteq> prov_id demo_target" by (simp add: demo_entry_def demo_target_def)
  ultimately have "demo_target \<in> set (op_pendingSteer op)"
    using queued_message_fate [OF res d r] op(2) by (simp add: demo_input_fields)
  with res show ?thesis by blast
qed

text \<open>The tool batch of a reduced lane lists the calls of its assistant entry in order. A start that
  is paired with a call is a start of that very call, with its id and its tool name; a call counts as
  answered when its result is stored; and when the batch is not unresolved, every call is answered.\<close>

theorem tool_batch_pairs:
  assumes "reduceLaneState isDeepEqual input = Inr res" and "ls_operation (laneState res) = Some op"
    and "op_toolBatch op = Some b"
    and "distinct (map record_seq (sl_records input))" and "distinct (map entry_id (sl_entries input))"
    and "set (in_ownEntries input) \<subseteq> set (sl_entries input)"
  shows "\<exists>e\<in>set (in_ownEntries input). entry_id e = tb_assistantEntryId b
    \<and> map bc_toolCall (tb_calls b) = entry_calls e
    \<and> map bc_toolIndex (tb_calls b) = [0..<length (entry_calls e)]
    \<and> (\<forall>c\<in>set (tb_calls b). \<forall>r. bc_started c = Some r \<longrightarrow>
        (\<exists>t. record_payload r = ToolStarted t \<and> ts_assistantEntryId t = entry_id e
          \<and> ts_toolCallId t = tc_id (bc_toolCall c) \<and> ts_toolName t = tc_name (bc_toolCall c)
          \<and> (map_has (index_entries (sl_entries input)) (ts_resultEntryId t) \<longrightarrow> bc_resultExists c)))
    \<and> (\<not> tb_unresolved b \<longrightarrow> (\<forall>c\<in>set (tb_calls b). bc_resultExists c))"
proof -
  let ?own = "sort_key entry_seq (in_ownEntries input)"
  let ?rs = "sort_key record_seq (sl_records input)"
  let ?byId = "index_entries (sl_entries input @ ?own)"
  obtain s where s: "op = fst (reduce_operation s ?rs ?own ?byId)" "validateRecordLog isDeepEqual input = Inr ()"
    using assms(1,2) by (rule reduce_op_elim) blast
  have own: "set ?own \<subseteq> set (sl_entries input)" using assms(6) by simp
  obtain run dw rs' where b: "deriveToolBatch run rs' ?own ?byId dw = Some b" and sub: "set rs' \<subseteq> set (sl_records input)"
    using assms(3) unfolding s(1) by (auto simp: reduce_operation_def Let_def)
  from b obtain e where e: "e \<in> set ?own" "tb_assistantEntryId b = entry_id e"
      "tb_calls b = map (\<lambda>(i, c). batch_call (tool_starts run (entry_id e) rs') e ?own ?byId dw i c) (enumerate 0 (entry_calls e))"
      "tb_unresolved b = list_ex (\<lambda>c. \<not> bc_resultExists c) (tb_calls b)"
    by (rule batch_elim) blast
  have lists: "map bc_toolCall (tb_calls b) = entry_calls e" "map bc_toolIndex (tb_calls b) = [0..<length (entry_calls e)]"
    using arg_cong [OF map_snd_enumerate, of "\<lambda>x. x" 0 "entry_calls e"] map_fst_enumerate [of 0 "entry_calls e"]
    unfolding e(3) by (simp_all add: comp_def case_prod_beta batch_call_def Let_def)
  have paired: "\<exists>t. record_payload r = ToolStarted t \<and> ts_assistantEntryId t = entry_id e
        \<and> ts_toolCallId t = tc_id (bc_toolCall c) \<and> ts_toolName t = tc_name (bc_toolCall c)
        \<and> (map_has (index_entries (sl_entries input)) (ts_resultEntryId t) \<longrightarrow> bc_resultExists c)"
    if c: "c \<in> set (tb_calls b)" and r: "bc_started c = Some r" for c r
  proof -
    obtain i where i: "i < length (entry_calls e)"
        "c = batch_call (tool_starts run (entry_id e) rs') e ?own ?byId dw i (entry_calls e ! i)"
      using c unfolding e(3) by (auto simp: in_set_enumerate_eq)
    then have st: "map_of (tool_starts run (entry_id e) rs') i = Some r" and cc: "bc_toolCall c = entry_calls e ! i"
      using r by (simp_all add: batch_call_def Let_def)
    from tool_starts_mem [OF st] obtain t where t: "r \<in> set rs'" "record_payload r = ToolStarted t"
        "ts_assistantEntryId t = entry_id e" "ts_toolIndex t = i" by blast
    have "map_of (index_entries (sl_entries input)) (entry_id e) = Some e"
      using find_unique [OF assms(5)] e(1) own by (auto simp: map_of_index)
    moreover have "record_ok isDeepEqual (index_entries (sl_entries input)) (before_record (sl_records input) r) r"
      using valid_record [OF s(2) assms(4)] t(1) sub by blast
    ultimately have "tc_id (entry_calls e ! i) = ts_toolCallId t \<and> tc_name (entry_calls e ! i) = ts_toolName t"
      using t by (simp add: record_ok_def payload_ok_def tool_ok_def)
    moreover have "bc_resultExists c" if "map_has (index_entries (sl_entries input)) (ts_resultEntryId t)"
      using that t(2) st unfolding i(2) map_has_def index_own [OF assms(5) own, symmetric]
      by (auto simp: batch_call_def Let_def)
    ultimately show ?thesis using t cc by auto
  qed
  have "\<not> tb_unresolved b \<longrightarrow> (\<forall>c\<in>set (tb_calls b). bc_resultExists c)" using e(4) by (auto simp: list_ex_iff)
  then show ?thesis using e(1,2) lists paired by (intro bexI [of _ e]) auto
qed

text \<open>When a reduced lane reports a step in progress with \<open>n\<close> attempts, the attempts that the
  log has of the open operation end with the attempts \<open>1\<close> to \<open>n\<close> of exactly that step, and the result
  of the last one is not stored.\<close>

theorem step_attempts_counted:
  assumes "reduceLaneState isDeepEqual input = Inr res" and "ls_operation (laneState res) = Some op"
    and "op_step op = Some st" and "distinct (map record_seq (sl_records input))"
  shows "\<exists>us vs. filter (\<lambda>a. sa_runId a = op_id op) (attempts_of (sort_key record_seq (sl_records input))) = us @ vs
    \<and> map sa_attempt vs = [1..<Suc (ss_attempts st)] \<and> (\<forall>v\<in>set vs. sa_step v = ss_kind st)
    \<and> ss_resultEntryId st \<notin> entry_id ` set (sl_entries input)"
proof -
  let ?own = "sort_key entry_seq (in_ownEntries input)"
  let ?rs = "sort_key record_seq (sl_records input)"
  let ?byId = "index_entries (sl_entries input @ ?own)"
  obtain s where s: "op = fst (reduce_operation s ?rs ?own ?byId)" "validateRecordLog isDeepEqual input = Inr ()"
    using assms(1,2) by (rule reduce_op_elim) blast
  have run: "op_id op = os_id s" unfolding s(1) by (simp add: reduce_operation_def Let_def)
  have "derive_step (filter (belongs_to (os_id s)) ?rs) ?byId = Some st"
    using assms(3) unfolding s(1) by (simp add: reduce_operation_def Let_def)
  then obtain a where a: "last_attempt (os_id s) ?rs = Some a" "\<not> map_has ?byId (sa_resultEntryId a)"
      "ss_kind st = sa_step a" "ss_attempts st = sa_attempt a" "ss_resultEntryId st = sa_resultEntryId a"
    by (auto simp: derive_step_def attempts_belonging last_attempt_def split: option.splits if_splits)
  have "\<forall>i<length ?rs. record_ok isDeepEqual (index_entries (sl_entries input)) (take i ?rs) (?rs ! i)"
    using valid_prefixes [OF s(2) assms(4)] by simp
  from attempt_series [OF this a(1)] obtain us vs
    where "filter (\<lambda>a. sa_runId a = op_id op) (attempts_of ?rs) = us @ vs"
      "map sa_attempt vs = [1..<Suc (ss_attempts st)]" "\<forall>v\<in>set vs. sa_step v = ss_kind st"
    unfolding run a(3,4) by blast
  moreover have "ss_resultEntryId st \<notin> entry_id ` set (sl_entries input)"
    using a(2) unfolding a(5) index_entries_has by auto
  ultimately show ?thesis by blast
qed

end
