(* ===== verification/Framing.thy ===== *)
theory Framing
  imports Pi_Prelude
begin

text \<open>
  The frame codec of \<open>protocol/src/framing.ts\<close>. A frame is a payload behind its length as four
  big-endian bytes. The incremental decoder keeps a header array, a list of payload blocks and a
  reference to the block it fills, which is an index into that list here. Arguments are byte arrays,
  so the \<open>instanceof\<close> checks of the source always pass. The theory shows that the decoder splits the
  stream it receives like the obvious parser of the whole stream, whatever the chunks are.
\<close>

section \<open>Encoding\<close>

definition FRAME_HEADER_LENGTH :: nat where "FRAME_HEADER_LENGTH = 4"
definition FRAME_MAX_UINT32 :: nat where "FRAME_MAX_UINT32 = 0xffffffff"
definition PAYLOAD_BLOCK_SIZE :: nat where "PAYLOAD_BLOCK_SIZE = 64 * 1024"
definition DEFAULT_MAX_FRAME_LENGTH :: nat where "DEFAULT_MAX_FRAME_LENGTH = 16 * 1024 * 1024"

datatype frame_error = FrameError string | FrameRangeError string

text \<open>A configured limit is an integer here; the source also rejects other numbers.\<close>

definition resolveMaxFrameLength :: "int option \<Rightarrow> frame_error + nat" where
  "resolveMaxFrameLength lmt =
     (let value = (case lmt of None \<Rightarrow> int DEFAULT_MAX_FRAME_LENGTH | Some n \<Rightarrow> n)
      in if value < 0 \<or> int FRAME_MAX_UINT32 < value
         then Inl (FrameRangeError (''maxFrameLength must be an integer between 0 and '' @ decimal FRAME_MAX_UINT32))
         else Inr (nat value))"

text \<open>The bytes of an unsigned 32-bit number, most significant first; an assignment to an array
  element keeps the low eight bits.\<close>

definition be32 :: "nat \<Rightarrow> bytes" where
  "be32 n = [of_nat (n div 2 ^ 24), of_nat (n div 2 ^ 16), of_nat (n div 2 ^ 8), of_nat n]"

definition of_be32 :: "bytes \<Rightarrow> nat" where
  "of_be32 h = unat (h ! 0) * 0x1000000 + unat (h ! 1) * 0x10000 + unat (h ! 2) * 0x100 + unat (h ! 3)"

definition encodeFrame :: "bytes \<Rightarrow> frame_error + bytes" where
  "encodeFrame payload =
     (if FRAME_MAX_UINT32 < length payload
      then Inl (FrameRangeError ''Frame payload exceeds the unsigned 32-bit length limit'')
      else Inr (be32 (length payload) @ payload))"

definition assertCompleteFrame :: "bytes \<Rightarrow> int option \<Rightarrow> frame_error + unit" where
  "assertCompleteFrame frame lmt =
     bindR (guardR (FRAME_HEADER_LENGTH \<le> length frame)
             (FrameError ''Frame does not contain a complete length prefix'')) (\<lambda>_.
     let n = of_be32 frame
     in bindR (resolveMaxFrameLength lmt) (\<lambda>mx.
        bindR (guardR (n \<le> mx)
                (FrameError (''Frame length '' @ decimal n @ '' exceeds configured limit of '' @ decimal mx))) (\<lambda>_.
        guardR (length frame = FRAME_HEADER_LENGTH + n)
          (FrameError ''Frame must contain exactly one complete payload''))))"

section \<open>The decoder\<close>

datatype decoder_state = Open | Ended | Failed_state

text \<open>The field \<open>allocated\<close> is not in the source: it counts the bytes of all arrays that the decoder has
  created with \<open>new Uint8Array\<close> since its construction, whether they are still referenced or not.\<close>

record frame_decoder =
  header :: bytes
  headerLength :: nat
  maxFrameLength :: nat
  payloadBlocks :: "bytes list"
  currentPayloadBlock :: "nat option"
  currentPayloadBlockLength :: nat
  expectedPayloadLength :: "nat option"
  payloadLength :: nat
  decoder_state :: decoder_state
  allocated :: nat

definition new_decoder :: "int option \<Rightarrow> frame_error + frame_decoder" where
  "new_decoder lmt =
     bindR (resolveMaxFrameLength lmt) (\<lambda>mx.
     Inr \<lparr>header = replicate FRAME_HEADER_LENGTH 0, headerLength = 0, maxFrameLength = mx, payloadBlocks = [],
          currentPayloadBlock = None, currentPayloadBlockLength = 0, expectedPayloadLength = None,
          payloadLength = 0, decoder_state = Open, allocated = FRAME_HEADER_LENGTH\<rparr>)"

text \<open>\<open>target.set(source, offset)\<close> on byte arrays.\<close>

definition write_at :: "bytes \<Rightarrow> nat \<Rightarrow> bytes \<Rightarrow> bytes" where
  "write_at target offset source = take offset target @ source @ drop (offset + length source) target"

definition reset_payload :: "frame_decoder \<Rightarrow> frame_decoder" where
  "reset_payload d =
     d\<lparr>payloadBlocks := [], currentPayloadBlock := None, currentPayloadBlockLength := 0, payloadLength := 0\<rparr>"

definition fail_decoder :: "frame_decoder \<Rightarrow> frame_decoder" where
  "fail_decoder d =
     (reset_payload d)\<lparr>decoder_state := Failed_state, headerLength := 0, expectedPayloadLength := None\<rparr>"

datatype header_outcome = HeaderPartial | HeaderTooLong nat | HeaderEmpty | HeaderPayload nat

text \<open>The part of the loop that reads the length prefix. \<open>rest\<close> is the chunk from \<open>chunkOffset\<close> on.\<close>

definition read_header :: "frame_decoder \<Rightarrow> bytes \<Rightarrow> frame_decoder \<times> bytes \<times> header_outcome" where
  "read_header d rest =
     (let headerBytes = min (FRAME_HEADER_LENGTH - headerLength d) (length rest);
          d1 = d\<lparr>header := write_at (header d) (headerLength d) (take headerBytes rest),
                 headerLength := headerLength d + headerBytes\<rparr>;
          rest1 = drop headerBytes rest
      in if headerLength d1 < FRAME_HEADER_LENGTH then (d1, rest1, HeaderPartial)
         else let frameLength = of_be32 (header d1); d2 = d1\<lparr>headerLength := 0\<rparr>
              in if maxFrameLength d2 < frameLength then (d2, rest1, HeaderTooLong frameLength)
                 else if frameLength = 0 then (d2, rest1, HeaderEmpty)
                 else ((reset_payload d2)\<lparr>expectedPayloadLength := Some frameLength\<rparr>, rest1, HeaderPayload frameLength))"

definition allocate_block :: "frame_decoder \<Rightarrow> nat \<Rightarrow> frame_decoder" where
  "allocate_block d expected =
     d\<lparr>payloadBlocks := payloadBlocks d @ [replicate (min PAYLOAD_BLOCK_SIZE (expected - payloadLength d)) 0],
       currentPayloadBlock := Some (length (payloadBlocks d)), currentPayloadBlockLength := 0,
       allocated := allocated d + min PAYLOAD_BLOCK_SIZE (expected - payloadLength d)\<rparr>"

definition ensure_block :: "frame_decoder \<Rightarrow> nat \<Rightarrow> frame_decoder" where
  "ensure_block d expected =
     (case currentPayloadBlock d of
        None \<Rightarrow> allocate_block d expected
      | Some i \<Rightarrow>
          if currentPayloadBlockLength d = length (payloadBlocks d ! i) then allocate_block d expected else d)"

definition copy_block :: "frame_decoder \<Rightarrow> bytes \<Rightarrow> frame_decoder \<times> bytes" where
  "copy_block d rest =
     (let i = (case currentPayloadBlock d of None \<Rightarrow> 0 | Some i \<Rightarrow> i);
          block = payloadBlocks d ! i;
          n = min (length block - currentPayloadBlockLength d) (length rest)
      in (d\<lparr>payloadBlocks := (payloadBlocks d)[i := write_at block (currentPayloadBlockLength d) (take n rest)],
            currentPayloadBlockLength := currentPayloadBlockLength d + n, payloadLength := payloadLength d + n\<rparr>,
          drop n rest))"

partial_function (option) fill_payload ::
    "frame_decoder \<Rightarrow> nat \<Rightarrow> bytes \<Rightarrow> (frame_decoder \<times> bytes) option" where
  "fill_payload d expected rest =
     (if rest = [] \<or> \<not> payloadLength d < expected then Some (d, rest)
      else case copy_block (ensure_block d expected) rest of (d', rest') \<Rightarrow> fill_payload d' expected rest')"

text \<open>A frame that fits one block is that block; otherwise the blocks are copied one after another.\<close>

fun copy_blocks :: "bytes \<Rightarrow> nat \<Rightarrow> bytes list \<Rightarrow> bytes" where
  "copy_blocks result offset [] = result"
| "copy_blocks result offset (b # bs) = copy_blocks (write_at result offset b) (offset + length b) bs"

definition assemble :: "bytes list \<Rightarrow> nat \<Rightarrow> bytes" where
  "assemble blocks expected =
     (if length blocks = 1 then hd blocks else copy_blocks (replicate expected 0) 0 blocks)"

definition finish_payload :: "frame_decoder \<Rightarrow> nat \<Rightarrow> bytes list \<Rightarrow> frame_decoder \<times> bytes list" where
  "finish_payload d expected frames =
     (if payloadLength d = expected
      then ((reset_payload d)\<lparr>expectedPayloadLength := None,
               allocated := allocated d + (if length (payloadBlocks d) = 1 then 0 else expected)\<rparr>, frames @ [assemble (payloadBlocks d) expected])
      else (d, frames))"

partial_function (option) push_loop ::
    "frame_decoder \<Rightarrow> bytes list \<Rightarrow> bytes \<Rightarrow> (frame_decoder \<times> (frame_error + bytes list)) option" where
  "push_loop d frames rest =
     (if rest = [] then Some (d, Inr frames)
      else case expectedPayloadLength d of
        None \<Rightarrow>
          (case read_header d rest of
             (d1, rest1, out) \<Rightarrow>
               (case out of
                  HeaderPartial \<Rightarrow> push_loop d1 frames rest1
                | HeaderTooLong n \<Rightarrow>
                    Some (fail_decoder d1,
                      Inl (FrameError (''Frame length '' @ decimal n @ '' exceeds configured limit of ''
                        @ decimal (maxFrameLength d1))))
                | HeaderEmpty \<Rightarrow> push_loop d1 (frames @ [[]]) rest1
                | HeaderPayload n \<Rightarrow>
                    Option.bind (fill_payload d1 n rest1) (\<lambda>(d2, rest2).
                      case finish_payload d2 n frames of (d3, frames') \<Rightarrow> push_loop d3 frames' rest2)))
      | Some n \<Rightarrow>
          Option.bind (fill_payload d n rest) (\<lambda>(d2, rest2).
            case finish_payload d2 n frames of (d3, frames') \<Rightarrow> push_loop d3 frames' rest2))"

definition push :: "frame_decoder \<Rightarrow> bytes \<Rightarrow> (frame_decoder \<times> (frame_error + bytes list)) option" where
  "push d chunk =
     (case decoder_state d of
        Ended \<Rightarrow> Some (d, Inl (FrameError ''Frame decoder has ended''))
      | Failed_state \<Rightarrow> Some (d, Inl (FrameError ''Frame decoder has failed''))
      | Open \<Rightarrow> push_loop d [] chunk)"

definition end_decoder :: "frame_decoder \<Rightarrow> frame_decoder \<times> (frame_error + unit)" where
  "end_decoder d =
     (case decoder_state d of
        Ended \<Rightarrow> (d, Inl (FrameError ''Frame decoder has ended''))
      | Failed_state \<Rightarrow> (d, Inl (FrameError ''Frame decoder has failed''))
      | Open \<Rightarrow>
          if headerLength d \<noteq> 0 \<or> expectedPayloadLength d \<noteq> None
          then (fail_decoder d, Inl (FrameError ''Truncated frame at end of stream''))
          else (d\<lparr>decoder_state := Ended\<rparr>, Inr ()))"

section \<open>The stream a decoder has received\<close>

text \<open>The obvious parser of a whole stream: the complete frames and the bytes after them, or \<open>None\<close>
  when a length is over the limit.\<close>

function parse_stream :: "nat \<Rightarrow> bytes \<Rightarrow> (bytes list \<times> bytes) option" where
  "parse_stream mx bs =
     (if length bs < 4 then Some ([], bs)
      else let n = of_be32 bs
           in if mx < n then None
              else if length bs < 4 + n then Some ([], bs)
              else map_option (\<lambda>(fs, r). (take n (drop 4 bs) # fs, r)) (parse_stream mx (drop (4 + n) bs)))"
  by pat_completeness auto
termination by (relation "measure (\<lambda>(_, bs). length bs)") auto

declare parse_stream.simps [simp del]

text \<open>The bytes of the frame in progress that a decoder holds.\<close>

definition received :: "frame_decoder \<Rightarrow> bytes" where
  "received d = take (payloadLength d) (concat (payloadBlocks d))"

definition buffered :: "frame_decoder \<Rightarrow> bytes" where
  "buffered d =
     (case expectedPayloadLength d of None \<Rightarrow> take (headerLength d) (header d) | Some n \<Rightarrow> header d @ received d)"

text \<open>The blocks: the current one is the last, the others are full, and together they hold no more
  than the frame needs and at most one block more than has been received.\<close>

definition blocks_inv :: "frame_decoder \<Rightarrow> nat \<Rightarrow> bool" where
  "blocks_inv d n \<longleftrightarrow>
     (case currentPayloadBlock d of
        None \<Rightarrow> payloadBlocks d = [] \<and> payloadLength d = 0
      | Some i \<Rightarrow>
          (\<exists>bs b. payloadBlocks d = bs @ [b] \<and> i = length bs \<and> currentPayloadBlockLength d \<le> length b \<and>
             payloadLength d = length (concat bs) + currentPayloadBlockLength d)) \<and>
     length (concat (payloadBlocks d)) \<le> n \<and>
     length (concat (payloadBlocks d)) \<le> payloadLength d + PAYLOAD_BLOCK_SIZE"

definition wf_decoder :: "frame_decoder \<Rightarrow> bool" where
  "wf_decoder d \<longleftrightarrow>
     length (header d) = 4 \<and> decoder_state d = Open \<and> maxFrameLength d \<le> FRAME_MAX_UINT32 \<and>
     (case expectedPayloadLength d of
        None \<Rightarrow> headerLength d < 4
      | Some n \<Rightarrow>
          headerLength d = 0 \<and> 0 < n \<and> n \<le> maxFrameLength d \<and> of_be32 (header d) = n \<and>
          payloadLength d < n \<and> blocks_inv d n)"

definition same_frame :: "frame_decoder \<Rightarrow> frame_decoder \<Rightarrow> bool" where
  "same_frame d d' \<longleftrightarrow>
     header d' = header d \<and> headerLength d' = headerLength d \<and> maxFrameLength d' = maxFrameLength d \<and>
     expectedPayloadLength d' = expectedPayloadLength d \<and> decoder_state d' = decoder_state d"

text \<open>Whatever is allocated between two states is in the blocks.\<close>

definition same_allocation :: "frame_decoder \<Rightarrow> frame_decoder \<Rightarrow> bool" where
  "same_allocation d d' \<longleftrightarrow>
     allocated d' + length (concat (payloadBlocks d)) = allocated d + length (concat (payloadBlocks d'))"

lemma write_at_length [simp]: "offset + length src \<le> length target \<Longrightarrow> length (write_at target offset src) = length target"
  by (simp add: write_at_def)

lemma ensure_block_elim:
  assumes "blocks_inv d n" and "payloadLength d < n" and "d' = ensure_block d n"
  obtains bs b where "payloadBlocks d' = bs @ [b]" "currentPayloadBlock d' = Some (length bs)"
    "currentPayloadBlockLength d' < length b" "payloadLength d' = length (concat bs) + currentPayloadBlockLength d'"
    "payloadLength d' = payloadLength d" "received d' = received d" "same_frame d d'"
    "length (concat (payloadBlocks d')) \<le> n" "length (concat (payloadBlocks d')) \<le> payloadLength d' + PAYLOAD_BLOCK_SIZE"
    "same_allocation d d'"
proof -
  note goal = that
  have alloc: thesis if full: "length (concat (payloadBlocks d)) = payloadLength d" and eq: "d' = allocate_block d n"
    using assms(1,2) full
    by (intro goal [of "payloadBlocks d" "replicate (min PAYLOAD_BLOCK_SIZE (n - payloadLength d)) 0"])
      (auto simp: eq allocate_block_def received_def same_frame_def PAYLOAD_BLOCK_SIZE_def same_allocation_def)
  show thesis
  proof (cases "currentPayloadBlock d")
    case None
    then show thesis using assms by (intro alloc) (auto simp: ensure_block_def blocks_inv_def)
  next
    case (Some i)
    then obtain bs b where b: "payloadBlocks d = bs @ [b]" "i = length bs" "currentPayloadBlockLength d \<le> length b"
        "payloadLength d = length (concat bs) + currentPayloadBlockLength d"
      using assms(1) by (auto simp: blocks_inv_def)
    show thesis
    proof (cases "currentPayloadBlockLength d = length b")
      case True
      then show thesis using Some b assms(3) by (intro alloc) (auto simp: ensure_block_def)
    next
      case False
      then have "d' = d" using Some b assms(3) by (simp add: ensure_block_def)
      then show thesis using goal [of bs b] Some b False assms(1) by (auto simp: same_frame_def blocks_inv_def same_allocation_def)
    qed
  qed
qed

lemma copy_block_step:
  assumes "payloadBlocks d = bs @ [b]" "currentPayloadBlock d = Some (length bs)" "currentPayloadBlockLength d < length b"
    "payloadLength d = length (concat bs) + currentPayloadBlockLength d"
    "length (concat (payloadBlocks d)) \<le> n" "length (concat (payloadBlocks d)) \<le> payloadLength d + PAYLOAD_BLOCK_SIZE"
    "rest \<noteq> []" "copy_block d rest = (d', rest')"
  shows "\<exists>m. 0 < m \<and> m \<le> length rest \<and> payloadLength d + m \<le> n \<and> rest' = drop m rest \<and> blocks_inv d' n
    \<and> payloadLength d' = payloadLength d + m \<and> received d' = received d @ take m rest \<and> same_frame d d' \<and> same_allocation d d'"
proof -
  let ?c = "currentPayloadBlockLength d"
  let ?m = "min (length b - ?c) (length rest)"
  let ?b' = "write_at b ?c (take ?m rest)"
  have d': "d' = d\<lparr>payloadBlocks := bs @ [?b'], currentPayloadBlockLength := ?c + ?m, payloadLength := payloadLength d + ?m\<rparr>"
    and rest': "rest' = drop ?m rest"
    using assms by (auto simp: copy_block_def Let_def)
  have len: "length ?b' = length b" using assms(3) by (subst write_at_length) auto
  have "take (?c + ?m) ?b' = take ?c b @ take ?m rest" using assms(3) by (simp add: write_at_def)
  then have "received d' = received d @ take ?m rest" using assms(1,4) by (simp add: received_def d' add.assoc)
  moreover have "blocks_inv d' n"
    using assms(1-6) len by (auto simp: blocks_inv_def d')
  moreover have "0 < ?m" "payloadLength d + ?m \<le> n" using assms(1,3-5,7) by auto
  ultimately show ?thesis using rest' by (intro exI [of _ ?m]) (simp add: same_frame_def d' same_allocation_def assms(1) len)
qed

lemma copy_ensured:
  assumes "blocks_inv d n" and "payloadLength d < n" and "rest \<noteq> []"
    and "copy_block (ensure_block d n) rest = (d', rest')"
  shows "\<exists>m. 0 < m \<and> m \<le> length rest \<and> payloadLength d + m \<le> n \<and> rest' = drop m rest \<and> blocks_inv d' n
    \<and> payloadLength d' = payloadLength d + m \<and> received d' = received d @ take m rest \<and> same_frame d d' \<and> same_allocation d d'"
proof (rule ensure_block_elim [OF assms(1,2) refl])
  fix bs b
  assume e: "payloadBlocks (ensure_block d n) = bs @ [b]" "currentPayloadBlock (ensure_block d n) = Some (length bs)"
    "currentPayloadBlockLength (ensure_block d n) < length b"
    "payloadLength (ensure_block d n) = length (concat bs) + currentPayloadBlockLength (ensure_block d n)"
    "payloadLength (ensure_block d n) = payloadLength d" "received (ensure_block d n) = received d"
    "same_frame d (ensure_block d n)" "length (concat (payloadBlocks (ensure_block d n))) \<le> n"
    "length (concat (payloadBlocks (ensure_block d n))) \<le> payloadLength (ensure_block d n) + PAYLOAD_BLOCK_SIZE"
    "same_allocation d (ensure_block d n)"
  from copy_block_step [OF e(1-4) e(8,9) assms(3,4)] e(5-7,10) show ?thesis by (auto simp: same_frame_def same_allocation_def)
qed

lemma fill_payload_spec:
  assumes "blocks_inv d n" and "payloadLength d \<le> n" and "k = min (n - payloadLength d) (length rest)"
  shows "\<exists>d'. fill_payload d n rest = Some (d', drop k rest) \<and> blocks_inv d' n
    \<and> payloadLength d' = payloadLength d + k \<and> received d' = received d @ take k rest \<and> same_frame d d' \<and> same_allocation d d'"
  using assms
proof (induction "length rest" arbitrary: d rest k rule: less_induct)
  case less
  show ?case
  proof (cases "rest = [] \<or> \<not> payloadLength d < n")
    case True
    then have "k = 0" using less.prems by auto
    then show ?thesis using True less.prems by (subst fill_payload.simps) (auto simp: same_frame_def same_allocation_def)
  next
    case False
    then have ne: "rest \<noteq> []" and lt: "payloadLength d < n" by auto
    obtain d1 rest1 where c: "copy_block (ensure_block d n) rest = (d1, rest1)" by fastforce
    from copy_ensured [OF less.prems(1) lt ne c] obtain m where m: "0 < m" "m \<le> length rest" "payloadLength d + m \<le> n"
        "rest1 = drop m rest" "blocks_inv d1 n" "payloadLength d1 = payloadLength d + m"
        "received d1 = received d @ take m rest" "same_frame d d1" "same_allocation d d1" by blast
    let ?k = "min (n - payloadLength d1) (length rest1)"
    have k: "k = m + ?k" using less.prems(3) m(2,3,4,6) by auto
    have "length rest1 < length rest" using m ne by simp
    from less.hyps [OF this m(5) _ refl] m(3,6) obtain d' where d': "fill_payload d1 n rest1 = Some (d', drop ?k rest1)"
        "blocks_inv d' n" "payloadLength d' = payloadLength d1 + ?k" "received d' = received d1 @ take ?k rest1" "same_frame d1 d'" "same_allocation d1 d'"
      by auto
    have "fill_payload d n rest = Some (d', drop k rest)"
      using False c d'(1) m(4) k by (subst fill_payload.simps) (simp add: add.commute)
    moreover have "received d' = received d @ take k rest"
      using d'(4) m(4,7) k take_add [of m ?k rest] by simp
    ultimately show ?thesis using d'(2,3,5,6) m(6,8,9) k by (intro exI [of _ d']) (auto simp: same_frame_def same_allocation_def)
  qed
qed

section \<open>Pushing a chunk\<close>

lemma copy_blocks_concat:
  "length (concat bs) \<le> k \<Longrightarrow>
   copy_blocks (pre @ replicate k 0) (length pre) bs = pre @ concat bs @ replicate (k - length (concat bs)) 0"
proof (induction bs arbitrary: pre k)
  case Nil
  then show ?case by simp
next
  case (Cons b bs)
  have "write_at (pre @ replicate k 0) (length pre) b = (pre @ b) @ replicate (k - length b) 0"
    by (simp add: write_at_def)
  then show ?case using Cons.IH [of "k - length b" "pre @ b"] Cons.prems by simp
qed

lemma assemble_concat: "length (concat bs) = n \<Longrightarrow> assemble bs n = concat bs"
  using copy_blocks_concat [of bs n "[]"] by (cases bs rule: list.exhaust) (auto simp: assemble_def length_Suc_conv)

lemma of_be32_append [simp]: "4 \<le> length h \<Longrightarrow> of_be32 (h @ xs) = of_be32 h"
  by (auto simp: of_be32_def nth_append)

lemma received_length: "blocks_inv d n \<Longrightarrow> length (received d) = payloadLength d"
  by (auto simp: received_def blocks_inv_def split: option.splits)

lemma parse_buffered: "wf_decoder d \<Longrightarrow> parse_stream (maxFrameLength d) (buffered d) = Some ([], buffered d)"
  by (subst parse_stream.simps) (auto simp: wf_decoder_def buffered_def received_length split: option.splits)

lemma parse_too_long: "length h = 4 \<Longrightarrow> mx < of_be32 h \<Longrightarrow> parse_stream mx (h @ xs) = None"
  by (subst parse_stream.simps) (simp add: Let_def)

lemma parse_frame:
  "length h = 4 \<Longrightarrow> of_be32 h = length p \<Longrightarrow> length p \<le> mx \<Longrightarrow>
   parse_stream mx (h @ p @ bs) = map_option (\<lambda>(fs, r). (p # fs, r)) (parse_stream mx bs)"
  by (subst parse_stream.simps) (simp add: Let_def)

text \<open>What a push has to do: agree with the parser of the whole stream.\<close>

definition push_agrees ::
    "nat \<Rightarrow> bytes \<Rightarrow> bytes list \<Rightarrow> (frame_decoder \<times> (frame_error + bytes list)) option \<Rightarrow> bool" where
  "push_agrees mx bs frames res \<longleftrightarrow>
     (\<exists>d' r. res = Some (d', r) \<and>
        (case parse_stream mx bs of
           None \<Rightarrow> (\<exists>m. r = Inl (FrameError m)) \<and> decoder_state d' = Failed_state
         | Some (fs, left) \<Rightarrow> r = Inr (frames @ fs) \<and> wf_decoder d' \<and> buffered d' = left \<and> maxFrameLength d' = mx))"

lemma push_agrees_cons:
  assumes "length h = 4" "of_be32 h = length p" "length p \<le> mx" "push_agrees mx bs (frames @ [p]) res"
  shows "push_agrees mx (h @ p @ bs) frames res"
  using assms(4) parse_frame [OF assms(1-3), of bs] unfolding push_agrees_def
  by (cases "parse_stream mx bs") auto

lemma push_empty:
  assumes "wf_decoder d" shows "push_agrees (maxFrameLength d) (buffered d) frames (push_loop d frames [])"
  using assms parse_buffered [OF assms] by (subst push_loop.simps) (simp add: push_agrees_def)

lemma payload_push:
  assumes wf: "wf_decoder d" and n: "expectedPayloadLength d = Some n"
    and IH: "\<And>d' frames' k. wf_decoder d' \<Longrightarrow> 0 < k \<Longrightarrow>
      push_agrees (maxFrameLength d') (buffered d' @ drop k rest) frames' (push_loop d' frames' (drop k rest))"
  shows "push_agrees (maxFrameLength d) (buffered d @ rest) frames
    (Option.bind (fill_payload d n rest) (\<lambda>(d2, rest2).
       case finish_payload d2 n frames of (d3, frames') \<Rightarrow> push_loop d3 frames' rest2))"
proof -
  let ?k = "min (n - payloadLength d) (length rest)"
  have inv: "blocks_inv d n" "payloadLength d < n" "length (header d) = 4" "of_be32 (header d) = n" "n \<le> maxFrameLength d"
    using wf n by (auto simp: wf_decoder_def)
  from fill_payload_spec [OF inv(1) less_imp_le [OF inv(2)] refl, of rest] obtain d2
    where d2: "fill_payload d n rest = Some (d2, drop ?k rest)" "blocks_inv d2 n" "payloadLength d2 = payloadLength d + ?k"
      "received d2 = received d @ take ?k rest" "same_frame d d2" by blast
  show ?thesis
  proof (cases "payloadLength d2 = n")
    case True
    then have k: "0 < ?k" "?k = n - payloadLength d" using d2(3) inv(2) by auto
    let ?d3 = "(reset_payload d2)\<lparr>expectedPayloadLength := None,
      allocated := allocated d2 + (if length (payloadBlocks d2) = 1 then 0 else n)\<rparr>"
    have full: "length (concat (payloadBlocks d2)) = n"
      using d2(2) True received_length [OF d2(2)] by (auto simp: blocks_inv_def received_def)
    then have frame: "assemble (payloadBlocks d2) n = received d @ take ?k rest"
      using assemble_concat [OF full] d2(4) True by (simp add: received_def)
    have wf3: "wf_decoder ?d3" "buffered ?d3 = []" "maxFrameLength ?d3 = maxFrameLength d"
      using wf n d2(5) by (auto simp: wf_decoder_def same_frame_def reset_payload_def buffered_def)
    have "push_agrees (maxFrameLength d) (drop ?k rest) (frames @ [received d @ take ?k rest])
        (push_loop ?d3 (frames @ [received d @ take ?k rest]) (drop ?k rest))"
      using IH [OF wf3(1) k(1), of "frames @ [received d @ take ?k rest]"] wf3(2,3) by simp
    moreover have "length (received d @ take ?k rest) = n"
      using received_length [OF d2(2)] d2(4) True by simp
    ultimately have "push_agrees (maxFrameLength d) (header d @ (received d @ take ?k rest) @ drop ?k rest) frames
        (push_loop ?d3 (frames @ [received d @ take ?k rest]) (drop ?k rest))"
      by (intro push_agrees_cons) (use inv in auto)
    then show ?thesis using d2(1) True frame n by (simp add: finish_payload_def buffered_def)
  next
    case False
    then have k: "?k = length rest" using d2(3) inv(2) by auto
    have "payloadLength d2 < n" using False d2(3) inv(2) by auto
    then have wf2: "wf_decoder d2" "buffered d2 = buffered d @ rest" "maxFrameLength d2 = maxFrameLength d"
      using wf n d2(2,4,5) k by (auto simp: wf_decoder_def same_frame_def buffered_def)
    show ?thesis using push_empty [OF wf2(1), of frames] wf2 d2(1) k False by (simp add: finish_payload_def)
  qed
qed

lemma read_header_partial:
  assumes "wf_decoder d" "expectedPayloadLength d = None" "headerLength d + length rest < 4"
  shows "\<exists>d1. read_header d rest = (d1, [], HeaderPartial) \<and> wf_decoder d1 \<and> buffered d1 = buffered d @ rest
    \<and> maxFrameLength d1 = maxFrameLength d"
  using assms by (auto simp: read_header_def Let_def FRAME_HEADER_LENGTH_def wf_decoder_def buffered_def write_at_def)

text \<open>When the header is complete, \<open>h\<close> is its four bytes and \<open>rest1\<close> what follows.\<close>

lemma read_header_full:
  assumes "wf_decoder d" "expectedPayloadLength d = None" "4 \<le> headerLength d + length rest"
    and "h = buffered d @ take (4 - headerLength d) rest" "rest1 = drop (4 - headerLength d) rest"
  shows "length h = 4" "rest1 = drop (4 - headerLength d) rest" "buffered d @ rest = h @ rest1"
    "\<exists>d2. header d2 = h \<and> headerLength d2 = 0 \<and> maxFrameLength d2 = maxFrameLength d \<and> expectedPayloadLength d2 = None
      \<and> decoder_state d2 = Open
      \<and> read_header d rest =
         (if maxFrameLength d < of_be32 h then (d2, rest1, HeaderTooLong (of_be32 h))
          else if of_be32 h = 0 then (d2, rest1, HeaderEmpty)
          else ((reset_payload d2)\<lparr>expectedPayloadLength := Some (of_be32 h)\<rparr>, rest1, HeaderPayload (of_be32 h)))"
proof -
  have hl: "headerLength d < 4" "length (header d) = 4" "decoder_state d = Open" using assms(1,2) by (auto simp: wf_decoder_def)
  have b: "buffered d = take (headerLength d) (header d)" using assms(2) by (simp add: buffered_def)
  show "length h = 4" "rest1 = drop (4 - headerLength d) rest" "buffered d @ rest = h @ rest1"
    using assms(3-5) hl b by auto
  have w: "write_at (header d) (headerLength d) (take (4 - headerLength d) rest) = h"
    using assms(3,4) hl b by (simp add: write_at_def)
  let ?d2 = "d\<lparr>header := h, headerLength := 0\<rparr>"
  have "min (4 - headerLength d) (length rest) = 4 - headerLength d" using assms(3) hl by simp
  then show "\<exists>d2. header d2 = h \<and> headerLength d2 = 0 \<and> maxFrameLength d2 = maxFrameLength d \<and> expectedPayloadLength d2 = None
      \<and> decoder_state d2 = Open
      \<and> read_header d rest =
         (if maxFrameLength d < of_be32 h then (d2, rest1, HeaderTooLong (of_be32 h))
          else if of_be32 h = 0 then (d2, rest1, HeaderEmpty)
          else ((reset_payload d2)\<lparr>expectedPayloadLength := Some (of_be32 h)\<rparr>, rest1, HeaderPayload (of_be32 h)))"
    using assms(2,3,5) hl w
    by (intro exI [of _ ?d2]) (simp add: read_header_def Let_def FRAME_HEADER_LENGTH_def)
qed

lemma push_loop_spec:
  assumes "wf_decoder d"
  shows "push_agrees (maxFrameLength d) (buffered d @ rest) frames (push_loop d frames rest)"
  using assms
proof (induction "length rest" arbitrary: d frames rest rule: less_induct)
  case less
  show ?case
  proof (cases "rest = []")
    case True
    then show ?thesis using push_empty [OF less.prems] by simp
  next
    case ne: False
    have IH: "push_agrees (maxFrameLength d') (buffered d' @ drop k rest) frames' (push_loop d' frames' (drop k rest))"
      if "wf_decoder d'" "0 < k" for d' frames' k
      using less.hyps [of "drop k rest" d' frames'] that ne by simp
    show ?thesis
    proof (cases "expectedPayloadLength d")
      case (Some n)
      show ?thesis using payload_push [OF less.prems Some IH] ne Some by (subst push_loop.simps) simp
    next
      case None
      have hl: "headerLength d < 4" "maxFrameLength d \<le> FRAME_MAX_UINT32" using less.prems None by (auto simp: wf_decoder_def)
      show ?thesis
      proof (cases "headerLength d + length rest < 4")
        case True
        from read_header_partial [OF less.prems None True] obtain d1
          where d1: "read_header d rest = (d1, [], HeaderPartial)" "wf_decoder d1" "buffered d1 = buffered d @ rest"
            "maxFrameLength d1 = maxFrameLength d" by blast
        show ?thesis using push_empty [OF d1(2), of frames] d1 ne None by (subst push_loop.simps) simp
      next
        case False
        let ?h = "buffered d @ take (4 - headerLength d) rest"
        let ?rest1 = "drop (4 - headerLength d) rest"
        have full: "4 \<le> headerLength d + length rest" using False by simp
        note h = read_header_full [OF less.prems None full refl refl]
        from h(4) obtain d2 where d2: "header d2 = ?h" "headerLength d2 = 0" "maxFrameLength d2 = maxFrameLength d"
            "expectedPayloadLength d2 = None" "decoder_state d2 = Open"
            "read_header d rest =
               (if maxFrameLength d < of_be32 ?h then (d2, ?rest1, HeaderTooLong (of_be32 ?h))
                else if of_be32 ?h = 0 then (d2, ?rest1, HeaderEmpty)
                else ((reset_payload d2)\<lparr>expectedPayloadLength := Some (of_be32 ?h)\<rparr>, ?rest1, HeaderPayload (of_be32 ?h)))"
          by blast
        have k: "0 < 4 - headerLength d" using hl by simp
        have wf2: "wf_decoder d2" "buffered d2 = []" using d2 h(1) hl by (auto simp: wf_decoder_def buffered_def)
        consider "maxFrameLength d < of_be32 ?h" | "of_be32 ?h = 0" "\<not> maxFrameLength d < of_be32 ?h"
          | "of_be32 ?h \<noteq> 0" "of_be32 ?h \<le> maxFrameLength d" by linarith
        then show ?thesis
        proof cases
          case 1
          have "parse_stream (maxFrameLength d) (?h @ ?rest1) = None"
            by (rule parse_too_long [OF h(1) 1])
          then show ?thesis using 1 d2(6) ne None unfolding h(3)
            by (subst push_loop.simps) (simp add: push_agrees_def fail_decoder_def)
        next
          case 2
          have "push_agrees (maxFrameLength d) ?rest1 (frames @ [[]]) (push_loop d2 (frames @ [[]]) ?rest1)"
            using IH [OF wf2(1) k, of "frames @ [[]]"] wf2(2) d2(3) by simp
          then have "push_agrees (maxFrameLength d) (?h @ [] @ ?rest1) frames (push_loop d2 (frames @ [[]]) ?rest1)"
            by (intro push_agrees_cons) (use h(1) 2 in auto)
          then show ?thesis using 2 d2(6) ne None unfolding h(3) by (subst push_loop.simps) simp
        next
          case 3
          let ?d1 = "(reset_payload d2)\<lparr>expectedPayloadLength := Some (of_be32 ?h)\<rparr>"
          have wf1: "wf_decoder ?d1" "buffered ?d1 = ?h" "maxFrameLength ?d1 = maxFrameLength d"
            "expectedPayloadLength ?d1 = Some (of_be32 ?h)"
            using 3 d2 h(1) hl by (auto simp: wf_decoder_def reset_payload_def blocks_inv_def buffered_def received_def)
          have IH1: "push_agrees (maxFrameLength d') (buffered d' @ drop k ?rest1) frames' (push_loop d' frames' (drop k ?rest1))"
            if "wf_decoder d'" "0 < k" for d' frames' k
            using IH [OF that(1), of "k + (4 - headerLength d)" frames'] that by simp
          show ?thesis
            using payload_push [OF wf1(1,4) IH1, of frames] wf1(2,3) 3 d2(6) ne None unfolding h(3)
            by (subst push_loop.simps) (simp add: not_less)
        qed
      qed
    qed
  qed
qed

section \<open>Sequences of chunks\<close>

text \<open>Pushing chunks one after another; the first error ends it.\<close>

fun push_all :: "frame_decoder \<Rightarrow> bytes list \<Rightarrow> (frame_decoder \<times> (frame_error + bytes list)) option" where
  "push_all d [] = Some (d, Inr [])"
| "push_all d (c # cs) =
     (case push d c of
        None \<Rightarrow> None
      | Some (d', Inl e) \<Rightarrow> Some (d', Inl e)
      | Some (d', Inr fs) \<Rightarrow>
          (case push_all d' cs of
             None \<Rightarrow> None
           | Some (d'', Inl e) \<Rightarrow> Some (d'', Inl e)
           | Some (d'', Inr gs) \<Rightarrow> Some (d'', Inr (fs @ gs))))"

lemma parse_append:
  "parse_stream mx (bs @ cs) =
     (case parse_stream mx bs of
        None \<Rightarrow> None
      | Some (fs, left) \<Rightarrow> map_option (\<lambda>(gs, r). (fs @ gs, r)) (parse_stream mx (left @ cs)))"
proof (induction mx bs rule: parse_stream.induct)
  case (1 mx bs)
  let ?n = "of_be32 bs"
  consider "length bs < 4" | "4 \<le> length bs" "mx < ?n" | "4 \<le> length bs" "?n \<le> mx" "length bs < 4 + ?n"
    | "4 \<le> length bs" "?n \<le> mx" "4 + ?n \<le> length bs" by linarith
  then show ?case
  proof cases
    case 1
    then have "parse_stream mx bs = Some ([], bs)" by (subst parse_stream.simps) simp
    then show ?thesis by (cases "parse_stream mx (bs @ cs)") auto
  next
    case 2
    then have "of_be32 (bs @ cs) = ?n" by simp
    then have "parse_stream mx (bs @ cs) = None" "parse_stream mx bs = None"
      using 2 by (subst parse_stream.simps, simp add: Let_def)+
    then show ?thesis by simp
  next
    case 3
    then have "parse_stream mx bs = Some ([], bs)" by (subst parse_stream.simps) (simp add: Let_def)
    then show ?thesis by (cases "parse_stream mx (bs @ cs)") auto
  next
    case 4
    then have n: "of_be32 (bs @ cs) = ?n" by simp
    have "parse_stream mx (bs @ cs) = map_option (\<lambda>(fs, r). (take ?n (drop 4 bs) # fs, r)) (parse_stream mx (drop (4 + ?n) bs @ cs))"
      using 4 n by (subst parse_stream.simps) (simp add: Let_def)
    moreover have "parse_stream mx bs = map_option (\<lambda>(fs, r). (take ?n (drop 4 bs) # fs, r)) (parse_stream mx (drop (4 + ?n) bs))"
      using 4 by (subst parse_stream.simps) (simp add: Let_def)
    ultimately show ?thesis
      using "1" [OF _ refl] 4
      by (cases "parse_stream mx (drop (4 + ?n) bs)")
        (auto simp: option.map_comp comp_def split_beta intro: option.map_cong)
  qed
qed

lemma push_spec: "wf_decoder d \<Longrightarrow> push_agrees (maxFrameLength d) (buffered d @ chunk) [] (push d chunk)"
  using push_loop_spec [of d chunk "[]"] by (simp add: push_def wf_decoder_def)

lemma push_all_spec:
  assumes "wf_decoder d"
  shows "\<exists>d' r. push_all d cs = Some (d', r) \<and>
    (case parse_stream (maxFrameLength d) (buffered d @ concat cs) of
       None \<Rightarrow> \<exists>m. r = Inl (FrameError m)
     | Some (fs, left) \<Rightarrow> r = Inr fs \<and> wf_decoder d' \<and> buffered d' = left \<and> maxFrameLength d' = maxFrameLength d)"
  using assms
proof (induction cs arbitrary: d)
  case Nil
  then show ?case using parse_buffered [of d] by simp
next
  case (Cons c cs)
  obtain d1 r1 where p: "push d c = Some (d1, r1)"
    and q: "case parse_stream (maxFrameLength d) (buffered d @ c) of
       None \<Rightarrow> (\<exists>m. r1 = Inl (FrameError m)) \<and> decoder_state d1 = Failed_state
     | Some (fs, left) \<Rightarrow> r1 = Inr fs \<and> wf_decoder d1 \<and> buffered d1 = left \<and> maxFrameLength d1 = maxFrameLength d"
    using push_spec [OF Cons.prems, of c] unfolding push_agrees_def append_Nil by blast
  have parse: "parse_stream (maxFrameLength d) (buffered d @ concat (c # cs)) =
      (case parse_stream (maxFrameLength d) (buffered d @ c) of None \<Rightarrow> None
       | Some (fs, left) \<Rightarrow> map_option (\<lambda>(gs, r). (fs @ gs, r)) (parse_stream (maxFrameLength d) (left @ concat cs)))"
    using parse_append [of "maxFrameLength d" "buffered d @ c" "concat cs"] by simp
  show ?case
  proof (cases "parse_stream (maxFrameLength d) (buffered d @ c)")
    case None
    then show ?thesis using p q parse by auto
  next
    case (Some x)
    then obtain fs where x: "x = (fs, buffered d1)" "r1 = Inr fs" "wf_decoder d1" "maxFrameLength d1 = maxFrameLength d"
      using q by (cases x) auto
    from Cons.IH [OF x(3)] obtain d' r where d': "push_all d1 cs = Some (d', r)"
      "case parse_stream (maxFrameLength d1) (buffered d1 @ concat cs) of
         None \<Rightarrow> \<exists>m. r = Inl (FrameError m)
       | Some (fs, left) \<Rightarrow> r = Inr fs \<and> wf_decoder d' \<and> buffered d' = left \<and> maxFrameLength d' = maxFrameLength d1"
      by blast
    then show ?thesis using p x Some parse
      by (cases "parse_stream (maxFrameLength d) (buffered d1 @ concat cs)") auto
  qed
qed

section \<open>Round trip\<close>

lemma byte_less: "unat (x :: byte) < 256"
proof -
  have "(unsigned x :: nat) < 2 ^ LENGTH(8)" by (rule unsigned_less)
  then show ?thesis by simp
qed

lemma unat_byte: "unat (of_nat n :: byte) = n mod 256"
  by (simp add: unat_of_nat)

lemma div_256: "(n :: nat) div 2 ^ 8 = n div 256" "n div 2 ^ 16 = n div 256 div 256" "n div 2 ^ 24 = n div 256 div 256 div 256"
  by (simp_all add: div_mult2_eq [symmetric])

lemma of_be32_be32:
  assumes "n \<le> FRAME_MAX_UINT32" shows "of_be32 (be32 n) = n"
proof -
  let ?q = "n div 256 div 256 div 256"
  have "n < 256 * 256 * 256 * 256" using assms by (simp add: FRAME_MAX_UINT32_def)
  then have "?q < 256" by (simp add: div_mult2_eq [symmetric] div_less_iff_less_mult)
  then have "?q mod 256 = ?q" by simp
  moreover have "n div 256 div 256 = 256 * ?q + n div 256 div 256 mod 256" "n div 256 = 256 * (n div 256 div 256) + n div 256 mod 256"
    "n = 256 * (n div 256) + n mod 256" by simp_all
  ultimately have "?q mod 256 * 0x1000000 + n div 256 div 256 mod 256 * 0x10000 + n div 256 mod 256 * 0x100 + n mod 256 = n"
    by linarith
  then show ?thesis unfolding of_be32_def be32_def div_256 by (simp add: unat_byte)
qed

lemma be32_of_be32:
  assumes "length h = 4" shows "be32 (of_be32 h) = h"
proof -
  obtain a b c d where h: "h = [a, b, c, d]"
    using assms by (auto simp: eval_nat_numeral length_Suc_conv)
  note lt = byte_less [of a] byte_less [of b] byte_less [of c] byte_less [of d]
  let ?n = "of_be32 h"
  have n: "?n = unat d + ((unat a * 256 + unat b) * 256 + unat c) * 256" by (simp add: h of_be32_def)
  have n1: "?n div 256 = unat c + (unat a * 256 + unat b) * 256" unfolding n using lt by simp
  have n2: "?n div 256 div 256 = unat b + unat a * 256" unfolding n1 using lt by simp
  have n3: "?n div 256 div 256 div 256 = unat a" unfolding n2 using lt by simp
  have "unat (of_nat (?n div 256 div 256 div 256) :: byte) = unat a" unfolding n3 by simp
  moreover have "unat (of_nat (?n div 256 div 256) :: byte) = unat b"
    using lt unfolding n2 unat_byte by (simp only: mod_mult_self1 mod_less)
  moreover have "unat (of_nat (?n div 256) :: byte) = unat c"
    using lt unfolding n1 unat_byte by (simp only: mod_mult_self1 mod_less)
  moreover have "unat (of_nat ?n :: byte) = unat d"
    using lt unfolding n unat_byte by (simp only: mod_mult_self1 mod_less)
  ultimately have "be32 ?n = [a, b, c, d]" unfolding be32_def div_256 word_unat_eq_iff [symmetric] by simp
  then show ?thesis by (simp add: h)
qed

lemma length_be32 [simp]: "length (be32 n) = 4"
  by (simp add: be32_def)

lemma of_be32_le: "of_be32 h \<le> FRAME_MAX_UINT32"
  using byte_less [of "h ! 0"] byte_less [of "h ! 1"] byte_less [of "h ! 2"] byte_less [of "h ! 3"]
  by (simp add: of_be32_def FRAME_MAX_UINT32_def)

definition frame_of :: "bytes \<Rightarrow> bytes" where
  "frame_of p = be32 (length p) @ p"

lemma parse_frames:
  assumes "\<forall>p\<in>set ps. length p \<le> mx" and "mx \<le> FRAME_MAX_UINT32"
  shows "parse_stream mx (concat (map frame_of ps)) = Some (ps, [])"
  using assms(1)
proof (induction ps)
  case Nil
  then show ?case by (subst parse_stream.simps) simp
next
  case (Cons p ps)
  then show ?case
    using parse_frame [of "be32 (length p)" p mx "concat (map frame_of ps)"] of_be32_be32 [of "length p"] assms(2)
    by (simp add: frame_of_def [of p])
qed

lemma new_decoder_wf: "new_decoder lmt = Inr d \<Longrightarrow> wf_decoder d \<and> buffered d = []"
  by (auto simp: new_decoder_def bindR_Inr_iff wf_decoder_def buffered_def FRAME_HEADER_LENGTH_def
      resolveMaxFrameLength_def Let_def split: if_splits option.splits)

section \<open>Properties of the framing\<close>

text \<open>C31: However a byte stream is cut into chunks, pushing them returns, and it returns what parsing
  the whole stream in one piece gives: the same frames in the same order when every announced length is
  within the limit, with the unfinished rest buffered; and a frame error when a length is not.\<close>

theorem decoder_chunk_invariant:
  assumes "new_decoder lmt = Inr d"
  shows "\<exists>d' r. push_all d chunks = Some (d', r) \<and>
    (case parse_stream (maxFrameLength d) (concat chunks) of
       None \<Rightarrow> \<exists>m. r = Inl (FrameError m)
     | Some (fs, left) \<Rightarrow> r = Inr fs \<and> buffered d' = left)"
  using push_all_spec [of d chunks] new_decoder_wf [OF assms] by (fastforce split: option.splits)

theorem decoder_chunk_invariant_witness:
  "\<exists>d d' r. new_decoder (Some 100) = Inr d \<and> push_all d [[0, 0, 0], [1, 7, 0]] = Some (d', r) \<and>
    (case parse_stream (maxFrameLength d) [0, 0, 0, 1, 7, 0] of
       None \<Rightarrow> \<exists>m. r = Inl (FrameError m)
     | Some (fs, left) \<Rightarrow> r = Inr fs \<and> buffered d' = left)"
proof -
  obtain d where "new_decoder (Some 100) = Inr d"
    by (auto simp: new_decoder_def resolveMaxFrameLength_def FRAME_MAX_UINT32_def)
  then show ?thesis using decoder_chunk_invariant [of "Some 100" d "[[0, 0, 0], [1, 7, 0]]"] by auto
qed

text \<open>Frames that \<open>encodeFrame\<close> produced, sent one after another and cut into arbitrary chunks, come
  back as exactly the payloads that were sent, and the end of the stream is accepted.\<close>

theorem framing_roundtrip:
  assumes "new_decoder lmt = Inr d" and "\<forall>p\<in>set payloads. length p \<le> maxFrameLength d"
    and "list_all2 (\<lambda>p f. encodeFrame p = Inr f) payloads frames" and "concat chunks = concat frames"
  shows "\<exists>d'. push_all d chunks = Some (d', Inr payloads) \<and> snd (end_decoder d') = Inr ()"
proof -
  have wf: "wf_decoder d" "buffered d = []" using new_decoder_wf [OF assms(1)] by auto
  have "frames = map frame_of payloads"
    using assms(3) by (induction rule: list_all2_induct) (auto simp: encodeFrame_def frame_of_def split: if_splits)
  then have "parse_stream (maxFrameLength d) (concat chunks) = Some (payloads, [])"
    using parse_frames [OF assms(2)] assms(4) wf(1) by (simp add: wf_decoder_def)
  then obtain d' where d': "push_all d chunks = Some (d', Inr payloads)" "wf_decoder d'" "buffered d' = []"
    using push_all_spec [OF wf(1), of chunks] wf(2) by auto
  then have "expectedPayloadLength d' = None" "headerLength d' = 0"
    by (auto simp: wf_decoder_def buffered_def split: option.splits)
  then show ?thesis using d' by (auto simp: end_decoder_def wf_decoder_def)
qed

section \<open>What the decoder allocates\<close>

text \<open>What has been allocated after \<open>t\<close> bytes of the stream: the blocks in use, twice the payload bytes of the finished frames, and the header.\<close>

definition frugal :: "frame_decoder \<Rightarrow> nat \<Rightarrow> bool" where
  "frugal d t \<longleftrightarrow>
     allocated d + 2 * payloadLength d \<le> length (concat (payloadBlocks d)) + 2 * t + FRAME_HEADER_LENGTH
     \<and> (expectedPayloadLength d = None \<longrightarrow> payloadBlocks d = [] \<and> payloadLength d = 0)"

lemma frugal_bound: "wf_decoder d \<Longrightarrow> frugal d t \<Longrightarrow> allocated d \<le> 2 * t + PAYLOAD_BLOCK_SIZE + FRAME_HEADER_LENGTH"
  by (cases "expectedPayloadLength d") (auto simp: wf_decoder_def frugal_def blocks_inv_def)

lemma frugal_payload:
  assumes wf: "wf_decoder d" and n: "expectedPayloadLength d = Some n" and fr: "frugal d t"
  shows "\<exists>d2 k. fill_payload d n rest = Some (d2, drop k rest) \<and> k \<le> length rest \<and> (k = 0 \<longrightarrow> rest = [])
    \<and> wf_decoder (fst (finish_payload d2 n frames)) \<and> frugal (fst (finish_payload d2 n frames)) (t + k)"
proof -
  define k where "k = min (n - payloadLength d) (length rest)"
  have inv: "blocks_inv d n" "payloadLength d < n" using wf n by (auto simp: wf_decoder_def)
  obtain d2 where d2: "fill_payload d n rest = Some (d2, drop k rest)" "blocks_inv d2 n"
      "payloadLength d2 = payloadLength d + k" "same_frame d d2" "same_allocation d d2"
    using fill_payload_spec [OF inv(1) less_imp_le [OF inv(2)] k_def] by blast
  have spent: "allocated d2 + 2 * payloadLength d2 \<le> length (concat (payloadBlocks d2)) + 2 * (t + k) + FRAME_HEADER_LENGTH"
    using fr d2(3,5) by (simp add: frugal_def same_allocation_def)
  have "wf_decoder (fst (finish_payload d2 n frames)) \<and> frugal (fst (finish_payload d2 n frames)) (t + k)"
  proof (cases "payloadLength d2 = n")
    case True
    then have "length (concat (payloadBlocks d2)) = n"
      using d2(2) received_length [OF d2(2)] by (auto simp: blocks_inv_def received_def)
    then show ?thesis using True wf n d2(4) spent
      by (auto simp: finish_payload_def wf_decoder_def same_frame_def reset_payload_def frugal_def)
  next
    case False
    then have "payloadLength d2 < n" using d2(3) inv(2) by (simp add: k_def)
    then show ?thesis using False wf n d2(2,4) spent by (simp add: finish_payload_def wf_decoder_def same_frame_def frugal_def)
  qed
  moreover have "k \<le> length rest" "k = 0 \<longrightarrow> rest = []" using inv(2) by (auto simp: k_def min_def split: if_splits)
  ultimately show ?thesis using d2(1) by blast
qed

text \<open>The result of a push after which \<open>t\<close> bytes of the stream have been seen.\<close>

definition push_frugal :: "nat \<Rightarrow> (frame_decoder \<times> (frame_error + bytes list)) option \<Rightarrow> bool" where
  "push_frugal t res \<longleftrightarrow>
     (\<exists>d' r. res = Some (d', r) \<and> allocated d' \<le> 2 * t + PAYLOAD_BLOCK_SIZE + FRAME_HEADER_LENGTH
        \<and> (\<forall>fs. r = Inr fs \<longrightarrow> wf_decoder d' \<and> frugal d' t))"

lemma payload_push_frugal:
  assumes "wf_decoder d" "expectedPayloadLength d = Some n" "frugal d t"
    and IH: "\<And>d' t' frames' k. wf_decoder d' \<Longrightarrow> frugal d' t' \<Longrightarrow> 0 < k \<Longrightarrow>
      push_frugal (t' + (length rest - k)) (push_loop d' frames' (drop k rest))"
  shows "push_frugal (t + length rest)
    (Option.bind (fill_payload d n rest) (\<lambda>(d2, rest2).
       case finish_payload d2 n frames of (d3, frames') \<Rightarrow> push_loop d3 frames' rest2))"
proof -
  from frugal_payload [OF assms(1-3), of rest frames] obtain d2 k where k: "fill_payload d n rest = Some (d2, drop k rest)"
      "k \<le> length rest" "k = 0 \<longrightarrow> rest = []" "wf_decoder (fst (finish_payload d2 n frames))"
      "frugal (fst (finish_payload d2 n frames)) (t + k)" by blast
  obtain d3 frames' where d3: "finish_payload d2 n frames = (d3, frames')" by fastforce
  have "push_frugal (t + length rest) (push_loop d3 frames' (drop k rest))"
  proof (cases "k = 0")
    case True
    then show ?thesis using k(3-5) d3 frugal_bound [of d3 t] by (subst push_loop.simps) (simp add: push_frugal_def)
  next
    case False
    then show ?thesis using IH [of d3 "t + k" k frames'] k(2,4,5) d3 by simp
  qed
  then show ?thesis using k(1) d3 by simp
qed

lemma read_header_wf:
  assumes "wf_decoder d" "expectedPayloadLength d = None" "read_header d rest = (d1, rest1, out)"
  shows "case out of HeaderTooLong n \<Rightarrow> True
    | HeaderPayload n \<Rightarrow> wf_decoder d1 \<and> expectedPayloadLength d1 = Some n
    | _ \<Rightarrow> wf_decoder d1"
proof (cases "headerLength d + length rest < 4")
  case True
  then show ?thesis using read_header_partial [OF assms(1,2) True] assms(3) by auto
next
  case False
  then have "4 \<le> headerLength d + length rest" by simp
  note h = read_header_full [OF assms(1,2) this refl refl]
  show ?thesis using h(1,4) assms by (auto simp: wf_decoder_def reset_payload_def blocks_inv_def split: if_splits)
qed

lemma push_loop_frugal:
  assumes "wf_decoder d" and "frugal d t" shows "push_frugal (t + length rest) (push_loop d frames rest)"
  using assms
proof (induction "length rest" arbitrary: d frames rest t rule: less_induct)
  case less
  show ?case
  proof (cases "rest = []")
    case True
    then show ?thesis using less.prems frugal_bound [OF less.prems] by (subst push_loop.simps) (simp add: push_frugal_def)
  next
    case ne: False
    have IH: "push_frugal (t' + (length rest - k)) (push_loop d' frames' (drop k rest))"
      if "wf_decoder d'" "frugal d' t'" "0 < k" for d' t' frames' k
      using less.hyps [of "drop k rest" d' t' frames'] that ne by simp
    show ?thesis
    proof (cases "expectedPayloadLength d")
      case (Some n)
      show ?thesis using payload_push_frugal [OF less.prems(1) Some less.prems(2) IH] ne Some by (subst push_loop.simps) simp
    next
      case None
      have quiet: "payloadBlocks d = []" "payloadLength d = 0" "allocated d \<le> 2 * t + FRAME_HEADER_LENGTH"
        using less.prems(2) None by (auto simp: frugal_def)
      have hl: "headerLength d < 4" using less.prems(1) None by (auto simp: wf_decoder_def)
      define k where "k = min (4 - headerLength d) (length rest)"
      have k: "0 < k" "k \<le> length rest" using hl ne by (auto simp: k_def)
      obtain d1 rest1 out where h1: "read_header d rest = (d1, rest1, out)" by (cases "read_header d rest") auto
      then have "rest1 = drop k rest"
        by (auto simp: read_header_def Let_def k_def FRAME_HEADER_LENGTH_def split: if_splits)
      then have h: "read_header d rest = (d1, drop k rest, out)" using h1 by simp
      have d1: "allocated d1 = allocated d" "payloadBlocks d1 = []" "payloadLength d1 = 0"
        using h quiet by (auto simp: read_header_def Let_def reset_payload_def split: if_splits)
      have fr1: "frugal d1 (t + k)" using d1 quiet(3) by (simp add: frugal_def)
      note wf1 = read_header_wf [OF less.prems(1) None h]
      note IH1 = IH [where k = k, OF _ _ k(1)]
      show ?thesis
      proof (cases out)
        case HeaderPartial
        then show ?thesis using IH1 [OF _ fr1, of frames] wf1 h ne None k(2) by (subst push_loop.simps) simp
      next
        case (HeaderTooLong n)
        then show ?thesis using h ne None d1 quiet(3)
          by (subst push_loop.simps) (simp add: push_frugal_def fail_decoder_def reset_payload_def)
      next
        case HeaderEmpty
        then show ?thesis using IH1 [OF _ fr1, of "frames @ [[]]"] wf1 h ne None k(2) by (subst push_loop.simps) simp
      next
        case (HeaderPayload n)
        have IH2: "push_frugal (t' + (length (drop k rest) - m)) (push_loop d' frames' (drop m (drop k rest)))"
          if "wf_decoder d'" "frugal d' t'" "0 < m" for d' t' frames' m
          using IH [OF that(1,2), of "k + m" frames'] that(3) k(1) by (simp add: add.commute)
        have "wf_decoder d1" "expectedPayloadLength d1 = Some n" using wf1 HeaderPayload by simp_all
        from payload_push_frugal [OF this fr1 IH2, of frames] show ?thesis
          using HeaderPayload h ne None k(2) by (subst push_loop.simps) simp
      qed
    qed
  qed
qed

lemma push_all_frugal:
  assumes "wf_decoder d" and "frugal d t" shows "push_frugal (t + length (concat cs)) (push_all d cs)"
  using assms
proof (induction cs arbitrary: d t)
  case Nil
  then show ?case using frugal_bound [of d t] by (simp add: push_frugal_def)
next
  case (Cons c cs)
  have "push d c = push_loop d [] c" using Cons.prems(1) by (simp add: push_def wf_decoder_def)
  then obtain d1 r1 where p: "push d c = Some (d1, r1)"
      and bound: "allocated d1 \<le> 2 * (t + length c) + PAYLOAD_BLOCK_SIZE + FRAME_HEADER_LENGTH"
      and ok: "\<forall>fs. r1 = Inr fs \<longrightarrow> wf_decoder d1 \<and> frugal d1 (t + length c)"
    using push_loop_frugal [OF Cons.prems, of c "[]"] by (auto simp: push_frugal_def)
  show ?case
  proof (cases r1)
    case (Inl e)
    then show ?thesis using p bound by (simp add: push_frugal_def)
  next
    case (Inr fs)
    then obtain d' r where "push_all d1 cs = Some (d', r)"
        "allocated d' \<le> 2 * (t + length c + length (concat cs)) + PAYLOAD_BLOCK_SIZE + FRAME_HEADER_LENGTH"
        "\<forall>fs. r = Inr fs \<longrightarrow> wf_decoder d' \<and> frugal d' (t + length c + length (concat cs))"
      using Cons.IH [of d1 "t + length c"] ok by (auto simp: push_frugal_def)
    then show ?thesis using p Inr by (cases r) (simp_all add: push_frugal_def add.assoc)
  qed
qed

text \<open>C32: However much a peer announces and however the stream is cut, all the arrays that a decoder ever creates, the blocks of
  frames, the buffers in which the blocks of a long frame are put together and the header, have at
  most twice as many bytes as have been pushed, one block of 64 KiB and the four bytes of the header; this holds when
  a push fails, too. Between pushes the blocks that are kept for an unfinished frame hold at most 64 KiB more than the bytes of
  it that have arrived, and at most the configured limit.\<close>

theorem decoder_allocation_bounded:
  assumes "new_decoder lmt = Inr d"
  shows "\<exists>d' r. push_all d chunks = Some (d', r)
    \<and> allocated d' \<le> 2 * length (concat chunks) + 64 * 1024 + 4
    \<and> (\<forall>fs. r = Inr fs \<and> expectedPayloadLength d' \<noteq> None \<longrightarrow>
         length (concat (payloadBlocks d')) \<le> length (received d') + 64 * 1024
         \<and> length (concat (payloadBlocks d')) \<le> maxFrameLength d)"
proof -
  have wf: "wf_decoder d" using new_decoder_wf [OF assms] by simp
  have "frugal d 0" using assms by (auto simp: new_decoder_def bindR_Inr_iff frugal_def)
  from push_all_frugal [OF wf this, of chunks] obtain d' r where p: "push_all d chunks = Some (d', r)"
      "allocated d' \<le> 2 * length (concat chunks) + PAYLOAD_BLOCK_SIZE + FRAME_HEADER_LENGTH"
      "\<forall>fs. r = Inr fs \<longrightarrow> wf_decoder d'"
    by (auto simp: push_frugal_def)
  have "maxFrameLength d' = maxFrameLength d" if "r = Inr fs" for fs
    using push_all_spec [OF wf, of chunks] p(1) that by (auto split: option.splits)
  then have "\<forall>fs. r = Inr fs \<and> expectedPayloadLength d' \<noteq> None \<longrightarrow>
         length (concat (payloadBlocks d')) \<le> length (received d') + 64 * 1024
         \<and> length (concat (payloadBlocks d')) \<le> maxFrameLength d"
    using p(3) received_length [of d'] by (fastforce simp: wf_decoder_def blocks_inv_def PAYLOAD_BLOCK_SIZE_def)
  then show ?thesis using p(1,2) by (simp add: PAYLOAD_BLOCK_SIZE_def FRAME_HEADER_LENGTH_def)
qed

theorem decoder_allocation_bounded_witness:
  "\<exists>d d' r. new_decoder None = Inr d \<and> push_all d [[0, 255, 0, 0, 9]] = Some (d', r) \<and> allocated d' \<le> 10 + 64 * 1024 + 4"
proof -
  obtain d where d: "new_decoder None = Inr d"
    by (auto simp: new_decoder_def resolveMaxFrameLength_def FRAME_MAX_UINT32_def DEFAULT_MAX_FRAME_LENGTH_def)
  from decoder_allocation_bounded [OF d, of "[[0, 255, 0, 0, 9]]"] d show ?thesis by auto
qed

text \<open>\<open>assertCompleteFrame\<close> accepts exactly the frames that \<open>encodeFrame\<close> makes of payloads within
  the limit.\<close>

theorem assertCompleteFrame_iff:
  assumes "resolveMaxFrameLength lmt = Inr mx"
  shows "assertCompleteFrame frame lmt = Inr () \<longleftrightarrow> (\<exists>payload. encodeFrame payload = Inr frame \<and> length payload \<le> mx)"
proof
  assume "assertCompleteFrame frame lmt = Inr ()"
  then have f: "4 \<le> length frame" "of_be32 frame \<le> mx" "length frame = 4 + of_be32 frame"
    using assms by (auto simp: assertCompleteFrame_def bindR_Inr_iff FRAME_HEADER_LENGTH_def Let_def)
  have "frame = be32 (of_be32 (take 4 frame)) @ drop 4 frame" using be32_of_be32 [of "take 4 frame"] f(1) by simp
  moreover have "of_be32 (take 4 frame) = of_be32 frame"
    using of_be32_append [of "take 4 frame" "drop 4 frame"] f(1) by simp
  ultimately have "encodeFrame (drop 4 frame) = Inr frame"
    using f of_be32_le [of frame] by (simp add: encodeFrame_def)
  then show "\<exists>payload. encodeFrame payload = Inr frame \<and> length payload \<le> mx" using f by (intro exI [of _ "drop 4 frame"]) simp
next
  assume "\<exists>payload. encodeFrame payload = Inr frame \<and> length payload \<le> mx"
  then obtain p where "frame = be32 (length p) @ p" "length p \<le> mx" "length p \<le> FRAME_MAX_UINT32"
    by (auto simp: encodeFrame_def split: if_splits)
  then show "assertCompleteFrame frame lmt = Inr ()"
    using assms of_be32_be32 [of "length p"] by (simp add: assertCompleteFrame_def FRAME_HEADER_LENGTH_def Let_def)
qed

end
