(* ===== verification/Utf8.thy ===== *)
theory Utf8
  imports Pi_Prelude
begin

text \<open>
  The standard library's \<open>TextEncoder\<close> and its fatal \<open>TextDecoder\<close> (which keeps a byte order mark),
  as \<open>protocol/src/cbor/options.ts\<close> creates them and as the truncation code uses them. A JavaScript
  string is a list of UTF-16 code units; the encoder replaces a lone surrogate by the replacement
  character, the decoder rejects every byte sequence that is not the UTF-8 form of scalar values.
\<close>

section \<open>Code points and code units\<close>

definition is_high :: "nat \<Rightarrow> bool" where "is_high c = (0xD800 \<le> c \<and> c \<le> 0xDBFF)"
definition is_low :: "nat \<Rightarrow> bool" where "is_low c = (0xDC00 \<le> c \<and> c \<le> 0xDFFF)"

fun scalar_values :: "js_string \<Rightarrow> nat list" where
  "scalar_values [] = []"
| "scalar_values [c] = [if is_high (unat c) \<or> is_low (unat c) then 0xFFFD else unat c]"
| "scalar_values (c # d # ds) =
     (if is_high (unat c) then
        (if is_low (unat d)
         then (0x10000 + (unat c - 0xD800) * 0x400 + (unat d - 0xDC00)) # scalar_values ds
         else 0xFFFD # scalar_values (d # ds))
      else if is_low (unat c) then 0xFFFD # scalar_values (d # ds)
      else unat c # scalar_values (d # ds))"

definition is_scalar :: "nat \<Rightarrow> bool" where
  "is_scalar cp = (cp \<le> 0x10FFFF \<and> \<not> (0xD800 \<le> cp \<and> cp \<le> 0xDFFF))"

definition utf16_units :: "nat \<Rightarrow> js_string" where
  "utf16_units cp =
     (if cp < 0x10000 then [of_nat cp]
      else [of_nat (0xD800 + (cp - 0x10000) div 0x400), of_nat (0xDC00 + (cp - 0x10000) mod 0x400)])"

section \<open>UTF-8\<close>

definition utf8_bytes :: "nat \<Rightarrow> bytes" where
  "utf8_bytes cp =
     (if cp < 0x80 then [of_nat cp]
      else if cp < 0x800 then [of_nat (0xC0 + cp div 64), of_nat (0x80 + cp mod 64)]
      else if cp < 0x10000 then
        [of_nat (0xE0 + cp div 64 div 64), of_nat (0x80 + cp div 64 mod 64), of_nat (0x80 + cp mod 64)]
      else
        [of_nat (0xF0 + cp div 64 div 64 div 64), of_nat (0x80 + cp div 64 div 64 mod 64),
         of_nat (0x80 + cp div 64 mod 64), of_nat (0x80 + cp mod 64)])"

definition in_range :: "nat \<Rightarrow> nat \<Rightarrow> byte \<Rightarrow> bool" where
  "in_range a z b = (a \<le> unat b \<and> unat b \<le> z)"

text \<open>One code point at the head of a byte list, with the bytes after it.\<close>

definition utf8_head :: "bytes \<Rightarrow> (nat \<times> bytes) option" where
  "utf8_head bs =
     (case bs of
        [] \<Rightarrow> None
      | b0 # r0 \<Rightarrow>
          if unat b0 < 0x80 then Some (unat b0, r0)
          else if in_range 0xC2 0xDF b0 then
            (case r0 of
               b1 # r1 \<Rightarrow>
                 if in_range 0x80 0xBF b1 then Some ((unat b0 - 0xC0) * 64 + (unat b1 - 0x80), r1) else None
             | _ \<Rightarrow> None)
          else if in_range 0xE0 0xEF b0 then
            (case r0 of
               b1 # b2 # r2 \<Rightarrow>
                 if in_range (if unat b0 = 0xE0 then 0xA0 else 0x80) (if unat b0 = 0xED then 0x9F else 0xBF) b1
                    \<and> in_range 0x80 0xBF b2
                 then Some (((unat b0 - 0xE0) * 64 + (unat b1 - 0x80)) * 64 + (unat b2 - 0x80), r2) else None
             | _ \<Rightarrow> None)
          else if in_range 0xF0 0xF4 b0 then
            (case r0 of
               b1 # b2 # b3 # r3 \<Rightarrow>
                 if in_range (if unat b0 = 0xF0 then 0x90 else 0x80) (if unat b0 = 0xF4 then 0x8F else 0xBF) b1
                    \<and> in_range 0x80 0xBF b2 \<and> in_range 0x80 0xBF b3
                 then Some ((((unat b0 - 0xF0) * 64 + (unat b1 - 0x80)) * 64 + (unat b2 - 0x80)) * 64 + (unat b3 - 0x80), r3)
                 else None
             | _ \<Rightarrow> None)
          else None)"

lemma utf8_head_shorter: "utf8_head bs = Some (cp, r) \<Longrightarrow> length r < length bs"
  by (auto simp: utf8_head_def split: list.splits if_splits)

function utf8_scalars :: "bytes \<Rightarrow> nat list option" where
  "utf8_scalars bs =
     (if bs = [] then Some []
      else case utf8_head bs of
        None \<Rightarrow> None
      | Some (cp, r) \<Rightarrow> map_option ((#) cp) (utf8_scalars r))"
  by pat_completeness auto
termination by (relation "measure length") (auto dest: utf8_head_shorter)

declare utf8_scalars.simps [simp del]

text \<open>\<open>textEncoder.encode\<close> and \<open>textDecoder.decode\<close>.\<close>

definition text_encode :: "js_string \<Rightarrow> bytes" where
  "text_encode s = concat (map utf8_bytes (scalar_values s))"

definition text_decode :: "bytes \<Rightarrow> js_string option" where
  "text_decode bs = map_option (\<lambda>cps. concat (map utf16_units cps)) (utf8_scalars bs)"

section \<open>The decoder inverts the encoder\<close>

lemma unat_byte8: "unat (of_nat n :: byte) = n mod 256"
  by (simp add: unat_of_nat)

text \<open>The lead byte and the continuation bytes give the digits of the code point.\<close>

lemma utf8_head_2:
  "unat b0 = 0xC0 + q \<Longrightarrow> unat b1 = 0x80 + m0 \<Longrightarrow> 2 \<le> q \<Longrightarrow> q < 32 \<Longrightarrow> m0 < 64 \<Longrightarrow>
   utf8_head (b0 # b1 # r) = Some (64 * q + m0, r)"
  by (simp add: utf8_head_def in_range_def)

lemma utf8_head_3:
  "unat b0 = 0xE0 + q \<Longrightarrow> unat b1 = 0x80 + m1 \<Longrightarrow> unat b2 = 0x80 + m0 \<Longrightarrow> q < 16 \<Longrightarrow> (q = 0 \<Longrightarrow> 32 \<le> m1) \<Longrightarrow>
   (q = 13 \<Longrightarrow> m1 < 32) \<Longrightarrow> m1 < 64 \<Longrightarrow> m0 < 64 \<Longrightarrow>
   utf8_head (b0 # b1 # b2 # r) = Some (64 * (64 * q + m1) + m0, r)"
  by (auto simp: utf8_head_def in_range_def)

lemma utf8_head_4:
  "unat b0 = 0xF0 + q \<Longrightarrow> unat b1 = 0x80 + m2 \<Longrightarrow> unat b2 = 0x80 + m1 \<Longrightarrow> unat b3 = 0x80 + m0 \<Longrightarrow> q < 5 \<Longrightarrow>
   (q = 0 \<Longrightarrow> 16 \<le> m2) \<Longrightarrow> (q = 4 \<Longrightarrow> m2 < 16) \<Longrightarrow> m2 < 64 \<Longrightarrow> m1 < 64 \<Longrightarrow> m0 < 64 \<Longrightarrow>
   utf8_head (b0 # b1 # b2 # b3 # r) = Some (64 * (64 * (64 * q + m2) + m1) + m0, r)"
  by (auto simp: utf8_head_def in_range_def)

lemma unat_byte_small: "n < 256 \<Longrightarrow> unat (of_nat n :: byte) = n"
  unfolding unat_byte8 by simp

lemma utf8_head_bytes:
  assumes "is_scalar cp" shows "utf8_head (utf8_bytes cp @ r) = Some (cp, r)"
proof -
  define q1 q2 q3 m0 m1 m2 where q: "q1 = cp div 64" "q2 = q1 div 64" "q3 = q2 div 64"
    "m0 = cp mod 64" "m1 = q1 mod 64" "m2 = q2 mod 64"
  have digits: "64 * q1 + m0 = cp" "64 * q2 + m1 = q1" "64 * q3 + m2 = q2" by (simp_all add: q)
  have lt: "m0 < 64" "m1 < 64" "m2 < 64" by (simp_all add: q)
  have sc: "cp \<le> 0x10FFFF" "\<not> (0xD800 \<le> cp \<and> cp \<le> 0xDFFF)" using assms by (auto simp: is_scalar_def)
  consider "cp < 0x80" | "0x80 \<le> cp" "cp < 0x800" | "0x800 \<le> cp" "cp < 0x10000" | "0x10000 \<le> cp" by linarith
  then show ?thesis
  proof cases
    case 1
    then show ?thesis by (simp add: utf8_bytes_def utf8_head_def unat_byte8)
  next
    case 2
    then have b: "2 \<le> q1" "q1 < 32" using digits lt by linarith+
    have "utf8_bytes cp = [of_nat (0xC0 + q1), of_nat (0x80 + m0)]" using 2 unfolding utf8_bytes_def q by simp
    moreover have "utf8_head (of_nat (0xC0 + q1) # of_nat (0x80 + m0) # r) = Some (64 * q1 + m0, r)"
      by (rule utf8_head_2) (use b lt in \<open>auto intro!: unat_byte_small simp del: of_nat_add\<close>)
    ultimately show ?thesis using digits by simp
  next
    case 3
    then have b: "q2 < 16" "q2 = 0 \<Longrightarrow> 32 \<le> m1" "q2 = 13 \<Longrightarrow> m1 < 32" using digits lt sc by linarith+
    have "utf8_bytes cp = [of_nat (0xE0 + q2), of_nat (0x80 + m1), of_nat (0x80 + m0)]"
      using 3 unfolding utf8_bytes_def q by simp
    moreover have "utf8_head (of_nat (0xE0 + q2) # of_nat (0x80 + m1) # of_nat (0x80 + m0) # r) = Some (64 * (64 * q2 + m1) + m0, r)"
      by (rule utf8_head_3) (use b lt in \<open>auto intro!: unat_byte_small simp del: of_nat_add\<close>)
    ultimately show ?thesis using digits by simp
  next
    case 4
    then have b: "q3 < 5" "q3 = 0 \<Longrightarrow> 16 \<le> m2" "q3 = 4 \<Longrightarrow> m2 < 16" using digits lt sc by linarith+
    have "utf8_bytes cp = [of_nat (0xF0 + q3), of_nat (0x80 + m2), of_nat (0x80 + m1), of_nat (0x80 + m0)]"
      using 4 unfolding utf8_bytes_def q by simp
    moreover have "utf8_head (of_nat (0xF0 + q3) # of_nat (0x80 + m2) # of_nat (0x80 + m1) # of_nat (0x80 + m0) # r)
        = Some (64 * (64 * (64 * q3 + m2) + m1) + m0, r)"
      by (rule utf8_head_4) (use b lt in \<open>auto intro!: unat_byte_small simp del: of_nat_add\<close>)
    ultimately show ?thesis using digits by simp
  qed
qed

lemma utf8_bytes_nonempty [simp]: "utf8_bytes cp \<noteq> []"
  by (simp add: utf8_bytes_def)

lemma utf8_scalars_encode:
  "list_all is_scalar cps \<Longrightarrow> utf8_scalars (concat (map utf8_bytes cps)) = Some cps"
proof (induction cps)
  case Nil
  then show ?case by (subst utf8_scalars.simps) simp
next
  case (Cons cp cps)
  then show ?case by (subst utf8_scalars.simps) (simp add: utf8_head_bytes)
qed

lemma unit_less: "unat (c :: 16 word) < 65536"
proof -
  have "(unsigned c :: nat) < 2 ^ LENGTH(16)" by (rule unsigned_less)
  then show ?thesis by simp
qed

lemma scalar_values_scalar: "list_all is_scalar (scalar_values s)"
proof (induction s rule: scalar_values.induct)
  case (2 c)
  then show ?case using unit_less [of c] by (auto simp: is_scalar_def is_high_def is_low_def)
next
  case (3 c d ds)
  then show ?case using unit_less [of c] by (auto simp: is_scalar_def is_high_def is_low_def)
qed simp

text \<open>A string is well formed when its surrogates come in pairs.\<close>

fun well_formed :: "js_string \<Rightarrow> bool" where
  "well_formed [] = True"
| "well_formed [c] = (\<not> is_high (unat c) \<and> \<not> is_low (unat c))"
| "well_formed (c # d # ds) =
     (if is_high (unat c) then is_low (unat d) \<and> well_formed ds
      else \<not> is_low (unat c) \<and> well_formed (d # ds))"

lemma utf16_units_pair:
  assumes "is_high (unat c)" and "is_low (unat d)"
  shows "utf16_units (0x10000 + (unat c - 0xD800) * 0x400 + (unat d - 0xDC00)) = [c, d]"
proof -
  have lt: "unat d - 0xDC00 < 0x400" using assms(2) unfolding is_low_def by linarith
  define x where "x = (unat c - 0xD800) * 0x400 + (unat d - 0xDC00)"
  have "x div 0x400 = unat c - 0xD800" "x mod 0x400 = unat d - 0xDC00" using lt by (simp_all add: x_def)
  then have "0xD800 + x div 0x400 = unat c" "0xDC00 + x mod 0x400 = unat d"
    using assms unfolding is_high_def is_low_def by linarith+
  moreover have "utf16_units (0x10000 + x) = [of_nat (0xD800 + x div 0x400), of_nat (0xDC00 + x mod 0x400)]"
    unfolding utf16_units_def by simp
  ultimately show ?thesis unfolding add.assoc x_def [symmetric] by simp
qed

lemma utf16_units_bmp: "utf16_units (unat c) = [c]"
  using unit_less [of c] by (simp add: utf16_units_def)

lemma utf16_round: "well_formed s \<Longrightarrow> concat (map utf16_units (scalar_values s)) = s"
  by (induction s rule: scalar_values.induct) (auto simp: utf16_units_pair utf16_units_bmp)

lemma text_decode_encode: "text_decode (text_encode s) = Some (concat (map utf16_units (scalar_values s)))"
  by (simp add: text_decode_def text_encode_def utf8_scalars_encode scalar_values_scalar)

lemma replaced_differs: "is_high (unat c) \<or> is_low (unat c) \<Longrightarrow> utf16_units 0xFFFD \<noteq> [c]"
  by (auto simp: utf16_units_def is_high_def is_low_def)

lemma utf16_round_iff: "concat (map utf16_units (scalar_values s)) = s \<longleftrightarrow> well_formed s"
proof
  assume "concat (map utf16_units (scalar_values s)) = s"
  then show "well_formed s"
    by (induction s rule: scalar_values.induct)
      (use replaced_differs in \<open>auto simp: utf16_units_pair utf16_units_bmp utf16_units_def [of "0xFFFD"] split: if_splits\<close>)
qed (rule utf16_round)

lemma text_round: "well_formed s \<Longrightarrow> text_decode (text_encode s) = Some s"
  by (simp add: text_decode_encode utf16_round)

end
