(* ===== verification/Cbor.thy ===== *)
theory Cbor
  imports Js_Value Framing Utf8 "HOL-Library.While_Combinator" "HOL-Library.Multiset"
begin

text \<open>
  The strict CBOR subset of \<open>protocol/src/cbor\<close>: the writer with its growing buffer, the encoder and
  the decoder. A reader is the list of the bytes from its offset on. Values are finite trees, so the
  encoder's check for cycles never fires and its set of ancestors is left out. The decoder recurses
  on the nesting levels that are left, \<open>maxDepth + 1 - depth\<close>, and stops when there are none.
\<close>

unbundle bit_operations_syntax

section \<open>Options\<close>

definition UINT32_BASE :: nat where "UINT32_BASE = 0x100000000"
definition CBOR_MAX_UINT32 :: nat where "CBOR_MAX_UINT32 = 0xffffffff"
definition MAX_CONFIGURED_DEPTH :: nat where "MAX_CONFIGURED_DEPTH = 512"
definition DEFAULT_MAX_CBOR_BYTE_LENGTH :: nat where "DEFAULT_MAX_CBOR_BYTE_LENGTH = 16 * 1024 * 1024"
definition DEFAULT_MAX_CBOR_CONTAINER_LENGTH :: nat where "DEFAULT_MAX_CBOR_CONTAINER_LENGTH = 1000000"
definition DEFAULT_MAX_CBOR_DEPTH :: nat where "DEFAULT_MAX_CBOR_DEPTH = 64"

record cbor_options =
  opt_maxByteLength :: "int option"
  opt_maxContainerLength :: "int option"
  opt_maxDepth :: "int option"

record resolved_options =
  maxByteLength :: nat
  maxContainerLength :: nat
  maxDepth :: nat

datatype cbor_error = CborError string | CborRangeError string

definition resolveLimit :: "string \<Rightarrow> int \<Rightarrow> nat \<Rightarrow> cbor_error + nat" where
  "resolveLimit name value maximum =
     (if value < 0 \<or> int maximum < value
      then Inl (CborRangeError (name @ '' must be an integer between 0 and '' @ decimal maximum))
      else Inr (nat value))"

definition or_default :: "int option \<Rightarrow> nat \<Rightarrow> int" where
  "or_default v d = (case v of None \<Rightarrow> int d | Some n \<Rightarrow> n)"

definition resolveOptions :: "cbor_options \<Rightarrow> cbor_error + resolved_options" where
  "resolveOptions opts =
     bindR (resolveLimit ''maxByteLength'' (or_default (opt_maxByteLength opts) DEFAULT_MAX_CBOR_BYTE_LENGTH) CBOR_MAX_UINT32) (\<lambda>b.
     bindR (resolveLimit ''maxContainerLength'' (or_default (opt_maxContainerLength opts) DEFAULT_MAX_CBOR_CONTAINER_LENGTH)
              CBOR_MAX_UINT32) (\<lambda>c.
     bindR (resolveLimit ''maxDepth'' (or_default (opt_maxDepth opts) DEFAULT_MAX_CBOR_DEPTH) MAX_CONFIGURED_DEPTH) (\<lambda>d.
     Inr \<lparr>maxByteLength = b, maxContainerLength = c, maxDepth = d\<rparr>)))"

section \<open>The writer\<close>

record cbor_writer =
  buffer :: bytes
  offset :: nat
  w_maxByteLength :: nat

definition new_writer :: "nat \<Rightarrow> cbor_writer" where
  "new_writer mx = \<lparr>buffer = replicate (min 256 mx) 0, offset = 0, w_maxByteLength = mx\<rparr>"

definition ensureCapacity :: "cbor_writer \<Rightarrow> nat \<Rightarrow> cbor_error + cbor_writer" where
  "ensureCapacity w additionalBytes =
     (let required = offset w + additionalBytes
      in if w_maxByteLength w < required
         then Inl (CborError (''CBOR byte length exceeds configured limit of '' @ decimal (w_maxByteLength w)))
         else if required \<le> length (buffer w) then Inr w
         else let capacity = while (\<lambda>c. c < required) (\<lambda>c. min (w_maxByteLength w) (max required (c * 2)))
                               (max 1 (length (buffer w)))
              in Inr (w\<lparr>buffer := buffer w @ replicate (capacity - length (buffer w)) 0\<rparr>))"

text \<open>Writing bytes at the offset, behind a capacity check.\<close>

definition put_bytes :: "cbor_writer \<Rightarrow> bytes \<Rightarrow> cbor_writer" where
  "put_bytes w bs = w\<lparr>buffer := write_at (buffer w) (offset w) bs, offset := offset w + length bs\<rparr>"

definition writeByte :: "cbor_writer \<Rightarrow> byte \<Rightarrow> cbor_error + cbor_writer" where
  "writeByte w b = bindR (ensureCapacity w 1) (\<lambda>w. Inr (put_bytes w [b]))"

definition writeBytes :: "cbor_writer \<Rightarrow> bytes \<Rightarrow> cbor_error + cbor_writer" where
  "writeBytes w bs = bindR (ensureCapacity w (length bs)) (\<lambda>w. Inr (put_bytes w bs))"

definition writeUint16 :: "cbor_writer \<Rightarrow> nat \<Rightarrow> cbor_error + cbor_writer" where
  "writeUint16 w v = bindR (ensureCapacity w 2) (\<lambda>w. Inr (put_bytes w [of_nat (v div 2 ^ 8), of_nat v]))"

definition writeUint32 :: "cbor_writer \<Rightarrow> nat \<Rightarrow> cbor_error + cbor_writer" where
  "writeUint32 w v = bindR (ensureCapacity w 4) (\<lambda>w. Inr (put_bytes w (be32 v)))"

definition writeUint64 :: "cbor_writer \<Rightarrow> nat \<Rightarrow> cbor_error + cbor_writer" where
  "writeUint64 w v =
     (let high = v div UINT32_BASE; low = v - high * UINT32_BASE
      in bindR (writeUint32 w high) (\<lambda>w. writeUint32 w low))"

text \<open>The eight bytes of a double, most significant first.\<close>

definition be64 :: "64 word \<Rightarrow> bytes" where
  "be64 b = be32 (unat b div 2 ^ 32) @ be32 (unat b mod 2 ^ 32)"

definition writeFloat64 :: "cbor_writer \<Rightarrow> 64 word \<Rightarrow> cbor_error + cbor_writer" where
  "writeFloat64 w b = bindR (ensureCapacity w 9) (\<lambda>w. Inr (put_bytes w (0xfb # be64 b)))"

definition finish_writer :: "cbor_writer \<Rightarrow> bytes" where
  "finish_writer w = take (offset w) (buffer w)"

section \<open>The encoder\<close>

definition writeArgument :: "cbor_writer \<Rightarrow> nat \<Rightarrow> nat \<Rightarrow> cbor_error + cbor_writer" where
  "writeArgument w majorType value =
     (let prefix = push_bit 5 (of_nat majorType) :: byte
      in if value < 24 then writeByte w (prefix OR of_nat value)
         else if value \<le> 0xff then bindR (writeByte w (prefix OR 24)) (\<lambda>w. writeByte w (of_nat value))
         else if value \<le> 0xffff then bindR (writeByte w (prefix OR 25)) (\<lambda>w. writeUint16 w value)
         else if value \<le> CBOR_MAX_UINT32 then bindR (writeByte w (prefix OR 26)) (\<lambda>w. writeUint32 w value)
         else bindR (writeByte w (prefix OR 27)) (\<lambda>w. writeUint64 w value))"

definition encodeText :: "cbor_writer \<Rightarrow> js_string \<Rightarrow> resolved_options \<Rightarrow> cbor_error + cbor_writer" where
  "encodeText w value opts =
     (let bytes = text_encode value
      in bindR (guardR (length bytes \<le> maxByteLength opts)
                 (CborError (''CBOR text string length exceeds configured limit of '' @ decimal (maxByteLength opts)))) (\<lambda>_.
         bindR (guardR (text_decode bytes = Some value)
                 (CborError ''CBOR text strings must contain valid Unicode scalar values'')) (\<lambda>_.
         bindR (writeArgument w 3 (length bytes)) (\<lambda>w. writeBytes w bytes))))"

definition encodeNumber :: "cbor_writer \<Rightarrow> js_number \<Rightarrow> cbor_error + cbor_writer" where
  "encodeNumber w x =
     (case x of
        JInt i \<Rightarrow>
          bindR (guardR (is_safe_integer i) (CborError ''CBOR integers must be safe JavaScript integers'')) (\<lambda>_.
          if 0 \<le> i then writeArgument w 0 (nat i) else writeArgument w 1 (nat (- 1 - i)))
      | JFrac b \<Rightarrow> writeFloat64 w b
      | JNaN \<Rightarrow> Inl (CborError ''CBOR numbers must be finite'')
      | JInf _ \<Rightarrow> Inl (CborError ''CBOR numbers must be finite''))"

definition defined_entries :: "(js_string \<times> js_value) list \<Rightarrow> (js_string \<times> js_value) list" where
  "defined_entries es = filter (\<lambda>(_, v). v \<noteq> JUndefined) es"

fun typeof :: "js_value \<Rightarrow> string" where
  "typeof JUndefined = ''undefined''"
| "typeof JHole = ''undefined''"
| "typeof JNull = ''object''"
| "typeof (JBool _) = ''boolean''"
| "typeof (JNumber _) = ''number''"
| "typeof (JString _) = ''string''"
| "typeof (JBytes _) = ''object''"
| "typeof (JArray _) = ''object''"
| "typeof (JObject _ _) = ''object''"
| "typeof (JOther t) = t"

text \<open>The loops over the elements of an array and the entries of an object are functions of their
  own; the latter passes over the entries that are undefined, which the source removes first.\<close>

fun encodeValue :: "resolved_options \<Rightarrow> cbor_writer \<Rightarrow> js_value \<Rightarrow> nat \<Rightarrow> cbor_error + cbor_writer"
  and encodeItems :: "resolved_options \<Rightarrow> cbor_writer \<Rightarrow> js_value list \<Rightarrow> nat \<Rightarrow> cbor_error + cbor_writer"
  and encodeEntries :: "resolved_options \<Rightarrow> cbor_writer \<Rightarrow> (js_string \<times> js_value) list \<Rightarrow> nat \<Rightarrow> cbor_error + cbor_writer" where
  "encodeValue opts w v depth =
     (if maxDepth opts < depth
      then Inl (CborError (''CBOR nesting depth exceeds configured limit of '' @ decimal (maxDepth opts)))
      else case v of
        JNull \<Rightarrow> writeByte w 0xf6
      | JBool b \<Rightarrow> writeByte w (if b then 0xf5 else 0xf4)
      | JNumber x \<Rightarrow> encodeNumber w x
      | JString s \<Rightarrow> encodeText w s opts
      | JBytes bs \<Rightarrow>
          bindR (guardR (length bs \<le> maxByteLength opts)
                  (CborError (''CBOR byte string length exceeds configured limit of '' @ decimal (maxByteLength opts)))) (\<lambda>_.
          bindR (writeArgument w 2 (length bs)) (\<lambda>w. writeBytes w bs))
      | JArray vs \<Rightarrow>
          bindR (guardR (length vs \<le> maxContainerLength opts)
                  (CborError (''CBOR array length exceeds configured limit of '' @ decimal (maxContainerLength opts)))) (\<lambda>_.
          bindR (writeArgument w 4 (length vs)) (\<lambda>w. encodeItems opts w vs (Suc depth)))
      | JObject symbols es \<Rightarrow>
          bindR (guardR (\<not> symbols) (CborError ''CBOR map keys must be strings'')) (\<lambda>_.
          bindR (guardR (length (defined_entries es) \<le> maxContainerLength opts)
                  (CborError (''CBOR map length exceeds configured limit of '' @ decimal (maxContainerLength opts)))) (\<lambda>_.
          bindR (writeArgument w 5 (length (defined_entries es))) (\<lambda>w. encodeEntries opts w es (Suc depth))))
      | other \<Rightarrow> Inl (CborError (''Unsupported CBOR value type: '' @ typeof other)))"
| "encodeItems opts w [] depth = Inr w"
| "encodeItems opts w (v # vs) depth =
     (if v = JHole \<or> v = JUndefined then Inl (CborError ''CBOR arrays must not contain holes or undefined values'')
      else bindR (encodeValue opts w v depth) (\<lambda>w. encodeItems opts w vs depth))"
| "encodeEntries opts w [] depth = Inr w"
| "encodeEntries opts w ((k, v) # es) depth =
     (if v = JUndefined then encodeEntries opts w es depth
      else bindR (encodeText w k opts) (\<lambda>w.
           bindR (encodeValue opts w v depth) (\<lambda>w. encodeEntries opts w es depth)))"

declare encodeValue.simps [simp del]

definition encodeCbor :: "js_value \<Rightarrow> cbor_options \<Rightarrow> cbor_error + bytes" where
  "encodeCbor v options =
     bindR (resolveOptions options) (\<lambda>opts.
     bindR (encodeValue opts (new_writer (maxByteLength opts)) v 0) (\<lambda>w. Inr (finish_writer w)))"

section \<open>The decoder\<close>

definition readByte :: "bytes \<Rightarrow> cbor_error + (byte \<times> bytes)" where
  "readByte bs = (case bs of [] \<Rightarrow> Inl (CborError ''Truncated CBOR payload'') | b # r \<Rightarrow> Inr (b, r))"

definition readBytes :: "nat \<Rightarrow> bytes \<Rightarrow> cbor_error + (bytes \<times> bytes)" where
  "readBytes n bs =
     (if length bs < n then Inl (CborError ''Truncated CBOR payload'') else Inr (take n bs, drop n bs))"

definition readUint32 :: "bytes \<Rightarrow> cbor_error + (nat \<times> bytes)" where
  "readUint32 bs = bindR (readBytes 4 bs) (\<lambda>(v, r). Inr (of_be32 v, r))"

definition readArgument :: "nat \<Rightarrow> bytes \<Rightarrow> cbor_error + (nat \<times> bytes)" where
  "readArgument ai bs =
     (if ai < 24 then Inr (ai, bs)
      else if ai = 24 then bindR (readByte bs) (\<lambda>(b, r). Inr (unat b, r))
      else if ai = 25 then bindR (readBytes 2 bs) (\<lambda>(v, r). Inr (unat (v ! 0) * 0x100 + unat (v ! 1), r))
      else if ai = 26 then readUint32 bs
      else if ai = 27 then
        bindR (readUint32 bs) (\<lambda>(high, r). bindR (readUint32 r) (\<lambda>(low, r').
        bindR (guardR (high \<le> 0x1fffff) (CborError ''Decoded CBOR integer or length is outside the safe range'')) (\<lambda>_.
        Inr (high * UINT32_BASE + low, r'))))
      else if ai = 31 then Inl (CborError ''Indefinite-length CBOR items are not supported'')
      else Inl (CborError ''Malformed CBOR additional information''))"

definition readLength :: "nat \<Rightarrow> string \<Rightarrow> nat \<Rightarrow> bytes \<Rightarrow> cbor_error + (nat \<times> bytes)" where
  "readLength ai kind lmt bs =
     (if ai = 31 then Inl (CborError (''Indefinite-length CBOR '' @ kind @ ''s are not supported''))
      else bindR (readArgument ai bs) (\<lambda>(n, r).
           bindR (guardR (n \<le> lmt) (CborError (''CBOR '' @ kind @ '' length exceeds configured limit of '' @ decimal lmt))) (\<lambda>_.
           Inr (n, r))))"

definition of_be64 :: "bytes \<Rightarrow> 64 word" where
  "of_be64 bs = of_nat (of_be32 (take 4 bs) * 2 ^ 32 + of_be32 (drop 4 bs))"

definition readSimple :: "nat \<Rightarrow> bytes \<Rightarrow> cbor_error + (js_value \<times> bytes)" where
  "readSimple ai bs =
     (if ai = 20 then Inr (JBool False, bs)
      else if ai = 21 then Inr (JBool True, bs)
      else if ai = 22 then Inr (JNull, bs)
      else if ai = 27 then
        bindR (readBytes 8 bs) (\<lambda>(v, r).
        let x = num_of_bits (of_be64 v)
        in bindR (guardR (is_finite_number x) (CborError ''Decoded CBOR number must be finite'')) (\<lambda>_.
           bindR (guardR (case x of JInt i \<Rightarrow> is_safe_integer i | _ \<Rightarrow> True)
                   (CborError ''Decoded CBOR integer is outside the safe range'')) (\<lambda>_.
           Inr (JNumber x, r))))
      else if ai = 31 then Inl (CborError ''CBOR break marker is not supported'')
      else Inl (CborError ''Unsupported CBOR simple value or floating-point width''))"

text \<open>Reading \<open>n\<close> items, and \<open>n\<close> entries of a map, with a reader for one item.\<close>

primrec readItems :: "(bytes \<Rightarrow> cbor_error + (js_value \<times> bytes)) \<Rightarrow> nat \<Rightarrow> bytes \<Rightarrow> cbor_error + (js_value list \<times> bytes)" where
  "readItems item 0 bs = Inr ([], bs)"
| "readItems item (Suc n) bs =
     bindR (item bs) (\<lambda>(v, r). bindR (readItems item n r) (\<lambda>(vs, r'). Inr (v # vs, r')))"

primrec readEntries ::
    "(bytes \<Rightarrow> cbor_error + (js_value \<times> bytes)) \<Rightarrow> js_string set \<Rightarrow> nat \<Rightarrow> bytes
      \<Rightarrow> cbor_error + ((js_string \<times> js_value) list \<times> bytes)" where
  "readEntries item keys 0 bs = Inr ([], bs)"
| "readEntries item keys (Suc n) bs =
     bindR (item bs) (\<lambda>(kv, r).
     case kv of
       JString k \<Rightarrow>
         bindR (guardR (k \<notin> keys) (CborError ''CBOR map contains a duplicate key'')) (\<lambda>_.
         bindR (item r) (\<lambda>(v, r'). bindR (readEntries item (insert k keys) n r') (\<lambda>(es, r''). Inr ((k, v) # es, r''))))
     | _ \<Rightarrow> Inl (CborError ''CBOR map keys must be strings''))"

primrec readItem :: "resolved_options \<Rightarrow> nat \<Rightarrow> bytes \<Rightarrow> cbor_error + (js_value \<times> bytes)" where
  "readItem opts 0 bs =
     Inl (CborError (''CBOR nesting depth exceeds configured limit of '' @ decimal (maxDepth opts)))"
| "readItem opts (Suc levels) bs =
     bindR (readByte bs) (\<lambda>(initial, r).
     let majorType = unat (drop_bit 5 initial); ai = unat (initial AND 0x1f)
     in if majorType = 0 then bindR (readArgument ai r) (\<lambda>(n, r). Inr (JNumber (JInt (int n)), r))
        else if majorType = 1 then
          bindR (readArgument ai r) (\<lambda>(n, r).
          bindR (guardR (is_safe_integer (- 1 - int n)) (CborError ''Decoded CBOR integer is outside the safe range'')) (\<lambda>_.
          Inr (JNumber (JInt (- 1 - int n)), r)))
        else if majorType = 2 then
          bindR (readLength ai ''byte string'' (maxByteLength opts) r) (\<lambda>(n, r).
          bindR (readBytes n r) (\<lambda>(v, r). Inr (JBytes v, r)))
        else if majorType = 3 then
          bindR (readLength ai ''text string'' (maxByteLength opts) r) (\<lambda>(n, r).
          bindR (readBytes n r) (\<lambda>(v, r).
          case text_decode v of
            None \<Rightarrow> Inl (CborError ''CBOR text string contains invalid UTF-8'')
          | Some s \<Rightarrow> Inr (JString s, r)))
        else if majorType = 4 then
          bindR (readLength ai ''array'' (maxContainerLength opts) r) (\<lambda>(n, r).
          bindR (readItems (readItem opts levels) n r) (\<lambda>(vs, r). Inr (JArray vs, r)))
        else if majorType = 5 then
          bindR (readLength ai ''map'' (maxContainerLength opts) r) (\<lambda>(n, r).
          bindR (readEntries (readItem opts levels) {} n r) (\<lambda>(es, r). Inr (JObject False (own_keys_order es), r)))
        else if majorType = 6 then Inl (CborError ''CBOR tags are not supported'')
        else readSimple ai r)"

definition decodeCbor :: "bytes \<Rightarrow> cbor_options \<Rightarrow> cbor_error + js_value" where
  "decodeCbor bs options =
     bindR (resolveOptions options) (\<lambda>opts.
     bindR (guardR (length bs \<le> maxByteLength opts)
             (CborError (''CBOR byte length exceeds configured limit of '' @ decimal (maxByteLength opts)))) (\<lambda>_.
     bindR (readItem opts (maxDepth opts + 1) bs) (\<lambda>(v, r).
     bindR (guardR (r = []) (CborError ''CBOR payload contains trailing data'')) (\<lambda>_.
     Inr v))))"

section \<open>What the writer has written\<close>

definition written :: "cbor_writer \<Rightarrow> bytes" where
  "written w = take (offset w) (buffer w)"

definition wf_writer :: "cbor_writer \<Rightarrow> bool" where
  "wf_writer w \<longleftrightarrow> offset w \<le> length (buffer w) \<and> length (buffer w) \<le> w_maxByteLength w"

text \<open>A write appends the bytes \<open>bs\<close>, and keeps the limit.\<close>

definition appends :: "cbor_writer \<Rightarrow> bytes \<Rightarrow> cbor_writer \<Rightarrow> bool" where
  "appends w bs w' \<longleftrightarrow> wf_writer w' \<and> written w' = written w @ bs \<and> w_maxByteLength w' = w_maxByteLength w"

lemma grow_capacity:
  assumes "c < required" "required \<le> (mx :: nat)"
  shows "while (\<lambda>c. c < required) (\<lambda>c. min mx (max required (c * 2))) c = min mx (max required (c * 2))"
proof -
  have "\<not> min mx (max required (c * 2)) < required" using assms by auto
  then show ?thesis using assms(1) by (simp add: while_unfold [of _ _ c] while_unfold [of _ _ "min mx (max required (c * 2))"])
qed

lemma ensureCapacity_ok:
  assumes "wf_writer w" "ensureCapacity w n = Inr w'"
  shows "wf_writer w' \<and> offset w' + n \<le> length (buffer w') \<and> written w' = written w \<and> offset w' = offset w
    \<and> w_maxByteLength w' = w_maxByteLength w"
proof -
  let ?req = "offset w + n"
  let ?c = "max 1 (length (buffer w))"
  have le: "?req \<le> w_maxByteLength w"
    using assms(2) by (auto simp: ensureCapacity_def Let_def split: if_splits)
  show ?thesis
  proof (cases "?req \<le> length (buffer w)")
    case True
    then show ?thesis using assms le by (simp add: ensureCapacity_def Let_def)
  next
    case False
    define cap where "cap = while (\<lambda>c. c < ?req) (\<lambda>c. min (w_maxByteLength w) (max ?req (c * 2))) ?c"
    have cap: "?req \<le> cap" "cap \<le> w_maxByteLength w"
    proof -
      have "?req \<le> cap \<and> cap \<le> w_maxByteLength w"
      proof (cases "?c < ?req")
        case True
        then show ?thesis using grow_capacity [OF True le] le unfolding cap_def by auto
      next
        case F: False
        then have "cap = ?c" unfolding cap_def by (subst while_unfold) (simp only: if_False)
        then show ?thesis using F False le by auto
      qed
      then show "?req \<le> cap" "cap \<le> w_maxByteLength w" by auto
    qed
    have "w' = w\<lparr>buffer := buffer w @ replicate (cap - length (buffer w)) 0\<rparr>"
      using assms(2) False le unfolding ensureCapacity_def Let_def cap_def by simp
    then show ?thesis using assms(1) cap False by (auto simp: wf_writer_def written_def)
  qed
qed

lemma ensure_put:
  assumes "wf_writer w" "bindR (ensureCapacity w (length bs)) (\<lambda>w. Inr (put_bytes w bs)) = Inr w'"
  shows "appends w bs w'"
proof -
  obtain w1 where w1: "ensureCapacity w (length bs) = Inr w1" "w' = put_bytes w1 bs"
    using assms(2) by (auto simp: bindR_Inr_iff)
  from ensureCapacity_ok [OF assms(1) w1(1)] show ?thesis
    by (auto simp: appends_def w1(2) put_bytes_def wf_writer_def written_def write_at_def)
qed

lemma appends_trans: "appends w bs w1 \<Longrightarrow> appends w1 cs w2 \<Longrightarrow> appends w (bs @ cs) w2"
  by (simp add: appends_def)

lemma appends_wf [dest]: "appends w bs w' \<Longrightarrow> wf_writer w'"
  by (simp add: appends_def)

lemma write_appends:
  "wf_writer w \<Longrightarrow> writeByte w b = Inr w' \<Longrightarrow> appends w [b] w'"
  "wf_writer w \<Longrightarrow> writeBytes w bs = Inr w' \<Longrightarrow> appends w bs w'"
  "wf_writer w \<Longrightarrow> writeUint16 w n = Inr w' \<Longrightarrow> appends w [of_nat (n div 2 ^ 8), of_nat n] w'"
  "wf_writer w \<Longrightarrow> writeUint32 w n = Inr w' \<Longrightarrow> appends w (be32 n) w'"
  "wf_writer w \<Longrightarrow> writeFloat64 w x = Inr w' \<Longrightarrow> appends w (0xfb # be64 x) w'"
  using ensure_put [of w "[b]" w'] ensure_put [of w bs w'] ensure_put [of w "[of_nat (n div 2 ^ 8), of_nat n]" w']
    ensure_put [of w "be32 n" w'] ensure_put [of w "0xfb # be64 x" w']
  by (simp_all add: writeByte_def writeBytes_def writeUint16_def writeUint32_def writeFloat64_def be64_def numeral_2_eq_2)

lemma writeUint64_appends:
  assumes "wf_writer w" "writeUint64 w n = Inr w'"
  shows "appends w (be32 (n div UINT32_BASE) @ be32 (n - n div UINT32_BASE * UINT32_BASE)) w'"
proof -
  obtain w1 where w1: "writeUint32 w (n div UINT32_BASE) = Inr w1"
      "writeUint32 w1 (n - n div UINT32_BASE * UINT32_BASE) = Inr w'"
    using assms(2) by (auto simp: writeUint64_def Let_def bindR_Inr_iff)
  have "appends w (be32 (n div UINT32_BASE)) w1" by (rule write_appends(4) [OF assms(1) w1(1)])
  with write_appends(4) [OF _ w1(2)] show ?thesis by (blast intro: appends_trans)
qed

section \<open>Heads\<close>

text \<open>The bytes of the head of an item with a major type and an argument.\<close>

definition head_bytes :: "nat \<Rightarrow> nat \<Rightarrow> bytes" where
  "head_bytes majorType value =
     (let prefix = push_bit 5 (of_nat majorType) :: byte
      in if value < 24 then [prefix OR of_nat value]
         else if value \<le> 0xff then [prefix OR 24, of_nat value]
         else if value \<le> 0xffff then [prefix OR 25, of_nat (value div 2 ^ 8), of_nat value]
         else if value \<le> CBOR_MAX_UINT32 then (prefix OR 26) # be32 value
         else (prefix OR 27) # be32 (value div UINT32_BASE) @ be32 (value - value div UINT32_BASE * UINT32_BASE))"

lemma writeArgument_appends:
  assumes "wf_writer w" "writeArgument w m n = Inr w'"
  shows "appends w (head_bytes m n) w'"
proof -
  let ?p = "push_bit 5 (of_nat m) :: byte"
  have two: "appends w (b # bs) w'" if "writeByte w b = Inr w1" "wf_writer w1 \<Longrightarrow> appends w1 bs w'" for b bs w1
    using write_appends(1) [OF assms(1) that(1)] that(2) appends_trans [of w "[b]" w1 bs w'] by auto
  consider "n < 24" | "24 \<le> n" "n \<le> 0xff" | "0xff < n" "n \<le> 0xffff" | "0xffff < n" "n \<le> CBOR_MAX_UINT32"
    | "CBOR_MAX_UINT32 < n" "0xffff < n" unfolding CBOR_MAX_UINT32_def by linarith
  then show ?thesis
  proof cases
    case 1
    then show ?thesis using write_appends(1) [OF assms(1)] assms(2) by (simp add: writeArgument_def head_bytes_def)
  next
    case 2
    then obtain w1 where "writeByte w (?p OR 24) = Inr w1" "writeByte w1 (of_nat n) = Inr w'"
      using assms(2) by (auto simp: writeArgument_def bindR_Inr_iff)
    then show ?thesis using 2 write_appends(1) two by (simp add: head_bytes_def)
  next
    case 3
    then obtain w1 where "writeByte w (?p OR 25) = Inr w1" "writeUint16 w1 n = Inr w'"
      using assms(2) by (auto simp: writeArgument_def bindR_Inr_iff)
    then show ?thesis using 3 write_appends(3) two by (simp add: head_bytes_def)
  next
    case 4
    then obtain w1 where "writeByte w (?p OR 26) = Inr w1" "writeUint32 w1 n = Inr w'"
      using assms(2) by (auto simp: writeArgument_def bindR_Inr_iff)
    then show ?thesis using 4 write_appends(4) two by (simp add: head_bytes_def)
  next
    case 5
    then obtain w1 where "writeByte w (?p OR 27) = Inr w1" "writeUint64 w1 n = Inr w'"
      using assms(2) by (auto simp: writeArgument_def bindR_Inr_iff)
    then show ?thesis using 5 writeUint64_appends two by (simp add: head_bytes_def)
  qed
qed

lemma head_initial:
  "list_all (\<lambda>m. list_all (\<lambda>v. unat (drop_bit 5 (push_bit 5 (of_nat m) OR of_nat v :: byte)) = m
      \<and> unat ((push_bit 5 (of_nat m) OR of_nat v :: byte) AND 0x1f) = v) [0..<28]) [0..<6]"
  by code_simp

lemma head_initial_at:
  assumes "m < 6" "v < 28"
  shows "unat (drop_bit 5 (push_bit 5 (of_nat m) OR of_nat v :: byte)) = m"
    "unat ((push_bit 5 (of_nat m) OR of_nat v :: byte) AND 0x1f) = v"
  using head_initial assms by (auto simp: list_all_iff)

lemma readBytes_append [simp]: "length bs = n \<Longrightarrow> readBytes n (bs @ rest) = Inr (bs, rest)"
  by (auto simp: readBytes_def)

lemma readUint32_be32 [simp]: "n \<le> CBOR_MAX_UINT32 \<Longrightarrow> readUint32 (be32 n @ rest) = Inr (n, rest)"
  using of_be32_be32 [of n] by (simp add: readUint32_def CBOR_MAX_UINT32_def FRAME_MAX_UINT32_def)

text \<open>The head of an item is read back.\<close>

lemma head_split:
  assumes "m < 6" "int n \<le> max_safe_integer"
  obtains ini arg ai where "head_bytes m n = ini # arg" "unat (drop_bit 5 ini) = m" "unat (ini AND 0x1f) = ai" "ai < 28"
    "\<And>rest. readArgument ai (arg @ rest) = Inr (n, rest)"
proof -
  let ?p = "push_bit 5 (of_nat m) :: byte"
  have ini: "unat (drop_bit 5 (?p OR of_nat v)) = m" "unat ((?p OR of_nat v) AND 0x1f) = v" if "v < 28" for v
    using head_initial_at [OF assms(1) that] by auto
  consider "n < 24" | "24 \<le> n" "n \<le> 0xff" | "0xff < n" "n \<le> 0xffff" | "0xffff < n" "n \<le> CBOR_MAX_UINT32"
    | "CBOR_MAX_UINT32 < n" "0xffff < n" unfolding CBOR_MAX_UINT32_def by linarith
  then show thesis
  proof cases
    case 1
    show thesis by (rule that [of "?p OR of_nat n" "[]" n]) (use 1 ini [of n] in \<open>auto simp: head_bytes_def readArgument_def\<close>)
  next
    case 2
    show thesis
      by (rule that [of "?p OR of_nat 24" "[of_nat n]" 24])
        (use 2 ini [of 24] in \<open>auto simp: head_bytes_def readArgument_def readByte_def unat_byte\<close>)
  next
    case 3
    have "unat (of_nat (n div 2 ^ 8) :: byte) * 0x100 + unat (of_nat n :: byte) = n"
      using 3 by (simp add: unat_byte)
    then show thesis
      by (intro that [of "?p OR of_nat 25" "[of_nat (n div 2 ^ 8), of_nat n]" 25])
        (use 3 ini [of 25] in \<open>auto simp: head_bytes_def readArgument_def readBytes_def\<close>)
  next
    case 4
    show thesis
      by (rule that [of "?p OR of_nat 26" "be32 n" 26])
        (use 4 ini [of 26] in \<open>auto simp: head_bytes_def readArgument_def\<close>)
  next
    case 5
    let ?h = "n div UINT32_BASE" and ?l = "n - n div UINT32_BASE * UINT32_BASE"
    have "n < 2 ^ 53" using assms(2) by (simp add: max_safe_integer_def)
    then have h: "?h \<le> 0x1fffff" by (simp add: UINT32_BASE_def div_le_dividend less_mult_imp_div_less flip: less_Suc_eq_le)
    have l: "?l \<le> CBOR_MAX_UINT32" "?h * UINT32_BASE + ?l = n"
      by (simp_all add: UINT32_BASE_def CBOR_MAX_UINT32_def minus_div_mult_eq_mod flip: less_Suc_eq_le)
    have "?h \<le> CBOR_MAX_UINT32" using h by (simp add: CBOR_MAX_UINT32_def)
    then show thesis
      by (intro that [of "?p OR of_nat 27" "be32 ?h @ be32 ?l" 27])
        (use 5 ini [of 27] h l in \<open>auto simp: head_bytes_def readArgument_def\<close>)
  qed
qed

section \<open>Round trip\<close>

text \<open>What a value becomes on its way through the codec: properties that are undefined are dropped.\<close>

function normal :: "js_value \<Rightarrow> js_value" where
  "normal v =
     (case v of
        JArray vs \<Rightarrow> JArray (map normal vs)
      | JObject s es \<Rightarrow> JObject False (map (\<lambda>(k, v). (k, normal v)) (defined_entries es))
      | _ \<Rightarrow> v)"
  by pat_completeness auto
termination
proof (relation "measure size")
  fix v s es x k u
  assume "v = JObject s es" "x \<in> set (defined_entries es)" "(k, u) = x"
  then have "(k, u) \<in> set es" by (auto simp: defined_entries_def)
  then have "size u < Suc (size_list (size_prod (\<lambda>x. 0) size) es)"
    by (induction es) auto
  then show "(u, v) \<in> measure size" using \<open>v = JObject s es\<close> by simp
qed (auto intro: less_SucI size_list_estimation' simp: less_Suc_eq_le)

declare normal.simps [simp del]

lemma normal_simps [simp]:
  "normal (JArray vs) = JArray (map normal vs)"
  "normal (JObject s es) = JObject False (map (\<lambda>(k, v). (k, normal v)) (defined_entries es))"
  "normal JNull = JNull" "normal (JBool b) = JBool b" "normal (JNumber x) = JNumber x" "normal (JString t) = JString t"
  "normal (JBytes bs) = JBytes bs"
  by (simp_all add: normal.simps)

lemma insort_key_map: "insort_key f (h x) (map h xs) = map h (insort_key (\<lambda>x. f (h x)) x xs)"
  by (induction xs) auto

lemma sort_key_map: "sort_key f (map h xs) = map h (sort_key (\<lambda>x. f (h x)) xs)"
  by (induction xs) (auto simp: insort_key_map)

lemma own_keys_order_map:
  "own_keys_order (map (\<lambda>(k, v). (k, g v)) es) = map (\<lambda>(k, v). (k, g v)) (own_keys_order es)"
proof -
  have f: "filter (\<lambda>(k, _). Q k) (map (\<lambda>(k, v). (k, g v)) es) = map (\<lambda>(k, v). (k, g v)) (filter (\<lambda>(k, _). Q k) es)" for Q
    by (induction es) auto
  have k: "(\<lambda>x. (\<lambda>(k, _). the (array_index k)) ((\<lambda>(k, v). (k, g v)) x)) = (\<lambda>(k, _). the (array_index k))" by auto
  show ?thesis unfolding own_keys_order_def f sort_key_map k map_append ..
qed

lemma own_keys_order_filter: "own_keys_order es = es \<Longrightarrow> own_keys_order (filter P es) = filter P es"
proof -
  assume o: "own_keys_order es = es"
  have "own_keys_order (filter P es) = filter P (own_keys_order es)"
    unfolding own_keys_order_def by (simp add: filter_sort conj_commute)
  then show ?thesis using o by simp
qed

lemma normal_order:
  assumes "own_keys_order es = es"
  shows "own_keys_order (map (\<lambda>(k, v). (k, normal v)) (defined_entries es)) = map (\<lambda>(k, v). (k, normal v)) (defined_entries es)"
  unfolding own_keys_order_map defined_entries_def own_keys_order_filter [OF assms] ..

text \<open>The bytes \<open>bs\<close> are read back as the value \<open>v\<close>, whatever follows them.\<close>

definition reads :: "resolved_options \<Rightarrow> nat \<Rightarrow> bytes \<Rightarrow> js_value \<Rightarrow> bool" where
  "reads opts levels bs v \<longleftrightarrow> (\<forall>rest. readItem opts levels (bs @ rest) = Inr (v, rest))"

lemma reads_head:
  assumes "m < 6" "int n \<le> max_safe_integer"
  shows "readItem opts (Suc l) (head_bytes m n @ rest) =
    (if m = 0 then Inr (JNumber (JInt (int n)), rest)
     else if m = 1 then
       bindR (guardR (is_safe_integer (- 1 - int n)) (CborError ''Decoded CBOR integer is outside the safe range'')) (\<lambda>_.
       Inr (JNumber (JInt (- 1 - int n)), rest))
     else if m = 2 then
       bindR (guardR (n \<le> maxByteLength opts)
         (CborError (''CBOR '' @ ''byte string'' @ '' length exceeds configured limit of '' @ decimal (maxByteLength opts)))) (\<lambda>_.
       bindR (readBytes n rest) (\<lambda>(v, r). Inr (JBytes v, r)))
     else if m = 3 then
       bindR (guardR (n \<le> maxByteLength opts)
         (CborError (''CBOR '' @ ''text string'' @ '' length exceeds configured limit of '' @ decimal (maxByteLength opts)))) (\<lambda>_.
       bindR (readBytes n rest) (\<lambda>(v, r).
       case text_decode v of
         None \<Rightarrow> Inl (CborError ''CBOR text string contains invalid UTF-8'')
       | Some s \<Rightarrow> Inr (JString s, r)))
     else if m = 4 then
       bindR (guardR (n \<le> maxContainerLength opts)
         (CborError (''CBOR '' @ ''array'' @ '' length exceeds configured limit of '' @ decimal (maxContainerLength opts)))) (\<lambda>_.
       bindR (readItems (readItem opts l) n rest) (\<lambda>(vs, r). Inr (JArray vs, r)))
     else
       bindR (guardR (n \<le> maxContainerLength opts)
         (CborError (''CBOR '' @ ''map'' @ '' length exceeds configured limit of '' @ decimal (maxContainerLength opts)))) (\<lambda>_.
       bindR (readEntries (readItem opts l) {} n rest) (\<lambda>(es, r). Inr (JObject False (own_keys_order es), r))))"
proof -
  obtain ini arg ai where h: "head_bytes m n = ini # arg" "unat (drop_bit 5 ini) = m" "unat (ini AND 0x1f) = ai" "ai < 28"
      "\<And>rest. readArgument ai (arg @ rest) = Inr (n, rest)"
    using head_split [OF assms] by blast
  have len: "readLength ai kind lmt (arg @ rest) =
      bindR (guardR (n \<le> lmt) (CborError (''CBOR '' @ kind @ '' length exceeds configured limit of '' @ decimal lmt))) (\<lambda>_. Inr (n, rest))" for kind lmt
    using h(4,5) by (simp add: readLength_def)
  show ?thesis
    using assms(1) h(2-5) len unfolding h(1)
    by (auto simp: readByte_def Let_def guardR_def)
qed

lemma text_reads:
  assumes "encodeText w s opts = Inr w'" "wf_writer w" "maxByteLength opts \<le> CBOR_MAX_UINT32"
  shows "\<exists>bs. appends w bs w' \<and> reads opts (Suc l) bs (JString s)"
proof -
  let ?b = "text_encode s"
  from assms(1) obtain w1 where w: "length ?b \<le> maxByteLength opts" "text_decode ?b = Some s"
      "writeArgument w 3 (length ?b) = Inr w1" "writeBytes w1 ?b = Inr w'"
    by (auto simp: encodeText_def Let_def bindR_Inr_iff)
  have a1: "appends w (head_bytes 3 (length ?b)) w1" by (rule writeArgument_appends [OF assms(2) w(3)])
  have "appends w (head_bytes 3 (length ?b) @ ?b) w'"
    using a1 write_appends(2) [OF appends_wf [OF a1] w(4)] by (rule appends_trans)
  moreover have "int (length ?b) \<le> max_safe_integer"
    using w(1) assms(3) by (simp add: max_safe_integer_def CBOR_MAX_UINT32_def)
  then have "reads opts (Suc l) (head_bytes 3 (length ?b) @ ?b) (JString s)"
    unfolding reads_def append_assoc using w(1,2) by (subst reads_head) simp_all
  ultimately show ?thesis by blast
qed

lemma float_initial: "unat (drop_bit 5 (0xfb :: byte)) = 7" "unat ((0xfb :: byte) AND 0x1f) = 27"
  by code_simp+

lemma simple_initial:
  "unat (drop_bit 5 (0xf6 :: byte)) = 7" "unat ((0xf6 :: byte) AND 0x1f) = 22"
  "unat (drop_bit 5 (0xf5 :: byte)) = 7" "unat ((0xf5 :: byte) AND 0x1f) = 21"
  "unat (drop_bit 5 (0xf4 :: byte)) = 7" "unat ((0xf4 :: byte) AND 0x1f) = 20"
  by code_simp+

lemma length_be64 [simp]: "length (be64 b) = 8"
  by (simp add: be64_def)

lemma of_be64_be64: "of_be64 (be64 b) = b"
proof -
  have "(unsigned b :: nat) < 2 ^ LENGTH(64)" by (rule unsigned_less)
  then have lt: "unat b < 2 ^ 64" by simp
  then have "unat b div 2 ^ 32 \<le> FRAME_MAX_UINT32" "unat b mod 2 ^ 32 \<le> FRAME_MAX_UINT32"
    by (simp_all add: FRAME_MAX_UINT32_def less_mult_imp_div_less flip: less_Suc_eq_le)
  then have "of_be32 (be32 (unat b div 2 ^ 32)) * 2 ^ 32 + of_be32 (be32 (unat b mod 2 ^ 32)) = unat b"
    by (simp add: of_be32_be32)
  then show ?thesis by (simp add: of_be64_def be64_def del: mult_numeral_1)
qed

lemma number_reads:
  assumes "encodeNumber w x = Inr w'" "wf_writer w" "wf_number x"
  shows "\<exists>bs. appends w bs w' \<and> reads opts (Suc l) bs (JNumber x)"
proof (cases x)
  case (JInt i)
  then have safe: "is_safe_integer i" using assms(1) by (simp add: encodeNumber_def bindR_Inr_iff)
  show ?thesis
  proof (cases "0 \<le> i")
    case True
    then have "appends w (head_bytes 0 (nat i)) w'"
      using assms(1,2) JInt writeArgument_appends by (auto simp: encodeNumber_def bindR_Inr_iff)
    moreover have "int (nat i) \<le> max_safe_integer" using True safe by (simp add: is_safe_integer_def)
    then have "reads opts (Suc l) (head_bytes 0 (nat i)) (JNumber x)"
      unfolding reads_def using True JInt by (subst reads_head) simp_all
    ultimately show ?thesis by blast
  next
    case False
    then have "appends w (head_bytes 1 (nat (- 1 - i))) w'"
      using assms(1,2) JInt writeArgument_appends by (auto simp: encodeNumber_def bindR_Inr_iff)
    moreover have "int (nat (- 1 - i)) \<le> max_safe_integer" using False safe by (auto simp: is_safe_integer_def)
    then have "reads opts (Suc l) (head_bytes 1 (nat (- 1 - i))) (JNumber x)"
      unfolding reads_def using False JInt safe by (subst reads_head) simp_all
    ultimately show ?thesis by blast
  qed
next
  case (JFrac b)
  have "appends w (0xfb # be64 b) w'"
    using assms(1,2) JFrac write_appends(5) by (simp add: encodeNumber_def)
  moreover have "num_of_bits b = JFrac b" using assms(3) JFrac by (simp add: wf_number_def)
  then have "reads opts (Suc l) (0xfb # be64 b) (JNumber x)"
    unfolding reads_def using JFrac
    by (simp add: readByte_def Let_def float_initial readSimple_def of_be64_be64 is_finite_number_def)
  ultimately show ?thesis by blast
qed (use assms in \<open>auto simp: encodeNumber_def\<close>)

lemma bytes_reads:
  assumes "encodeValue opts w (JBytes v) depth = Inr w'" "wf_writer w" "maxByteLength opts \<le> CBOR_MAX_UINT32"
  shows "\<exists>bs. appends w bs w' \<and> reads opts (Suc l) bs (JBytes v)"
proof -
  from assms(1) obtain w1 where w: "length v \<le> maxByteLength opts" "writeArgument w 2 (length v) = Inr w1" "writeBytes w1 v = Inr w'"
    by (auto simp: encodeValue.simps bindR_Inr_iff split: if_splits)
  have a1: "appends w (head_bytes 2 (length v)) w1" by (rule writeArgument_appends [OF assms(2) w(2)])
  have "appends w (head_bytes 2 (length v) @ v) w'"
    using a1 write_appends(2) [OF appends_wf [OF a1] w(3)] by (rule appends_trans)
  moreover have "int (length v) \<le> max_safe_integer"
    using w(1) assms(3) by (simp add: max_safe_integer_def CBOR_MAX_UINT32_def)
  then have "reads opts (Suc l) (head_bytes 2 (length v) @ v) (JBytes v)"
    unfolding reads_def append_assoc using w(1) by (subst reads_head) simp_all
  ultimately show ?thesis by blast
qed

definition wf_options :: "resolved_options \<Rightarrow> bool" where
  "wf_options opts \<longleftrightarrow> maxByteLength opts \<le> CBOR_MAX_UINT32 \<and> maxContainerLength opts \<le> CBOR_MAX_UINT32"

text \<open>What each of the three encoding functions appends is read back by its counterpart.\<close>

lemma container_head:
  assumes "writeArgument w m n = Inr w1" "wf_writer w" "appends w1 bs w2" "m < 6" "n \<le> CBOR_MAX_UINT32"
  shows "appends w (head_bytes m n @ bs) w2" "int n \<le> max_safe_integer"
  using appends_trans [OF writeArgument_appends [OF assms(2,1)] assms(3)] assms(5)
  by (simp_all add: max_safe_integer_def CBOR_MAX_UINT32_def)

lemma readItems_Cons:
  assumes "reads opts l b1 v" "\<forall>rest. readItems (readItem opts l) n (b2 @ rest) = Inr (vs, rest)"
  shows "readItems (readItem opts l) (Suc n) ((b1 @ b2) @ rest) = Inr (v # vs, rest)"
  using assms by (simp add: reads_def)

lemma readEntries_Cons:
  assumes "reads opts l b0 (JString k)" "reads opts l b1 v" "k \<notin> keys"
    "readEntries (readItem opts l) (insert k keys) n (b2 @ rest) = Inr (es, rest)"
  shows "readEntries (readItem opts l) keys (Suc n) ((b0 @ b1 @ b2) @ rest) = Inr ((k, v) # es, rest)"
  using assms by (simp add: reads_def)

lemma encodeValue_depth: "encodeValue opts w v depth = Inr w1 \<Longrightarrow> depth \<le> maxDepth opts"
  by (subst (asm) encodeValue.simps) (simp split: if_splits)

lemma encode_reads:
  shows "encodeValue opts w v depth = Inr w1 \<Longrightarrow> wf_options opts \<Longrightarrow> wf_writer w \<Longrightarrow> wf_value v \<Longrightarrow>
      \<exists>bs. appends w bs w1 \<and> reads opts (Suc (maxDepth opts) - depth) bs (normal v)"
    and "encodeItems opts w vs depth = Inr w1 \<Longrightarrow> wf_options opts \<Longrightarrow> wf_writer w \<Longrightarrow> list_all wf_value vs \<Longrightarrow>
      \<exists>bs. appends w bs w1 \<and>
        (\<forall>rest. readItems (readItem opts (Suc (maxDepth opts) - depth)) (length vs) (bs @ rest) = Inr (map normal vs, rest))"
    and "encodeEntries opts w es depth = Inr w1 \<Longrightarrow> wf_options opts \<Longrightarrow> wf_writer w \<Longrightarrow>
      list_all (\<lambda>(k, v). wf_value v) es \<Longrightarrow> distinct (map fst es) \<Longrightarrow>
      \<exists>bs. appends w bs w1 \<and>
        (\<forall>rest keys. keys \<inter> fst ` set es = {} \<longrightarrow>
           readEntries (readItem opts (Suc (maxDepth opts) - depth)) keys (length (defined_entries es)) (bs @ rest)
             = Inr (map (\<lambda>(k, v). (k, normal v)) (defined_entries es), rest))"
proof (induction opts w v depth and opts w vs depth and opts w es depth
    arbitrary: w1 and w1 and w1 rule: encodeValue_encodeItems_encodeEntries.induct)
  case (1 opts w v depth)
  note depth = encodeValue_depth [OF "1.prems"(1)]
  then have levels: "Suc (maxDepth opts) - depth = Suc (maxDepth opts - depth)" by simp
  have lims: "maxByteLength opts \<le> CBOR_MAX_UINT32" "maxContainerLength opts \<le> CBOR_MAX_UINT32"
    using "1.prems"(2) by (auto simp: wf_options_def)
  note enc = "1.prems"(1) [unfolded encodeValue.simps [of opts w v depth]]
  show ?case
  proof (cases v)
    case (JArray vs)
    with enc depth obtain w2 where w2: "length vs \<le> maxContainerLength opts" "writeArgument w 4 (length vs) = Inr w2"
        "encodeItems opts w2 vs (Suc depth) = Inr w1"
      by (auto simp: bindR_Inr_iff split: if_splits)
    have "wf_writer w2" using writeArgument_appends [OF "1.prems"(3) w2(2)] by blast
    with "1.IH"(1) [OF _ JArray w2(3) "1.prems"(2)] depth "1.prems"(4) JArray
    obtain bs where bs: "appends w2 bs w1"
        "\<forall>rest. readItems (readItem opts (maxDepth opts - depth)) (length vs) (bs @ rest) = Inr (map normal vs, rest)"
      by auto
    note h = container_head [OF w2(2) "1.prems"(3) bs(1), simplified, OF order_trans [OF w2(1) lims(2)]]
    have "reads opts (Suc (maxDepth opts - depth)) (head_bytes 4 (length vs) @ bs) (normal v)"
      unfolding reads_def append_assoc using w2(1) bs(2) JArray h(2) by (subst reads_head) simp_all
    then show ?thesis unfolding levels using h(1) by blast
  next
    case (JObject sy es)
    with enc depth obtain w2 where w2: "length (defined_entries es) \<le> maxContainerLength opts"
        "writeArgument w 5 (length (defined_entries es)) = Inr w2" "encodeEntries opts w2 es (Suc depth) = Inr w1"
      by (auto simp: bindR_Inr_iff split: if_splits)
    have wf2: "wf_writer w2" using writeArgument_appends [OF "1.prems"(3) w2(2)] by blast
    have es: "distinct (map fst es)" "own_keys_order es = es" "list_all (\<lambda>(k, v). wf_value v) es"
      using "1.prems"(4) JObject by auto
    from "1.IH"(2) [OF _ JObject w2(3) "1.prems"(2) wf2 es(3,1)] depth
    obtain bs where bs: "appends w2 bs w1"
        "\<forall>rest. readEntries (readItem opts (maxDepth opts - depth)) {} (length (defined_entries es)) (bs @ rest)
           = Inr (map (\<lambda>(k, v). (k, normal v)) (defined_entries es), rest)"
      by auto
    note h = container_head [OF w2(2) "1.prems"(3) bs(1), simplified, OF order_trans [OF w2(1) lims(2)]]
    have "reads opts (Suc (maxDepth opts - depth)) (head_bytes 5 (length (defined_entries es)) @ bs) (normal v)"
      unfolding reads_def append_assoc using w2(1) bs(2) JObject h(2) normal_order [OF es(2)] by (subst reads_head) simp_all
    then show ?thesis unfolding levels using h(1) by blast
  next
    case (JString s)
    then show ?thesis using text_reads [of w s opts w1] enc depth lims "1.prems"(3) unfolding levels by simp
  next
    case (JNumber x)
    then show ?thesis using number_reads [of w x w1 opts] enc depth "1.prems"(3,4) unfolding levels by simp
  next
    case (JBytes b)
    then show ?thesis using bytes_reads [of opts w b depth w1] "1.prems"(1,3) lims unfolding levels by simp
  next
    case JNull
    then have "appends w [0xf6] w1" using enc depth write_appends(1) [OF "1.prems"(3)] by simp
    moreover have "reads opts (Suc (maxDepth opts - depth)) [0xf6] (normal v)"
      using JNull by (simp add: reads_def readByte_def Let_def simple_initial readSimple_def)
    ultimately show ?thesis unfolding levels by blast
  next
    case (JBool b)
    then have "appends w [if b then 0xf5 else 0xf4] w1" using enc depth write_appends(1) [OF "1.prems"(3)] by simp
    moreover have "reads opts (Suc (maxDepth opts - depth)) [if b then 0xf5 else 0xf4] (normal v)"
      using JBool by (simp add: reads_def readByte_def Let_def simple_initial readSimple_def)
    ultimately show ?thesis unfolding levels by blast
  qed (use enc depth in \<open>auto split: if_splits\<close>)
next
  case (2 opts w depth)
  then show ?case by (auto simp: appends_def intro!: exI [of _ "[]"])
next
  case (3 opts w v vs depth)
  then have def: "\<not> (v = JHole \<or> v = JUndefined)" by (auto split: if_splits)
  with "3.prems"(1) obtain w2 where w2: "encodeValue opts w v depth = Inr w2" "encodeItems opts w2 vs depth = Inr w1"
    by (auto simp: bindR_Inr_iff)
  from "3.IH"(1) [OF def w2(1)] "3.prems" obtain b1 where b1: "appends w b1 w2"
      "reads opts (Suc (maxDepth opts) - depth) b1 (normal v)" by auto
  from "3.IH"(2) [OF def w2(2)] "3.prems" appends_wf [OF b1(1)] obtain b2 where b2: "appends w2 b2 w1"
      "\<forall>rest. readItems (readItem opts (Suc (maxDepth opts) - depth)) (length vs) (b2 @ rest) = Inr (map normal vs, rest)"
    by auto
  show ?case
    using appends_trans [OF b1(1) b2(1)] readItems_Cons [OF b1(2) b2(2)] by (intro exI [of _ "b1 @ b2"]) simp
next
  case (4 opts w depth)
  then show ?case by (auto simp: appends_def defined_entries_def intro!: exI [of _ "[]"])
next
  case (5 opts w k v es depth)
  show ?case
  proof (cases "v = JUndefined")
    case True
    then show ?thesis using 5 by (auto simp: defined_entries_def)
  next
    case False
    with "5.prems"(1) obtain wk w2 where w2: "encodeText w k opts = Inr wk" "encodeValue opts wk v depth = Inr w2"
        "encodeEntries opts w2 es depth = Inr w1"
      by (auto simp: bindR_Inr_iff)
    have levels: "Suc (maxDepth opts) - depth = Suc (maxDepth opts - depth)" using encodeValue_depth [OF w2(2)] by simp
    obtain b0 where b0: "appends w b0 wk" "reads opts (Suc (maxDepth opts) - depth) b0 (JString k)"
      using text_reads [OF w2(1) "5.prems"(3)] "5.prems"(2) unfolding levels wf_options_def by blast
    from "5.IH"(2) [OF False w2(2) "5.prems"(2) appends_wf [OF b0(1)]] "5.prems"(4) obtain b1 where b1: "appends wk b1 w2"
        "reads opts (Suc (maxDepth opts) - depth) b1 (normal v)" by auto
    from "5.IH"(3) [OF False w2(3) "5.prems"(2) appends_wf [OF b1(1)]] "5.prems"(4,5) obtain b2 where b2: "appends w2 b2 w1"
        "\<forall>rest keys. keys \<inter> fst ` set es = {} \<longrightarrow>
           readEntries (readItem opts (Suc (maxDepth opts) - depth)) keys (length (defined_entries es)) (b2 @ rest)
             = Inr (map (\<lambda>(k, v). (k, normal v)) (defined_entries es), rest)"
      by auto
    have "appends w (b0 @ b1 @ b2) w1" using appends_trans [OF b0(1) appends_trans [OF b1(1) b2(1)]] .
    moreover have "readEntries (readItem opts (Suc (maxDepth opts) - depth)) keys (Suc (length (defined_entries es))) ((b0 @ b1 @ b2) @ rest)
        = Inr ((k, normal v) # map (\<lambda>(k, v). (k, normal v)) (defined_entries es), rest)"
      if "keys \<inter> fst ` set ((k, v) # es) = {}" for keys rest
      using that "5.prems"(5) b2(2) by (intro readEntries_Cons [OF b0(2) b1(2)]) auto
    ultimately show ?thesis using False by (intro exI [of _ "b0 @ b1 @ b2"]) (simp add: defined_entries_def)
  qed
qed

lemma wf_new_writer: "wf_writer (new_writer mx)" "written (new_writer mx) = []" "w_maxByteLength (new_writer mx) = mx"
  by (simp_all add: new_writer_def wf_writer_def written_def)

lemma resolveLimit_le: "resolveLimit name v m = Inr n \<Longrightarrow> n \<le> m"
  by (auto simp: resolveLimit_def split: if_splits)

lemma resolveOptions_wf: "resolveOptions options = Inr opts \<Longrightarrow> wf_options opts"
  by (auto simp: resolveOptions_def bindR_Inr_iff wf_options_def dest: resolveLimit_le)

lemma encodeCbor_reads:
  assumes "resolveOptions options = Inr opts" "encodeCbor v options = Inr bs" "wf_value v"
  shows "reads opts (maxDepth opts + 1) bs (normal v)" "length bs \<le> maxByteLength opts"
proof -
  let ?w = "new_writer (maxByteLength opts)"
  obtain w where w: "encodeValue opts ?w v 0 = Inr w" "bs = finish_writer w"
    using assms(1,2) by (auto simp: encodeCbor_def bindR_Inr_iff)
  from encode_reads(1) [OF w(1) resolveOptions_wf [OF assms(1)] wf_new_writer(1) assms(3)]
  obtain cs where cs: "appends ?w cs w" "reads opts (Suc (maxDepth opts)) cs (normal v)" by auto
  have "bs = cs" using cs(1) w(2) wf_new_writer(2) by (simp add: appends_def finish_writer_def written_def)
  then show "reads opts (maxDepth opts + 1) bs (normal v)" using cs(2) by simp
  have "length bs \<le> w_maxByteLength w"
    using appends_wf [OF cs(1)] w(2) by (auto simp: wf_writer_def finish_writer_def)
  then show "length bs \<le> maxByteLength opts" using cs(1) wf_new_writer(3) by (simp add: appends_def)
qed

section \<open>What the decoder accepts\<close>

text \<open>Values of the protocol within the limits, with \<open>levels\<close> nesting levels.\<close>

primrec fits :: "resolved_options \<Rightarrow> nat \<Rightarrow> js_value \<Rightarrow> bool" where
  "fits opts 0 v = False"
| "fits opts (Suc levels) v =
     (case v of
        JNull \<Rightarrow> True
      | JBool _ \<Rightarrow> True
      | JNumber x \<Rightarrow> (case x of JInt i \<Rightarrow> is_safe_integer i | JFrac _ \<Rightarrow> True | _ \<Rightarrow> False)
      | JString _ \<Rightarrow> True
      | JBytes bs \<Rightarrow> length bs \<le> maxByteLength opts
      | JArray vs \<Rightarrow> length vs \<le> maxContainerLength opts \<and> list_all (fits opts levels) vs
      | JObject s es \<Rightarrow> \<not> s \<and> length es \<le> maxContainerLength opts \<and> list_all (\<lambda>(_, v). fits opts levels v) es
      | _ \<Rightarrow> False)"

lemma num_of_bits_wf: "wf_number (num_of_bits b)"
proof (cases "num_of_bits b")
  case (JFrac c)
  then have "c = b" by (auto simp: num_of_bits_def Let_def split: if_splits)
  with JFrac show ?thesis by (simp add: wf_number_def)
qed (auto simp: wf_number_def)

lemma readItems_all:
  assumes "\<And>bs v r. item bs = Inr (v, r) \<Longrightarrow> P v"
  shows "readItems item n bs = Inr (vs, r) \<Longrightarrow> length vs = n \<and> list_all P vs"
proof (induction n arbitrary: bs vs)
  case (Suc n)
  from Suc.prems obtain v r1 us where "item bs = Inr (v, r1)" "readItems item n r1 = Inr (us, r)" "vs = v # us"
    by (auto simp: bindR_Inr_iff)
  then show ?case using Suc.IH assms by auto
qed simp

lemma readEntries_all:
  assumes "\<And>bs v r. item bs = Inr (v, r) \<Longrightarrow> P v"
  shows "readEntries item keys n bs = Inr (es, r) \<Longrightarrow>
    length es = n \<and> distinct (map fst es) \<and> keys \<inter> fst ` set es = {} \<and> list_all (\<lambda>(_, v). P v) es"
proof (induction n arbitrary: bs es keys)
  case (Suc n)
  obtain x r1 where x: "item bs = Inr (x, r1)" using Suc.prems by (auto simp: bindR_Inr_iff)
  with Suc.prems obtain k v r2 us where "k \<notin> keys" "item r1 = Inr (v, r2)"
      "readEntries item (insert k keys) n r2 = Inr (us, r)" "es = (k, v) # us"
    by (cases x) (auto simp: bindR_Inr_iff)
  then show ?case using Suc.IH assms by force
qed simp

lemma readArgument_safe:
  assumes "readArgument ai bs = Inr (n, r)" "ai < 32"
  shows "int n \<le> max_safe_integer"
proof (cases "ai = 27")
  case True
  then obtain h l where "n = h * UINT32_BASE + of_be32 l" "h \<le> 0x1fffff"
    using assms(1) by (auto simp: readArgument_def readUint32_def bindR_Inr_iff)
  then show ?thesis using of_be32_le [of l] by (simp add: UINT32_BASE_def max_safe_integer_def FRAME_MAX_UINT32_def)
next
  case False
  have "n \<le> 0xffffffff"
  proof (cases "ai = 26")
    case True
    then obtain l where "n = of_be32 l" using assms(1) by (auto simp: readArgument_def readUint32_def bindR_Inr_iff)
    then show ?thesis using of_be32_le [of l] by (simp add: FRAME_MAX_UINT32_def)
  next
    case F: False
    have "ai < 24 \<or> ai = 24 \<or> ai = 25" using assms(1) False F by (auto simp: readArgument_def split: if_splits)
    then consider "n = ai" | b where "n = unat (b :: byte)" | b c where "n = unat (b :: byte) * 0x100 + unat (c :: byte)"
      using assms(1) by (auto simp: readArgument_def bindR_Inr_iff)
    then show ?thesis
    proof cases
      case 1
      then show ?thesis using assms(2) by simp
    next
      case (2 b)
      then show ?thesis using byte_less [of b] by simp
    next
      case (3 b c)
      then show ?thesis using byte_less [of b] byte_less [of c] by simp
    qed
  qed
  then show ?thesis by (simp add: max_safe_integer_def)
qed

lemma readLength_le: "readLength ai kind lmt bs = Inr (n, r) \<Longrightarrow> n \<le> lmt"
  by (auto simp: readLength_def bindR_Inr_iff split: if_splits)

lemma readSimple_fits: "readSimple ai bs = Inr (v, r) \<Longrightarrow> wf_value v \<and> fits opts (Suc levels) v"
proof (cases "ai = 27")
  case True
  assume "readSimple ai bs = Inr (v, r)"
  with True obtain x where "v = JNumber (num_of_bits x)" "is_finite_number (num_of_bits x)"
      "case num_of_bits x of JInt i \<Rightarrow> is_safe_integer i | _ \<Rightarrow> True"
    by (auto simp: readSimple_def bindR_Inr_iff Let_def)
  then show ?thesis using num_of_bits_wf [of x] by (cases "num_of_bits x") (auto simp: is_finite_number_def)
qed (auto simp: readSimple_def split: if_splits)

lemma low_bits_less: "unat ((b :: byte) AND 0x1f) < 32"
proof -
  have "b AND 0x1f \<le> 0x1f" by (rule word_and_le1)
  then show ?thesis by (simp add: word_le_nat_alt)
qed

lemma readItem_fits:
  "readItem opts levels bs = Inr (v, r) \<Longrightarrow> wf_value v \<and> fits opts levels v"
proof (induction levels arbitrary: bs v r)
  case 0
  then show ?case by simp
next
  case (Suc levels)
  from Suc.prems obtain ini r0 where ini: "readByte bs = Inr (ini, r0)" by (auto simp: bindR_Inr_iff)
  define m where "m = unat (drop_bit 5 ini)"
  define ai where "ai = unat (ini AND 0x1f)"
  have ai: "ai < 32" using low_bits_less by (simp add: ai_def)
  note step = Suc.prems [unfolded readItem.simps ini bindR_simps Let_def prod.case, folded m_def ai_def]
  consider (Int) "m = 0" | (Neg) "m = 1" | (Bytes) "m = 2" | (Text) "m = 3" | (Array) "m = 4" | (Map) "m = 5"
    | (Tag) "m = 6" | (Simple) "6 < m" by linarith
  then show ?case
  proof cases
    case Int
    then obtain n r1 where "readArgument ai r0 = Inr (n, r1)" "v = JNumber (JInt (int n))"
      using step by (auto simp: bindR_Inr_iff)
    then show ?thesis using readArgument_safe [OF _ ai] by (simp add: wf_number_def is_safe_integer_def)
  next
    case Neg
    then show ?thesis using step by (auto simp: bindR_Inr_iff wf_number_def)
  next
    case Bytes
    then obtain n r1 x where x: "readLength ai ''byte string'' (maxByteLength opts) r0 = Inr (n, r1)" "readBytes n r1 = Inr (x, r)" "v = JBytes x"
      using step by (auto simp: bindR_Inr_iff)
    then have "length x \<le> maxByteLength opts" using readLength_le [OF x(1)] by (auto simp: readBytes_def split: if_splits)
    then show ?thesis using x(3) by simp
  next
    case Text
    then obtain s where "v = JString s" using step by (auto simp: bindR_Inr_iff split: option.splits)
    then show ?thesis by simp
  next
    case Array
    then obtain n r1 vs where vs: "readLength ai ''array'' (maxContainerLength opts) r0 = Inr (n, r1)"
        "readItems (readItem opts levels) n r1 = Inr (vs, r)" "v = JArray vs"
      using step by (auto simp: bindR_Inr_iff)
    have "length vs = n \<and> list_all (\<lambda>v. wf_value v \<and> fits opts levels v) vs"
      by (rule readItems_all [OF Suc.IH vs(2)])
    then show ?thesis using vs(3) readLength_le [OF vs(1)] by (auto simp: list_all_iff)
  next
    case Map
    then obtain n r1 es where es: "readLength ai ''map'' (maxContainerLength opts) r0 = Inr (n, r1)"
        "readEntries (readItem opts levels) {} n r1 = Inr (es, r)" "v = JObject False (own_keys_order es)"
      using step by (auto simp: bindR_Inr_iff)
    have "length es = n \<and> distinct (map fst es) \<and> {} \<inter> fst ` set es = {} \<and> list_all (\<lambda>(_, v). wf_value v \<and> fits opts levels v) es"
      by (rule readEntries_all [OF Suc.IH es(2)])
    then show ?thesis
      using es(3) readLength_le [OF es(1)] own_keys_order_distinct own_keys_order_mset [of es] mset_eq_length [of "own_keys_order es" es]
      by (auto simp: own_keys_order_idem list_all_iff)
  next
    case Simple
    then show ?thesis using step readSimple_fits by simp
  qed (use step in simp)
qed

section \<open>Properties of the codec\<close>

lemma decodeCbor_encodeCbor:
  assumes "encodeCbor v options = Inr bs" and "wf_value v"
  shows "decodeCbor bs options = Inr (normal v)"
    "\<exists>opts. resolveOptions options = Inr opts \<and> length bs \<le> maxByteLength opts"
proof -
  obtain opts where o: "resolveOptions options = Inr opts" using assms(1) by (auto simp: encodeCbor_def bindR_Inr_iff)
  have "readItem opts (maxDepth opts + 1) (bs @ []) = Inr (normal v, [])"
    using encodeCbor_reads(1) [OF o assms] by (simp only: reads_def)
  then show "decodeCbor bs options = Inr (normal v)" using o encodeCbor_reads(2) [OF o assms] by (simp add: decodeCbor_def)
  show "\<exists>opts. resolveOptions options = Inr opts \<and> length bs \<le> maxByteLength opts"
    using o encodeCbor_reads(2) [OF o assms] by blast
qed

text \<open>C33: A value that the encoder accepts fits the byte limit when encoded and decodes, with the same
  options, to the same value less its undefined properties. Values are those a program can build:
  numbers in normal form and objects with distinct keys in enumeration order.\<close>

theorem cbor_roundtrip:
  assumes "encodeCbor v options = Inr bs" and "wf_value v"
  shows "decodeCbor bs options = Inr (normal v) \<and>
    (\<exists>opts. resolveOptions options = Inr opts \<and> length bs \<le> maxByteLength opts)"
  using decodeCbor_encodeCbor [OF assms] by blast

definition demo_value :: js_value where
  "demo_value = JObject False [(js ''a'', JArray [JNumber (JInt 300), JString (js ''x''), JNull]), (js ''b'', JUndefined)]"

definition demo_options :: cbor_options where
  "demo_options = \<lparr>opt_maxByteLength = Some 16, opt_maxContainerLength = Some 4, opt_maxDepth = Some 2\<rparr>"

lemma text_encode_ascii:
  "unat c < 128 \<Longrightarrow> text_encode [c] = [of_nat (unat c)]"
  by (simp add: text_encode_def utf8_bytes_def is_high_def is_low_def)

lemma demo_text:
  "text_encode (js ''a'') = [97]" "text_encode (js ''x'') = [120]" 
  "text_decode [97] = Some (js ''a'')" "text_decode [120] = Some (js ''x'')"
  by (simp_all add: js_def text_encode_ascii text_decode_def utf8_scalars.simps utf8_head_def utf16_units_def)

lemma demo_options_resolved:
  "resolveOptions demo_options = Inr \<lparr>maxByteLength = 16, maxContainerLength = 4, maxDepth = 2\<rparr>"
  by (simp add: resolveOptions_def demo_options_def or_default_def resolveLimit_def
      CBOR_MAX_UINT32_def MAX_CONFIGURED_DEPTH_def)

lemmas encode_eval = encodeCbor_def encodeValue.simps
  new_writer_def writeArgument_def writeByte_def writeBytes_def writeUint16_def ensureCapacity_def put_bytes_def write_at_def
  finish_writer_def encodeText_def encodeNumber_def defined_entries_def is_safe_integer_def demo_options_resolved

lemma demo_buffer: "replicate 16 (0 :: byte) = [0,0,0,0,0,0,0,0,0,0,0,0,0,0,0,0]"
  by (simp add: numeral_eq_Suc)

lemma demo_encoded: "encodeCbor demo_value demo_options = Inr [161, 97, 97, 131, 25, 1, 44, 97, 120, 246]"
  by (simp add: encode_eval demo_value_def demo_text max_safe_integer_def demo_buffer)

lemma demo_value_wf: "wf_value demo_value"
  by (simp add: demo_value_def own_keys_order_def array_index_def js_def wf_number_def)

theorem cbor_roundtrip_witness:
  "decodeCbor [161, 97, 97, 131, 25, 1, 44, 97, 120, 246] demo_options
     = Inr (JObject False [(js ''a'', JArray [JNumber (JInt 300), JString (js ''x''), JNull])])"
  using cbor_roundtrip [OF demo_encoded demo_value_wf] by (simp add: demo_value_def defined_entries_def)

text \<open>Encodings are self-delimiting: an encoding that is a prefix of another one (with the same
  options) is that encoding, and both are of the same value.\<close>

theorem cbor_prefix_free:
  assumes "encodeCbor v options = Inr bs" and "encodeCbor u options = Inr (bs @ t)" and "wf_value v" and "wf_value u"
  shows "t = [] \<and> normal v = normal u"
proof -
  obtain opts where o: "resolveOptions options = Inr opts" using assms(1) by (auto simp: encodeCbor_def bindR_Inr_iff)
  have "readItem opts (maxDepth opts + 1) (bs @ t) = Inr (normal v, t)"
    using encodeCbor_reads(1) [OF o assms(1,3)] by (simp only: reads_def)
  moreover have "readItem opts (maxDepth opts + 1) ((bs @ t) @ []) = Inr (normal u, [])"
    using encodeCbor_reads(1) [OF o assms(2,4)] by (simp only: reads_def)
  ultimately show ?thesis by simp
qed

text \<open>Whatever bytes it is given, the decoder returns only well-formed values within the configured
  limits: numbers are finite and integers safe, containers and byte strings are no longer than allowed,
  nesting is no deeper than allowed, and no value is undefined.\<close>

theorem decodeCbor_bounded:
  assumes "decodeCbor bs options = Inr v"
  shows "\<exists>opts. resolveOptions options = Inr opts \<and> wf_value v \<and> fits opts (maxDepth opts + 1) v"
proof -
  obtain opts r where "resolveOptions options = Inr opts" "readItem opts (maxDepth opts + 1) bs = Inr (v, r)"
    using assms by (auto simp: decodeCbor_def bindR_Inr_iff)
  then show ?thesis using readItem_fits by blast
qed

lemma demo_initial_bytes: "unat (drop_bit 5 (129 :: byte)) = 4" "unat ((129 :: byte) AND 31) = 1"
  "unat (drop_bit 5 (245 :: byte)) = 7" "unat ((245 :: byte) AND 31) = 21"
  by code_simp+

lemmas readItem_numeral = readItem.simps(2) [of _ "pred_numeral k" for k, folded numeral_eq_Suc]

lemma demo_decoded: "decodeCbor [129, 245] demo_options = Inr (JArray [JBool True])"
  by (simp add: decodeCbor_def demo_options_resolved readItem_numeral
      readByte_def readLength_def readArgument_def readSimple_def demo_initial_bytes Let_def)
end
