(* ===== verification/Codec.thy ===== *)
theory Codec
  imports Cbor
begin

text \<open>
  The message codec of \<open>protocol/src/codec.ts\<close>: validation, one framed CBOR message per call of the
  encoders, and the incremental message decoder on top of the frame decoder. The schema check of the
  typebox package is the argument \<open>Check\<close>. The theory shows that the two ends of a connection
  understand each other however the transport cuts the bytes.
\<close>

section \<open>Validation\<close>

text \<open>\<open>every\<close> passes over missing array slots. Values are finite trees, so the ancestors are left out.\<close>

fun isProtocolValue :: "js_value \<Rightarrow> bool \<Rightarrow> bool" where
  "isProtocolValue JUndefined optionalProperty = optionalProperty"
| "isProtocolValue JHole optionalProperty = optionalProperty"
| "isProtocolValue JNull optionalProperty = True"
| "isProtocolValue (JBool b) optionalProperty = True"
| "isProtocolValue (JNumber x) optionalProperty = True"
| "isProtocolValue (JString s) optionalProperty = True"
| "isProtocolValue (JBytes bs) optionalProperty = False"
| "isProtocolValue (JArray vs) optionalProperty = list_all (\<lambda>v. v = JHole \<or> isProtocolValue v False) vs"
| "isProtocolValue (JObject symbols es) optionalProperty = list_all (\<lambda>(k, v). isProtocolValue v True) es"
| "isProtocolValue (JOther t) optionalProperty = False"

datatype message_schema = ClientMessageSchema | ServerMessageSchema

type_synonym schema_check = "message_schema \<Rightarrow> js_value \<Rightarrow> bool"

datatype protocol_error = ProtocolValidationError string

definition parseClientMessage :: "schema_check \<Rightarrow> js_value \<Rightarrow> protocol_error + js_value" where
  "parseClientMessage Check value =
     (if \<not> isProtocolValue value False \<or> \<not> Check ClientMessageSchema value
      then Inl (ProtocolValidationError ''Invalid client protocol message'') else Inr value)"

definition parseServerMessage :: "schema_check \<Rightarrow> js_value \<Rightarrow> protocol_error + js_value" where
  "parseServerMessage Check value =
     (if \<not> isProtocolValue value False \<or> \<not> Check ServerMessageSchema value
      then Inl (ProtocolValidationError ''Invalid server protocol message'') else Inr value)"

section \<open>Encoding\<close>

text \<open>What the code inside a \<open>try\<close> block may throw; all of these are instances of \<open>Error\<close>.\<close>

datatype thrown = ThrownProtocol protocol_error | ThrownCbor cbor_error | ThrownFrame frame_error

fun error_message :: "thrown \<Rightarrow> string" where
  "error_message (ThrownProtocol (ProtocolValidationError m)) = m"
| "error_message (ThrownCbor (CborError m)) = m"
| "error_message (ThrownCbor (CborRangeError m)) = m"
| "error_message (ThrownFrame (FrameError m)) = m"
| "error_message (ThrownFrame (FrameRangeError m)) = m"

definition boundedErrorMessage :: "thrown \<Rightarrow> string" where
  "boundedErrorMessage e =
     (if length (error_message e) \<le> 500 then error_message e else take 497 (error_message e) @ ''...'')"

definition throwing :: "('e \<Rightarrow> thrown) \<Rightarrow> 'e + 'a \<Rightarrow> thrown + 'a" where
  "throwing t m = (case m of Inl e \<Rightarrow> Inl (t e) | Inr a \<Rightarrow> Inr a)"

text \<open>A \<open>catch\<close> block that passes validation errors on and wraps the others.\<close>

fun wrap_error :: "string \<Rightarrow> thrown \<Rightarrow> protocol_error" where
  "wrap_error prefix (ThrownProtocol e) = e"
| "wrap_error prefix e = ProtocolValidationError (prefix @ boundedErrorMessage e)"

definition byte_limit :: "int \<Rightarrow> cbor_options" where
  "byte_limit n = \<lparr>opt_maxByteLength = Some n, opt_maxContainerLength = None, opt_maxDepth = None\<rparr>"

definition frame_limit :: "int option \<Rightarrow> int" where
  "frame_limit options = (case options of None \<Rightarrow> int DEFAULT_MAX_FRAME_LENGTH | Some n \<Rightarrow> n)"

definition encode_validated :: "js_value \<Rightarrow> int \<Rightarrow> thrown + bytes" where
  "encode_validated validated mx =
     bindR (throwing ThrownCbor (encodeCbor validated (byte_limit mx))) (\<lambda>payload.
     bindR (throwing ThrownFrame (encodeFrame payload)) (\<lambda>frame.
     bindR (throwing ThrownFrame (assertCompleteFrame frame (Some mx))) (\<lambda>_.
     Inr frame)))"

definition encodeProtocolMessage ::
    "js_value \<Rightarrow> (js_value \<Rightarrow> protocol_error + js_value) \<Rightarrow> string \<Rightarrow> int option \<Rightarrow> protocol_error + bytes" where
  "encodeProtocolMessage value parse kind options =
     bindR (parse value) (\<lambda>validated.
     case encode_validated validated (frame_limit options) of
       Inl e \<Rightarrow> Inl (wrap_error (''Unable to encode '' @ kind @ '' protocol message: '') e)
     | Inr frame \<Rightarrow> Inr frame)"

definition encodeClientMessage :: "schema_check \<Rightarrow> js_value \<Rightarrow> int option \<Rightarrow> protocol_error + bytes" where
  "encodeClientMessage Check message options = encodeProtocolMessage message (parseClientMessage Check) ''client'' options"

definition encodeServerMessage :: "schema_check \<Rightarrow> js_value \<Rightarrow> int option \<Rightarrow> protocol_error + bytes" where
  "encodeServerMessage Check message options = encodeProtocolMessage message (parseServerMessage Check) ''server'' options"

section \<open>Decoding\<close>

text \<open>The class \<open>ValidatedMessageDecoder\<close>; its \<open>parse\<close> field is an argument of the operations.\<close>

record message_decoder =
  failed :: bool
  frames :: frame_decoder
  kind :: string
  frameLimit :: int

definition new_message_decoder :: "string \<Rightarrow> int option \<Rightarrow> frame_error + message_decoder" where
  "new_message_decoder k options =
     bindR (new_decoder options) (\<lambda>d. Inr \<lparr>failed = False, frames = d, kind = k, frameLimit = frame_limit options\<rparr>)"

definition decode_message :: "(js_value \<Rightarrow> protocol_error + js_value) \<Rightarrow> int \<Rightarrow> bytes \<Rightarrow> thrown + js_value" where
  "decode_message parse mx frame =
     bindR (throwing ThrownCbor (decodeCbor frame (byte_limit mx))) (\<lambda>v. throwing ThrownProtocol (parse v))"

definition decode_messages :: "(js_value \<Rightarrow> protocol_error + js_value) \<Rightarrow> int \<Rightarrow> bytes list \<Rightarrow> thrown + js_value list" where
  "decode_messages parse mx fs =
     foldR (\<lambda>messages frame. bindR (decode_message parse mx frame) (\<lambda>m. Inr (messages @ [m]))) [] fs"

definition push_message ::
    "(js_value \<Rightarrow> protocol_error + js_value) \<Rightarrow> message_decoder \<Rightarrow> bytes
      \<Rightarrow> (message_decoder \<times> (protocol_error + js_value list)) option" where
  "push_message parse d chunk =
     (if failed d then Some (d, Inl (ProtocolValidationError (kind d @ '' message decoder has failed'')))
      else map_option (\<lambda>(fd, r).
             case bindR (throwing ThrownFrame r) (decode_messages parse (frameLimit d)) of
               Inl e \<Rightarrow> (d\<lparr>frames := fd, failed := True\<rparr>,
                          Inl (wrap_error (''Invalid '' @ kind d @ '' protocol frame: '') e))
             | Inr messages \<Rightarrow> (d\<lparr>frames := fd\<rparr>, Inr messages))
           (push (frames d) chunk))"

definition end_message :: "message_decoder \<Rightarrow> message_decoder \<times> (protocol_error + unit)" where
  "end_message d =
     (if failed d then (d, Inl (ProtocolValidationError (kind d @ '' message decoder has failed'')))
      else case end_decoder (frames d) of
        (fd, Inl e) \<Rightarrow>
          (d\<lparr>frames := fd, failed := True\<rparr>,
           Inl (ProtocolValidationError (''Invalid '' @ kind d @ '' protocol framing: '' @ boundedErrorMessage (ThrownFrame e))))
      | (fd, Inr u) \<Rightarrow> (d\<lparr>frames := fd\<rparr>, Inr ()))"

definition createClientMessageDecoder :: "int option \<Rightarrow> frame_error + message_decoder" where
  "createClientMessageDecoder options = new_message_decoder ''client'' options"

definition createServerMessageDecoder :: "int option \<Rightarrow> frame_error + message_decoder" where
  "createServerMessageDecoder options = new_message_decoder ''server'' options"

definition client_push ::
    "schema_check \<Rightarrow> message_decoder \<Rightarrow> bytes \<Rightarrow> (message_decoder \<times> (protocol_error + js_value list)) option" where
  "client_push Check d chunk = push_message (parseClientMessage Check) d chunk"

definition server_push ::
    "schema_check \<Rightarrow> message_decoder \<Rightarrow> bytes \<Rightarrow> (message_decoder \<times> (protocol_error + js_value list)) option" where
  "server_push Check d chunk = push_message (parseServerMessage Check) d chunk"

definition PROTOCOL_VERSION :: int where "PROTOCOL_VERSION = 1"

definition isSupportedProtocolVersion :: "js_number \<Rightarrow> bool" where
  "isSupportedProtocolVersion version = (case version of JInt i \<Rightarrow> i = PROTOCOL_VERSION | _ \<Rightarrow> False)"

section \<open>A serialiser as an interface\<close>

text \<open>What the codec needs of the serialisation below it: what was written is read back, up to the
  representative that the serialiser keeps.\<close>

locale serializer =
  fixes ser :: "'v \<Rightarrow> 'e + bytes" and deser :: "bytes \<Rightarrow> 'e + 'v" and rep :: "'v \<Rightarrow> 'v" and ok :: "'v \<Rightarrow> bool"
  assumes deser_ser: "ser v = Inr b \<Longrightarrow> ok v \<Longrightarrow> deser b = Inr (rep v)"
begin

lemma ser_inject: "ser v = Inr b \<Longrightarrow> ser u = Inr b \<Longrightarrow> ok v \<Longrightarrow> ok u \<Longrightarrow> rep v = rep u"
  using deser_ser [of v b] deser_ser [of u b] by simp

lemma deser_all:
  assumes "list_all2 (\<lambda>v b. ser v = Inr b) vs bs" and "\<forall>v\<in>set vs. ok v"
  shows "list_all2 (\<lambda>b v. deser b = Inr v) bs (map rep vs)"
  using assms by (induction rule: list_all2_induct) (auto intro: deser_ser)

end

interpretation cbor: serializer "\<lambda>v. encodeCbor v options" "\<lambda>b. decodeCbor b options" normal wf_value for options
  by unfold_locales (rule decodeCbor_encodeCbor(1))

section \<open>Sequences of chunks and of messages\<close>

fun push_messages ::
    "(js_value \<Rightarrow> protocol_error + js_value) \<Rightarrow> message_decoder \<Rightarrow> bytes list
      \<Rightarrow> (message_decoder \<times> (protocol_error + js_value list)) option" where
  "push_messages parse d [] = Some (d, Inr [])"
| "push_messages parse d (c # cs) =
     (case push_message parse d c of
        None \<Rightarrow> None
      | Some (d', Inl e) \<Rightarrow> Some (d', Inl e)
      | Some (d', Inr ms) \<Rightarrow>
          (case push_messages parse d' cs of
             None \<Rightarrow> None
           | Some (d'', Inl e) \<Rightarrow> Some (d'', Inl e)
           | Some (d'', Inr ns) \<Rightarrow> Some (d'', Inr (ms @ ns))))"

lemma throwing_Inr [simp]: "throwing t m = Inr a \<longleftrightarrow> m = Inr a"
  by (simp add: throwing_def split: sum.splits)

lemma decode_messages_iff:
  "decode_messages parse mx fs = Inr ms \<longleftrightarrow> list_all2 (\<lambda>f m. decode_message parse mx f = Inr m) fs ms"
  by (simp add: decode_messages_def foldR_collect)

lemma push_message_ok:
  assumes "\<not> failed d" and "push (frames d) c = Some (fd, Inr fs)" and "decode_messages parse (frameLimit d) fs = Inr ms"
  shows "push_message parse d c = Some (d\<lparr>frames := fd\<rparr>, Inr ms)"
  using assms by (simp add: push_message_def throwing_def)

text \<open>When the frame decoder delivers frames that decode, the message decoder delivers the messages.\<close>

lemma push_messages_ok:
  assumes "push_all (frames d) cs = Some (fd, Inr fs)" and "\<not> failed d"
    and "list_all2 (\<lambda>f m. decode_message parse (frameLimit d) f = Inr m) fs ms"
  shows "push_messages parse d cs = Some (d\<lparr>frames := fd\<rparr>, Inr ms)"
  using assms
proof (induction cs arbitrary: d fs ms)
  case Nil
  then show ?case by (cases d) auto
next
  case (Cons c cs)
  from Cons.prems(1) obtain d1 fs1 fs2 where p: "push (frames d) c = Some (d1, Inr fs1)"
    and q: "push_all d1 cs = Some (fd, Inr fs2)" and fs: "fs = fs1 @ fs2"
    by (auto split: option.splits sum.splits)
  from Cons.prems(3) fs obtain ms1 ms2 where ms: "ms = ms1 @ ms2"
    "list_all2 (\<lambda>f m. decode_message parse (frameLimit d) f = Inr m) fs1 ms1"
    "list_all2 (\<lambda>f m. decode_message parse (frameLimit d) f = Inr m) fs2 ms2"
    by (auto simp: list_all2_append1)
  have "push_message parse d c = Some (d\<lparr>frames := d1\<rparr>, Inr ms1)"
    using push_message_ok [OF Cons.prems(2) p] ms(2) by (simp add: decode_messages_iff)
  moreover have "push_messages parse (d\<lparr>frames := d1\<rparr>) cs = Some ((d\<lparr>frames := d1\<rparr>)\<lparr>frames := fd\<rparr>, Inr ms2)"
    using Cons.IH [of "d\<lparr>frames := d1\<rparr>" fs2 ms2] q ms(3) Cons.prems(2) by simp
  ultimately show ?case using ms(1) by simp
qed

section \<open>The two ends of a connection\<close>

lemma parse_client_iff:
  "parseClientMessage Check v = Inr m \<longleftrightarrow> m = v \<and> isProtocolValue v False \<and> Check ClientMessageSchema v"
  by (auto simp: parseClientMessage_def)

lemma parse_server_iff:
  "parseServerMessage Check v = Inr m \<longleftrightarrow> m = v \<and> isProtocolValue v False \<and> Check ServerMessageSchema v"
  by (auto simp: parseServerMessage_def)

text \<open>A value stays a protocol value when its undefined properties are removed.\<close>

lemma isProtocolValue_normal: "isProtocolValue v b \<Longrightarrow> isProtocolValue (normal v) b"
proof (induction v b rule: isProtocolValue.induct)
  case (8 vs b)
  have "normal v = JHole \<or> isProtocolValue (normal v) False" if v: "v \<in> set vs" for v
    using "8.IH" [OF v] "8.prems" v by (cases "v = JHole") (auto simp: list_all_iff normal.simps [of JHole])
  then show ?case by (simp add: list_all_iff)
next
  case (9 sy es b)
  then show ?case by (auto simp: list_all_iff defined_entries_def split_beta)
qed (simp_all add: normal.simps)

lemma byte_limit_resolved:
  "resolveOptions (byte_limit n) = Inr opts \<Longrightarrow> 0 \<le> n \<and> maxByteLength opts = nat n"
  by (auto simp: resolveOptions_def byte_limit_def or_default_def resolveLimit_def bindR_Inr_iff split: if_splits)

lemma new_message_decoder_elim:
  assumes "new_message_decoder k options = Inr d"
  shows "\<not> failed d" "frameLimit d = frame_limit options" "new_decoder options = Inr (frames d)" "kind d = k"
    "maxFrameLength (frames d) = nat (frame_limit options)"
  using assms
  by (auto simp: new_message_decoder_def bindR_Inr_iff new_decoder_def resolveMaxFrameLength_def frame_limit_def Let_def
      split: if_splits)

lemma encodeProtocolMessage_elim:
  assumes "encodeProtocolMessage v parse k options = Inr frame"
  obtains m payload where "parse v = Inr m" "encodeCbor m (byte_limit (frame_limit options)) = Inr payload"
    "encodeFrame payload = Inr frame"
proof -
  from assms obtain m where m: "parse v = Inr m" "encode_validated m (frame_limit options) = Inr frame"
    by (cases "parse v"; cases "encode_validated (projr (parse v)) (frame_limit options)")
      (auto simp: encodeProtocolMessage_def)
  from m(2) show ?thesis unfolding encode_validated_def by (auto simp: bindR_Inr_iff intro: that [OF m(1)])
qed

lemma encoded_message:
  assumes "encodeProtocolMessage v parse k options = Inr frame" and "parse v = Inr v" and "wf_value v"
    and "parse (normal v) = Inr (normal v)"
  shows "\<exists>payload. frame = frame_of payload \<and> length payload \<le> nat (frame_limit options)
    \<and> decode_message parse (frame_limit options) payload = Inr (normal v)"
proof -
  from assms(1,2) obtain payload where p: "encodeCbor v (byte_limit (frame_limit options)) = Inr payload"
    "encodeFrame payload = Inr frame"
    by (elim encodeProtocolMessage_elim) auto
  have "frame = frame_of payload" using p(2) by (auto simp: encodeFrame_def frame_of_def split: if_splits)
  moreover have "length payload \<le> nat (frame_limit options)"
    using decodeCbor_encodeCbor(2) [OF p(1) assms(3)] byte_limit_resolved by auto
  moreover have "decode_message parse (frame_limit options) payload = Inr (normal v)"
    using cbor.deser_ser [OF p(1) assms(3)] assms(4) by (simp add: decode_message_def throwing_def)
  ultimately show ?thesis by blast
qed

lemma encoded_messages:
  assumes "list_all2 (\<lambda>v f. encodeProtocolMessage v parse k options = Inr f) vs fs"
    and "\<forall>v\<in>set vs. parse v = Inr v \<and> wf_value v \<and> parse (normal v) = Inr (normal v)"
  shows "\<exists>ps. fs = map frame_of ps \<and> (\<forall>p\<in>set ps. length p \<le> nat (frame_limit options))
    \<and> list_all2 (\<lambda>p m. decode_message parse (frame_limit options) p = Inr m) ps (map normal vs)"
  using assms
proof (induction rule: list_all2_induct)
  case Nil
  then show ?case by simp
next
  case (Cons v vs f fs)
  from encoded_message [OF Cons.hyps(1)] Cons.prems obtain p where "f = frame_of p"
    "length p \<le> nat (frame_limit options)" "decode_message parse (frame_limit options) p = Inr (normal v)"
    by auto
  moreover from Cons.IH Cons.prems obtain ps where "fs = map frame_of ps"
    "\<forall>p\<in>set ps. length p \<le> nat (frame_limit options)"
    "list_all2 (\<lambda>p m. decode_message parse (frame_limit options) p = Inr m) ps (map normal vs)"
    by auto
  ultimately show ?case by (intro exI [of _ "p # ps"]) simp
qed

lemma messages_arrive:
  assumes "new_message_decoder k options = Inr d"
    and "list_all2 (\<lambda>v f. encodeProtocolMessage v parse k options = Inr f) vs fs"
    and "\<forall>v\<in>set vs. parse v = Inr v \<and> wf_value v \<and> parse (normal v) = Inr (normal v)"
    and "concat chunks = concat fs"
  shows "\<exists>d'. push_messages parse d chunks = Some (d', Inr (map normal vs)) \<and> snd (end_message d') = Inr ()"
proof -
  note d = new_message_decoder_elim [OF assms(1)]
  obtain ps where ps: "fs = map frame_of ps" "\<forall>p\<in>set ps. length p \<le> maxFrameLength (frames d)"
    "list_all2 (\<lambda>p m. decode_message parse (frameLimit d) p = Inr m) ps (map normal vs)"
    using encoded_messages [OF assms(2,3)] d by auto
  have wf: "wf_decoder (frames d)" "buffered (frames d) = []" using new_decoder_wf [OF d(3)] by auto
  have "parse_stream (maxFrameLength (frames d)) (concat chunks) = Some (ps, [])"
    using parse_frames [OF ps(2)] wf(1) assms(4) ps(1) by (simp add: wf_decoder_def)
  then obtain fd where fd: "push_all (frames d) chunks = Some (fd, Inr ps)" "wf_decoder fd" "buffered fd = []"
    using push_all_spec [OF wf(1), of chunks] wf(2) by auto
  have "expectedPayloadLength fd = None" "headerLength fd = 0"
    using fd(2,3) by (auto simp: wf_decoder_def buffered_def split: option.splits)
  then have "snd (end_message (d\<lparr>frames := fd\<rparr>)) = Inr ()"
    using fd(2) d(1) by (simp add: end_message_def end_decoder_def wf_decoder_def)
  then show ?thesis using push_messages_ok [OF fd(1) d(1) ps(3)] by blast
qed

text \<open>C27: Client messages that were validated and encoded one by one, sent over a transport that cuts the
  bytes anywhere, come out of the client message decoder in the same order and unchanged (less undefined
  properties), and the decoder then accepts the end of the stream. The schema must accept each message
  without its undefined properties too, which is what is sent.\<close>

theorem client_messages_roundtrip:
  assumes "createClientMessageDecoder options = Inr d"
    and "list_all2 (\<lambda>m f. encodeClientMessage Check m options = Inr f) ms fs"
    and "\<forall>m\<in>set ms. wf_value m \<and> Check ClientMessageSchema (normal m)"
    and "concat chunks = concat fs"
  shows "\<exists>d'. push_messages (parseClientMessage Check) d chunks = Some (d', Inr (map normal ms))
    \<and> snd (end_message d') = Inr ()"
proof -
  have enc: "list_all2 (\<lambda>v f. encodeProtocolMessage v (parseClientMessage Check) ''client'' options = Inr f) ms fs"
    using assms(2) by (simp add: encodeClientMessage_def)
  have "parseClientMessage Check m = Inr m" if "m \<in> set ms" for m
  proof -
    from enc that obtain f where "encodeProtocolMessage m (parseClientMessage Check) ''client'' options = Inr f"
      by (auto simp: list_all2_conv_all_nth in_set_conv_nth)
    then show ?thesis by (rule encodeProtocolMessage_elim) (simp add: parse_client_iff)
  qed
  then have "\<forall>v\<in>set ms. parseClientMessage Check v = Inr v \<and> wf_value v
      \<and> parseClientMessage Check (normal v) = Inr (normal v)"
    using assms(3) isProtocolValue_normal by (auto simp: parse_client_iff)
  then show ?thesis using messages_arrive [OF _ enc _ assms(4)] assms(1) by (simp add: createClientMessageDecoder_def)
qed

definition demo_schema :: schema_check where
  "demo_schema s v = (case v of JArray _ \<Rightarrow> True | _ \<Rightarrow> False)"

lemma demo_payload: "encodeCbor (JArray [JBool True]) (byte_limit 16) = Inr [129, 245]"
proof -
  have "resolveOptions (byte_limit 16) = Inr \<lparr>maxByteLength = 16, maxContainerLength = 1000000, maxDepth = 64\<rparr>"
    by (simp add: resolveOptions_def byte_limit_def or_default_def resolveLimit_def
        DEFAULT_MAX_CBOR_CONTAINER_LENGTH_def DEFAULT_MAX_CBOR_DEPTH_def CBOR_MAX_UINT32_def MAX_CONFIGURED_DEPTH_def)
  then show ?thesis by (simp add: encode_eval demo_buffer)
qed

lemma demo_frame: "encodeClientMessage demo_schema (JArray [JBool True]) (Some 16) = Inr [0, 0, 0, 2, 129, 245]"
  by (simp add: encodeClientMessage_def encodeProtocolMessage_def parseClientMessage_def demo_schema_def
      encode_validated_def frame_limit_def demo_payload throwing_def encodeFrame_def FRAME_MAX_UINT32_def be32_def
      assertCompleteFrame_def FRAME_HEADER_LENGTH_def of_be32_def resolveMaxFrameLength_def)

lemma demo_decoder_exists: "\<exists>d. createClientMessageDecoder (Some 16) = Inr d"
  by (simp add: createClientMessageDecoder_def new_message_decoder_def new_decoder_def resolveMaxFrameLength_def
      FRAME_MAX_UINT32_def)

theorem client_messages_roundtrip_witness:
  "\<exists>d d'. createClientMessageDecoder (Some 16) = Inr d
    \<and> push_messages (parseClientMessage demo_schema) d [[0, 0], [0, 2, 129], [245]] = Some (d', Inr [JArray [JBool True]])
    \<and> snd (end_message d') = Inr ()"
proof -
  obtain d where d: "createClientMessageDecoder (Some 16) = Inr d" using demo_decoder_exists by blast
  have "list_all2 (\<lambda>m f. encodeClientMessage demo_schema m (Some 16) = Inr f) [JArray [JBool True]] [[0, 0, 0, 2, 129, 245]]"
    by (simp add: demo_frame)
  from client_messages_roundtrip [OF d this, of "[[0, 0], [0, 2, 129], [245]]"] d show ?thesis
    by (simp add: demo_schema_def)
qed

section \<open>What a decoder can deliver\<close>

definition message_inv :: "message_decoder \<Rightarrow> bool" where
  "message_inv d \<longleftrightarrow> failed d \<or> wf_decoder (frames d)"

text \<open>Every push returns. It delivers messages that the parser accepted, or marks the decoder as failed.\<close>

lemma push_message_total:
  assumes "message_inv d"
  shows "\<exists>d' r. push_message parse d c = Some (d', r) \<and> message_inv d' \<and> frameLimit d' = frameLimit d \<and>
    (case r of Inl e \<Rightarrow> failed d'
     | Inr ms \<Rightarrow> \<forall>m\<in>set ms. \<exists>f. decode_message parse (frameLimit d) f = Inr m)"
proof (cases "failed d")
  case True
  then show ?thesis using assms by (simp add: push_message_def)
next
  case False
  then have wf: "wf_decoder (frames d)" using assms by (simp add: message_inv_def)
  obtain fd r where p: "push (frames d) c = Some (fd, r)"
    and q: "\<And>fs. r = Inr fs \<Longrightarrow> wf_decoder fd"
    using push_spec [OF wf, of c] unfolding push_agrees_def by (auto split: option.splits)
  show ?thesis
  proof (cases "bindR (throwing ThrownFrame r) (decode_messages parse (frameLimit d))")
    case (Inl e)
    then show ?thesis using False p by (simp add: push_message_def message_inv_def)
  next
    case (Inr ms)
    then obtain fs where fs: "r = Inr fs" "decode_messages parse (frameLimit d) fs = Inr ms"
      by (auto simp: bindR_Inr_iff)
    then have "\<forall>m\<in>set ms. \<exists>f. decode_message parse (frameLimit d) f = Inr m"
      by (auto simp: decode_messages_iff list_all2_conv_all_nth in_set_conv_nth, blast)
    then show ?thesis using push_message_ok [OF False] p q fs False by (simp add: message_inv_def)
  qed
qed

lemma push_messages_total:
  assumes "message_inv d"
  shows "\<exists>d' r. push_messages parse d cs = Some (d', r) \<and> message_inv d' \<and>
    (case r of Inl e \<Rightarrow> failed d'
     | Inr ms \<Rightarrow> \<forall>m\<in>set ms. \<exists>f. decode_message parse (frameLimit d) f = Inr m)"
  using assms
proof (induction cs arbitrary: d)
  case Nil
  then show ?case by simp
next
  case (Cons c cs)
  from push_message_total [OF Cons.prems] obtain d1 r1 where p: "push_message parse d c = Some (d1, r1)"
    "message_inv d1" "frameLimit d1 = frameLimit d"
    and r1: "case r1 of Inl e \<Rightarrow> failed d1 | Inr ms \<Rightarrow> \<forall>m\<in>set ms. \<exists>f. decode_message parse (frameLimit d) f = Inr m"
    by blast
  from Cons.IH [OF p(2)] obtain d2 r2 where q: "push_messages parse d1 cs = Some (d2, r2)" "message_inv d2"
    and r2: "case r2 of Inl e \<Rightarrow> failed d2 | Inr ms \<Rightarrow> \<forall>m\<in>set ms. \<exists>f. decode_message parse (frameLimit d) f = Inr m"
    unfolding p(3) by blast
  show ?case using p q r1 r2 by (cases r1; cases r2) auto
qed

lemma decode_message_valid:
  assumes "decode_message (parseClientMessage Check) mx f = Inr m"
  shows "isProtocolValue m False \<and> Check ClientMessageSchema m \<and> wf_value m"
proof -
  from assms have m: "decodeCbor f (byte_limit mx) = Inr m" "isProtocolValue m False" "Check ClientMessageSchema m"
    by (auto simp: decode_message_def bindR_Inr_iff parse_client_iff)
  from m(1) have "\<exists>opts r. readItem opts (maxDepth opts + 1) f = Inr (m, r)"
    by (auto simp: decodeCbor_def bindR_Inr_iff)
  then show ?thesis using m readItem_fits by blast
qed

text \<open>C34: Whatever bytes a peer sends, in whatever chunks, a client message decoder returns: either it
  delivers messages that are well-formed protocol values and satisfy the client schema, or it reports an
  error and has failed, and then every later push and the end of the stream are errors too.\<close>

theorem client_decoder_safe:
  assumes "createClientMessageDecoder options = Inr d"
  shows "\<exists>d' r. push_messages (parseClientMessage Check) d chunks = Some (d', r) \<and>
    (case r of
       Inr ms \<Rightarrow> \<forall>m\<in>set ms. isProtocolValue m False \<and> Check ClientMessageSchema m \<and> wf_value m
     | Inl e \<Rightarrow> (\<forall>chunk. client_push Check d' chunk
           = Some (d', Inl (ProtocolValidationError (kind d' @ '' message decoder has failed''))))
         \<and> (\<exists>e'. end_message d' = (d', Inl e')))"
proof -
  have "message_inv d"
    using new_message_decoder_elim [OF assms [unfolded createClientMessageDecoder_def]] new_decoder_wf
    by (auto simp: message_inv_def)
  from push_messages_total [OF this, of "parseClientMessage Check" chunks]
  obtain d' r where r: "push_messages (parseClientMessage Check) d chunks = Some (d', r)"
    "case r of Inl e \<Rightarrow> failed d'
     | Inr ms \<Rightarrow> \<forall>m\<in>set ms. \<exists>f. decode_message (parseClientMessage Check) (frameLimit d) f = Inr m"
    by blast
  then show ?thesis
    by (cases r) (auto simp: client_push_def push_message_def end_message_def dest: decode_message_valid)
qed

theorem client_decoder_safe_witness:
  "\<exists>d d' r. createClientMessageDecoder (Some 16) = Inr d \<and>
    push_messages (parseClientMessage demo_schema) d [[0, 0, 1], [0, 7]] = Some (d', r)"
  using client_decoder_safe demo_decoder_exists by blast

end
