(* ===== verification/Js_Text.thy ===== *)
theory Js_Text
  imports Utf8
begin

text \<open>
  The string operations of JavaScript that the text tools use: \<open>split\<close> and \<open>join\<close> at one character,
  and the number of bytes of a string in UTF-8, which adds up along the lines of a text.
\<close>

section \<open>Splitting and joining\<close>

definition LF :: "16 word" where "LF = 10"
definition CR :: "16 word" where "CR = 13"

text \<open>\<open>s.split(c)\<close> for a string of one code unit, and \<open>lines.join(c)\<close>.\<close>

fun split_on :: "'a \<Rightarrow> 'a list \<Rightarrow> 'a list list" where
  "split_on c [] = [[]]"
| "split_on c (x # xs) =
     (if x = c then [] # split_on c xs
      else case split_on c xs of [] \<Rightarrow> [[x]] | l # ls \<Rightarrow> (x # l) # ls)"

fun join_on :: "'a \<Rightarrow> 'a list list \<Rightarrow> 'a list" where
  "join_on c [] = []"
| "join_on c [l] = l"
| "join_on c (l # m # ls) = l @ c # join_on c (m # ls)"

lemma split_on_nonempty [simp]: "split_on c xs \<noteq> []"
  by (induction xs) (auto split: list.splits)

lemma split_on_length [simp]: "0 < length (split_on c xs)"
  by simp

lemma join_on_Cons: "join_on c (l # ls) = l @ (if ls = [] then [] else c # join_on c ls)"
  by (cases ls) auto

lemma join_split [simp]: "join_on c (split_on c xs) = xs"
proof (induction xs)
  case (Cons x xs)
  then show ?case by (cases "split_on c xs") (auto simp: join_on_Cons)
qed simp

lemma split_on_pieces: "l \<in> set (split_on c xs) \<Longrightarrow> c \<notin> set l"
proof (induction xs arbitrary: l)
  case (Cons x xs)
  then show ?case by (cases "split_on c xs") (auto split: if_splits)
qed simp

lemma split_no_sep: "c \<notin> set l \<Longrightarrow> split_on c l = [l]"
  by (induction l) auto

lemma split_append_sep: "c \<notin> set l \<Longrightarrow> split_on c (l @ c # xs) = l # split_on c xs"
  by (induction l) auto

lemma split_join: "ls \<noteq> [] \<Longrightarrow> \<forall>l\<in>set ls. c \<notin> set l \<Longrightarrow> split_on c (join_on c ls) = ls"
  by (induction c ls rule: join_on.induct) (auto simp: split_no_sep split_append_sep)

lemma join_on_append:
  "join_on c (ls @ ms) = (if ls = [] then join_on c ms else if ms = [] then join_on c ls
     else join_on c ls @ c # join_on c ms)"
  by (induction ls) (auto simp: join_on_Cons)

section \<open>White space\<close>

text \<open>The white space and line terminators that \<open>trim\<close> and \<open>trimEnd\<close> remove and \<open>\s\<close> matches.\<close>

definition js_space :: "16 word \<Rightarrow> bool" where
  "js_space c =
     (let n = uint c in 9 \<le> n \<and> n \<le> 13 \<or> n = 32 \<or> n = 0xA0 \<or> n = 0x1680 \<or> 0x2000 \<le> n \<and> n \<le> 0x200A
        \<or> n = 0x2028 \<or> n = 0x2029 \<or> n = 0x202F \<or> n = 0x205F \<or> n = 0x3000 \<or> n = 0xFEFF)"

text \<open>The line terminators: where \<open>node:readline\<close> ends a line, and what \<open>.\<close> does not match.\<close>

definition line_terminator :: "16 word \<Rightarrow> bool" where
  "line_terminator c = (c = LF \<or> c = CR \<or> c = 0x2028 \<or> c = 0x2029)"

definition trimEnd :: "js_string \<Rightarrow> js_string" where
  "trimEnd s = rev (dropWhile js_space (rev s))"

definition js_trim :: "js_string \<Rightarrow> js_string" where
  "js_trim s = trimEnd (dropWhile js_space s)"

section \<open>Bytes of a text\<close>

definition utf8_length :: "js_string \<Rightarrow> nat" where
  "utf8_length s = length (text_encode s)"

definition surrogate :: "16 word \<Rightarrow> bool" where
  "surrogate c = (is_high (unat c) \<or> is_low (unat c))"

text \<open>A string may be cut where no surrogate pair is cut.\<close>

definition splits_pair :: "js_string \<Rightarrow> js_string \<Rightarrow> bool" where
  "splits_pair s t = (s \<noteq> [] \<and> t \<noteq> [] \<and> is_high (unat (last s)) \<and> is_low (unat (hd t)))"

lemma scalar_values_append:
  "\<not> splits_pair s t \<Longrightarrow> scalar_values (s @ t) = scalar_values s @ scalar_values t"
proof (induction s rule: scalar_values.induct)
  case (2 c)
  then show ?case by (cases t) (auto simp: splits_pair_def is_high_def is_low_def)
next
  case (3 c d ds)
  have "\<not> splits_pair (d # ds) t" "is_low (unat d) \<Longrightarrow> \<not> splits_pair ds t"
    using "3.prems" by (auto simp: splits_pair_def is_high_def is_low_def split: if_splits)
  then show ?case using 3 by auto
qed simp

lemma text_encode_append: "\<not> splits_pair s t \<Longrightarrow> text_encode (s @ t) = text_encode s @ text_encode t"
  by (simp add: text_encode_def scalar_values_append)

lemma utf8_length_append: "\<not> splits_pair s t \<Longrightarrow> utf8_length (s @ t) = utf8_length s + utf8_length t"
  by (simp add: utf8_length_def text_encode_append)

lemma utf8_length_Nil [simp]: "utf8_length [] = 0"
  by (simp add: utf8_length_def text_encode_def)

lemma utf8_length_LF [simp]: "utf8_length [LF] = 1"
  by (simp add: utf8_length_def text_encode_def LF_def is_high_def is_low_def utf8_bytes_def)

lemma not_splits_LF [simp]: "\<not> splits_pair s (LF # t)" "\<not> splits_pair [LF] t"
  by (simp_all add: splits_pair_def LF_def is_low_def is_high_def)

lemma utf8_length_line: "utf8_length (s @ LF # t) = utf8_length s + 1 + utf8_length t"
  using utf8_length_append [of s "LF # t"] utf8_length_append [of "[LF]" t] by simp

text \<open>The bytes of lines joined by line feeds.\<close>

definition lines_length :: "js_string list \<Rightarrow> nat" where
  "lines_length ls = utf8_length (join_on LF ls)"

lemma lines_length_Nil [simp]: "lines_length [] = 0"
  by (simp add: lines_length_def)

lemma lines_length_Cons: "lines_length (l # ls) = utf8_length l + (if ls = [] then 0 else 1 + lines_length ls)"
  by (simp add: lines_length_def join_on_Cons utf8_length_line)

lemma lines_length_snoc: "lines_length (ls @ [l]) = lines_length ls + (if ls = [] then 0 else 1) + utf8_length l"
  by (simp add: lines_length_def join_on_append utf8_length_line)

lemma lines_length_append_le: "lines_length ls \<le> lines_length (ls @ ms)" "lines_length ms \<le> lines_length (ls @ ms)"
  by (simp_all add: lines_length_def join_on_append utf8_length_line)

end
