(* ===== verification/Truncate.thy ===== *)
theory Truncate
  imports Js_Text
begin

text \<open>
  The truncation of tool output, \<open>agent/src/harness/utils/truncate.ts\<close>. Strings are UTF-16, sizes are
  counted in UTF-8 bytes. Limits are natural numbers. Whether the runtime has Node's \<open>Buffer\<close> is the
  first argument of the byte counter; both ways of counting agree, so the other operations, which do not
  depend on it, take the same argument.
\<close>

section \<open>Counting bytes and lines\<close>

definition DEFAULT_MAX_LINES :: nat where "DEFAULT_MAX_LINES = 2000"
definition DEFAULT_MAX_BYTES :: nat where "DEFAULT_MAX_BYTES = 50 * 1024"
definition GREP_MAX_LINE_LENGTH :: nat where "GREP_MAX_LINE_LENGTH = 500"

datatype truncated_by = ByLines | ByBytes

record truncation_result =
  content :: js_string
  truncated :: bool
  truncatedBy :: "truncated_by option"
  totalLines :: nat
  totalBytes :: nat
  outputLines :: nat
  outputBytes :: nat
  lastLinePartial :: bool
  firstLineExceedsLimit :: bool
  maxLines :: nat
  maxBytes :: nat

record truncation_options =
  opt_maxLines :: "nat option"
  opt_maxBytes :: "nat option"

text \<open>The loop of the byte counter from index \<open>i\<close> on.\<close>

function count_bytes :: "js_string \<Rightarrow> nat \<Rightarrow> nat \<Rightarrow> nat" where
  "count_bytes s i bytes =
     (if length s \<le> i then bytes
      else let code = unat (s ! i)
           in if code \<le> 0x7f then count_bytes s (i + 1) (bytes + 1)
              else if code \<le> 0x7ff then count_bytes s (i + 1) (bytes + 2)
              else if code \<ge> 0xd800 \<and> code \<le> 0xdbff \<and> i + 1 < length s then
                (let nxt = unat (s ! (i + 1))
                 in if nxt \<ge> 0xdc00 \<and> nxt \<le> 0xdfff then count_bytes s (i + 2) (bytes + 4)
                    else count_bytes s (i + 1) (bytes + 3))
              else count_bytes s (i + 1) (bytes + 3))"
  by pat_completeness auto
termination by (relation "measure (\<lambda>(s, i, _). length s - i)") auto

declare count_bytes.simps [simp del]

text \<open>\<open>Buffer.byteLength(s, "utf8")\<close> is the number of bytes that \<open>TextEncoder\<close> produces.\<close>

definition utf8ByteLength :: "bool \<Rightarrow> js_string \<Rightarrow> nat" where
  "utf8ByteLength runtimeBuffer s =
     (if runtimeBuffer then utf8_length s
      else let firstNonAscii = length (takeWhile (\<lambda>c. unat c \<le> 0x7f) s)
           in if firstNonAscii = length s then length s else count_bytes s firstNonAscii firstNonAscii)"

definition splitLinesForCounting :: "js_string \<Rightarrow> js_string list" where
  "splitLinesForCounting s =
     (if s = [] then []
      else let ls = split_on LF s in if last s = LF then butlast ls else ls)"

fun replaceUnpairedSurrogates :: "js_string \<Rightarrow> js_string" where
  "replaceUnpairedSurrogates [] = []"
| "replaceUnpairedSurrogates [c] = [if is_high (unat c) \<or> is_low (unat c) then 0xfffd else c]"
| "replaceUnpairedSurrogates (c # d # ds) =
     (if is_high (unat c) then
        (if is_low (unat d) then c # d # replaceUnpairedSurrogates ds
         else 0xfffd # replaceUnpairedSurrogates (d # ds))
      else (if is_low (unat c) then 0xfffd else c) # replaceUnpairedSurrogates (d # ds))"

text \<open>\<open>(x / d).toFixed(1)\<close> for a power of two \<open>d\<close>, where the division is exact: the nearest tenth,
  the larger one of two.\<close>

definition toFixed1 :: "nat \<Rightarrow> nat \<Rightarrow> string" where
  "toFixed1 x d = (let n = (20 * x + d) div (2 * d) in decimal (n div 10) @ ''.'' @ decimal (n mod 10))"

definition formatSize :: "nat \<Rightarrow> string" where
  "formatSize bytes =
     (if bytes < 1024 then decimal bytes @ ''B''
      else if bytes < 1024 * 1024 then toFixed1 bytes 1024 @ ''KB''
      else toFixed1 bytes (1024 * 1024) @ ''MB'')"

section \<open>Truncation at the end\<close>

definition limit_or :: "nat option \<Rightarrow> nat \<Rightarrow> nat" where
  "limit_or v d = (case v of None \<Rightarrow> d | Some n \<Rightarrow> n)"

definition untruncated :: "js_string \<Rightarrow> nat \<Rightarrow> nat \<Rightarrow> nat \<Rightarrow> nat \<Rightarrow> truncation_result" where
  "untruncated s nl tb ml mb =
     \<lparr>content = s, truncated = False, truncatedBy = None, totalLines = nl, totalBytes = tb, outputLines = nl,
      outputBytes = tb, lastLinePartial = False, firstLineExceedsLimit = False, maxLines = ml, maxBytes = mb\<rparr>"

text \<open>The loop over the lines from index \<open>i\<close> on: the lines that fit, their bytes, and whether the byte
  limit ended it.\<close>

fun head_loop :: "bool \<Rightarrow> nat \<Rightarrow> nat \<Rightarrow> js_string list \<Rightarrow> nat \<Rightarrow> js_string list \<Rightarrow> nat \<Rightarrow> js_string list \<times> nat \<times> truncated_by" where
  "head_loop buf ml mb [] i out outBytes = (out, outBytes, ByLines)"
| "head_loop buf ml mb (line # ls) i out outBytes =
     (if \<not> i < ml then (out, outBytes, ByLines)
      else let lineBytes = utf8ByteLength buf line + (if i > 0 then 1 else 0)
           in if outBytes + lineBytes > mb then (out, outBytes, ByBytes)
              else head_loop buf ml mb ls (i + 1) (out @ [line]) (outBytes + lineBytes))"

definition truncateHead :: "bool \<Rightarrow> js_string \<Rightarrow> truncation_options \<Rightarrow> truncation_result" where
  "truncateHead buf s options =
     (let ml = limit_or (opt_maxLines options) DEFAULT_MAX_LINES;
          mb = limit_or (opt_maxBytes options) DEFAULT_MAX_BYTES;
          tb = utf8ByteLength buf s; ls = splitLinesForCounting s; nl = length ls
      in if nl \<le> ml \<and> tb \<le> mb then untruncated s nl tb ml mb
         else if utf8ByteLength buf (ls ! 0) > mb then
           \<lparr>content = [], truncated = True, truncatedBy = Some ByBytes, totalLines = nl, totalBytes = tb, outputLines = 0,
            outputBytes = 0, lastLinePartial = False, firstLineExceedsLimit = True, maxLines = ml, maxBytes = mb\<rparr>
         else case head_loop buf ml mb ls 0 [] 0 of (out, outBytes, by) \<Rightarrow>
           let by' = (if length out \<ge> ml \<and> outBytes \<le> mb then ByLines else by); outContent = join_on LF out
           in \<lparr>content = outContent, truncated = True, truncatedBy = Some by', totalLines = nl, totalBytes = tb,
               outputLines = length out, outputBytes = utf8ByteLength buf outContent, lastLinePartial = False,
               firstLineExceedsLimit = False, maxLines = ml, maxBytes = mb\<rparr>)"

section \<open>Truncation at the start\<close>

text \<open>The character that ends before index \<open>i\<close>: its start, its bytes, and whether it is a lone
  surrogate.\<close>

definition char_before :: "js_string \<Rightarrow> nat \<Rightarrow> nat \<times> nat \<times> bool" where
  "char_before s i =
     (let characterStart = i - 1; code = unat (s ! characterStart)
      in if code \<ge> 0xdc00 \<and> code \<le> 0xdfff \<and> characterStart > 0 then
           (let previous = unat (s ! (characterStart - 1))
            in if previous \<ge> 0xd800 \<and> previous \<le> 0xdbff then (characterStart - 1, 4, False)
               else (characterStart, 3, True))
         else if code \<ge> 0xd800 \<and> code \<le> 0xdfff then (characterStart, 3, True)
         else (characterStart, if code \<le> 0x7f then 1 else if code \<le> 0x7ff then 2 else 3, False))"

lemma char_before_less: "char_before s i = (st, b, u) \<Longrightarrow> 0 < i \<Longrightarrow> st < i"
  by (auto simp: char_before_def Let_def split: if_splits)

text \<open>In the source \<open>start\<close> is \<open>i\<close> whenever the loop ends.\<close>

function end_loop :: "js_string \<Rightarrow> nat \<Rightarrow> nat \<Rightarrow> nat \<Rightarrow> bool \<Rightarrow> nat \<times> bool" where
  "end_loop s mb i outBytes needsReplacement =
     (if i = 0 then (i, needsReplacement)
      else case char_before s i of (characterStart, characterBytes, unpaired) \<Rightarrow>
        if outBytes + characterBytes > mb then (i, needsReplacement)
        else end_loop s mb characterStart (outBytes + characterBytes) (needsReplacement \<or> unpaired))"
  by pat_completeness auto
termination by (relation "measure (\<lambda>(_, _, i, _). i)") (auto dest: char_before_less [OF sym])

declare end_loop.simps [simp del]

definition truncateStringToBytesFromEnd :: "js_string \<Rightarrow> nat \<Rightarrow> js_string" where
  "truncateStringToBytesFromEnd s mb =
     (if mb = 0 then []
      else case end_loop s mb (length s) 0 False of (start, needsReplacement) \<Rightarrow>
        let out = drop start s in if needsReplacement then replaceUnpairedSurrogates out else out)"

text \<open>The loop over the lines from the last one back.\<close>

fun tail_loop ::
    "bool \<Rightarrow> nat \<Rightarrow> nat \<Rightarrow> js_string list \<Rightarrow> js_string list \<Rightarrow> nat \<Rightarrow> js_string list \<times> nat \<times> truncated_by \<times> bool" where
  "tail_loop buf ml mb [] out outBytes = (out, outBytes, ByLines, False)"
| "tail_loop buf ml mb (line # ls) out outBytes =
     (if \<not> length out < ml then (out, outBytes, ByLines, False)
      else let lineBytes = utf8ByteLength buf line + (if length out > 0 then 1 else 0)
           in if outBytes + lineBytes > mb then
                (if length out = 0
                 then (let truncatedLine = truncateStringToBytesFromEnd line mb
                       in ([truncatedLine], utf8ByteLength buf truncatedLine, ByBytes, True))
                 else (out, outBytes, ByBytes, False))
              else tail_loop buf ml mb ls (line # out) (outBytes + lineBytes))"

definition truncateTail :: "bool \<Rightarrow> js_string \<Rightarrow> truncation_options \<Rightarrow> truncation_result" where
  "truncateTail buf s options =
     (let ml = limit_or (opt_maxLines options) DEFAULT_MAX_LINES;
          mb = limit_or (opt_maxBytes options) DEFAULT_MAX_BYTES;
          tb = utf8ByteLength buf s; ls = splitLinesForCounting s; nl = length ls
      in if nl \<le> ml \<and> tb \<le> mb then untruncated s nl tb ml mb
         else case tail_loop buf ml mb (rev ls) [] 0 of (out, outBytes, by, lastPartial) \<Rightarrow>
           let by' = (if length out \<ge> ml \<and> outBytes \<le> mb then ByLines else by); outContent = join_on LF out
           in \<lparr>content = outContent, truncated = True, truncatedBy = Some by', totalLines = nl, totalBytes = tb,
               outputLines = length out, outputBytes = utf8ByteLength buf outContent, lastLinePartial = lastPartial,
               firstLineExceedsLimit = False, maxLines = ml, maxBytes = mb\<rparr>)"

definition truncateLine :: "js_string \<Rightarrow> nat option \<Rightarrow> js_string \<times> bool" where
  "truncateLine line maxChars =
     (let mc = limit_or maxChars GREP_MAX_LINE_LENGTH
      in if length line \<le> mc then (line, False) else (take mc line @ js ''... [truncated]'', True))"

section \<open>The byte counter\<close>

lemma utf8_length_unit: "utf8_length [c] = (if unat c \<le> 0x7f then 1 else if unat c \<le> 0x7ff then 2 else 3)"
  using unit_less [of c]
  by (auto simp: utf8_length_def text_encode_def utf8_bytes_def is_high_def is_low_def)

lemma utf8_length_pair:
  assumes "is_high (unat c)" "is_low (unat d)"
  shows "utf8_length (c # d # s) = 4 + utf8_length s"
  using assms by (simp add: utf8_length_def text_encode_def utf8_bytes_def)

lemma utf8_length_Cons:
  "\<not> (is_high (unat c) \<and> s \<noteq> [] \<and> is_low (unat (hd s))) \<Longrightarrow> utf8_length (c # s) = utf8_length [c] + utf8_length s"
  using utf8_length_append [of "[c]" s] by (auto simp: splits_pair_def)

lemma count_bytes_length: "count_bytes s i b = b + utf8_length (drop i s)"
proof (induction s i b rule: count_bytes.induct)
  case (1 s i b)
  show ?case
  proof (cases "length s \<le> i")
    case True
    then show ?thesis by (subst count_bytes.simps) simp
  next
    case False
    define c r where "c = s ! i" and "r = drop (Suc i) s"
    have d: "drop i s = c # r" using False by (simp add: c_def r_def Cons_nth_drop_Suc)
    have hd_r: "i + 1 < length s \<Longrightarrow> r = s ! (i + 1) # drop (i + 2) s"
      by (simp add: r_def Cons_nth_drop_Suc)
    have r0: "\<not> i + 1 < length s \<Longrightarrow> r = []" by (simp add: r_def)
    show ?thesis
    proof (cases "is_high (unat c) \<and> r \<noteq> [] \<and> is_low (unat (hd r))")
      case True
      then have len: "i + 1 < length s" using r0 by blast
      then have "utf8_length (c # r) = 4 + utf8_length (drop (i + 2) s)" using True hd_r utf8_length_pair by auto
      then show ?thesis
        using False True len hd_r "1.IH"(3) d
        by (subst count_bytes.simps) (auto simp: c_def is_high_def is_low_def Let_def)
    next
      case ne: False
      have "utf8_length (drop i s) = (if unat c \<le> 0x7f then 1 else if unat c \<le> 0x7ff then 2 else 3) + utf8_length r"
        unfolding d utf8_length_Cons [OF ne] utf8_length_unit ..
      then show ?thesis
        using False ne hd_r "1.IH"
        by (subst count_bytes.simps) (auto simp: c_def r_def is_high_def is_low_def Let_def)
    qed
  qed
qed

lemma ascii_length: "\<forall>c\<in>set s. unat c \<le> 0x7f \<Longrightarrow> utf8_length s = length s"
proof (induction s)
  case (Cons c s)
  then have "\<not> is_high (unat c)" by (auto simp: is_high_def)
  then show ?case using Cons utf8_length_Cons [of c s] by (simp add: utf8_length_unit)
qed simp

lemma utf8ByteLength_eq [simp]: "utf8ByteLength buf s = utf8_length s"
proof (cases buf)
  case False
  let ?p = "takeWhile (\<lambda>c. unat c \<le> 0x7f) s" and ?q = "dropWhile (\<lambda>c. unat c \<le> 0x7f) s"
  have p: "utf8_length ?p = length ?p" by (rule ascii_length) (auto dest: set_takeWhileD)
  have "\<not> splits_pair ?p ?q"
    using set_takeWhileD [of "last ?p" "\<lambda>c. unat c \<le> 0x7f" s] by (auto simp: splits_pair_def is_high_def)
  from utf8_length_append [OF this] have "utf8_length (?p @ ?q) = length ?p + utf8_length ?q" unfolding p .
  moreover have "?p @ ?q = s" by simp
  ultimately have "utf8_length s = length ?p + utf8_length (drop (length ?p) s)"
    by (simp only: dropWhile_eq_drop)
  moreover have "length ?p = length s \<Longrightarrow> drop (length ?p) s = []" by simp
  ultimately show ?thesis using False by (simp add: utf8ByteLength_def Let_def count_bytes_length)
qed (simp add: utf8ByteLength_def)

section \<open>The lines of a text\<close>

lemma split_snoc_sep: "split_on c (xs @ [c]) = split_on c xs @ [[]]"
  by (induction xs) (auto split: list.splits)

text \<open>The lines joined are the text, up to one line feed at its end.\<close>

lemma lines_join:
  "s = join_on LF (splitLinesForCounting s) @ (if s \<noteq> [] \<and> last s = LF then [LF] else [])"
proof (cases "s \<noteq> [] \<and> last s = LF")
  case True
  then obtain t where "s = t @ [LF]" by (metis append_butlast_last_id)
  then show ?thesis by (simp add: splitLinesForCounting_def split_snoc_sep)
next
  case False
  then show ?thesis by (auto simp: splitLinesForCounting_def)
qed

lemma join_cut:
  "join_on c ls = join_on c (take k ls) @ (if take k ls = [] \<or> drop k ls = [] then [] else [c]) @ join_on c (drop k ls)"
proof -
  have "join_on c (take k ls @ drop k ls)
      = join_on c (take k ls) @ (if take k ls = [] \<or> drop k ls = [] then [] else [c]) @ join_on c (drop k ls)"
    unfolding join_on_append by (simp del: take_eq_Nil drop_eq_Nil append_take_drop_id)
  then show ?thesis unfolding append_take_drop_id .
qed

lemma join_take_prefix: "\<exists>t. join_on c (take k ls) @ t = join_on c ls"
  by (rule exI) (rule join_cut [symmetric])

lemma join_drop_suffix: "\<exists>t. t @ join_on c (drop k ls) = join_on c ls"
  by (rule exI) (rule trans [OF append_assoc join_cut [symmetric]])

section \<open>What the loops keep\<close>

lemma head_loop_spec:
  assumes "head_loop buf ml mb ls (length out) out (lines_length out) = (res, b, by)" and "lines_length out \<le> mb"
    and "length out \<le> ml"
  shows "\<exists>k\<le>length ls. res = out @ take k ls \<and> b = lines_length res \<and> b \<le> mb \<and> length res \<le> ml
    \<and> (k < length ls \<longrightarrow> length res = ml \<or> mb < lines_length (res @ [ls ! k]))
    \<and> (by = ByBytes \<longrightarrow> k < length ls \<and> mb < lines_length (res @ [ls ! k]))"
  using assms
proof (induction ls arbitrary: out)
  case Nil
  then show ?case by auto
next
  case (Cons l ls)
  show ?case
  proof (cases "length out < ml \<and> lines_length (out @ [l]) \<le> mb")
    case True
    have "head_loop buf ml mb (l # ls) (length out) out (lines_length out)
        = head_loop buf ml mb ls (length (out @ [l])) (out @ [l]) (lines_length (out @ [l]))"
      using True by (auto simp: lines_length_snoc Let_def)
    with Cons.prems(1) have eq: "head_loop buf ml mb ls (length (out @ [l])) (out @ [l]) (lines_length (out @ [l])) = (res, b, by)"
      by (simp only:)
    have "lines_length (out @ [l]) \<le> mb" "length (out @ [l]) \<le> ml" using True by auto
    from Cons.IH [OF eq this] obtain k where "k \<le> length ls" "res = (out @ [l]) @ take k ls"
      "b = lines_length res \<and> b \<le> mb \<and> length res \<le> ml"
      "k < length ls \<longrightarrow> length res = ml \<or> mb < lines_length (res @ [ls ! k])"
      "by = ByBytes \<longrightarrow> k < length ls \<and> mb < lines_length (res @ [ls ! k])"
      by blast
    then show ?thesis by (intro exI [of _ "Suc k"]) auto
  next
    case False
    then have "res = out \<and> b = lines_length out \<and> (length out = ml \<or> mb < lines_length (out @ [l]))
        \<and> (by = ByBytes \<longrightarrow> mb < lines_length (out @ [l]))"
      using Cons.prems by (auto simp: lines_length_snoc Let_def split: if_splits)
    then show ?thesis using Cons.prems by (intro exI [of _ 0]) auto
  qed
qed

lemma tail_loop_spec:
  assumes "tail_loop buf ml mb rs out (lines_length out) = (res, b, by, part)" and "lines_length out \<le> mb"
    and "length out \<le> ml"
  shows "if part then out = [] \<and> rs \<noteq> [] \<and> mb < utf8_length (hd rs) \<and> res = [truncateStringToBytesFromEnd (hd rs) mb]
    else \<exists>k\<le>length rs. res = rev (take k rs) @ out \<and> b = lines_length res \<and> b \<le> mb \<and> length res \<le> ml
      \<and> (k < length rs \<longrightarrow> length res = ml \<or> mb < lines_length (rs ! k # res))"
  using assms
proof (induction rs arbitrary: out)
  case Nil
  then show ?case by auto
next
  case (Cons l rs)
  show ?case
  proof (cases "length out < ml \<and> lines_length (l # out) \<le> mb")
    case True
    have "tail_loop buf ml mb (l # rs) out (lines_length out) = tail_loop buf ml mb rs (l # out) (lines_length (l # out))"
      using True by (auto simp: lines_length_Cons Let_def add.commute)
    with Cons.prems(1) have eq: "tail_loop buf ml mb rs (l # out) (lines_length (l # out)) = (res, b, by, part)"
      by (simp only:)
    have "lines_length (l # out) \<le> mb" "length (l # out) \<le> ml" using True by auto
    from Cons.IH [OF eq this] have "if part then False
      else \<exists>k\<le>length rs. res = rev (take k rs) @ l # out \<and> b = lines_length res \<and> b \<le> mb \<and> length res \<le> ml
        \<and> (k < length rs \<longrightarrow> length res = ml \<or> mb < lines_length (rs ! k # res))"
      by (cases part) simp_all
    then obtain k where "\<not> part" "k \<le> length rs" "res = rev (take k rs) @ l # out" "b = lines_length res"
      "b \<le> mb" "length res \<le> ml" "k < length rs \<longrightarrow> length res = ml \<or> mb < lines_length (rs ! k # res)"
      by (cases part) (simp, metis)
    then show ?thesis by (simp, intro exI [of _ "Suc k"]) auto
  next
    case False
    then show ?thesis using Cons.prems
      by (cases "length out < ml"; cases "out = []")
        (auto simp: lines_length_Cons Let_def not_less intro!: exI [of _ 0])
  qed
qed

section \<open>The end of a string\<close>

lemma scalar_values_plain:
  "\<not> is_high (unat c) \<Longrightarrow> \<not> is_low (unat c) \<Longrightarrow> scalar_values (c # s) = unat c # scalar_values s"
  by (cases s) auto

lemma replacement_plain [simp]: "\<not> is_high 0xfffd" "\<not> is_low 0xfffd"
  by (simp_all add: is_high_def is_low_def)

lemma scalar_values_replace: "scalar_values (replaceUnpairedSurrogates s) = scalar_values s"
  by (induction s rule: replaceUnpairedSurrogates.induct) (auto simp: scalar_values_plain)

lemma utf8_length_replace [simp]: "utf8_length (replaceUnpairedSurrogates s) = utf8_length s"
  by (simp add: utf8_length_def text_encode_def scalar_values_replace)

lemma replace_well_formed: "well_formed s \<Longrightarrow> replaceUnpairedSurrogates s = s"
  by (induction s rule: replaceUnpairedSurrogates.induct) (auto split: if_splits)

lemma well_formed_replace: "well_formed (replaceUnpairedSurrogates s)"
proof -
  have plain: "well_formed (c # t) = well_formed t" if "\<not> is_high (unat c)" "\<not> is_low (unat c)" for c t
    using that by (cases t) auto
  show ?thesis by (induction s rule: replaceUnpairedSurrogates.induct) (auto simp: plain)
qed

lemma well_formed_suffix: "\<not> splits_pair s t \<Longrightarrow> well_formed (s @ t) \<Longrightarrow> well_formed t"
proof (induction s rule: well_formed.induct)
  case (2 c)
  then show ?case by (cases t) (auto simp: splits_pair_def split: if_splits)
next
  case (3 c d ds)
  have "\<not> splits_pair (d # ds) t" "is_low (unat d) \<Longrightarrow> \<not> splits_pair ds t"
    using "3.prems" by (auto simp: splits_pair_def is_high_def is_low_def split: if_splits)
  then show ?case using 3 by (auto split: if_splits)
qed simp

definition char_boundary :: "js_string \<Rightarrow> nat \<Rightarrow> bool" where
  "char_boundary s i = (i \<le> length s \<and> \<not> splits_pair (take i s) (drop i s))"

lemma char_boundary_iff:
  assumes "i \<le> length s"
  shows "char_boundary s i \<longleftrightarrow> \<not> (0 < i \<and> i < length s \<and> is_high (unat (s ! (i - 1))) \<and> is_low (unat (s ! i)))"
proof (cases "0 < i \<and> i < length s")
  case True
  then have "take i s \<noteq> []" "hd (drop i s) = s ! i" by (auto simp: hd_drop_conv_nth)
  moreover from this have "last (take i s) = s ! (i - 1)" using True by (simp add: last_conv_nth min_def)
  ultimately show ?thesis using True by (auto simp: char_boundary_def splits_pair_def)
next
  case False
  then show ?thesis using assms by (auto simp: char_boundary_def splits_pair_def)
qed

lemma char_before_step:
  assumes "char_boundary s i" "0 < i" "char_before s i = (st, b, u)"
  shows "st < i \<and> char_boundary s st \<and> utf8_length (drop st s) = b + utf8_length (drop i s)"
proof -
  have i: "i \<le> length s" using assms(1) by (simp add: char_boundary_def)
  let ?c = "s ! (i - 1)"
  have d1: "drop (i - 1) s = ?c # drop i s" using i assms(2) Cons_nth_drop_Suc [of "i - 1" s] by simp
  show ?thesis
  proof (cases "is_low (unat ?c) \<and> 1 < i \<and> is_high (unat (s ! (i - 2)))")
    case True
    then have v: "st = i - 2" "b = 4" using assms(3) by (auto simp: char_before_def is_low_def is_high_def numeral_2_eq_2)
    have "Suc (i - 2) = i - 1" "i - 2 < length s" using True i by linarith+
    then have "drop (i - 2) s = s ! (i - 2) # drop (i - 1) s" using Cons_nth_drop_Suc [of "i - 2" s] by simp
    then have "utf8_length (drop (i - 2) s) = 4 + utf8_length (drop i s)" using True d1 utf8_length_pair by simp
    moreover have "char_boundary s (i - 2)"
      using True i by (subst char_boundary_iff) (auto simp: is_high_def is_low_def)
    ultimately show ?thesis using v True by simp
  next
    case False
    then have v: "st = i - 1" "b = utf8_length [?c]"
      using assms(2,3) by (auto simp: char_before_def is_low_def is_high_def Let_def utf8_length_unit numeral_2_eq_2 split: if_splits)
    have "\<not> (is_high (unat ?c) \<and> drop i s \<noteq> [] \<and> is_low (unat (hd (drop i s))))"
      using assms(1,2) i hd_drop_conv_nth [of i s] unfolding char_boundary_iff [OF i] by (cases "i < length s") simp_all
    from utf8_length_Cons [OF this] have "utf8_length (drop (i - 1) s) = b + utf8_length (drop i s)" unfolding d1 v .
    moreover have "char_boundary s (i - 1)" using False i by (subst char_boundary_iff) (auto simp: numeral_2_eq_2)
    ultimately show ?thesis using v assms(2) by simp
  qed
qed

lemma end_loop_spec:
  assumes "end_loop s mb i b r = (st, r')" "char_boundary s i" "b = utf8_length (drop i s)" "b \<le> mb"
  shows "st \<le> i \<and> char_boundary s st \<and> utf8_length (drop st s) \<le> mb
    \<and> (0 < st \<longrightarrow> mb < utf8_length (drop (fst (char_before s st)) s))"
  using assms
proof (induction s mb i b r rule: end_loop.induct)
  case (1 s mb i b r)
  show ?case
  proof (cases "i = 0")
    case True
    then show ?thesis using 1 by (simp add: end_loop.simps)
  next
    case False
    obtain cs cb u where c: "char_before s i = (cs, cb, u)" by (cases "char_before s i")
    note step = char_before_step [OF "1.prems"(2) _ c]
    show ?thesis
    proof (cases "b + cb > mb")
      case True
      then show ?thesis using 1 c False step by (simp add: end_loop.simps)
    next
      case fit: False
      then have "end_loop s mb cs (b + cb) (r \<or> u) = (st, r')" using "1.prems"(1) False c by (simp add: end_loop.simps [of s mb i])
      from "1.IH" [OF False c [symmetric] refl fit this] step False "1.prems" fit show ?thesis by auto
    qed
  qed
qed

lemma char_before_nearest:
  assumes "char_boundary s st" "char_boundary s i" "i < st" shows "i \<le> fst (char_before s st)"
proof (rule ccontr)
  assume "\<not> i \<le> fst (char_before s st)"
  then have i: "i = st - 1" "fst (char_before s st) = st - 2" "fst (char_before s st) \<noteq> st - 1"
    using assms(3) by (auto simp: char_before_def Let_def split: if_splits)
  then have pair: "is_low (unat (s ! (st - 1)))" "1 < st" "is_high (unat (s ! (st - 2)))"
    by (auto simp: char_before_def Let_def is_low_def is_high_def numeral_2_eq_2 split: if_splits)
  have "st \<le> length s" using assms(1) by (simp add: char_boundary_def)
  then have "i < length s" "i - 1 = st - 2" "0 < i" using i(1) pair(2) by linarith+
  then show False using assms(2) pair i(1) char_boundary_iff [of i s] by simp
qed

lemma utf8_length_suffix:
  assumes "i < j" "char_boundary s j" shows "utf8_length (drop j s) \<le> utf8_length (drop i s)"
proof -
  have j: "j \<le> length s" using assms(2) by (simp add: char_boundary_def)
  let ?p = "take (j - i) (drop i s)"
  have "?p \<noteq> []" "last ?p = s ! (j - 1)" using assms(1) j by (simp_all add: last_conv_nth)
  then have "\<not> splits_pair ?p (drop j s)"
    using assms(1,2) j char_boundary_iff [OF j] by (cases "j < length s") (auto simp: splits_pair_def hd_drop_conv_nth)
  moreover have "drop i s = ?p @ drop j s" using assms(1) append_take_drop_id [of "j - i" "drop i s"] by simp
  ultimately show ?thesis using utf8_length_append [of ?p "drop j s"] by simp
qed

lemma char_before_well_formed:
  assumes "char_boundary s i" "0 < i" "char_before s i = (st, b, False)" "well_formed (drop i s)"
  shows "well_formed (drop st s)"
proof -
  have i: "i \<le> length s" using assms(1) by (simp add: char_boundary_def)
  have d1: "drop (i - 1) s = s ! (i - 1) # drop i s" using i assms(2) Cons_nth_drop_Suc [of "i - 1" s] by simp
  show ?thesis
  proof (cases "is_low (unat (s ! (i - 1))) \<and> 1 < i \<and> is_high (unat (s ! (i - 2)))")
    case True
    then have st: "st = i - 2" using assms(3) by (auto simp: char_before_def is_low_def is_high_def numeral_2_eq_2)
    have "Suc (i - 2) = i - 1" "i - 2 < length s" using True i by linarith+
    then have "drop (i - 2) s = s ! (i - 2) # drop (i - 1) s" using Cons_nth_drop_Suc [of "i - 2" s] by simp
    then show ?thesis using True d1 st assms(4) by simp
  next
    case False
    then have st: "st = i - 1" "\<not> is_high (unat (s ! (i - 1)))" "\<not> is_low (unat (s ! (i - 1)))"
      using assms(2,3) by (auto simp: char_before_def is_low_def is_high_def Let_def numeral_2_eq_2 split: if_splits)
    then show ?thesis using d1 assms(4) by (cases "drop i s") auto
  qed
qed

lemma end_loop_well_formed:
  assumes "end_loop s mb i b r = (st, False)" "char_boundary s i" "\<not> r \<longrightarrow> well_formed (drop i s)"
  shows "\<not> r \<and> well_formed (drop st s)"
  using assms
proof (induction s mb i b r rule: end_loop.induct)
  case (1 s mb i b r)
  show ?case
  proof (cases "i = 0")
    case True
    then show ?thesis using 1 by (simp add: end_loop.simps)
  next
    case False
    obtain cs cb u where c: "char_before s i = (cs, cb, u)" by (cases "char_before s i")
    show ?thesis
    proof (cases "b + cb > mb")
      case True
      then show ?thesis using "1.prems" c False by (simp add: end_loop.simps)
    next
      case fit: False
      then have e: "end_loop s mb cs (b + cb) (r \<or> u) = (st, False)" using "1.prems"(1) False c by (simp add: end_loop.simps [of s mb i])
      have "char_boundary s cs" using char_before_step [OF "1.prems"(2) _ c] False by simp
      moreover have "\<not> (r \<or> u) \<longrightarrow> well_formed (drop cs s)"
        using char_before_well_formed [OF "1.prems"(2), of cs cb] c False "1.prems"(3) by auto
      ultimately show ?thesis using "1.IH" [OF False c [symmetric] refl fit e] by simp
    qed
  qed
qed

text \<open>\<open>c\<close> is the longest end of \<open>s\<close> within a byte limit: it starts at a character of \<open>s\<close>, every earlier
  start gives too many bytes, and it has the bytes of \<open>s\<close> from there on and no lone surrogate, so lone surrogates
  of \<open>s\<close>, which are encoded as replacement characters, are replaced and all else is as in \<open>s\<close>.\<close>

definition longest_end :: "js_string \<Rightarrow> nat \<Rightarrow> js_string \<Rightarrow> bool" where
  "longest_end s mb c \<longleftrightarrow>
     (\<exists>st. char_boundary s st \<and> utf8_length (drop st s) \<le> mb
        \<and> (\<forall>i < st. char_boundary s i \<longrightarrow> mb < utf8_length (drop i s))
        \<and> well_formed c \<and> text_encode c = text_encode (drop st s) \<and> (well_formed s \<longrightarrow> c = drop st s))"

lemma truncateString_spec: "longest_end s mb (truncateStringToBytesFromEnd s mb)"
proof -
  obtain st r where e: "end_loop s mb (length s) 0 False = (st, r)" by (cases "end_loop s mb (length s) 0 False")
  have b: "char_boundary s (length s)" by (simp add: char_boundary_def splits_pair_def)
  note spec = end_loop_spec [OF e b]
  have far: "\<forall>i < j. char_boundary s i \<longrightarrow> mb < utf8_length (drop i s)"
    if j: "char_boundary s j" "0 < j \<longrightarrow> mb < utf8_length (drop (fst (char_before s j)) s)" for j
  proof (intro allI impI)
    fix i assume i: "i < j" "char_boundary s i"
    obtain cs cb u where c: "char_before s j = (cs, cb, u)" by (cases "char_before s j")
    have "char_boundary s cs" using char_before_step [OF j(1) _ c] i(1) by simp
    moreover have "i \<le> cs" using char_before_nearest [OF j(1) i(2,1)] c by simp
    ultimately show "mb < utf8_length (drop i s)"
      using utf8_length_suffix [of i cs s] j(2) i(1) c by (cases "i = cs") auto
  qed
  show ?thesis
  proof (cases "mb = 0")
    case True
    have "0 < utf8_length (drop (fst (char_before s (length s))) s)" if "0 < length s"
    proof -
      obtain cs cb u where c: "char_before s (length s) = (cs, cb, u)" by (cases "char_before s (length s)")
      moreover have "0 < cb" using c by (auto simp: char_before_def Let_def split: if_splits)
      ultimately show ?thesis using char_before_step [OF b that c] by simp
    qed
    then have "\<forall>i < length s. char_boundary s i \<longrightarrow> mb < utf8_length (drop i s)" using far [OF b] True by simp
    then show ?thesis unfolding longest_end_def using True b
      by (intro exI [of _ "length s"]) (auto simp: truncateStringToBytesFromEnd_def)
  next
    case False
    have st: "char_boundary s st" "utf8_length (drop st s) \<le> mb" "\<forall>i < st. char_boundary s i \<longrightarrow> mb < utf8_length (drop i s)"
      using spec far [of st] by auto
    let ?c = "truncateStringToBytesFromEnd s mb"
    have c: "?c = (if r then replaceUnpairedSurrogates (drop st s) else drop st s)"
      using False e by (simp add: truncateStringToBytesFromEnd_def Let_def)
    have "\<not> r \<longrightarrow> well_formed (drop st s)" using end_loop_well_formed [of s mb "length s" 0 False st] e b by auto
    then have "well_formed ?c" "text_encode ?c = text_encode (drop st s)"
      using well_formed_replace by (auto simp: c text_encode_def scalar_values_replace)
    moreover have "?c = drop st s" if "well_formed s"
      using well_formed_suffix [of "take st s" "drop st s"] that st(1) by (simp add: c char_boundary_def replace_well_formed)
    ultimately show ?thesis using st unfolding longest_end_def by blast
  qed
qed

lemma longest_end_bound: "longest_end s mb c \<Longrightarrow> utf8_length c \<le> mb"
  by (auto simp: longest_end_def utf8_length_def)

section \<open>Properties of the truncation\<close>

definition line_limit :: "truncation_options \<Rightarrow> nat" where
  "line_limit options = limit_or (opt_maxLines options) DEFAULT_MAX_LINES"

definition byte_bound :: "truncation_options \<Rightarrow> nat" where
  "byte_bound options = limit_or (opt_maxBytes options) DEFAULT_MAX_BYTES"

text \<open>The first (the last) \<open>k\<close> lines satisfy both limits, and one line more does not.\<close>

definition best_prefix :: "nat \<Rightarrow> nat \<Rightarrow> js_string list \<Rightarrow> nat \<Rightarrow> bool" where
  "best_prefix ml mb ls k \<longleftrightarrow> k \<le> length ls \<and> k \<le> ml \<and> lines_length (take k ls) \<le> mb
     \<and> (k = length ls \<or> k = ml \<or> mb < lines_length (take (Suc k) ls))"

definition best_suffix :: "nat \<Rightarrow> nat \<Rightarrow> js_string list \<Rightarrow> nat \<Rightarrow> bool" where
  "best_suffix ml mb ls k \<longleftrightarrow> k \<le> length ls \<and> k \<le> ml \<and> lines_length (drop (length ls - k) ls) \<le> mb
     \<and> (k = length ls \<or> k = ml \<or> mb < lines_length (drop (length ls - Suc k) ls))"

lemma content_prefix: "\<exists>t. join_on LF (take k (splitLinesForCounting s)) @ t = s"
  using join_take_prefix [of LF k "splitLinesForCounting s"] lines_join [of s] by (metis append.assoc)

lemma head_loop_start:
  assumes "head_loop buf ml mb ls 0 [] 0 = (out, b, rsn)"
  shows "\<exists>k. best_prefix ml mb ls k \<and> out = take k ls"
proof -
  have "head_loop buf ml mb ls (length ([] :: js_string list)) [] (lines_length []) = (out, b, rsn)" using assms by simp
  then obtain k where k: "k \<le> length ls" "out = take k ls" "b = lines_length out" "b \<le> mb" "length out \<le> ml"
    "k < length ls \<longrightarrow> length out = ml \<or> mb < lines_length (out @ [ls ! k])"
    using head_loop_spec [of buf ml mb ls "[]" out b rsn] unfolding lines_length_Nil append_Nil list.size(3) by blast
  have "best_prefix ml mb ls k"
    using k by (cases "k < length ls") (auto simp: best_prefix_def take_Suc_conv_app_nth)
  then show ?thesis using k(2) by blast
qed

lemma tail_loop_start:
  assumes "tail_loop buf ml mb (rev ls) [] 0 = (out, b, rsn, False)"
  shows "\<exists>k. best_suffix ml mb ls k \<and> out = drop (length ls - k) ls"
proof -
  have "tail_loop buf ml mb (rev ls) [] (lines_length []) = (out, b, rsn, False)" using assms by simp
  then obtain k where k: "k \<le> length ls" "out = rev (take k (rev ls))" "b = lines_length out" "b \<le> mb"
    "length out \<le> ml" "k < length ls \<longrightarrow> length out = ml \<or> mb < lines_length (rev ls ! k # out)"
    using tail_loop_spec [of buf ml mb "rev ls" "[]" out b rsn False]
    unfolding lines_length_Nil append_Nil2 list.size(3) if_False length_rev by blast
  have out: "out = drop (length ls - k) ls" using k(2) by (simp add: take_rev)
  have "rev ls ! k # out = drop (length ls - Suc k) ls" if "k < length ls"
    using that Cons_nth_drop_Suc [of "length ls - Suc k" ls] Suc_diff_Suc [OF that] unfolding out by (simp add: rev_nth)
  then have "best_suffix ml mb ls k" using k out by (cases "k < length ls") (auto simp: best_suffix_def)
  then show ?thesis using out by blast
qed

lemma tail_loop_partial:
  assumes "ls \<noteq> []" "tail_loop buf ml mb (rev ls) [] 0 = (out, b, rsn, part)"
  shows "part \<longleftrightarrow> 0 < ml \<and> mb < utf8_length (last ls)"
proof -
  have rev: "rev ls = last ls # rev (butlast ls)" using assms(1) append_butlast_last_id [of ls] by (metis rev_eq_Cons_iff rev_rev_ident)
  have later: "\<not> q" if "tail_loop buf ml mb rs o1 b1 = (o2, b2, r2, q)" "o1 \<noteq> []" for rs o1 b1 o2 b2 r2 q
    using that by (induction rs arbitrary: o1 b1) (auto simp: Let_def split: if_splits)
  show ?thesis
  proof (cases "0 < ml \<and> mb < utf8_length (last ls)")
    case True
    then show ?thesis using assms(2) by (simp add: rev Let_def)
  next
    case False
    then show ?thesis using assms(2) later [of "rev (butlast ls)" "[last ls]" "utf8_length (last ls)" out b rsn part]
      by (cases "0 < ml") (auto simp: rev Let_def split: if_splits)
  qed
qed

lemma lines_empty_iff: "splitLinesForCounting s = [] \<longleftrightarrow> s = []"
proof (cases "s \<noteq> [] \<and> last s = LF")
  case True
  then obtain t where "s = t @ [LF]" by (metis append_butlast_last_id)
  then show ?thesis by (simp add: splitLinesForCounting_def split_snoc_sep)
qed (auto simp: splitLinesForCounting_def)

text \<open>C40: Truncating at the end keeps complete lines from the start of the text, as many as the line limit
  and the byte limit allow, and the whole text when it is within both; the reported numbers of lines and
  bytes are those of the result.\<close>

theorem truncateHead_spec:
  "let r = truncateHead buf s options; ls = splitLinesForCounting s; k = outputLines r
   in (truncated r \<longleftrightarrow> line_limit options < length ls \<or> byte_bound options < utf8_length s)
    \<and> (if truncated r then best_prefix (line_limit options) (byte_bound options) ls k \<and> content r = join_on LF (take k ls)
       else content r = s \<and> k = length ls)
    \<and> outputBytes r = utf8_length (content r) \<and> outputBytes r \<le> byte_bound options
    \<and> (\<exists>t. content r @ t = s)"
proof -
  let ?ls = "splitLinesForCounting s" and ?ml = "line_limit options" and ?mb = "byte_bound options"
  note defs = truncateHead_def Let_def line_limit_def [symmetric] byte_bound_def [symmetric] untruncated_def
  consider (all) "length ?ls \<le> ?ml \<and> utf8_length s \<le> ?mb"
    | (first) "\<not> (length ?ls \<le> ?ml \<and> utf8_length s \<le> ?mb)" "?mb < utf8_length (?ls ! 0)"
    | (loop) "\<not> (length ?ls \<le> ?ml \<and> utf8_length s \<le> ?mb)" "\<not> ?mb < utf8_length (?ls ! 0)"
    by blast
  then show ?thesis
  proof cases
    case all
    then show ?thesis by (simp add: defs)
  next
    case first
    then have "?ls \<noteq> []" using lines_empty_iff [of s] by auto
    then have "lines_length (take (Suc 0) ?ls) = utf8_length (?ls ! 0)"
      by (cases ?ls) (simp_all add: lines_length_Cons)
    then have "best_prefix ?ml ?mb ?ls 0" using first(2) by (simp add: best_prefix_def)
    then show ?thesis using first by (auto simp: defs)
  next
    case loop
    obtain out b rsn where l: "head_loop buf ?ml ?mb ?ls 0 [] 0 = (out, b, rsn)" by (cases "head_loop buf ?ml ?mb ?ls 0 [] 0")
    obtain k where k: "best_prefix ?ml ?mb ?ls k" "out = take k ?ls" using head_loop_start [OF l] by blast
    then have "length out = k" by (simp add: best_prefix_def)
    then show ?thesis using loop k l content_prefix [of k s] by (auto simp: defs lines_length_def best_prefix_def)
  qed
qed

text \<open>C35: Truncating at the start keeps complete lines from the end of the text, as many as both limits
  allow; when not even the last line fits, it keeps the end of that line from a character on such that every
  earlier character would make it too long, unchanged but for lone surrogates, which become replacement characters. The result is always
  within the byte limit.\<close>

theorem truncateTail_spec:
  "let r = truncateTail buf s options; ls = splitLinesForCounting s; k = outputLines r
   in (truncated r \<longleftrightarrow> line_limit options < length ls \<or> byte_bound options < utf8_length s)
    \<and> (lastLinePartial r \<longleftrightarrow> truncated r \<and> 0 < line_limit options \<and> byte_bound options < utf8_length (last ls))
    \<and> (if \<not> truncated r then content r = s
       else if lastLinePartial r then byte_bound options < utf8_length (last ls)
              \<and> longest_end (last ls) (byte_bound options) (content r)
       else best_suffix (line_limit options) (byte_bound options) ls k \<and> content r = join_on LF (drop (length ls - k) ls))
    \<and> outputBytes r = utf8_length (content r) \<and> outputBytes r \<le> byte_bound options"
proof -
  let ?ls = "splitLinesForCounting s" and ?ml = "line_limit options" and ?mb = "byte_bound options"
  note defs = truncateTail_def Let_def line_limit_def [symmetric] byte_bound_def [symmetric] untruncated_def
  show ?thesis
  proof (cases "length ?ls \<le> ?ml \<and> utf8_length s \<le> ?mb")
    case True
    then show ?thesis by (simp add: defs)
  next
    case False
    obtain out b rsn part where l: "tail_loop buf ?ml ?mb (rev ?ls) [] 0 = (out, b, rsn, part)"
      by (cases "tail_loop buf ?ml ?mb (rev ?ls) [] 0")
    show ?thesis
    proof (cases part)
      case True
      then have ne: "?ls \<noteq> []" "?mb < utf8_length (last ?ls)" "out = [truncateStringToBytesFromEnd (last ?ls) ?mb]"
        using tail_loop_spec [of buf ?ml ?mb "rev ?ls" "[]" out b rsn part] l by (simp_all add: hd_rev)
      moreover have "0 < ?ml" using tail_loop_partial [OF ne(1) l] True by simp
      ultimately show ?thesis using False True l truncateString_spec [of "last ?ls" ?mb]
        longest_end_bound [OF truncateString_spec] by (auto simp: defs)
    next
      case np: False
      then obtain k where k: "best_suffix ?ml ?mb ?ls k" "out = drop (length ?ls - k) ?ls"
        using tail_loop_start [of buf ?ml ?mb ?ls out b rsn] l by auto
      then have "length out = k" by (simp add: best_suffix_def)
      moreover have "?ls \<noteq> []" using False lines_empty_iff [of s] by auto
      ultimately show ?thesis using False np l k tail_loop_partial [OF _ l] by (auto simp: defs lines_length_def best_suffix_def)
    qed
  qed
qed

text \<open>The reported reason can be wrong: a text within the line limit whose line feed at the end is the
  byte too many is said to be truncated by lines.\<close>

lemma truncated_by_lines_within_limit:
  "truncatedBy (truncateHead True (js [CHR ''a'', CHR 0x0A]) \<lparr>opt_maxLines = Some 5, opt_maxBytes = Some 1\<rparr>) = Some ByLines"
  by (simp add: truncateHead_def js_def splitLinesForCounting_def LF_def limit_or_def utf8_length_def text_encode_def
      is_high_def is_low_def utf8_bytes_def Let_def)

end
