(* ===== verification/Edit_Diff.thy ===== *)
theory Edit_Diff
  imports Js_Text "HOL-Library.Multiset"
begin

text \<open>
  Text replacement of the edit tool, \<open>agent/src/harness/tools/edit-diff.ts\<close> and the content part of
  \<open>tools/edit.ts\<close>. Unicode normalisation (\<open>normalize("NFKC")\<close>) rests on the Unicode data tables and is
  the argument \<open>nfkc\<close>; the line diff of the package \<open>diff\<close> is the argument \<open>diffLines\<close>.
\<close>

section \<open>Searching\<close>

fun starts_with :: "'a list \<Rightarrow> 'a list \<Rightarrow> bool" where
  "starts_with [] s = True"
| "starts_with (p # ps) [] = False"
| "starts_with (p # ps) (c # cs) = (p = c \<and> starts_with ps cs)"

text \<open>\<open>s.indexOf(p)\<close>, with \<open>None\<close> for \<open>-1\<close>.\<close>

fun index_of :: "'a list \<Rightarrow> 'a list \<Rightarrow> nat option" where
  "index_of [] p = (if p = [] then Some 0 else None)"
| "index_of (c # cs) p = (if starts_with p (c # cs) then Some 0 else map_option Suc (index_of cs p))"

lemma starts_with_iff: "starts_with p s \<longleftrightarrow> (\<exists>t. s = p @ t)"
  by (induction p s rule: starts_with.induct) auto

lemma index_of_Some: "index_of s p = Some i \<Longrightarrow> \<exists>a b. s = a @ p @ b \<and> length a = i"
proof (induction s arbitrary: i)
  case (Cons c cs)
  then show ?case
    by (auto simp: starts_with_iff split: if_splits) (metis Cons_eq_appendI length_Cons)
qed (auto split: if_splits)

lemma index_of_length: "index_of s p = Some i \<Longrightarrow> i + length p \<le> length s"
  using index_of_Some by fastforce

text \<open>The number of pieces of \<open>s.split(p)\<close>. An empty separator splits between all code units.\<close>

function count_pieces :: "js_string \<Rightarrow> js_string \<Rightarrow> nat" where
  "count_pieces s p =
     (if p = [] then length s
      else case index_of s p of None \<Rightarrow> 1 | Some i \<Rightarrow> Suc (count_pieces (drop (i + length p) s) p))"
  by pat_completeness auto
termination
proof (relation "measure (\<lambda>(s, p). length s)")
  fix s p i
  assume "p \<noteq> []" "index_of s p = Some i"
  then have "0 < length p" "i + length p \<le> length s" by (auto dest: index_of_length)
  then have "length s - (i + length p) < length s" by linarith
  then show "((drop (i + length p) s, p), (s, p)) \<in> measure (\<lambda>(s, p). length s)" by simp
qed simp

declare count_pieces.simps [simp del]

section \<open>Line endings\<close>

datatype line_ending = CRLF_ending | LF_ending

definition detectLineEnding :: "js_string \<Rightarrow> line_ending" where
  "detectLineEnding s =
     (case index_of s [LF] of
        None \<Rightarrow> LF_ending
      | Some lfIdx \<Rightarrow>
          (case index_of s [CR, LF] of
             None \<Rightarrow> LF_ending
           | Some crlfIdx \<Rightarrow> if crlfIdx < lfIdx then CRLF_ending else LF_ending))"

fun replace_crlf :: "js_string \<Rightarrow> js_string" where
  "replace_crlf [] = []"
| "replace_crlf [c] = [c]"
| "replace_crlf (c # d # ds) = (if c = CR \<and> d = LF then LF # replace_crlf ds else c # replace_crlf (d # ds))"

definition normalizeToLF :: "js_string \<Rightarrow> js_string" where
  "normalizeToLF s = map (\<lambda>c. if c = CR then LF else c) (replace_crlf s)"

definition restoreLineEndings :: "js_string \<Rightarrow> line_ending \<Rightarrow> js_string" where
  "restoreLineEndings s ending =
     (case ending of CRLF_ending \<Rightarrow> concat (map (\<lambda>c. if c = LF then [CR, LF] else [c]) s) | LF_ending \<Rightarrow> s)"

section \<open>Fuzzy matching\<close>

text \<open>The four replacements apply to disjoint sets of code units, so they are one map.\<close>

definition ascii_variant :: "16 word \<Rightarrow> 16 word" where
  "ascii_variant c =
     (let n = unat c
      in if 0x2018 \<le> n \<and> n \<le> 0x201B then 0x27
         else if 0x201C \<le> n \<and> n \<le> 0x201F then 0x22
         else if 0x2010 \<le> n \<and> n \<le> 0x2015 \<or> n = 0x2212 then 0x2D
         else if n = 0xA0 \<or> 0x2002 \<le> n \<and> n \<le> 0x200A \<or> n = 0x202F \<or> n = 0x205F \<or> n = 0x3000 then 0x20
         else c)"

definition normalizeForFuzzyMatch :: "(js_string \<Rightarrow> js_string) \<Rightarrow> js_string \<Rightarrow> js_string" where
  "normalizeForFuzzyMatch nfkc s = map ascii_variant (join_on LF (map trimEnd (split_on LF (nfkc s))))"

section \<open>Lines and replacements\<close>

text \<open>The matches of \<open>/[^\n]*\n|[^\n]+/g\<close>: lines with their line feeds.\<close>

fun splitLinesWithEndings :: "js_string \<Rightarrow> js_string list" where
  "splitLinesWithEndings [] = []"
| "splitLinesWithEndings (c # cs) =
     (if c = LF then [c] # splitLinesWithEndings cs
      else case splitLinesWithEndings cs of [] \<Rightarrow> [[c]] | l # ls \<Rightarrow> (c # l) # ls)"

record text_replacement =
  editIndex :: nat
  matchIndex :: nat
  matchLength :: nat
  newText :: js_string

fun line_spans :: "nat \<Rightarrow> js_string list \<Rightarrow> (nat \<times> nat) list" where
  "line_spans offset [] = []"
| "line_spans offset (l # ls) = (offset, offset + length l) # line_spans (offset + length l) ls"

definition getLineSpans :: "js_string \<Rightarrow> (nat \<times> nat) list" where
  "getLineSpans s = line_spans 0 (splitLinesWithEndings s)"

datatype edit_error = EditError string

definition outside_error :: edit_error where
  "outside_error = EditError ''Replacement range is outside the base content.''"

fun find_start_line :: "(nat \<times> nat) list \<Rightarrow> nat \<Rightarrow> nat \<Rightarrow> nat option" where
  "find_start_line [] pos i = None"
| "find_start_line ((st, en) # ls) pos i = (if st \<le> pos \<and> pos < en then Some i else find_start_line ls pos (Suc i))"

function find_end_line :: "(nat \<times> nat) list \<Rightarrow> nat \<Rightarrow> nat \<Rightarrow> nat" where
  "find_end_line ls pos i = (if i < length ls \<and> snd (ls ! i) < pos then find_end_line ls pos (Suc i) else i)"
  by pat_completeness auto
termination by (relation "measure (\<lambda>(ls, _, i). length ls - i)") auto

declare find_end_line.simps [simp del]

definition getReplacementLineRange :: "(nat \<times> nat) list \<Rightarrow> text_replacement \<Rightarrow> edit_error + (nat \<times> nat)" where
  "getReplacementLineRange ls r =
     (case find_start_line ls (matchIndex r) 0 of
        None \<Rightarrow> Inl outside_error
      | Some startLine \<Rightarrow>
          let endLine = find_end_line ls (matchIndex r + matchLength r) startLine
          in if length ls \<le> endLine then Inl outside_error else Inr (startLine, endLine + 1))"

text \<open>The replacements are applied from the last one to the first one.\<close>

definition apply_replacement :: "nat \<Rightarrow> text_replacement \<Rightarrow> js_string \<Rightarrow> js_string" where
  "apply_replacement offset r result =
     (let mi = matchIndex r - offset in take mi result @ newText r @ drop (mi + matchLength r) result)"

definition applyReplacements :: "js_string \<Rightarrow> text_replacement list \<Rightarrow> nat \<Rightarrow> js_string" where
  "applyReplacements s rs offset = foldr (apply_replacement offset) rs s"

record line_group =
  startLine :: nat
  endLine :: nat
  group_replacements :: "text_replacement list"

definition add_to_groups :: "(nat \<times> nat) list \<Rightarrow> line_group list \<Rightarrow> text_replacement \<Rightarrow> edit_error + line_group list" where
  "add_to_groups baseLines groups r =
     bindR (getReplacementLineRange baseLines r) (\<lambda>(s, e).
       if groups \<noteq> [] \<and> s < endLine (last groups)
       then Inr (butlast groups @ [(last groups)\<lparr>endLine := max (endLine (last groups)) e,
                                                 group_replacements := group_replacements (last groups) @ [r]\<rparr>])
       else Inr (groups @ [\<lparr>startLine = s, endLine = e, group_replacements = [r]\<rparr>]))"

definition slice :: "nat \<Rightarrow> nat \<Rightarrow> 'a list \<Rightarrow> 'a list" where
  "slice i j xs = take (j - i) (drop i xs)"

fun rewrite_groups :: "js_string list \<Rightarrow> js_string \<Rightarrow> (nat \<times> nat) list \<Rightarrow> nat \<Rightarrow> line_group list \<Rightarrow> js_string" where
  "rewrite_groups originalLines base baseLines i [] = concat (drop i originalLines)"
| "rewrite_groups originalLines base baseLines i (g # gs) =
     (let groupStart = fst (baseLines ! startLine g); groupEnd = snd (baseLines ! (endLine g - 1))
      in concat (slice i (startLine g) originalLines)
         @ applyReplacements (slice groupStart groupEnd base) (group_replacements g) groupStart
         @ rewrite_groups originalLines base baseLines (endLine g) gs)"

definition applyReplacementsPreservingUnchangedLines ::
    "js_string \<Rightarrow> js_string \<Rightarrow> text_replacement list \<Rightarrow> edit_error + js_string" where
  "applyReplacementsPreservingUnchangedLines original base rs =
     (let originalLines = splitLinesWithEndings original; baseLines = getLineSpans base
      in if length originalLines \<noteq> length baseLines
         then Inl (EditError ''Cannot preserve unchanged lines because the base content has a different line count.'')
         else bindR (foldR (add_to_groups baseLines) [] (sort_key matchIndex rs)) (\<lambda>groups.
              Inr (rewrite_groups originalLines base baseLines 0 groups)))"

section \<open>Matching the edits\<close>

record fuzzy_match =
  found :: bool
  match_index :: int
  match_length :: nat
  usedFuzzyMatch :: bool
  contentForReplacement :: js_string

record edit =
  oldText :: js_string
  edit_newText :: js_string

definition fuzzyFindText :: "(js_string \<Rightarrow> js_string) \<Rightarrow> js_string \<Rightarrow> js_string \<Rightarrow> fuzzy_match" where
  "fuzzyFindText nfkc s old =
     (case index_of s old of
        Some i \<Rightarrow> \<lparr>found = True, match_index = int i, match_length = length old, usedFuzzyMatch = False,
                   contentForReplacement = s\<rparr>
      | None \<Rightarrow>
          let fuzzyContent = normalizeForFuzzyMatch nfkc s; fuzzyOldText = normalizeForFuzzyMatch nfkc old
          in case index_of fuzzyContent fuzzyOldText of
               None \<Rightarrow> \<lparr>found = False, match_index = - 1, match_length = 0, usedFuzzyMatch = False,
                        contentForReplacement = s\<rparr>
             | Some i \<Rightarrow> \<lparr>found = True, match_index = int i, match_length = length fuzzyOldText,
                          usedFuzzyMatch = True, contentForReplacement = fuzzyContent\<rparr>)"

definition stripBom :: "js_string \<Rightarrow> js_string \<times> js_string" where
  "stripBom s = (if starts_with [0xFEFF] s then ([0xFEFF], drop 1 s) else ([], s))"

definition countOccurrences :: "(js_string \<Rightarrow> js_string) \<Rightarrow> js_string \<Rightarrow> js_string \<Rightarrow> int" where
  "countOccurrences nfkc s old =
     int (count_pieces (normalizeForFuzzyMatch nfkc s) (normalizeForFuzzyMatch nfkc old)) - 1"

definition getNotFoundError :: "string \<Rightarrow> nat \<Rightarrow> nat \<Rightarrow> edit_error" where
  "getNotFoundError path i totalEdits =
     EditError (if totalEdits = 1
       then ''Could not find the exact text in '' @ path
         @ ''. The old text must match exactly including all whitespace and newlines.''
       else ''Could not find edits['' @ decimal i @ ''] in '' @ path
         @ ''. The oldText must match exactly including all whitespace and newlines.'')"

definition getDuplicateError :: "string \<Rightarrow> nat \<Rightarrow> nat \<Rightarrow> int \<Rightarrow> edit_error" where
  "getDuplicateError path i totalEdits occurrences =
     EditError (if totalEdits = 1
       then ''Found '' @ decimal_int occurrences @ '' occurrences of the text in '' @ path
         @ ''. The text must be unique. Please provide more context to make it unique.''
       else ''Found '' @ decimal_int occurrences @ '' occurrences of edits['' @ decimal i @ ''] in '' @ path
         @ ''. Each oldText must be unique. Please provide more context to make it unique.'')"

definition getEmptyOldTextError :: "string \<Rightarrow> nat \<Rightarrow> nat \<Rightarrow> edit_error" where
  "getEmptyOldTextError path i totalEdits =
     EditError (if totalEdits = 1 then ''oldText must not be empty in '' @ path @ ''.''
       else ''edits['' @ decimal i @ ''].oldText must not be empty in '' @ path @ ''.'')"

definition getNoChangeError :: "string \<Rightarrow> nat \<Rightarrow> edit_error" where
  "getNoChangeError path totalEdits =
     EditError (if totalEdits = 1
       then ''No changes made to '' @ path @ ''. The replacement produced identical content. This might indicate ''
         @ ''an issue with special characters or the text not existing as expected.''
       else ''No changes made to '' @ path @ ''. The replacements produced identical content.'')"

definition normalize_edit :: "edit \<Rightarrow> edit" where
  "normalize_edit e = \<lparr>oldText = normalizeToLF (oldText e), edit_newText = normalizeToLF (edit_newText e)\<rparr>"

definition check_not_empty :: "string \<Rightarrow> edit list \<Rightarrow> edit_error + unit" where
  "check_not_empty path es =
     foldR (\<lambda>_ (i, e). guardR (oldText e \<noteq> []) (getEmptyOldTextError path i (length es))) () (enumerate 0 es)"

definition match_edit ::
    "(js_string \<Rightarrow> js_string) \<Rightarrow> string \<Rightarrow> js_string \<Rightarrow> nat \<Rightarrow> nat \<Rightarrow> edit \<Rightarrow> edit_error + text_replacement" where
  "match_edit nfkc path base totalEdits i e =
     (let m = fuzzyFindText nfkc base (oldText e); occurrences = countOccurrences nfkc base (oldText e)
      in bindR (guardR (found m) (getNotFoundError path i totalEdits)) (\<lambda>_.
         bindR (guardR (\<not> occurrences > 1) (getDuplicateError path i totalEdits occurrences)) (\<lambda>_.
         Inr \<lparr>editIndex = i, matchIndex = nat (match_index m), matchLength = match_length m, newText = edit_newText e\<rparr>)))"

definition match_edits ::
    "(js_string \<Rightarrow> js_string) \<Rightarrow> string \<Rightarrow> js_string \<Rightarrow> edit list \<Rightarrow> edit_error + text_replacement list" where
  "match_edits nfkc path base es =
     foldR (\<lambda>ms ie. bindR (match_edit nfkc path base (length es) (fst ie) (snd ie)) (\<lambda>m. Inr (ms @ [m]))) [] (enumerate 0 es)"

fun check_overlap :: "string \<Rightarrow> text_replacement list \<Rightarrow> edit_error + unit" where
  "check_overlap path (r # q # rs) =
     (if matchIndex r + matchLength r > matchIndex q
      then Inl (EditError (''edits['' @ decimal (editIndex r) @ ''] and edits['' @ decimal (editIndex q) @ ''] overlap in ''
             @ path @ ''. Merge them into one edit or target disjoint regions.''))
      else check_overlap path (q # rs))"
| "check_overlap path rs = Inr ()"

definition applyEditsToNormalizedContent ::
    "(js_string \<Rightarrow> js_string) \<Rightarrow> js_string \<Rightarrow> edit list \<Rightarrow> string \<Rightarrow> edit_error + (js_string \<times> js_string)" where
  "applyEditsToNormalizedContent nfkc normalizedContent edits path =
     (let es = map normalize_edit edits
      in bindR (check_not_empty path es) (\<lambda>_.
         let fuzzy = list_ex (\<lambda>e. usedFuzzyMatch (fuzzyFindText nfkc normalizedContent (oldText e))) es;
             base = (if fuzzy then normalizeForFuzzyMatch nfkc normalizedContent else normalizedContent)
         in bindR (match_edits nfkc path base es) (\<lambda>ms.
            let matchedEdits = sort_key matchIndex ms
            in bindR (check_overlap path matchedEdits) (\<lambda>_.
               bindR (if fuzzy then applyReplacementsPreservingUnchangedLines normalizedContent base matchedEdits
                      else Inr (applyReplacements base matchedEdits 0)) (\<lambda>newContent.
               bindR (guardR (normalizedContent \<noteq> newContent) (getNoChangeError path (length es))) (\<lambda>_.
               Inr (normalizedContent, newContent)))))))"

text \<open>The content that the edit tool writes back to a file with content \<open>s\<close>.\<close>

definition edit_content ::
    "(js_string \<Rightarrow> js_string) \<Rightarrow> js_string \<Rightarrow> edit list \<Rightarrow> string \<Rightarrow> edit_error + (js_string \<times> js_string \<times> js_string)" where
  "edit_content nfkc s edits path =
     (case stripBom s of (bom, content) \<Rightarrow>
      bindR (applyEditsToNormalizedContent nfkc (normalizeToLF content) edits path) (\<lambda>(baseContent, newContent).
      Inr (baseContent, newContent, bom @ restoreLineEndings newContent (detectLineEnding content))))"

section \<open>The displayed diff\<close>

record diff_part =
  part_value :: js_string
  added :: bool
  removed :: bool

record diff_state =
  output_lines :: "js_string list"
  oldLineNum :: nat
  newLineNum :: nat
  lastWasChange :: bool
  firstChangedLine :: "nat option"

definition padStart :: "nat \<Rightarrow> js_string \<Rightarrow> js_string" where
  "padStart w s = replicate (w - length s) 0x20 @ s"

text \<open>One line of output with the sign, the line number in the given column width, and the text.\<close>

definition show_line :: "js_string \<Rightarrow> nat \<Rightarrow> nat \<Rightarrow> js_string \<Rightarrow> js_string" where
  "show_line sign w n line = sign @ padStart w (js (decimal n)) @ js '' '' @ line"

definition show_skip :: "nat \<Rightarrow> js_string" where
  "show_skip w = js '' '' @ padStart w [] @ js '' ...''"

definition add_line :: "nat \<Rightarrow> diff_state \<Rightarrow> js_string \<Rightarrow> diff_state" where
  "add_line w st line =
     st\<lparr>output_lines := output_lines st @ [show_line (js ''+'') w (newLineNum st) line], newLineNum := newLineNum st + 1\<rparr>"

definition remove_line :: "nat \<Rightarrow> diff_state \<Rightarrow> js_string \<Rightarrow> diff_state" where
  "remove_line w st line =
     st\<lparr>output_lines := output_lines st @ [show_line (js ''-'') w (oldLineNum st) line], oldLineNum := oldLineNum st + 1\<rparr>"

definition context_line :: "nat \<Rightarrow> diff_state \<Rightarrow> js_string \<Rightarrow> diff_state" where
  "context_line w st line =
     st\<lparr>output_lines := output_lines st @ [show_line (js '' '') w (oldLineNum st) line],
        oldLineNum := oldLineNum st + 1, newLineNum := newLineNum st + 1\<rparr>"

definition skip_lines :: "nat \<Rightarrow> diff_state \<Rightarrow> diff_state" where
  "skip_lines n st = st\<lparr>oldLineNum := oldLineNum st + n, newLineNum := newLineNum st + n\<rparr>"

definition note_skip :: "nat \<Rightarrow> nat \<Rightarrow> diff_state \<Rightarrow> diff_state" where
  "note_skip w n st = skip_lines n (st\<lparr>output_lines := output_lines st @ [show_skip w]\<rparr>)"

definition part_lines :: "js_string \<Rightarrow> js_string list" where
  "part_lines v = (let raw = split_on LF v in if last raw = [] then butlast raw else raw)"

definition change_part :: "nat \<Rightarrow> diff_state \<Rightarrow> diff_part \<Rightarrow> diff_state" where
  "change_part w st part =
     (let st1 = (if firstChangedLine st = None then st\<lparr>firstChangedLine := Some (newLineNum st)\<rparr> else st)
      in (foldl (if added part then add_line w else remove_line w) st1 (part_lines (part_value part)))\<lparr>lastWasChange := True\<rparr>)"

definition context_part :: "nat \<Rightarrow> nat \<Rightarrow> bool \<Rightarrow> diff_state \<Rightarrow> diff_part \<Rightarrow> diff_state" where
  "context_part ctx w nextPartIsChange st part =
     (let raw = part_lines (part_value part); showLines = foldl (context_line w)
      in (if lastWasChange st \<and> nextPartIsChange then
            (if length raw \<le> ctx * 2 then showLines st raw
             else let leadingLines = take ctx raw; trailingLines = drop (length raw - ctx) raw;
                      skipped = length raw - length leadingLines - length trailingLines
                  in showLines (note_skip w skipped (showLines st leadingLines)) trailingLines)
          else if lastWasChange st then
            (let shownLines = take ctx raw; skipped = length raw - length shownLines; st1 = showLines st shownLines
             in if skipped > 0 then note_skip w skipped st1 else st1)
          else if nextPartIsChange then
            (let skipped = length raw - ctx; st1 = (if skipped > 0 then note_skip w skipped st else st)
             in showLines st1 (drop skipped raw))
          else skip_lines (length raw) st)\<lparr>lastWasChange := False\<rparr>)"

fun diff_parts :: "nat \<Rightarrow> nat \<Rightarrow> diff_state \<Rightarrow> diff_part list \<Rightarrow> diff_state" where
  "diff_parts ctx w st [] = st"
| "diff_parts ctx w st (part # ps) =
     diff_parts ctx w
       (if added part \<or> removed part then change_part w st part
        else context_part ctx w (ps \<noteq> [] \<and> (added (hd ps) \<or> removed (hd ps))) st part) ps"

definition generateDiffString ::
    "(js_string \<Rightarrow> js_string \<Rightarrow> diff_part list) \<Rightarrow> js_string \<Rightarrow> js_string \<Rightarrow> nat option \<Rightarrow> js_string \<times> nat option" where
  "generateDiffString diffLines oldContent newContent contextLines =
     (let ctx = (case contextLines of None \<Rightarrow> 4 | Some n \<Rightarrow> n);
          maxLineNum = max (length (split_on LF oldContent)) (length (split_on LF newContent));
          st = diff_parts ctx (length (decimal maxLineNum))
                 \<lparr>output_lines = [], oldLineNum = 1, newLineNum = 1, lastWasChange = False, firstChangedLine = None\<rparr>
                 (diffLines oldContent newContent)
      in (join_on LF (output_lines st), firstChangedLine st))"

section \<open>Replacing from left to right\<close>

text \<open>The reference: sorted replacements applied in one pass over the text. \<open>pos\<close> is the position of the
  first character of the text that is left.\<close>

fun replace_from :: "nat \<Rightarrow> js_string \<Rightarrow> text_replacement list \<Rightarrow> js_string" where
  "replace_from pos s [] = s"
| "replace_from pos s (r # rs) =
     take (matchIndex r - pos) s @ newText r
     @ replace_from (matchIndex r + matchLength r) (drop (matchIndex r + matchLength r - pos) s) rs"

fun disjoint_in :: "nat \<Rightarrow> nat \<Rightarrow> text_replacement list \<Rightarrow> bool" where
  "disjoint_in pos en [] = (pos \<le> en)"
| "disjoint_in pos en (r # rs) = (pos \<le> matchIndex r \<and> disjoint_in (matchIndex r + matchLength r) en rs)"

lemma disjoint_in_start: "disjoint_in pos en rs \<Longrightarrow> pos \<le> en \<and> (\<forall>r\<in>set rs. pos \<le> matchIndex r)"
  by (induction rs arbitrary: pos) fastforce+

lemma applyReplacements_Nil [simp]: "applyReplacements s [] off = s"
  by (simp add: applyReplacements_def)

lemma applyReplacements_Cons:
  "applyReplacements s (r # rs) off = apply_replacement off r (applyReplacements s rs off)"
  by (simp add: applyReplacements_def)

lemma applyReplacements_prefix:
  assumes "\<forall>r\<in>set rs. off + length a \<le> matchIndex r"
  shows "applyReplacements (a @ b) rs off = a @ applyReplacements b rs (off + length a)"
  using assms
proof (induction rs)
  case (Cons r rs)
  then have "matchIndex r - off = length a + (matchIndex r - (off + length a))" by simp
  then show ?case using Cons by (auto simp: applyReplacements_Cons apply_replacement_def Let_def)
qed simp

lemma applyReplacements_replace_from:
  assumes "disjoint_in off (off + length s) rs"
  shows "applyReplacements s rs off = replace_from off s rs"
  using assms
proof (induction rs arbitrary: off s)
  case (Cons r rs)
  let ?k = "matchIndex r + matchLength r - off"
  have le: "off \<le> matchIndex r" "disjoint_in (matchIndex r + matchLength r) (off + length s) rs"
    using Cons.prems by auto
  note st = disjoint_in_start [OF le(2)]
  have k: "?k \<le> length s" "off + ?k = matchIndex r + matchLength r" using le(1) st by auto
  have "applyReplacements (take ?k s @ drop ?k s) rs off = take ?k s @ applyReplacements (drop ?k s) rs (off + length (take ?k s))"
    by (rule applyReplacements_prefix) (use st k in auto)
  then have "applyReplacements s rs off = take ?k s @ applyReplacements (drop ?k s) rs (off + ?k)" using k by simp
  moreover have "applyReplacements (drop ?k s) rs (off + ?k) = replace_from (off + ?k) (drop ?k s) rs"
    by (rule Cons.IH) (use le k in \<open>simp add: add.commute\<close>)
  ultimately show ?case using k le(1) by (simp add: applyReplacements_Cons apply_replacement_def Let_def)
qed simp

text \<open>A text as gaps and pieces: a first gap, then pieces each followed by a gap.\<close>

fun weave :: "'a list \<Rightarrow> ('a list \<times> 'a list) list \<Rightarrow> 'a list" where
  "weave g [] = g"
| "weave g ((t, h) # ts) = g @ t @ weave h ts"

text \<open>The piece of the text that a replacement covers is the text \<open>old r\<close>.\<close>

definition covers :: "js_string \<Rightarrow> (text_replacement \<Rightarrow> js_string) \<Rightarrow> nat \<Rightarrow> text_replacement \<Rightarrow> bool" where
  "covers s old pos r \<longleftrightarrow> take (matchLength r) (drop (matchIndex r - pos) s) = old r"

lemma weave_replacements:
  assumes "disjoint_in pos (pos + length s) rs" and "\<forall>r\<in>set rs. covers s old pos r"
  shows "\<exists>g hs. length hs = length rs \<and> s = weave g (zip (map old rs) hs)
    \<and> replace_from pos s rs = weave g (zip (map newText rs) hs)"
  using assms
proof (induction rs arbitrary: pos s)
  case Nil
  then show ?case by simp
next
  case (Cons r rs)
  let ?m = "matchIndex r - pos" and ?k = "matchIndex r + matchLength r - pos"
  have le: "pos \<le> matchIndex r" "disjoint_in (matchIndex r + matchLength r) (pos + length s) rs"
    using Cons.prems by auto
  note st = disjoint_in_start [OF le(2)]
  have k: "?k = ?m + matchLength r" "?k \<le> length s" "pos + ?k = matchIndex r + matchLength r" using le(1) st by auto
  have d: "disjoint_in (pos + ?k) (pos + ?k + length (drop ?k s)) rs"
  proof -
    have "pos + ?k + length (drop ?k s) = pos + length s" using k(2) by simp
    then show ?thesis using le(2) unfolding k(3) by metis
  qed
  have "covers (drop ?k s) old (pos + ?k) q" if "q \<in> set rs" for q
  proof -
    have "pos + ?k \<le> matchIndex q" unfolding k(3) using that st by blast
    then have "?k + (matchIndex q - (pos + ?k)) = matchIndex q - pos" by linarith
    moreover have "covers s old pos q" using Cons.prems(2) that by simp
    ultimately show ?thesis unfolding covers_def drop_drop add.commute [of _ ?k] by argo
  qed
  with Cons.IH [OF d] obtain g hs where g: "length hs = length rs" "drop ?k s = weave g (zip (map old rs) hs)"
    "replace_from (pos + ?k) (drop ?k s) rs = weave g (zip (map newText rs) hs)" by blast
  have "s = take ?m s @ take (matchLength r) (drop ?m s) @ drop ?k s"
    unfolding k(1) add.commute [of ?m] drop_drop [symmetric] append_take_drop_id ..
  then have "s = take ?m s @ old r @ weave g (zip (map old rs) hs)"
    using Cons.prems(2) g(2) by (simp add: covers_def)
  moreover have "replace_from pos s (r # rs) = take ?m s @ newText r @ weave g (zip (map newText rs) hs)"
    using g(3) k(3) by simp
  ultimately show ?case using g(1) by (intro exI [of _ "take ?m s"] exI [of _ "g # hs"]) simp
qed

section \<open>Exact edits\<close>

lemma index_of_covers:
  assumes "index_of s old = Some i" shows "take (length old) (drop i s) = old"
  using index_of_Some [OF assms] by auto

lemma fuzzyFindText_exact:
  "index_of s old = Some i \<Longrightarrow> fuzzyFindText nfkc s old
     = \<lparr>found = True, match_index = int i, match_length = length old, usedFuzzyMatch = False, contentForReplacement = s\<rparr>"
  by (simp add: fuzzyFindText_def)

lemma check_overlap_disjoint:
  assumes "check_overlap path rs = Inr ()" and "\<forall>r\<in>set rs. matchIndex r + matchLength r \<le> en"
    and "rs = [] \<or> pos \<le> matchIndex (hd rs)" and "pos \<le> en"
  shows "disjoint_in pos en rs"
  using assms
proof (induction path rs arbitrary: pos rule: check_overlap.induct)
  case (1 path r q rs)
  then show ?case by (auto split: if_splits)
qed auto

lemma match_edit_exact:
  assumes "match_edit nfkc path base n i e = Inr m" and "index_of base (oldText e) \<noteq> None"
  shows "editIndex m = i \<and> newText m = edit_newText e \<and> matchLength m = length (oldText e)
    \<and> matchIndex m + matchLength m \<le> length base \<and> take (matchLength m) (drop (matchIndex m) base) = oldText e"
proof -
  from assms(2) obtain k where k: "index_of base (oldText e) = Some k" by blast
  from assms(1) have "m = \<lparr>editIndex = i, matchIndex = k, matchLength = length (oldText e), newText = edit_newText e\<rparr>"
    by (auto simp: match_edit_def fuzzyFindText_exact [OF k] Let_def bindR_Inr_iff)
  then show ?thesis using index_of_length [OF k] index_of_covers [OF k] by simp
qed

lemma match_edits_exact:
  assumes "match_edits nfkc path base es = Inr ms" and "\<forall>e\<in>set es. index_of base (oldText e) \<noteq> None"
  shows "map (\<lambda>m. es ! editIndex m) ms = es"
    and "\<forall>m\<in>set ms. newText m = edit_newText (es ! editIndex m) \<and> matchIndex m + matchLength m \<le> length base
      \<and> covers base (\<lambda>m. oldText (es ! editIndex m)) 0 m"
proof -
  have len: "length ms = length es" and each: "\<And>i. i < length es \<Longrightarrow> match_edit nfkc path base (length es) i (es ! i) = Inr (ms ! i)"
    using assms(1) by (auto simp: match_edits_def foldR_collect list_all2_conv_all_nth nth_enumerate_eq)
  have m: "editIndex (ms ! i) = i \<and> newText (ms ! i) = edit_newText (es ! i) \<and> matchIndex (ms ! i) + matchLength (ms ! i) \<le> length base
      \<and> take (matchLength (ms ! i)) (drop (matchIndex (ms ! i)) base) = oldText (es ! i)" if "i < length es" for i
    using match_edit_exact [OF each [OF that]] assms(2) nth_mem [OF that] by blast
  show "map (\<lambda>m. es ! editIndex m) ms = es" by (rule nth_equalityI) (use len m in auto)
  show "\<forall>m\<in>set ms. newText m = edit_newText (es ! editIndex m) \<and> matchIndex m + matchLength m \<le> length base
      \<and> covers base (\<lambda>m. oldText (es ! editIndex m)) 0 m"
    using len m by (auto simp: in_set_conv_nth covers_def)
qed

lemma sorted_matches_disjoint:
  assumes "check_overlap path (sort_key matchIndex ms) = Inr ()" and "\<forall>m\<in>set ms. matchIndex m + matchLength m \<le> n"
  shows "disjoint_in 0 n (sort_key matchIndex ms)"
  by (rule check_overlap_disjoint [OF assms(1)]) (use assms(2) in auto)

lemma applyEdits_elim:
  assumes "applyEditsToNormalizedContent nfkc c edits path = Inr (b, n)"
    and "\<forall>e\<in>set edits. index_of c (normalizeToLF (oldText e)) \<noteq> None"
  obtains ms where "match_edits nfkc path c (map normalize_edit edits) = Inr ms"
    "check_overlap path (sort_key matchIndex ms) = Inr ()" "n = applyReplacements c (sort_key matchIndex ms) 0" "b = c" "n \<noteq> c"
proof -
  have "\<not> usedFuzzyMatch (fuzzyFindText nfkc c (oldText e))" if "e \<in> set (map normalize_edit edits)" for e
    using that assms(2) by (fastforce simp: normalize_edit_def fuzzyFindText_exact)
  then have "list_ex (\<lambda>e. usedFuzzyMatch (fuzzyFindText nfkc c (oldText e))) (map normalize_edit edits) = False"
    by (auto simp: list_ex_iff)
  with assms(1) have "\<exists>ms u. match_edits nfkc path c (map normalize_edit edits) = Inr ms
      \<and> check_overlap path (sort_key matchIndex ms) = Inr u \<and> n = applyReplacements c (sort_key matchIndex ms) 0 \<and> b = c \<and> n \<noteq> c"
    unfolding applyEditsToNormalizedContent_def Let_def by (auto simp only: bindR_Inr_iff if_False guardR_simps) auto
  then show ?thesis using that by auto
qed

text \<open>C28: When every old text occurs in the content as it is, a successful edit replaces one occurrence of
  each, all at once: the content is gaps and old texts, the result the same gaps and the new texts, each
  edit is used exactly once, and the result differs from the content.\<close>

theorem applyEdits_exact:
  assumes "applyEditsToNormalizedContent nfkc c edits path = Inr (b, n)"
    and "\<forall>e\<in>set edits. index_of c (normalizeToLF (oldText e)) \<noteq> None"
  shows "b = c \<and> n \<noteq> c \<and> (\<exists>g es hs. mset es = mset (map normalize_edit edits) \<and> length hs = length es
    \<and> c = weave g (zip (map oldText es) hs) \<and> n = weave g (zip (map edit_newText es) hs))"
proof -
  let ?es = "map normalize_edit edits"
  obtain ms where ms: "match_edits nfkc path c ?es = Inr ms" "check_overlap path (sort_key matchIndex ms) = Inr ()"
    "n = applyReplacements c (sort_key matchIndex ms) 0" "b = c" "n \<noteq> c"
    by (rule applyEdits_elim [OF assms])
  have "\<forall>e\<in>set ?es. index_of c (oldText e) \<noteq> None" using assms(2) by (auto simp: normalize_edit_def)
  note m = match_edits_exact [OF ms(1) this]
  let ?rs = "sort_key matchIndex ms" and ?old = "\<lambda>m. oldText (?es ! editIndex m)"
  define es where "es = map (\<lambda>m. ?es ! editIndex m) ?rs"
  have "mset es = mset ?es" unfolding es_def by (subst (2) m(1) [symmetric]) (simp only: mset_map mset_sort)
  moreover have d: "disjoint_in 0 (0 + length c) ?rs" using sorted_matches_disjoint [OF ms(2), of "length c"] m(2) by simp
  have cov: "\<forall>r\<in>set ?rs. covers c ?old 0 r" using m(2) by simp
  obtain g hs where g: "length hs = length ?rs" "c = weave g (zip (map ?old ?rs) hs)"
    "replace_from 0 c ?rs = weave g (zip (map newText ?rs) hs)"
    using weave_replacements [OF d cov] by blast
  have "map newText ?rs = map edit_newText es" "map ?old ?rs = map oldText es" using m(2) by (simp_all add: es_def)
  then have "c = weave g (zip (map oldText es) hs)" "n = weave g (zip (map edit_newText es) hs)"
    using g applyReplacements_replace_from [OF d] ms(3) by simp_all
  ultimately show ?thesis using ms(4,5) g(1) by (metis es_def length_map)
qed

definition demo_edits :: "edit list" where
  "demo_edits = [\<lparr>oldText = js ''c'', edit_newText = js ''xy''\<rparr>, \<lparr>oldText = js ''a'', edit_newText = []\<rparr>]"

lemmas edit_eval = applyEditsToNormalizedContent_def check_not_empty_def match_edits_def match_edit_def fuzzyFindText_def
  countOccurrences_def count_pieces.simps normalize_edit_def normalizeToLF_def normalizeForFuzzyMatch_def trimEnd_def
  js_space_def ascii_variant_def applyReplacements_def apply_replacement_def LF_def CR_def js_def

lemma demo_edits_applied: "applyEditsToNormalizedContent id (js ''abc'') demo_edits ''f'' = Inr (js ''abc'', js ''bxy'')"
  by (simp add: edit_eval demo_edits_def)

theorem applyEdits_exact_witness:
  "\<exists>g es hs. mset es = mset (map normalize_edit demo_edits) \<and> length hs = length es
    \<and> js ''abc'' = weave g (zip (map oldText es) hs) \<and> js ''bxy'' = weave g (zip (map edit_newText es) hs)"
proof -
  have "\<forall>e\<in>set demo_edits. index_of (js ''abc'') (normalizeToLF (oldText e)) \<noteq> None"
    by (simp add: demo_edits_def normalizeToLF_def js_def LF_def CR_def)
  from applyEdits_exact [OF demo_edits_applied this] show ?thesis by blast
qed

text \<open>An old text of white space only is searched as the empty text when it does not occur: it is found
  at the start of the file, and a file of one or two characters gets the new text inserted there.\<close>

lemma blank_old_text_inserts:
  "applyEditsToNormalizedContent id (js ''x'') [\<lparr>oldText = js ''  '', edit_newText = js ''y''\<rparr>] ''f''
     = Inr (js ''x'', js ''yx'')"
  by (simp add: edit_eval applyReplacementsPreservingUnchangedLines_def getLineSpans_def add_to_groups_def slice_def
      getReplacementLineRange_def find_end_line.simps Let_def)

section \<open>Line endings\<close>

lemma replace_crlf_no_cr: "CR \<notin> set s \<Longrightarrow> replace_crlf s = s"
  by (induction s rule: replace_crlf.induct) auto

lemma normalizeToLF_id: "CR \<notin> set s \<Longrightarrow> normalizeToLF s = s"
  by (auto simp: normalizeToLF_def replace_crlf_no_cr intro: map_idI)

lemma normalizeToLF_no_cr: "CR \<notin> set (normalizeToLF s)"
  by (auto simp: normalizeToLF_def CR_def LF_def)

definition to_crlf :: "js_string \<Rightarrow> js_string" where
  "to_crlf s = concat (map (\<lambda>c. if c = LF then [CR, LF] else [c]) s)"

lemma replace_to_crlf: "CR \<notin> set s \<Longrightarrow> replace_crlf (to_crlf s) = s"
proof (induction s)
  case Nil
  then show ?case by (simp add: to_crlf_def)
next
  case (Cons c s)
  have plain: "replace_crlf (c # t) = c # replace_crlf t" if "c \<noteq> CR" for t using that by (cases t) auto
  show ?case using Cons plain by (auto simp: to_crlf_def)
qed

lemma normalize_restore: "CR \<notin> set s \<Longrightarrow> normalizeToLF (restoreLineEndings s ending) = s"
proof (cases ending)
  case CRLF_ending
  assume "CR \<notin> set s"
  then show ?thesis using CRLF_ending replace_to_crlf [of s]
    by (auto simp: restoreLineEndings_def normalizeToLF_def to_crlf_def intro: map_idI)
qed (simp add: restoreLineEndings_def normalizeToLF_id)

lemma index_of_absent: "c \<notin> set s \<Longrightarrow> index_of s (c # p) = None"
  by (induction s) auto

lemma detect_to_crlf:
  assumes "CR \<notin> set s" "LF \<in> set s"
  shows "\<exists>i. index_of (to_crlf s) [CR, LF] = Some i \<and> index_of (to_crlf s) [LF] = Some (Suc i)"
  using assms
proof (induction s)
  case (Cons c s)
  then show ?case by (cases "c = LF") (auto simp: to_crlf_def CR_def LF_def)
qed simp

lemma detect_restore:
  assumes "CR \<notin> set s" "LF \<in> set s"
  shows "detectLineEnding (restoreLineEndings s ending) = ending"
proof (cases ending)
  case CRLF_ending
  then show ?thesis using detect_to_crlf [OF assms]
    by (auto simp: restoreLineEndings_def to_crlf_def detectLineEnding_def)
next
  case LF_ending
  then show ?thesis using index_of_absent [OF assms(1), of "[LF]"]
    by (auto simp: restoreLineEndings_def detectLineEnding_def split: option.splits)
qed

section \<open>Characters of the result\<close>

lemma concat_lines [simp]: "concat (splitLinesWithEndings s) = s"
proof (induction s)
  case (Cons c s)
  then show ?case by (cases "splitLinesWithEndings s") auto
qed simp

lemma set_applyReplacements: "set (applyReplacements s rs off) \<subseteq> set s \<union> (\<Union>r\<in>set rs. set (newText r))"
proof (induction rs)
  case (Cons r rs)
  have "set (apply_replacement off r t) \<subseteq> set t \<union> set (newText r)" for t
    using set_take_subset [of _ t] set_drop_subset [of _ t] by (force simp: apply_replacement_def Let_def)
  then show ?case using Cons by (fastforce simp: applyReplacements_Cons)
qed simp

lemma set_slice: "set (slice i j xs) \<subseteq> set xs"
  using set_take_subset set_drop_subset by (fastforce simp: slice_def)

lemma set_rewrite_groups:
  "set (rewrite_groups ls base spans i gs)
     \<subseteq> set (concat ls) \<union> set base \<union> (\<Union>g\<in>set gs. \<Union>r\<in>set (group_replacements g). set (newText r))"
proof (induction gs arbitrary: i)
  case Nil
  show ?case using set_drop_subset [of i ls] by auto
next
  case (Cons g gs)
  let ?s = "slice (fst (spans ! startLine g)) (snd (spans ! (endLine g - 1))) base"
  have "set (concat (slice i (startLine g) ls)) \<subseteq> set (concat ls)" using set_slice [of i "startLine g" ls] by auto
  moreover have "set (applyReplacements ?s (group_replacements g) (fst (spans ! startLine g)))
      \<subseteq> set base \<union> (\<Union>r\<in>set (group_replacements g). set (newText r))"
    using set_applyReplacements [of ?s "group_replacements g"] set_slice [of _ _ base] by blast
  ultimately show ?case using Cons [of "endLine g"] by (auto simp: Let_def)
qed

lemma groups_replacements:
  assumes "foldR (add_to_groups spans) gs rs = Inr gs'"
  shows "(\<Union>g\<in>set gs'. set (group_replacements g)) \<subseteq> (\<Union>g\<in>set gs. set (group_replacements g)) \<union> set rs"
proof (rule foldR_invariant [OF assms, of "\<lambda>gs'. (\<Union>g\<in>set gs'. set (group_replacements g)) \<subseteq> (\<Union>g\<in>set gs. set (group_replacements g)) \<union> set rs"])
  fix hs r hs'
  assume a: "(\<Union>g\<in>set hs. set (group_replacements g)) \<subseteq> (\<Union>g\<in>set gs. set (group_replacements g)) \<union> set rs"
    "r \<in> set rs" "add_to_groups spans hs r = Inr hs'"
  have "set (butlast hs) \<subseteq> set hs" "hs \<noteq> [] \<Longrightarrow> last hs \<in> set hs" by (auto dest: in_set_butlastD)
  then show "(\<Union>g\<in>set hs'. set (group_replacements g)) \<subseteq> (\<Union>g\<in>set gs. set (group_replacements g)) \<union> set rs"
    using a by (fastforce simp: add_to_groups_def bindR_Inr_iff split: if_splits)
qed simp

lemma set_preserving:
  assumes "applyReplacementsPreservingUnchangedLines original base rs = Inr res"
  shows "set res \<subseteq> set original \<union> set base \<union> (\<Union>r\<in>set rs. set (newText r))"
proof -
  from assms obtain gs where gs: "foldR (add_to_groups (getLineSpans base)) [] (sort_key matchIndex rs) = Inr gs"
    "res = rewrite_groups (splitLinesWithEndings original) base (getLineSpans base) 0 gs"
    by (auto simp: applyReplacementsPreservingUnchangedLines_def Let_def bindR_Inr_iff split: if_splits)
  have "(\<Union>g\<in>set gs. set (group_replacements g)) \<subseteq> set rs" using groups_replacements [OF gs(1)] by simp
  then have "(\<Union>g\<in>set gs. \<Union>r\<in>set (group_replacements g). set (newText r)) \<subseteq> (\<Union>r\<in>set rs. set (newText r))"
    by (intro UN_least) (rule UN_upper, blast)
  moreover have "set res \<subseteq> set original \<union> set base \<union> (\<Union>g\<in>set gs. \<Union>r\<in>set (group_replacements g). set (newText r))"
    using set_rewrite_groups [of "splitLinesWithEndings original" base "getLineSpans base" 0 gs]
    unfolding gs(2) concat_lines .
  ultimately show ?thesis by (meson Un_mono order_refl order_trans)
qed

lemma ascii_variant_CR: "ascii_variant c = CR \<Longrightarrow> c = CR"
  by (auto simp: ascii_variant_def CR_def Let_def split: if_splits)

lemma set_join_on: "set (join_on c ls) \<subseteq> insert c (\<Union>l\<in>set ls. set l)"
  by (induction ls) (auto simp: join_on_Cons)

lemma normalizeForFuzzyMatch_no_cr:
  assumes "CR \<notin> set (nfkc s)" shows "CR \<notin> set (normalizeForFuzzyMatch nfkc s)"
proof
  assume "CR \<in> set (normalizeForFuzzyMatch nfkc s)"
  then have "CR \<in> set (join_on LF (map trimEnd (split_on LF (nfkc s))))"
    by (auto simp: normalizeForFuzzyMatch_def dest: ascii_variant_CR [OF sym])
  then obtain l where "l \<in> set (split_on LF (nfkc s))" "CR \<in> set (trimEnd l)"
    using set_join_on [of LF "map trimEnd (split_on LF (nfkc s))"] by (auto simp: CR_def LF_def)
  moreover from this have "CR \<in> set l" using set_dropWhileD by (fastforce simp: trimEnd_def)
  moreover have "set (join_on LF (split_on LF (nfkc s))) = set (nfkc s)" by simp
  moreover have "l \<in> set ls \<Longrightarrow> set l \<subseteq> set (join_on LF ls)" for l ls by (induction ls) (auto simp: join_on_Cons)
  ultimately show False using assms by blast
qed

lemma match_edits_newText:
  assumes "match_edits nfkc path base es = Inr ms" and "m \<in> set ms"
  shows "\<exists>e\<in>set es. newText m = edit_newText e"
proof -
  from assms(1) have "list_all2 (\<lambda>ie m. match_edit nfkc path base (length es) (fst ie) (snd ie) = Inr m) (enumerate 0 es) ms"
    by (simp add: match_edits_def foldR_collect)
  then obtain i where "i < length es" "match_edit nfkc path base (length es) i (es ! i) = Inr m"
    using assms(2) by (auto simp: list_all2_conv_all_nth in_set_conv_nth nth_enumerate_eq)
  then show ?thesis by (auto simp: match_edit_def Let_def bindR_Inr_iff)
qed

lemma applyEdits_no_cr:
  assumes "applyEditsToNormalizedContent nfkc c edits path = Inr (b, n)" and "CR \<notin> set c" and "CR \<notin> set (nfkc c)"
  shows "CR \<notin> set n"
proof -
  let ?es = "map normalize_edit edits"
  define fuzzy base where "fuzzy = list_ex (\<lambda>e. usedFuzzyMatch (fuzzyFindText nfkc c (oldText e))) ?es"
    and "base = (if fuzzy then normalizeForFuzzyMatch nfkc c else c)"
  have "\<exists>ms. match_edits nfkc path base ?es = Inr ms \<and>
      (if fuzzy then applyReplacementsPreservingUnchangedLines c base (sort_key matchIndex ms)
       else Inr (applyReplacements base (sort_key matchIndex ms) 0)) = Inr n"
    using assms(1) unfolding applyEditsToNormalizedContent_def Let_def fuzzy_def [symmetric] base_def [symmetric]
    by (auto simp only: bindR_Inr_iff guardR_simps)
  then obtain ms where ms: "match_edits nfkc path base ?es = Inr ms"
    "(if fuzzy then applyReplacementsPreservingUnchangedLines c base (sort_key matchIndex ms)
       else Inr (applyReplacements base (sort_key matchIndex ms) 0)) = Inr n" by blast
  have base: "CR \<notin> set base" using assms(2) normalizeForFuzzyMatch_no_cr [of nfkc c] assms(3) by (simp add: base_def)
  have "CR \<notin> set (newText m)" if "m \<in> set ms" for m
    using match_edits_newText [OF ms(1) that] normalizeToLF_no_cr by (auto simp: normalize_edit_def)
  then have new: "CR \<notin> (\<Union>r\<in>set (sort_key matchIndex ms). set (newText r))" by simp
  show ?thesis
  proof (cases fuzzy)
    case True
    then show ?thesis using ms(2) set_preserving [of c base "sort_key matchIndex ms" n] base new assms(2) by auto
  next
    case False
    then show ?thesis using ms(2) set_applyReplacements [of base "sort_key matchIndex ms" 0] base new by auto
  qed
qed

text \<open>What the edit tool writes is its byte order mark, if the file had one, and a text that reads back
  as the new content: normalising the line ends again gives the new content, and the line ending that is
  detected then is the one of the original file. Unicode normalisation must not introduce carriage
  returns, which it does not.\<close>

theorem edit_content_reread:
  assumes "edit_content nfkc s edits path = Inr (base, new, final)"
    and "\<And>t. CR \<notin> set t \<Longrightarrow> CR \<notin> set (nfkc t)"
  shows "\<exists>body. final = fst (stripBom s) @ body \<and> normalizeToLF body = new
    \<and> (if LF \<in> set new then detectLineEnding body = detectLineEnding (snd (stripBom s)) else True)"
proof -
  obtain bom content where b: "stripBom s = (bom, content)" by (cases "stripBom s")
  from assms(1) b have a: "applyEditsToNormalizedContent nfkc (normalizeToLF content) edits path = Inr (base, new)"
    and f: "final = bom @ restoreLineEndings new (detectLineEnding content)"
    by (auto simp: edit_content_def bindR_Inr_iff)
  have "CR \<notin> set new" by (rule applyEdits_no_cr [OF a]) (simp_all add: normalizeToLF_no_cr assms(2))
  then show ?thesis using f b normalize_restore detect_restore
    by (intro exI [of _ "restoreLineEndings new (detectLineEnding content)"]) auto
qed

section \<open>Lines that no replacement touches\<close>

text \<open>Where a line starts in the text of all lines; it ends where the next one starts. A replacement touches
  the lines that its match overlaps, and when the match is empty the line that it stands in. A line that starts where the match ends is not touched.\<close>

definition line_start :: "js_string list \<Rightarrow> nat \<Rightarrow> nat" where
  "line_start ls i = length (concat (take i ls))"

definition touches :: "js_string list \<Rightarrow> text_replacement \<Rightarrow> nat \<Rightarrow> bool" where
  "touches ls r i \<longleftrightarrow>
     i < length ls \<and> matchIndex r < line_start ls (Suc i)
     \<and> (line_start ls i < matchIndex r + matchLength r \<or> line_start ls i \<le> matchIndex r)"

fun chained :: "nat \<Rightarrow> nat \<Rightarrow> line_group list \<Rightarrow> bool" where
  "chained i n [] = (i \<le> n)"
| "chained i n (g # gs) = (i \<le> startLine g \<and> startLine g < endLine g \<and> chained (endLine g) n gs)"

text \<open>The lines of a text with the lines of each group replaced by a text.\<close>

fun fill :: "js_string list \<Rightarrow> nat \<Rightarrow> (line_group \<times> js_string) list \<Rightarrow> js_string" where
  "fill ls i [] = concat (drop i ls)"
| "fill ls i ((g, t) # gs) = concat (slice i (startLine g) ls) @ t @ fill ls (endLine g) gs"

lemma chained_snoc:
  "chained i n (gs @ [g]) \<longleftrightarrow> chained i (startLine g) gs \<and> startLine g < endLine g \<and> endLine g \<le> n"
  by (induction gs arbitrary: i) auto

lemma chained_member: "chained i n gs \<Longrightarrow> g \<in> set gs \<Longrightarrow> startLine g < endLine g \<and> endLine g \<le> n"
proof (induction gs arbitrary: i)
  case (Cons h gs)
  have "chained j n hs \<Longrightarrow> j \<le> n" for j hs by (induction hs arbitrary: j) fastforce+
  then show ?case using Cons by auto
qed simp

lemma fill_original:
  assumes "chained i (length ls) gs"
  shows "fill ls i (map (\<lambda>g. (g, concat (slice (startLine g) (endLine g) ls))) gs) = concat (drop i ls)"
  using assms
proof (induction gs arbitrary: i)
  case (Cons g gs)
  then have "i \<le> startLine g" "startLine g \<le> endLine g" by auto
  then have "drop i ls = slice i (startLine g) ls @ slice (startLine g) (endLine g) ls @ drop (endLine g) ls"
    by (simp add: slice_def) (metis append_take_drop_id drop_drop le_add_diff_inverse2)
  then have "concat (drop i ls) = concat (slice i (startLine g) ls) @ concat (slice (startLine g) (endLine g) ls) @ concat (drop (endLine g) ls)"
    by simp
  then show ?case using Cons by simp
qed simp

lemma rewrite_groups_fill:
  "rewrite_groups ls base spans i gs =
     fill ls i (map (\<lambda>g. (g, applyReplacements (slice (fst (spans ! startLine g)) (snd (spans ! (endLine g - 1))) base)
       (group_replacements g) (fst (spans ! startLine g)))) gs)"
  by (induction gs arbitrary: i) (simp_all add: Let_def)

text \<open>The spans of the lines.\<close>

lemma line_spans_length [simp]: "length (line_spans off ls) = length ls"
  by (induction ls arbitrary: off) auto

lemma line_spans_nth: "i < length ls \<Longrightarrow> line_spans off ls ! i = (off + line_start ls i, off + line_start ls (Suc i))"
proof (induction ls arbitrary: off i)
  case (Cons l ls)
  then show ?case by (cases i) (simp_all add: line_start_def)
qed simp

lemma line_start_mono: "i \<le> j \<Longrightarrow> line_start ls i \<le> line_start ls j"
  by (auto simp: line_start_def le_iff_add take_add)

lemma slice_lines: "i \<le> j \<Longrightarrow> slice (line_start ls i) (line_start ls j) (concat ls) = concat (slice i j ls)"
proof -
  assume "i \<le> j"
  then obtain k where j: "j = i + k" by (auto simp: le_iff_add)
  have "concat ls = concat (take i ls) @ concat (take k (drop i ls)) @ concat (drop k (drop i ls))"
    by (metis append_take_drop_id concat_append)
  then show ?thesis unfolding slice_def line_start_def j take_add by simp
qed

lemma find_start_line_Some:
  "find_start_line ls pos k = Some s \<Longrightarrow> k \<le> s \<and> s - k < length ls \<and> fst (ls ! (s - k)) \<le> pos \<and> pos < snd (ls ! (s - k))"
proof (induction ls pos k rule: find_start_line.induct)
  case (2 st en ls pos i)
  show ?case
  proof (cases "st \<le> pos \<and> pos < en")
    case False
    then have ih: "Suc i \<le> s \<and> s - Suc i < length ls \<and> fst (ls ! (s - Suc i)) \<le> pos \<and> pos < snd (ls ! (s - Suc i))"
      using 2 by (auto split: if_splits)
    then have "s - i = Suc (s - Suc i)" by linarith
    then show ?thesis using ih by simp
  qed (use 2 in auto)
qed simp

lemma find_end_line_spec:
  "i \<le> find_end_line ls pos i \<and> (\<forall>j. i \<le> j \<and> j < find_end_line ls pos i \<longrightarrow> snd (ls ! j) < pos)
    \<and> (find_end_line ls pos i < length ls \<longrightarrow> pos \<le> snd (ls ! find_end_line ls pos i))"
proof (induction ls pos i rule: find_end_line.induct)
  case (1 ls pos i)
  show ?case
  proof (cases "i < length ls \<and> snd (ls ! i) < pos")
    case True
    then have "find_end_line ls pos i = find_end_line ls pos (Suc i)" by (simp add: find_end_line.simps [of ls pos i])
    then show ?thesis using 1 [OF True] True by (metis Suc_leD Suc_leI le_eq_less_or_eq)
  next
    case False
    then have "find_end_line ls pos i = i" by (simp only: find_end_line.simps [of ls pos i] if_False)
    then show ?thesis using False by auto
  qed
qed

text \<open>The range of lines of a replacement: the touched lines, and the match lies inside.\<close>

lemma replacement_range:
  assumes "getReplacementLineRange (line_spans 0 ls) r = Inr (s, e)"
  shows "s < e \<and> e \<le> length ls \<and> (\<forall>i. s \<le> i \<and> i < e \<longleftrightarrow> touches ls r i)
    \<and> line_start ls s \<le> matchIndex r \<and> matchIndex r + matchLength r \<le> line_start ls e"
proof -
  let ?p = "matchIndex r + matchLength r" and ?spans = "line_spans 0 ls"
  from assms obtain f where s: "find_start_line ?spans (matchIndex r) 0 = Some s"
    and f: "f = find_end_line ?spans ?p s" "f < length ls" "e = Suc f"
    by (auto simp: getReplacementLineRange_def Let_def split: option.splits if_splits)
  have st: "s < length ls" "line_start ls s \<le> matchIndex r" "matchIndex r < line_start ls (Suc s)"
    using find_start_line_Some [OF s] by (auto simp: line_spans_nth)
  have en: "s \<le> f" "?p \<le> line_start ls (Suc f)" "\<And>j. s \<le> j \<Longrightarrow> j < f \<Longrightarrow> line_start ls (Suc j) < ?p"
    using find_end_line_spec [of s ?spans ?p] f(1,2) by (auto simp: line_spans_nth)
  have "touches ls r i" if i: "s \<le> i" "i < e" for i
  proof -
    have "matchIndex r < line_start ls (Suc i)" using line_start_mono [of "Suc s" "Suc i" ls] i(1) st(3) by simp
    moreover have "line_start ls i < ?p \<or> line_start ls i \<le> matchIndex r"
    proof (cases "i = s")
      case False
      then obtain j where "i = Suc j" "s \<le> j" "j < f" using i f by (cases i) auto
      then show ?thesis using en(3) by simp
    qed (use st in simp)
    ultimately show ?thesis using i f by (simp add: touches_def)
  qed
  moreover have "s \<le> i \<and> i < e" if t: "touches ls r i" for i
  proof (rule ccontr)
    assume "\<not> (s \<le> i \<and> i < e)"
    then consider "Suc i \<le> s" | "Suc f \<le> i" using f(3) by linarith
    then show False
    proof cases
      case 1
      then show False using line_start_mono [OF 1, of ls] st(2) t by (simp add: touches_def)
    next
      case 2
      have "line_start ls (Suc s) \<le> line_start ls i" "line_start ls (Suc f) \<le> line_start ls i"
        using 2 en(1) by (simp_all add: line_start_mono)
      then show False using st(3) en(2) t by (simp add: touches_def)
    qed
  qed
  ultimately show ?thesis using st(2) en f by auto
qed

definition in_group :: "nat \<Rightarrow> line_group \<Rightarrow> bool" where
  "in_group i g \<longleftrightarrow> startLine g \<le> i \<and> i < endLine g"

text \<open>The groups follow each other, their lines are those their replacements touch, and their matches lie inside them.\<close>

definition groups_ok :: "js_string list \<Rightarrow> line_group list \<Rightarrow> bool" where
  "groups_ok ls gs \<longleftrightarrow> chained 0 (length ls) gs \<and>
     (\<forall>g\<in>set gs. group_replacements g \<noteq> [] \<and> line_start ls (startLine g) \<le> matchIndex (hd (group_replacements g))
        \<and> (\<forall>r\<in>set (group_replacements g). matchIndex r + matchLength r \<le> line_start ls (endLine g))
        \<and> (\<forall>i. in_group i g \<longleftrightarrow> (\<exists>r\<in>set (group_replacements g). touches ls r i)))"

lemma add_to_groups_ok:
  assumes "add_to_groups (line_spans 0 ls) gs r = Inr hs" and ok: "groups_ok ls gs"
    and later: "\<forall>q\<in>set (concat (map group_replacements gs)). matchIndex q \<le> matchIndex r"
  shows "groups_ok ls hs \<and> concat (map group_replacements hs) = concat (map group_replacements gs) @ [r]"
proof -
  from assms(1) obtain s e where se: "getReplacementLineRange (line_spans 0 ls) r = Inr (s, e)"
    and hs: "hs = (if gs \<noteq> [] \<and> s < endLine (last gs)
       then butlast gs @ [(last gs)\<lparr>endLine := max (endLine (last gs)) e, group_replacements := group_replacements (last gs) @ [r]\<rparr>]
       else gs @ [\<lparr>startLine = s, endLine = e, group_replacements = [r]\<rparr>])"
    by (auto simp: add_to_groups_def bindR_Inr_iff split: if_splits)
  note range = replacement_range [OF se]
  show ?thesis
  proof (cases "gs \<noteq> [] \<and> s < endLine (last gs)")
    case True
    define g gs' where "g = last gs" and "gs' = butlast gs"
    have gs: "gs = gs' @ [g]" and lt: "s < endLine g" using True by (simp_all add: g_def gs'_def)
    let ?h = "g\<lparr>endLine := max (endLine g) e, group_replacements := group_replacements g @ [r]\<rparr>"
    have hs': "hs = gs' @ [?h]" using hs True by (simp add: g_def gs'_def)
    have g: "group_replacements g \<noteq> []" "line_start ls (startLine g) \<le> matchIndex (hd (group_replacements g))"
      "\<forall>q\<in>set (group_replacements g). matchIndex q + matchLength q \<le> line_start ls (endLine g)"
      "\<forall>i. in_group i g \<longleftrightarrow> (\<exists>q\<in>set (group_replacements g). touches ls q i)" "chained 0 (length ls) (gs' @ [g])"
      using ok by (auto simp: groups_ok_def gs)
    have "hd (group_replacements g) \<in> set (concat (map group_replacements gs))" using hd_in_set [OF g(1)] by (auto simp: gs)
    then have "line_start ls (startLine g) \<le> matchIndex r" using g(2) later by (meson order_trans)
    moreover have "matchIndex r < line_start ls (Suc s)" using range by (auto simp: touches_def)
    ultimately have sg: "startLine g \<le> s" using line_start_mono [of "Suc s" "startLine g" ls] by (meson leD leI not_less_eq_eq order_le_less_trans)
    have "in_group i ?h \<longleftrightarrow> in_group i g \<or> s \<le> i \<and> i < e" for i using sg lt by (auto simp: in_group_def less_max_iff_disj)
    then have lines: "\<forall>i. in_group i ?h \<longleftrightarrow> (\<exists>q\<in>set (group_replacements ?h). touches ls q i)"
      using g(4) range by auto
    have bound: "\<forall>q\<in>set (group_replacements ?h). matchIndex q + matchLength q \<le> line_start ls (endLine ?h)"
    proof
      fix q assume q: "q \<in> set (group_replacements ?h)"
      have "line_start ls (endLine g) \<le> line_start ls (endLine ?h)" "line_start ls e \<le> line_start ls (endLine ?h)"
        by (simp_all add: line_start_mono)
      moreover have "matchIndex q + matchLength q \<le> line_start ls (endLine g) \<or> matchIndex q + matchLength q \<le> line_start ls e"
        using q g(3) range by auto
      ultimately show "matchIndex q + matchLength q \<le> line_start ls (endLine ?h)" by linarith
    qed
    have "e \<le> length ls" using range by blast
    then have "chained 0 (length ls) (gs' @ [?h])" using g(5) unfolding chained_snoc by (simp add: less_max_iff_disj)
    moreover have "\<forall>h\<in>set gs'. group_replacements h \<noteq> [] \<and> line_start ls (startLine h) \<le> matchIndex (hd (group_replacements h))
        \<and> (\<forall>r\<in>set (group_replacements h). matchIndex r + matchLength r \<le> line_start ls (endLine h))
        \<and> (\<forall>i. in_group i h \<longleftrightarrow> (\<exists>r\<in>set (group_replacements h). touches ls r i))"
      using ok by (simp add: groups_ok_def gs)
    ultimately show ?thesis using lines bound g(1,2) unfolding groups_ok_def hs' by (simp add: gs)
  next
    case False
    let ?h = "\<lparr>startLine = s, endLine = e, group_replacements = [r]\<rparr>"
    have hs': "hs = gs @ [?h]" using False hs by (simp only: if_False)
    have "chained 0 s gs"
    proof (cases "gs = []")
      case ne: False
      define g gs' where "g = last gs" and "gs' = butlast gs"
      have gs: "gs = gs' @ [g]" using ne by (simp add: g_def gs'_def)
      have "endLine g \<le> s" using False ne by (auto simp: g_def)
      then show ?thesis using ok unfolding gs groups_ok_def chained_snoc by simp
    qed simp
    moreover have "s < e" "e \<le> length ls" "line_start ls s \<le> matchIndex r" "matchIndex r + matchLength r \<le> line_start ls e"
      "\<forall>i. in_group i ?h \<longleftrightarrow> touches ls r i" using range by (simp_all add: in_group_def)
    ultimately show ?thesis using ok unfolding hs' groups_ok_def chained_snoc by simp
  qed
qed

lemma groups_built:
  assumes "foldR (add_to_groups (line_spans 0 ls)) gs rs = Inr hs" and "groups_ok ls gs"
    and "sorted (map matchIndex (concat (map group_replacements gs) @ rs))"
  shows "groups_ok ls hs \<and> concat (map group_replacements hs) = concat (map group_replacements gs) @ rs"
  using assms
proof (induction rs arbitrary: gs)
  case (Cons r rs)
  from Cons.prems(1) obtain gs1 where g: "add_to_groups (line_spans 0 ls) gs r = Inr gs1"
      "foldR (add_to_groups (line_spans 0 ls)) gs1 rs = Inr hs"
    by (auto split: sum.splits)
  have "\<forall>q\<in>set (concat (map group_replacements gs)). matchIndex q \<le> matchIndex r"
    using Cons.prems(3) by (simp add: sorted_append)
  note ok = add_to_groups_ok [OF g(1) Cons.prems(2) this]
  show ?case using Cons.IH [OF g(2)] ok Cons.prems(3) by simp
qed simp

lemma disjoint_in_append: "disjoint_in pos en (xs @ ys) \<Longrightarrow> disjoint_in pos en xs \<and> (\<exists>pos'. disjoint_in pos' en ys)"
proof (induction xs arbitrary: pos)
  case Nil
  then show ?case using disjoint_in_start by auto
qed auto

lemma disjoint_in_bounds:
  assumes "disjoint_in pos en rs" "rs \<noteq> []" "pos' \<le> matchIndex (hd rs)" "\<forall>r\<in>set rs. matchIndex r + matchLength r \<le> en'"
  shows "disjoint_in pos' en' rs"
  using assms
proof (induction rs arbitrary: pos pos')
  case (Cons r rs)
  show ?case
  proof (cases rs)
    case Nil
    then show ?thesis using Cons.prems by simp
  next
    case (Cons q qs)
    then show ?thesis using Cons.IH [of "matchIndex r + matchLength r" "matchIndex r + matchLength r"] Cons.prems by simp
  qed
qed simp

lemma group_disjoint:
  assumes "disjoint_in pos en (concat (map group_replacements gs))" "g \<in> set gs"
  shows "\<exists>pos'. disjoint_in pos' en (group_replacements g)"
  using assms
proof (induction gs arbitrary: pos)
  case (Cons h gs)
  obtain pos' where "disjoint_in pos en (group_replacements h)" "disjoint_in pos' en (concat (map group_replacements gs))"
    using disjoint_in_append [of pos en "group_replacements h" "concat (map group_replacements gs)"] Cons.prems(1) by auto
  then show ?case using Cons by auto
qed simp

text \<open>The lines of the base that a group covers, with its replacements made from left to right.\<close>

definition group_text :: "js_string list \<Rightarrow> line_group \<Rightarrow> js_string" where
  "group_text ls g =
     replace_from (line_start ls (startLine g)) (concat (slice (startLine g) (endLine g) ls)) (group_replacements g)"

lemma group_text_eq:
  assumes "groups_ok ls gs" "g \<in> set gs" "disjoint_in pos en (group_replacements g)"
  shows "applyReplacements (slice (fst (line_spans 0 ls ! startLine g)) (snd (line_spans 0 ls ! (endLine g - 1))) (concat ls))
      (group_replacements g) (fst (line_spans 0 ls ! startLine g)) = group_text ls g"
proof -
  have g: "startLine g < endLine g" "endLine g \<le> length ls" using chained_member assms(1,2) by (auto simp: groups_ok_def)
  have spans: "fst (line_spans 0 ls ! startLine g) = line_start ls (startLine g)"
      "snd (line_spans 0 ls ! (endLine g - 1)) = line_start ls (endLine g)"
    using g line_spans_nth [of "startLine g" ls 0] line_spans_nth [of "endLine g - 1" ls 0] by simp_all
  let ?a = "line_start ls (startLine g)" and ?t = "concat (slice (startLine g) (endLine g) ls)"
  have t: "slice ?a (line_start ls (endLine g)) (concat ls) = ?t" using slice_lines g(1) by simp
  have "concat (take (endLine g) ls) = concat (take (startLine g) ls) @ ?t"
    using take_add [of "startLine g" "endLine g - startLine g" ls] g(1) by (simp add: slice_def)
  then have "?a + length ?t = line_start ls (endLine g)" by (simp add: line_start_def)
  then have "disjoint_in ?a (?a + length ?t) (group_replacements g)"
    using disjoint_in_bounds [OF assms(3)] assms(1,2) by (simp add: groups_ok_def)
  from applyReplacements_replace_from [OF this] show ?thesis unfolding spans t group_text_def .
qed

text \<open>C36: Edits that were matched in a normalised copy of the content, none overlapping another, change only the lines they
  touch. There are groups of consecutive lines, one after another, that hold exactly the lines that some match overlaps (the line
  of the match when it is empty; not a line that starts where a match ends). Every replacement
  belongs to one group. The result is the original text in which each group of lines is the same lines of the copy with the replacements of the group
  made in them; all other lines are the original ones.\<close>

theorem untouched_lines_preserved:
  assumes "applyReplacementsPreservingUnchangedLines original base rs = Inr res"
    and "disjoint_in 0 (length base) (sort_key matchIndex rs)"
  shows "\<exists>gs. let ls = splitLinesWithEndings original; bs = splitLinesWithEndings base
    in length bs = length ls \<and> chained 0 (length ls) gs \<and> concat (map group_replacements gs) = sort_key matchIndex rs
     \<and> list_all (\<lambda>i. list_ex (in_group i) gs \<longleftrightarrow> list_ex (\<lambda>r. touches bs r i) rs) [0..<length ls]
     \<and> original = fill ls 0 (map (\<lambda>g. (g, concat (slice (startLine g) (endLine g) ls))) gs)
     \<and> res = fill ls 0 (map (\<lambda>g. (g, group_text bs g)) gs)"
proof -
  let ?ls = "splitLinesWithEndings original" and ?bs = "splitLinesWithEndings base"
  from assms obtain gs where gs: "foldR (add_to_groups (line_spans 0 ?bs)) [] (sort_key matchIndex rs) = Inr gs"
    "res = rewrite_groups ?ls base (line_spans 0 ?bs) 0 gs" and len: "length ?bs = length ?ls"
    by (auto simp: applyReplacementsPreservingUnchangedLines_def getLineSpans_def Let_def bindR_Inr_iff split: if_splits)
  have "groups_ok ?bs []" by (simp add: groups_ok_def)
  then have ok: "groups_ok ?bs gs" "concat (map group_replacements gs) = sort_key matchIndex rs"
    using groups_built [OF gs(1)] by auto
  have ch: "chained 0 (length ?ls) gs" using ok(1) len by (simp add: groups_ok_def)
  have each: "(\<exists>g\<in>set gs. in_group i g) \<longleftrightarrow> (\<exists>r\<in>set rs. touches ?bs r i)" for i
  proof -
    have "(\<exists>g\<in>set gs. in_group i g) \<longleftrightarrow> (\<exists>g\<in>set gs. \<exists>r\<in>set (group_replacements g). touches ?bs r i)"
      using ok(1) by (auto simp: groups_ok_def)
    also have "\<dots> \<longleftrightarrow> (\<exists>r\<in>set (concat (map group_replacements gs)). touches ?bs r i)" by auto
    finally show ?thesis by (simp add: ok(2))
  qed
  have "\<forall>g\<in>set gs. \<exists>pos. disjoint_in pos (length base) (group_replacements g)"
    using group_disjoint assms(2) unfolding ok(2) [symmetric] by blast
  then have "\<forall>g\<in>set gs. applyReplacements (slice (fst (line_spans 0 ?bs ! startLine g)) (snd (line_spans 0 ?bs ! (endLine g - 1))) base)
      (group_replacements g) (fst (line_spans 0 ?bs ! startLine g)) = group_text ?bs g"
    using group_text_eq [OF ok(1)] by (metis concat_lines)
  then have "res = fill ?ls 0 (map (\<lambda>g. (g, group_text ?bs g)) gs)"
    unfolding gs(2) rewrite_groups_fill by (intro arg_cong [where f = "fill ?ls 0"]) simp
  moreover have "original = fill ?ls 0 (map (\<lambda>g. (g, concat (slice (startLine g) (endLine g) ?ls))) gs)"
    using fill_original [OF ch] by simp
  ultimately show ?thesis using ch ok(2) len each unfolding Let_def by (intro exI [of _ gs]) (simp add: list_all_iff list_ex_iff)
qed

definition demo_replacement :: text_replacement where
  "demo_replacement = \<lparr>editIndex = 0, matchIndex = 0, matchLength = 2, newText = [120, 10]\<rparr>"

text \<open>The match is the whole first line; the second line keeps the blank that the copy has lost.\<close>

theorem untouched_lines_preserved_witness:
  "\<exists>gs. concat (map group_replacements gs) = [demo_replacement]
     \<and> [97, 32, 10, 98, 32, 10] = fill [[97, 32, 10], [98, 32, 10]] 0
         (map (\<lambda>g. (g, concat (slice (startLine g) (endLine g) [[97, 32, 10], [98, 32, 10]]))) gs)
     \<and> [120, 10, 98, 32, 10] = fill [[97, 32, 10], [98, 32, 10]] 0 (map (\<lambda>g. (g, group_text [[97, 10], [98, 10]] g)) gs)"
proof -
  have e: "applyReplacementsPreservingUnchangedLines [97, 32, 10, 98, 32, 10] [97, 10, 98, 10] [demo_replacement] = Inr [120, 10, 98, 32, 10]"
    by (simp add: applyReplacementsPreservingUnchangedLines_def getLineSpans_def add_to_groups_def slice_def LF_def
        getReplacementLineRange_def find_end_line.simps Let_def demo_replacement_def applyReplacements_def apply_replacement_def)
  have d: "disjoint_in 0 (length [97, 10, 98, 10 :: 16 word]) (sort_key matchIndex [demo_replacement])"
    by (simp add: demo_replacement_def)
  have ls: "splitLinesWithEndings [97, 32, 10, 98, 32, 10] = [[97, 32, 10], [98, 32, 10]]"
      "splitLinesWithEndings [97, 10, 98, 10] = [[97, 10], [98, 10]]" by (simp_all add: LF_def)
  from untouched_lines_preserved [OF e d] show ?thesis unfolding Let_def ls by auto
qed

end
