(* ===== verification/Session_Storage.thy ===== *)
theory Session_Storage
  imports Session_State
begin

text \<open>
  The in-memory storage and repository of \<open>agent/src/harness/session/memory.ts\<close>. Every operation
  validates, builds one mutation with the next sequence number and applies it to the session state.
  The clock (\<open>Date.now()\<close>) and the id generator (\<open>uuidv7()\<close>) are arguments. Copies made by
  \<open>structuredClone\<close> are the values themselves. The contract a session relies on is the locale
  \<open>entry_storage\<close>, interpreted on these operations.
\<close>

section \<open>The storage\<close>

record memory_storage =
  metadata :: session_metadata
  state :: session_state

definition new_storage :: "session_metadata \<Rightarrow> memory_storage" where
  "new_storage m = \<lparr>metadata = m, state = init_state\<rparr>"

definition commit :: "memory_storage \<Rightarrow> session_mutation \<Rightarrow> session_error + memory_storage" where
  "commit st m = bindR (applyMutation (state st) m) (\<lambda>s. Inr (st\<lparr>state := s\<rparr>))"

definition storage_createLane ::
    "memory_storage \<Rightarrow> ident \<Rightarrow> ident option \<Rightarrow> session_error + memory_storage" where
  "storage_createLane st lane leafId =
     bindR (validateNewLane (state st) lane) (\<lambda>_.
     bindR (validateTarget (state st) leafId) (\<lambda>_.
     commit st (MutLane (nextSequence (state st)) lane leafId)))"

definition storage_moveLane ::
    "memory_storage \<Rightarrow> ident \<Rightarrow> ident option \<Rightarrow> session_error + memory_storage" where
  "storage_moveLane st lane to =
     bindR (requireLane (state st) lane) (\<lambda>_.
     bindR (validateTarget (state st) to) (\<lambda>_.
     commit st (MutLane (nextSequence (state st)) lane to)))"

definition storage_appendEntry ::
    "nat \<Rightarrow> memory_storage \<Rightarrow> provisioned_entry \<Rightarrow> ident \<Rightarrow> session_error + (memory_storage \<times> entry)" where
  "storage_appendEntry now st newEntry lane =
     bindR (requireLane (state st) lane) (\<lambda>leafId.
     bindR (validateUnusedId (state st) (prov_id newEntry)) (\<lambda>_.
     let e = \<lparr>entry_id = prov_id newEntry, entry_seq = nextSequence (state st), parentId = leafId,
              entry_timestamp = now, payload = prov_payload newEntry\<rparr>
     in bindR (commit st (MutEntry (Some lane) e)) (\<lambda>st'. Inr (st', e))))"

definition storage_appendRecord ::
    "nat \<Rightarrow> memory_storage \<Rightarrow> new_record \<Rightarrow> session_error + (memory_storage \<times> lane_record)" where
  "storage_appendRecord now st newRecord =
     bindR (requireLane (state st) (new_lane newRecord)) (\<lambda>_.
     bindR (validateUnusedId (state st) (new_id newRecord)) (\<lambda>_.
     bindR (findOpenOperations (state st) (new_lane newRecord) (Some 1)) (\<lambda>ops.
     bindR (case ops of
              [] \<Rightarrow> Inr ()
            | op # _ \<Rightarrow>
                guardR (record_type_of_payload (new_payload newRecord) \<noteq> Rec_operation_started)
                  (SessionError Storage_error
                    (''Lane '' @ new_lane newRecord @ '' already has an open operation '' @ record_id op))) (\<lambda>_.
     let r = \<lparr>record_id = new_id newRecord, record_seq = nextSequence (state st), record_lane = new_lane newRecord,
              record_timestamp = now, record_payload = new_payload newRecord\<rparr>
     in bindR (commit st (MutRecord r)) (\<lambda>st'. Inr (st', r))))))"

definition storage_setName :: "memory_storage \<Rightarrow> string option \<Rightarrow> session_error + memory_storage" where
  "storage_setName st nm = commit st (MutName (nextSequence (state st)) nm)"

definition storage_setLabel ::
    "memory_storage \<Rightarrow> ident \<Rightarrow> string option \<Rightarrow> session_error + memory_storage" where
  "storage_setLabel st i label =
     bindR (validateTarget (state st) (Some i)) (\<lambda>_.
     commit st (MutLabel (nextSequence (state st)) i label))"

definition storage_fork ::
    "memory_storage \<Rightarrow> session_metadata \<Rightarrow> fork_options \<Rightarrow> session_error + memory_storage" where
  "storage_fork st m options =
     bindR (createForkMutations (state st) options) (\<lambda>ms. foldR commit (new_storage m) ms)"

text \<open>The reads of the class copy what the session state returns.\<close>

definition storage_getEntry :: "memory_storage \<Rightarrow> ident \<Rightarrow> entry option" where
  "storage_getEntry st i = getEntry (state st) i"

definition storage_findEntries :: "memory_storage \<Rightarrow> entry_query \<Rightarrow> session_error + entry list" where
  "storage_findEntries st q = findEntries (state st) q"

definition storage_findEntriesOnBranch ::
    "memory_storage \<Rightarrow> entry_query \<Rightarrow> branch_bounds \<Rightarrow> ident \<Rightarrow> session_error + entry list" where
  "storage_findEntriesOnBranch st q b start = findEntriesOnBranch (state st) q b start"

definition storage_findRecords :: "memory_storage \<Rightarrow> record_query \<Rightarrow> session_error + lane_record list" where
  "storage_findRecords st q = findRecords (state st) q"

definition storage_getLog ::
    "memory_storage \<Rightarrow> int option \<Rightarrow> int option \<Rightarrow> session_error + log_item list" where
  "storage_getLog st afterSeq lmt = getLog (state st) afterSeq lmt"

section \<open>The repository\<close>

text \<open>A repository is a map from session ids to storages. A created, opened or forked session is
  named by its id; the storage it works on is the one the map holds.\<close>

type_synonym memory_repo = "(ident \<times> memory_storage) list"

definition repo_create ::
    "nat \<Rightarrow> ident \<Rightarrow> memory_repo \<Rightarrow> ident option \<Rightarrow> ident option \<Rightarrow> session_error + (memory_repo \<times> ident)" where
  "repo_create now fresh repo optId optParent =
     (let i = (case optId of None \<Rightarrow> fresh | Some i \<Rightarrow> i)
      in bindR (guardR (\<not> map_has repo i) (SessionError Already_exists (''Session already exists: '' @ i))) (\<lambda>_.
         Inr (AList.update i (new_storage \<lparr>meta_id = i, createdAt = now, parentSessionId = optParent\<rparr>) repo, i)))"

definition requireStorage :: "memory_repo \<Rightarrow> ident \<Rightarrow> session_error + memory_storage" where
  "requireStorage repo i =
     (case map_of repo i of
        None \<Rightarrow> Inl (SessionError Not_found (''Session not found: '' @ i))
      | Some st \<Rightarrow> Inr st)"

definition repo_open :: "memory_repo \<Rightarrow> session_metadata \<Rightarrow> session_error + memory_storage" where
  "repo_open repo m = requireStorage repo (meta_id m)"

definition repo_list :: "memory_repo \<Rightarrow> session_metadata list" where
  "repo_list repo = map (\<lambda>(_, st). metadata st) repo"

definition repo_delete :: "memory_repo \<Rightarrow> session_metadata \<Rightarrow> memory_repo" where
  "repo_delete repo m = AList.delete (meta_id m) repo"

definition repo_fork ::
    "nat \<Rightarrow> ident \<Rightarrow> memory_repo \<Rightarrow> session_metadata \<Rightarrow> fork_options \<Rightarrow> ident option \<Rightarrow> ident option
      \<Rightarrow> session_error + (memory_repo \<times> ident)" where
  "repo_fork now fresh repo source options optId optParent =
     bindR (requireStorage repo (meta_id source)) (\<lambda>src.
     let i = (case optId of None \<Rightarrow> fresh | Some i \<Rightarrow> i)
     in bindR (guardR (\<not> map_has repo i) (SessionError Already_exists (''Session already exists: '' @ i))) (\<lambda>_.
        bindR (storage_fork src
                 \<lparr>meta_id = i, createdAt = now,
                  parentSessionId = Some (case optParent of None \<Rightarrow> meta_id source | Some p \<Rightarrow> p)\<rparr> options) (\<lambda>st.
        Inr (AList.update i st repo, i))))"

section \<open>The contract of an entry storage\<close>

text \<open>
  What a session relies on: lanes have a leaf, an append chains to the leaf and moves it, an entry
  once stored never changes, a leaf is a stored entry.
\<close>

locale entry_storage =
  fixes leaf :: "'s \<Rightarrow> ident \<rightharpoonup> ident option"
    and lookup :: "'s \<Rightarrow> ident \<rightharpoonup> entry"
    and append :: "nat \<Rightarrow> 's \<Rightarrow> provisioned_entry \<Rightarrow> ident \<Rightarrow> session_error + ('s \<times> entry)"
    and inv :: "'s \<Rightarrow> bool"
  assumes append_inv: "inv s \<Longrightarrow> append now s p l = Inr (s', e) \<Longrightarrow> inv s'"
    and append_entry: "inv s \<Longrightarrow> append now s p l = Inr (s', e) \<Longrightarrow>
      leaf s l = Some (parentId e) \<and> entry_id e = prov_id p \<and> payload e = prov_payload p"
    and append_fresh: "inv s \<Longrightarrow> append now s p l = Inr (s', e) \<Longrightarrow> lookup s (prov_id p) = None"
    and append_lookup: "inv s \<Longrightarrow> append now s p l = Inr (s', e) \<Longrightarrow> lookup s' = (lookup s)(prov_id p \<mapsto> e)"
    and append_leaf: "inv s \<Longrightarrow> append now s p l = Inr (s', e) \<Longrightarrow> leaf s' = (leaf s)(l \<mapsto> Some (prov_id p))"
    and leaf_stored: "inv s \<Longrightarrow> leaf s l = Some (Some i) \<Longrightarrow> lookup s i \<noteq> None"
begin

text \<open>Appending a list of entries to one lane, one after another.\<close>

fun append_all :: "nat \<Rightarrow> 's \<Rightarrow> provisioned_entry list \<Rightarrow> ident \<Rightarrow> session_error + 's" where
  "append_all now s [] l = Inr s"
| "append_all now s (p # ps) l = bindR (append now s p l) (\<lambda>(s', _). append_all now s' ps l)"

lemma append_all_step:
  assumes "append_all now s (p # ps) l = Inr t"
  obtains s' e where "append now s p l = Inr (s', e)" "append_all now s' ps l = Inr t"
  using assms by (auto simp: bindR_Inr_iff)

lemma append_all_inv: "inv s \<Longrightarrow> append_all now s ps l = Inr t \<Longrightarrow> inv t"
  by (induction ps arbitrary: s) (auto simp: bindR_Inr_iff dest: append_inv)

lemma append_all_keeps:
  "inv s \<Longrightarrow> append_all now s ps l = Inr t \<Longrightarrow> lookup s i = Some e \<Longrightarrow> lookup t i = Some e"
proof (induction ps arbitrary: s)
  case Nil
  then show ?case by simp
next
  case (Cons p ps)
  from Cons.prems(2) obtain s' e' where s': "append now s p l = Inr (s', e')" "append_all now s' ps l = Inr t"
    by (rule append_all_step)
  have "i \<noteq> prov_id p" using append_fresh [OF Cons.prems(1) s'(1)] Cons.prems(3) by auto
  then have "lookup s' i = Some e" using append_lookup [OF Cons.prems(1) s'(1)] Cons.prems(3) by simp
  then show ?case using Cons.IH [OF append_inv [OF Cons.prems(1) s'(1)] s'(2)] by blast
qed

lemma append_all_other_lane:
  "inv s \<Longrightarrow> append_all now s ps l = Inr t \<Longrightarrow> l' \<noteq> l \<Longrightarrow> leaf t l' = leaf s l'"
proof (induction ps arbitrary: s)
  case Nil
  then show ?case by simp
next
  case (Cons p ps)
  from Cons.prems(2) obtain s' e' where s': "append now s p l = Inr (s', e')" "append_all now s' ps l = Inr t"
    by (rule append_all_step)
  then show ?case
    using Cons.IH [OF append_inv [OF Cons.prems(1) s'(1)] s'(2)] append_leaf [OF Cons.prems(1) s'(1)] Cons.prems(3)
    by simp
qed

lemma append_all_leaf:
  "inv s \<Longrightarrow> append_all now s ps l = Inr t \<Longrightarrow> ps \<noteq> [] \<Longrightarrow> leaf t l = Some (Some (prov_id (last ps)))"
proof (induction ps arbitrary: s)
  case Nil
  then show ?case by simp
next
  case (Cons p ps)
  from Cons.prems(2) obtain s' e' where s': "append now s p l = Inr (s', e')" "append_all now s' ps l = Inr t"
    by (rule append_all_step)
  show ?case
  proof (cases "ps = []")
    case True
    with s' append_leaf [OF Cons.prems(1) s'(1)] show ?thesis by simp
  next
    case False
    with Cons.IH [OF append_inv [OF Cons.prems(1) s'(1)] s'(2)] show ?thesis by simp
  qed
qed

text \<open>The entries from a leaf up to a root.\<close>

fun path :: "'s \<Rightarrow> ident option \<Rightarrow> entry list \<Rightarrow> bool" where
  "path s i [] = (i = None)"
| "path s i (e # es) = (\<exists>j. i = Some j \<and> lookup s j = Some e \<and> path s (parentId e) es)"

lemma append_path:
  assumes "inv s" and "append now s p l = Inr (s', e)"
  shows "path s i es \<Longrightarrow> path s' i es"
proof (induction es arbitrary: i)
  case Nil
  then show ?case by simp
next
  case (Cons x xs)
  then obtain j where j: "i = Some j" "lookup s j = Some x" "path s (parentId x) xs" by auto
  have "j \<noteq> prov_id p" using append_fresh [OF assms] j(2) by auto
  then show ?case using j append_lookup [OF assms] Cons.IH by simp
qed

text \<open>Appending extends the path of the lane at its leaf end and leaves the rest as it was.\<close>

lemma append_all_path:
  "inv s \<Longrightarrow> append_all now s ps l = Inr t \<Longrightarrow> leaf s l = Some i \<Longrightarrow> path s i es \<Longrightarrow>
   \<exists>i' new. leaf t l = Some i' \<and> path t i' (rev new @ es)
     \<and> map entry_id new = map prov_id ps \<and> map payload new = map prov_payload ps"
proof (induction ps arbitrary: s i es)
  case Nil
  then show ?case by (intro exI [of _ i] exI [of _ "[]"]) simp
next
  case (Cons p ps)
  from Cons.prems(2) obtain s' e where s': "append now s p l = Inr (s', e)" "append_all now s' ps l = Inr t"
    by (rule append_all_step)
  note facts = append_entry [OF Cons.prems(1) s'(1)] append_lookup [OF Cons.prems(1) s'(1)]
    append_leaf [OF Cons.prems(1) s'(1)]
  have "path s' i es" by (rule append_path [OF Cons.prems(1) s'(1) Cons.prems(4)])
  then have "path s' (Some (prov_id p)) (e # es)" using facts Cons.prems(3) by simp
  moreover have "leaf s' l = Some (Some (prov_id p))" using facts by simp
  ultimately obtain i' new where "leaf t l = Some i'" "path t i' (rev new @ e # es)"
      "map entry_id new = map prov_id ps" "map payload new = map prov_payload ps"
    using Cons.IH [OF append_inv [OF Cons.prems(1) s'(1)] s'(2)] by blast
  then show ?case using facts by (intro exI [of _ i'] exI [of _ "e # new"]) simp
qed

end

section \<open>The memory storage meets the contract\<close>

lemma commit_Inr: "commit st m = Inr st' \<longleftrightarrow> (\<exists>t. applyMutation (state st) m = Inr t \<and> st' = st\<lparr>state := t\<rparr>)"
  by (auto simp: commit_def bindR_Inr_iff)

lemma storage_appendEntry_elim:
  assumes "storage_appendEntry now st p l = Inr (st', e)"
  obtains leafId where "map_of (lanes (state st)) l = Some leafId" "prov_id p \<notin> usedIds (state st)"
    "e = \<lparr>entry_id = prov_id p, entry_seq = nextSequence (state st), parentId = leafId,
          entry_timestamp = now, payload = prov_payload p\<rparr>"
    "applyMutation (state st) (MutEntry (Some l) e) = Inr (state st')" "metadata st' = metadata st"
  using assms
  by (auto simp: storage_appendEntry_def requireLane_def validateUnusedId_def bindR_Inr_iff Let_def commit_Inr
      split: option.splits)

lemma apply_entry_fields:
  assumes "wf_state s" and "applyMutation s (MutEntry (Some l) e) = Inr t"
  shows "getEntry t = (getEntry s)(entry_id e \<mapsto> e)"
    and "map_of (lanes t) = (map_of (lanes s))(l \<mapsto> Some (entry_id e))"
    and "getEntry s (entry_id e) = None"
proof -
  have *: "entry_id e \<notin> usedIds s \<and> entriesById t = AList.update (entry_id e) e (entriesById s) \<and>
      lanes t = AList.update l (Some (entry_id e)) (lanes s)"
    using assms(2) by (cases rule: applyMutation_elim) auto
  then show "getEntry t = (getEntry s)(entry_id e \<mapsto> e)"
    and "map_of (lanes t) = (map_of (lanes s))(l \<mapsto> Some (entry_id e))"
    by (auto simp: getEntry_def alist_of_update)
  have "entry_id e \<notin> entry_ids s" using * assms(1) by (auto simp: wf_state_def index_inv_def)
  then show "getEntry s (entry_id e) = None"
    using index_inv_has [of s "entry_id e"] assms(1) by (simp add: getEntry_def map_has_def wf_state_def)
qed

interpretation mem: entry_storage "\<lambda>st. map_of (lanes (state st))" "storage_getEntry" storage_appendEntry
  "\<lambda>st. wf_state (state st)"
proof unfold_locales
  fix s s' :: memory_storage and now p l e
  assume wf: "wf_state (state s)" and ap: "storage_appendEntry now s p l = Inr (s', e)"
  from ap show "wf_state (state s')" by (rule storage_appendEntry_elim) (use wf wf_apply in blast)
  from ap show "map_of (lanes (state s)) l = Some (parentId e) \<and> entry_id e = prov_id p \<and> payload e = prov_payload p"
    by (rule storage_appendEntry_elim) simp
  from ap have e: "entry_id e = prov_id p" and m: "applyMutation (state s) (MutEntry (Some l) e) = Inr (state s')"
    by (auto elim: storage_appendEntry_elim)
  show "storage_getEntry s (prov_id p) = None"
    using apply_entry_fields(3) [OF wf m] by (simp add: storage_getEntry_def e)
  show "storage_getEntry s' = (storage_getEntry s)(prov_id p \<mapsto> e)"
    using apply_entry_fields(1) [OF wf m] by (auto simp: storage_getEntry_def e fun_eq_iff)
  show "map_of (lanes (state s')) = (map_of (lanes (state s)))(l \<mapsto> Some (prov_id p))"
    using apply_entry_fields(2) [OF wf m] by (simp add: e)
next
  fix s :: memory_storage and l i
  assume wf: "wf_state (state s)" and l: "map_of (lanes (state s)) l = Some (Some i)"
  have "(l, Some i) \<in> set (lanes (state s))" using l by (rule map_of_SomeD)
  then have "i \<in> entry_ids (state s)" using wf by (fastforce simp: wf_state_def tree_inv_def)
  then show "storage_getEntry s i \<noteq> None"
    using wf index_inv_has [of "state s" i]
    by (simp add: storage_getEntry_def getEntry_def map_has_def wf_state_def)
qed

section \<open>The storage as a machine\<close>

datatype storage_op =
    OpCreateLane ident "ident option"
  | OpMoveLane ident "ident option"
  | OpAppendEntry nat provisioned_entry ident
  | OpAppendRecord nat new_record
  | OpSetName "string option"
  | OpSetLabel ident "string option"

fun storage_step :: "memory_storage \<Rightarrow> storage_op \<Rightarrow> session_error + memory_storage" where
  "storage_step st (OpCreateLane l i) = storage_createLane st l i"
| "storage_step st (OpMoveLane l i) = storage_moveLane st l i"
| "storage_step st (OpAppendEntry now p l) = bindR (storage_appendEntry now st p l) (\<lambda>(st', _). Inr st')"
| "storage_step st (OpAppendRecord now r) = bindR (storage_appendRecord now st r) (\<lambda>(st', _). Inr st')"
| "storage_step st (OpSetName nm) = storage_setName st nm"
| "storage_step st (OpSetLabel i l) = storage_setLabel st i l"

lemmas storage_defs = storage_createLane_def storage_moveLane_def storage_appendEntry_def storage_appendRecord_def
  storage_setName_def storage_setLabel_def

text \<open>No lane has more than one open operation.\<close>

definition storage_inv :: "memory_storage \<Rightarrow> bool" where
  "storage_inv st \<longleftrightarrow>
     wf_state (state st) \<and> (\<forall>lane. length (open_operations lane (records (state st))) \<le> 1)"

lemma storage_appendRecord_elim:
  assumes "storage_appendRecord now st nr = Inr (st', r)"
  obtains ops where "findOpenOperations (state st) (new_lane nr) (Some 1) = Inr ops"
    "ops \<noteq> [] \<Longrightarrow> record_type_of_payload (new_payload nr) \<noteq> Rec_operation_started"
    "r = \<lparr>record_id = new_id nr, record_seq = nextSequence (state st), record_lane = new_lane nr,
          record_timestamp = now, record_payload = new_payload nr\<rparr>"
    "applyMutation (state st) (MutRecord r) = Inr (state st')" "metadata st' = metadata st"
proof -
  let ?r = "\<lparr>record_id = new_id nr, record_seq = nextSequence (state st), record_lane = new_lane nr,
      record_timestamp = now, record_payload = new_payload nr\<rparr>"
  from assms obtain ops t where ops: "findOpenOperations (state st) (new_lane nr) (Some 1) = Inr ops"
      "case ops of [] \<Rightarrow> True | _ # _ \<Rightarrow> record_type_of_payload (new_payload nr) \<noteq> Rec_operation_started"
      "r = ?r" "commit st (MutRecord ?r) = Inr st'"
    unfolding storage_appendRecord_def bindR_Inr_iff Let_def by (fastforce split: list.splits)
  then show thesis by (intro that [of ops]) (auto simp: commit_Inr split: list.splits)
qed

text \<open>Every accepted operation applies one mutation; it is a record only for \<open>appendRecord\<close>.\<close>

lemma storage_step_mutation:
  assumes "storage_step st m = Inr st'"
  obtains mu where "applyMutation (state st) mu = Inr (state st')" "metadata st' = metadata st"
    "\<And>r. mu = MutRecord r \<Longrightarrow> \<exists>now nr. m = OpAppendRecord now nr \<and> storage_appendRecord now st nr = Inr (st', r)"
proof (cases m)
  case (OpCreateLane l i)
  show thesis
    by (rule that [of "MutLane (nextSequence (state st)) l i"])
      (use assms OpCreateLane in \<open>auto simp: storage_createLane_def bindR_Inr_iff commit_Inr\<close>)
next
  case (OpMoveLane l i)
  show thesis
    by (rule that [of "MutLane (nextSequence (state st)) l i"])
      (use assms OpMoveLane in \<open>auto simp: storage_moveLane_def bindR_Inr_iff commit_Inr\<close>)
next
  case (OpAppendEntry now p l)
  then obtain e where "storage_appendEntry now st p l = Inr (st', e)" using assms by (auto simp: bindR_Inr_iff)
  then show thesis by (rule storage_appendEntry_elim) (rule that [of "MutEntry (Some l) e"], auto)
next
  case (OpAppendRecord now nr)
  then obtain r where r: "storage_appendRecord now st nr = Inr (st', r)" using assms by (auto simp: bindR_Inr_iff)
  then show thesis
    by (rule storage_appendRecord_elim)
      (rule that [of "MutRecord r"], use r OpAppendRecord in auto)
next
  case (OpSetName nm)
  show thesis
    by (rule that [of "MutName (nextSequence (state st)) nm"])
      (use assms OpSetName in \<open>auto simp: storage_setName_def commit_Inr\<close>)
next
  case (OpSetLabel i l)
  show thesis
    by (rule that [of "MutLabel (nextSequence (state st)) i l"])
      (use assms OpSetLabel in \<open>auto simp: storage_setLabel_def bindR_Inr_iff commit_Inr\<close>)
qed

lemma records_apply:
  assumes "applyMutation s m = Inr t"
  shows "records t = records s @ (case m of MutRecord r \<Rightarrow> [r] | _ \<Rightarrow> [])"
  using assms by (cases rule: applyMutation_elim) auto

lemma findOpen_empty:
  assumes "wf_state s"
  shows "findOpenOperations s lane (Some 1) = Inr [] \<longleftrightarrow> open_operations lane (records s) = []"
proof -
  have "ops_of (openOperationsByLane s) lane = map (\<lambda>r. (record_id r, r)) (open_operations lane (records s))"
    using assms by (simp add: wf_state_def ops_inv_def)
  then show ?thesis
    by (auto simp: findOpenOperations_def ops_of_def assertValidLimit_def Let_def split: option.splits)
qed

lemma open_step_length:
  assumes "length ops \<le> 1" "record_lane r = lane \<Longrightarrow> record_type_of r = Rec_operation_started \<Longrightarrow> ops = []"
  shows "length (open_step lane ops r) \<le> 1"
  using assms
  by (auto simp: open_step_def record_type_of_def split: record_payload.split intro: le_trans [OF length_filter_le])

lemma storage_inv_step:
  assumes "storage_inv st" and "storage_step st m = Inr st'"
  shows "storage_inv st'"
  using assms(2)
proof (rule storage_step_mutation)
  fix mu
  assume mu: "applyMutation (state st) mu = Inr (state st')"
    and rec: "\<And>r. mu = MutRecord r \<Longrightarrow> \<exists>now nr. m = OpAppendRecord now nr \<and> storage_appendRecord now st nr = Inr (st', r)"
  have wf: "wf_state (state st)" and one: "length (open_operations lane (records (state st))) \<le> 1" for lane
    using assms(1) by (simp_all add: storage_inv_def)
  have "length (open_operations lane (records (state st'))) \<le> 1" for lane
  proof (cases "\<exists>r. mu = MutRecord r")
    case True
    then obtain r where "mu = MutRecord r" ..
    with rec obtain now nr where r: "mu = MutRecord r" "storage_appendRecord now st nr = Inr (st', r)" by metis
    have "open_operations lane (records (state st)) = []"
      if l: "record_lane r = lane" and t: "record_type_of r = Rec_operation_started"
    proof -
      from r(2) obtain ops where ops: "findOpenOperations (state st) (new_lane nr) (Some 1) = Inr ops"
          "ops \<noteq> [] \<Longrightarrow> record_type_of_payload (new_payload nr) \<noteq> Rec_operation_started"
          and eq: "record_lane r = new_lane nr" "record_payload r = new_payload nr"
        by (elim storage_appendRecord_elim) simp
      have "ops = []" using ops(2) t eq(2) by (auto simp: record_type_of_def)
      then show ?thesis using ops(1) l eq(1) findOpen_empty [OF wf, of lane] by simp
    qed
    then have "length (open_step lane (open_operations lane (records (state st))) r) \<le> 1"
      by (rule open_step_length [OF one])
    then show ?thesis using r(1) records_apply [OF mu] by (simp add: open_operations_snoc)
  next
    case False
    then have "records (state st') = records (state st)" using records_apply [OF mu] by (cases mu) auto
    then show ?thesis using one by simp
  qed
  then show ?thesis using wf_apply [OF wf mu] by (simp add: storage_inv_def)
qed

interpretation storage_machine: machine_invariant storage_step "new_storage m" storage_inv
proof unfold_locales
  show "storage_inv (new_storage m)"
    using wf_init by (simp add: storage_inv_def new_storage_def open_operations_def init_state_def)
qed (rule storage_inv_step)

section \<open>Forks through the repository\<close>

lemma foldR_commit:
  "foldR commit st ms =
     (case foldR applyMutation (state st) ms of Inl e \<Rightarrow> Inl e | Inr t \<Rightarrow> Inr (st\<lparr>state := t\<rparr>))"
proof (induction ms arbitrary: st)
  case Nil
  then show ?case by simp
next
  case (Cons m ms)
  then show ?case
    by (cases "applyMutation (state st) m") (simp_all add: commit_def split: sum.split)
qed

lemma storage_fork_ok:
  assumes "createForkMutations (state st) options = Inr ms" and "foldR applyMutation init_state ms = Inr t"
  shows "storage_fork st md options = Inr \<lparr>metadata = md, state = t\<rparr>"
  using assms by (simp add: storage_fork_def foldR_commit new_storage_def)

definition demo_storage :: memory_storage where
  "demo_storage = \<lparr>metadata = \<lparr>meta_id = ''s1'', createdAt = 1, parentSessionId = None\<rparr>, state = demo_state\<rparr>"

definition demo_provisioned :: provisioned_entry where
  "demo_provisioned = \<lparr>prov_id = ''n'', prov_payload = ThinkingLevelEntry ''high''\<rparr>"

text \<open>The branch of a lane: the path from its leaf, empty when it has none.\<close>

definition lane_branch :: "session_state \<Rightarrow> ident \<Rightarrow> entry list \<Rightarrow> bool" where
  "lane_branch s l es =
     (case map_of (lanes s) l of
        None \<Rightarrow> False
      | Some None \<Rightarrow> es = []
      | Some (Some i) \<Rightarrow> branch_path s i es)"

lemma branch_path_mem:
  assumes "index_inv (state st)"
  shows "branch_path (state st) i es \<longleftrightarrow> mem.path st (Some i) es"
proof (induction es arbitrary: i)
  case Nil
  then show ?case by simp
next
  case (Cons e es)
  have none: "mem.path st None es \<longleftrightarrow> es = []" by (cases es) auto
  have "getEntry (state st) i = Some e \<and> entry_id e = i \<longleftrightarrow> getEntry (state st) i = Some e"
    using getEntry_SomeD [OF assms, of i e] by blast
  then show ?case
    by (cases "parentId e") (simp_all add: storage_getEntry_def [of st] Cons.IH none flip: conj_assoc)
qed

lemma lane_branch_path:
  assumes "wf_state (state st)"
  shows "lane_branch (state st) l es \<longleftrightarrow> (\<exists>i. map_of (lanes (state st)) l = Some i \<and> mem.path st i es)"
proof -
  have none: "mem.path st None es \<longleftrightarrow> es = []" by (cases es) auto
  show ?thesis using assms none branch_path_mem [of st]
    by (auto simp: lane_branch_def wf_state_def split: option.split)
qed

lemma append_all_steps:
  "foldR storage_step st (map (\<lambda>p. OpAppendEntry now p l) ps) = mem.append_all now st ps l"
proof (induction ps arbitrary: st)
  case Nil
  then show ?case by simp
next
  case (Cons p ps)
  then show ?case by (cases "storage_appendEntry now st p l") auto
qed

section \<open>Properties of the storage\<close>

text \<open>C2: Whatever operations a storage has accepted since it was created, no lane has more than
  one open operation, and the session state is well formed.\<close>

theorem storage_single_operation:
  assumes "reach storage_step (new_storage md) st"
  shows "wf_state (state st) \<and> (\<forall>lane. length (open_operations lane (records (state st))) \<le> 1)"
  using storage_machine.reach_inv [OF assms] by (simp add: storage_inv_def)

definition demo_new_start :: "ident \<Rightarrow> new_record" where
  "demo_new_start i =
     \<lparr>new_id = i, new_lane = ''main'',
      new_payload = OperationStarted None (CompactionIntent \<lparr>ci_customInstructions = None, ci_resultEntryId = ''c''\<rparr>)\<rparr>"

theorem storage_single_operation_witness:
  "\<exists>st. storage_step (new_storage (metadata demo_storage)) (OpAppendRecord 5 (demo_new_start ''x'')) = Inr st
     \<and> length (records (state st)) = 1
     \<and> (\<forall>lane. length (open_operations lane (records (state st))) \<le> 1)"
proof -
  obtain st where st: "storage_step (new_storage (metadata demo_storage)) (OpAppendRecord 5 (demo_new_start ''x'')) = Inr st"
      "length (records (state st)) = 1"
    by (simp add: demo_new_start_def storage_appendRecord_def new_storage_def init_state_def requireLane_def
        validateUnusedId_def findOpenOperations_def assertValidLimit_def commit_def applyMutation_def
        apply_record_def nextSequence_def map_has_def Let_def)
  have "reach storage_step (new_storage (metadata demo_storage)) st"
    by (rule reach.next_state [where step = storage_step, OF reach.start st(1)])
  from storage_single_operation [OF this] st show ?thesis by blast
qed

text \<open>A lane with an open operation refuses a second start with a storage error that leaves the
  storage as it was, and a lane without one accepts a record whose id is fresh.\<close>

theorem storage_appendRecord_guard:
  assumes "storage_inv st" and "map_has (lanes (state st)) (new_lane nr)" and "new_id nr \<notin> usedIds (state st)"
  shows "(\<exists>st' r. storage_appendRecord now st nr = Inr (st', r) \<and> records (state st') = records (state st) @ [r])
    \<longleftrightarrow> \<not> (record_type_of_payload (new_payload nr) = Rec_operation_started
           \<and> open_operations (new_lane nr) (records (state st)) \<noteq> [])"
proof -
  have wf: "wf_state (state st)" using assms(1) by (simp add: storage_inv_def)
  obtain ops where ops: "findOpenOperations (state st) (new_lane nr) (Some 1) = Inr ops"
    by (cases "findOpenOperations (state st) (new_lane nr) (Some 1)")
      (auto simp: findOpenOperations_def assertValidLimit_def)
  have empty: "ops = [] \<longleftrightarrow> open_operations (new_lane nr) (records (state st)) = []"
    using findOpen_empty [OF wf, of "new_lane nr"] ops by simp
  obtain leafId where lane: "map_of (lanes (state st)) (new_lane nr) = Some leafId"
    using assms(2) by (auto simp: map_has_def)
  show ?thesis
  proof (cases ops)
    case Nil
    then show ?thesis using assms(2,3) ops empty lane
      by (simp add: storage_appendRecord_def requireLane_def validateUnusedId_def commit_def applyMutation_def
          apply_record_def nextSequence_def Let_def)
  next
    case (Cons x xs)
    then show ?thesis using assms(2,3) ops empty lane
      by (cases "record_type_of_payload (new_payload nr) = Rec_operation_started")
        (simp_all add: storage_appendRecord_def requireLane_def validateUnusedId_def commit_def applyMutation_def
          apply_record_def nextSequence_def Let_def)
  qed
qed

lemma demo_storage_inv: "storage_inv demo_storage"
  by (simp add: storage_inv_def demo_storage_def demo_wf demo_fields open_operations_def open_step_def demo_start_def)

lemma demo_used: "usedIds demo_state = {''a'', ''b'', ''op''}"
  using demo_wf by (auto simp: wf_state_def index_inv_def demo_ids demo_fields demo_start_def)

text \<open>Appending entries one after another to a lane extends the branch of that lane at its
  leaf, in order and with the given ids and payloads. The branch that was there before, the other
  lanes and every stored entry stay as they were.\<close>

theorem storage_append_extends:
  assumes "wf_state (state st)" and "foldR storage_step st (map (\<lambda>p. OpAppendEntry now p l) ps) = Inr st'"
    and "lane_branch (state st) l es"
  shows "(\<exists>new. lane_branch (state st') l (rev new @ es)
      \<and> map entry_id new = map prov_id ps \<and> map payload new = map prov_payload ps)
    \<and> (\<forall>l'. l' \<noteq> l \<longrightarrow> map_of (lanes (state st')) l' = map_of (lanes (state st)) l')
    \<and> (\<forall>j e. storage_getEntry st j = Some e \<longrightarrow> storage_getEntry st' j = Some e)"
proof -
  have all: "mem.append_all now st ps l = Inr st'" using assms(2) by (simp add: append_all_steps)
  have wf': "wf_state (state st')" by (rule mem.append_all_inv [OF assms(1) all])
  obtain i where i: "map_of (lanes (state st)) l = Some i" "mem.path st i es"
    using assms(3) lane_branch_path [OF assms(1)] by blast
  from mem.append_all_path [OF assms(1) all i] obtain i' new
    where "map_of (lanes (state st')) l = Some i'" "mem.path st' i' (rev new @ es)"
      and new: "map entry_id new = map prov_id ps" "map payload new = map prov_payload ps" by blast
  then have "lane_branch (state st') l (rev new @ es)" using lane_branch_path [OF wf'] by blast
  with new show ?thesis
    using mem.append_all_other_lane [OF assms(1) all] mem.append_all_keeps [OF assms(1) all] by blast
qed

text \<open>Forking the whole tree of a stored session under an unused id succeeds. Opening that id
  then gives a well-formed session with the same entries (renumbered), lanes, name and labels, whose
  parent session is the source unless the options name another one; every session that was in the
  repository is still there, unchanged.\<close>

theorem repo_fork_tree:
  assumes "map_of repo (meta_id source) = Some src" and "wf_state (state src)"
    and "i = (case optId of None \<Rightarrow> fresh | Some j \<Rightarrow> j)" and "\<not> map_has repo i"
  shows "\<exists>repo' st. repo_fork now fresh repo source ForkTree optId optParent = Inr (repo', i)
    \<and> requireStorage repo' i = Inr st \<and> wf_state (state st)
    \<and> entries (state st) = renumber 1 (entries (state src)) \<and> lanes (state st) = lanes (state src)
    \<and> sessionName (state st) = sessionName (state src)
    \<and> (\<forall>j. getLabel (state st) j = getLabel (state src) j) \<and> records (state st) = []
    \<and> parentSessionId (metadata st) = Some (case optParent of None \<Rightarrow> meta_id source | Some p \<Rightarrow> p)
    \<and> (\<forall>j. j \<noteq> i \<longrightarrow> requireStorage repo' j = requireStorage repo j)"
proof -
  let ?md = "\<lparr>meta_id = i, createdAt = now,
              parentSessionId = Some (case optParent of None \<Rightarrow> meta_id source | Some p \<Rightarrow> p)\<rparr>"
  obtain ms t where t: "createForkMutations (state src) ForkTree = Inr ms" "foldR applyMutation init_state ms = Inr t"
      "wf_state t" "entries t = renumber 1 (entries (state src))" "lanes t = lanes (state src)"
      "sessionName t = sessionName (state src)" "\<forall>j. getLabel t j = getLabel (state src) j" "records t = []"
    using fork_tree_copy [OF assms(2)] by blast
  let ?st = "\<lparr>metadata = ?md, state = t\<rparr>"
  have fork: "storage_fork src ?md ForkTree = Inr ?st" by (rule storage_fork_ok [OF t(1,2)])
  have "repo_fork now fresh repo source ForkTree optId optParent = Inr (AList.update i ?st repo, i)"
    using assms(1,4) fork by (simp add: repo_fork_def requireStorage_def Let_def flip: assms(3))
  then show ?thesis
    using t(3-8) by (intro exI [of _ "AList.update i ?st repo"] exI [of _ ?st])
      (auto simp: requireStorage_def alist_of_update)
qed

end
