(* ===== verification/Session_Context.thy ===== *)
theory Session_Context
  imports Session_Types Js_Text
begin

text \<open>
  From a branch of entries to the messages a model is given: the session context of
  \<open>agent/src/harness/session/context.ts\<close> and the conversion of \<open>agent/src/harness/messages.ts\<close>.
  Transforms and projectors are functions that the caller supplies. Timestamps of entries are numbers,
  so the branch of the message constructors that parses a date string is not reached.
\<close>

section \<open>Messages\<close>

definition COMPACTION_SUMMARY_PREFIX :: js_string where
  "COMPACTION_SUMMARY_PREFIX =
     js ''The conversation history before this point was compacted into the following summary:'' @ [LF, LF] @ js ''<summary>'' @ [LF]"

definition COMPACTION_SUMMARY_SUFFIX :: js_string where
  "COMPACTION_SUMMARY_SUFFIX = [LF] @ js ''</summary>''"

definition BRANCH_SUMMARY_PREFIX :: js_string where
  "BRANCH_SUMMARY_PREFIX =
     js ''The following is a summary of a branch that this conversation came back from:'' @ [LF, LF] @ js ''<summary>'' @ [LF]"

definition BRANCH_SUMMARY_SUFFIX :: js_string where
  "BRANCH_SUMMARY_SUFFIX = js ''</summary>''"

definition backtick :: js_string where "backtick = [0x60]"

definition bashExecutionToText :: "bash_execution_message \<Rightarrow> js_string" where
  "bashExecutionToText msg =
     (let text = js ''Ran '' @ backtick @ be_command msg @ backtick @ [LF];
          fence = backtick @ backtick @ backtick;
          text = text @ (if be_output msg \<noteq> [] then fence @ [LF] @ be_output msg @ [LF] @ fence else js ''(no output)'');
          text = text @ (if be_cancelled msg then [LF, LF] @ js ''(command cancelled)''
                         else case be_exitCode msg of
                           None \<Rightarrow> []
                         | Some c \<Rightarrow> if c \<noteq> 0 then [LF, LF] @ js ''Command exited with code '' @ js (decimal_int c) else [])
      in text @ (case be_fullOutputPath msg of
                   None \<Rightarrow> []
                 | Some p \<Rightarrow> if be_truncated msg \<and> p \<noteq> []
                             then [LF, LF] @ js ''[Output truncated. Full output: '' @ p @ js '']'' else []))"

definition createBranchSummaryMessage :: "js_string \<Rightarrow> ident \<Rightarrow> nat \<Rightarrow> agent_message" where
  "createBranchSummaryMessage summary fromId timestamp =
     BranchSummaryMessage \<lparr>bs_summary = summary, bs_fromId = fromId, bs_timestamp = timestamp\<rparr>"

definition createCompactionSummaryMessage :: "js_string \<Rightarrow> nat \<Rightarrow> nat \<Rightarrow> agent_message" where
  "createCompactionSummaryMessage summary tokensBefore timestamp =
     CompactionSummaryMessage \<lparr>cs_summary = summary, cs_tokensBefore = tokensBefore, cs_timestamp = timestamp\<rparr>"

definition createCustomMessage :: "ident \<Rightarrow> user_content \<Rightarrow> bool \<Rightarrow> js_value option \<Rightarrow> nat \<Rightarrow> agent_message" where
  "createCustomMessage customType cnt display details timestamp =
     CustomMessage \<lparr>cm_customType = customType, cm_content = cnt, cm_display = display, cm_details = details,
                    cm_timestamp = timestamp\<rparr>"

definition user_text :: "js_string \<Rightarrow> nat \<Rightarrow> agent_message" where
  "user_text t timestamp =
     UserMessage \<lparr>um_content = ContentBlocks [UText \<lparr>txt_text = t, txt_textSignature = None\<rparr>], um_timestamp = timestamp\<rparr>"

fun convert_message :: "agent_message \<Rightarrow> agent_message option" where
  "convert_message (BashExecutionMessage m) =
     (if be_excludeFromContext m = Some True then None
      else Some (user_text (bashExecutionToText m) (be_timestamp m)))"
| "convert_message (CustomMessage m) =
     Some (case cm_content m of
             ContentString t \<Rightarrow> user_text t (cm_timestamp m)
           | ContentBlocks bs \<Rightarrow> UserMessage \<lparr>um_content = ContentBlocks bs, um_timestamp = cm_timestamp m\<rparr>)"
| "convert_message (BranchSummaryMessage m) =
     Some (user_text (BRANCH_SUMMARY_PREFIX @ bs_summary m @ BRANCH_SUMMARY_SUFFIX) (bs_timestamp m))"
| "convert_message (CompactionSummaryMessage m) =
     Some (user_text (COMPACTION_SUMMARY_PREFIX @ cs_summary m @ COMPACTION_SUMMARY_SUFFIX) (cs_timestamp m))"
| "convert_message (UserMessage m) = Some (UserMessage m)"
| "convert_message (AssistantMessage m) = Some (AssistantMessage m)"
| "convert_message (ToolResultMessage m) = Some (ToolResultMessage m)"

definition convertToLlm :: "agent_message list \<Rightarrow> agent_message list" where
  "convertToLlm messages = List.map_filter convert_message messages"

section \<open>The context of a branch\<close>

record session_context =
  ctx_messages :: "agent_message list"
  ctx_thinkingLevel :: ident
  ctx_model :: "(ident \<times> ident) option"
  ctx_activeToolNames :: "ident list option"

type_synonym entry_transform = "entry list \<Rightarrow> entry list"

text \<open>A projector is given the custom entry, its index and the entries of the context.\<close>

type_synonym entry_projector = "entry \<Rightarrow> nat \<Rightarrow> entry list \<Rightarrow> agent_message list option"

record context_options =
  entryTransforms :: "entry_transform list"
  entryProjectors :: "(ident \<times> entry_projector) list"

type_synonym context_state = "ident \<times> (ident \<times> ident) option \<times> ident list option"

fun derive_entry :: "context_state \<Rightarrow> entry \<Rightarrow> context_state" where
  "derive_entry (thinkingLevel, model, activeToolNames) e =
     (case payload e of
        ThinkingLevelEntry l \<Rightarrow> (l, model, activeToolNames)
      | ModelChangeEntry provider modelId \<Rightarrow> (thinkingLevel, Some (provider, modelId), activeToolNames)
      | MessageEntry (AssistantMessage a) _ \<Rightarrow> (thinkingLevel, Some (am_provider a, am_model a), activeToolNames)
      | ActiveToolsEntry names \<Rightarrow> (thinkingLevel, model, Some names)
      | _ \<Rightarrow> (thinkingLevel, model, activeToolNames))"

definition deriveSessionContextState :: "entry list \<Rightarrow> context_state" where
  "deriveSessionContextState pathEntries = foldl derive_entry (''off'', None, None) pathEntries"

text \<open>The loop that looks for the last compaction: its argument is the path reversed, its result the
  compaction and the entries after it.\<close>

fun last_compaction :: "entry list \<Rightarrow> entry list \<Rightarrow> (entry \<times> entry list) option" where
  "last_compaction [] later = None"
| "last_compaction (e # es) later =
     (if entry_type_of e = Type_compaction then Some (e, later) else last_compaction es (e # later))"

definition defaultContextEntryTransform :: "entry list \<Rightarrow> entry list" where
  "defaultContextEntryTransform pathEntries =
     (case last_compaction (rev pathEntries) [] of None \<Rightarrow> pathEntries | Some (c, later) \<Rightarrow> c # later)"

definition buildContextEntries :: "entry list \<Rightarrow> context_options \<Rightarrow> entry list" where
  "buildContextEntries pathEntries options =
     foldl (\<lambda>es transform. transform es) (defaultContextEntryTransform pathEntries) (entryTransforms options)"

definition sessionEntryToContextMessages :: "entry \<Rightarrow> nat \<Rightarrow> entry list \<Rightarrow> context_options \<Rightarrow> agent_message list" where
  "sessionEntryToContextMessages e index entries options =
     (case payload e of
        MessageEntry m _ \<Rightarrow>
          (case m of AssistantMessage a \<Rightarrow> if am_stopReason a = Deferred then [] else [m] | _ \<Rightarrow> [m])
      | CompactionEntry c \<Rightarrow>
          createCompactionSummaryMessage (cp_summary c) (cp_tokensBefore c) (entry_timestamp e) # cp_retainedTail c
      | BranchSummaryEntry b \<Rightarrow>
          if bp_summary b \<noteq> [] then [createBranchSummaryMessage (bp_summary b) (bp_fromId b) (entry_timestamp e)] else []
      | CustomEntry customType _ \<Rightarrow>
          (case map_of (entryProjectors options) customType of
             None \<Rightarrow> []
           | Some projector \<Rightarrow> (case projector e index entries of None \<Rightarrow> [] | Some ms \<Rightarrow> ms))
      | _ \<Rightarrow> [])"

definition buildSessionContext :: "entry list \<Rightarrow> context_options \<Rightarrow> session_context" where
  "buildSessionContext pathEntries options =
     (case deriveSessionContextState pathEntries of (thinkingLevel, model, activeToolNames) \<Rightarrow>
      let contextEntries = buildContextEntries pathEntries options
      in \<lparr>ctx_messages = concat (map (\<lambda>(i, e). sessionEntryToContextMessages e i contextEntries options)
                                  (enumerate 0 contextEntries)),
          ctx_thinkingLevel = thinkingLevel, ctx_model = model, ctx_activeToolNames = activeToolNames\<rparr>)"

section \<open>Conversion for the model\<close>

definition is_llm_message :: "agent_message \<Rightarrow> bool" where
  "is_llm_message m = (case m of UserMessage _ \<Rightarrow> True | AssistantMessage _ \<Rightarrow> True | ToolResultMessage _ \<Rightarrow> True | _ \<Rightarrow> False)"

definition excluded :: "agent_message \<Rightarrow> bool" where
  "excluded m = (case m of BashExecutionMessage b \<Rightarrow> be_excludeFromContext b = Some True | _ \<Rightarrow> False)"

lemma convert_llm: "convert_message m = Some u \<Longrightarrow> is_llm_message u"
  by (cases m) (auto simp: is_llm_message_def user_text_def split: user_content.splits if_splits)

lemma convert_id: "is_llm_message m \<Longrightarrow> convert_message m = Some m"
  by (cases m) (auto simp: is_llm_message_def)

lemma convert_None: "convert_message m = None \<longleftrightarrow> excluded m"
  by (cases m) (auto simp: excluded_def)

lemma convert_all_id: "list_all is_llm_message ms \<Longrightarrow> convertToLlm ms = ms"
  by (induction ms) (auto simp: convertToLlm_def List.map_filter_simps convert_id)

lemma convert_append: "convertToLlm (ms @ ns) = convertToLlm ms @ convertToLlm ns"
  by (induction ms) (auto simp: convertToLlm_def List.map_filter_simps split: option.splits)

text \<open>The messages for a model are user, assistant and tool result messages only, one for each
  message that is not a bash execution excluded from the context, in order; a list of such messages is
  left as it is, so converting twice changes nothing.\<close>

theorem convertToLlm_llm:
  "list_all is_llm_message (convertToLlm ms)
   \<and> convertToLlm ms = map (\<lambda>m. the (convert_message m)) (filter (\<lambda>m. \<not> excluded m) ms)
   \<and> convertToLlm (filter is_llm_message ms) = filter is_llm_message ms
   \<and> convertToLlm (convertToLlm ms) = convertToLlm ms"
proof -
  have "list_all is_llm_message (convertToLlm ms)"
    using convert_llm by (auto simp: convertToLlm_def list_all_iff mem_map_filter)
  moreover have "convertToLlm ms = map (\<lambda>m. the (convert_message m)) (filter (\<lambda>m. \<not> excluded m) ms)"
    by (simp add: convertToLlm_def List.map_filter_def comp_def convert_None [symmetric])
  moreover have "convertToLlm (filter is_llm_message ms) = filter is_llm_message ms"
    by (rule convert_all_id) (simp add: list_all_iff)
  ultimately show ?thesis using convert_all_id by blast
qed

section \<open>What the context depends on\<close>

lemma last_compaction_skip:
  assumes "\<forall>e\<in>set q. entry_type_of e \<noteq> Type_compaction"
  shows "last_compaction (rev q @ r) later = last_compaction r (q @ later)"
  using assms by (induction q arbitrary: later rule: rev_induct) auto

lemma default_transform_compaction:
  assumes "entry_type_of c = Type_compaction" "\<forall>e\<in>set q. entry_type_of e \<noteq> Type_compaction"
  shows "defaultContextEntryTransform (p @ c # q) = c # q"
  using last_compaction_skip [OF assms(2), of "c # rev p" "[]"] assms(1) by (simp add: defaultContextEntryTransform_def)

lemma default_transform_plain:
  assumes "\<forall>e\<in>set q. entry_type_of e \<noteq> Type_compaction"
  shows "defaultContextEntryTransform q = q"
  using last_compaction_skip [OF assms, of "[]" "[]"] by (simp add: defaultContextEntryTransform_def)

lemma context_messages:
  "ctx_messages (buildSessionContext es options)
     = concat (map (\<lambda>(i, e). sessionEntryToContextMessages e i (buildContextEntries es options) options)
         (enumerate 0 (buildContextEntries es options)))"
  by (simp add: buildSessionContext_def Let_def split: prod.splits)

definition plain_options :: context_options where
  "plain_options = \<lparr>entryTransforms = [], entryProjectors = []\<rparr>"

text \<open>Without transforms and projectors an entry contributes the same messages wherever it stands.\<close>

definition entry_messages :: "entry \<Rightarrow> agent_message list" where
  "entry_messages e = sessionEntryToContextMessages e 0 [] plain_options"

lemma plain_entry_messages: "sessionEntryToContextMessages e i es plain_options = entry_messages e"
  by (simp add: entry_messages_def sessionEntryToContextMessages_def plain_options_def cong: entry_payload.case_cong)

lemma plain_context_messages:
  "ctx_messages (buildSessionContext es plain_options) = concat (map entry_messages (defaultContextEntryTransform es))"
proof -
  have "map (\<lambda>(i, e). entry_messages e) (enumerate 0 xs) = map entry_messages xs" for xs :: "entry list"
    by (rule nth_equalityI) (simp_all add: nth_enumerate_eq)
  then show ?thesis unfolding context_messages plain_entry_messages
    by (simp add: buildContextEntries_def plain_options_def)
qed

text \<open>After a compaction the context no longer depends on what was before it: whatever the transforms
  and projectors, the messages are those of the compaction entry and the entries after it; without any,
  they are the summary, the retained tail, and the messages of the later entries.\<close>

theorem context_after_compaction:
  assumes "payload c = CompactionEntry cp" and "\<forall>e\<in>set later. entry_type_of e \<noteq> Type_compaction"
  shows "ctx_messages (buildSessionContext (earlier @ c # later) options) = ctx_messages (buildSessionContext (c # later) options)
    \<and> ctx_messages (buildSessionContext (earlier @ c # later) plain_options)
      = createCompactionSummaryMessage (cp_summary cp) (cp_tokensBefore cp) (entry_timestamp c) # cp_retainedTail cp
        @ concat (map entry_messages later)"
proof -
  have c: "entry_type_of c = Type_compaction" using assms(1) by (simp add: entry_type_of_def)
  note cut = default_transform_compaction [OF c assms(2)]
  have "entry_messages c = createCompactionSummaryMessage (cp_summary cp) (cp_tokensBefore cp) (entry_timestamp c) # cp_retainedTail cp"
    using assms(1) by (simp add: entry_messages_def sessionEntryToContextMessages_def)
  then have "ctx_messages (buildSessionContext (earlier @ c # later) plain_options)
      = createCompactionSummaryMessage (cp_summary cp) (cp_tokensBefore cp) (entry_timestamp c) # cp_retainedTail cp
        @ concat (map entry_messages later)"
    using cut [of earlier] unfolding plain_context_messages by simp
  moreover have "buildContextEntries (earlier @ c # later) options = buildContextEntries (c # later) options"
    using cut [of earlier] cut [of "[]"] unfolding buildContextEntries_def by simp
  ultimately show ?thesis unfolding context_messages by simp
qed

definition demo_compaction :: entry where
  "demo_compaction = \<lparr>entry_id = ''c'', entry_seq = 2, parentId = Some ''a'', entry_timestamp = 5,
     payload = CompactionEntry \<lparr>cp_summary = js ''s'', cp_retainedTail = [], cp_tokensBefore = 9, cp_details = None, cp_usage = None\<rparr>\<rparr>"

definition demo_bash :: entry where
  "demo_bash = \<lparr>entry_id = ''b'', entry_seq = 3, parentId = Some ''c'', entry_timestamp = 6,
     payload = MessageEntry (user_text (js ''hi'') 6) False\<rparr>"

section \<open>Appending to a branch\<close>

lemma default_transform_snoc:
  assumes "entry_type_of e \<noteq> Type_compaction"
  shows "defaultContextEntryTransform (es @ [e]) = defaultContextEntryTransform es @ [e]"
proof -
  have snoc: "last_compaction rs (later @ [e]) = map_option (\<lambda>(c, l). (c, l @ [e])) (last_compaction rs later)" for rs later
    by (induction rs later rule: last_compaction.induct) auto
  have "last_compaction (rev (es @ [e])) [] = last_compaction (rev es) ([] @ [e])" using assms by simp
  then show ?thesis unfolding defaultContextEntryTransform_def snoc by (auto split: option.splits)
qed

lemma context_snoc:
  assumes "entry_type_of e \<noteq> Type_compaction"
  shows "ctx_messages (buildSessionContext (es @ [e]) plain_options)
    = ctx_messages (buildSessionContext es plain_options) @ entry_messages e"
  by (simp add: plain_context_messages default_transform_snoc [OF assms])

lemma context_state_snoc:
  "deriveSessionContextState (es @ [e]) = derive_entry (deriveSessionContextState es) e"
  by (simp add: deriveSessionContextState_def)

lemma message_entry_messages:
  assumes "payload e = MessageEntry m c"
    and "\<And>a. m = AssistantMessage a \<Longrightarrow> am_stopReason a \<noteq> Deferred"
  shows "entry_messages e = [m]"
  using assms by (cases m) (auto simp: entry_messages_def sessionEntryToContextMessages_def)

end
