(* ===== verification/Js_Json.thy ===== *)
theory Js_Json
  imports Js_Value Js_Text
begin

text \<open>
  \<open>JSON.stringify\<close> without replacer and indentation. The decimal form of a number that is not a safe
  integer (\<open>print_number\<close>) and the text of an object that is not plain (\<open>print_object\<close>) are arguments; the
  rest is defined here. The result is a text, nothing (\<open>undefined\<close>), or an exception.
\<close>

datatype json_result = JsonText js_string | JsonUndefined | JsonThrows

definition hex_digit :: "nat \<Rightarrow> 16 word" where
  "hex_digit n = of_nat (if n < 10 then 48 + n else 87 + n)"

definition unicode_escape :: "16 word \<Rightarrow> js_string" where
  "unicode_escape c =
     (let n = unat c
      in [0x5C, 0x75, hex_digit (n div 4096 mod 16), hex_digit (n div 256 mod 16), hex_digit (n div 16 mod 16), hex_digit (n mod 16)])"

definition quote_unit :: "16 word \<Rightarrow> js_string" where
  "quote_unit c =
     (if c = 0x22 then [0x5C, 0x22] else if c = 0x5C then [0x5C, 0x5C]
      else if c = 8 then [0x5C, 0x62] else if c = 12 then [0x5C, 0x66] else if c = 10 then [0x5C, 0x6E]
      else if c = 13 then [0x5C, 0x72] else if c = 9 then [0x5C, 0x74]
      else if unat c < 0x20 \<or> surrogate c then unicode_escape c
      else [c])"

fun quote_units :: "js_string \<Rightarrow> js_string" where
  "quote_units [] = []"
| "quote_units [c] = quote_unit c"
| "quote_units (c # d # ds) =
     (if is_high (unat c) \<and> is_low (unat d) then c # d # quote_units ds
      else quote_unit c @ quote_units (d # ds))"

definition quote_json :: "js_string \<Rightarrow> js_string" where
  "quote_json s = [0x22] @ quote_units s @ [0x22]"

definition number_json :: "(js_number \<Rightarrow> string) \<Rightarrow> js_number \<Rightarrow> js_string" where
  "number_json print_number x =
     (case x of
        JInt i \<Rightarrow> js (if is_safe_integer i then decimal_int i else print_number x)
      | JFrac _ \<Rightarrow> js (print_number x)
      | _ \<Rightarrow> js ''null'')"

text \<open>The elements of an array: what has no text is \<open>null\<close>. The entries of an object: what has no text
  is left out.\<close>

definition array_json :: "json_result list \<Rightarrow> json_result" where
  "array_json rs =
     (if JsonThrows \<in> set rs then JsonThrows
      else JsonText ([0x5B] @ join_on 0x2C (map (\<lambda>r. case r of JsonText t \<Rightarrow> t | _ \<Rightarrow> js ''null'') rs) @ [0x5D]))"

definition object_json :: "(js_string \<times> json_result) list \<Rightarrow> json_result" where
  "object_json rs =
     (if JsonThrows \<in> snd ` set rs then JsonThrows
      else JsonText ([0x7B] @ join_on 0x2C (List.map_filter (\<lambda>(k, r).
             case r of JsonText t \<Rightarrow> Some (quote_json k @ [0x3A] @ t) | _ \<Rightarrow> None) rs) @ [0x7D]))"

fun stringify :: "(js_number \<Rightarrow> string) \<Rightarrow> (string \<Rightarrow> js_string) \<Rightarrow> js_value \<Rightarrow> json_result" where
  "stringify print_number print_object JUndefined = JsonUndefined"
| "stringify print_number print_object JHole = JsonUndefined"
| "stringify print_number print_object JNull = JsonText (js ''null'')"
| "stringify print_number print_object (JBool b) = JsonText (js (if b then ''true'' else ''false''))"
| "stringify print_number print_object (JNumber x) = JsonText (number_json print_number x)"
| "stringify print_number print_object (JString s) = JsonText (quote_json s)"
| "stringify print_number print_object (JBytes bs) =
     object_json (map (\<lambda>(i, b). (js (decimal i), JsonText (js (decimal (unat b))))) (enumerate 0 bs))"
| "stringify print_number print_object (JArray vs) = array_json (map (stringify print_number print_object) vs)"
| "stringify print_number print_object (JObject symbols es) =
     object_json (map (\<lambda>(k, v). (k, stringify print_number print_object v)) es)"
| "stringify print_number print_object (JOther t) =
     (if t = ''bigint'' then JsonThrows
      else if t = ''function'' \<or> t = ''symbol'' then JsonUndefined
      else JsonText (print_object t))"

text \<open>A value made of JSON data only has a text.\<close>

fun json_value :: "js_value \<Rightarrow> bool" where
  "json_value JNull = True"
| "json_value (JBool _) = True"
| "json_value (JNumber x) = is_finite_number x"
| "json_value (JString _) = True"
| "json_value (JArray vs) = list_all json_value vs"
| "json_value (JObject symbols es) = (\<not> symbols \<and> list_all (\<lambda>(k, v). json_value v) es)"
| "json_value _ = False"

lemma json_value_text: "json_value v \<Longrightarrow> \<exists>t. stringify pn po v = JsonText t"
proof (induction v rule: json_value.induct)
  case (5 vs)
  then have "JsonThrows \<notin> set (map (stringify pn po) vs)" by (fastforce simp: list_all_iff)
  then show ?case by (simp add: array_json_def)
next
  case (6 symbols es)
  have "snd x \<noteq> JsonThrows" if x: "x \<in> set (map (\<lambda>(k, v). (k, stringify pn po v)) es)" for x
  proof -
    from x obtain k v where "(k, v) \<in> set es" "x = (k, stringify pn po v)" by auto
    moreover from this obtain t where "stringify pn po v = JsonText t"
      using "6.IH" [of "(k, v)" k v] "6.prems" by (fastforce simp: list_all_iff)
    ultimately show ?thesis by simp
  qed
  then have "JsonThrows \<notin> snd ` set (map (\<lambda>(k, v). (k, stringify pn po v)) es)" by force
  then show ?case unfolding stringify.simps object_json_def by (simp only: if_False) blast
qed simp_all

end
