(* ===== verification/Payload_Check.thy ===== *)
theory Payload_Check
  imports Session_Types Js_Json
begin

text \<open>
  The check of durable payloads, \<open>assertJsonSerializable\<close> of \<open>agent/src/harness/session/session.ts\<close>, on objects
  that live in a heap: references may be shared or cyclic, properties may be accessors or hidden,
  prototypes may be foreign. The loop over its explicit stack ends on every heap and accepts exactly the
  values that unfold to finite JSON data. For data that is a tree, as the rest of the session's model has
  it, the check comes down to a loop without the active set.
\<close>

section \<open>Objects in a heap\<close>

text \<open>
  A reference is the index of an object in the heap. \<open>HPrimitive t\<close> is a value whose \<open>typeof\<close> is \<open>t\<close> and that
  is not an object: undefined, a symbol, a bigint, a function.
\<close>

datatype heap_value =
    HNull | HBool bool | HString js_string | HNumber js_number | HPrimitive string | HRef nat

datatype own_property = DataProperty (enumerable: bool) heap_value | AccessorProperty (enumerable: bool)

datatype prototype_kind = ObjectPrototype | ArrayPrototype | NullPrototype | OtherPrototype

text \<open>
  The own string-keyed properties stand in the order of \<open>Object.getOwnPropertyNames\<close>; the property \<open>length\<close> of an
  array is kept apart from them, as a field.
\<close>

record heap_object =
  ho_isArray :: bool
  ho_prototype :: prototype_kind
  ho_symbols :: nat
  ho_length :: nat
  ho_properties :: "(js_string \<times> own_property) list"

type_synonym object_heap = "heap_object list"

definition getOwnPropertyNames :: "heap_object \<Rightarrow> js_string list" where
  "getOwnPropertyNames ob = map fst (ho_properties ob) @ (if ho_isArray ob then [js ''length''] else [])"

definition object_keys :: "heap_object \<Rightarrow> js_string list" where
  "object_keys ob = map fst (filter (\<lambda>(_, p). enumerable p) (ho_properties ob))"

definition getOwnPropertyDescriptor :: "heap_object \<Rightarrow> js_string \<Rightarrow> own_property option" where
  "getOwnPropertyDescriptor ob k = map_of (ho_properties ob) k"

abbreviation index_key :: "nat \<Rightarrow> js_string" where
  "index_key i \<equiv> js (decimal i)"

text \<open>What holds of the heap of every program: references point to objects, names are distinct, and only
  arrays have the length that is kept apart.\<close>

fun wf_ref :: "object_heap \<Rightarrow> heap_value \<Rightarrow> bool" where
  "wf_ref h (HRef a) = (a < length h)"
| "wf_ref h _ = True"

fun wf_property :: "object_heap \<Rightarrow> own_property \<Rightarrow> bool" where
  "wf_property h (DataProperty _ v) = wf_ref h v"
| "wf_property h (AccessorProperty _) = True"

definition wf_heap :: "object_heap \<Rightarrow> bool" where
  "wf_heap h = list_all (\<lambda>ob. distinct (getOwnPropertyNames ob) \<and> list_all (\<lambda>(_, p). wf_property h p) (ho_properties ob)) h"

section \<open>The check\<close>

definition invalidPayload :: "string \<Rightarrow> session_error" where
  "invalidPayload reason = SessionError Invalid_payload (''Durable payload '' @ reason)"

datatype json_validation_frame = ValueFrame heap_value | ExitFrame nat

text \<open>The loop over the indices of an array, from the last one down, and the loop over the keys of an
  object, the last one first. The head of the list is the top of the stack.\<close>

fun push_elements ::
    "heap_object \<Rightarrow> nat \<Rightarrow> json_validation_frame list \<Rightarrow> session_error + json_validation_frame list" where
  "push_elements ob 0 stack = Inr stack"
| "push_elements ob (Suc index) stack =
     (case getOwnPropertyDescriptor ob (index_key index) of
        None \<Rightarrow> Inl (invalidPayload ''contains a sparse array'')
      | Some (AccessorProperty _) \<Rightarrow> Inl (invalidPayload ''contains an array accessor'')
      | Some (DataProperty _ v) \<Rightarrow> push_elements ob index (ValueFrame v # stack))"

fun push_keys ::
    "heap_object \<Rightarrow> js_string list \<Rightarrow> json_validation_frame list \<Rightarrow> session_error + json_validation_frame list" where
  "push_keys ob [] stack = Inr stack"
| "push_keys ob (k # ks) stack =
     (case getOwnPropertyDescriptor ob k of
        Some (DataProperty _ v) \<Rightarrow> push_keys ob ks (ValueFrame v # stack)
      | _ \<Rightarrow> Inl (invalidPayload ''contains an accessor''))"

definition visit_object ::
    "heap_object \<Rightarrow> json_validation_frame list \<Rightarrow> session_error + json_validation_frame list" where
  "visit_object ob stack =
     (if ho_isArray ob then
        if ho_prototype ob \<noteq> ArrayPrototype then Inl (invalidPayload ''contains a non-standard array'')
        else if ho_symbols ob > 0 \<or> length (getOwnPropertyNames ob) \<noteq> ho_length ob + 1
        then Inl (invalidPayload ''contains an array with unsupported properties'')
        else push_elements ob (ho_length ob) stack
      else if ho_prototype ob \<noteq> ObjectPrototype \<and> ho_prototype ob \<noteq> NullPrototype
      then Inl (invalidPayload ''contains a non-plain object'')
      else if ho_symbols ob > 0 then Inl (invalidPayload ''contains a symbol-keyed property'')
      else if length (getOwnPropertyNames ob) \<noteq> length (object_keys ob)
      then Inl (invalidPayload ''contains a non-enumerable property'')
      else push_keys ob (rev (object_keys ob)) stack)"

text \<open>One round of the loop: the active set and the stack after the top frame.\<close>

fun json_step ::
    "object_heap \<Rightarrow> nat set \<Rightarrow> json_validation_frame \<Rightarrow> json_validation_frame list
      \<Rightarrow> session_error + (nat set \<times> json_validation_frame list)" where
  "json_step h active (ExitFrame a) stack = Inr (active - {a}, stack)"
| "json_step h active (ValueFrame HNull) stack = Inr (active, stack)"
| "json_step h active (ValueFrame (HString _)) stack = Inr (active, stack)"
| "json_step h active (ValueFrame (HBool _)) stack = Inr (active, stack)"
| "json_step h active (ValueFrame (HNumber x)) stack =
     (if is_finite_number x then Inr (active, stack) else Inl (invalidPayload ''contains a non-finite number''))"
| "json_step h active (ValueFrame (HPrimitive t)) stack = Inl (invalidPayload (''contains '' @ t))"
| "json_step h active (ValueFrame (HRef a)) stack =
     (if a \<in> active then Inl (invalidPayload ''contains a cycle'')
      else case visit_object (h ! a) (ExitFrame a # stack) of
        Inl e \<Rightarrow> Inl e
      | Inr stack' \<Rightarrow> Inr (insert a active, stack'))"

partial_function (option) json_frames ::
    "object_heap \<Rightarrow> nat set \<Rightarrow> json_validation_frame list \<Rightarrow> (session_error + unit) option" where
  "json_frames h active stack =
     (case stack of
        [] \<Rightarrow> Some (Inr ())
      | fr # rest \<Rightarrow>
         (case json_step h active fr rest of
            Inl e \<Rightarrow> Some (Inl e)
          | Inr (active', stack') \<Rightarrow> json_frames h active' stack'))"

definition assertJsonSerializable :: "object_heap \<Rightarrow> heap_value \<Rightarrow> (session_error + unit) option" where
  "assertJsonSerializable h v = json_frames h {} [ValueFrame v]"

section \<open>Data that a value unfolds to\<close>

text \<open>
  A value represents a tree of data when following its references gives the tree: shared objects are
  repeated, so an object that reaches itself represents no tree. Neither does one with accessors or hidden
  properties, nor an array with a foreign prototype or further properties.
\<close>

inductive represents :: "object_heap \<Rightarrow> heap_value \<Rightarrow> js_value \<Rightarrow> bool" for h where
  rep_null: "represents h HNull JNull"
| rep_bool: "represents h (HBool b) (JBool b)"
| rep_string: "represents h (HString s) (JString s)"
| rep_number: "represents h (HNumber x) (JNumber x)"
| rep_undefined: "represents h (HPrimitive ''undefined'') JUndefined"
| rep_other: "t \<noteq> ''undefined'' \<Longrightarrow> t \<noteq> ''object'' \<Longrightarrow> represents h (HPrimitive t) (JOther t)"
| rep_foreign:
    "\<not> ho_isArray (h ! a) \<Longrightarrow> ho_prototype (h ! a) \<notin> {ObjectPrototype, NullPrototype}
      \<Longrightarrow> d = JOther ''object'' \<or> (\<exists>bs. d = JBytes bs) \<Longrightarrow> represents h (HRef a) d"
| rep_array:
    "ho_isArray (h ! a) \<Longrightarrow> ho_prototype (h ! a) = ArrayPrototype \<Longrightarrow> ho_symbols (h ! a) = 0
      \<Longrightarrow> ho_length (h ! a) = length ts \<Longrightarrow> fst ` set (ho_properties (h ! a)) \<subseteq> index_key ` {..< length ts}
      \<Longrightarrow> (\<forall>i < length ts. if ts ! i = JHole then getOwnPropertyDescriptor (h ! a) (index_key i) = None
            else \<exists>en v. getOwnPropertyDescriptor (h ! a) (index_key i) = Some (DataProperty en v) \<and> represents h v (ts ! i))
      \<Longrightarrow> represents h (HRef a) (JArray ts)"
| rep_object:
    "\<not> ho_isArray (h ! a) \<Longrightarrow> ho_prototype (h ! a) \<in> {ObjectPrototype, NullPrototype}
      \<Longrightarrow> list_all2 (\<lambda>p e. fst p = fst e \<and> (\<exists>v. snd p = DataProperty True v \<and> represents h v (snd e))) (ho_properties (h ! a)) es
      \<Longrightarrow> represents h (HRef a) (JObject (0 < ho_symbols (h ! a)) es)"

section \<open>The check of trees\<close>

text \<open>The same check on data that is a tree: no reference is met twice on the way down, so the active set has
  no effect. A missing slot makes the number of property names smaller than the length of the array and one.\<close>

fun tree_frame :: "js_value \<Rightarrow> session_error + js_value list" where
  "tree_frame JNull = Inr []"
| "tree_frame (JString _) = Inr []"
| "tree_frame (JBool _) = Inr []"
| "tree_frame (JNumber x) = (if is_finite_number x then Inr [] else Inl (invalidPayload ''contains a non-finite number''))"
| "tree_frame JUndefined = Inl (invalidPayload ''contains undefined'')"
| "tree_frame JHole = Inl (invalidPayload ''contains undefined'')"
| "tree_frame (JOther t) =
     Inl (invalidPayload (if t = ''object'' then ''contains a non-plain object'' else ''contains '' @ t))"
| "tree_frame (JBytes _) = Inl (invalidPayload ''contains a non-plain object'')"
| "tree_frame (JArray vs) =
     (if JHole \<in> set vs then Inl (invalidPayload ''contains an array with unsupported properties'') else Inr vs)"
| "tree_frame (JObject symbols es) =
     (if symbols then Inl (invalidPayload ''contains a symbol-keyed property'') else Inr (map snd es))"

fun value_weight :: "js_value \<Rightarrow> nat" where
  "value_weight (JArray vs) = Suc (sum_list (map value_weight vs))"
| "value_weight (JObject symbols es) = Suc (sum_list (map (\<lambda>(k, v). value_weight v) es))"
| "value_weight _ = 1"

lemma tree_frame_weight: "tree_frame v = Inr cs \<Longrightarrow> sum_list (map value_weight cs) < value_weight v"
  by (cases v rule: tree_frame.cases) (auto split: if_splits simp: comp_def case_prod_unfold)

function tree_loop :: "js_value list \<Rightarrow> session_error + unit" where
  "tree_loop [] = Inr ()"
| "tree_loop (v # stack) = (case tree_frame v of Inl e \<Rightarrow> Inl e | Inr cs \<Rightarrow> tree_loop (cs @ stack))"
  by pat_completeness auto
termination
  by (relation "measure (\<lambda>stack. sum_list (map value_weight stack))") (auto dest: tree_frame_weight)

lemma tree_frame_value: "json_value v \<longleftrightarrow> (\<exists>cs. tree_frame v = Inr cs \<and> list_all json_value cs)"
  by (cases v rule: tree_frame.cases) (auto simp: list_all_iff intro: bexI [of _ JHole])

lemma tree_loop_iff: "tree_loop stack = Inr () \<longleftrightarrow> list_all json_value stack"
proof (induction stack rule: tree_loop.induct)
  case (2 v stack)
  then show ?case using tree_frame_value [of v] by (cases "tree_frame v") auto
qed simp

lemma tree_loop_append: "tree_loop (xs @ ys) = (case tree_loop xs of Inl e \<Rightarrow> Inl e | Inr _ \<Rightarrow> tree_loop ys)"
  by (induction xs rule: tree_loop.induct) (auto split: sum.splits)

section \<open>The loop and a recursive check\<close>


text \<open>The values that a visit pushes, the first one on top.\<close>

fun frame_value :: "json_validation_frame \<Rightarrow> heap_value" where
  "frame_value (ValueFrame v) = v"
| "frame_value (ExitFrame a) = HRef a"

definition visit_values :: "heap_object \<Rightarrow> session_error + heap_value list" where
  "visit_values ob = map_sum id (map frame_value) (visit_object ob [])"

lemma push_elements_append: "push_elements ob n (s @ t) = map_sum id (\<lambda>fs. fs @ t) (push_elements ob n s)"
proof (induction n arbitrary: s)
  case (Suc n)
  show ?case using Suc [of "ValueFrame v # s" for v] by (auto split: option.splits own_property.splits)
qed simp

lemma push_keys_append: "push_keys ob ks (s @ t) = map_sum id (\<lambda>fs. fs @ t) (push_keys ob ks s)"
proof (induction ks arbitrary: s)
  case (Cons k ks)
  show ?case using Cons [of "ValueFrame v # s" for v] by (auto split: option.splits own_property.splits)
qed simp

lemma push_elements_values:
  "push_elements ob n s = Inr fs \<Longrightarrow> \<exists>vs. fs = map ValueFrame vs @ s \<and> length vs = n
    \<and> (\<forall>i < n. \<exists>en. getOwnPropertyDescriptor ob (index_key i) = Some (DataProperty en (vs ! i)))"
proof (induction n arbitrary: s)
  case (Suc n)
  then obtain en v where d: "getOwnPropertyDescriptor ob (index_key n) = Some (DataProperty en v)"
    and rest: "push_elements ob n (ValueFrame v # s) = Inr fs"
    by (auto split: option.splits own_property.splits)
  obtain vs where vs: "fs = map ValueFrame vs @ ValueFrame v # s" "length vs = n"
    "\<forall>i < n. \<exists>en. getOwnPropertyDescriptor ob (index_key i) = Some (DataProperty en (vs ! i))"
    using Suc.IH [OF rest] by blast
  have "\<exists>en. getOwnPropertyDescriptor ob (index_key i) = Some (DataProperty en ((vs @ [v]) ! i))" if "i < Suc n" for i
    using vs(2,3) d that by (cases "i = n") (auto simp: nth_append)
  then show ?case using vs(1,2) by (intro exI [of _ "vs @ [v]"]) simp
qed simp

lemma push_keys_values:
  "push_keys ob ks s = Inr fs \<Longrightarrow> \<exists>vs. fs = map ValueFrame (rev vs) @ s
    \<and> list_all2 (\<lambda>k v. \<exists>en. getOwnPropertyDescriptor ob k = Some (DataProperty en v)) ks vs"
proof (induction ks arbitrary: s)
  case (Cons k ks)
  then obtain en v where d: "getOwnPropertyDescriptor ob k = Some (DataProperty en v)"
    and rest: "push_keys ob ks (ValueFrame v # s) = Inr fs"
    by (auto split: option.splits own_property.splits)
  from Cons.IH [OF rest] obtain vs where "fs = map ValueFrame (rev vs) @ ValueFrame v # s"
    "list_all2 (\<lambda>k v. \<exists>en. getOwnPropertyDescriptor ob k = Some (DataProperty en v)) ks vs" by blast
  then show ?case using d by (intro exI [of _ "v # vs"]) simp
qed simp

lemma visit_object_eq:
  "visit_object ob stack = map_sum id (\<lambda>vs. map ValueFrame vs @ stack) (visit_values ob)"
proof -
  have "visit_object ob stack = map_sum id (\<lambda>fs. fs @ stack) (visit_object ob [])"
    using push_elements_append [of ob _ "[]" stack] push_keys_append [of ob _ "[]" stack] by (simp add: visit_object_def)
  moreover have "\<exists>vs. fs = map ValueFrame vs" if "visit_object ob [] = Inr fs" for fs
    using that push_elements_values [of ob _ "[]" fs] push_keys_values [of ob _ "[]" fs]
    by (fastforce simp: visit_object_def split: if_splits)
  ultimately show ?thesis by (cases "visit_object ob []") (fastforce simp: visit_values_def comp_def)+
qed

text \<open>The check by recursion on the values: the children of an object are checked with it in the active set.\<close>

fun ref_of :: "heap_value \<Rightarrow> nat option" where
  "ref_of (HRef a) = Some a"
| "ref_of _ = None"

lemma ref_of_Some [simp]: "ref_of v = Some a \<longleftrightarrow> v = HRef a"
  by (cases v) auto

function heap_check :: "object_heap \<Rightarrow> nat set \<Rightarrow> heap_value list \<Rightarrow> session_error + unit" where
  "heap_check h A [] = Inr ()"
| "heap_check h A (v # vs) =
     (case ref_of v of
        Some a \<Rightarrow>
          (if a \<in> A \<or> length h \<le> a then Inl (invalidPayload ''contains a cycle'')
           else case visit_values (h ! a) of
             Inl e \<Rightarrow> Inl e
           | Inr cs \<Rightarrow> (case heap_check h (insert a A) cs of Inl e \<Rightarrow> Inl e | Inr _ \<Rightarrow> heap_check h A vs))
      | None \<Rightarrow> (case json_step h A (ValueFrame v) [] of Inl e \<Rightarrow> Inl e | Inr _ \<Rightarrow> heap_check h A vs))"
  by pat_completeness auto
termination
proof (relation "measures [\<lambda>(h, A, vs). card ({..< length h} - A), \<lambda>(h, A, vs). length vs]", goal_cases)
  case (3 h A v vs a cs)
  then have "a \<in> {..< length h} - A" by simp
  then have "card ({..< length h} - A - {a}) < card ({..< length h} - A)" by (intro card_Diff1_less) simp_all
  moreover have "{..< length h} - insert a A = {..< length h} - A - {a}" by blast
  ultimately show ?case by simp
qed auto

lemma visit_wf:
  assumes "wf_heap h" "a < length h" "visit_values (h ! a) = Inr cs" shows "list_all (wf_ref h) cs"
proof -
  have props: "wf_property h p" if "getOwnPropertyDescriptor (h ! a) k = Some p" for k p
  proof -
    have "(k, p) \<in> set (ho_properties (h ! a))" using that by (simp add: getOwnPropertyDescriptor_def map_of_SomeD)
    moreover have "list_all (\<lambda>(_, p). wf_property h p) (ho_properties (h ! a))"
      using assms(1,2) nth_mem [of a h] by (auto simp: wf_heap_def list_all_iff)
    ultimately show ?thesis by (auto simp: list_all_iff)
  qed
  obtain fs where fs: "visit_object (h ! a) [] = Inr fs" "cs = map frame_value fs"
    using assms(3) by (cases "visit_object (h ! a) []") (auto simp: visit_values_def)
  show ?thesis
  proof (cases "ho_isArray (h ! a)")
    case True
    then have "push_elements (h ! a) (ho_length (h ! a)) [] = Inr fs" using fs(1) by (simp add: visit_object_def split: if_splits)
    from push_elements_values [OF this] show ?thesis using fs(2) props by (fastforce simp: list_all_length comp_def)
  next
    case False
    then have "push_keys (h ! a) (rev (object_keys (h ! a))) [] = Inr fs" using fs(1) by (simp add: visit_object_def split: if_splits)
    from push_keys_values [OF this] obtain vs where vs: "fs = map ValueFrame (rev vs)"
      "list_all2 (\<lambda>k v. \<exists>en. getOwnPropertyDescriptor (h ! a) k = Some (DataProperty en v)) (rev (object_keys (h ! a))) vs" by auto
    have "wf_ref h v" if "v \<in> set vs" for v
      using vs(2) that props by (fastforce simp: in_set_conv_nth list_all2_conv_all_nth)
    then show ?thesis using vs(1) fs(2) by (auto simp: list_all_iff)
  qed
qed

lemma json_frames_Cons:
  "json_frames h A (fr # rest) =
     (case json_step h A fr rest of Inl e \<Rightarrow> Some (Inl e) | Inr (A', st) \<Rightarrow> json_frames h A' st)"
  by (subst json_frames.simps) simp

lemma json_frames_Nil: "json_frames h A [] = Some (Inr ())"
  by (subst json_frames.simps) simp

lemma json_frames_check:
  assumes "wf_heap h" and "list_all (wf_ref h) vs"
  shows "json_frames h A (map ValueFrame vs @ st) =
     (case heap_check h A vs of Inl e \<Rightarrow> Some (Inl e) | Inr _ \<Rightarrow> json_frames h A st)"
  using assms
proof (induction h A vs arbitrary: st rule: heap_check.induct)
  case (2 h A v vs)
  note wf = "2.prems"
  show ?case
  proof (cases "ref_of v")
    case None
    then show ?thesis using "2.IH"(1) [OF None] wf by (cases v) (auto simp: json_frames_Cons)
  next
    case (Some a)
    then have v: "v = HRef a" and a: "a < length h" using wf(2) by simp_all
    show ?thesis
    proof (cases "a \<in> A")
      case False
      then have neg: "\<not> (a \<in> A \<or> length h \<le> a)" using a by simp
      show ?thesis
      proof (cases "visit_values (h ! a)")
        case (Inl e)
        then show ?thesis using False a by (simp add: v json_frames_Cons visit_object_eq)
      next
        case (Inr cs)
        let ?rest = "map ValueFrame vs @ st"
        have "json_frames h A (ValueFrame v # ?rest) = json_frames h (insert a A) (map ValueFrame cs @ ExitFrame a # ?rest)"
          using False Inr by (simp add: v json_frames_Cons visit_object_eq)
        also have "\<dots> = (case heap_check h (insert a A) cs of Inl e \<Rightarrow> Some (Inl e)
             | Inr _ \<Rightarrow> json_frames h (insert a A) (ExitFrame a # ?rest))"
          by (rule "2.IH"(2) [OF Some neg Inr wf(1) visit_wf [OF wf(1) a Inr]])
        also have "json_frames h (insert a A) (ExitFrame a # ?rest) = json_frames h A ?rest"
          using False by (simp add: json_frames_Cons)
        finally show ?thesis
          using "2.IH"(3) [OF Some neg Inr] wf neg Inr by (auto simp: v split: sum.splits)
      qed
    qed (simp add: v json_frames_Cons)
  qed
qed simp

section \<open>The check and the represented data\<close>

lemma code_unit_of_char: "unat (of_nat (of_char c) :: 16 word) = of_char c"
  by (cases c) (simp add: unat_of_nat of_char_def take_bit_eq_mod)

lemma index_key_inject: "index_key i = index_key j \<longleftrightarrow> i = j"
proof
  assume "index_key i = index_key j"
  then have "map unat (index_key i) = map unat (index_key j)" by simp
  then have "map of_char (decimal i) = (map of_char (decimal j) :: nat list)" by (simp add: js_def comp_def code_unit_of_char)
  moreover have "inj (of_char :: char \<Rightarrow> nat)" by (rule injI) simp
  ultimately show "i = j" by (simp add: inj_map_eq_map)
qed simp

lemma index_keys_card: "card (index_key ` {..< n}) = n"
  using card_image [of index_key "{..< n}"] index_key_inject by (simp add: inj_on_def)

lemma wf_distinct: "wf_heap h \<Longrightarrow> a < length h \<Longrightarrow> distinct (map fst (ho_properties (h ! a)))"
  using nth_mem [of a h] by (auto simp: wf_heap_def list_all_iff getOwnPropertyNames_def)

lemma descriptor_None: "getOwnPropertyDescriptor ob k = None \<longleftrightarrow> k \<notin> fst ` set (ho_properties ob)"
  by (simp add: getOwnPropertyDescriptor_def map_of_eq_None_iff)

lemma descriptor_pair:
  "distinct (map fst (ho_properties ob)) \<Longrightarrow> (k, p) \<in> set (ho_properties ob) \<Longrightarrow> getOwnPropertyDescriptor ob k = Some p"
  by (simp add: getOwnPropertyDescriptor_def)

text \<open>An array whose properties are indices below its length has as many of them as its length exactly when no index is missing.\<close>

lemma index_names_count:
  assumes "distinct (map fst ps)" and "fst ` set ps \<subseteq> index_key ` {..< n}"
  shows "length ps = n \<longleftrightarrow> (\<forall>i < n. index_key i \<in> fst ` set ps)"
proof -
  have len: "card (fst ` set ps) = length ps" using distinct_card [OF assms(1)] by simp
  show ?thesis
  proof
    assume "length ps = n"
    then have "fst ` set ps = index_key ` {..< n}"
      using assms(2) len by (intro card_subset_eq) (simp_all add: index_keys_card)
    then show "\<forall>i < n. index_key i \<in> fst ` set ps" by blast
  next
    assume "\<forall>i < n. index_key i \<in> fst ` set ps"
    then have "fst ` set ps = index_key ` {..< n}" using assms(2) by blast
    then show "length ps = n" using len index_keys_card by simp
  qed
qed

lemma index_names_only:
  assumes "length ps = n" and "\<forall>i < n. index_key i \<in> fst ` set ps" shows "fst ` set ps \<subseteq> index_key ` {..< n}"
proof -
  have "index_key ` {..< n} \<subseteq> fst ` set ps" using assms(2) by blast
  moreover have "card (fst ` set ps) \<le> n" using card_length [of "map fst ps"] assms(1) by simp
  ultimately show ?thesis using card_seteq [of "fst ` set ps" "index_key ` {..< n}"] index_keys_card by simp
qed

lemma push_elements_total:
  "(\<forall>i < n. \<exists>en v. getOwnPropertyDescriptor ob (index_key i) = Some (DataProperty en v)) \<Longrightarrow> \<exists>fs. push_elements ob n s = Inr fs"
proof (induction n arbitrary: s)
  case (Suc n)
  then obtain en v where "getOwnPropertyDescriptor ob (index_key n) = Some (DataProperty en v)" by blast
  then show ?case using Suc.IH Suc.prems by simp
qed simp

lemma push_keys_total:
  "(\<forall>k \<in> set ks. \<exists>en v. getOwnPropertyDescriptor ob k = Some (DataProperty en v)) \<Longrightarrow> \<exists>fs. push_keys ob ks s = Inr fs"
  by (induction ks arbitrary: s) auto

definition same_visit :: "object_heap \<Rightarrow> session_error + heap_value list \<Rightarrow> session_error + js_value list \<Rightarrow> bool" where
  "same_visit h x y =
     (case (x, y) of
        (Inl e, Inl e') \<Rightarrow> e = e'
      | (Inr vs, Inr ts) \<Rightarrow> list_all2 (represents h) vs ts
      | _ \<Rightarrow> False)"

lemma visit_array:
  assumes "wf_heap h" "a < length h" and ob: "ho_isArray (h ! a)" "ho_prototype (h ! a) = ArrayPrototype"
      "ho_symbols (h ! a) = 0" "ho_length (h ! a) = length ts"
    and names: "fst ` set (ho_properties (h ! a)) \<subseteq> index_key ` {..< length ts}"
    and elems: "\<forall>i < length ts. if ts ! i = JHole then getOwnPropertyDescriptor (h ! a) (index_key i) = None
        else \<exists>en v. getOwnPropertyDescriptor (h ! a) (index_key i) = Some (DataProperty en v) \<and> represents h v (ts ! i)"
  shows "same_visit h (visit_values (h ! a)) (tree_frame (JArray ts))"
proof -
  have "index_key i \<in> fst ` set (ho_properties (h ! a)) \<longleftrightarrow> ts ! i \<noteq> JHole" if "i < length ts" for i
    using elems [rule_format, OF that] descriptor_None [of "h ! a" "index_key i"] by (auto split: if_splits)
  then have count: "length (ho_properties (h ! a)) = length ts \<longleftrightarrow> JHole \<notin> set ts"
    using index_names_count [OF wf_distinct [OF assms(1,2)] names] by (auto simp: in_set_conv_nth)
  show ?thesis
  proof (cases "JHole \<in> set ts")
    case True
    then show ?thesis using ob count by (simp add: same_visit_def visit_values_def visit_object_def getOwnPropertyNames_def)
  next
    case False
    then have el: "\<exists>en v. getOwnPropertyDescriptor (h ! a) (index_key i) = Some (DataProperty en v) \<and> represents h v (ts ! i)"
      if "i < length ts" for i using elems that by (metis nth_mem)
    then obtain fs where fs: "push_elements (h ! a) (length ts) [] = Inr fs"
      using push_elements_total [of "length ts" "h ! a" "[]"] by blast
    from push_elements_values [OF fs] obtain vs where vs: "fs = map ValueFrame vs" "length vs = length ts"
      "\<forall>i < length ts. \<exists>en. getOwnPropertyDescriptor (h ! a) (index_key i) = Some (DataProperty en (vs ! i))" by auto
    have "represents h (vs ! i) (ts ! i)" if "i < length ts" for i
      using el [OF that] vs(3) [rule_format, OF that] by auto
    then have "list_all2 (represents h) vs ts" using vs(2) by (simp add: list_all2_conv_all_nth)
    then show ?thesis using ob count False fs vs(1)
      by (simp add: same_visit_def visit_values_def visit_object_def getOwnPropertyNames_def comp_def)
  qed
qed

lemma visit_plain:
  assumes "wf_heap h" "a < length h" and ob: "\<not> ho_isArray (h ! a)" "ho_prototype (h ! a) \<in> {ObjectPrototype, NullPrototype}"
    and props: "list_all2 (\<lambda>p e. fst p = fst e \<and> (\<exists>v. snd p = DataProperty True v \<and> represents h v (snd e))) (ho_properties (h ! a)) es"
  shows "same_visit h (visit_values (h ! a)) (tree_frame (JObject (0 < ho_symbols (h ! a)) es))"
proof (cases "0 < ho_symbols (h ! a)")
  case True
  then show ?thesis using ob by (auto simp: same_visit_def visit_values_def visit_object_def)
next
  case False
  let ?ps = "ho_properties (h ! a)"
  have len: "length es = length ?ps" using props by (simp add: list_all2_lengthD)
  have p: "\<exists>v. ?ps ! i = (fst (es ! i), DataProperty True v) \<and> represents h v (snd (es ! i))" if "i < length ?ps" for i
    using list_all2_nthD [OF props that] by (metis prod.collapse)
  have "\<forall>x \<in> set ?ps. enumerable (snd x)" using p by (fastforce simp: in_set_conv_nth)
  then have keys: "object_keys (h ! a) = map fst ?ps" by (simp add: object_keys_def case_prod_unfold filter_id_conv)
  have d: "\<exists>v. getOwnPropertyDescriptor (h ! a) (map fst ?ps ! i) = Some (DataProperty True v) \<and> represents h v (snd (es ! i))"
    if "i < length ?ps" for i
    using p [OF that] descriptor_pair [OF wf_distinct [OF assms(1,2)]] nth_mem [OF that] that by fastforce
  then have "\<forall>k \<in> set (rev (map fst ?ps)). \<exists>en v. getOwnPropertyDescriptor (h ! a) k = Some (DataProperty en v)"
    by (metis in_set_conv_nth length_map set_rev)
  then obtain fs where fs: "push_keys (h ! a) (rev (map fst ?ps)) [] = Inr fs" using push_keys_total by blast
  from push_keys_values [OF this] obtain vs where vs: "fs = map ValueFrame (rev vs)"
    "list_all2 (\<lambda>k v. \<exists>en. getOwnPropertyDescriptor (h ! a) k = Some (DataProperty en v)) (rev (map fst ?ps)) vs" by auto
  then have vs2: "list_all2 (\<lambda>k v. \<exists>en. getOwnPropertyDescriptor (h ! a) k = Some (DataProperty en v)) (map fst ?ps) (rev vs)"
    using list_all2_rev1 by blast
  have "represents h (rev vs ! i) (snd (es ! i))" if "i < length ?ps" for i
    using list_all2_nthD [OF vs2, of i] d [OF that] that by auto
  moreover have "length vs = length es" using list_all2_lengthD [OF vs2] len by simp
  ultimately have "list_all2 (represents h) (rev vs) (map snd es)" using len by (simp add: list_all2_conv_all_nth)
  then show ?thesis using ob False keys fs vs(1)
    by (auto simp: same_visit_def visit_values_def visit_object_def getOwnPropertyNames_def comp_def)
qed

lemma visit_represents:
  assumes "wf_heap h" "a < length h" "represents h (HRef a) t"
  shows "same_visit h (visit_values (h ! a)) (tree_frame t)"
  using assms(3)
proof (cases rule: represents.cases)
  case rep_foreign
  then show ?thesis by (auto simp: same_visit_def visit_values_def visit_object_def)
next
  case (rep_array ts)
  then show ?thesis using visit_array [OF assms(1,2)] by simp
next
  case (rep_object es)
  then show ?thesis using visit_plain [OF assms(1,2)] by simp
qed

text \<open>The weight of the represented data does not depend on the way it is read.\<close>

lemma represents_weight: "represents h v t \<Longrightarrow> represents h v t' \<Longrightarrow> value_weight t = value_weight t'"
proof (induction v t arbitrary: t' rule: represents.induct)
  case (rep_array a ts)
  from rep_array.prems rep_array.hyps(1) obtain ts' where t': "t' = JArray ts'" "length ts' = length ts"
    "\<forall>i < length ts'. if ts' ! i = JHole then getOwnPropertyDescriptor (h ! a) (index_key i) = None
       else \<exists>en v. getOwnPropertyDescriptor (h ! a) (index_key i) = Some (DataProperty en v) \<and> represents h v (ts' ! i)"
    using rep_array.hyps(4) by (auto elim!: represents.cases)
  have "value_weight (ts ! i) = value_weight (ts' ! i)" if "i < length ts" for i
    using rep_array.IH [rule_format, OF that] t'(2) t'(3) [rule_format, of i] that
    by (cases "ts ! i = JHole"; cases "ts' ! i = JHole") auto
  then have "map value_weight ts = map value_weight ts'" using t'(2) by (auto intro: nth_equalityI)
  then show ?case using t'(1) by simp
next
  case (rep_object a es)
  from rep_object.prems rep_object.hyps obtain s es' where t': "t' = JObject s es'"
    "list_all2 (\<lambda>p e. fst p = fst e \<and> (\<exists>v. snd p = DataProperty True v \<and> represents h v (snd e))) (ho_properties (h ! a)) es'"
    by (auto elim!: represents.cases)
  have len: "length es' = length es" using list_all2_lengthD [OF rep_object.IH] list_all2_lengthD [OF t'(2)] by simp
  have "value_weight (snd (es ! i)) = value_weight (snd (es' ! i))" if "i < length es" for i
    using list_all2_nthD2 [OF rep_object.IH that] list_all2_nthD2 [OF t'(2), of i] that len by auto
  then have "map (\<lambda>(k, v). value_weight v) es = map (\<lambda>(k, v). value_weight v) es'"
    using len by (auto intro!: nth_equalityI simp: case_prod_unfold)
  then show ?case using t'(1) by simp
next
  case (rep_foreign a d)
  then show ?case by (auto elim!: represents.cases)
qed (auto elim: represents.cases)

text \<open>On the way down every active object represents more data than what is checked.\<close>

definition active_above :: "object_heap \<Rightarrow> nat set \<Rightarrow> js_value list \<Rightarrow> bool" where
  "active_above h A ts = (\<forall>a \<in> A. \<exists>u. represents h (HRef a) u \<and> (\<forall>t \<in> set ts. value_weight t < value_weight u))"

lemma children_lighter: "tree_frame t = Inr cs \<Longrightarrow> c \<in> set cs \<Longrightarrow> value_weight c < value_weight t"
  using tree_frame_weight [of t cs] member_le_sum_list [of "value_weight c" "map value_weight cs"] by fastforce

lemma heap_check_tree:
  assumes "wf_heap h" and "list_all (wf_ref h) vs" and "list_all2 (represents h) vs ts" and "active_above h A ts"
  shows "heap_check h A vs = tree_loop ts"
  using assms
proof (induction h A vs arbitrary: ts rule: heap_check.induct)
  case (2 h A v vs)
  obtain t us where ts: "ts = t # us" and rep: "represents h v t" and reps: "list_all2 (represents h) vs us"
    using "2.prems"(3) by (auto simp: list_all2_Cons1)
  have wf: "wf_heap h" "list_all (wf_ref h) vs" and up: "active_above h A us"
    using "2.prems" ts by (auto simp: active_above_def)
  show ?case
  proof (cases "ref_of v")
    case None
    show ?thesis using rep
    proof (cases rule: represents.cases)
      case (rep_number x)
      then show ?thesis using "2.IH"(1) [OF None _ wf reps up] by (cases "is_finite_number x") (simp_all add: ts)
    qed (use "2.IH"(1) [OF None _ wf reps up] None in \<open>simp_all add: ts\<close>)
  next
    case (Some a)
    then have v: "v = HRef a" and a: "a < length h" using "2.prems"(2) by simp_all
    have "a \<notin> A"
    proof
      assume "a \<in> A"
      then obtain u where "represents h v u" "value_weight t < value_weight u"
        using "2.prems"(4) unfolding active_above_def ts v by auto
      then show False using represents_weight [OF rep] by simp
    qed
    then have neg: "\<not> (a \<in> A \<or> length h \<le> a)" using a by simp
    have same: "same_visit h (visit_values (h ! a)) (tree_frame t)" using visit_represents [OF wf(1) a] rep v by simp
    show ?thesis
    proof (cases "visit_values (h ! a)")
      case (Inl e)
      then show ?thesis using same neg by (auto simp: same_visit_def ts v split: sum.splits)
    next
      case (Inr cs)
      then obtain ds where ds: "tree_frame t = Inr ds" "list_all2 (represents h) cs ds"
        using same by (auto simp: same_visit_def split: sum.splits)
      have "active_above h (insert a A) ds"
        using "2.prems"(4) children_lighter [OF ds(1)] rep by (fastforce simp: active_above_def ts v)
      then have "heap_check h (insert a A) cs = tree_loop ds"
        using "2.IH"(2) [OF Some neg Inr wf(1) visit_wf [OF wf(1) a Inr] ds(2)] by blast
      then show ?thesis using "2.IH"(3) [OF Some neg Inr _ wf reps up] neg Inr ds(1)
        by (auto simp: ts v tree_loop_append split: sum.splits)
    qed
  qed
qed simp

lemma visited_array:
  assumes "ho_isArray (h ! a)" "visit_values (h ! a) = Inr vs"
    and "list_all2 (represents h) vs ts" "list_all json_value ts"
  shows "represents h (HRef a) (JArray ts)"
proof -
  obtain fs where ob: "ho_prototype (h ! a) = ArrayPrototype" "ho_symbols (h ! a) = 0"
      "length (ho_properties (h ! a)) = ho_length (h ! a)"
    and fs: "push_elements (h ! a) (ho_length (h ! a)) [] = Inr fs" "vs = map frame_value fs"
    using assms(1,2) by (cases "visit_object (h ! a) []") (auto simp: visit_values_def visit_object_def getOwnPropertyNames_def split: if_splits)
  have d: "length vs = ho_length (h ! a)"
    "\<forall>i < ho_length (h ! a). \<exists>en. getOwnPropertyDescriptor (h ! a) (index_key i) = Some (DataProperty en (vs ! i))"
    using push_elements_values [OF fs(1)] fs(2) by (auto simp: comp_def)
  have len: "length ts = ho_length (h ! a)" using list_all2_lengthD [OF assms(3)] d(1) by simp
  have present: "\<forall>i < ho_length (h ! a). index_key i \<in> fst ` set (ho_properties (h ! a))"
    using d(2) descriptor_None by (metis option.distinct(1))
  have hole: "ts ! i \<noteq> JHole" if "i < length ts" for i using assms(4) that by (auto simp: list_all_length)
  show ?thesis
  proof (rule rep_array)
    show "fst ` set (ho_properties (h ! a)) \<subseteq> index_key ` {..< length ts}"
      using index_names_only [OF ob(3) present] len by simp
    show "\<forall>i < length ts. if ts ! i = JHole then getOwnPropertyDescriptor (h ! a) (index_key i) = None
        else \<exists>en v. getOwnPropertyDescriptor (h ! a) (index_key i) = Some (DataProperty en v) \<and> represents h v (ts ! i)"
      using d hole len list_all2_nthD2 [OF assms(3)] by fastforce
  qed (use assms(1) ob len in simp_all)
qed

lemma visited_plain_object:
  assumes "\<not> ho_isArray ob" "visit_values ob = Inr vs"
  shows "\<exists>fs. ho_prototype ob \<in> {ObjectPrototype, NullPrototype} \<and> ho_symbols ob = 0
    \<and> length (object_keys ob) = length (ho_properties ob)
    \<and> push_keys ob (rev (object_keys ob)) [] = Inr fs \<and> vs = map frame_value fs"
proof -
  obtain fs where fs: "visit_object ob [] = Inr fs" "vs = map frame_value fs"
    using assms(2) by (cases "visit_object ob []") (simp_all add: visit_values_def)
  then have "push_keys ob (rev (object_keys ob)) [] = Inr fs" using assms(1) by (simp add: visit_object_def split: if_splits)
  then show ?thesis using fs assms(1) by (simp add: visit_object_def getOwnPropertyNames_def split: if_splits)
qed

lemma visited_object:
  assumes "wf_heap h" "a < length h" "\<not> ho_isArray (h ! a)" "visit_values (h ! a) = Inr vs"
    and "list_all2 (represents h) vs ts"
  shows "represents h (HRef a) (JObject False (zip (map fst (ho_properties (h ! a))) ts)) \<and> length ts = length (ho_properties (h ! a))"
proof -
  let ?ps = "ho_properties (h ! a)"
  obtain fs where ob: "ho_prototype (h ! a) \<in> {ObjectPrototype, NullPrototype}" "ho_symbols (h ! a) = 0"
      "length (object_keys (h ! a)) = length ?ps"
    and fs: "push_keys (h ! a) (rev (object_keys (h ! a))) [] = Inr fs" "vs = map frame_value fs"
    using visited_plain_object [OF assms(3,4)] by blast
  have "filter (\<lambda>(_, p). enumerable p) ?ps = ?ps"
    using ob(3) by (auto simp: object_keys_def filter_id_conv case_prod_unfold dest: length_filter_less [where P = "\<lambda>x. enumerable (snd x)"])
  then have en: "\<forall>x \<in> set ?ps. enumerable (snd x)" and keys: "object_keys (h ! a) = map fst ?ps"
    by (auto simp: object_keys_def filter_id_conv)
  from push_keys_values [OF fs(1)] fs(2) obtain ws where "vs = rev ws"
    "list_all2 (\<lambda>k v. \<exists>en. getOwnPropertyDescriptor (h ! a) k = Some (DataProperty en v)) (rev (map fst ?ps)) ws"
    by (auto simp: keys comp_def)
  then have d: "list_all2 (\<lambda>k v. \<exists>en. getOwnPropertyDescriptor (h ! a) k = Some (DataProperty en v)) (map fst ?ps) vs"
    by (simp only: list_all2_rev1)
  have len: "length vs = length ?ps" "length ts = length ?ps"
    using list_all2_lengthD [OF d] list_all2_lengthD [OF assms(5)] by simp_all
  have "snd (?ps ! i) = DataProperty True (vs ! i)" if "i < length ?ps" for i
    using list_all2_nthD [OF d, of i] that en [rule_format, OF nth_mem [OF that]]
      descriptor_pair [OF wf_distinct [OF assms(1,2)], of "fst (?ps ! i)" "snd (?ps ! i)"] by auto
  then have "list_all2 (\<lambda>p e. fst p = fst e \<and> (\<exists>v. snd p = DataProperty True v \<and> represents h v (snd e))) ?ps (zip (map fst ?ps) ts)"
    using len list_all2_nthD [OF assms(5)] by (auto simp: list_all2_conv_all_nth)
  then show ?thesis using rep_object [OF assms(3) ob(1)] ob(2) len by simp
qed

lemma visited_represents:
  assumes "wf_heap h" "a < length h" "visit_values (h ! a) = Inr vs" "list_all2 (represents h) vs ts" "list_all json_value ts"
  shows "\<exists>t. represents h (HRef a) t \<and> json_value t"
proof (cases "ho_isArray (h ! a)")
  case True
  then show ?thesis using visited_array [OF True assms(3-5)] assms(5) by (intro exI [of _ "JArray ts"]) simp
next
  case False
  let ?es = "zip (map fst (ho_properties (h ! a))) ts"
  have "represents h (HRef a) (JObject False ?es)" using visited_object [OF assms(1,2) False assms(3,4)] by simp
  moreover have "json_value (JObject False ?es)" using assms(5) by (auto simp: list_all_iff dest: set_zip_rightD)
  ultimately show ?thesis by blast
qed

lemma heap_check_accepts:
  assumes "wf_heap h" and "heap_check h A vs = Inr ()"
  shows "\<exists>ts. list_all2 (represents h) vs ts \<and> list_all json_value ts"
  using assms
proof (induction h A vs rule: heap_check.induct)
  case (2 h A v vs)
  have "\<exists>t. represents h v t \<and> json_value t"
  proof (cases "ref_of v")
    case None
    then show ?thesis using "2.prems"(2) by (cases v) (auto split: if_splits intro: represents.intros exI)
  next
    case (Some a)
    then have v: "v = HRef a" by simp
    obtain cs where neg: "\<not> (a \<in> A \<or> length h \<le> a)" and Inr: "visit_values (h ! a) = Inr cs"
      and cs: "heap_check h (insert a A) cs = Inr ()"
      using "2.prems"(2) by (auto simp: v split: if_splits sum.splits)
    obtain ts where "list_all2 (represents h) cs ts" "list_all json_value ts"
      using "2.IH"(2) [OF Some neg Inr "2.prems"(1) cs] by blast
    then show ?thesis using visited_represents [OF "2.prems"(1) _ Inr] neg v by simp
  qed
  moreover have "\<exists>ts. list_all2 (represents h) vs ts \<and> list_all json_value ts"
  proof (cases "ref_of v")
    case None
    then show ?thesis using "2.IH"(1) [OF None] "2.prems" by (auto split: sum.splits)
  next
    case (Some a)
    then show ?thesis using "2.IH"(3) [OF Some] "2.prems" by (auto split: if_splits sum.splits)
  qed
  ultimately show ?case by (metis list.pred_inject(2) list_all2_Cons)
qed simp

lemma heap_check_error: "heap_check h A vs = Inl e \<Longrightarrow> \<exists>reason. e = invalidPayload reason"
proof (induction h A vs rule: heap_check.induct)
  case (2 h A v vs)
  have push: "\<exists>reason. x = invalidPayload reason"
    if "push_elements ob n s = Inl x \<or> push_keys ob ks s = Inl x" for ob n ks s x
  proof -
    have "push_elements ob n s = Inl x \<Longrightarrow> \<exists>reason. x = invalidPayload reason"
      by (induction n arbitrary: s) (auto split: option.splits own_property.splits)
    moreover have "push_keys ob ks s = Inl x \<Longrightarrow> \<exists>reason. x = invalidPayload reason"
      by (induction ks arbitrary: s) (auto split: option.splits own_property.splits)
    ultimately show ?thesis using that by blast
  qed
  have visit: "\<exists>reason. x = invalidPayload reason" if "visit_values ob = Inl x" for ob x
  proof -
    have "visit_object ob [] = Inl x" using that by (cases "visit_object ob []") (simp_all add: visit_values_def)
    then show ?thesis using push unfolding visit_object_def by (metis sum.inject(1))
  qed
  show ?case
  proof (cases "ref_of v")
    case None
    then show ?thesis using "2.IH"(1) [OF None] "2.prems" by (cases v) (auto split: if_splits)
  next
    case (Some a)
    then show ?thesis using "2.IH"(2,3) [OF Some] "2.prems" visit by (auto split: if_splits sum.splits)
  qed
qed simp

section \<open>Correctness of the check\<close>

text \<open>C37: On every heap the check of payloads, a loop over an explicit stack with a set of active objects, ends.
  It accepts a value exactly when the value unfolds to a finite tree of JSON data: an object may be shared
  but not reach itself, and there is no accessor or hidden property, no symbol key, no foreign prototype, no missing slot or
  further property of an array, no undefined, function, symbol or bigint and no number that is not finite. Every
  refusal is an invalid-payload error. On data that is a tree the answer is that of the check of trees.\<close>

theorem assertJsonSerializable_exact:
  assumes "wf_heap h" and "wf_ref h v"
  shows "\<exists>r. assertJsonSerializable h v = Some r
    \<and> (r = Inr () \<longleftrightarrow> (\<exists>t. represents h v t \<and> json_value t))
    \<and> (r = Inr () \<or> (\<exists>reason. r = Inl (invalidPayload reason)))
    \<and> (\<forall>t. represents h v t \<longrightarrow> r = tree_loop [t])"
proof (intro exI conjI allI impI)
  let ?r = "heap_check h {} [v]"
  show "assertJsonSerializable h v = Some ?r"
    using json_frames_check [OF assms(1), of "[v]" "{}" "[]"] assms(2)
    by (cases ?r) (simp_all add: assertJsonSerializable_def json_frames_Nil)
  have tree: "?r = tree_loop [t]" if "represents h v t" for t
    using that assms by (intro heap_check_tree) (simp_all add: active_above_def)
  then show "?r = tree_loop [t]" if "represents h v t" for t using that by blast
  show "?r = Inr () \<longleftrightarrow> (\<exists>t. represents h v t \<and> json_value t)"
  proof
    assume "?r = Inr ()"
    from heap_check_accepts [OF assms(1) this] show "\<exists>t. represents h v t \<and> json_value t" by (auto simp: list_all2_Cons1)
  next
    assume "\<exists>t. represents h v t \<and> json_value t"
    then obtain t where t: "represents h v t" "json_value t" by blast
    show "?r = Inr ()" using tree [OF t(1)] tree_loop_iff [of "[t]"] t(2) by simp
  qed
  show "?r = Inr () \<or> (\<exists>reason. ?r = Inl (invalidPayload reason))"
    using heap_check_error [of h "{}" "[v]"] by (cases ?r) auto
qed

definition pair_heap :: "heap_value \<Rightarrow> object_heap" where
  "pair_heap back_ref =
     [\<lparr>ho_isArray = True, ho_prototype = ArrayPrototype, ho_symbols = 0, ho_length = 2,
       ho_properties = [(index_key 0, DataProperty True (HRef 1)), (index_key 1, DataProperty True (HRef 1))]\<rparr>,
      \<lparr>ho_isArray = False, ho_prototype = ObjectPrototype, ho_symbols = 0, ho_length = 0,
       ho_properties = [(js ''k'', DataProperty True back_ref)]\<rparr>]"

theorem assertJsonSerializable_exact_witness:
  "assertJsonSerializable (pair_heap HNull) (HRef 0) = Some (Inr ())
    \<and> (\<exists>t. represents (pair_heap HNull) (HRef 0) t \<and> json_value t)
    \<and> assertJsonSerializable (pair_heap (HRef 0)) (HRef 0) = Some (Inl (invalidPayload ''contains a cycle''))
    \<and> \<not> (\<exists>t. represents (pair_heap (HRef 0)) (HRef 0) t \<and> json_value t)"
proof -
  have wf: "wf_heap (pair_heap v) \<and> wf_ref (pair_heap v) (HRef 0)" if "v = HNull \<or> v = HRef 0" for v
    using that by (auto simp: wf_heap_def pair_heap_def getOwnPropertyNames_def decimal.simps js_def)
  have run: "assertJsonSerializable (pair_heap HNull) (HRef 0) = Some (Inr ())"
    "assertJsonSerializable (pair_heap (HRef 0)) (HRef 0) = Some (Inl (invalidPayload ''contains a cycle''))"
    by (simp_all add: assertJsonSerializable_def json_frames_Cons json_frames_Nil visit_object_def pair_heap_def
        getOwnPropertyNames_def object_keys_def getOwnPropertyDescriptor_def numeral_2_eq_2 index_key_inject decimal.simps js_def)
  show ?thesis
    using run assertJsonSerializable_exact [of "pair_heap HNull" "HRef 0"] wf [of HNull]
      assertJsonSerializable_exact [of "pair_heap (HRef 0)" "HRef 0"] wf [of "HRef 0"] by auto
qed

end
