(* ===== verification/Session_Api.thy ===== *)
theory Session_Api
  imports Session_Storage Session_Context Payload_Check
begin

text \<open>
  The class \<open>Session\<close> of \<open>agent/src/harness/session/session.ts\<close>: lane views, queries and writes over a storage, with the check of
  payloads. The storage is an argument, a record of the operations of the interface
  \<open>SessionStorage\<close>; the in-memory storage is one. Ids come from the generator as arguments, and so does the
  clock that a storage reads.
\<close>

section \<open>The parts of a payload that are checked\<close>

text \<open>
  The parts of an entry or record whose type is \<open>unknown\<close>, in the order of the type's fields. The rest is
  strings, finite numbers, booleans, null, plain objects and arrays by its type, so the check of the whole
  comes down to these parts.
\<close>

definition block_unknowns :: "assistant_block \<Rightarrow> js_value list" where
  "block_unknowns b = (case b of AToolCall c \<Rightarrow> [tc_arguments c] | _ \<Rightarrow> [])"

definition opt_list :: "'a option \<Rightarrow> 'a list" where
  "opt_list x = (case x of None \<Rightarrow> [] | Some a \<Rightarrow> [a])"

definition message_unknowns :: "agent_message \<Rightarrow> js_value list" where
  "message_unknowns m =
     (case m of
        AssistantMessage a \<Rightarrow>
          concat (map block_unknowns (am_content a)) @ opt_list (am_diagnostics a)
          @ (case am_deferred a of None \<Rightarrow> [] | Some d \<Rightarrow> opt_list (dh_data d))
      | ToolResultMessage r \<Rightarrow> opt_list (tr_details r)
      | CustomMessage c \<Rightarrow> opt_list (cm_details c)
      | _ \<Rightarrow> [])"

definition payload_unknowns :: "entry_payload \<Rightarrow> js_value list" where
  "payload_unknowns p =
     (case p of
        MessageEntry m _ \<Rightarrow> message_unknowns m
      | CompactionEntry c \<Rightarrow> concat (map message_unknowns (cp_retainedTail c)) @ opt_list (cp_details c)
      | BranchSummaryEntry b \<Rightarrow> opt_list (bp_details b)
      | CustomEntry _ d \<Rightarrow> opt_list d
      | _ \<Rightarrow> [])"

definition provisioned_unknowns :: "provisioned_entry \<Rightarrow> js_value list" where
  "provisioned_unknowns p = payload_unknowns (prov_payload p)"

definition record_unknowns :: "record_payload \<Rightarrow> js_value list" where
  "record_unknowns p =
     (case p of
        OperationStarted _ (RunIntent r) \<Rightarrow>
          concat (map message_unknowns (originalPrompt r)) @ concat (map provisioned_unknowns (initialMessages r))
          @ map snd (case resumeData r of None \<Rightarrow> [] | Some es \<Rightarrow> es)
      | ToolStarted t \<Rightarrow> [ts_effectiveArgs t]
      | QueueEnqueued _ _ e \<Rightarrow> provisioned_unknowns e
      | WriteDeferred _ e \<Rightarrow> provisioned_unknowns e
      | UsageRecord u \<Rightarrow> opt_list (ui_details u)
      | _ \<Rightarrow> [])"

section \<open>The storage interface\<close>

record ('s, 'm) storage_ops =
  so_getMetadata :: "'s \<Rightarrow> 'm"
  so_getLanes :: "'s \<Rightarrow> lane_pointer list"
  so_createLane :: "'s \<Rightarrow> ident \<Rightarrow> ident option \<Rightarrow> session_error + 's"
  so_moveLane :: "'s \<Rightarrow> ident \<Rightarrow> ident option \<Rightarrow> session_error + 's"
  so_appendEntry :: "nat \<Rightarrow> 's \<Rightarrow> provisioned_entry \<Rightarrow> ident \<Rightarrow> session_error + ('s \<times> entry)"
  so_appendRecord :: "nat \<Rightarrow> 's \<Rightarrow> new_record \<Rightarrow> session_error + ('s \<times> lane_record)"
  so_getEntry :: "'s \<Rightarrow> ident \<Rightarrow> entry option"
  so_findEntries :: "'s \<Rightarrow> entry_query \<Rightarrow> session_error + entry list"
  so_findEntriesOnBranch :: "'s \<Rightarrow> entry_query \<Rightarrow> branch_bounds \<Rightarrow> ident \<Rightarrow> session_error + entry list"
  so_findRecords :: "'s \<Rightarrow> record_query \<Rightarrow> session_error + lane_record list"
  so_findOpenOperations :: "'s \<Rightarrow> ident \<Rightarrow> int option \<Rightarrow> session_error + lane_record list"
  so_getLog :: "'s \<Rightarrow> int option \<Rightarrow> int option \<Rightarrow> session_error + log_item list"
  so_getName :: "'s \<Rightarrow> string option"
  so_setName :: "'s \<Rightarrow> string option \<Rightarrow> session_error + 's"
  so_getLabel :: "'s \<Rightarrow> ident \<Rightarrow> string option"
  so_setLabel :: "'s \<Rightarrow> ident \<Rightarrow> string option \<Rightarrow> session_error + 's"
  so_getStats :: "'s \<Rightarrow> session_stats"

definition memory_ops :: "(memory_storage, session_metadata) storage_ops" where
  "memory_ops =
     \<lparr>so_getMetadata = metadata, so_getLanes = (\<lambda>st. getLanes (state st)),
      so_createLane = storage_createLane, so_moveLane = storage_moveLane,
      so_appendEntry = storage_appendEntry, so_appendRecord = storage_appendRecord,
      so_getEntry = storage_getEntry, so_findEntries = storage_findEntries,
      so_findEntriesOnBranch = storage_findEntriesOnBranch, so_findRecords = storage_findRecords,
      so_findOpenOperations = (\<lambda>st. findOpenOperations (state st)), so_getLog = storage_getLog,
      so_getName = (\<lambda>st. getName (state st)), so_setName = storage_setName,
      so_getLabel = (\<lambda>st. getLabel (state st)), so_setLabel = storage_setLabel,
      so_getStats = (\<lambda>st. getStats (state st))\<rparr>"

section \<open>Queries\<close>

text \<open>The checks of limits and cursors are the same code as in \<open>state.ts\<close>. A parameter that is left out takes
  its default: the query's own limit, or the leaf of the lane.\<close>

definition getLeafIdForLane :: "('s, 'm) storage_ops \<Rightarrow> 's \<Rightarrow> ident \<Rightarrow> session_error + ident option" where
  "getLeafIdForLane ops st lane =
     (case find (\<lambda>(l, _). l = lane) (so_getLanes ops st) of
        None \<Rightarrow> Inl (SessionError Invalid_lane (''Lane not found: '' @ lane))
      | Some (_, leafId) \<Rightarrow> Inr leafId)"

definition limited_query :: "entry_query \<Rightarrow> int option \<Rightarrow> entry_query" where
  "limited_query q resultLimit =
     (let lmt = (case resultLimit of None \<Rightarrow> eq_limit q | Some n \<Rightarrow> Some n)
      in if lmt = eq_limit q then q else q\<lparr>eq_limit := lmt\<rparr>)"

definition queryEntries ::
    "('s, 'm) storage_ops \<Rightarrow> 's \<Rightarrow> entry_query \<Rightarrow> int option \<Rightarrow> session_error + entry list" where
  "queryEntries ops st q resultLimit =
     bindR (assertValidLimit (eq_limit q)) (\<lambda>_.
     bindR (assertValidCursor (eq_afterSeq q)) (\<lambda>_.
     so_findEntries ops st (limited_query q resultLimit)))"

definition queryBranchEntries ::
    "('s, 'm) storage_ops \<Rightarrow> 's \<Rightarrow> ident \<Rightarrow> entry_query \<Rightarrow> branch_bounds \<Rightarrow> ident option \<Rightarrow> int option
      \<Rightarrow> session_error + entry list" where
  "queryBranchEntries ops st defaultLane q b start resultLimit =
     bindR (assertValidLimit (eq_limit q)) (\<lambda>_.
     bindR (assertValidCursor (eq_afterSeq q)) (\<lambda>_.
     bindR (case start of Some i \<Rightarrow> Inr (Some i) | None \<Rightarrow> getLeafIdForLane ops st defaultLane) (\<lambda>from.
     case from of
       None \<Rightarrow> Inr []
     | Some i \<Rightarrow> so_findEntriesOnBranch ops st (limited_query q resultLimit) b i)))"

definition queryRecords ::
    "('s, 'm) storage_ops \<Rightarrow> 's \<Rightarrow> record_query \<Rightarrow> session_error + lane_record list" where
  "queryRecords ops st q =
     bindR (assertValidLimit (rq_limit q)) (\<lambda>_.
     bindR (assertValidCursor (rq_afterSeq q)) (\<lambda>_.
     bindR (guardR (rq_operationKind q = None \<or> rq_type q = Some Rec_operation_started)
       (SessionError Invalid_query ''operationKind requires type \"operation_started\"'')) (\<lambda>_.
     so_findRecords ops st q)))"

definition queryLog ::
    "('s, 'm) storage_ops \<Rightarrow> 's \<Rightarrow> int option \<Rightarrow> int option \<Rightarrow> session_error + log_item list" where
  "queryLog ops st afterSeq lmt =
     bindR (assertValidLimit lmt) (\<lambda>_. bindR (assertValidCursor afterSeq) (\<lambda>_. so_getLog ops st afterSeq lmt))"

definition session_findOpenOperations ::
    "('s, 'm) storage_ops \<Rightarrow> 's \<Rightarrow> ident \<Rightarrow> int option \<Rightarrow> session_error + lane_record list" where
  "session_findOpenOperations ops st lane lmt =
     bindR (assertValidLimit lmt) (\<lambda>_. so_findOpenOperations ops st lane lmt)"

definition first_of :: "session_error + 'a list \<Rightarrow> session_error + 'a option" where
  "first_of r = bindR r (\<lambda>xs. Inr (case xs of [] \<Rightarrow> None | x # _ \<Rightarrow> Some x))"

section \<open>Writes\<close>

definition commitEntry ::
    "('s, 'm) storage_ops \<Rightarrow> nat \<Rightarrow> 's \<Rightarrow> provisioned_entry \<Rightarrow> ident \<Rightarrow> session_error + ('s \<times> entry)" where
  "commitEntry ops now st e lane =
     bindR (tree_loop (provisioned_unknowns e)) (\<lambda>_. so_appendEntry ops now st e lane)"

definition commitRecord ::
    "('s, 'm) storage_ops \<Rightarrow> nat \<Rightarrow> 's \<Rightarrow> new_record \<Rightarrow> session_error + ('s \<times> lane_record)" where
  "commitRecord ops now st r =
     bindR (tree_loop (record_unknowns (new_payload r))) (\<lambda>_. so_appendRecord ops now st r)"

definition appendMessageToLane ::
    "('s, 'm) storage_ops \<Rightarrow> nat \<Rightarrow> ident \<Rightarrow> 's \<Rightarrow> ident \<Rightarrow> agent_message \<Rightarrow> session_error + ('s \<times> ident)" where
  "appendMessageToLane ops now fresh st lane m =
     bindR (commitEntry ops now st \<lparr>prov_id = fresh, prov_payload = MessageEntry m False\<rparr> lane)
       (\<lambda>(st', e). Inr (st', entry_id e))"

definition appendCustomEntryToLane ::
    "('s, 'm) storage_ops \<Rightarrow> nat \<Rightarrow> ident \<Rightarrow> 's \<Rightarrow> ident \<Rightarrow> ident \<Rightarrow> js_value \<Rightarrow> session_error + ('s \<times> ident)" where
  "appendCustomEntryToLane ops now fresh st lane customType data =
     bindR (commitEntry ops now st
         \<lparr>prov_id = fresh, prov_payload = CustomEntry customType (if data = JUndefined then None else Some data)\<rparr> lane)
       (\<lambda>(st', e). Inr (st', entry_id e))"

section \<open>Views\<close>

text \<open>A view of the tree from one lane; the session itself is the view from \<open>main\<close>.\<close>

record 's session_tree =
  tree_getLeafId :: "'s \<Rightarrow> session_error + ident option"
  tree_getEntry :: "'s \<Rightarrow> ident \<Rightarrow> entry option"
  tree_getStats :: "'s \<Rightarrow> session_stats"
  tree_getName :: "'s \<Rightarrow> string option"
  tree_setName :: "'s \<Rightarrow> string option \<Rightarrow> session_error + 's"
  tree_getLabel :: "'s \<Rightarrow> ident \<Rightarrow> string option"
  tree_setLabel :: "'s \<Rightarrow> ident \<Rightarrow> string option \<Rightarrow> session_error + 's"
  tree_findEntries :: "'s \<Rightarrow> entry_query \<Rightarrow> session_error + entry list"
  tree_findEntry :: "'s \<Rightarrow> entry_query \<Rightarrow> session_error + entry option"
  tree_findEntriesOnBranch :: "'s \<Rightarrow> entry_query \<Rightarrow> branch_bounds \<Rightarrow> ident option \<Rightarrow> session_error + entry list"
  tree_findEntryOnBranch :: "'s \<Rightarrow> entry_query \<Rightarrow> branch_bounds \<Rightarrow> ident option \<Rightarrow> session_error + entry option"
  tree_appendMessage :: "nat \<Rightarrow> ident \<Rightarrow> 's \<Rightarrow> agent_message \<Rightarrow> session_error + ('s \<times> ident)"
  tree_appendCustomEntry :: "nat \<Rightarrow> ident \<Rightarrow> 's \<Rightarrow> ident \<Rightarrow> js_value \<Rightarrow> session_error + ('s \<times> ident)"

definition lane_tree :: "('s, 'm) storage_ops \<Rightarrow> ident \<Rightarrow> 's session_tree" where
  "lane_tree ops lane =
     \<lparr>tree_getLeafId = (\<lambda>st. getLeafIdForLane ops st lane), tree_getEntry = so_getEntry ops,
      tree_getStats = so_getStats ops, tree_getName = so_getName ops, tree_setName = so_setName ops,
      tree_getLabel = so_getLabel ops, tree_setLabel = so_setLabel ops,
      tree_findEntries = (\<lambda>st q. queryEntries ops st q None),
      tree_findEntry = (\<lambda>st q. first_of (queryEntries ops st q (Some 1))),
      tree_findEntriesOnBranch = (\<lambda>st q b start. queryBranchEntries ops st lane q b start None),
      tree_findEntryOnBranch = (\<lambda>st q b start. first_of (queryBranchEntries ops st lane q b start (Some 1))),
      tree_appendMessage = (\<lambda>now fresh st. appendMessageToLane ops now fresh st lane),
      tree_appendCustomEntry = (\<lambda>now fresh st. appendCustomEntryToLane ops now fresh st lane)\<rparr>"

definition session_tree_of :: "('s, 'm) storage_ops \<Rightarrow> 's session_tree" where
  "session_tree_of ops = lane_tree ops ''main''"

definition view :: "('s, 'm) storage_ops \<Rightarrow> ident \<Rightarrow> 's session_tree" where
  "view ops lane = (if lane = ''main'' then session_tree_of ops else lane_tree ops lane)"

section \<open>Appending through the session\<close>

definition branch_query :: entry_query where
  "branch_query = \<lparr>eq_type = None, eq_customType = None, eq_order = None, eq_limit = None, eq_afterSeq = None\<rparr>"

lemma branch_query_simps [simp]:
  "matchesEntryQuery e branch_query" "eq_limit branch_query = None" "eq_afterSeq branch_query = None"
  "eq_order branch_query = None" "limited_query branch_query None = branch_query"
  by (simp_all add: matchesEntryQuery_def branch_query_def limited_query_def)

text \<open>A query without options gives the branch of the lane, from its leaf.\<close>

lemma branch_path_unique: "branch_path s i es \<Longrightarrow> branch_path s i es' \<Longrightarrow> es = es'"
proof (induction es arbitrary: i es')
  case Nil
  then show ?case by simp
next
  case (Cons e es)
  then show ?case by (cases es') (auto split: option.splits)
qed

lemma query_lane_branch:
  assumes "wf_state (state st)"
  shows "queryBranchEntries memory_ops st lane branch_query no_bounds None None = Inr es
    \<longleftrightarrow> lane_branch (state st) lane es"
proof (cases "map_of (lanes (state st)) lane")
  case None
  then have "find (\<lambda>(l, _). l = lane) (lanes (state st)) = None"
    by (auto simp: find_None_iff map_of_eq_None_iff rev_image_eqI)
  then show ?thesis using None
    by (simp add: queryBranchEntries_def getLeafIdForLane_def memory_ops_def getLanes_def lane_branch_def assert_defs)
next
  case (Some leafId)
  have "find (\<lambda>(l, _). l = lane) ls = Some (lane, x)" if "map_of ls lane = Some x" for ls :: "lane_pointer list" and x
    using that by (induction ls) (auto split: if_splits)
  from this [OF Some] have leaf: "getLeafIdForLane memory_ops st lane = Inr leafId"
    by (simp add: getLeafIdForLane_def memory_ops_def getLanes_def)
  show ?thesis
  proof (cases leafId)
    case None
    then show ?thesis using leaf Some by (auto simp: queryBranchEntries_def assert_defs lane_branch_def)
  next
    case (Some i)
    then have "i \<in> entry_ids (state st)" using \<open>map_of (lanes (state st)) lane = Some leafId\<close> assms
      by (fastforce simp: wf_state_def tree_inv_def dest: map_of_SomeD)
    then obtain path where path: "walkToRoot (state st) (Some i) None = (path, None)" "branch_path (state st) i path"
      using walkToRoot_path [OF assms] by blast
    have "findEntriesOnBranch (state st) branch_query no_bounds i = Inr path"
      using findEntriesOnBranch_eq [OF _ path(1), of branch_query no_bounds] by (simp add: take_limit_def)
    moreover have "branch_path (state st) i es \<longleftrightarrow> path = es" using path(2) branch_path_unique by blast
    ultimately show ?thesis
      using leaf Some \<open>map_of (lanes (state st)) lane = Some leafId\<close>
      by (simp add: queryBranchEntries_def assert_defs lane_branch_def memory_ops_def storage_findEntriesOnBranch_def)
  qed
qed

lemma append_message_elim:
  assumes "appendMessageToLane memory_ops now fresh st lane m = Inr (st', i)"
  shows "\<exists>e. storage_appendEntry now st \<lparr>prov_id = fresh, prov_payload = MessageEntry m False\<rparr> lane = Inr (st', e)
    \<and> i = fresh \<and> entry_id e = fresh \<and> payload e = MessageEntry m False \<and> tree_loop (message_unknowns m) = Inr ()"
proof -
  obtain e where e: "storage_appendEntry now st \<lparr>prov_id = fresh, prov_payload = MessageEntry m False\<rparr> lane = Inr (st', e)"
      "i = entry_id e" "tree_loop (message_unknowns m) = Inr ()"
    using assms by (auto simp: appendMessageToLane_def commitEntry_def result_simps memory_ops_def
        provisioned_unknowns_def payload_unknowns_def)
  from e(1) have "entry_id e = fresh \<and> payload e = MessageEntry m False"
    by (elim storage_appendEntry_elim) simp
  with e show ?thesis by blast
qed

lemma append_message_branch:
  assumes wf: "wf_state (state st)"
    and ap: "appendMessageToLane memory_ops now fresh st lane m = Inr (st', i)"
    and es: "queryBranchEntries memory_ops st lane branch_query no_bounds None None = Inr es"
  shows "\<exists>e. queryBranchEntries memory_ops st' lane branch_query no_bounds None None = Inr (e # es)
    \<and> entry_id e = i \<and> payload e = MessageEntry m False \<and> wf_state (state st')"
proof -
  let ?p = "\<lparr>prov_id = fresh, prov_payload = MessageEntry m False\<rparr>"
  obtain e where e: "storage_appendEntry now st ?p lane = Inr (st', e)" "entry_id e = i" "payload e = MessageEntry m False"
    using append_message_elim [OF ap] by blast
  then have all: "mem.append_all now st [?p] lane = Inr st'" by simp
  have wf': "wf_state (state st')" by (rule mem.append_inv [OF wf e(1)])
  obtain j where j: "map_of (lanes (state st)) lane = Some j" "mem.path st j es"
    using es query_lane_branch [OF wf] lane_branch_path [OF wf] by blast
  have facts: "map_of (lanes (state st)) lane = Some (parentId e)" "storage_getEntry st' (prov_id ?p) = Some e"
      "map_of (lanes (state st')) lane = Some (Some (prov_id ?p))"
    using mem.append_entry [OF wf e(1)] mem.append_lookup [OF wf e(1)] mem.append_leaf [OF wf e(1)] by simp_all
  have "mem.path st' (Some (prov_id ?p)) (e # es)"
    using facts j mem.append_path [OF wf e(1) j(2)] by simp
  then have "lane_branch (state st') lane (e # es)" using facts(3) lane_branch_path [OF wf'] by blast
  then show ?thesis using query_lane_branch [OF wf'] e wf' by blast
qed

text \<open>C22: Appending a message to a lane through the session stores it at the leaf of that lane under the id
  that is returned: the next query of the branch gives the new entry and then what it gave before, and the
  context built from the branch is the old context followed by the message (a deferred response is not part
  of a context). What is stored has only JSON data in its untyped parts.\<close>

theorem append_message_context:
  assumes "wf_state (state st)" and "appendMessageToLane memory_ops now fresh st lane m = Inr (st', i)"
    and "queryBranchEntries memory_ops st lane branch_query no_bounds None None = Inr es"
  shows "\<exists>e. queryBranchEntries memory_ops st' lane branch_query no_bounds None None = Inr (e # es)
    \<and> entry_id e = i \<and> payload e = MessageEntry m False
    \<and> ctx_messages (buildSessionContext (rev (e # es)) plain_options)
        = ctx_messages (buildSessionContext (rev es) plain_options)
          @ (case m of AssistantMessage a \<Rightarrow> if am_stopReason a = Deferred then [] else [m] | _ \<Rightarrow> [m])
    \<and> list_all json_value (payload_unknowns (payload e))"
proof -
  obtain e where e: "queryBranchEntries memory_ops st' lane branch_query no_bounds None None = Inr (e # es)"
      "entry_id e = i" "payload e = MessageEntry m False"
    using append_message_branch [OF assms] by blast
  have "entry_messages e = (case m of AssistantMessage a \<Rightarrow> if am_stopReason a = Deferred then [] else [m] | _ \<Rightarrow> [m])"
    using e(3) by (cases m) (simp_all add: entry_messages_def sessionEntryToContextMessages_def)
  moreover have "list_all json_value (payload_unknowns (payload e))"
    using append_message_elim [OF assms(2)] e(3) by (auto simp: payload_unknowns_def tree_loop_iff)
  ultimately show ?thesis using e context_snoc [of e "rev es"] by (simp add: entry_type_of_def)
qed

lemma demo_append:
  "\<exists>st'. appendMessageToLane memory_ops 9 ''n'' demo_storage ''side'' (user_text (js ''hi'') 6) = Inr (st', ''n'')"
proof -
  have "entriesById demo_state = map (\<lambda>e. (entry_id e, e)) (entries demo_state)"
    using demo_wf by (simp add: wf_state_def index_inv_def)
  then show ?thesis
    by (simp add: appendMessageToLane_def commitEntry_def memory_ops_def provisioned_unknowns_def payload_unknowns_def
        message_unknowns_def user_text_def demo_storage_def storage_appendEntry_def requireLane_def demo_fields
        validateUnusedId_def demo_used commit_def applyMutation_def apply_entry_def nextSequence_def map_has_def
        demo_message_def Let_def)
qed

theorem append_message_context_witness:
  "\<exists>st' es e. appendMessageToLane memory_ops 9 ''n'' demo_storage ''side'' (user_text (js ''hi'') 6) = Inr (st', ''n'')
    \<and> queryBranchEntries memory_ops st' ''side'' branch_query no_bounds None None = Inr (e # es) \<and> entry_id e = ''n''
    \<and> last (ctx_messages (buildSessionContext (rev (e # es)) plain_options)) = user_text (js ''hi'') 6"
proof -
  obtain st' where st': "appendMessageToLane memory_ops 9 ''n'' demo_storage ''side'' (user_text (js ''hi'') 6) = Inr (st', ''n'')"
    using demo_append by blast
  have wf: "wf_state (state demo_storage)" using demo_wf by (simp add: demo_storage_def)
  have byId: "entriesById demo_state = map (\<lambda>e. (entry_id e, e)) (entries demo_state)"
    using demo_wf by (simp add: wf_state_def index_inv_def)
  have "lane_branch (state demo_storage) ''side'' [demo_message ''a'' None 1]"
    by (simp add: lane_branch_def demo_storage_def demo_fields getEntry_def byId demo_message_def)
  then have es: "queryBranchEntries memory_ops demo_storage ''side'' branch_query no_bounds None None = Inr [demo_message ''a'' None 1]"
    using query_lane_branch [OF wf] by blast
  from append_message_context [OF wf st' es] obtain e
    where "queryBranchEntries memory_ops st' ''side'' branch_query no_bounds None None = Inr (e # [demo_message ''a'' None 1])"
      and "entry_id e = ''n''"
      and "ctx_messages (buildSessionContext (rev (e # [demo_message ''a'' None 1])) plain_options)
        = ctx_messages (buildSessionContext (rev [demo_message ''a'' None 1]) plain_options) @ [user_text (js ''hi'') 6]"
    by (auto simp: user_text_def)
  with st' show ?thesis by (intro exI [of _ st'] exI [of _ "[demo_message ''a'' None 1]"] exI [of _ e]) simp
qed

end
