(* ===== verification/Compaction.thy ===== *)
theory Compaction
  imports Session_Context Js_Json "HOL-Library.List_Lexorder"
begin

text \<open>
  Compaction of a conversation, \<open>agent/src/harness/compaction/compaction.ts\<close> and its \<open>utils.ts\<close>: token
  estimates, the choice of the cut point, the preparation and the summary. The model call behind
  \<open>completeSimpleWithRetries\<close> is the argument \<open>llm\<close>. Token counts and settings are natural numbers.
\<close>

section \<open>File operations\<close>

type_synonym json_env = "(js_number \<Rightarrow> string) \<times> (string \<Rightarrow> js_string)"

definition safeJsonStringify :: "json_env \<Rightarrow> js_value \<Rightarrow> js_string" where
  "safeJsonStringify env v =
     (case stringify (fst env) (snd env) v of
        JsonText t \<Rightarrow> t | JsonUndefined \<Rightarrow> js ''undefined'' | JsonThrows \<Rightarrow> js ''[unserializable]'')"

text \<open>The sets of the source, in insertion order.\<close>

record file_operations =
  ops_read :: "js_string list"
  ops_written :: "js_string list"
  ops_edited :: "js_string list"

definition set_add :: "'a \<Rightarrow> 'a list \<Rightarrow> 'a list" where
  "set_add x xs = (if x \<in> set xs then xs else xs @ [x])"

definition createFileOps :: file_operations where
  "createFileOps = \<lparr>ops_read = [], ops_written = [], ops_edited = []\<rparr>"

definition path_argument :: "js_value \<Rightarrow> js_string option" where
  "path_argument args =
     (case args of
        JObject _ es \<Rightarrow> (case map_of es (js ''path'') of Some (JString p) \<Rightarrow> if p = [] then None else Some p | _ \<Rightarrow> None)
      | _ \<Rightarrow> None)"

definition extract_block :: "file_operations \<Rightarrow> assistant_block \<Rightarrow> file_operations" where
  "extract_block ops b =
     (case b of
        AToolCall c \<Rightarrow>
          (case path_argument (tc_arguments c) of
             None \<Rightarrow> ops
           | Some p \<Rightarrow>
               if tc_name c = ''read'' then ops\<lparr>ops_read := set_add p (ops_read ops)\<rparr>
               else if tc_name c = ''write'' then ops\<lparr>ops_written := set_add p (ops_written ops)\<rparr>
               else if tc_name c = ''edit'' then ops\<lparr>ops_edited := set_add p (ops_edited ops)\<rparr>
               else ops)
      | _ \<Rightarrow> ops)"

definition extractFileOpsFromMessage :: "file_operations \<Rightarrow> agent_message \<Rightarrow> file_operations" where
  "extractFileOpsFromMessage ops m =
     (case m of AssistantMessage a \<Rightarrow> foldl extract_block ops (am_content a) | _ \<Rightarrow> ops)"

text \<open>The path lists in the details of an earlier compaction; they hold strings.\<close>

definition string_items :: "js_string \<Rightarrow> js_value \<Rightarrow> js_string list" where
  "string_items key details =
     (case details of
        JObject _ es \<Rightarrow>
          (case map_of es key of
             Some (JArray vs) \<Rightarrow> List.map_filter (\<lambda>v. case v of JString s \<Rightarrow> Some s | _ \<Rightarrow> None) vs
           | _ \<Rightarrow> [])
      | _ \<Rightarrow> [])"

definition extractFileOperations :: "agent_message list \<Rightarrow> compaction_payload option \<Rightarrow> file_operations" where
  "extractFileOperations messages prevCompaction =
     (let ops = (case Option.bind prevCompaction cp_details of
                   None \<Rightarrow> createFileOps
                 | Some d \<Rightarrow>
                     createFileOps\<lparr>ops_read := foldl (\<lambda>s f. set_add f s) [] (string_items (js ''readFiles'') d),
                                   ops_edited := foldl (\<lambda>s f. set_add f s) [] (string_items (js ''modifiedFiles'') d)\<rparr>)
      in foldl extractFileOpsFromMessage ops messages)"

definition computeFileLists :: "file_operations \<Rightarrow> js_string list \<times> js_string list" where
  "computeFileLists ops =
     (let modified = remdups (ops_edited ops @ ops_written ops)
      in (sort (filter (\<lambda>f. f \<notin> set modified) (ops_read ops)), sort modified))"

definition formatFileOperations :: "js_string list \<Rightarrow> js_string list \<Rightarrow> js_string" where
  "formatFileOperations readFiles modifiedFiles =
     (let sections =
        (if readFiles \<noteq> [] then [js ''<read-files>'' @ [LF] @ join_on LF readFiles @ [LF] @ js ''</read-files>''] else [])
        @ (if modifiedFiles \<noteq> [] then [js ''<modified-files>'' @ [LF] @ join_on LF modifiedFiles @ [LF] @ js ''</modified-files>''] else [])
      in if sections = [] then []
         else [LF, LF] @ concat (map (\<lambda>(i, s). if i = 0 then s else [LF, LF] @ s) (enumerate 0 sections)))"

section \<open>Serialising a conversation\<close>

definition TOOL_RESULT_MAX_CHARS :: nat where "TOOL_RESULT_MAX_CHARS = 2000"

definition truncateForSummary :: "js_string \<Rightarrow> nat \<Rightarrow> js_string" where
  "truncateForSummary t maxChars =
     (if length t \<le> maxChars then t
      else take maxChars t @ [LF, LF] @ js ''[... '' @ js (decimal (length t - maxChars)) @ js '' more characters truncated]'')"

text \<open>\<open>parts.join(separator)\<close> for a separator of any length.\<close>

fun join_text :: "js_string \<Rightarrow> js_string list \<Rightarrow> js_string" where
  "join_text sep [] = []"
| "join_text sep [t] = t"
| "join_text sep (t # u # ts) = t @ sep @ join_text sep (u # ts)"

definition user_texts :: "user_block list \<Rightarrow> js_string list" where
  "user_texts bs = List.map_filter (\<lambda>b. case b of UText t \<Rightarrow> Some (txt_text t) | UImage _ \<Rightarrow> None) bs"

definition user_contentText :: "user_content \<Rightarrow> js_string \<Rightarrow> js_string" where
  "user_contentText c separator = (case c of ContentString s \<Rightarrow> s | ContentBlocks bs \<Rightarrow> join_text separator (user_texts bs))"

definition assistant_contentText :: "assistant_block list \<Rightarrow> js_string \<Rightarrow> js_string" where
  "assistant_contentText bs separator =
     join_text separator (List.map_filter (\<lambda>b. case b of AText t \<Rightarrow> Some (txt_text t) | _ \<Rightarrow> None) bs)"

definition call_text :: "json_env \<Rightarrow> tool_call \<Rightarrow> js_string" where
  "call_text env c =
     js (tc_name c) @ js ''('' @
     join_text (js '', '') (case tc_arguments c of
         JObject _ es \<Rightarrow> map (\<lambda>(k, v). k @ js ''='' @ safeJsonStringify env v) es
       | JArray vs \<Rightarrow> map (\<lambda>(i, v). js (decimal i) @ js ''='' @ safeJsonStringify env v)
           (filter (\<lambda>(i, v). v \<noteq> JHole) (enumerate 0 vs))
       | _ \<Rightarrow> []) @ js '')''"

definition serialize_assistant :: "json_env \<Rightarrow> assistant_message \<Rightarrow> js_string list" where
  "serialize_assistant env a =
     (let thinkingParts = List.map_filter (\<lambda>b. case b of AThinking t \<Rightarrow> Some (thk_thinking t) | _ \<Rightarrow> None) (am_content a);
          toolCalls = List.map_filter (\<lambda>b. case b of AToolCall c \<Rightarrow> Some (call_text env c) | _ \<Rightarrow> None) (am_content a)
      in (if thinkingParts \<noteq> [] then [js ''[Assistant thinking]: '' @ join_text [LF] thinkingParts] else [])
         @ (if list_ex (\<lambda>b. case b of AText _ \<Rightarrow> True | _ \<Rightarrow> False) (am_content a)
            then [js ''[Assistant]: '' @ assistant_contentText (am_content a) [LF]] else [])
         @ (if toolCalls \<noteq> [] then [js ''[Assistant tool calls]: '' @ join_text (js ''; '') toolCalls] else []))"

definition serialize_message :: "json_env \<Rightarrow> agent_message \<Rightarrow> js_string list" where
  "serialize_message env m =
     (case m of
        UserMessage u \<Rightarrow> (let c = user_contentText (um_content u) [] in if c \<noteq> [] then [js ''[User]: '' @ c] else [])
      | AssistantMessage a \<Rightarrow> serialize_assistant env a
      | ToolResultMessage r \<Rightarrow>
          (let c = join_text [] (user_texts (tr_content r))
           in if c \<noteq> [] then [js ''[Tool result]: '' @ truncateForSummary c TOOL_RESULT_MAX_CHARS] else [])
      | _ \<Rightarrow> [])"

definition serializeConversation :: "json_env \<Rightarrow> agent_message list \<Rightarrow> js_string" where
  "serializeConversation env messages = join_text [LF, LF] (concat (map (serialize_message env) messages))"

section \<open>Token estimates\<close>

definition combineUsage :: "usage \<Rightarrow> usage \<Rightarrow> usage" where
  "combineUsage a b =
     \<lparr>u_input = u_input a + u_input b, u_output = u_output a + u_output b, u_cacheRead = u_cacheRead a + u_cacheRead b,
      u_cacheWrite = u_cacheWrite a + u_cacheWrite b,
      u_cacheWrite1h = (if u_cacheWrite1h a \<noteq> None \<or> u_cacheWrite1h b \<noteq> None
        then Some (case_option 0 id (u_cacheWrite1h a) + case_option 0 id (u_cacheWrite1h b)) else None),
      u_reasoning = (if u_reasoning a \<noteq> None \<or> u_reasoning b \<noteq> None
        then Some (case_option 0 id (u_reasoning a) + case_option 0 id (u_reasoning b)) else None),
      u_totalTokens = u_totalTokens a + u_totalTokens b,
      u_cost = \<lparr>cost_input = double_add (cost_input (u_cost a)) (cost_input (u_cost b)),
                cost_output = double_add (cost_output (u_cost a)) (cost_output (u_cost b)),
                cost_cacheRead = double_add (cost_cacheRead (u_cost a)) (cost_cacheRead (u_cost b)),
                cost_cacheWrite = double_add (cost_cacheWrite (u_cost a)) (cost_cacheWrite (u_cost b)),
                cost_total = double_add (cost_total (u_cost a)) (cost_total (u_cost b))\<rparr>\<rparr>"

record compaction_settings =
  enabled :: bool
  reserveTokens :: nat
  keepRecentTokens :: nat

definition DEFAULT_COMPACTION_SETTINGS :: compaction_settings where
  "DEFAULT_COMPACTION_SETTINGS = \<lparr>enabled = True, reserveTokens = 16384, keepRecentTokens = 20000\<rparr>"

definition calculateContextTokens :: "usage \<Rightarrow> nat" where
  "calculateContextTokens u =
     (if u_totalTokens u \<noteq> 0 then u_totalTokens u else u_input u + u_output u + u_cacheRead u + u_cacheWrite u)"

definition getAssistantUsage :: "agent_message \<Rightarrow> usage option" where
  "getAssistantUsage m =
     (case m of
        AssistantMessage a \<Rightarrow>
          if am_stopReason a \<noteq> Aborted \<and> am_stopReason a \<noteq> Error_stop \<and> calculateContextTokens (am_usage a) > 0
          then Some (am_usage a) else None
      | _ \<Rightarrow> None)"

fun last_usage :: "entry list \<Rightarrow> usage option" where
  "last_usage [] = None"
| "last_usage (e # es) =
     (case payload e of
        MessageEntry m _ \<Rightarrow> (case getAssistantUsage m of Some u \<Rightarrow> Some u | None \<Rightarrow> last_usage es)
      | _ \<Rightarrow> last_usage es)"

definition getLastAssistantUsage :: "entry list \<Rightarrow> usage option" where
  "getLastAssistantUsage entries = last_usage (rev entries)"

record context_usage_estimate =
  est_tokens :: nat
  est_usageTokens :: nat
  est_trailingTokens :: nat
  est_lastUsageIndex :: "nat option"

text \<open>The loop from the last message back; its argument is the reversed list.\<close>

fun last_usage_info :: "agent_message list \<Rightarrow> (usage \<times> nat) option" where
  "last_usage_info [] = None"
| "last_usage_info (m # ms) = (case getAssistantUsage m of Some u \<Rightarrow> Some (u, length ms) | None \<Rightarrow> last_usage_info ms)"

definition getLastAssistantUsageInfo :: "agent_message list \<Rightarrow> (usage \<times> nat) option" where
  "getLastAssistantUsageInfo messages = last_usage_info (rev messages)"

definition ESTIMATED_IMAGE_CHARS :: nat where "ESTIMATED_IMAGE_CHARS = 4800"

definition block_chars :: "user_block \<Rightarrow> nat" where
  "block_chars b = (case b of UText t \<Rightarrow> length (txt_text t) | UImage _ \<Rightarrow> ESTIMATED_IMAGE_CHARS)"

definition estimateTextAndImageContentChars :: "user_content \<Rightarrow> nat" where
  "estimateTextAndImageContentChars c =
     (case c of ContentString s \<Rightarrow> length s | ContentBlocks bs \<Rightarrow> sum_list (map block_chars bs))"

definition assistant_chars :: "json_env \<Rightarrow> assistant_block \<Rightarrow> nat" where
  "assistant_chars env b =
     (case b of
        AText t \<Rightarrow> length (txt_text t)
      | AThinking t \<Rightarrow> length (thk_thinking t)
      | AToolCall c \<Rightarrow> length (tc_name c) + length (safeJsonStringify env (tc_arguments c)))"

text \<open>\<open>Math.ceil(chars / 4)\<close>; the quotient of a safe integer by four is exact.\<close>

definition ceil_quarter :: "nat \<Rightarrow> nat" where
  "ceil_quarter chars = (chars + 3) div 4"

definition estimateTokens :: "json_env \<Rightarrow> agent_message \<Rightarrow> nat" where
  "estimateTokens env m =
     ceil_quarter (case m of
        UserMessage u \<Rightarrow> estimateTextAndImageContentChars (um_content u)
      | AssistantMessage a \<Rightarrow> sum_list (map (assistant_chars env) (am_content a))
      | CustomMessage c \<Rightarrow> estimateTextAndImageContentChars (cm_content c)
      | ToolResultMessage r \<Rightarrow> estimateTextAndImageContentChars (ContentBlocks (tr_content r))
      | BashExecutionMessage b \<Rightarrow> length (be_command b) + length (be_output b)
      | BranchSummaryMessage b \<Rightarrow> length (bs_summary b)
      | CompactionSummaryMessage c \<Rightarrow> length (cs_summary c))"

definition estimateContextTokens :: "json_env \<Rightarrow> agent_message list \<Rightarrow> context_usage_estimate" where
  "estimateContextTokens env messages =
     (case getLastAssistantUsageInfo messages of
        None \<Rightarrow>
          (let estimated = sum_list (map (estimateTokens env) messages)
           in \<lparr>est_tokens = estimated, est_usageTokens = 0, est_trailingTokens = estimated, est_lastUsageIndex = None\<rparr>)
      | Some (u, i) \<Rightarrow>
          (let usageTokens = calculateContextTokens u; trailing = sum_list (map (estimateTokens env) (drop (Suc i) messages))
           in \<lparr>est_tokens = usageTokens + trailing, est_usageTokens = usageTokens, est_trailingTokens = trailing,
               est_lastUsageIndex = Some i\<rparr>))"

definition shouldCompact :: "nat \<Rightarrow> nat \<Rightarrow> compaction_settings \<Rightarrow> bool" where
  "shouldCompact contextTokens contextWindow settings =
     (enabled settings \<and> int contextTokens > int contextWindow - int (reserveTokens settings))"

section \<open>The cut point\<close>

definition is_cut_entry :: "entry \<Rightarrow> bool" where
  "is_cut_entry e =
     (case payload e of
        MessageEntry m _ \<Rightarrow> (case m of ToolResultMessage _ \<Rightarrow> False | _ \<Rightarrow> True)
      | BranchSummaryEntry _ \<Rightarrow> True
      | _ \<Rightarrow> False)"

definition findValidCutPoints :: "entry list \<Rightarrow> nat \<Rightarrow> nat \<Rightarrow> nat list" where
  "findValidCutPoints entries startIndex endIndex = filter (\<lambda>i. is_cut_entry (entries ! i)) [startIndex..<endIndex]"

definition starts_turn :: "entry \<Rightarrow> bool" where
  "starts_turn e =
     (case payload e of
        BranchSummaryEntry _ \<Rightarrow> True
      | MessageEntry (UserMessage _) _ \<Rightarrow> True
      | MessageEntry (BashExecutionMessage _) _ \<Rightarrow> True
      | _ \<Rightarrow> False)"

text \<open>The loop from \<open>entryIndex\<close> down to \<open>startIndex\<close>; \<open>None\<close> is \<open>-1\<close>.\<close>

definition findTurnStartIndex :: "entry list \<Rightarrow> nat \<Rightarrow> nat \<Rightarrow> nat option" where
  "findTurnStartIndex entries entryIndex startIndex =
     find (\<lambda>i. starts_turn (entries ! i)) (rev [startIndex..<Suc entryIndex])"

record cut_point_result =
  firstKeptEntryIndex :: nat
  turnStartIndex :: "nat option"
  isSplitTurn :: bool

text \<open>The loop that adds up the tokens from the end; its result is the index where the budget is reached.\<close>

fun budget_index :: "json_env \<Rightarrow> entry list \<Rightarrow> nat \<Rightarrow> nat \<Rightarrow> nat list \<Rightarrow> nat option" where
  "budget_index env entries keep acc [] = None"
| "budget_index env entries keep acc (i # is) =
     (case payload (entries ! i) of
        MessageEntry m _ \<Rightarrow>
          (let acc' = acc + estimateTokens env m
           in if acc' \<ge> keep then Some i else budget_index env entries keep acc' is)
      | _ \<Rightarrow> budget_index env entries keep acc is)"

fun step_back :: "entry list \<Rightarrow> nat \<Rightarrow> nat \<Rightarrow> nat" where
  "step_back entries startIndex 0 = 0"
| "step_back entries startIndex (Suc c) =
     (if \<not> startIndex < Suc c then Suc c
      else if entry_type_of (entries ! c) = Type_compaction \<or> entry_type_of (entries ! c) = Type_message then Suc c
      else step_back entries startIndex c)"

definition findCutPoint :: "json_env \<Rightarrow> entry list \<Rightarrow> nat \<Rightarrow> nat \<Rightarrow> nat \<Rightarrow> cut_point_result" where
  "findCutPoint env entries startIndex endIndex keep =
     (case findValidCutPoints entries startIndex endIndex of
        [] \<Rightarrow> \<lparr>firstKeptEntryIndex = startIndex, turnStartIndex = None, isSplitTurn = False\<rparr>
      | c0 # cs \<Rightarrow>
          (let cutIndex = (case budget_index env entries keep 0 (rev [startIndex..<endIndex]) of
                 None \<Rightarrow> c0
               | Some i \<Rightarrow> (case find (\<lambda>c. i \<le> c) (c0 # cs) of None \<Rightarrow> c0 | Some c \<Rightarrow> c));
               cut = step_back entries startIndex cutIndex;
               isUserMessage = (case payload (entries ! cut) of MessageEntry (UserMessage _) _ \<Rightarrow> True | _ \<Rightarrow> False);
               turnStart = (if isUserMessage then None else findTurnStartIndex entries cut startIndex)
           in \<lparr>firstKeptEntryIndex = cut, turnStartIndex = turnStart, isSplitTurn = (\<not> isUserMessage \<and> turnStart \<noteq> None)\<rparr>))"

section \<open>Preparation\<close>

definition getMessageFromEntry :: "entry \<Rightarrow> agent_message option" where
  "getMessageFromEntry e =
     (case payload e of
        MessageEntry m _ \<Rightarrow> Some m
      | BranchSummaryEntry b \<Rightarrow> Some (createBranchSummaryMessage (bp_summary b) (bp_fromId b) (entry_timestamp e))
      | CompactionEntry c \<Rightarrow> Some (createCompactionSummaryMessage (cp_summary c) (cp_tokensBefore c) (entry_timestamp e))
      | _ \<Rightarrow> None)"

definition getMessageFromEntryForCompaction :: "entry \<Rightarrow> agent_message option" where
  "getMessageFromEntryForCompaction e = (if entry_type_of e = Type_compaction then None else getMessageFromEntry e)"

fun message_timestamp :: "agent_message \<Rightarrow> nat" where
  "message_timestamp (UserMessage m) = um_timestamp m"
| "message_timestamp (AssistantMessage m) = am_timestamp m"
| "message_timestamp (ToolResultMessage m) = tr_timestamp m"
| "message_timestamp (BashExecutionMessage m) = be_timestamp m"
| "message_timestamp (CustomMessage m) = cm_timestamp m"
| "message_timestamp (BranchSummaryMessage m) = bs_timestamp m"
| "message_timestamp (CompactionSummaryMessage m) = cs_timestamp m"

definition virtual_entry :: "entry \<Rightarrow> nat \<times> agent_message \<Rightarrow> entry" where
  "virtual_entry prev im =
     (case im of (index, message) \<Rightarrow>
      \<lparr>entry_id = entry_id prev @ '':retained:'' @ decimal index, entry_seq = entry_seq prev,
       parentId = Some (if index = 0 then entry_id prev else entry_id prev @ '':retained:'' @ decimal (index - 1)),
       entry_timestamp = message_timestamp message, payload = MessageEntry message False\<rparr>)"

record compaction_preparation =
  messagesToSummarize :: "agent_message list"
  turnPrefixMessages :: "agent_message list"
  prep_retainedTail :: "agent_message list"
  prep_isSplitTurn :: bool
  prep_tokensBefore :: nat
  previousSummary :: "js_string option"
  fileOps :: file_operations
  settings :: compaction_settings

text \<open>What a compaction works on: after an earlier compaction, its retained messages as entries and the
  entries after it.\<close>

definition compactable_entries :: "entry list \<Rightarrow> (compaction_payload option \<times> entry list)" where
  "compactable_entries pathEntries =
     (case last_compaction (rev pathEntries) [] of
        None \<Rightarrow> (None, pathEntries)
      | Some (prev, later) \<Rightarrow>
          (case payload prev of
             CompactionEntry c \<Rightarrow> (Some c, map (virtual_entry prev) (enumerate 0 (cp_retainedTail c)) @ later)
           | _ \<Rightarrow> (None, pathEntries)))"

definition entry_range :: "entry list \<Rightarrow> nat \<Rightarrow> nat \<Rightarrow> agent_message list" where
  "entry_range entries i j = List.map_filter getMessageFromEntryForCompaction (take (j - i) (drop i entries))"

definition prepareCompaction :: "json_env \<Rightarrow> entry list \<Rightarrow> compaction_settings \<Rightarrow> compaction_preparation option" where
  "prepareCompaction env pathEntries st =
     (if pathEntries = [] \<or> entry_type_of (last pathEntries) = Type_compaction then None
      else case compactable_entries pathEntries of (prev, entries) \<Rightarrow>
        let boundaryEnd = length entries;
            tokensBefore = est_tokens (estimateContextTokens env (ctx_messages (buildSessionContext pathEntries plain_options)));
            cut = findCutPoint env entries 0 boundaryEnd (keepRecentTokens st);
            historyEnd = (if isSplitTurn cut then the (turnStartIndex cut) else firstKeptEntryIndex cut);
            toSummarize = entry_range entries 0 historyEnd;
            turnPrefix = (if isSplitTurn cut then entry_range entries (the (turnStartIndex cut)) (firstKeptEntryIndex cut) else []);
            retained = entry_range entries (firstKeptEntryIndex cut) boundaryEnd;
            ops = extractFileOperations toSummarize prev
        in Some \<lparr>messagesToSummarize = toSummarize, turnPrefixMessages = turnPrefix, prep_retainedTail = retained,
                 prep_isSplitTurn = isSplitTurn cut, prep_tokensBefore = tokensBefore,
                 previousSummary = map_option cp_summary prev,
                 fileOps = (if isSplitTurn cut then foldl extractFileOpsFromMessage ops turnPrefix else ops), settings = st\<rparr>)"

section \<open>Summaries\<close>

definition SUMMARIZATION_SYSTEM_PROMPT :: js_string where
  "SUMMARIZATION_SYSTEM_PROMPT = join_on LF [
     js ''You are a context summarization assistant. Your task is to read a conversation between a user and an AI assistant, then produce a structured summary following the exact format specified.'',
     [],
     js ''Do NOT continue the conversation. Do NOT respond to any questions in the conversation. ONLY output the structured summary.'']"

definition SUMMARIZATION_PROMPT :: js_string where
  "SUMMARIZATION_PROMPT = join_on LF [
     js ''The messages above are a conversation to summarize. Create a structured context checkpoint summary that another LLM will use to continue the work.'',
     [],
     js ''Use this EXACT format:'',
     [],
     js ''## Goal'',
     js ''[What is the user trying to accomplish? Can be multiple items if the session covers different tasks.]'',
     [],
     js ''## Constraints & Preferences'',
     js ''- [Any constraints, preferences, or requirements mentioned by user]'',
     js ''- [Or \"(none)\" if none were mentioned]'',
     [],
     js ''## Progress'',
     js ''### Done'',
     js ''- [x] [Completed tasks/changes]'',
     [],
     js ''### In Progress'',
     js ''- [ ] [Current work]'',
     [],
     js ''### Blocked'',
     js ''- [Issues preventing progress, if any]'',
     [],
     js ''## Key Decisions'',
     js ''- **[Decision]**: [Brief rationale]'',
     [],
     js ''## Next Steps'',
     js ''1. [Ordered list of what should happen next]'',
     [],
     js ''## Critical Context'',
     js ''- [Any data, examples, or references needed to continue]'',
     js ''- [Or \"(none)\" if not applicable]'',
     [],
     js ''Keep each section concise. Preserve exact file paths, function names, and error messages.'']"

definition UPDATE_SUMMARIZATION_PROMPT :: js_string where
  "UPDATE_SUMMARIZATION_PROMPT = join_on LF [
     js ''The messages above are NEW conversation messages to incorporate into the existing summary provided in <previous-summary> tags.'',
     [],
     js ''Update the existing structured summary with new information. RULES:'',
     js ''- PRESERVE all existing information from the previous summary'',
     js ''- ADD new progress, decisions, and context from the new messages'',
     js ''- UPDATE the Progress section: move items from \"In Progress\" to \"Done\" when completed'',
     js ''- UPDATE \"Next Steps\" based on what was accomplished'',
     js ''- PRESERVE exact file paths, function names, and error messages'',
     js ''- If something is no longer relevant, you may remove it'',
     [],
     js ''Use this EXACT format:'',
     [],
     js ''## Goal'',
     js ''[Preserve existing goals, add new ones if the task expanded]'',
     [],
     js ''## Constraints & Preferences'',
     js ''- [Preserve existing, add new ones discovered]'',
     [],
     js ''## Progress'',
     js ''### Done'',
     js ''- [x] [Include previously done items AND newly completed items]'',
     [],
     js ''### In Progress'',
     js ''- [ ] [Current work - update based on progress]'',
     [],
     js ''### Blocked'',
     js ''- [Current blockers - remove if resolved]'',
     [],
     js ''## Key Decisions'',
     js ''- **[Decision]**: [Brief rationale] (preserve all previous, add new)'',
     [],
     js ''## Next Steps'',
     js ''1. [Update based on current state]'',
     [],
     js ''## Critical Context'',
     js ''- [Preserve important context, add new if needed]'',
     [],
     js ''Keep each section concise. Preserve exact file paths, function names, and error messages.'']"

definition TURN_PREFIX_SUMMARIZATION_PROMPT :: js_string where
  "TURN_PREFIX_SUMMARIZATION_PROMPT = join_on LF [
     js ''This is the PREFIX of a turn that was too large to keep. The SUFFIX (recent work) is retained.'',
     [],
     js ''Summarize the prefix to provide context for the retained suffix:'',
     [],
     js ''## Original Request'',
     js ''[What did the user ask for in this turn?]'',
     [],
     js ''## Early Progress'',
     js ''- [Key decisions and work done in the prefix]'',
     [],
     js ''## Context for Suffix'',
     js ''- [Information needed to understand the retained recent work]'',
     [],
     js ''Be concise. Focus on what's needed to understand the kept suffix.'']"

record summary_model =
  model_maxTokens :: nat
  model_reasoning :: bool

text \<open>The request of a summary; \<open>maxTokens\<close> is absent when it is infinite.\<close>

record summary_request =
  req_systemPrompt :: js_string
  req_messages :: "agent_message list"
  req_maxTokens :: "nat option"
  req_reasoning :: "ident option"

datatype compaction_error_code = Compaction_aborted | Summarization_failed

datatype compaction_error = CompactionError compaction_error_code string

definition or_text :: "string option \<Rightarrow> string \<Rightarrow> string" where
  "or_text t d = (case t of None \<Rightarrow> d | Some s \<Rightarrow> if s = [] then d else s)"

text \<open>\<open>Math.floor(0.8 * n)\<close> and \<open>Math.floor(0.5 * n)\<close>: for the sizes of token budgets the rounding of the
  product does not reach the next integer.\<close>

definition max_tokens :: "nat \<Rightarrow> summary_model \<Rightarrow> nat" where
  "max_tokens budget model = (if model_maxTokens model > 0 then min budget (model_maxTokens model) else budget)"

definition summary_request_of :: "js_string \<Rightarrow> nat \<Rightarrow> nat \<Rightarrow> summary_model \<Rightarrow> ident option \<Rightarrow> summary_request" where
  "summary_request_of promptText now maxTokens model thinkingLevel =
     \<lparr>req_systemPrompt = SUMMARIZATION_SYSTEM_PROMPT, req_messages = [user_text promptText now], req_maxTokens = Some maxTokens,
      req_reasoning = (if model_reasoning model
         then (case thinkingLevel of None \<Rightarrow> None | Some l \<Rightarrow> if l \<noteq> [] \<and> l \<noteq> ''off'' then Some l else None) else None)\<rparr>"

definition summary_response :: "string \<Rightarrow> string \<Rightarrow> assistant_message \<Rightarrow> compaction_error + (js_string \<times> usage)" where
  "summary_response abortText failText response =
     (if am_stopReason response = Aborted
      then Inl (CompactionError Compaction_aborted (or_text (am_errorMessage response) abortText))
      else if am_stopReason response = Error_stop
      then Inl (CompactionError Summarization_failed (failText @ or_text (am_errorMessage response) ''Unknown error''))
      else Inr (assistant_contentText (am_content response) [LF], am_usage response))"

definition truthy :: "js_string option \<Rightarrow> js_string option" where
  "truthy s = (case s of None \<Rightarrow> None | Some t \<Rightarrow> if t = [] then None else Some t)"

definition conversation_block :: "json_env \<Rightarrow> agent_message list \<Rightarrow> js_string" where
  "conversation_block env messages =
     js ''<conversation>'' @ [LF] @ serializeConversation env (convertToLlm messages) @ [LF] @ js ''</conversation>'' @ [LF, LF]"

definition generateSummaryWithUsage ::
    "json_env \<Rightarrow> (summary_request \<Rightarrow> assistant_message) \<Rightarrow> nat \<Rightarrow> agent_message list \<Rightarrow> summary_model \<Rightarrow> nat
      \<Rightarrow> js_string option \<Rightarrow> js_string option \<Rightarrow> ident option \<Rightarrow> compaction_error + (js_string \<times> usage)" where
  "generateSummaryWithUsage env llm now currentMessages model reserve customInstructions prevSummary thinkingLevel =
     (let base = (if truthy prevSummary \<noteq> None then UPDATE_SUMMARIZATION_PROMPT else SUMMARIZATION_PROMPT);
          basePrompt = (case truthy customInstructions of
             None \<Rightarrow> base | Some c \<Rightarrow> base @ [LF, LF] @ js ''Additional focus: '' @ c);
          promptText = conversation_block env currentMessages
            @ (case truthy prevSummary of
                 None \<Rightarrow> []
               | Some s \<Rightarrow> js ''<previous-summary>'' @ [LF] @ s @ [LF] @ js ''</previous-summary>'' @ [LF, LF])
            @ basePrompt
      in summary_response ''Summarization aborted'' ''Summarization failed: ''
           (llm (summary_request_of promptText now (max_tokens (4 * reserve div 5) model) model thinkingLevel)))"

definition generateSummary ::
    "json_env \<Rightarrow> (summary_request \<Rightarrow> assistant_message) \<Rightarrow> nat \<Rightarrow> agent_message list \<Rightarrow> summary_model \<Rightarrow> nat
      \<Rightarrow> js_string option \<Rightarrow> js_string option \<Rightarrow> ident option \<Rightarrow> compaction_error + js_string" where
  "generateSummary env llm now currentMessages model reserve customInstructions prevSummary thinkingLevel =
     bindR (generateSummaryWithUsage env llm now currentMessages model reserve customInstructions prevSummary thinkingLevel)
       (\<lambda>(t, u). Inr t)"

definition generateTurnPrefixSummary ::
    "json_env \<Rightarrow> (summary_request \<Rightarrow> assistant_message) \<Rightarrow> nat \<Rightarrow> agent_message list \<Rightarrow> summary_model \<Rightarrow> nat
      \<Rightarrow> ident option \<Rightarrow> compaction_error + (js_string \<times> usage)" where
  "generateTurnPrefixSummary env llm now messages model reserve thinkingLevel =
     summary_response ''Turn prefix summarization aborted'' ''Turn prefix summarization failed: ''
       (llm (summary_request_of (conversation_block env messages @ TURN_PREFIX_SUMMARIZATION_PROMPT) now
         (max_tokens (reserve div 2) model) model thinkingLevel))"

record compact_result =
  res_summary :: js_string
  res_tokensBefore :: nat
  res_usage :: usage
  res_retainedTail :: "agent_message list"
  res_readFiles :: "js_string list"
  res_modifiedFiles :: "js_string list"

definition compact_summary ::
    "json_env \<Rightarrow> (summary_request \<Rightarrow> assistant_message) \<Rightarrow> nat \<Rightarrow> compaction_preparation \<Rightarrow> summary_model
      \<Rightarrow> js_string option \<Rightarrow> ident option \<Rightarrow> compaction_error + (js_string \<times> usage)" where
  "compact_summary env llm now p model customInstructions thinkingLevel =
     (if prep_isSplitTurn p \<and> turnPrefixMessages p \<noteq> [] then
        bindR (if messagesToSummarize p \<noteq> []
               then bindR (generateSummaryWithUsage env llm now (messagesToSummarize p) model (reserveTokens (settings p))
                       customInstructions (previousSummary p) thinkingLevel) (\<lambda>(t, u). Inr (t, Some u))
               else Inr (js ''No prior history.'', None)) (\<lambda>(historyText, historyUsage).
        bindR (generateTurnPrefixSummary env llm now (turnPrefixMessages p) model (reserveTokens (settings p)) thinkingLevel)
          (\<lambda>(prefixText, prefixUsage).
        Inr (historyText @ [LF, LF] @ js ''---'' @ [LF, LF] @ js ''**Turn Context (split turn):**'' @ [LF, LF] @ prefixText,
             case historyUsage of None \<Rightarrow> prefixUsage | Some u \<Rightarrow> combineUsage u prefixUsage)))
      else generateSummaryWithUsage env llm now (messagesToSummarize p) model (reserveTokens (settings p))
             customInstructions (previousSummary p) thinkingLevel)"

definition compact_session ::
    "json_env \<Rightarrow> (summary_request \<Rightarrow> assistant_message) \<Rightarrow> nat \<Rightarrow> compaction_preparation \<Rightarrow> summary_model
      \<Rightarrow> js_string option \<Rightarrow> ident option \<Rightarrow> compaction_error + compact_result" where
  "compact_session env llm now p model customInstructions thinkingLevel =
     bindR (compact_summary env llm now p model customInstructions thinkingLevel) (\<lambda>(summary, u).
     case computeFileLists (fileOps p) of (readFiles, modifiedFiles) \<Rightarrow>
       Inr \<lparr>res_summary = summary @ formatFileOperations readFiles modifiedFiles, res_tokensBefore = prep_tokensBefore p,
            res_usage = u, res_retainedTail = prep_retainedTail p, res_readFiles = readFiles, res_modifiedFiles = modifiedFiles\<rparr>)"

section \<open>The cut\<close>

lemma entry_range_append:
  assumes "i \<le> j" "j \<le> k"
  shows "entry_range es i j @ entry_range es j k = entry_range es i k"
proof -
  have "take (k - i) (drop i es) = take (j - i) (drop i es) @ take (k - j) (drop j es)"
    using assms take_add [of "j - i" "k - j" "drop i es"] by simp
  then show ?thesis by (simp add: entry_range_def map_filter_append)
qed

lemma entry_range_all: "entry_range es 0 (length es) = List.map_filter getMessageFromEntryForCompaction es"
  by (simp add: entry_range_def)

lemma step_back_le: "step_back es s c \<le> c"
  by (induction c) (auto simp: le_SucI)

lemma step_back_between: "i < c \<Longrightarrow> step_back es s c \<le> i \<Longrightarrow>
    entry_type_of (es ! i) \<noteq> Type_message \<and> entry_type_of (es ! i) \<noteq> Type_compaction"
proof (induction c)
  case (Suc c)
  then show ?case by (cases "i = c") (auto split: if_splits)
qed simp

text \<open>The chosen cut: a cut point, moved back over entries that are no messages.\<close>

lemma findCutPoint_cut:
  assumes "findCutPoint env es s e keep = r" and "findValidCutPoints es s e \<noteq> []"
  shows "\<exists>c. c \<in> set (findValidCutPoints es s e) \<and> firstKeptEntryIndex r = step_back es s c \<and>
    (\<forall>t. turnStartIndex r = Some t \<longrightarrow> t \<le> firstKeptEntryIndex r) \<and> (isSplitTurn r \<longrightarrow> turnStartIndex r \<noteq> None)"
proof -
  obtain c0 cs where cs: "findValidCutPoints es s e = c0 # cs" using assms(2) by (cases "findValidCutPoints es s e") auto
  define c where "c = (case budget_index env es keep 0 (rev [s..<e]) of
      None \<Rightarrow> c0 | Some i \<Rightarrow> (case find (\<lambda>c. i \<le> c) (c0 # cs) of None \<Rightarrow> c0 | Some c \<Rightarrow> c))"
  have "c \<in> set (c0 # cs)" unfolding c_def by (auto split: option.splits dest: find_Some_iff')
  moreover have "firstKeptEntryIndex r = step_back es s c"
    using assms(1) unfolding findCutPoint_def cs list.case c_def [symmetric] Let_def by auto
  moreover have "t \<le> firstKeptEntryIndex r" if "turnStartIndex r = Some t" for t
  proof -
    have "findTurnStartIndex es (firstKeptEntryIndex r) s = Some t"
      using assms(1) that unfolding findCutPoint_def cs list.case Let_def by (auto split: if_splits)
    then show ?thesis by (auto simp: findTurnStartIndex_def dest!: find_Some_iff' split: if_splits)
  qed
  moreover have "isSplitTurn r \<Longrightarrow> turnStartIndex r \<noteq> None"
    using assms(1) unfolding findCutPoint_def cs list.case Let_def by auto
  ultimately show ?thesis using cs by auto
qed

lemma findCutPoint_bounds:
  assumes "findCutPoint env es 0 (length es) keep = r"
  shows "firstKeptEntryIndex r \<le> length es \<and> (isSplitTurn r \<longrightarrow> (\<exists>t. turnStartIndex r = Some t \<and> t \<le> firstKeptEntryIndex r))"
proof (cases "findValidCutPoints es 0 (length es) = []")
  case True
  then show ?thesis using assms by (auto simp: findCutPoint_def)
next
  case False
  obtain c where c: "c \<in> set (findValidCutPoints es 0 (length es))" "firstKeptEntryIndex r = step_back es 0 c"
    "\<forall>t. turnStartIndex r = Some t \<longrightarrow> t \<le> firstKeptEntryIndex r" "isSplitTurn r \<longrightarrow> turnStartIndex r \<noteq> None"
    using findCutPoint_cut [OF assms False] by blast
  have "c < length es" using c(1) by (simp add: findValidCutPoints_def)
  then show ?thesis using c(2-4) step_back_le [of es 0 c] by auto
qed

lemma prepareCompaction_elim:
  assumes "prepareCompaction env path st = Some p"
  shows "\<exists>prev es cut. compactable_entries path = (prev, es) \<and> findCutPoint env es 0 (length es) (keepRecentTokens st) = cut
    \<and> messagesToSummarize p @ turnPrefixMessages p = entry_range es 0 (firstKeptEntryIndex cut)
    \<and> prep_retainedTail p = entry_range es (firstKeptEntryIndex cut) (length es) \<and> firstKeptEntryIndex cut \<le> length es"
proof -
  obtain prev es where es: "compactable_entries path = (prev, es)" by (cases "compactable_entries path")
  define cut where "cut = findCutPoint env es 0 (length es) (keepRecentTokens st)"
  note b = findCutPoint_bounds [OF cut_def [symmetric]]
  from assms es have m: "messagesToSummarize p = entry_range es 0 (if isSplitTurn cut then the (turnStartIndex cut) else firstKeptEntryIndex cut)"
      "turnPrefixMessages p = (if isSplitTurn cut then entry_range es (the (turnStartIndex cut)) (firstKeptEntryIndex cut) else [])"
      "prep_retainedTail p = entry_range es (firstKeptEntryIndex cut) (length es)"
    by (auto simp: prepareCompaction_def Let_def cut_def split: if_splits)
  have "messagesToSummarize p @ turnPrefixMessages p = entry_range es 0 (firstKeptEntryIndex cut)"
    using b m by (auto simp: entry_range_append)
  then show ?thesis using es cut_def m b by blast
qed

section \<open>What a compaction keeps\<close>

text \<open>Entries that the context leaves out although a compaction takes their message: deferred responses, and
  branch summaries without text.\<close>

definition left_out_of_context :: "entry \<Rightarrow> bool" where
  "left_out_of_context e =
     (case payload e of
        MessageEntry (AssistantMessage a) _ \<Rightarrow> am_stopReason a = Deferred
      | BranchSummaryEntry b \<Rightarrow> bp_summary b = []
      | _ \<Rightarrow> False)"

lemma context_messages_of_entry:
  assumes "entry_type_of e \<noteq> Type_compaction"
  shows "entry_messages e = (if left_out_of_context e then [] else case getMessageFromEntryForCompaction e of None \<Rightarrow> [] | Some m \<Rightarrow> [m])"
proof (cases "payload e")
  case (MessageEntry m c)
  then show ?thesis using assms
    by (cases m) (simp_all add: left_out_of_context_def entry_messages_def sessionEntryToContextMessages_def getMessageFromEntryForCompaction_def
        getMessageFromEntry_def)
qed (use assms in \<open>simp_all add: left_out_of_context_def entry_messages_def sessionEntryToContextMessages_def getMessageFromEntryForCompaction_def
        getMessageFromEntry_def plain_options_def entry_type_of_def\<close>)

lemma context_messages_of_entries:
  assumes "\<forall>e\<in>set es. entry_type_of e \<noteq> Type_compaction"
  shows "concat (map entry_messages es) = List.map_filter getMessageFromEntryForCompaction (filter (\<lambda>e. \<not> left_out_of_context e) es)"
  using assms by (induction es) (auto simp: List.map_filter_simps context_messages_of_entry split: option.splits)

lemma last_compaction_Some:
  assumes "last_compaction rs later = Some (c, l)" "\<forall>e\<in>set later. entry_type_of e \<noteq> Type_compaction"
  shows "entry_type_of c = Type_compaction \<and> c \<in> set rs \<and> set l \<subseteq> set rs \<union> set later
    \<and> (\<forall>e\<in>set l. entry_type_of e \<noteq> Type_compaction)"
  using assms by (induction rs later rule: last_compaction.induct) (auto split: if_splits)

lemma last_compaction_None:
  "last_compaction rs later = None \<Longrightarrow> \<forall>e\<in>set rs. entry_type_of e \<noteq> Type_compaction"
  by (induction rs later rule: last_compaction.induct) (auto split: if_splits)

lemma virtual_messages:
  "List.map_filter getMessageFromEntryForCompaction (map (virtual_entry prev) (enumerate i ms)) = ms"
  by (induction ms arbitrary: i)
    (auto simp: List.map_filter_simps virtual_entry_def getMessageFromEntryForCompaction_def getMessageFromEntry_def entry_type_of_def)

text \<open>What the last compaction of a branch left in the context, its summary and its retained messages, and the
  entries after it; without a compaction, nothing and the whole branch.\<close>

definition earlier_summary :: "entry list \<Rightarrow> agent_message list" where
  "earlier_summary path =
     (case last_compaction (rev path) [] of
        None \<Rightarrow> []
      | Some (c, _) \<Rightarrow>
          (case payload c of
             CompactionEntry cp \<Rightarrow> [createCompactionSummaryMessage (cp_summary cp) (cp_tokensBefore cp) (entry_timestamp c)]
           | _ \<Rightarrow> []))"

definition earlier_retained :: "entry list \<Rightarrow> agent_message list" where
  "earlier_retained path =
     (case last_compaction (rev path) [] of
        None \<Rightarrow> []
      | Some (c, _) \<Rightarrow> (case payload c of CompactionEntry cp \<Rightarrow> cp_retainedTail cp | _ \<Rightarrow> []))"

definition entries_after_compaction :: "entry list \<Rightarrow> entry list" where
  "entries_after_compaction path = (case last_compaction (rev path) [] of None \<Rightarrow> path | Some (_, later) \<Rightarrow> later)"

lemma compaction_split:
  assumes "compactable_entries path = (prev, es)"
  shows "List.map_filter getMessageFromEntryForCompaction es
      = earlier_retained path @ List.map_filter getMessageFromEntryForCompaction (entries_after_compaction path)
    \<and> ctx_messages (buildSessionContext path plain_options)
      = earlier_summary path @ earlier_retained path
        @ List.map_filter getMessageFromEntryForCompaction (filter (\<lambda>e. \<not> left_out_of_context e) (entries_after_compaction path))"
proof (cases "last_compaction (rev path) []")
  case None
  have no: "\<forall>e\<in>set path. entry_type_of e \<noteq> Type_compaction" using last_compaction_None [OF None] by simp
  then show ?thesis using None assms context_messages_of_entries [OF no] default_transform_plain [OF no]
    by (simp add: plain_context_messages compactable_entries_def earlier_summary_def earlier_retained_def entries_after_compaction_def)
next
  case (Some cl)
  then obtain c later where c: "last_compaction (rev path) [] = Some (c, later)" by (cases cl) auto
  have l: "entry_type_of c = Type_compaction" "\<forall>e\<in>set later. entry_type_of e \<noteq> Type_compaction"
    using last_compaction_Some [OF c] by auto
  then obtain cp where cp: "payload c = CompactionEntry cp" by (cases "payload c") (auto simp: entry_type_of_def)
  have "entry_messages c = createCompactionSummaryMessage (cp_summary cp) (cp_tokensBefore cp) (entry_timestamp c) # cp_retainedTail cp"
    using cp by (simp add: entry_messages_def sessionEntryToContextMessages_def)
  moreover have "es = map (virtual_entry c) (enumerate 0 (cp_retainedTail cp)) @ later"
    using assms c cp by (simp add: compactable_entries_def)
  moreover have "defaultContextEntryTransform path = c # later" using c by (simp add: defaultContextEntryTransform_def)
  ultimately show ?thesis
    using c cp context_messages_of_entries [OF l(2)]
    by (simp add: plain_context_messages map_filter_append virtual_messages earlier_summary_def earlier_retained_def entries_after_compaction_def)
qed

text \<open>C26: Compaction loses and reorders no message of the branch. The messages to summarise, the prefix of a split
  turn and the retained messages are, in this order, the messages that the last compaction retained and
  the messages of all entries after it. The context before the compaction is the summary of the last compaction and the same
  messages, without those of entries that a context leaves out, which are deferred responses and branch summaries without text.
  Once the compaction entry is appended, the context is its summary and the retained messages; these include
  a deferred response or an empty branch summary that stands in the kept part, which the context did not show before.\<close>

theorem compaction_partition:
  assumes "prepareCompaction env path st = Some p"
    and "payload c = CompactionEntry cp" and "cp_retainedTail cp = prep_retainedTail p"
  shows "messagesToSummarize p @ turnPrefixMessages p @ prep_retainedTail p
      = earlier_retained path @ List.map_filter getMessageFromEntryForCompaction (entries_after_compaction path)
    \<and> ctx_messages (buildSessionContext path plain_options)
      = earlier_summary path @ earlier_retained path
        @ List.map_filter getMessageFromEntryForCompaction (filter (\<lambda>e. \<not> left_out_of_context e) (entries_after_compaction path))
    \<and> ctx_messages (buildSessionContext (path @ [c]) plain_options)
      = createCompactionSummaryMessage (cp_summary cp) (cp_tokensBefore cp) (entry_timestamp c) # prep_retainedTail p"
proof -
  obtain prev es and cut :: cut_point_result where p: "compactable_entries path = (prev, es)"
    "messagesToSummarize p @ turnPrefixMessages p = entry_range es 0 (firstKeptEntryIndex cut)"
    "prep_retainedTail p = entry_range es (firstKeptEntryIndex cut) (length es)" "firstKeptEntryIndex cut \<le> length es"
    using prepareCompaction_elim [OF assms(1)] by blast
  have "messagesToSummarize p @ turnPrefixMessages p @ prep_retainedTail p = entry_range es 0 (length es)"
    using p(2,3) entry_range_append [of 0 "firstKeptEntryIndex cut" "length es" es] p(4) by (simp add: append_assoc [symmetric] del: append_assoc)
  then have "messagesToSummarize p @ turnPrefixMessages p @ prep_retainedTail p = List.map_filter getMessageFromEntryForCompaction es"
    by (simp add: entry_range_all)
  moreover have "defaultContextEntryTransform (path @ [c]) = [c]"
    using default_transform_compaction [of c "[]" path] assms(2) by (simp add: entry_type_of_def)
  then have "ctx_messages (buildSessionContext (path @ [c]) plain_options)
      = createCompactionSummaryMessage (cp_summary cp) (cp_tokensBefore cp) (entry_timestamp c) # prep_retainedTail p"
    using assms(2,3) by (simp add: plain_context_messages entry_messages_def sessionEntryToContextMessages_def)
  ultimately show ?thesis using compaction_split [OF p(1)] by simp
qed

lemma prepareCompaction_defined:
  "path \<noteq> [] \<Longrightarrow> entry_type_of (last path) \<noteq> Type_compaction \<Longrightarrow> \<exists>p. prepareCompaction env path st = Some p"
  by (simp add: prepareCompaction_def Let_def split: prod.splits)

definition demo_env :: json_env where
  "demo_env = (\<lambda>_. ''0'', \<lambda>_. [])"

lemma demo_prepared: "\<exists>p. prepareCompaction demo_env [demo_bash] DEFAULT_COMPACTION_SETTINGS = Some p"
  by (rule prepareCompaction_defined) (simp_all add: demo_bash_def entry_type_of_def)

theorem compaction_partition_witness:
  "\<exists>p. prepareCompaction demo_env [demo_bash] DEFAULT_COMPACTION_SETTINGS = Some p \<and>
    [user_text (js ''hi'') 6] = messagesToSummarize p @ turnPrefixMessages p @ prep_retainedTail p"
proof -
  obtain p where p: "prepareCompaction demo_env [demo_bash] DEFAULT_COMPACTION_SETTINGS = Some p" using demo_prepared by blast
  define c where "c = demo_compaction\<lparr>payload := CompactionEntry
    \<lparr>cp_summary = [], cp_retainedTail = prep_retainedTail p, cp_tokensBefore = 0, cp_details = None, cp_usage = None\<rparr>\<rparr>"
  from compaction_partition [OF p, of c]
  have "messagesToSummarize p @ turnPrefixMessages p @ prep_retainedTail p
      = earlier_retained [demo_bash] @ List.map_filter getMessageFromEntryForCompaction (entries_after_compaction [demo_bash])"
    by (auto simp: c_def)
  then show ?thesis using p
    by (simp add: demo_bash_def earlier_retained_def entries_after_compaction_def entry_type_of_def user_text_def
        List.map_filter_simps getMessageFromEntryForCompaction_def getMessageFromEntry_def)
qed

text \<open>A deferred response is not part of the context, but a compaction retains it, and the context has it
  from then on.\<close>

lemma deferred_response_retained:
  assumes "payload e = MessageEntry (AssistantMessage a) False" and "am_stopReason a = Deferred"
  shows "entry_messages e = []" and "getMessageFromEntryForCompaction e = Some (AssistantMessage a)"
  using assms by (simp_all add: entry_messages_def sessionEntryToContextMessages_def getMessageFromEntryForCompaction_def
      getMessageFromEntry_def entry_type_of_def)

section \<open>Tool results stay with their calls\<close>

definition is_tool_result :: "agent_message \<Rightarrow> bool" where
  "is_tool_result m = (case m of ToolResultMessage _ \<Rightarrow> True | _ \<Rightarrow> False)"

lemma cut_entry_message: "is_cut_entry e \<Longrightarrow> \<exists>m. getMessageFromEntryForCompaction e = Some m \<and> \<not> is_tool_result m"
  by (auto simp: is_cut_entry_def getMessageFromEntryForCompaction_def getMessageFromEntry_def entry_type_of_def
      is_tool_result_def createBranchSummaryMessage_def split: entry_payload.splits agent_message.splits)

lemma skipped_entry_message:
  "entry_type_of e \<noteq> Type_message \<Longrightarrow> getMessageFromEntryForCompaction e = Some m \<Longrightarrow> \<not> is_tool_result m"
  by (auto simp: getMessageFromEntryForCompaction_def getMessageFromEntry_def entry_type_of_def is_tool_result_def
      createBranchSummaryMessage_def split: entry_payload.splits if_splits)

lemma first_retained:
  assumes "\<forall>e\<in>set pre. entry_type_of e \<noteq> Type_message" and "is_cut_entry c"
  shows "\<exists>m ms. List.map_filter getMessageFromEntryForCompaction (pre @ c # post) = m # ms \<and> \<not> is_tool_result m"
  using assms(1)
proof (induction pre)
  case Nil
  then show ?case using cut_entry_message [OF assms(2)] by (auto simp: List.map_filter_simps)
next
  case (Cons e pre)
  then show ?case using skipped_entry_message [of e]
    by (cases "getMessageFromEntryForCompaction e") (auto simp: List.map_filter_simps)
qed

text \<open>When the conversation has a message at which it can be cut, the retained messages are not empty
  and do not start with a tool result.\<close>

theorem retained_tail_start:
  assumes "prepareCompaction env path st = Some p" and "snd (compactable_entries path) = es" and "list_ex is_cut_entry es"
  shows "prep_retainedTail p \<noteq> [] \<and> \<not> is_tool_result (hd (prep_retainedTail p))"
proof -
  obtain cut where p: "findCutPoint env es 0 (length es) (keepRecentTokens st) = cut"
    "prep_retainedTail p = entry_range es (firstKeptEntryIndex cut) (length es)"
    using prepareCompaction_elim [OF assms(1)] assms(2) by auto
  have "findValidCutPoints es 0 (length es) \<noteq> []"
    using assms(3) by (fastforce simp: findValidCutPoints_def list_ex_iff in_set_conv_nth filter_empty_conv)
  from findCutPoint_cut [OF p(1) this] obtain c where c: "c < length es" "is_cut_entry (es ! c)"
    and k: "firstKeptEntryIndex cut = step_back es 0 c" by (auto simp: findValidCutPoints_def)
  let ?k = "step_back es 0 c"
  have le: "?k \<le> c" by (rule step_back_le)
  have "drop ?k es = take (c - ?k) (drop ?k es) @ drop c es"
    using le by (metis append_take_drop_id drop_drop le_add_diff_inverse2)
  also have "drop c es = es ! c # drop (Suc c) es" using c(1) by (simp add: Cons_nth_drop_Suc)
  finally have d: "drop ?k es = take (c - ?k) (drop ?k es) @ es ! c # drop (Suc c) es" .
  have "\<forall>e\<in>set (take (c - ?k) (drop ?k es)). entry_type_of e \<noteq> Type_message"
  proof
    fix e assume "e \<in> set (take (c - ?k) (drop ?k es))"
    then obtain i where "i < c - ?k" "e = es ! (?k + i)" using c(1) le by (auto simp: in_set_conv_nth)
    then show "entry_type_of e \<noteq> Type_message" using step_back_between [of "?k + i" c es 0] by simp
  qed
  from first_retained [OF this c(2), of "drop (Suc c) es"] d
  have "\<exists>m ms. List.map_filter getMessageFromEntryForCompaction (drop ?k es) = m # ms \<and> \<not> is_tool_result m" by simp
  then show ?thesis using p(2) k by (auto simp: entry_range_def)
qed

section \<open>File lists\<close>

lemma computeFileLists_spec:
  assumes "computeFileLists ops = (rd, md)" and "distinct (ops_read ops)"
  shows "sorted rd \<and> sorted md \<and> distinct rd \<and> distinct md \<and> set md = set (ops_edited ops) \<union> set (ops_written ops)
    \<and> set rd = set (ops_read ops) - set md"
  using assms by (auto simp: computeFileLists_def Let_def)

end
