(* ===== verification/Branch_Summary.thy ===== *)
theory Branch_Summary
  imports Session_Api Compaction
begin

text \<open>
  Summaries of a branch that is left, \<open>agent/src/harness/compaction/branch-summarization.ts\<close>: the entries
  between the old leaf and the deepest common ancestor with the target, the messages that fit a token
  budget, and the summary. The session is the storage and its operations, the model call is the argument \<open>llm\<close>.
\<close>

section \<open>Collecting the entries of a branch\<close>

text \<open>The loop up from the old leaf. It follows what the storage answers, so it is a partial function; the
  value \<open>None\<close> would be a loop that does not end. The empty string counts as no id, as in the source.\<close>

partial_function (option) collect_up ::
    "('s, 'm) storage_ops \<Rightarrow> 's \<Rightarrow> ident option \<Rightarrow> ident option \<Rightarrow> entry list \<Rightarrow> (session_error + entry list) option" where
  "collect_up ops st ancestor current acc =
     (case current of
        None \<Rightarrow> Some (Inr acc)
      | Some i \<Rightarrow>
          if i = [] \<or> Some i = ancestor then Some (Inr acc)
          else (case so_getEntry ops st i of
                  None \<Rightarrow> Some (Inl (SessionError Invalid_entry (''Entry '' @ i @ '' not found'')))
                | Some e \<Rightarrow> collect_up ops st ancestor (parentId e) (acc @ [e])))"

record collect_result =
  collected :: "entry list"
  commonAncestorId :: "ident option"

definition collectEntriesForBranchSummary ::
    "('s, 'm) storage_ops \<Rightarrow> 's \<Rightarrow> ident option \<Rightarrow> ident \<Rightarrow> (session_error + collect_result) option" where
  "collectEntriesForBranchSummary ops st oldLeafId targetId =
     (if oldLeafId = None \<or> oldLeafId = Some [] then Some (Inr \<lparr>collected = [], commonAncestorId = None\<rparr>)
      else case queryBranchEntries ops st ''main'' branch_query no_bounds oldLeafId None of
             Inl err \<Rightarrow> Some (Inl err)
           | Inr oldEntries \<Rightarrow>
        (case queryBranchEntries ops st ''main'' branch_query no_bounds (Some targetId) None of
             Inl err \<Rightarrow> Some (Inl err)
           | Inr targetPath \<Rightarrow>
        (let ancestor = map_option entry_id (find (\<lambda>e. entry_id e \<in> entry_id ` set oldEntries) targetPath)
         in map_option (\<lambda>r. bindR r (\<lambda>es. Inr \<lparr>collected = rev es, commonAncestorId = ancestor\<rparr>))
              (collect_up ops st ancestor oldLeafId []))))"

section \<open>The messages within the budget\<close>

definition branch_message :: "entry \<Rightarrow> agent_message option" where
  "branch_message e =
     (case payload e of
        MessageEntry m _ \<Rightarrow> (case m of ToolResultMessage _ \<Rightarrow> None | _ \<Rightarrow> Some m)
      | BranchSummaryEntry b \<Rightarrow> Some (createBranchSummaryMessage (bp_summary b) (bp_fromId b) (entry_timestamp e))
      | CompactionEntry c \<Rightarrow> Some (createCompactionSummaryMessage (cp_summary c) (cp_tokensBefore c) (entry_timestamp e))
      | _ \<Rightarrow> None)"

record branch_preparation =
  bprep_messages :: "agent_message list"
  bprep_fileOps :: file_operations
  bprep_totalTokens :: nat

definition details_ops :: "file_operations \<Rightarrow> entry \<Rightarrow> file_operations" where
  "details_ops ops e =
     (case payload e of
        BranchSummaryEntry b \<Rightarrow>
          (case bp_details b of
             None \<Rightarrow> ops
           | Some d \<Rightarrow>
               ops\<lparr>ops_read := foldl (\<lambda>s f. set_add f s) (ops_read ops) (string_items (js ''readFiles'') d),
                   ops_edited := foldl (\<lambda>s f. set_add f s) (ops_edited ops) (string_items (js ''modifiedFiles'') d)\<rparr>)
      | _ \<Rightarrow> ops)"

text \<open>
  The loop from the newest entry back, over the reversed list. A budget that is not positive is no budget.
  \<open>totalTokens < tokenBudget * 0.9\<close> is \<open>10 * totalTokens < 9 * tokenBudget\<close>: for budgets of any realistic size the
  rounded product is the exact one where that is an integer, and it does not cross an integer elsewhere.
\<close>

definition is_summary_entry :: "entry \<Rightarrow> bool" where
  "is_summary_entry e = (entry_type_of e = Type_compaction \<or> entry_type_of e = Type_branch_summary)"

fun prepare_back :: "json_env \<Rightarrow> int \<Rightarrow> entry list \<Rightarrow> branch_preparation \<Rightarrow> branch_preparation" where
  "prepare_back env budget [] p = p"
| "prepare_back env budget (e # es) p =
     (case branch_message e of
        None \<Rightarrow> prepare_back env budget es p
      | Some m \<Rightarrow>
          (let p1 = p\<lparr>bprep_fileOps := extractFileOpsFromMessage (bprep_fileOps p) m\<rparr>;
               tokens = estimateTokens env m;
               p2 = p1\<lparr>bprep_messages := m # bprep_messages p1, bprep_totalTokens := bprep_totalTokens p1 + tokens\<rparr>
           in if budget > 0 \<and> int (bprep_totalTokens p + tokens) > budget
              then (if is_summary_entry e \<and> 10 * int (bprep_totalTokens p) < 9 * budget then p2 else p1)
              else prepare_back env budget es p2))"

definition prepareBranchEntries :: "json_env \<Rightarrow> entry list \<Rightarrow> int \<Rightarrow> branch_preparation" where
  "prepareBranchEntries env es budget =
     prepare_back env budget (rev es)
       \<lparr>bprep_messages = [], bprep_fileOps = foldl details_ops createFileOps es, bprep_totalTokens = 0\<rparr>"

section \<open>The summary\<close>

definition BRANCH_SUMMARY_PREAMBLE :: js_string where
  "BRANCH_SUMMARY_PREAMBLE =
     js ''The user explored a different conversation branch before returning here.'' @ [LF]
     @ js ''Summary of that exploration:'' @ [LF, LF]"

definition BRANCH_SUMMARY_PROMPT :: js_string where
  "BRANCH_SUMMARY_PROMPT =
     join_on LF (map js
       [''Create a structured summary of this conversation branch for context when returning later.'',
        '''',
        ''Use this EXACT format:'',
        '''',
        ''## Goal'',
        ''[What was the user trying to accomplish in this branch?]'',
        '''',
        ''## Constraints & Preferences'',
        ''- [Any constraints, preferences, or requirements mentioned]'',
        ''- [Or \"(none)\" if none were mentioned]'',
        '''',
        ''## Progress'',
        ''### Done'',
        ''- [x] [Completed tasks/changes]'',
        '''',
        ''### In Progress'',
        ''- [ ] [Work that was started but not finished]'',
        '''',
        ''### Blocked'',
        ''- [Issues preventing progress, if any]'',
        '''',
        ''## Key Decisions'',
        ''- **[Decision]**: [Brief rationale]'',
        '''',
        ''## Next Steps'',
        ''1. [What should happen next to continue this work]'',
        '''',
        ''Keep each section concise. Preserve exact file paths, function names, and error messages.''])"

record branch_summary_options =
  bso_contextWindow :: nat
  bso_customInstructions :: "js_string option"
  bso_replaceInstructions :: bool
  bso_reserveTokens :: "nat option"

record branch_summary_result =
  bsr_summary :: js_string
  bsr_usage :: "usage option"
  bsr_readFiles :: "js_string list"
  bsr_modifiedFiles :: "js_string list"

datatype branch_summary_error = BranchSummaryError compaction_error_code string

definition branch_budget :: "branch_summary_options \<Rightarrow> int" where
  "branch_budget opts =
     int (if bso_contextWindow opts = 0 then 128000 else bso_contextWindow opts)
       - int (case bso_reserveTokens opts of None \<Rightarrow> 16384 | Some n \<Rightarrow> n)"

definition branch_instructions :: "branch_summary_options \<Rightarrow> js_string" where
  "branch_instructions opts =
     (case truthy (bso_customInstructions opts) of
        None \<Rightarrow> BRANCH_SUMMARY_PROMPT
      | Some c \<Rightarrow>
          if bso_replaceInstructions opts then c
          else BRANCH_SUMMARY_PROMPT @ [LF, LF] @ js ''Additional focus: '' @ c)"

definition generateBranchSummary ::
    "json_env \<Rightarrow> (summary_request \<Rightarrow> assistant_message) \<Rightarrow> nat \<Rightarrow> entry list \<Rightarrow> branch_summary_options
      \<Rightarrow> branch_summary_error + branch_summary_result" where
  "generateBranchSummary env llm now es opts =
     (let p = prepareBranchEntries env es (branch_budget opts)
      in if bprep_messages p = []
         then Inr \<lparr>bsr_summary = js ''No content to summarize'', bsr_usage = None, bsr_readFiles = [], bsr_modifiedFiles = []\<rparr>
         else let promptText = conversation_block env (bprep_messages p) @ branch_instructions opts;
                  response = llm \<lparr>req_systemPrompt = SUMMARIZATION_SYSTEM_PROMPT, req_messages = [user_text promptText now],
                                  req_maxTokens = Some 2048, req_reasoning = None\<rparr>
              in if am_stopReason response = Aborted
                 then Inl (BranchSummaryError Compaction_aborted (or_text (am_errorMessage response) ''Branch summary aborted''))
                 else if am_stopReason response = Error_stop
                 then Inl (BranchSummaryError Summarization_failed
                        (''Branch summary failed: '' @ or_text (am_errorMessage response) ''Unknown error''))
                 else let lists = computeFileLists (bprep_fileOps p);
                          summary = BRANCH_SUMMARY_PREAMBLE @ assistant_contentText (am_content response) [LF]
                            @ formatFileOperations (fst lists) (snd lists)
                      in Inr \<lparr>bsr_summary = (if summary = [] then js ''No summary generated'' else summary),
                              bsr_usage = Some (am_usage response), bsr_readFiles = fst lists, bsr_modifiedFiles = snd lists\<rparr>)"

section \<open>What is collected\<close>

lemma branch_path_split:
  "branch_path s i (xs @ e # ys) \<Longrightarrow> branch_path s (entry_id e) (e # ys)"
proof (induction xs arbitrary: i)
  case Nil
  then show ?case by simp
next
  case (Cons x xs)
  then show ?case by (cases "parentId x") auto
qed

lemma collect_up_path:
  assumes "branch_path s i (xs @ common)" and "\<forall>e\<in>set xs. entry_id e \<noteq> [] \<and> Some (entry_id e) \<noteq> ancestor"
    and "ancestor = (case common of [] \<Rightarrow> None | e # _ \<Rightarrow> Some (entry_id e))" and "state st = s"
  shows "collect_up memory_ops st ancestor (Some i) acc = Some (Inr (acc @ xs))"
  using assms
proof (induction xs arbitrary: i acc)
  case Nil
  then obtain e es where "common = e # es" by (cases common) auto
  then show ?case using Nil by (subst collect_up.simps) auto
next
  case (Cons x xs)
  have x: "getEntry s i = Some x" "entry_id x = i" using Cons.prems(1) by auto
  have step: "collect_up memory_ops st ancestor (Some i) acc = collect_up memory_ops st ancestor (parentId x) (acc @ [x])"
    using x Cons.prems(2,4) by (subst collect_up.simps) (auto simp: memory_ops_def storage_getEntry_def)
  show ?case
  proof (cases "parentId x")
    case None
    then have "xs = []" "common = []" using Cons.prems(1) by auto
    then show ?thesis using step None by (simp add: collect_up.simps)
  next
    case (Some p)
    then have "branch_path s p (xs @ common)" using Cons.prems(1) by simp
    then show ?thesis using Cons.IH [of p "acc @ [x]"] Cons.prems(2-4) step Some by simp
  qed
qed

lemma query_from:
  assumes "wf_state (state st)" and "branch_path (state st) i es"
  shows "queryBranchEntries memory_ops st lane branch_query no_bounds (Some i) None = Inr es"
proof -
  have "i \<in> entry_ids (state st)"
    using assms by (cases es) (auto simp: wf_state_def entry_ids_def dest: getEntry_SomeD)
  then obtain path where path: "walkToRoot (state st) (Some i) None = (path, None)" "branch_path (state st) i path"
    using walkToRoot_path [OF assms(1)] by blast
  have "findEntriesOnBranch (state st) branch_query no_bounds i = Inr path"
    using findEntriesOnBranch_eq [OF _ path(1), of branch_query no_bounds] by (simp add: take_limit_def)
  moreover have "path = es" using branch_path_unique [OF path(2) assms(2)] .
  ultimately show ?thesis
    by (simp add: queryBranchEntries_def assert_defs memory_ops_def storage_findEntriesOnBranch_def)
qed

lemma find_Some_split:
  "find P xs = Some x \<Longrightarrow> \<exists>ys zs. xs = ys @ x # zs \<and> P x \<and> (\<forall>y\<in>set ys. \<not> P y)"
proof (induction xs)
  case (Cons a xs)
  show ?case
  proof (cases "P a")
    case True
    then show ?thesis using Cons.prems by (intro exI [of _ "[]"] exI [of _ xs]) simp
  next
    case False
    then obtain ys zs where "xs = ys @ x # zs" "P x" "\<forall>y\<in>set ys. \<not> P y" using Cons by auto
    then show ?thesis using False by (intro exI [of _ "a # ys"] exI [of _ zs]) simp
  qed
qed simp

lemma image_disjoint: "f ` A \<inter> f ` B = {} \<Longrightarrow> A \<inter> B = {}"
  by blast

text \<open>Two paths of one tree have a common end, and no entry before it is on both.\<close>

lemma paths_meet:
  assumes "wf_state s" and "branch_path s i ps" and "branch_path s j qs"
  shows "\<exists>xs ys common. ps = xs @ common \<and> qs = ys @ common
    \<and> entry_id ` set ys \<inter> entry_id ` set ps = {} \<and> entry_id ` set xs \<inter> entry_id ` set common = {}
    \<and> find (\<lambda>e. entry_id e \<in> entry_id ` set ps) qs = (case common of [] \<Rightarrow> None | e # _ \<Rightarrow> Some e)"
proof (cases "find (\<lambda>e. entry_id e \<in> entry_id ` set ps) qs")
  case None
  then show ?thesis by (intro exI [of _ ps] exI [of _ qs] exI [of _ "[]"]) (auto simp: find_None_iff)
next
  case (Some q)
  then obtain ys tail where q: "qs = ys @ q # tail" "entry_id q \<in> entry_id ` set ps" "\<forall>y\<in>set ys. entry_id y \<notin> entry_id ` set ps"
    using find_Some_split [OF Some] by blast
  then obtain e xs tail' where e: "ps = xs @ e # tail'" "entry_id e = entry_id q" by (metis imageE split_list)
  have "branch_path s (entry_id e) (e # tail')" using assms(2) unfolding e(1) by (rule branch_path_split)
  moreover have "branch_path s (entry_id q) (q # tail)" using assms(3) unfolding q(1) by (rule branch_path_split)
  ultimately have eq: "e # tail' = q # tail" unfolding e(2) by (rule branch_path_unique)
  have "distinct (map entry_id ps)" by (rule branch_path_distinct [OF assms(1,2)])
  then show ?thesis using e q eq Some by (intro exI [of _ xs] exI [of _ ys] exI [of _ "q # tail"]) auto
qed

text \<open>C38: When a session moves from one entry to another, what is summarised is exactly the part of the old
  branch below the deepest common ancestor: the two branches have a common end, no entry before it is on
  both, the ancestor is its first entry (none when the branches share nothing), and the collected entries
  are the rest of the old branch, oldest first. The loop ends.\<close>

theorem collectEntries_common_ancestor:
  assumes "wf_state (state st)" and "branch_path (state st) old ps" and "branch_path (state st) target qs"
    and "\<forall>e\<in>set ps. entry_id e \<noteq> []"
  shows "\<exists>xs ys common. ps = xs @ common \<and> qs = ys @ common \<and> set ys \<inter> set ps = {} \<and> set xs \<inter> set qs = {}
    \<and> collectEntriesForBranchSummary memory_ops st (Some old) target
        = Some (Inr \<lparr>collected = rev xs, commonAncestorId = (case common of [] \<Rightarrow> None | e # _ \<Rightarrow> Some (entry_id e))\<rparr>)"
proof -
  obtain xs ys common where c: "ps = xs @ common" "qs = ys @ common" "entry_id ` set ys \<inter> entry_id ` set ps = {}"
      "entry_id ` set xs \<inter> entry_id ` set common = {}"
      and f: "find (\<lambda>e. entry_id e \<in> entry_id ` set ps) qs = (case common of [] \<Rightarrow> None | e # _ \<Rightarrow> Some e)"
    using paths_meet [OF assms(1-3)] by blast
  let ?a = "case common of [] \<Rightarrow> None | e # _ \<Rightarrow> Some (entry_id e)"
  have a: "map_option entry_id (find (\<lambda>e. entry_id e \<in> entry_id ` set ps) qs) = ?a" using f by (cases common) simp_all
  have old: "old \<noteq> []" using assms(2,4) by (cases ps) auto
  have "\<forall>e\<in>set xs. entry_id e \<noteq> [] \<and> Some (entry_id e) \<noteq> ?a"
    using assms(4) c(1,4) by (cases common) (auto simp: disjoint_iff)
  then have "collect_up memory_ops st ?a (Some old) [] = Some (Inr xs)"
    using collect_up_path [of "state st" old xs common ?a st "[]"] assms(2) c(1) by simp
  then have "collectEntriesForBranchSummary memory_ops st (Some old) target
      = Some (Inr \<lparr>collected = rev xs, commonAncestorId = ?a\<rparr>)"
    using query_from [OF assms(1,2)] query_from [OF assms(1,3)] a old by (simp add: collectEntriesForBranchSummary_def)
  moreover have ys: "set ys \<inter> set ps = {}" by (rule image_disjoint [OF c(3)])
  moreover have "set xs \<inter> set qs = {}"
    using ys image_disjoint [OF c(4)] unfolding c(1,2) by (simp add: Int_Un_distrib Int_commute)
  ultimately show ?thesis using c(1,2) by blast
qed

lemma demo_paths: "branch_path demo_state ''b'' [demo_message ''b'' (Some ''a'') 2, demo_message ''a'' None 1]"
    "branch_path demo_state ''a'' [demo_message ''a'' None 1]"
proof -
  have "entriesById demo_state = map (\<lambda>e. (entry_id e, e)) (entries demo_state)"
    using demo_wf by (simp add: wf_state_def index_inv_def)
  then show "branch_path demo_state ''b'' [demo_message ''b'' (Some ''a'') 2, demo_message ''a'' None 1]"
    "branch_path demo_state ''a'' [demo_message ''a'' None 1]"
    by (simp_all add: demo_fields getEntry_def demo_message_def)
qed

theorem collectEntries_common_ancestor_witness:
  "collectEntriesForBranchSummary memory_ops demo_storage (Some ''b'') ''a''
     = Some (Inr \<lparr>collected = [demo_message ''b'' (Some ''a'') 2], commonAncestorId = Some ''a''\<rparr>)"
proof -
  let ?a = "demo_message ''a'' None 1" and ?b = "demo_message ''b'' (Some ''a'') 2"
  have "?a \<noteq> ?b" by (simp add: demo_message_def)
  have "wf_state (state demo_storage)" "branch_path (state demo_storage) ''b'' [?b, ?a]" "branch_path (state demo_storage) ''a'' [?a]"
    using demo_wf demo_paths by (simp_all add: demo_storage_def)
  moreover have "\<forall>e\<in>set [?b, ?a]. entry_id e \<noteq> []" by (simp add: demo_message_def)
  ultimately obtain xs ys common where "[?b, ?a] = xs @ common" "[?a] = ys @ common" "set ys \<inter> set [?b, ?a] = {}"
    "set xs \<inter> set [?a] = {}" and r: "collectEntriesForBranchSummary memory_ops demo_storage (Some ''b'') ''a''
      = Some (Inr \<lparr>collected = rev xs, commonAncestorId = (case common of [] \<Rightarrow> None | e # _ \<Rightarrow> Some (entry_id e))\<rparr>)"
    using collectEntries_common_ancestor [of demo_storage "''b''" "[?b, ?a]" "''a''" "[?a]"] by blast
  then have "ys = []" "common = [?a]" "xs = [?b]" by (auto simp: Cons_eq_append_conv)
  with r show ?thesis by (simp add: demo_message_def)
qed

section \<open>What fits the budget\<close>

definition estimate_all :: "json_env \<Rightarrow> agent_message list \<Rightarrow> nat" where
  "estimate_all env ms = sum_list (map (estimateTokens env) ms)"

definition is_summary_message :: "agent_message \<Rightarrow> bool" where
  "is_summary_message m = (case m of BranchSummaryMessage _ \<Rightarrow> True | CompactionSummaryMessage _ \<Rightarrow> True | _ \<Rightarrow> False)"

definition fits_budget :: "json_env \<Rightarrow> int \<Rightarrow> agent_message list \<Rightarrow> bool" where
  "fits_budget env budget ms =
     (int (estimate_all env ms) \<le> budget
      \<or> (case ms of [] \<Rightarrow> False | m # rest \<Rightarrow> is_summary_message m \<and> 10 * int (estimate_all env rest) < 9 * budget))"

lemma summary_entry_message: "branch_message e = Some m \<Longrightarrow> is_summary_entry e \<Longrightarrow> is_summary_message m"
  by (auto simp: branch_message_def is_summary_entry_def entry_type_of_def is_summary_message_def
      createBranchSummaryMessage_def createCompactionSummaryMessage_def split: entry_payload.splits)

lemma prepare_back_spec:
  assumes "bprep_totalTokens p = estimate_all env (bprep_messages p)"
    and "0 < budget \<Longrightarrow> int (estimate_all env (bprep_messages p)) \<le> budget"
    and "prepare_back env budget es p = q"
  shows "\<exists>older. rev (List.map_filter branch_message es) @ bprep_messages p = older @ bprep_messages q
    \<and> bprep_totalTokens q = estimate_all env (bprep_messages q)
    \<and> (if 0 < budget then fits_budget env budget (bprep_messages q) else older = [])"
  using assms
proof (induction env budget es p rule: prepare_back.induct)
  case (1 env budget p)
  then show ?case by (auto simp: List.map_filter_simps fits_budget_def)
next
  case (2 env budget e es p)
  show ?case
  proof (cases "branch_message e")
    case None
    then show ?thesis using "2.IH"(1) "2.prems" by (simp add: List.map_filter_simps)
  next
    case (Some m)
    let ?tokens = "estimateTokens env m"
    let ?p1 = "p\<lparr>bprep_fileOps := extractFileOpsFromMessage (bprep_fileOps p) m\<rparr>"
    let ?p2 = "?p1\<lparr>bprep_messages := m # bprep_messages ?p1, bprep_totalTokens := bprep_totalTokens ?p1 + ?tokens\<rparr>"
    have tot: "bprep_totalTokens ?p2 = estimate_all env (bprep_messages ?p2)"
      using "2.prems"(1) by (simp add: estimate_all_def)
    show ?thesis
    proof (cases "budget > 0 \<and> int (bprep_totalTokens p + ?tokens) > budget")
      case True
      then have q: "q = (if is_summary_entry e \<and> 10 * int (bprep_totalTokens p) < 9 * budget then ?p2 else ?p1)"
        using "2.prems"(3) Some by (simp add: Let_def)
      show ?thesis
      proof (cases "is_summary_entry e \<and> 10 * int (bprep_totalTokens p) < 9 * budget")
        case True
        then show ?thesis using q tot Some summary_entry_message [OF Some] \<open>budget > 0 \<and> _\<close> "2.prems"(1)
          by (simp add: List.map_filter_simps fits_budget_def)
      next
        case False
        then have "q = ?p1" unfolding q by (rule if_not_P)
        then show ?thesis using "2.prems"(1,2) Some \<open>budget > 0 \<and> _\<close> by (simp add: List.map_filter_simps fits_budget_def)
      qed
    next
      case False
      have rec: "prepare_back env budget es ?p2 = q"
        using "2.prems"(3) unfolding prepare_back.simps Let_def Some option.case if_not_P [OF False] .
      have "0 < budget \<Longrightarrow> int (estimate_all env (bprep_messages ?p2)) \<le> budget" using False tot by simp
      from "2.IH"(2) [OF Some refl refl refl False tot this rec] Some show ?thesis by (simp add: List.map_filter_simps)
    qed
  qed
qed

lemma map_filter_rev: "List.map_filter f (rev xs) = rev (List.map_filter f xs)"
  by (induction xs) (simp_all add: List.map_filter_simps map_filter_append split: option.splits)

text \<open>C39: What is given to the summary of a branch is the end of its messages (tool results left out), all of
  them when the budget is not positive. With a positive budget the estimate stays within it, but for one
  older summary in front, which is taken when the rest uses less than nine tenths.\<close>

theorem prepareBranchEntries_budget:
  assumes "prepareBranchEntries env es budget = p"
  shows "\<exists>older. List.map_filter branch_message es = older @ bprep_messages p
    \<and> bprep_totalTokens p = estimate_all env (bprep_messages p)
    \<and> (if 0 < budget then fits_budget env budget (bprep_messages p) else older = [])"
  using prepare_back_spec [OF _ _ assms [unfolded prepareBranchEntries_def]]
  by (simp add: estimate_all_def map_filter_rev)

theorem prepareBranchEntries_budget_witness:
  "\<exists>p. prepareBranchEntries demo_env [demo_bash, demo_bash] 1 = p \<and> fits_budget demo_env 1 (bprep_messages p)
    \<and> bprep_messages p = [user_text (js ''hi'') 6]"
proof -
  define p where "p = prepareBranchEntries demo_env [demo_bash, demo_bash] 1"
  have "bprep_messages p = [user_text (js ''hi'') 6]"
    by (simp add: p_def prepareBranchEntries_def branch_message_def demo_bash_def user_text_def estimateTokens_def
        estimateTextAndImageContentChars_def block_chars_def ceil_quarter_def is_summary_entry_def entry_type_of_def js_def)
  moreover have "fits_budget demo_env 1 (bprep_messages p)"
    using prepareBranchEntries_budget [OF p_def [symmetric]] by auto
  ultimately show ?thesis using p_def by blast
qed

end
