(* ===== verification/Agent_Effects.thy ===== *)
theory Agent_Effects
  imports Session_Types Js_Text
begin

text \<open>
  What the agent loop does besides computing: it emits events, calls functions of its caller (hooks, tools,
  the model) and watches an abort signal. A run has a state of the world that the caller's functions
  read and change, the events emitted so far, and the signal. A step of the loop is a function on that
  state which returns a value or throws; an exception is its message. The signal is a latch: once the
  world has asked for an abort it stays set.
\<close>

section \<open>Events and results\<close>

record tool_result =
  atr_content :: "user_block list option"
  atr_details :: "js_value option"
  atr_usage :: "usage option"
  atr_addedToolNames :: "ident list option"
  atr_terminate :: "bool option"

datatype agent_event =
    Agent_start
  | Agent_end "agent_message list"
  | Turn_start
  | Turn_end assistant_message "tool_result_message list"
  | Message_start agent_message
  | Message_update agent_message
  | Message_end agent_message
  | Tool_execution_start ident ident js_value
  | Tool_execution_update ident ident js_value tool_result
  | Tool_execution_end ident ident tool_result bool

section \<open>The state of a run\<close>

record 'w run_state =
  world :: 'w
  trace :: "agent_event list"
  signal_aborted :: bool

type_synonym ('w, 'a) callback = "'w \<Rightarrow> (string + 'a) \<times> 'w"
type_synonym ('w, 'a) act = "'w run_state \<Rightarrow> (string + 'a) \<times> 'w run_state"

definition returnA :: "'a \<Rightarrow> ('w, 'a) act" where
  "returnA a s = (Inr a, s)"

definition bindA :: "('w, 'a) act \<Rightarrow> ('a \<Rightarrow> ('w, 'b) act) \<Rightarrow> ('w, 'b) act" where
  "bindA f g s = (case f s of (Inl e, t) \<Rightarrow> (Inl e, t) | (Inr a, t) \<Rightarrow> g a t)"

definition thenA :: "('w, 'a) act \<Rightarrow> ('w, 'b) act \<Rightarrow> ('w, 'b) act" where
  "thenA f g = bindA f (\<lambda>_. g)"

definition throwA :: "string \<Rightarrow> ('w, 'a) act" where
  "throwA e s = (Inl e, s)"

definition tryA :: "('w, 'a) act \<Rightarrow> (string \<Rightarrow> ('w, 'a) act) \<Rightarrow> ('w, 'a) act" where
  "tryA f h s = (case f s of (Inl e, t) \<Rightarrow> h e t | (Inr a, t) \<Rightarrow> (Inr a, t))"

definition liftA :: "string + 'a \<Rightarrow> ('w, 'a) act" where
  "liftA r s = (r, s)"

definition abortedA :: "('w, bool) act" where
  "abortedA s = (Inr (signal_aborted s), s)"

text \<open>A call of a function of the caller. \<open>wants_abort\<close> says whether the world has asked for an abort.\<close>

definition callA :: "('w \<Rightarrow> bool) \<Rightarrow> ('w, 'a) callback \<Rightarrow> ('w, 'a) act" where
  "callA wants_abort cb s =
     (case cb (world s) of (r, w) \<Rightarrow> (r, s\<lparr>world := w, signal_aborted := signal_aborted s \<or> wants_abort w\<rparr>))"

definition emitA :: "('w \<Rightarrow> bool) \<Rightarrow> (agent_event \<Rightarrow> ('w, unit) callback) \<Rightarrow> agent_event \<Rightarrow> ('w, unit) act" where
  "emitA wants_abort sink ev s = callA wants_abort (sink ev) (s\<lparr>trace := trace s @ [ev]\<rparr>)"

fun forA :: "('a \<Rightarrow> ('w, 'b) act) \<Rightarrow> 'a list \<Rightarrow> ('w, 'b list) act" where
  "forA f [] = returnA []"
| "forA f (x # xs) = bindA (f x) (\<lambda>y. bindA (forA f xs) (\<lambda>ys. returnA (y # ys)))"

section \<open>Weakest preconditions\<close>

text \<open>\<open>wp f Q E s\<close>: from \<open>s\<close> the action returns a value and a state that satisfy \<open>Q\<close>, or throws an
  exception in a state that satisfies \<open>E\<close>.\<close>

definition wp ::
    "('w, 'a) act \<Rightarrow> ('a \<Rightarrow> 'w run_state \<Rightarrow> bool) \<Rightarrow> (string \<Rightarrow> 'w run_state \<Rightarrow> bool) \<Rightarrow> 'w run_state \<Rightarrow> bool" where
  "wp f Q E s = (case f s of (Inl e, t) \<Rightarrow> E e t | (Inr a, t) \<Rightarrow> Q a t)"

named_theorems wp_simps

lemma wp_return [wp_simps]: "wp (returnA a) Q E = Q a"
  by (simp add: wp_def returnA_def fun_eq_iff)

lemma wp_bind [wp_simps]: "wp (bindA f g) Q E = wp f (\<lambda>a. wp (g a) Q E) E"
  by (auto simp: wp_def bindA_def fun_eq_iff split: prod.splits sum.splits)

lemma wp_then [wp_simps]: "wp (thenA f g) Q E = wp f (\<lambda>_. wp g Q E) E"
  by (simp add: thenA_def wp_bind)

lemma wp_throw [wp_simps]: "wp (throwA e) Q E = E e"
  by (simp add: wp_def throwA_def fun_eq_iff)

lemma wp_try [wp_simps]: "wp (tryA f h) Q E = wp f Q (\<lambda>e. wp (h e) Q E)"
  by (auto simp: wp_def tryA_def fun_eq_iff split: prod.splits sum.splits)

lemma wp_aborted [wp_simps]: "wp abortedA Q E = (\<lambda>s. Q (signal_aborted s) s)"
  by (simp add: wp_def abortedA_def fun_eq_iff)

lemma wp_lift [wp_simps]: "wp (liftA r) Q E = (case r of Inl e \<Rightarrow> E e | Inr a \<Rightarrow> Q a)"
  by (auto simp: wp_def liftA_def fun_eq_iff split: sum.splits)

lemma wp_mono:
  "wp f Q E s \<Longrightarrow> (\<And>a t. Q a t \<Longrightarrow> Q' a t) \<Longrightarrow> (\<And>e t. E e t \<Longrightarrow> E' e t) \<Longrightarrow> wp f Q' E' s"
  by (auto simp: wp_def split: prod.splits sum.splits)

lemma wp_result: "wp f Q E s \<Longrightarrow> f s = (Inr a, t) \<Longrightarrow> Q a t"
  by (simp add: wp_def)

text \<open>
  What an action does to the events and the signal: it adds events and leaves a set signal set. A
  function of the caller adds none.
\<close>

definition emits :: "agent_event list \<Rightarrow> 'w run_state \<Rightarrow> 'w run_state \<Rightarrow> bool" where
  "emits evs s t \<longleftrightarrow> trace t = trace s @ evs \<and> (signal_aborted s \<longrightarrow> signal_aborted t)"

lemma emits_Nil [simp]: "emits [] s s"
  by (simp add: emits_def)

lemma emits_trans: "emits xs s t \<Longrightarrow> emits ys t u \<Longrightarrow> emits (xs @ ys) s u"
  by (simp add: emits_def)

lemma emits_aborted: "emits xs s t \<Longrightarrow> signal_aborted s \<Longrightarrow> signal_aborted t"
  by (simp add: emits_def)

lemma wp_call:
  "(\<And>a t. emits [] s t \<Longrightarrow> Q a t) \<Longrightarrow> (\<And>e t. emits [] s t \<Longrightarrow> E e t) \<Longrightarrow> wp (callA wa cb) Q E s"
  by (auto simp: wp_def callA_def emits_def split: prod.splits sum.splits)

lemma wp_call_result:
  "(\<And>a t w. cb (world s) = (Inr a, w) \<Longrightarrow> emits [] s t \<Longrightarrow> Q a t) \<Longrightarrow> (\<And>e t. emits [] s t \<Longrightarrow> E e t)
    \<Longrightarrow> wp (callA wa cb) Q E s"
  by (auto simp: wp_def callA_def emits_def split: prod.splits sum.splits)

lemma wp_emit:
  "(\<And>t. emits [ev] s t \<Longrightarrow> Q () t) \<Longrightarrow> (\<And>e t. emits [ev] s t \<Longrightarrow> E e t) \<Longrightarrow> wp (emitA wa sink ev) Q E s"
  by (auto simp: wp_def emitA_def callA_def emits_def split: prod.splits sum.splits)

text \<open>A loop that runs an action for each element of a list.\<close>

lemma wp_for:
  assumes "\<And>x s. x \<in> set xs \<Longrightarrow> wp (f x) (\<lambda>y t. R x y s t) (\<lambda>_ _. True) s"
    and "\<And>s. S [] [] s s"
    and "\<And>x xs y ys s t u. R x y s t \<Longrightarrow> S xs ys t u \<Longrightarrow> S (x # xs) (y # ys) s u"
  shows "wp (forA f xs) (\<lambda>ys t. S xs ys s t) (\<lambda>_ _. True) s"
  using assms(1)
proof (induction xs arbitrary: s)
  case Nil
  then show ?case using assms(2) by (simp add: wp_return)
next
  case (Cons x xs)
  have x: "wp (f x) (\<lambda>y t. R x y s t) (\<lambda>_ _. True) s" using Cons.prems by simp
  have xs: "wp (forA f xs) (\<lambda>ys u. S xs ys t u) (\<lambda>_ _. True) t" for t using Cons.IH Cons.prems by simp
  show ?case unfolding forA.simps wp_bind wp_return
  proof (rule wp_mono [OF x])
    fix y t assume "R x y s t"
    then show "wp (forA f xs) (\<lambda>ys. S (x # xs) (y # ys) s) (\<lambda>_ _. True) t"
      by (intro wp_mono [OF xs]) (auto intro: assms(3))
  qed simp
qed

end
