(* ===== verification/Agent_Loop.thy ===== *)
theory Agent_Loop
  imports Agent_Effects
begin

text \<open>
  The agent loop, \<open>agent/src/agent-loop.ts\<close>: model calls, tool execution one by one or in parallel, steering
  and follow-up messages, events. What the loop calls is part of its configuration: the stream function,
  the tools, the hooks and queues; so are the check of tool arguments against a schema and the event
  sink. Tools that run in parallel are tasks; which task proceeds next is the argument \<open>pick\<close>, so that
  what is proved holds for every interleaving. When a task throws, the exception ends the batch; what the
  other tasks still do after that is not modelled.
\<close>

section \<open>Data\<close>

datatype tool_execution_mode = Sequential | Parallel

text \<open>A tool: \<open>execute\<close> returns the partial results it reported before it settled, and its result or exception.\<close>

record 'w agent_tool =
  tool_name :: ident
  tool_executionMode :: "tool_execution_mode option"
  tool_prepareArguments :: "(js_value \<Rightarrow> string + js_value) option"
  tool_execute :: "ident \<Rightarrow> js_value \<Rightarrow> 'w \<Rightarrow> (tool_result list \<times> (string + tool_result)) \<times> 'w"

record 'w agent_context =
  ac_systemPrompt :: js_string
  ac_messages :: "agent_message list"
  ac_tools :: "'w agent_tool list"

record agent_model =
  md_id :: ident
  md_provider :: ident
  md_api :: ident

record before_tool_call_result =
  br_block :: bool
  br_reason :: "string option"
  br_terminate :: "bool option"

record after_tool_call_result =
  ar_content :: "user_block list option"
  ar_details :: "js_value option"
  ar_isError :: "bool option"
  ar_usage :: "usage option"
  ar_terminate :: "bool option"

record 'w turn_context =
  tctx_message :: assistant_message
  tctx_toolResults :: "tool_result_message list"
  tctx_context :: "'w agent_context"
  tctx_newMessages :: "agent_message list"

record 'w turn_update =
  tu_context :: "'w agent_context option"
  tu_model :: "agent_model option"
  tu_thinkingLevel :: "ident option"

record 'w loop_config =
  cfg_model :: agent_model
  cfg_reasoning :: "ident option"
  cfg_apiKey :: "string option"
  cfg_toolExecution :: "tool_execution_mode option"
  cfg_convertToLlm :: "agent_message list \<Rightarrow> ('w, agent_message list) callback"
  cfg_transformContext :: "(agent_message list \<Rightarrow> ('w, agent_message list) callback) option"
  cfg_getApiKey :: "(ident \<Rightarrow> ('w, string option) callback) option"
  cfg_shouldStopAfterTurn :: "('w turn_context \<Rightarrow> ('w, bool) callback) option"
  cfg_prepareNextTurn :: "('w turn_context \<Rightarrow> ('w, 'w turn_update option) callback) option"
  cfg_getSteeringMessages :: "('w, agent_message list) callback option"
  cfg_getFollowUpMessages :: "('w, agent_message list) callback option"
  cfg_beforeToolCall :: "(assistant_message \<Rightarrow> tool_call \<Rightarrow> js_value \<Rightarrow> 'w agent_context
      \<Rightarrow> ('w, before_tool_call_result option) callback) option"
  cfg_afterToolCall :: "(assistant_message \<Rightarrow> tool_call \<Rightarrow> js_value \<Rightarrow> tool_result \<Rightarrow> bool \<Rightarrow> 'w agent_context
      \<Rightarrow> ('w, after_tool_call_result option) callback) option"

datatype stream_event = Stream_start assistant_message | Stream_update assistant_message | Stream_done

record stream_options =
  so_reasoning :: "ident option"
  so_apiKey :: "string option"
  so_aborted :: bool

record 'w loop_env =
  wants_abort :: "'w \<Rightarrow> bool"
  sink :: "agent_event \<Rightarrow> ('w, unit) callback"
  clock :: "'w \<Rightarrow> nat"
  validateToolArguments :: "'w agent_tool \<Rightarrow> tool_call \<Rightarrow> string + js_value"
  pick :: "nat \<Rightarrow> 'w run_state \<Rightarrow> nat"
  streamFn :: "agent_model \<Rightarrow> 'w agent_context \<Rightarrow> stream_options
      \<Rightarrow> ('w, stream_event list \<times> (string + assistant_message)) callback"

definition emit :: "'w loop_env \<Rightarrow> agent_event \<Rightarrow> ('w, unit) act" where
  "emit env ev = emitA (wants_abort env) (sink env) ev"

definition call :: "'w loop_env \<Rightarrow> ('w, 'a) callback \<Rightarrow> ('w, 'a) act" where
  "call env cb = callA (wants_abort env) cb"

definition nowA :: "'w loop_env \<Rightarrow> ('w, nat) act" where
  "nowA env s = (Inr (clock env (world s)), s)"

section \<open>The response of the model\<close>

text \<open>The loop over the stream's events: partial message, whether it was added, the messages of the context.
  It ends at the first \<open>done\<close> or \<open>error\<close> event or with the stream; what follows is the same.\<close>

fun consume_events ::
    "'w loop_env \<Rightarrow> stream_event list \<Rightarrow> assistant_message option \<Rightarrow> bool \<Rightarrow> agent_message list
      \<Rightarrow> ('w, bool \<times> agent_message list) act" where
  "consume_events env [] partial added ms = returnA (added, ms)"
| "consume_events env (Stream_start p # evs) partial added ms =
     thenA (emit env (Message_start (AssistantMessage p)))
       (consume_events env evs (Some p) True (ms @ [AssistantMessage p]))"
| "consume_events env (Stream_update p # evs) partial added ms =
     (if partial = None then consume_events env evs partial added ms
      else thenA (emit env (Message_update (AssistantMessage p)))
             (consume_events env evs (Some p) added (ms[length ms - 1 := AssistantMessage p])))"
| "consume_events env (Stream_done # evs) partial added ms = returnA (added, ms)"

definition finish_response ::
    "'w loop_env \<Rightarrow> assistant_message \<Rightarrow> bool \<Rightarrow> agent_message list \<Rightarrow> ('w, agent_message list) act" where
  "finish_response env final added ms =
     (if added
      then thenA (emit env (Message_end (AssistantMessage final))) (returnA (ms[length ms - 1 := AssistantMessage final]))
      else thenA (emit env (Message_start (AssistantMessage final)))
             (thenA (emit env (Message_end (AssistantMessage final))) (returnA (ms @ [AssistantMessage final]))))"

definition streamAssistantResponse ::
    "'w loop_env \<Rightarrow> 'w agent_context \<Rightarrow> 'w loop_config \<Rightarrow> ('w, assistant_message \<times> 'w agent_context) act" where
  "streamAssistantResponse env ctx cfg =
     bindA (case cfg_transformContext cfg of None \<Rightarrow> returnA (ac_messages ctx) | Some f \<Rightarrow> call env (f (ac_messages ctx))) (\<lambda>ms.
     bindA (call env (cfg_convertToLlm cfg ms)) (\<lambda>llm.
     bindA (case cfg_getApiKey cfg of None \<Rightarrow> returnA None | Some f \<Rightarrow> call env (f (md_provider (cfg_model cfg)))) (\<lambda>key.
     bindA abortedA (\<lambda>ab.
     bindA (call env (streamFn env (cfg_model cfg) (ctx\<lparr>ac_messages := llm\<rparr>)
         \<lparr>so_reasoning = cfg_reasoning cfg,
          so_apiKey = (case key of None \<Rightarrow> cfg_apiKey cfg | Some k \<Rightarrow> if k = [] then cfg_apiKey cfg else Some k),
          so_aborted = ab\<rparr>)) (\<lambda>(evs, result).
     bindA (consume_events env evs None False (ac_messages ctx)) (\<lambda>(added, ms').
     bindA (liftA result) (\<lambda>final.
     bindA (finish_response env final added ms') (\<lambda>ms''.
     returnA (final, ctx\<lparr>ac_messages := ms''\<rparr>)))))))))"

section \<open>Tool results\<close>

record finalized_call =
  fin_toolCall :: tool_call
  fin_result :: tool_result
  fin_isError :: bool

definition createErrorToolResult :: "string \<Rightarrow> tool_result" where
  "createErrorToolResult message =
     \<lparr>atr_content = Some [UText \<lparr>txt_text = js message, txt_textSignature = None\<rparr>], atr_details = Some (JObject False []),
      atr_usage = None, atr_addedToolNames = None, atr_terminate = None\<rparr>"

definition emitToolExecutionEnd :: "'w loop_env \<Rightarrow> finalized_call \<Rightarrow> ('w, unit) act" where
  "emitToolExecutionEnd env f =
     emit env (Tool_execution_end (tc_id (fin_toolCall f)) (tc_name (fin_toolCall f)) (fin_result f) (fin_isError f))"

definition createToolResultMessage :: "nat \<Rightarrow> finalized_call \<Rightarrow> tool_result_message" where
  "createToolResultMessage now f =
     \<lparr>tr_toolCallId = tc_id (fin_toolCall f), tr_toolName = tc_name (fin_toolCall f),
      tr_content = (case atr_content (fin_result f) of None \<Rightarrow> [] | Some c \<Rightarrow> c),
      tr_details = atr_details (fin_result f), tr_usage = atr_usage (fin_result f),
      tr_addedToolNames = (case atr_addedToolNames (fin_result f) of None \<Rightarrow> None | Some ns \<Rightarrow> if ns = [] then None else Some ns),
      tr_isError = fin_isError f, tr_timestamp = now\<rparr>"

definition emitToolResultMessage :: "'w loop_env \<Rightarrow> tool_result_message \<Rightarrow> ('w, unit) act" where
  "emitToolResultMessage env r =
     thenA (emit env (Message_start (ToolResultMessage r))) (emit env (Message_end (ToolResultMessage r)))"

text \<open>The result message of a finalized call, emitted.\<close>

definition publish_result :: "'w loop_env \<Rightarrow> finalized_call \<Rightarrow> ('w, tool_result_message) act" where
  "publish_result env f =
     bindA (nowA env) (\<lambda>now.
     thenA (emitToolResultMessage env (createToolResultMessage now f)) (returnA (createToolResultMessage now f)))"

definition shouldTerminateToolBatch :: "finalized_call list \<Rightarrow> bool" where
  "shouldTerminateToolBatch fs = (fs \<noteq> [] \<and> list_all (\<lambda>f. atr_terminate (fin_result f) = Some True) fs)"

section \<open>Preparing, executing and finalizing a call\<close>

record 'w prepared_call =
  prep_toolCall :: tool_call
  prep_tool :: "'w agent_tool"
  prep_args :: js_value

datatype 'w preparation = Prepared "'w prepared_call" | Immediate tool_result bool

definition prepareToolCallArguments :: "'w agent_tool \<Rightarrow> tool_call \<Rightarrow> string + tool_call" where
  "prepareToolCallArguments tool c =
     (case tool_prepareArguments tool of
        None \<Rightarrow> Inr c
      | Some f \<Rightarrow> bindR (f (tc_arguments c)) (\<lambda>args. Inr (c\<lparr>tc_arguments := args\<rparr>)))"

definition aborted_outcome :: "'w preparation" where
  "aborted_outcome = Immediate (createErrorToolResult ''Operation aborted'') True"

definition blocked_outcome :: "before_tool_call_result \<Rightarrow> 'w preparation" where
  "blocked_outcome b =
     (let r = createErrorToolResult (case br_reason b of None \<Rightarrow> ''Tool execution was blocked''
            | Some t \<Rightarrow> if t = [] then ''Tool execution was blocked'' else t)
      in Immediate (if br_terminate b = Some True then r\<lparr>atr_terminate := Some True\<rparr> else r) True)"

text \<open>What the hook before a call decides: nothing, or the outcome of the call.\<close>

definition before_hook ::
    "'w loop_env \<Rightarrow> 'w agent_context \<Rightarrow> assistant_message \<Rightarrow> tool_call \<Rightarrow> js_value \<Rightarrow> 'w loop_config
      \<Rightarrow> ('w, 'w preparation option) act" where
  "before_hook env ctx am c args cfg =
     (case cfg_beforeToolCall cfg of
        None \<Rightarrow> returnA None
      | Some f \<Rightarrow>
          bindA (call env (f am c args ctx)) (\<lambda>b.
          bindA abortedA (\<lambda>ab.
          returnA (if ab then Some aborted_outcome
                   else case b of None \<Rightarrow> None | Some r \<Rightarrow> if br_block r then Some (blocked_outcome r) else None))))"

definition prepareToolCall ::
    "'w loop_env \<Rightarrow> 'w agent_context \<Rightarrow> assistant_message \<Rightarrow> tool_call \<Rightarrow> 'w loop_config \<Rightarrow> ('w, 'w preparation) act" where
  "prepareToolCall env ctx am c cfg =
     (case find (\<lambda>t. tool_name t = tc_name c) (ac_tools ctx) of
        None \<Rightarrow> returnA (Immediate (createErrorToolResult (''Tool '' @ tc_name c @ '' not found'')) True)
      | Some tool \<Rightarrow>
          tryA
            (bindA (liftA (bindR (prepareToolCallArguments tool c) (validateToolArguments env tool))) (\<lambda>args.
             bindA (before_hook env ctx am c args cfg) (\<lambda>outcome.
             case outcome of
               Some p \<Rightarrow> returnA p
             | None \<Rightarrow>
                 bindA abortedA (\<lambda>ab.
                 returnA (if ab then aborted_outcome
                          else Prepared \<lparr>prep_toolCall = c, prep_tool = tool, prep_args = args\<rparr>)))))
            (\<lambda>e. returnA (Immediate (createErrorToolResult e) True)))"

text \<open>The updates are emitted without waiting for one another; the first that is rejected is thrown when all
  are awaited.\<close>

fun emit_updates :: "'w loop_env \<Rightarrow> agent_event list \<Rightarrow> string option \<Rightarrow> ('w, unit) act" where
  "emit_updates env [] failure = (case failure of None \<Rightarrow> returnA () | Some e \<Rightarrow> throwA e)"
| "emit_updates env (ev # evs) failure =
     bindA (tryA (thenA (emit env ev) (returnA failure)) (\<lambda>e. returnA (case failure of None \<Rightarrow> Some e | Some x \<Rightarrow> Some x)))
       (\<lambda>failure'. emit_updates env evs failure')"

definition executePreparedToolCall :: "'w loop_env \<Rightarrow> 'w prepared_call \<Rightarrow> ('w, tool_result \<times> bool) act" where
  "executePreparedToolCall env p =
     bindA (call env (\<lambda>w. case tool_execute (prep_tool p) (tc_id (prep_toolCall p)) (prep_args p) w of (r, w') \<Rightarrow> (Inr r, w')))
       (\<lambda>(updates, r).
     thenA (emit_updates env (map (Tool_execution_update (tc_id (prep_toolCall p)) (tc_name (prep_toolCall p))
              (tc_arguments (prep_toolCall p))) updates) None)
       (returnA (case r of Inr res \<Rightarrow> (res, False) | Inl e \<Rightarrow> (createErrorToolResult e, True))))"

definition override_result :: "tool_result \<Rightarrow> after_tool_call_result \<Rightarrow> tool_result" where
  "override_result r a =
     r\<lparr>atr_content := (case ar_content a of None \<Rightarrow> atr_content r | Some c \<Rightarrow> Some c),
       atr_details := (case ar_details a of None \<Rightarrow> atr_details r
          | Some d \<Rightarrow> if d = JNull \<or> d = JUndefined then atr_details r else Some d),
       atr_usage := (case ar_usage a of None \<Rightarrow> atr_usage r | Some u \<Rightarrow> Some u),
       atr_terminate := (case ar_terminate a of None \<Rightarrow> atr_terminate r | Some b \<Rightarrow> Some b)\<rparr>"

definition finalizeExecutedToolCall ::
    "'w loop_env \<Rightarrow> 'w agent_context \<Rightarrow> assistant_message \<Rightarrow> 'w prepared_call \<Rightarrow> tool_result \<times> bool \<Rightarrow> 'w loop_config
      \<Rightarrow> ('w, finalized_call) act" where
  "finalizeExecutedToolCall env ctx am p executed cfg =
     bindA (case cfg_afterToolCall cfg of
              None \<Rightarrow> returnA executed
            | Some f \<Rightarrow>
                tryA (bindA (call env (f am (prep_toolCall p) (prep_args p) (fst executed) (snd executed) ctx)) (\<lambda>after.
                      returnA (case after of
                          None \<Rightarrow> executed
                        | Some a \<Rightarrow> (override_result (fst executed) a,
                                     case ar_isError a of None \<Rightarrow> snd executed | Some b \<Rightarrow> b))))
                     (\<lambda>e. returnA (createErrorToolResult e, True)))
       (\<lambda>(r, isErr). returnA \<lparr>fin_toolCall = prep_toolCall p, fin_result = r, fin_isError = isErr\<rparr>)"

section \<open>Batches of calls\<close>

record tool_batch_result =
  tb_messages :: "tool_result_message list"
  tb_terminate :: bool

definition tool_calls_of :: "assistant_message \<Rightarrow> tool_call list" where
  "tool_calls_of am = List.map_filter (\<lambda>b. case b of AToolCall c \<Rightarrow> Some c | _ \<Rightarrow> None) (am_content am)"

definition start_event :: "tool_call \<Rightarrow> agent_event" where
  "start_event c = Tool_execution_start (tc_id c) (tc_name c) (tc_arguments c)"

definition fail_truncated :: "'w loop_env \<Rightarrow> tool_call \<Rightarrow> ('w, tool_result_message) act" where
  "fail_truncated env c =
     thenA (emit env (start_event c))
       (let f = \<lparr>fin_toolCall = c,
                 fin_result = createErrorToolResult (''Tool call \"'' @ tc_name c @ ''\" was not executed: the response hit the output token limit, so its arguments may be truncated. Re-issue the tool call with complete arguments.''),
                 fin_isError = True\<rparr>
        in thenA (emitToolExecutionEnd env f) (publish_result env f))"

definition failToolCallsFromTruncatedMessage :: "'w loop_env \<Rightarrow> tool_call list \<Rightarrow> ('w, tool_batch_result) act" where
  "failToolCallsFromTruncatedMessage env calls =
     bindA (forA (fail_truncated env) calls) (\<lambda>ms. returnA \<lparr>tb_messages = ms, tb_terminate = False\<rparr>)"

text \<open>One call from its start to its end event, without the result message.\<close>

definition run_call ::
    "'w loop_env \<Rightarrow> 'w agent_context \<Rightarrow> assistant_message \<Rightarrow> 'w loop_config \<Rightarrow> tool_call \<Rightarrow> ('w, finalized_call) act" where
  "run_call env ctx am cfg c =
     thenA (emit env (start_event c))
     (bindA (prepareToolCall env ctx am c cfg) (\<lambda>preparation.
      bindA (case preparation of
               Immediate r isErr \<Rightarrow> returnA \<lparr>fin_toolCall = c, fin_result = r, fin_isError = isErr\<rparr>
             | Prepared p \<Rightarrow>
                 bindA (executePreparedToolCall env p) (\<lambda>executed. finalizeExecutedToolCall env ctx am p executed cfg)) (\<lambda>f.
      thenA (emitToolExecutionEnd env f) (returnA f))))"

fun sequential_calls ::
    "'w loop_env \<Rightarrow> 'w agent_context \<Rightarrow> assistant_message \<Rightarrow> 'w loop_config \<Rightarrow> tool_call list
      \<Rightarrow> ('w, (finalized_call \<times> tool_result_message) list) act" where
  "sequential_calls env ctx am cfg [] = returnA []"
| "sequential_calls env ctx am cfg (c # cs) =
     bindA (run_call env ctx am cfg c) (\<lambda>f.
     bindA (publish_result env f) (\<lambda>m.
     bindA abortedA (\<lambda>ab.
     if ab then returnA [(f, m)]
     else bindA (sequential_calls env ctx am cfg cs) (\<lambda>rest. returnA ((f, m) # rest)))))"

definition executeToolCallsSequential ::
    "'w loop_env \<Rightarrow> 'w agent_context \<Rightarrow> assistant_message \<Rightarrow> tool_call list \<Rightarrow> 'w loop_config \<Rightarrow> ('w, tool_batch_result) act" where
  "executeToolCallsSequential env ctx am calls cfg =
     bindA (sequential_calls env ctx am cfg calls) (\<lambda>fms.
     returnA \<lparr>tb_messages = map snd fms, tb_terminate = shouldTerminateToolBatch (map fst fms)\<rparr>)"

text \<open>A call of a parallel batch: waiting for its turn, running, executed, or finished.\<close>

datatype 'w task =
    Queued "'w prepared_call"
  | Running "'w prepared_call"
  | Executed "'w prepared_call" "tool_result \<times> bool"
  | Finished finalized_call

fun actions_left :: "'w task \<Rightarrow> nat" where
  "actions_left (Queued p) = 3"
| "actions_left (Running p) = 2"
| "actions_left (Executed p r) = 1"
| "actions_left (Finished f) = 0"

fun advance ::
    "'w loop_env \<Rightarrow> 'w agent_context \<Rightarrow> assistant_message \<Rightarrow> 'w loop_config \<Rightarrow> 'w task \<Rightarrow> ('w, 'w task) act" where
  "advance env ctx am cfg (Queued p) =
     bindA abortedA (\<lambda>ab.
     if ab then
       (let f = \<lparr>fin_toolCall = prep_toolCall p, fin_result = createErrorToolResult ''Operation aborted'', fin_isError = True\<rparr>
        in thenA (emitToolExecutionEnd env f) (returnA (Finished f)))
     else returnA (Running p))"
| "advance env ctx am cfg (Running p) =
     bindA (executePreparedToolCall env p) (\<lambda>executed. returnA (Executed p executed))"
| "advance env ctx am cfg (Executed p executed) =
     bindA (finalizeExecutedToolCall env ctx am p executed cfg) (\<lambda>f.
     thenA (emitToolExecutionEnd env f) (returnA (Finished f)))"
| "advance env ctx am cfg (Finished f) = returnA (Finished f)"

text \<open>The calls are prepared in order; the loop stops when the signal is set.\<close>

fun prepare_tasks ::
    "'w loop_env \<Rightarrow> 'w agent_context \<Rightarrow> assistant_message \<Rightarrow> 'w loop_config \<Rightarrow> tool_call list \<Rightarrow> ('w, 'w task list) act" where
  "prepare_tasks env ctx am cfg [] = returnA []"
| "prepare_tasks env ctx am cfg (c # cs) =
     thenA (emit env (start_event c))
     (bindA (prepareToolCall env ctx am c cfg) (\<lambda>preparation.
      bindA (case preparation of
               Immediate r isErr \<Rightarrow>
                 (let f = \<lparr>fin_toolCall = c, fin_result = r, fin_isError = isErr\<rparr>
                  in thenA (emitToolExecutionEnd env f) (returnA (Finished f)))
             | Prepared p \<Rightarrow> returnA (Queued p)) (\<lambda>task.
      bindA abortedA (\<lambda>ab.
      if ab then returnA [task]
      else bindA (prepare_tasks env ctx am cfg cs) (\<lambda>tasks. returnA (task # tasks))))))"

definition unfinished :: "'w task list \<Rightarrow> nat list" where
  "unfinished ts = filter (\<lambda>i. actions_left (ts ! i) > 0) [0..<length ts]"

definition work_left :: "'w task list \<Rightarrow> nat" where
  "work_left ts = sum_list (map actions_left ts)"

definition next_task :: "'w loop_env \<Rightarrow> 'w task list \<Rightarrow> 'w run_state \<Rightarrow> nat" where
  "next_task env ts s = unfinished ts ! (pick env (work_left ts) s mod length (unfinished ts))"

lemma wp_emit_any:
  "(\<And>t. Q () t) \<Longrightarrow> (\<And>e t. E e t) \<Longrightarrow> wp (emit env ev) Q E s"
  by (simp add: emit_def wp_emit)

lemma advance_decreases:
  assumes "advance env ctx am cfg task s = (Inr task', t)" and "0 < actions_left task"
  shows "actions_left task' < actions_left task"
proof -
  have "wp (advance env ctx am cfg task) (\<lambda>task' t. actions_left task' < actions_left task) (\<lambda>_ _. True) s"
    using assms(2) by (cases task)
      (auto simp: wp_simps Let_def emitToolExecutionEnd_def wp_def [of "executePreparedToolCall env _"]
        wp_def [of "finalizeExecutedToolCall env ctx am _ _ cfg"] intro!: wp_emit_any split: prod.split sum.split)
  then show ?thesis using assms(1) by (rule wp_result)
qed

lemma unfinished_iff: "i \<in> set (unfinished ts) \<longleftrightarrow> i < length ts \<and> 0 < actions_left (ts ! i)"
  by (auto simp: unfinished_def)

lemma next_task_unfinished:
  "unfinished ts \<noteq> [] \<Longrightarrow> next_task env ts s < length ts \<and> 0 < actions_left (ts ! next_task env ts s)"
  using nth_mem [of "pick env (work_left ts) s mod length (unfinished ts)" "unfinished ts"]
  by (simp add: next_task_def unfinished_iff [symmetric])

lemma next_task_left: "unfinished ts \<noteq> [] \<Longrightarrow> actions_left (ts ! next_task env ts s) \<noteq> 0"
  using next_task_unfinished [of ts env s] by simp

lemma work_left_update:
  assumes "i < length ts" and "actions_left task < actions_left (ts ! i)"
  shows "work_left (ts[i := task]) < work_left ts"
proof -
  have eq: "ts = take i ts @ ts ! i # drop (Suc i) ts" using assms(1) by (rule id_take_nth_drop)
  have "ts[i := task] = take i ts @ task # drop (Suc i) ts" using assms(1) by (rule upd_conv_take_nth_drop)
  moreover have "work_left ts = work_left (take i ts) + actions_left (ts ! i) + work_left (drop (Suc i) ts)"
    by (subst eq) (simp add: work_left_def)
  ultimately show ?thesis using assms(2) by (simp add: work_left_def)
qed

function run_tasks ::
    "'w loop_env \<Rightarrow> 'w agent_context \<Rightarrow> assistant_message \<Rightarrow> 'w loop_config \<Rightarrow> 'w task list \<Rightarrow> ('w, 'w task list) act" where
  "run_tasks env ctx am cfg ts s =
     (if unfinished ts = [] then (Inr ts, s)
      else case advance env ctx am cfg (ts ! next_task env ts s) s of
             (Inl e, t) \<Rightarrow> (Inl e, t)
           | (Inr task, t) \<Rightarrow> run_tasks env ctx am cfg (ts[next_task env ts s := task]) t)"
  by pat_completeness auto
termination
  by (relation "measure (\<lambda>(env, ctx, am, cfg, ts, s). work_left ts)")
    (auto simp: next_task_unfinished dest: next_task_left intro!: work_left_update dest!: advance_decreases [OF sym])

definition finished_call :: "'w task \<Rightarrow> finalized_call list" where
  "finished_call task = (case task of Finished f \<Rightarrow> [f] | _ \<Rightarrow> [])"

definition executeToolCallsParallel ::
    "'w loop_env \<Rightarrow> 'w agent_context \<Rightarrow> assistant_message \<Rightarrow> tool_call list \<Rightarrow> 'w loop_config \<Rightarrow> ('w, tool_batch_result) act" where
  "executeToolCallsParallel env ctx am calls cfg =
     bindA (prepare_tasks env ctx am cfg calls) (\<lambda>tasks.
     bindA (run_tasks env ctx am cfg tasks) (\<lambda>tasks'.
     let ordered = concat (map finished_call tasks')
     in bindA (forA (publish_result env) ordered) (\<lambda>ms.
        returnA \<lparr>tb_messages = ms, tb_terminate = shouldTerminateToolBatch ordered\<rparr>)))"

definition executeToolCalls ::
    "'w loop_env \<Rightarrow> 'w agent_context \<Rightarrow> assistant_message \<Rightarrow> 'w loop_config \<Rightarrow> ('w, tool_batch_result) act" where
  "executeToolCalls env ctx am cfg =
     (let calls = tool_calls_of am;
          hasSequential = list_ex (\<lambda>c. case find (\<lambda>t. tool_name t = tc_name c) (ac_tools ctx) of
              None \<Rightarrow> False | Some t \<Rightarrow> tool_executionMode t = Some Sequential) calls
      in if cfg_toolExecution cfg = Some Sequential \<or> hasSequential
         then executeToolCallsSequential env ctx am calls cfg
         else executeToolCallsParallel env ctx am calls cfg)"

section \<open>The loop\<close>

record 'w loop_state =
  ls_context :: "'w agent_context"
  ls_config :: "'w loop_config"
  ls_lastTurn :: "'w turn_context option"
  ls_pending :: "agent_message list"
  ls_newMessages :: "agent_message list"
  ls_moreToolCalls :: bool

definition poll_steering :: "'w loop_env \<Rightarrow> 'w loop_config \<Rightarrow> ('w, agent_message list) act" where
  "poll_steering env cfg = (case cfg_getSteeringMessages cfg of None \<Rightarrow> returnA [] | Some f \<Rightarrow> call env f)"

definition poll_follow_up :: "'w loop_env \<Rightarrow> 'w loop_config \<Rightarrow> ('w, agent_message list) act" where
  "poll_follow_up env cfg = (case cfg_getFollowUpMessages cfg of None \<Rightarrow> returnA [] | Some f \<Rightarrow> call env f)"

definition update_turn :: "'w turn_update \<Rightarrow> 'w loop_state \<Rightarrow> 'w loop_state" where
  "update_turn u ls =
     ls\<lparr>ls_context := (case tu_context u of None \<Rightarrow> ls_context ls | Some c \<Rightarrow> c),
        ls_config := (ls_config ls)\<lparr>
          cfg_model := (case tu_model u of None \<Rightarrow> cfg_model (ls_config ls) | Some m \<Rightarrow> m),
          cfg_reasoning := (case tu_thinkingLevel u of
             None \<Rightarrow> cfg_reasoning (ls_config ls) | Some l \<Rightarrow> if l = ''off'' then None else Some l)\<rparr>\<rparr>"

definition prepare_turn :: "'w loop_env \<Rightarrow> 'w loop_state \<Rightarrow> ('w, 'w loop_state) act" where
  "prepare_turn env ls =
     (case ls_lastTurn ls of
        None \<Rightarrow> returnA ls
      | Some lastTurn \<Rightarrow>
          bindA (case cfg_prepareNextTurn (ls_config ls) of None \<Rightarrow> returnA None | Some f \<Rightarrow> call env (f lastTurn)) (\<lambda>u.
          let ls1 = (case u of None \<Rightarrow> ls | Some v \<Rightarrow> update_turn v ls)
          in bindA (if ls_pending ls1 = [] then poll_steering env (ls_config ls1) else returnA (ls_pending ls1)) (\<lambda>ps.
             thenA (emit env Turn_start) (returnA (ls1\<lparr>ls_pending := ps\<rparr>)))))"

definition announce_message :: "'w loop_env \<Rightarrow> agent_message \<Rightarrow> ('w, unit) act" where
  "announce_message env m = thenA (emit env (Message_start m)) (emit env (Message_end m))"

definition inject_pending :: "'w loop_env \<Rightarrow> 'w loop_state \<Rightarrow> ('w, 'w loop_state) act" where
  "inject_pending env ls =
     thenA (forA (announce_message env) (ls_pending ls))
       (returnA (ls\<lparr>ls_context := (ls_context ls)\<lparr>ac_messages := ac_messages (ls_context ls) @ ls_pending ls\<rparr>,
                   ls_newMessages := ls_newMessages ls @ ls_pending ls, ls_pending := []\<rparr>))"

definition run_batch :: "'w loop_env \<Rightarrow> 'w agent_context \<Rightarrow> assistant_message \<Rightarrow> 'w loop_config \<Rightarrow> ('w, tool_batch_result) act" where
  "run_batch env ctx am cfg =
     (if tool_calls_of am = [] then returnA \<lparr>tb_messages = [], tb_terminate = True\<rparr>
      else if am_stopReason am = Length_stop then failToolCallsFromTruncatedMessage env (tool_calls_of am)
      else executeToolCalls env ctx am cfg)"

text \<open>After the response: the tool calls, the end of the turn, and whether to stop. The value is whether
  the run is over, and the new state.\<close>

definition complete_turn ::
    "'w loop_env \<Rightarrow> 'w loop_state \<Rightarrow> assistant_message \<Rightarrow> ('w, bool \<times> 'w loop_state) act" where
  "complete_turn env ls message =
     bindA (run_batch env (ls_context ls) message (ls_config ls)) (\<lambda>batch.
     let results = map ToolResultMessage (tb_messages batch);
         ctx = (ls_context ls)\<lparr>ac_messages := ac_messages (ls_context ls) @ results\<rparr>;
         new = ls_newMessages ls @ results;
         lastTurn = \<lparr>tctx_message = message, tctx_toolResults = tb_messages batch, tctx_context = ctx, tctx_newMessages = new\<rparr>;
         ls1 = ls\<lparr>ls_context := ctx, ls_newMessages := new, ls_moreToolCalls := \<not> tb_terminate batch, ls_lastTurn := Some lastTurn\<rparr>
     in thenA (emit env (Turn_end message (tb_messages batch)))
        (bindA (case cfg_shouldStopAfterTurn (ls_config ls) of None \<Rightarrow> returnA False | Some f \<Rightarrow> call env (f lastTurn)) (\<lambda>stop.
         if stop then thenA (emit env (Agent_end new)) (returnA (True, ls1))
         else bindA (poll_steering env (ls_config ls)) (\<lambda>ps. returnA (False, ls1\<lparr>ls_pending := ps\<rparr>)))))"

definition run_turn :: "'w loop_env \<Rightarrow> 'w loop_state \<Rightarrow> ('w, bool \<times> 'w loop_state) act" where
  "run_turn env ls0 =
     bindA (prepare_turn env ls0) (\<lambda>ls1.
     bindA (inject_pending env ls1) (\<lambda>ls2.
     bindA (streamAssistantResponse env (ls_context ls2) (ls_config ls2)) (\<lambda>(message, ctx).
     let ls3 = ls2\<lparr>ls_context := ctx, ls_newMessages := ls_newMessages ls2 @ [AssistantMessage message]\<rparr>
     in if am_stopReason message = Error_stop \<or> am_stopReason message = Aborted
        then thenA (emit env (Turn_end message [])) (thenA (emit env (Agent_end (ls_newMessages ls3))) (returnA (True, ls3)))
        else complete_turn env ls3 message)))"

text \<open>Both loops of the source: turns as long as there are tool calls or pending messages, then the follow-up
  messages. The value \<open>None\<close> would be a run that does not end.\<close>

definition finish_run :: "'w loop_env \<Rightarrow> 'w loop_state \<Rightarrow> ('w, agent_message list) act" where
  "finish_run env ls = thenA (emit env (Agent_end (ls_newMessages ls))) (returnA (ls_newMessages ls))"

partial_function (option) run_loop ::
    "'w loop_env \<Rightarrow> 'w loop_state \<Rightarrow> 'w run_state \<Rightarrow> ((string + agent_message list) \<times> 'w run_state) option" where
  "run_loop env ls s =
     (if ls_moreToolCalls ls \<or> ls_pending ls \<noteq> [] then
        (case run_turn env ls s of
           (Inl e, t) \<Rightarrow> Some (Inl e, t)
         | (Inr (over, ls'), t) \<Rightarrow> if over then Some (Inr (ls_newMessages ls'), t) else run_loop env ls' t)
      else
        (case poll_follow_up env (ls_config ls) s of
           (Inl e, t) \<Rightarrow> Some (Inl e, t)
         | (Inr ms, t) \<Rightarrow>
             if ms = [] then Some (finish_run env ls t)
             else run_loop env (ls\<lparr>ls_pending := ms, ls_moreToolCalls := True\<rparr>) t))"

definition runLoop ::
    "'w loop_env \<Rightarrow> 'w agent_context \<Rightarrow> agent_message list \<Rightarrow> 'w loop_config \<Rightarrow> 'w run_state
      \<Rightarrow> ((string + agent_message list) \<times> 'w run_state) option" where
  "runLoop env ctx new cfg s =
     (case poll_steering env cfg s of
        (Inl e, t) \<Rightarrow> Some (Inl e, t)
      | (Inr ps, t) \<Rightarrow>
          run_loop env \<lparr>ls_context = ctx, ls_config = cfg, ls_lastTurn = None, ls_pending = ps, ls_newMessages = new,
                        ls_moreToolCalls = True\<rparr> t)"

definition runAgentLoop ::
    "'w loop_env \<Rightarrow> agent_message list \<Rightarrow> 'w agent_context \<Rightarrow> 'w loop_config \<Rightarrow> 'w run_state
      \<Rightarrow> ((string + agent_message list) \<times> 'w run_state) option" where
  "runAgentLoop env prompts ctx cfg s =
     (case thenA (emit env Agent_start) (thenA (emit env Turn_start) (forA (announce_message env) prompts)) s of
        (Inl e, t) \<Rightarrow> Some (Inl e, t)
      | (Inr _, t) \<Rightarrow> runLoop env (ctx\<lparr>ac_messages := ac_messages ctx @ prompts\<rparr>) prompts cfg t)"

definition runAgentLoopContinue ::
    "'w loop_env \<Rightarrow> 'w agent_context \<Rightarrow> 'w loop_config \<Rightarrow> 'w run_state
      \<Rightarrow> ((string + agent_message list) \<times> 'w run_state) option" where
  "runAgentLoopContinue env ctx cfg s =
     (if ac_messages ctx = [] then Some (Inl ''Cannot continue: no messages in context'', s)
      else case last (ac_messages ctx) of
             AssistantMessage _ \<Rightarrow> Some (Inl ''Cannot continue from message role: assistant'', s)
           | _ \<Rightarrow>
               (case thenA (emit env Agent_start) (emit env Turn_start) s of
                  (Inl e, t) \<Rightarrow> Some (Inl e, t)
                | (Inr _, t) \<Rightarrow> runLoop env ctx [] cfg t))"

section \<open>What a run reports\<close>

text \<open>The messages that have ended, the turns that are open, and the results that answer calls.\<close>

definition ended :: "agent_event list \<Rightarrow> agent_message list" where
  "ended evs = List.map_filter (\<lambda>ev. case ev of Message_end m \<Rightarrow> Some m | _ \<Rightarrow> None) evs"

fun turn_weight :: "agent_event \<Rightarrow> int" where
  "turn_weight Turn_start = 1"
| "turn_weight (Turn_end _ _) = -1"
| "turn_weight _ = 0"

definition open_turns :: "agent_event list \<Rightarrow> int" where
  "open_turns evs = sum_list (map turn_weight evs)"

definition answers :: "tool_call \<Rightarrow> tool_result_message \<Rightarrow> bool" where
  "answers c r \<longleftrightarrow> tr_toolCallId r = tc_id c \<and> tr_toolName r = tc_name c"

definition answered :: "bool \<Rightarrow> tool_call list \<Rightarrow> tool_result_message list \<Rightarrow> bool" where
  "answered ab calls rs \<longleftrightarrow>
     list_all2 answers (take (length rs) calls) rs \<and> (length rs = length calls \<or> ab)"

fun turn_ok :: "bool \<Rightarrow> agent_event \<Rightarrow> bool" where
  "turn_ok ab (Turn_end am rs) =
     (if am_stopReason am = Error_stop \<or> am_stopReason am = Aborted then rs = [] else answered ab (tool_calls_of am) rs)"
| "turn_ok ab _ = True"

definition progress :: "agent_message list \<Rightarrow> int \<Rightarrow> 'w run_state \<Rightarrow> 'w run_state \<Rightarrow> bool" where
  "progress ms b s t \<longleftrightarrow>
     (\<exists>evs. emits evs s t \<and> ended evs = ms \<and> open_turns evs = b \<and> (\<forall>ev\<in>set evs. turn_ok (signal_aborted t) ev))"

lemma ended_simps [simp]: "ended [] = []" "ended (xs @ ys) = ended xs @ ended ys"
  "ended (Message_end m # evs) = m # ended evs"
  "(\<And>m. ev \<noteq> Message_end m) \<Longrightarrow> ended (ev # evs) = ended evs"
  by (auto simp: ended_def List.map_filter_def split: agent_event.splits)

lemma open_turns_simps [simp]: "open_turns [] = 0" "open_turns (xs @ ys) = open_turns xs + open_turns ys"
  "open_turns (ev # evs) = turn_weight ev + open_turns evs"
  by (simp_all add: open_turns_def)

lemma answered_mono: "answered ab calls rs \<Longrightarrow> (ab \<Longrightarrow> ab') \<Longrightarrow> answered ab' calls rs"
  by (auto simp: answered_def)

lemma turn_ok_mono: "turn_ok ab ev \<Longrightarrow> (ab \<Longrightarrow> ab') \<Longrightarrow> turn_ok ab' ev"
  by (cases ev) (auto intro: answered_mono)

lemma progress_trans:
  assumes "progress xs a s t" and "progress ys b t u"
  shows "progress (xs @ ys) (a + b) s u"
proof -
  from assms(1) obtain es where e: "emits es s t" "ended es = xs" "open_turns es = a" "\<forall>ev\<in>set es. turn_ok (signal_aborted t) ev"
    unfolding progress_def by blast
  from assms(2) obtain fs where f: "emits fs t u" "ended fs = ys" "open_turns fs = b" "\<forall>ev\<in>set fs. turn_ok (signal_aborted u) ev"
    unfolding progress_def by blast
  have "\<forall>ev\<in>set es. turn_ok (signal_aborted u) ev" using e(4) turn_ok_mono emits_aborted [OF f(1)] by blast
  then show ?thesis unfolding progress_def
    using e f emits_trans [OF e(1) f(1)] by (intro exI [of _ "es @ fs"]) auto
qed

lemma progress_refl [simp]: "progress [] 0 s s"
  unfolding progress_def by (rule exI [of _ "[]"]) simp

lemma progress_quiet: "emits [] s t \<Longrightarrow> progress [] 0 s t"
  unfolding progress_def by (rule exI [of _ "[]"]) simp

lemma progress_event: "emits [ev] s t \<Longrightarrow> turn_ok (signal_aborted t) ev \<Longrightarrow> progress (ended [ev]) (turn_weight ev) s t"
  unfolding progress_def by (rule exI [of _ "[ev]"]) simp

lemma progress_aborted: "progress ms b s t \<Longrightarrow> signal_aborted s \<Longrightarrow> signal_aborted t"
  by (auto simp: progress_def emits_def)

lemma progress_quiet_trans [trans]: "progress [] 0 s t \<Longrightarrow> progress ms b t u \<Longrightarrow> progress ms b s u"
  using progress_trans [of "[]" 0 s t ms b u] by simp

lemma progress_trans_quiet: "progress ms b s t \<Longrightarrow> progress [] 0 t u \<Longrightarrow> progress ms b s u"
  using progress_trans [of ms b s t "[]" 0 u] by simp

lemma progress_step: "progress xs a s t \<Longrightarrow> progress ys b t u \<Longrightarrow> zs = xs @ ys \<Longrightarrow> c = a + b \<Longrightarrow> progress zs c s u"
  using progress_trans by blast

text \<open>Rules for the calls and the events of the loop. What is needed of the exceptions inside a \<open>try\<close> is
  that they add nothing to the report.\<close>

lemma wp_call':
  "(\<And>a t. progress [] 0 s t \<Longrightarrow> Q a t) \<Longrightarrow> (\<And>e t. progress [] 0 s t \<Longrightarrow> E e t) \<Longrightarrow> wp (call env cb) Q E s"
  unfolding call_def by (rule wp_call) (simp_all add: progress_quiet)

lemma wp_emit':
  assumes "\<And>ab. turn_ok ab ev" and "\<And>t. progress (ended [ev]) (turn_weight ev) s t \<Longrightarrow> Q () t"
    and "\<And>e t. progress (ended [ev]) (turn_weight ev) s t \<Longrightarrow> E e t"
  shows "wp (emit env ev) Q E s"
  unfolding emit_def by (rule wp_emit) (simp_all add: assms progress_event)

lemma wp_now [wp_simps]: "wp (nowA env) Q E = (\<lambda>s. Q (clock env (world s)) s)"
  by (simp add: wp_def nowA_def fun_eq_iff)

lemma wp_announce:
  assumes "\<And>t. progress [m] 0 s t \<Longrightarrow> Q () t"
  shows "wp (announce_message env m) Q (\<lambda>_ _. True) s"
proof -
  have "wp (emit env (Message_end m)) Q (\<lambda>_ _. True) t" if "progress [] 0 s t" for t
    by (rule wp_emit') (auto intro!: assms progress_quiet_trans [OF that])
  note last = this
  show ?thesis unfolding announce_message_def wp_then by (rule wp_emit') (simp_all add: last)
qed

lemma wp_announce_all:
  assumes "\<And>t. progress ms 0 s t \<Longrightarrow> Q () t"
  shows "wp (thenA (forA (announce_message env) ms) (returnA ())) Q (\<lambda>_ _. True) s"
proof -
  have "wp (forA (announce_message env) ms) (\<lambda>_ t. progress ms 0 s t) (\<lambda>_ _. True) s"
    by (rule wp_for [where R = "\<lambda>m _ s t. progress [m] 0 s t" and S = "\<lambda>ms _ s t. progress ms 0 s t"])
      (auto intro: wp_announce progress_step)
  then show ?thesis unfolding wp_then wp_return by (rule wp_mono) (simp_all add: assms)
qed

section \<open>One call\<close>

lemma wp_tool_end:
  assumes "\<And>t. progress [] 0 s t \<Longrightarrow> Q () t"
  shows "wp (emitToolExecutionEnd env f) Q (\<lambda>_ _. True) s"
  unfolding emitToolExecutionEnd_def by (rule wp_emit') (simp_all add: assms)

lemma wp_publish:
  assumes "\<And>r t. progress [ToolResultMessage r] 0 s t \<Longrightarrow> answers (fin_toolCall f) r \<Longrightarrow> Q r t"
  shows "wp (publish_result env f) Q (\<lambda>_ _. True) s"
proof -
  have eq: "emitToolResultMessage env r = announce_message env (ToolResultMessage r)" for r
    by (simp add: emitToolResultMessage_def announce_message_def)
  show ?thesis unfolding publish_result_def wp_bind wp_now wp_then wp_return eq
    by (rule wp_announce) (auto intro!: assms simp: answers_def createToolResultMessage_def)
qed

definition preparation_of :: "tool_call \<Rightarrow> 'w preparation \<Rightarrow> bool" where
  "preparation_of c p = (case p of Prepared q \<Rightarrow> prep_toolCall q = c | Immediate _ _ \<Rightarrow> True)"

lemma preparation_of_simps [simp]: "preparation_of c (Immediate r e)" "preparation_of c aborted_outcome"
  "preparation_of c (blocked_outcome b)" "preparation_of c (Prepared q) \<longleftrightarrow> prep_toolCall q = c"
  by (simp_all add: preparation_of_def aborted_outcome_def blocked_outcome_def Let_def)

lemma wp_before_hook:
  assumes "\<And>p t. progress [] 0 s t \<Longrightarrow> (\<And>q. p = Some q \<Longrightarrow> preparation_of c q) \<Longrightarrow> Q p t" and "\<And>e t. progress [] 0 s t \<Longrightarrow> E e t"
  shows "wp (before_hook env ctx am c args cfg) Q E s"
proof (cases "cfg_beforeToolCall cfg")
  case None
  then show ?thesis by (auto simp: before_hook_def wp_return intro!: assms)
next
  case (Some f)
  show ?thesis unfolding before_hook_def Some option.case wp_bind wp_aborted wp_return
    by (rule wp_call') (auto intro!: assms split: option.splits if_splits)
qed

text \<open>The preparation of a call never throws.\<close>

lemma wp_prepare:
  assumes "\<And>p t. progress [] 0 s t \<Longrightarrow> preparation_of c p \<Longrightarrow> Q p t"
  shows "wp (prepareToolCall env ctx am c cfg) Q E s"
proof (cases "find (\<lambda>t. tool_name t = tc_name c) (ac_tools ctx)")
  case None
  then show ?thesis by (simp add: prepareToolCall_def wp_return assms)
next
  case (Some tool)
  show ?thesis
  proof (cases "bindR (prepareToolCallArguments tool c) (validateToolArguments env tool)")
    case (Inl e)
    then show ?thesis unfolding prepareToolCall_def Some option.case by (simp add: wp_simps assms)
  next
    case (Inr args)
    show ?thesis unfolding prepareToolCall_def Some option.case Inr
      unfolding wp_try wp_bind wp_lift sum.case
      by (rule wp_before_hook [of _ c]) (auto simp: wp_simps intro!: assms split: option.splits)
  qed
qed

definition no_report :: "agent_event \<Rightarrow> bool" where
  "no_report ev \<longleftrightarrow> ended [ev] = [] \<and> turn_weight ev = 0 \<and> (\<forall>ab. turn_ok ab ev)"

lemma wp_updates:
  assumes "\<forall>ev\<in>set evs. no_report ev" and "\<And>t. progress [] 0 s t \<Longrightarrow> Q () t"
  shows "wp (emit_updates env evs failure) Q (\<lambda>_ _. True) s"
  using assms
proof (induction evs arbitrary: s failure)
  case Nil
  then show ?case by (auto simp: wp_simps split: option.splits)
next
  case (Cons ev evs)
  then have ev: "ended [ev] = []" "turn_weight ev = 0" "\<And>ab. turn_ok ab ev" by (auto simp: no_report_def)
  have rest: "wp (emit_updates env evs failure') Q (\<lambda>_ _. True) t" if "progress [] 0 s t" for failure' t
    by (rule Cons.IH) (use Cons.prems progress_quiet_trans [OF that] in auto)
  show ?case unfolding emit_updates.simps wp_simps by (rule wp_emit') (simp_all add: ev rest)
qed

lemma wp_execute:
  assumes "\<And>r t. progress [] 0 s t \<Longrightarrow> Q r t"
  shows "wp (executePreparedToolCall env p) Q (\<lambda>_ _. True) s"
proof -
  have upd: "wp (emit_updates env (map (Tool_execution_update i n args) us) None) (\<lambda>_. Q r) (\<lambda>_ _. True) t"
    if "progress [] 0 s t" for i n args us r t
    by (rule wp_updates) (use assms progress_quiet_trans [OF that] in \<open>auto simp: no_report_def\<close>)
  show ?thesis unfolding executePreparedToolCall_def wp_bind
    by (rule wp_call') (simp_all add: wp_simps upd split: prod.splits)
qed

lemma wp_finalize:
  assumes "\<And>f t. progress [] 0 s t \<Longrightarrow> fin_toolCall f = prep_toolCall p \<Longrightarrow> Q f t"
  shows "wp (finalizeExecutedToolCall env ctx am p executed cfg) Q E s"
proof (cases "cfg_afterToolCall cfg")
  case None
  then show ?thesis unfolding finalizeExecutedToolCall_def
    by (auto simp: wp_simps intro!: assms split: prod.splits)
next
  case (Some f)
  show ?thesis unfolding finalizeExecutedToolCall_def Some option.case wp_bind wp_try wp_return
    by (rule wp_call') (auto intro!: assms split: prod.splits option.splits simp: wp_return)
qed

section \<open>A batch\<close>

lemma wp_start:
  assumes "\<And>t. progress [] 0 s t \<Longrightarrow> Q () t"
  shows "wp (emit env (start_event c)) Q (\<lambda>_ _. True) s"
  by (rule wp_emit') (simp_all add: start_event_def assms)

lemma wp_run_call:
  assumes "\<And>f t. progress [] 0 s t \<Longrightarrow> fin_toolCall f = c \<Longrightarrow> Q f t"
  shows "wp (run_call env ctx am cfg c) Q (\<lambda>_ _. True) s"
proof -
  have fin: "wp (emitToolExecutionEnd env f) (\<lambda>_. Q f) (\<lambda>_ _. True) t" if "progress [] 0 s t" "fin_toolCall f = c" for f t
    by (rule wp_tool_end) (rule assms [OF progress_quiet_trans [OF that(1)] that(2)])
  have exec: "wp (executePreparedToolCall env p) (\<lambda>executed. wp (finalizeExecutedToolCall env ctx am p executed cfg)
      (\<lambda>f. wp (emitToolExecutionEnd env f) (\<lambda>_. Q f) (\<lambda>_ _. True)) (\<lambda>_ _. True)) (\<lambda>_ _. True) t"
    if t: "progress [] 0 s t" "prep_toolCall p = c" for p t
    by (rule wp_execute, rule wp_finalize, rule fin)
      (auto simp: t(2) intro: progress_quiet_trans [OF progress_quiet_trans [OF t(1)]])
  have "wp (prepareToolCall env ctx am c cfg) (\<lambda>preparation. wp (case preparation of
               Prepared p \<Rightarrow> bindA (executePreparedToolCall env p) (\<lambda>executed. finalizeExecutedToolCall env ctx am p executed cfg)
             | Immediate r isErr \<Rightarrow> returnA \<lparr>fin_toolCall = c, fin_result = r, fin_isError = isErr\<rparr>)
      (\<lambda>f. wp (emitToolExecutionEnd env f) (\<lambda>_. Q f) (\<lambda>_ _. True)) (\<lambda>_ _. True)) (\<lambda>_ _. True) t" if t: "progress [] 0 s t" for t
    by (rule wp_prepare)
      (auto simp: wp_simps preparation_of_def intro!: exec fin progress_quiet_trans [OF t] split: preparation.splits)
  then show ?thesis unfolding run_call_def wp_then wp_bind [of "prepareToolCall env ctx am c cfg"] wp_bind [of "case_preparation _ _ _"]
      wp_return by (intro wp_start)
qed

definition results :: "tool_result_message list \<Rightarrow> agent_message list" where
  "results rs = map ToolResultMessage rs"

lemma results_simps [simp]: "results [] = []" "results (r # rs) = ToolResultMessage r # results rs"
  by (simp_all add: results_def)

lemma answered_simps [simp]:
  "answered ab [] []" "answered ab (c # cs) (r # rs) \<longleftrightarrow> answers c r \<and> answered ab cs rs"
  by (auto simp: answered_def)

lemma answered_one: "answers c r \<Longrightarrow> answered True (c # cs) [r]"
  by (simp add: answered_def)

lemma wp_sequential:
  assumes "\<And>fms t. progress (results (map snd fms)) 0 s t \<Longrightarrow> answered (signal_aborted t) calls (map snd fms) \<Longrightarrow> Q fms t"
  shows "wp (sequential_calls env ctx am cfg calls) Q (\<lambda>_ _. True) s"
  using assms
proof (induction calls arbitrary: s Q)
  case Nil
  then show ?case using Nil [of "[]" s] by (simp add: wp_return)
next
  case (Cons c cs)
  show ?case unfolding sequential_calls.simps wp_bind [of "run_call env ctx am cfg c"] wp_bind [of "publish_result env _"]
    wp_bind [of abortedA] wp_aborted
  proof (rule wp_run_call, rule wp_publish)
    fix f :: finalized_call and t r u
    assume f: "progress [] 0 s t" "fin_toolCall f = c" and r: "progress [ToolResultMessage r] 0 t u" "answers (fin_toolCall f) r"
    have u: "progress [ToolResultMessage r] 0 s u" by (rule progress_quiet_trans [OF f(1) r(1)])
    have "wp (sequential_calls env ctx am cfg cs) (\<lambda>rest. wp (returnA ((f, r) # rest)) Q (\<lambda>_ _. True)) (\<lambda>_ _. True) u"
      by (rule Cons.IH) (use Cons.prems [of "(f, r) # _"] progress_step [OF u] r(2) f(2) in \<open>auto simp: wp_return\<close>)
    moreover have "Q [(f, r)] u" if "signal_aborted u"
      by (rule Cons.prems) (use u that r(2) f(2) answered_one in auto)
    ultimately show "wp (if signal_aborted u then returnA [(f, r)]
        else bindA (sequential_calls env ctx am cfg cs) (\<lambda>rest. returnA ((f, r) # rest))) Q (\<lambda>_ _. True) u"
      by (simp add: wp_simps)
  qed
qed

fun call_of :: "'w task \<Rightarrow> tool_call" where
  "call_of (Queued p) = prep_toolCall p"
| "call_of (Running p) = prep_toolCall p"
| "call_of (Executed p r) = prep_toolCall p"
| "call_of (Finished f) = fin_toolCall f"

definition started :: "bool \<Rightarrow> tool_call list \<Rightarrow> 'w task list \<Rightarrow> bool" where
  "started ab calls ts \<longleftrightarrow> map call_of ts = take (length ts) calls \<and> (length ts = length calls \<or> ab)"

lemma started_mono: "started ab calls ts \<Longrightarrow> (ab \<Longrightarrow> ab') \<Longrightarrow> started ab' calls ts"
  by (auto simp: started_def)

lemma wp_prepare_tasks:
  assumes "\<And>ts t. progress [] 0 s t \<Longrightarrow> started (signal_aborted t) calls ts \<Longrightarrow> Q ts t"
  shows "wp (prepare_tasks env ctx am cfg calls) Q (\<lambda>_ _. True) s"
  using assms
proof (induction calls arbitrary: s Q)
  case Nil
  then show ?case using Nil [of s "[]"] by (simp add: wp_return started_def)
next
  case (Cons c cs)
  define rest where "rest task = bindA abortedA (\<lambda>ab. if ab then returnA [task]
      else bindA (prepare_tasks env ctx am cfg cs) (\<lambda>tasks. returnA (task # tasks)))" for task
  have rest: "wp (rest task) Q (\<lambda>_ _. True) t" if "progress [] 0 s t" "call_of task = c" for task t
  proof (cases "signal_aborted t")
    case True
    then show ?thesis unfolding rest_def using Cons.prems [OF that(1), of "[task]"] that(2) by (simp add: wp_simps started_def)
  next
    case False
    have "wp (prepare_tasks env ctx am cfg cs) (\<lambda>tasks. Q (task # tasks)) (\<lambda>_ _. True) t"
      by (rule Cons.IH, rule Cons.prems) (use that progress_quiet_trans [OF that(1)] in \<open>auto simp: started_def\<close>)
    then show ?thesis unfolding rest_def using False by (simp add: wp_simps)
  qed
  have immediate: "wp (emitToolExecutionEnd env f) (\<lambda>_. wp (rest (Finished f)) Q (\<lambda>_ _. True)) (\<lambda>_ _. True) t"
    if "progress [] 0 s t" "fin_toolCall f = c" for f t
    by (rule wp_tool_end, rule rest) (use that progress_quiet_trans [OF that(1)] in auto)
  have "wp (prepareToolCall env ctx am c cfg) (\<lambda>preparation. wp (case preparation of
               Prepared p \<Rightarrow> returnA (Queued p)
             | Immediate r isErr \<Rightarrow>
                 (let f = \<lparr>fin_toolCall = c, fin_result = r, fin_isError = isErr\<rparr>
                  in thenA (emitToolExecutionEnd env f) (returnA (Finished f))))
      (\<lambda>task. wp (rest task) Q (\<lambda>_ _. True)) (\<lambda>_ _. True)) (\<lambda>_ _. True) t" if t: "progress [] 0 s t" for t
    by (rule wp_prepare)
      (auto simp: wp_simps Let_def preparation_of_def intro!: rest immediate progress_quiet_trans [OF t] split: preparation.splits)
  then show ?case unfolding prepare_tasks.simps wp_then [of "emit env (start_event c)"]
      wp_bind [of "prepareToolCall env ctx am c cfg"] wp_bind [of "case_preparation _ _ _"] rest_def [symmetric]
    by (intro wp_start)
qed

lemma wp_advance:
  assumes "\<And>task' t. progress [] 0 s t \<Longrightarrow> call_of task' = call_of task \<Longrightarrow> Q task' t"
  shows "wp (advance env ctx am cfg task) Q (\<lambda>_ _. True) s"
proof (cases task)
  case (Queued p)
  let ?f = "\<lparr>fin_toolCall = prep_toolCall p, fin_result = createErrorToolResult ''Operation aborted'', fin_isError = True\<rparr>"
  have "wp (emitToolExecutionEnd env ?f) (\<lambda>_. Q (Finished ?f)) (\<lambda>_ _. True) s"
    by (rule wp_tool_end, rule assms) (simp_all add: Queued)
  then show ?thesis using assms [of s "Running p"] Queued by (simp add: wp_simps Let_def)
next
  case (Running p)
  then show ?thesis by (auto simp: wp_simps intro!: wp_execute assms)
next
  case (Executed p r)
  have fin: "wp (emitToolExecutionEnd env f) (\<lambda>_. Q (Finished f)) (\<lambda>_ _. True) t"
    if "progress [] 0 s t" "fin_toolCall f = prep_toolCall p" for f t
    by (rule wp_tool_end, rule assms) (use that progress_quiet_trans [OF that(1)] in \<open>auto simp: Executed\<close>)
  show ?thesis unfolding Executed advance.simps wp_simps by (rule wp_finalize) (rule fin)
next
  case (Finished f)
  then show ?thesis using assms [of s task] by (simp add: wp_return)
qed

text \<open>Whatever task is picked, the tasks keep their calls and their order, and in the end all are finished.\<close>

lemma wp_run_tasks:
  assumes "\<And>ts' t. progress [] 0 s t \<Longrightarrow> map call_of ts' = map call_of ts \<Longrightarrow> unfinished ts' = [] \<Longrightarrow> Q ts' t"
  shows "wp (run_tasks env ctx am cfg ts) Q (\<lambda>_ _. True) s"
  using assms
proof (induction env ctx am cfg ts s rule: run_tasks.induct)
  case (1 env ctx am cfg ts s)
  show ?case
  proof (cases "unfinished ts = []")
    case True
    then show ?thesis using "1.prems" [of s ts] by (simp add: wp_def run_tasks.simps [of env ctx am cfg ts s])
  next
    case False
    let ?i = "next_task env ts s"
    have i: "?i < length ts" using next_task_unfinished [OF False] by blast
    have adv: "wp (advance env ctx am cfg (ts ! ?i)) (\<lambda>task t. progress [] 0 s t \<and> call_of task = call_of (ts ! ?i)) (\<lambda>_ _. True) s"
      by (rule wp_advance) simp
    show ?thesis
    proof (cases "advance env ctx am cfg (ts ! ?i) s")
      case (Pair r t)
      show ?thesis
      proof (cases r)
        case (Inl e)
        then show ?thesis using False Pair by (simp add: wp_def run_tasks.simps [of env ctx am cfg ts s])
      next
        case (Inr task)
        with Pair adv have t: "progress [] 0 s t" "call_of task = call_of (ts ! ?i)" by (simp_all add: wp_def)
        have keep: "map call_of (ts[?i := task]) = map call_of ts" using t(2) i list_update_id [of "map call_of ts" ?i] by (simp add: map_update)
        have "wp (run_tasks env ctx am cfg (ts[?i := task])) Q (\<lambda>_ _. True) t"
          by (rule "1.IH" [OF False Pair [symmetric] Inr], rule "1.prems")
            (use keep progress_quiet_trans [OF t(1)] in auto)
        then show ?thesis using False Pair Inr by (simp add: wp_def run_tasks.simps [of env ctx am cfg ts s])
      qed
    qed
  qed
qed

lemma finished_calls:
  assumes "unfinished ts = []"
  shows "map fin_toolCall (concat (map finished_call ts)) = map call_of ts"
proof -
  have "\<forall>task\<in>set ts. actions_left task = 0"
    using assms by (auto simp: unfinished_def filter_empty_conv in_set_conv_nth)
  then show ?thesis by (induction ts) (auto simp: finished_call_def split: task.splits)
qed

lemma wp_publish_all:
  assumes "\<And>rs t. progress (results rs) 0 s t \<Longrightarrow> list_all2 answers (map fin_toolCall fs) rs \<Longrightarrow> Q rs t"
  shows "wp (forA (publish_result env) fs) Q (\<lambda>_ _. True) s"
proof -
  have "wp (forA (publish_result env) fs) (\<lambda>rs t. progress (results rs) 0 s t \<and> list_all2 answers (map fin_toolCall fs) rs) (\<lambda>_ _. True) s"
    by (rule wp_for [where R = "\<lambda>f r s t. progress [ToolResultMessage r] 0 s t \<and> answers (fin_toolCall f) r"
          and S = "\<lambda>fs rs s t. progress (results rs) 0 s t \<and> list_all2 answers (map fin_toolCall fs) rs"])
      (auto intro: wp_publish progress_step)
  then show ?thesis by (rule wp_mono) (auto intro: assms)
qed

lemma started_answered:
  assumes "started ab calls ts" and "map call_of ts' = map call_of ts" and "list_all2 answers (map call_of ts') rs"
  shows "answered ab calls rs"
proof -
  have "length rs = length ts" using list_all2_lengthD [OF assms(3)] arg_cong [OF assms(2), of length] by simp
  then show ?thesis using assms by (simp add: started_def answered_def)
qed

lemma wp_parallel:
  assumes "\<And>b t. progress (results (tb_messages b)) 0 s t \<Longrightarrow> answered (signal_aborted t) calls (tb_messages b) \<Longrightarrow> Q b t"
  shows "wp (executeToolCallsParallel env ctx am calls cfg) Q (\<lambda>_ _. True) s"
  unfolding executeToolCallsParallel_def wp_bind [of "prepare_tasks env ctx am cfg calls"] wp_bind [of "run_tasks env ctx am cfg _"]
    Let_def wp_bind [of "forA _ _"] wp_return
proof (rule wp_prepare_tasks, rule wp_run_tasks, rule wp_publish_all, rule assms)
  fix ts t ts' u rs v
  assume t: "progress [] 0 s t" "started (signal_aborted t) calls ts"
    and u: "progress [] 0 t u" "map call_of ts' = map call_of ts" "unfinished ts' = []"
    and v: "progress (results rs) 0 u v" "list_all2 answers (map fin_toolCall (concat (map finished_call ts'))) rs"
  show "progress (results (tb_messages \<lparr>tb_messages = rs, tb_terminate = shouldTerminateToolBatch (concat (map finished_call ts'))\<rparr>)) 0 s v"
    using progress_quiet_trans [OF t(1) progress_quiet_trans [OF u(1) v(1)]] by simp
  have "started (signal_aborted v) calls ts"
    using t(2) by (rule started_mono) (use progress_aborted [OF u(1)] progress_aborted [OF v(1)] in blast)
  then show "answered (signal_aborted v) calls
      (tb_messages \<lparr>tb_messages = rs, tb_terminate = shouldTerminateToolBatch (concat (map finished_call ts'))\<rparr>)"
    using started_answered [OF _ u(2)] v(2) unfolding finished_calls [OF u(3)] by simp
qed

lemma wp_truncated:
  assumes "\<And>rs t. progress (results rs) 0 s t \<Longrightarrow> list_all2 answers calls rs \<Longrightarrow> Q rs t"
  shows "wp (forA (fail_truncated env) calls) Q (\<lambda>_ _. True) s"
proof -
  have one: "wp (fail_truncated env c) (\<lambda>r t. progress [ToolResultMessage r] 0 s t \<and> answers c r) (\<lambda>_ _. True) s" for c s
    unfolding fail_truncated_def Let_def wp_then
    by (rule wp_start, rule wp_tool_end, rule wp_publish)
      (auto intro: progress_quiet_trans [OF progress_quiet_trans])
  have "wp (forA (fail_truncated env) calls) (\<lambda>rs t. progress (results rs) 0 s t \<and> list_all2 answers calls rs) (\<lambda>_ _. True) s"
    by (rule wp_for [where R = "\<lambda>c r s t. progress [ToolResultMessage r] 0 s t \<and> answers c r"
          and S = "\<lambda>cs rs s t. progress (results rs) 0 s t \<and> list_all2 answers cs rs"])
      (auto intro: one progress_step)
  then show ?thesis by (rule wp_mono) (auto intro: assms)
qed

lemma wp_batch:
  assumes "\<And>b t. progress (results (tb_messages b)) 0 s t \<Longrightarrow> answered (signal_aborted t) (tool_calls_of am) (tb_messages b) \<Longrightarrow> Q b t"
  shows "wp (run_batch env ctx am cfg) Q (\<lambda>_ _. True) s"
proof -
  have empty: "wp (returnA \<lparr>tb_messages = [], tb_terminate = True\<rparr>) Q (\<lambda>_ _. True) s" if "tool_calls_of am = []"
    unfolding wp_return by (rule assms) (simp_all add: that)
  have trunc: "wp (failToolCallsFromTruncatedMessage env (tool_calls_of am)) Q (\<lambda>_ _. True) s"
    unfolding failToolCallsFromTruncatedMessage_def wp_bind wp_return
    by (rule wp_truncated, rule assms) (simp_all add: answered_def list_all2_lengthD [symmetric])
  have seq: "wp (executeToolCallsSequential env ctx am (tool_calls_of am) cfg) Q (\<lambda>_ _. True) s"
    unfolding executeToolCallsSequential_def wp_bind wp_return by (rule wp_sequential, rule assms) simp_all
  have par: "wp (executeToolCallsParallel env ctx am (tool_calls_of am) cfg) Q (\<lambda>_ _. True) s"
    by (rule wp_parallel) (rule assms)
  show ?thesis using empty trunc seq par
    by (simp add: run_batch_def executeToolCalls_def Let_def)
qed

section \<open>A turn and a run\<close>

lemma wp_consume:
  assumes "\<And>r t. progress [] 0 s t \<Longrightarrow> Q r t"
  shows "wp (consume_events env evs partial added ms) Q (\<lambda>_ _. True) s"
  using assms
proof (induction env evs partial added ms arbitrary: s rule: consume_events.induct)
  case (2 env p evs partial added ms)
  show ?case unfolding consume_events.simps wp_then
    by (rule wp_emit') (auto intro!: "2.IH" "2.prems" intro: progress_quiet_trans)
next
  case (3 env p evs partial added ms)
  have "wp (emit env (Message_update (AssistantMessage p))) (\<lambda>_. wp (consume_events env evs (Some p) added (ms[length ms - 1 := AssistantMessage p])) Q (\<lambda>_ _. True)) (\<lambda>_ _. True) s"
    if "partial \<noteq> None"
    by (rule wp_emit', simp, rule "3.IH"(2) [OF that], rule "3.prems") (auto intro: progress_quiet_trans)
  then show ?case using "3.IH"(1) "3.prems" by (simp add: wp_then)
qed (simp_all add: wp_return)

lemma wp_finish:
  assumes "\<And>r t. progress [AssistantMessage final] 0 s t \<Longrightarrow> Q r t"
  shows "wp (finish_response env final added ms) Q (\<lambda>_ _. True) s"
proof -
  have "wp (emit env (Message_end (AssistantMessage final))) (\<lambda>_. Q r) (\<lambda>_ _. True) s" for r
    by (rule wp_emit') (simp_all add: assms)
  moreover have "wp (announce_message env (AssistantMessage final)) (\<lambda>_. Q r) (\<lambda>_ _. True) s" for r
    by (rule wp_announce) (rule assms)
  ultimately show ?thesis by (simp add: finish_response_def announce_message_def wp_simps)
qed

lemma wp_response:
  assumes "\<And>m ctx' t. progress [AssistantMessage m] 0 s t \<Longrightarrow> Q (m, ctx') t"
  shows "wp (streamAssistantResponse env ctx cfg) Q (\<lambda>_ _. True) s"
proof -
  have final: "wp (bindA (liftA result) (\<lambda>final. bindA (finish_response env final added ms) (\<lambda>ms''. returnA (final, ctx\<lparr>ac_messages := ms''\<rparr>))))
      Q (\<lambda>_ _. True) t" if "progress [] 0 s t" for result added ms t
    by (cases result) (auto simp: wp_simps intro!: wp_finish assms progress_quiet_trans [OF that])
  have events: "wp (consume_events env evs None False (ac_messages ctx)) (\<lambda>(added, ms').
      wp (bindA (liftA result) (\<lambda>final. bindA (finish_response env final added ms') (\<lambda>ms''. returnA (final, ctx\<lparr>ac_messages := ms''\<rparr>))))
      Q (\<lambda>_ _. True)) (\<lambda>_ _. True) t" if "progress [] 0 s t" for evs result t
    by (rule wp_consume) (auto intro!: final progress_quiet_trans [OF that])
  have opt: "wp (case f of None \<Rightarrow> returnA x | Some g \<Rightarrow> call env (g y)) R (\<lambda>_ _. True) t"
    if "\<And>a u. progress [] 0 t u \<Longrightarrow> R a u" for f :: "('b \<Rightarrow> ('a, 'c) callback) option" and x y R t
    using that by (cases f) (auto simp: wp_return intro: wp_call')
  show ?thesis unfolding streamAssistantResponse_def wp_bind [of "case_option _ _ _"] wp_bind [of "call env _"] wp_bind [of abortedA]
      wp_aborted case_prod_unfold
    by (rule opt, rule wp_call', rule opt, rule wp_call')
      (auto simp: wp_bind [of "consume_events _ _ _ _ _"] case_prod_unfold
        intro!: events [unfolded case_prod_unfold] intro: progress_quiet_trans [OF progress_quiet_trans [OF progress_quiet_trans [OF progress_quiet_trans]]])
qed

text \<open>What a run adds from a state of the loop on: new messages, which are those that have ended, and turns
  that are closed; the first turn was opened before the loop.\<close>

definition first_turn :: "'w loop_state \<Rightarrow> int" where
  "first_turn ls = (case ls_lastTurn ls of None \<Rightarrow> 1 | Some _ \<Rightarrow> 0)"

lemma wp_opt_call:
  assumes "\<And>a t. progress [] 0 s t \<Longrightarrow> Q a t"
  shows "wp (case f of None \<Rightarrow> returnA x | Some g \<Rightarrow> call env (h g)) Q (\<lambda>_ _. True) s"
  using assms by (cases f) (auto simp: wp_return intro: wp_call')

lemma wp_steering:
  assumes "\<And>a t. progress [] 0 s t \<Longrightarrow> Q a t"
  shows "wp (poll_steering env cfg) Q (\<lambda>_ _. True) s"
  unfolding poll_steering_def by (rule wp_opt_call) (rule assms)

lemma wp_prepare_turn:
  assumes "\<And>ls' t. progress [] (1 - first_turn ls) s t \<Longrightarrow> ls_newMessages ls' = ls_newMessages ls \<Longrightarrow> Q ls' t"
  shows "wp (prepare_turn env ls) Q (\<lambda>_ _. True) s"
proof (cases "ls_lastTurn ls")
  case None
  then show ?thesis using assms [of s ls] by (simp add: prepare_turn_def wp_return first_turn_def)
next
  case (Some lastTurn)
  have start: "wp (emit env Turn_start) (\<lambda>_. Q ls') (\<lambda>_ _. True) t"
    if "progress [] 0 s t" "ls_newMessages ls' = ls_newMessages ls" for ls' t
    by (rule wp_emit', simp, rule assms) (use that progress_quiet_trans [OF that(1)] Some in \<open>auto simp: first_turn_def\<close>)
  have poll: "wp (if ls_pending ls1 = [] then poll_steering env (ls_config ls1) else returnA (ls_pending ls1))
      (\<lambda>ps. wp (thenA (emit env Turn_start) (returnA (ls1\<lparr>ls_pending := ps\<rparr>))) Q (\<lambda>_ _. True)) (\<lambda>_ _. True) t"
    if "progress [] 0 s t" "ls_newMessages ls1 = ls_newMessages ls" for ls1 t
    using that by (auto simp: wp_simps intro!: wp_steering start intro: progress_quiet_trans)
  show ?thesis unfolding prepare_turn_def Some option.case wp_bind [of "case_option _ _ _"] Let_def wp_bind [of "if _ then _ else _"]
    by (rule wp_opt_call, rule poll) (auto simp: update_turn_def split: option.splits)
qed

lemma wp_inject:
  assumes "\<And>ls' t. progress (ls_pending ls) 0 s t \<Longrightarrow> ls_newMessages ls' = ls_newMessages ls @ ls_pending ls \<Longrightarrow> Q ls' t"
  shows "wp (inject_pending env ls) Q (\<lambda>_ _. True) s"
proof -
  have "wp (forA (announce_message env) (ls_pending ls)) (\<lambda>_ t. progress (ls_pending ls) 0 s t) (\<lambda>_ _. True) s"
    using wp_announce_all [of "ls_pending ls" s "\<lambda>_ t. progress (ls_pending ls) 0 s t" env] by (simp add: wp_simps)
  then show ?thesis unfolding inject_pending_def wp_then wp_return by (rule wp_mono) (auto intro!: assms)
qed

lemma wp_emit_last:
  assumes "turn_ok (signal_aborted s) ev"
    and "\<And>t. progress (ended [ev]) (turn_weight ev) s t \<Longrightarrow> last (trace t) = ev \<Longrightarrow> Q () t"
  shows "wp (emit env ev) Q (\<lambda>_ _. True) s"
  unfolding emit_def
proof (rule wp_emit)
  fix t assume t: "emits [ev] s t"
  then have "turn_ok (signal_aborted t) ev" using turn_ok_mono [OF assms(1)] emits_aborted [OF t] by blast
  then show "Q () t" using progress_event [OF t] t by (intro assms(2)) (auto simp: emits_def)
qed simp

lemma wp_complete:
  assumes ok: "am_stopReason message \<noteq> Error_stop" "am_stopReason message \<noteq> Aborted"
    and more: "\<And>ls' rs t. progress (results rs) (-1) s t \<Longrightarrow> ls_newMessages ls' = ls_newMessages ls @ results rs
      \<Longrightarrow> ls_lastTurn ls' \<noteq> None \<Longrightarrow> Q (False, ls') t"
    and over: "\<And>ls' rs t. progress (results rs) (-1) s t \<Longrightarrow> ls_newMessages ls' = ls_newMessages ls @ results rs
      \<Longrightarrow> last (trace t) = Agent_end (ls_newMessages ls') \<Longrightarrow> Q (True, ls') t"
  shows "wp (complete_turn env ls message) Q (\<lambda>_ _. True) s"
proof -
  have after: "wp (bindA (case f of None \<Rightarrow> returnA False | Some g \<Rightarrow> call env (g lt)) (\<lambda>stop.
         if stop then thenA (emit env (Agent_end (ls_newMessages lsx))) (returnA (True, lsx))
         else bindA (poll_steering env (ls_config ls)) (\<lambda>ps. returnA (False, lsx\<lparr>ls_pending := ps\<rparr>)))) Q (\<lambda>_ _. True) t"
    if t: "progress (results rs) (-1) s t" and ls1: "ls_newMessages lsx = ls_newMessages ls @ results rs" "ls_lastTurn lsx \<noteq> None"
    for f lt lsx rs t
  proof -
    have stop: "wp (emit env (Agent_end (ls_newMessages lsx))) (\<lambda>_. Q (True, lsx)) (\<lambda>_ _. True) u" if "progress [] 0 t u" for u
      by (rule wp_emit_last, simp, rule over [where rs = rs])
        (use progress_trans_quiet [OF progress_trans_quiet [OF t that]] ls1 in auto)
    have go: "wp (poll_steering env (ls_config ls)) (\<lambda>ps. Q (False, lsx\<lparr>ls_pending := ps\<rparr>)) (\<lambda>_ _. True) u" if "progress [] 0 t u" for u
      by (rule wp_steering, rule more [where rs = rs])
        (use progress_trans_quiet [OF progress_trans_quiet [OF t that]] ls1 in auto)
    show ?thesis unfolding wp_bind [of "case_option _ _ _"]
      by (rule wp_opt_call) (auto simp: wp_simps intro: stop go)
  qed
  show ?thesis unfolding complete_turn_def wp_bind [of "run_batch _ _ _ _"] Let_def wp_then [of "emit env (Turn_end _ _)"]
  proof (rule wp_batch, rule wp_emit_last)
    fix b t
    assume b: "progress (results (tb_messages b)) 0 s t" "answered (signal_aborted t) (tool_calls_of message) (tb_messages b)"
    then show "turn_ok (signal_aborted t) (Turn_end message (tb_messages b))" using ok by simp
    fix u
    let ?rs = "map ToolResultMessage (tb_messages b)"
    let ?ctx = "(ls_context ls)\<lparr>ac_messages := ac_messages (ls_context ls) @ ?rs\<rparr>"
    let ?lt = "\<lparr>tctx_message = message, tctx_toolResults = tb_messages b, tctx_context = ?ctx, tctx_newMessages = ls_newMessages ls @ ?rs\<rparr>"
    let ?ls1 = "ls\<lparr>ls_context := ?ctx, ls_newMessages := ls_newMessages ls @ ?rs, ls_moreToolCalls := \<not> tb_terminate b, ls_lastTurn := Some ?lt\<rparr>"
    assume "progress (ended [Turn_end message (tb_messages b)]) (turn_weight (Turn_end message (tb_messages b))) t u"
    then have su: "progress (results (tb_messages b)) (-1) s u" using progress_trans [OF b(1)] by fastforce
    have "wp (bindA (case cfg_shouldStopAfterTurn (ls_config ls) of None \<Rightarrow> returnA False | Some f \<Rightarrow> call env (f ?lt)) (\<lambda>stop.
         if stop then thenA (emit env (Agent_end (ls_newMessages ?ls1))) (returnA (True, ?ls1))
         else bindA (poll_steering env (ls_config ls)) (\<lambda>ps. returnA (False, ?ls1\<lparr>ls_pending := ps\<rparr>)))) Q (\<lambda>_ _. True) u"
      by (rule after [OF su]) (simp_all add: results_def)
    then show "wp (bindA (case cfg_shouldStopAfterTurn (ls_config ls) of None \<Rightarrow> returnA False | Some f \<Rightarrow> call env (f ?lt)) (\<lambda>stop.
         if stop then thenA (emit env (Agent_end (ls_newMessages ls @ ?rs))) (returnA (True, ?ls1))
         else bindA (poll_steering env (ls_config ls)) (\<lambda>ps. returnA (False, ?ls1\<lparr>ls_pending := ps\<rparr>)))) Q (\<lambda>_ _. True) u"
      by (simp cong: if_cong)
  qed
qed

lemma wp_turn:
  fixes env :: "'w loop_env" and ls :: "'w loop_state"
  assumes more: "\<And>ls' ms t. progress ms (- first_turn ls) s t \<Longrightarrow> ls_newMessages ls' = ls_newMessages ls @ ms
      \<Longrightarrow> ls_lastTurn ls' \<noteq> None \<Longrightarrow> Q (False, ls') t"
    and over: "\<And>ls' ms t. progress ms (- first_turn ls) s t \<Longrightarrow> ls_newMessages ls' = ls_newMessages ls @ ms
      \<Longrightarrow> last (trace t) = Agent_end (ls_newMessages ls') \<Longrightarrow> Q (True, ls') t"
  shows "wp (run_turn env ls) Q (\<lambda>_ _. True) s"
  unfolding run_turn_def wp_bind [of "prepare_turn env ls"] wp_bind [of "inject_pending env _"]
    wp_bind [of "streamAssistantResponse env _ _"]
proof (rule wp_prepare_turn, rule wp_inject, rule wp_response)
  fix ls1 ls2 :: "'w loop_state" and t u v message ctx
  assume t: "progress [] (1 - first_turn ls) s t" "ls_newMessages ls1 = ls_newMessages ls"
    and u: "progress (ls_pending ls1) 0 t u" "ls_newMessages ls2 = ls_newMessages ls1 @ ls_pending ls1"
    and v: "progress [AssistantMessage message] 0 u v"
  let ?ls3 = "ls2\<lparr>ls_context := ctx, ls_newMessages := ls_newMessages ls2 @ [AssistantMessage message]\<rparr>"
  define ms where "ms = ls_pending ls1 @ [AssistantMessage message]"
  have sv: "progress ms (1 - first_turn ls) s v" using progress_trans [OF progress_trans [OF t(1) u(1)] v] by (simp add: ms_def)
  have new: "ls_newMessages ?ls3 = ls_newMessages ls @ ms" using t(2) u(2) by (simp add: ms_def)
  have stop: "wp (thenA (emit env (Turn_end message [])) (thenA (emit env (Agent_end (ls_newMessages ?ls3))) (returnA (True, ?ls3)))) Q (\<lambda>_ _. True) v"
    if "am_stopReason message = Error_stop \<or> am_stopReason message = Aborted"
    unfolding wp_then wp_return
  proof (rule wp_emit_last, use that in simp, rule wp_emit_last, simp)
    fix w x assume "progress (ended [Turn_end message []]) (turn_weight (Turn_end message [])) v w"
      "progress (ended [Agent_end (ls_newMessages ?ls3)]) (turn_weight (Agent_end (ls_newMessages ?ls3))) w x"
      and l: "last (trace x) = Agent_end (ls_newMessages ?ls3)"
    then have "progress ms (- first_turn ls) s x" using progress_trans [OF progress_trans [OF sv]] by fastforce
    then show "Q (True, ?ls3) x" using over new l by blast
  qed
  have go: "wp (complete_turn env ?ls3 message) Q (\<lambda>_ _. True) v"
    if "am_stopReason message \<noteq> Error_stop" "am_stopReason message \<noteq> Aborted"
  proof (rule wp_complete [OF that])
    fix ls' :: "'w loop_state" and rs x assume x: "progress (results rs) (-1) v x" "ls_newMessages ls' = ls_newMessages ?ls3 @ results rs"
    then have p: "progress (ms @ results rs) (- first_turn ls) s x" using progress_trans [OF sv x(1)] by simp
    have n: "ls_newMessages ls' = ls_newMessages ls @ ms @ results rs" using x(2) new by simp
    show "Q (False, ls') x" if "ls_lastTurn ls' \<noteq> None" by (rule more [OF p n that])
    show "Q (True, ls') x" if "last (trace x) = Agent_end (ls_newMessages ls')" by (rule over [OF p n that])
  qed
  show "wp (case (message, ctx) of (message, ctx) \<Rightarrow>
     let ls3 = ls2\<lparr>ls_context := ctx, ls_newMessages := ls_newMessages ls2 @ [AssistantMessage message]\<rparr>
     in if am_stopReason message = Error_stop \<or> am_stopReason message = Aborted
        then thenA (emit env (Turn_end message [])) (thenA (emit env (Agent_end (ls_newMessages ls3))) (returnA (True, ls3)))
        else complete_turn env ls3 message) Q (\<lambda>_ _. True) v"
    using stop go by (simp add: Let_def)
qed

definition loop_ready :: "'w loop_state \<Rightarrow> bool" where
  "loop_ready ls \<longleftrightarrow> (ls_lastTurn ls = None \<longrightarrow> ls_moreToolCalls ls)"

definition run_report :: "'w loop_state \<Rightarrow> 'w run_state \<Rightarrow> agent_message list \<Rightarrow> 'w run_state \<Rightarrow> bool" where
  "run_report ls s new t \<longleftrightarrow>
     (\<exists>ms. new = ls_newMessages ls @ ms \<and> progress ms (- first_turn ls) s t) \<and> last (trace t) = Agent_end new"

lemma turn_report:
  assumes "run_turn env ls s = (Inr (over, ls'), t)"
  shows "\<exists>ms. ls_newMessages ls' = ls_newMessages ls @ ms \<and> progress ms (- first_turn ls) s t
    \<and> (if over then last (trace t) = Agent_end (ls_newMessages ls') else ls_lastTurn ls' \<noteq> None)"
proof -
  have "wp (run_turn env ls) (\<lambda>(over, ls') t. \<exists>ms. ls_newMessages ls' = ls_newMessages ls @ ms \<and> progress ms (- first_turn ls) s t
    \<and> (if over then last (trace t) = Agent_end (ls_newMessages ls') else ls_lastTurn ls' \<noteq> None)) (\<lambda>_ _. True) s"
    by (rule wp_turn) auto
  from wp_result [OF this assms] show ?thesis by simp
qed

lemma poll_report: "poll_follow_up env cfg s = (Inr ms, t) \<Longrightarrow> progress [] 0 s t"
proof -
  have "wp (poll_follow_up env cfg) (\<lambda>_ t. progress [] 0 s t) (\<lambda>_ _. True) s"
    unfolding poll_follow_up_def by (rule wp_opt_call)
  then show "poll_follow_up env cfg s = (Inr ms, t) \<Longrightarrow> progress [] 0 s t" by (rule wp_result)
qed

lemma finish_report:
  assumes "finish_run env ls s = (Inr new, t)"
  shows "new = ls_newMessages ls \<and> progress [] 0 s t \<and> last (trace t) = Agent_end new"
proof -
  have "wp (finish_run env ls) (\<lambda>new t. new = ls_newMessages ls \<and> progress [] 0 s t \<and> last (trace t) = Agent_end new) (\<lambda>_ _. True) s"
    unfolding finish_run_def wp_then wp_return by (rule wp_emit_last) auto
  from wp_result [OF this assms] show ?thesis .
qed

lemma report_step:
  assumes "run_report ls' t new u" and "ls_newMessages ls' = ls_newMessages ls @ ms" and "progress ms b s t"
    and "b - first_turn ls' = - first_turn ls"
  shows "run_report ls s new u"
proof -
  from assms(1) obtain ns where ns: "new = ls_newMessages ls' @ ns" "progress ns (- first_turn ls') t u" "last (trace u) = Agent_end new"
    unfolding run_report_def by blast
  then have "progress (ms @ ns) (- first_turn ls) s u" using progress_trans [OF assms(3) ns(2)] assms(4) by simp
  then show ?thesis unfolding run_report_def using ns assms(2) by auto
qed

lemma run_loop_report:
  "run_loop env ls s = Some r \<Longrightarrow> loop_ready ls \<longrightarrow> (\<forall>new. fst r = Inr new \<longrightarrow> run_report ls s new (snd r))"
proof (induction rule: run_loop.raw_induct [rotated, consumes 1, case_names step])
  case (step loop env ls s r)
  show ?case
  proof (intro allI impI)
    fix new assume ready: "loop_ready ls" and new: "fst r = Inr new"
    show "run_report ls s new (snd r)"
    proof (cases "ls_moreToolCalls ls \<or> ls_pending ls \<noteq> []")
      case True
      obtain x t where x: "run_turn env ls s = (x, t)" by (cases "run_turn env ls s")
      with step(2) True new obtain over ls' where turn: "run_turn env ls s = (Inr (over, ls'), t)"
          and r: "(if over then Some (Inr (ls_newMessages ls'), t) else loop env ls' t) = Some r"
        by (cases x) auto
      from turn_report [OF turn] obtain ms where ms: "ls_newMessages ls' = ls_newMessages ls @ ms" "progress ms (- first_turn ls) s t"
          "if over then last (trace t) = Agent_end (ls_newMessages ls') else ls_lastTurn ls' \<noteq> None" by blast
      show ?thesis
      proof (cases over)
        case True
        then show ?thesis using r new ms by (auto simp: run_report_def)
      next
        case False
        then have lt: "ls_lastTurn ls' \<noteq> None" and rec: "loop env ls' t = Some r" using ms r by simp_all
        have "run_report ls' t new (snd r)" using step(1) [OF rec] lt new by (simp add: loop_ready_def)
        then show ?thesis by (rule report_step [OF _ ms(1,2)]) (use lt in \<open>auto simp: first_turn_def\<close>)
      qed
    next
      case False
      then have lt: "first_turn ls = 0" using ready by (auto simp: loop_ready_def first_turn_def split: option.splits)
      obtain x t where x: "poll_follow_up env (ls_config ls) s = (x, t)" by (cases "poll_follow_up env (ls_config ls) s")
      with step(2) False new obtain ms where poll: "poll_follow_up env (ls_config ls) s = (Inr ms, t)"
          and r: "(if ms = [] then Some (finish_run env ls t) else loop env (ls\<lparr>ls_pending := ms, ls_moreToolCalls := True\<rparr>) t) = Some r"
        by (cases x) auto
      have q: "progress [] 0 s t" by (rule poll_report [OF poll])
      show ?thesis
      proof (cases "ms = []")
        case True
        then have "finish_run env ls t = (Inr new, snd r)" using r new by (cases r) auto
        from finish_report [OF this] show ?thesis using q lt by (auto simp: run_report_def intro: progress_quiet_trans)
      next
        case False
        let ?ls = "ls\<lparr>ls_pending := ms, ls_moreToolCalls := True\<rparr>"
        have "run_report ?ls t new (snd r)" using step(1) [of env ?ls t r] r False new by (simp add: loop_ready_def)
        then show ?thesis by (rule report_step [where ms = "[]", OF _ _ q]) (auto simp: first_turn_def)
      qed
    qed
  qed
qed

lemma runLoop_report:
  assumes "runLoop env ctx new0 cfg s = Some (Inr new, t)"
  shows "\<exists>ms. new = new0 @ ms \<and> progress ms (- 1) s t \<and> last (trace t) = Agent_end new"
proof -
  obtain ps w where w: "poll_steering env cfg s = (Inr ps, w)" and loop: "run_loop env \<lparr>ls_context = ctx,
      ls_config = cfg, ls_lastTurn = None, ls_pending = ps, ls_newMessages = new0, ls_moreToolCalls = True\<rparr> w = Some (Inr new, t)"
    using assms by (auto simp: runLoop_def split: prod.splits sum.splits)
  have "progress [] 0 s w" using wp_result [OF wp_steering w, of "\<lambda>_ w. progress [] 0 s w"] by simp
  moreover obtain ms where "new = new0 @ ms" "progress ms (- 1) w t" "last (trace t) = Agent_end new"
    using run_loop_report [OF loop] by (auto simp: loop_ready_def run_report_def first_turn_def)
  ultimately show ?thesis using progress_quiet_trans by blast
qed

lemma progress_nonempty: "progress xs 1 s t \<Longrightarrow> progress ys b t u \<Longrightarrow> trace u \<noteq> []"
  by (auto simp: progress_def emits_def)

lemma runAgentLoop_report:
  assumes "runAgentLoop env prompts ctx cfg s = Some (Inr new, t)"
  shows "\<exists>ms. new = prompts @ ms \<and> progress new 0 s t \<and> last (trace t) = Agent_end new \<and> trace t \<noteq> []"
proof -
  let ?start = "thenA (emit env Agent_start) (thenA (emit env Turn_start) (forA (announce_message env) prompts))"
  have all: "wp (forA (announce_message env) prompts) (\<lambda>_ v. progress prompts 0 u v) (\<lambda>_ _. True) u" for u
    using wp_announce_all [of prompts u "\<lambda>_ v. progress prompts 0 u v" env] by (simp add: wp_simps)
  have "wp ?start (\<lambda>_ v. progress prompts 1 s v) (\<lambda>_ _. True) s"
    unfolding wp_then
  proof (rule wp_emit', simp, rule wp_emit', simp)
    fix v w assume "progress (ended [Agent_start]) (turn_weight Agent_start) s v"
      "progress (ended [Turn_start]) (turn_weight Turn_start) v w"
    then have "progress [] 1 s w" using progress_trans by fastforce
    then show "wp (forA (announce_message env) prompts) (\<lambda>_ v. progress prompts 1 s v) (\<lambda>_ _. True) w"
      by (intro wp_mono [OF all]) (auto dest: progress_trans)
  qed simp_all
  note start = this
  from assms obtain u v where u: "?start s = (Inr v, u)"
      and loop: "runLoop env (ctx\<lparr>ac_messages := ac_messages ctx @ prompts\<rparr>) prompts cfg u = Some (Inr new, t)"
    by (auto simp: runAgentLoop_def split: prod.splits sum.splits)
  have su: "progress prompts 1 s u" by (rule wp_result [OF start u])
  obtain ms where ms: "new = prompts @ ms" "progress ms (- 1) u t" "last (trace t) = Agent_end new"
    using runLoop_report [OF loop] by blast
  then show ?thesis using progress_trans [OF su ms(2)] progress_nonempty [OF su ms(2)] by simp
qed

lemma runAgentLoopContinue_report:
  assumes "runAgentLoopContinue env ctx cfg s = Some (Inr new, t)"
  shows "progress new 0 s t \<and> last (trace t) = Agent_end new \<and> trace t \<noteq> []"
proof -
  let ?start = "thenA (emit env Agent_start) (emit env Turn_start)"
  from assms obtain u v where u: "?start s = (Inr v, u)" and loop: "runLoop env ctx [] cfg u = Some (Inr new, t)"
    by (auto simp: runAgentLoopContinue_def split: prod.splits sum.splits if_splits agent_message.splits)
  have "wp ?start (\<lambda>_ v. progress [] 1 s v) (\<lambda>_ _. True) s"
    unfolding wp_then
  proof (rule wp_emit', simp, rule wp_emit', simp)
    fix v w assume "progress (ended [Agent_start]) (turn_weight Agent_start) s v"
      "progress (ended [Turn_start]) (turn_weight Turn_start) v w"
    then show "progress [] 1 s w" using progress_trans by fastforce
  qed simp_all
  from wp_result [OF this u] have su: "progress [] 1 s u" .
  obtain ms where "new = ms" "progress ms (- 1) u t" "last (trace t) = Agent_end new" using runLoop_report [OF loop] by auto
  then show ?thesis using progress_trans [OF su, of new "- 1" t] progress_nonempty [OF su, of new "- 1" t] by simp
qed

text \<open>C10: What a run reports is what it did. When a run that was started with prompts returns its new
  messages, they begin with the prompts and are exactly the messages whose end was reported, in order;
  every turn that was started was ended; the last event carries the new messages. Each turn reports one
  result per tool call, in the order of the calls and with their ids and names, whatever the order in
  which parallel tools ran; results may be missing at the end only when the run was aborted.\<close>

theorem agent_run_report:
  assumes "runAgentLoop env prompts ctx cfg s = Some (Inr new, t)" and "trace s = []"
  shows "ended (trace t) = new \<and> take (length prompts) new = prompts \<and> open_turns (trace t) = 0
    \<and> last (trace t) = Agent_end new \<and> (\<forall>ev\<in>set (trace t). turn_ok (signal_aborted t) ev)"
  using runAgentLoop_report [OF assms(1)] assms(2) by (auto simp: progress_def emits_def)

section \<open>A run on an example\<close>

text \<open>A model that calls a tool in its first response and stops in its second; the world counts the
  responses.\<close>

definition demo_usage :: usage where
  "demo_usage = \<lparr>u_input = 1, u_output = 1, u_cacheRead = 0, u_cacheWrite = 0, u_cacheWrite1h = None, u_reasoning = None, u_totalTokens = 2,
     u_cost = \<lparr>cost_input = 0, cost_output = 0, cost_cacheRead = 0, cost_cacheWrite = 0, cost_total = 0\<rparr>\<rparr>"

definition demo_assistant :: "assistant_block list \<Rightarrow> stop_reason \<Rightarrow> assistant_message" where
  "demo_assistant c r = \<lparr>am_content = c, am_api = ''a'', am_provider = ''p'', am_model = ''m'', am_responseModel = None, am_responseId = None,
     am_diagnostics = None, am_usage = demo_usage, am_stopReason = r, am_deferred = None, am_errorMessage = None, am_rawStopReason = None,
     am_endTurn = None, am_timestamp = 0\<rparr>"

definition demo_call :: tool_call where
  "demo_call = \<lparr>tc_id = ''c'', tc_name = ''t'', tc_arguments = JNull, tc_thoughtSignature = None, tc_namespace = None\<rparr>"

definition demo_tool :: "nat agent_tool" where
  "demo_tool = \<lparr>tool_name = ''t'', tool_executionMode = None, tool_prepareArguments = None,
     tool_execute = (\<lambda>_ _ w. (([], Inl ''failed''), w))\<rparr>"

definition demo_loop_env :: "nat loop_env" where
  "demo_loop_env = \<lparr>wants_abort = (\<lambda>_. False), sink = (\<lambda>_ w. (Inr (), w)), clock = (\<lambda>_. 7), validateToolArguments = (\<lambda>_ _. Inr JNull),
     pick = (\<lambda>_ _. 0),
     streamFn = (\<lambda>_ _ opts w. (Inr ([Stream_done], Inr (if so_aborted opts then demo_assistant [] Aborted
        else if w = 0 then demo_assistant [AToolCall demo_call] ToolUse else demo_assistant [] Stop)), Suc w))\<rparr>"

definition demo_config :: "nat loop_config" where
  "demo_config = \<lparr>cfg_model = \<lparr>md_id = ''m'', md_provider = ''p'', md_api = ''a''\<rparr>, cfg_reasoning = None, cfg_apiKey = None,
     cfg_toolExecution = None, cfg_convertToLlm = (\<lambda>ms w. (Inr ms, w)), cfg_transformContext = None, cfg_getApiKey = None,
     cfg_shouldStopAfterTurn = None, cfg_prepareNextTurn = None, cfg_getSteeringMessages = None, cfg_getFollowUpMessages = None,
     cfg_beforeToolCall = None, cfg_afterToolCall = None\<rparr>"

definition demo_context :: "nat agent_context" where
  "demo_context = \<lparr>ac_systemPrompt = [], ac_messages = [], ac_tools = [demo_tool]\<rparr>"

definition demo_run_state :: "nat run_state" where
  "demo_run_state = \<lparr>world = 0, trace = [], signal_aborted = False\<rparr>"

definition demo_prompt :: agent_message where
  "demo_prompt = UserMessage \<lparr>um_content = ContentString [], um_timestamp = 1\<rparr>"

lemmas act_defs = returnA_def bindA_def thenA_def throwA_def tryA_def liftA_def abortedA_def callA_def emitA_def
  emit_def call_def nowA_def announce_message_def

lemma demo_unfinished [simp]: "unfinished [task] = (if actions_left task > 0 then [0] else [])"
  by (simp add: unfinished_def)

lemma demo_run:
  "\<exists>new t. runAgentLoop demo_loop_env [demo_prompt] demo_context demo_config demo_run_state = Some (Inr new, t) \<and> length new = 4"
  by (simp add: runAgentLoop_def runLoop_def run_loop.simps run_turn_def prepare_turn_def inject_pending_def
      streamAssistantResponse_def finish_response_def complete_turn_def run_batch_def executeToolCalls_def
      executeToolCallsParallel_def prepare_tasks.simps run_tasks.simps advance.simps next_task_def prepareToolCall_def
      prepareToolCallArguments_def before_hook_def executePreparedToolCall_def finalizeExecutedToolCall_def
      emitToolExecutionEnd_def publish_result_def emitToolResultMessage_def finished_call_def poll_steering_def
      poll_follow_up_def finish_run_def shouldTerminateToolBatch_def createErrorToolResult_def
      tool_calls_of_def List.map_filter_simps act_defs demo_loop_env_def demo_config_def demo_context_def demo_tool_def
      demo_call_def demo_assistant_def demo_run_state_def Let_def start_event_def)

theorem agent_run_report_witness:
  "\<exists>new t. runAgentLoop demo_loop_env [demo_prompt] demo_context demo_config demo_run_state = Some (Inr new, t)
    \<and> length new = 4 \<and> ended (trace t) = new \<and> last (trace t) = Agent_end new"
proof -
  obtain new t where r: "runAgentLoop demo_loop_env [demo_prompt] demo_context demo_config demo_run_state = Some (Inr new, t)" "length new = 4"
    using demo_run by blast
  from agent_run_report [OF r(1)] r show ?thesis by (auto simp: demo_run_state_def)
qed

section \<open>An abort ends the run\<close>

text \<open>Actions whose events all satisfy a predicate.\<close>

definition only :: "(agent_event \<Rightarrow> bool) \<Rightarrow> 'w run_state \<Rightarrow> 'w run_state \<Rightarrow> bool" where
  "only P s t \<longleftrightarrow> (\<exists>evs. emits evs s t \<and> list_all P evs)"

definition emits_only :: "(agent_event \<Rightarrow> bool) \<Rightarrow> ('w, 'a) act \<Rightarrow> bool" where
  "emits_only P f \<longleftrightarrow> (\<forall>s. wp f (\<lambda>_ t. only P s t) (\<lambda>_ t. only P s t) s)"

named_theorems only_intros

lemma only_refl [simp]: "only P s s"
  unfolding only_def by (rule exI [of _ "[]"]) simp

lemma only_trans: "only P s t \<Longrightarrow> only P t u \<Longrightarrow> only P s u"
  unfolding only_def using emits_trans by (metis list_all_append)

lemma only_aborted: "only P s t \<Longrightarrow> signal_aborted s \<Longrightarrow> signal_aborted t"
  by (auto simp: only_def emits_def)

lemma emits_only_wp: "emits_only P f \<Longrightarrow> wp f (\<lambda>_ t. only P s t) (\<lambda>_ t. only P s t) s"
  by (simp add: emits_only_def)

lemma only_return [only_intros]: "emits_only P (returnA a)"
  by (simp add: emits_only_def wp_return)

lemma only_lift [only_intros]: "emits_only P (liftA r)"
  by (auto simp: emits_only_def wp_lift split: sum.split)

lemma only_abortedA [only_intros]: "emits_only P abortedA"
  by (simp add: emits_only_def wp_aborted)

lemma only_bind [only_intros]:
  assumes "emits_only P f" and "\<And>a. emits_only P (g a)"
  shows "emits_only P (bindA f g)"
  unfolding emits_only_def wp_bind
  by (intro allI wp_mono [OF emits_only_wp [OF assms(1)]])
    (auto intro!: wp_mono [OF emits_only_wp [OF assms(2)]] intro: only_trans)

lemma only_then [only_intros]: "emits_only P f \<Longrightarrow> emits_only P g \<Longrightarrow> emits_only P (thenA f g)"
  unfolding thenA_def by (rule only_bind)

lemma only_call [only_intros]: "emits_only P (call env cb)"
  unfolding emits_only_def call_def
  by (intro allI wp_call) (auto simp: only_def intro!: exI [of _ "[]"])

lemma only_emit [only_intros]: "P ev \<Longrightarrow> emits_only P (emit env ev)"
  unfolding emits_only_def emit_def
  by (intro allI wp_emit) (auto simp: only_def intro!: exI [of _ "[ev]"])

lemma only_for [only_intros]: "(\<And>x. emits_only P (f x)) \<Longrightarrow> emits_only P (forA f xs)"
  by (induction xs) (auto intro: only_intros)

lemma only_option [only_intros]:
  "emits_only P f \<Longrightarrow> (\<And>x. emits_only P (g x)) \<Longrightarrow> emits_only P (case z of None \<Rightarrow> f | Some x \<Rightarrow> g x)"
  by (cases z) simp_all

lemma only_prod [only_intros]: "(\<And>x y. emits_only P (f x y)) \<Longrightarrow> emits_only P (case p of (x, y) \<Rightarrow> f x y)"
  by (cases p) simp

lemma only_if [only_intros]: "emits_only P f \<Longrightarrow> emits_only P g \<Longrightarrow> emits_only P (if b then f else g)"
  by simp

definition no_tool_start :: "agent_event \<Rightarrow> bool" where
  "no_tool_start ev = (case ev of Tool_execution_start _ _ _ \<Rightarrow> False | _ \<Rightarrow> True)"

lemma no_tool_start_simps [simp]:
  "no_tool_start Turn_start" "no_tool_start (Turn_end am rs)" "no_tool_start (Agent_end ms)" "no_tool_start (Message_start m)"
  "no_tool_start (Message_update m)" "no_tool_start (Message_end m)"
  by (simp_all add: no_tool_start_def)

lemma only_prepare_turn: "emits_only no_tool_start (prepare_turn env ls)"
  unfolding prepare_turn_def poll_steering_def Let_def by (intro only_intros) simp_all

lemma only_inject: "emits_only no_tool_start (inject_pending env ls)"
  unfolding inject_pending_def announce_message_def by (intro only_intros) simp_all

lemma only_poll: "emits_only no_tool_start (poll_follow_up env cfg)"
  unfolding poll_follow_up_def by (intro only_intros)

lemma only_finish: "emits_only no_tool_start (finish_run env ls)"
  unfolding finish_run_def by (intro only_intros) simp_all

lemma only_consume: "emits_only no_tool_start (consume_events env evs partial added ms)"
  by (induction env evs partial added ms rule: consume_events.induct) (auto intro!: only_intros)

lemma only_response: "emits_only no_tool_start (streamAssistantResponse env ctx cfg)"
  unfolding streamAssistantResponse_def finish_response_def by (intro only_intros only_consume) simp_all

text \<open>The contract of a stream function: with an aborted signal its final message says so, or is an error.\<close>

definition stops_when_aborted :: "'w loop_env \<Rightarrow> bool" where
  "stops_when_aborted env \<longleftrightarrow>
     (\<forall>model ctx opts w evs final w'. so_aborted opts \<longrightarrow> streamFn env model ctx opts w = (Inr (evs, Inr final), w') \<longrightarrow>
        am_stopReason final = Aborted \<or> am_stopReason final = Error_stop)"

lemma wp_conj:
  "wp f Q E s \<Longrightarrow> wp f Q' E' s \<Longrightarrow> wp f (\<lambda>a t. Q a t \<and> Q' a t) (\<lambda>e t. E e t \<and> E' e t) s"
  by (auto simp: wp_def split: prod.splits sum.splits)

lemma wp_any: "(\<And>a t. Q a t) \<Longrightarrow> wp f Q (\<lambda>_ _. True) s"
  by (auto simp: wp_def split: prod.splits sum.splits)

lemma aborted_response:
  assumes "stops_when_aborted env" and "signal_aborted s"
  shows "wp (streamAssistantResponse env ctx cfg)
    (\<lambda>(m, ctx') _. am_stopReason m = Aborted \<or> am_stopReason m = Error_stop) (\<lambda>_ _. True) s"
proof -
  let ?Q = "\<lambda>(m, ctx') (_ :: 'a run_state). am_stopReason m = Aborted \<or> am_stopReason m = Error_stop"
  have stop: "streamFn env model c opts w = (Inr (evs, Inr final), w') \<Longrightarrow> so_aborted opts \<longrightarrow>
      am_stopReason final = Aborted \<or> am_stopReason final = Error_stop" for model c opts w evs final w'
    using assms(1) unfolding stops_when_aborted_def by blast
  have rest: "wp (case r of (evs, result) \<Rightarrow>
     bindA (consume_events env evs None False (ac_messages ctx)) (\<lambda>(added, ms').
     bindA (liftA result) (\<lambda>final.
     bindA (finish_response env final added ms') (\<lambda>ms''.
     returnA (final, ctx\<lparr>ac_messages := ms''\<rparr>))))) ?Q (\<lambda>_ _. True) t"
    if "\<And>evs final. r = (evs, Inr final) \<Longrightarrow> am_stopReason final = Aborted \<or> am_stopReason final = Error_stop" for r t
  proof (cases r)
    case (Pair evs result)
    have final: "wp (bindA (liftA result) (\<lambda>final. bindA (finish_response env final added ms') (\<lambda>ms''. returnA (final, ctx\<lparr>ac_messages := ms''\<rparr>))))
        ?Q (\<lambda>_ _. True) u" for added ms' u
      using that Pair by (cases result) (auto simp: wp_simps intro!: wp_any)
    show ?thesis unfolding Pair prod.case wp_bind [of "consume_events _ _ _ _ _"]
      by (rule wp_any) (simp add: final split: prod.split)
  qed
  have stream: "wp (call env (streamFn env model c opts)) (\<lambda>r. wp (case r of (evs, result) \<Rightarrow>
     bindA (consume_events env evs None False (ac_messages ctx)) (\<lambda>(added, ms').
     bindA (liftA result) (\<lambda>final.
     bindA (finish_response env final added ms') (\<lambda>ms''.
     returnA (final, ctx\<lparr>ac_messages := ms''\<rparr>))))) ?Q (\<lambda>_ _. True)) (\<lambda>_ _. True) t" if "so_aborted opts" for model c opts t
    unfolding call_def by (rule wp_call_result, rule rest) (use that in \<open>auto dest!: stop\<close>)
  note steps = wp_mono [OF emits_only_wp [where P = "\<lambda>_. False"]]
  show ?thesis unfolding streamAssistantResponse_def wp_bind [of "case_option _ _ _"] wp_bind [of "call env _"] wp_bind [of abortedA] wp_aborted
    by (rule steps, (intro only_intros)[1], rule steps, (intro only_intros)[1], rule steps, (intro only_intros)[1])
      (use assms(2) in \<open>auto intro!: stream intro: only_aborted [OF _ only_aborted [OF _ only_aborted]]\<close>)
qed

lemma aborted_turn:
  assumes "stops_when_aborted env" and "signal_aborted s"
  shows "wp (run_turn env ls) (\<lambda>(over, ls') t. over \<and> only no_tool_start s t) (\<lambda>_ t. only no_tool_start s t) s"
  unfolding run_turn_def wp_bind [of "prepare_turn env ls"] wp_bind [of "inject_pending env _"]
    wp_bind [of "streamAssistantResponse env _ _"]
proof (rule wp_mono [OF emits_only_wp [OF only_prepare_turn]])
  fix ls1 t assume t: "only no_tool_start s t"
  show "wp (inject_pending env ls1) (\<lambda>ls2. wp (streamAssistantResponse env (ls_context ls2) (ls_config ls2))
      (\<lambda>a. wp (case a of (message, ctx) \<Rightarrow> let ls3 = ls2\<lparr>ls_context := ctx, ls_newMessages := ls_newMessages ls2 @ [AssistantMessage message]\<rparr>
         in if am_stopReason message = Error_stop \<or> am_stopReason message = Aborted
            then thenA (emit env (Turn_end message [])) (thenA (emit env (Agent_end (ls_newMessages ls3))) (returnA (True, ls3)))
            else complete_turn env ls3 message)
       (\<lambda>(over, ls') t. over \<and> only no_tool_start s t) (\<lambda>_ t. only no_tool_start s t)) (\<lambda>_ t. only no_tool_start s t))
      (\<lambda>_ t. only no_tool_start s t) t"
  proof (rule wp_mono [OF emits_only_wp [OF only_inject]])
    fix ls2 u assume "only no_tool_start t u"
    then have u: "only no_tool_start s u" by (rule only_trans [OF t])
    have stop: "wp (thenA (emit env e1) (thenA (emit env e2) (returnA (True, ls3))))
        (\<lambda>(over, ls') t. over \<and> only no_tool_start s t) (\<lambda>_ t. only no_tool_start s t) v"
      if "only no_tool_start u v" "no_tool_start e1" "no_tool_start e2" for e1 e2 ls3 v
      unfolding wp_then wp_return
      by (rule wp_mono [OF emits_only_wp [OF only_emit [of no_tool_start, OF that(2)]]],
          rule wp_mono [OF emits_only_wp [OF only_emit [of no_tool_start, OF that(3)]]])
        (auto intro: only_trans [OF u only_trans [OF that(1)]] only_trans)
    show "wp (streamAssistantResponse env (ls_context ls2) (ls_config ls2))
      (\<lambda>a. wp (case a of (message, ctx) \<Rightarrow> let ls3 = ls2\<lparr>ls_context := ctx, ls_newMessages := ls_newMessages ls2 @ [AssistantMessage message]\<rparr>
         in if am_stopReason message = Error_stop \<or> am_stopReason message = Aborted
            then thenA (emit env (Turn_end message [])) (thenA (emit env (Agent_end (ls_newMessages ls3))) (returnA (True, ls3)))
            else complete_turn env ls3 message)
       (\<lambda>(over, ls') t. over \<and> only no_tool_start s t) (\<lambda>_ t. only no_tool_start s t)) (\<lambda>_ t. only no_tool_start s t) u"
      by (rule wp_mono [OF wp_conj [OF emits_only_wp [OF only_response] aborted_response [OF assms(1) only_aborted [OF u assms(2)]]]])
        (auto simp: Let_def intro!: stop intro: only_trans [OF u])
  qed (use t only_trans in blast)
qed

text \<open>C12: An abort ends the run. From any state of the loop in which the signal is set, and whatever the
  queues and hooks still deliver, the loop comes to an end and starts no tool, provided that the stream
  function keeps its contract to answer an aborted request with an aborted or failed message.\<close>

theorem abort_ends_run:
  assumes "stops_when_aborted env" and "signal_aborted s"
  shows "\<exists>r t evs. run_loop env ls s = Some (r, t) \<and> trace t = trace s @ evs \<and> (\<forall>ev\<in>set evs. no_tool_start ev)"
proof -
  have turn: "\<exists>r t. run_loop env ls s = Some (r, t) \<and> only no_tool_start s t"
    if "signal_aborted s" "ls_moreToolCalls ls \<or> ls_pending ls \<noteq> []" for ls s
    using aborted_turn [OF assms(1) that(1), of ls] that(2)
    by (subst run_loop.simps) (auto simp: wp_def split: prod.splits sum.splits)
  have "\<exists>r t. run_loop env ls s = Some (r, t) \<and> only no_tool_start s t"
  proof (cases "ls_moreToolCalls ls \<or> ls_pending ls \<noteq> []")
    case True
    then show ?thesis using turn assms(2) by blast
  next
    case False
    obtain x u where x: "poll_follow_up env (ls_config ls) s = (x, u)" by (cases "poll_follow_up env (ls_config ls) s")
    have u: "only no_tool_start s u"
      using emits_only_wp [OF only_poll, of env "ls_config ls" s] x by (cases x) (simp_all add: wp_def)
    show ?thesis
    proof (cases x)
      case (Inl e)
      then show ?thesis using False x u by (subst run_loop.simps) simp
    next
      case (Inr ms)
      show ?thesis
      proof (cases "ms = []")
        case True
        obtain y v where y: "finish_run env ls u = (y, v)" by (cases "finish_run env ls u")
        then have "only no_tool_start u v"
          using emits_only_wp [OF only_finish, of env ls u] by (cases y) (simp_all add: wp_def)
        then show ?thesis using False x Inr True y only_trans [OF u] by (subst run_loop.simps) auto
      next
        case ms: False
        let ?ls = "ls\<lparr>ls_pending := ms, ls_moreToolCalls := True\<rparr>"
        obtain r t where "run_loop env ?ls u = Some (r, t)" "only no_tool_start u t"
          using turn [of u ?ls] only_aborted [OF u assms(2)] by auto
        then show ?thesis using False x Inr ms only_trans [OF u] by (subst run_loop.simps) auto
      qed
    qed
  qed
  then show ?thesis by (auto simp: only_def emits_def list_all_iff)
qed

theorem abort_ends_run_witness:
  "\<exists>r t. run_loop demo_loop_env \<lparr>ls_context = demo_context, ls_config = demo_config, ls_lastTurn = None, ls_pending = [demo_prompt],
     ls_newMessages = [], ls_moreToolCalls = True\<rparr> (demo_run_state\<lparr>signal_aborted := True\<rparr>) = Some (r, t)"
proof -
  have "stops_when_aborted demo_loop_env" by (auto simp: stops_when_aborted_def demo_loop_env_def demo_assistant_def)
  from abort_ends_run [OF this, of "demo_run_state\<lparr>signal_aborted := True\<rparr>"] show ?thesis by fastforce
qed

end
