(* ===== verification/Agent_Invariant.thy ===== *)
theory Agent_Invariant
  imports Agent_Loop
begin

text \<open>
  Invariants of a run of the agent loop. The locale \<open>run_invariant\<close> is what an owner of the loop provides: a property
  of the state of the run that reporting an event keeps, and that a function of the caller keeps when it changes the world
  only as allowed. Then the whole loop keeps it, however it ends.
\<close>

section \<open>Actions that keep a property\<close>

text \<open>From a state with the property the action returns a value with \<open>P\<close>, or throws, in a state with the property.\<close>

definition keeping :: "('w run_state \<Rightarrow> bool) \<Rightarrow> ('w, 'a) act \<Rightarrow> ('a \<Rightarrow> bool) \<Rightarrow> bool" where
  "keeping I f P \<longleftrightarrow> (\<forall>s. I s \<longrightarrow> wp f (\<lambda>a t. P a \<and> I t) (\<lambda>_. I) s)"

abbreviation keeps_inv :: "('w run_state \<Rightarrow> bool) \<Rightarrow> ('w, 'a) act \<Rightarrow> bool" where
  "keeps_inv I f \<equiv> keeping I f (\<lambda>_. True)"

named_theorems keeping_intros \<open>actions that keep an invariant\<close>

lemma keeping_return: "P a \<Longrightarrow> keeping I (returnA a) P"
  by (simp add: keeping_def wp_simps)

lemma keeping_bind: "keeping I f P \<Longrightarrow> (\<And>a. P a \<Longrightarrow> keeping I (g a) Q) \<Longrightarrow> keeping I (bindA f g) Q"
  unfolding keeping_def wp_bind by (fast elim: wp_mono)

lemma keeping_weaken: "keeping I f P \<Longrightarrow> (\<And>a. P a \<Longrightarrow> Q a) \<Longrightarrow> keeping I f Q"
  unfolding keeping_def by (fast elim: wp_mono)

lemma keeping_then: "keeps_inv I f \<Longrightarrow> keeping I g Q \<Longrightarrow> keeping I (thenA f g) Q"
  unfolding thenA_def by (rule keeping_bind)

lemma keeping_throw [keeping_intros]: "keeping I (throwA e) P"
  by (simp add: keeping_def wp_simps)

lemma keeping_try: "keeping I f P \<Longrightarrow> (\<And>e. keeping I (h e) P) \<Longrightarrow> keeping I (tryA f h) P"
  unfolding keeping_def wp_try by (fast elim: wp_mono)

lemma keeping_lift: "(\<And>a. r = Inr a \<Longrightarrow> P a) \<Longrightarrow> keeping I (liftA r) P"
  by (cases r) (simp_all add: keeping_def wp_simps)

lemma keeping_aborted [keeping_intros]: "keeps_inv I abortedA"
  by (simp add: keeping_def wp_simps)

lemma keeping_for: "(\<And>x. x \<in> set xs \<Longrightarrow> keeping I (f x) P) \<Longrightarrow> keeping I (forA f xs) (list_all P)"
proof (induction xs)
  case (Cons x xs)
  have "keeping I (f x) P" "keeping I (forA f xs) (list_all P)" using Cons by simp_all
  then show ?case unfolding forA.simps by (elim keeping_bind) (simp add: keeping_return)
qed (simp add: keeping_return)

lemma keeps_for [keeping_intros]: "(\<And>x. keeps_inv I (f x)) \<Longrightarrow> keeps_inv I (forA f xs)"
  by (rule keeping_weaken [OF keeping_for [of xs I f "\<lambda>_. True"]]) simp_all

text \<open>The same rules when no value matters.\<close>

lemma keeps_simple [keeping_intros]:
  "keeps_inv I (returnA a)" "keeps_inv I f \<Longrightarrow> (\<And>a. keeps_inv I (g a)) \<Longrightarrow> keeps_inv I (bindA f g)"
  "keeps_inv I f \<Longrightarrow> keeps_inv I f' \<Longrightarrow> keeps_inv I (thenA f f')" "keeps_inv I f \<Longrightarrow> (\<And>e. keeps_inv I (h e)) \<Longrightarrow> keeps_inv I (tryA f h)"
  "keeps_inv I (liftA r)"
  by (auto intro: keeping_return keeping_bind keeping_then keeping_try keeping_lift)

lemma keeps_cases [keeping_intros]:
  "(x = None \<Longrightarrow> keeping I f P) \<Longrightarrow> (\<And>y. x = Some y \<Longrightarrow> keeping I (g y) P) \<Longrightarrow> keeping I (case x of None \<Rightarrow> f | Some y \<Rightarrow> g y) P"
  "(b \<Longrightarrow> keeping I f' P) \<Longrightarrow> (\<not> b \<Longrightarrow> keeping I g' P) \<Longrightarrow> keeping I (if b then f' else g') P"
  "(\<And>u v. p = (u, v) \<Longrightarrow> keeping I (k u v) P) \<Longrightarrow> keeping I (case p of (u, v) \<Rightarrow> k u v) P"
  by (auto split: option.split prod.split)

lemma keepingD: "keeping I f P \<Longrightarrow> I s \<Longrightarrow> f s = (r, t) \<Longrightarrow> I t \<and> (\<forall>a. r = Inr a \<longrightarrow> P a)"
  by (cases r) (auto simp: keeping_def wp_def)

section \<open>Functions of the caller\<close>

definition tame :: "('w \<Rightarrow> 'w \<Rightarrow> bool) \<Rightarrow> ('w, 'a) callback \<Rightarrow> bool" where
  "tame ok cb \<longleftrightarrow> (\<forall>w. ok w (snd (cb w)))"

definition tame_tools :: "('w \<Rightarrow> 'w \<Rightarrow> bool) \<Rightarrow> 'w agent_context \<Rightarrow> bool" where
  "tame_tools ok ctx \<longleftrightarrow> (\<forall>t\<in>set (ac_tools ctx). \<forall>i args w. ok w (snd (tool_execute t i args w)))"

definition tame_config :: "('w \<Rightarrow> 'w \<Rightarrow> bool) \<Rightarrow> 'w loop_config \<Rightarrow> bool" where
  "tame_config ok cfg \<longleftrightarrow>
     (\<forall>ms. tame ok (cfg_convertToLlm cfg ms))
     \<and> (\<forall>f ms. cfg_transformContext cfg = Some f \<longrightarrow> tame ok (f ms))
     \<and> (\<forall>f p. cfg_getApiKey cfg = Some f \<longrightarrow> tame ok (f p))
     \<and> (\<forall>f tc. cfg_shouldStopAfterTurn cfg = Some f \<longrightarrow> tame ok (f tc))
     \<and> (\<forall>f tc. cfg_prepareNextTurn cfg = Some f \<longrightarrow> tame ok (f tc)
          \<and> (\<forall>w u w' c. f tc w = (Inr (Some u), w') \<longrightarrow> tu_context u = Some c \<longrightarrow> tame_tools ok c))
     \<and> (\<forall>f. cfg_getSteeringMessages cfg = Some f \<longrightarrow> tame ok f)
     \<and> (\<forall>f. cfg_getFollowUpMessages cfg = Some f \<longrightarrow> tame ok f)
     \<and> (\<forall>f am c args ctx. cfg_beforeToolCall cfg = Some f \<longrightarrow> tame ok (f am c args ctx))
     \<and> (\<forall>f am c args r e ctx. cfg_afterToolCall cfg = Some f \<longrightarrow> tame ok (f am c args r e ctx))"

definition tame_env :: "('w \<Rightarrow> 'w \<Rightarrow> bool) \<Rightarrow> 'w loop_env \<Rightarrow> bool" where
  "tame_env ok env \<longleftrightarrow> (\<forall>model ctx opts. tame ok (streamFn env model ctx opts))"

lemma tame_configD:
  assumes "tame_config ok cfg"
  shows "tame ok (cfg_convertToLlm cfg ms)" "cfg_transformContext cfg = Some f1 \<Longrightarrow> tame ok (f1 ms)"
    "cfg_getApiKey cfg = Some f2 \<Longrightarrow> tame ok (f2 p)" "cfg_shouldStopAfterTurn cfg = Some f3 \<Longrightarrow> tame ok (f3 tc)"
    "cfg_prepareNextTurn cfg = Some f4 \<Longrightarrow> tame ok (f4 tc)"
    "cfg_prepareNextTurn cfg = Some f4 \<Longrightarrow> f4 tc w = (Inr (Some u), w') \<Longrightarrow> tu_context u = Some c \<Longrightarrow> tame_tools ok c"
    "cfg_getSteeringMessages cfg = Some f5 \<Longrightarrow> tame ok f5" "cfg_getFollowUpMessages cfg = Some f5 \<Longrightarrow> tame ok f5"
    "cfg_beforeToolCall cfg = Some f6 \<Longrightarrow> tame ok (f6 am tcl args ctx)" "cfg_afterToolCall cfg = Some f7 \<Longrightarrow> tame ok (f7 am tcl args res isErr ctx)"
  using assms unfolding tame_config_def by (simp_all, blast)

text \<open>The tool of a prepared call and of a task is a tool of the context.\<close>

definition tame_call :: "('w \<Rightarrow> 'w \<Rightarrow> bool) \<Rightarrow> 'w prepared_call \<Rightarrow> bool" where
  "tame_call ok p \<longleftrightarrow> (\<forall>i args w. ok w (snd (tool_execute (prep_tool p) i args w)))"

definition tame_preparation :: "('w \<Rightarrow> 'w \<Rightarrow> bool) \<Rightarrow> 'w preparation \<Rightarrow> bool" where
  "tame_preparation ok p = (case p of Prepared c \<Rightarrow> tame_call ok c | Immediate _ _ \<Rightarrow> True)"

fun tame_task :: "('w \<Rightarrow> 'w \<Rightarrow> bool) \<Rightarrow> 'w task \<Rightarrow> bool" where
  "tame_task ok (Queued p) = tame_call ok p"
| "tame_task ok (Running p) = tame_call ok p"
| "tame_task ok _ = True"

lemma tame_preparation_simps [simp]:
  "tame_preparation ok (Prepared c) = tame_call ok c" "tame_preparation ok (Immediate r e)" "tame_preparation ok aborted_outcome"
  "tame_preparation ok (blocked_outcome b)"
  by (simp_all add: tame_preparation_def aborted_outcome_def blocked_outcome_def Let_def)

definition tame_state :: "('w \<Rightarrow> 'w \<Rightarrow> bool) \<Rightarrow> 'w loop_state \<Rightarrow> bool" where
  "tame_state ok ls \<longleftrightarrow> tame_config ok (ls_config ls) \<and> tame_tools ok (ls_context ls)"

section \<open>The loop keeps the invariant\<close>

locale run_invariant =
  fixes I :: "'w run_state \<Rightarrow> bool" and env :: "'w loop_env" and ok :: "'w \<Rightarrow> 'w \<Rightarrow> bool"
  assumes emit_keeps: "I s \<Longrightarrow> I (snd (emit env ev s))"
    and change_keeps: "I s \<Longrightarrow> ok (world s) w \<Longrightarrow> I (s\<lparr>world := w, signal_aborted := b\<rparr>)"
    and env_tame: "tame_env ok env"
begin

lemma keeps_emit [keeping_intros]: "keeps_inv I (emit env ev)"
  using emit_keeps unfolding keeping_def wp_def by (metis (mono_tags, lifting) case_prod_conv old.sum.exhaust old.sum.simps(5,6) prod.collapse)

lemma keeping_call:
  assumes "tame ok cb" "\<And>w a w'. cb w = (Inr a, w') \<Longrightarrow> P a" shows "keeping I (call env cb) P"
  unfolding keeping_def
proof (intro allI impI)
  fix s assume "I s"
  obtain r w where cb: "cb (world s) = (r, w)" by (cases "cb (world s)")
  then have "ok (world s) w" using assms(1) unfolding tame_def by (metis snd_conv)
  then show "wp (call env cb) (\<lambda>a t. P a \<and> I t) (\<lambda>_. I) s"
    using change_keeps [OF \<open>I s\<close>] cb assms(2) by (cases r) (auto simp: wp_def call_def callA_def)
qed

lemma keeps_call [keeping_intros]: "tame ok cb \<Longrightarrow> keeps_inv I (call env cb)"
  by (rule keeping_call) simp_all

lemma keeps_now [keeping_intros]: "keeps_inv I (nowA env)"
  by (simp add: keeping_def wp_simps)

lemma keeps_consume [keeping_intros]: "keeps_inv I (consume_events env evs partial added ms)"
proof (induction evs arbitrary: partial added ms)
  case (Cons ev evs)
  then show ?case by (cases ev) (auto intro!: keeping_intros)
qed (auto intro!: keeping_intros)

lemma keeps_response:
  assumes "tame_config ok cfg"
  shows "keeping I (streamAssistantResponse env ctx cfg) (\<lambda>(m, ctx'). ac_tools ctx' = ac_tools ctx)"
proof -
  have "keeps_inv I (finish_response env final added ms)" for final added ms unfolding finish_response_def by (intro keeping_intros)
  then have last: "keeping I (bindA (liftA result) (\<lambda>final. bindA (finish_response env final added ms) (\<lambda>ms'. returnA (final, ctx\<lparr>ac_messages := ms'\<rparr>))))
      (\<lambda>(m, ctx'). ac_tools ctx' = ac_tools ctx)" for result added ms
    by (intro keeping_bind [OF keeps_simple(5)] keeping_bind keeping_return) auto
  show ?thesis unfolding streamAssistantResponse_def
    by (rule keeping_bind, (rule keeps_cases(1) keeping_intros tame_configD [OF assms] | assumption)+,
        rule keeping_bind [OF keeps_call [OF tame_configD(1) [OF assms]]],
        rule keeping_bind, (rule keeps_cases(1) keeping_intros tame_configD [OF assms] | assumption)+,
        rule keeping_bind [OF keeping_aborted], rule keeping_bind [OF keeps_call])
      (use env_tame last in \<open>auto simp: tame_env_def intro!: keeping_bind [OF keeps_consume]\<close>)
qed

lemma keeps_tool_end [keeping_intros]: "keeps_inv I (emitToolExecutionEnd env f)" "keeps_inv I (emitToolResultMessage env r)"
    "keeps_inv I (publish_result env f)" "keeps_inv I (announce_message env m)" "keeps_inv I (fail_truncated env c)"
  unfolding emitToolExecutionEnd_def emitToolResultMessage_def publish_result_def announce_message_def fail_truncated_def Let_def
  by (intro keeping_intros)+

lemma keeps_prepare:
  assumes "tame_config ok cfg" "tame_tools ok ctx"
  shows "keeping I (prepareToolCall env ctx am c cfg) (tame_preparation ok)"
proof -
  have hook: "keeping I (before_hook env ctx am c args cfg) (\<lambda>x. \<forall>p. x = Some p \<longrightarrow> tame_preparation ok p)" for args
    unfolding before_hook_def
    by (rule keeps_cases(1), simp add: keeping_return, rule keeping_bind [OF keeps_call [OF tame_configD(9) [OF assms(1)]]], assumption,
        rule keeping_bind [OF keeping_aborted], rule keeping_return) (auto split: option.split)
  show ?thesis unfolding prepareToolCall_def
  proof (rule keeps_cases(1))
    fix tool assume "find (\<lambda>t. tool_name t = tc_name c) (ac_tools ctx) = Some tool"
    then have "tool \<in> set (ac_tools ctx)" by (auto simp: find_Some_iff)
    then have t: "tame_call ok \<lparr>prep_toolCall = c, prep_tool = tool, prep_args = args\<rparr>" for args
      using assms(2) by (simp add: tame_call_def tame_tools_def)
    show "keeping I (tryA
            (bindA (liftA (bindR (prepareToolCallArguments tool c) (validateToolArguments env tool))) (\<lambda>args.
             bindA (before_hook env ctx am c args cfg) (\<lambda>outcome.
             case outcome of
               Some p \<Rightarrow> returnA p
             | None \<Rightarrow>
                 bindA abortedA (\<lambda>ab.
                 returnA (if ab then aborted_outcome
                          else Prepared \<lparr>prep_toolCall = c, prep_tool = tool, prep_args = args\<rparr>)))))
            (\<lambda>e. returnA (Immediate (createErrorToolResult e) True))) (tame_preparation ok)"
      by (rule keeping_try, rule keeping_bind [OF keeps_simple(5)], rule keeping_bind [OF hook], rule keeps_cases(1),
          rule keeping_bind [OF keeping_aborted]) (auto intro!: keeping_return t)
  qed (simp add: keeping_return)
qed

lemma keeps_updates: "keeps_inv I (emit_updates env evs failure)"
  by (induction evs arbitrary: failure) (auto intro!: keeping_intros)

lemma keeps_execute: "tame_call ok p \<Longrightarrow> keeps_inv I (executePreparedToolCall env p)"
  unfolding executePreparedToolCall_def
  by (intro keeping_intros keeps_updates) (simp add: tame_def tame_call_def case_prod_beta)

lemma keeps_finalize: "tame_config ok cfg \<Longrightarrow> keeps_inv I (finalizeExecutedToolCall env ctx am p executed cfg)"
  unfolding finalizeExecutedToolCall_def by (intro keeping_intros) (auto dest: tame_configD(10))

lemma keeps_run_call:
  assumes "tame_config ok cfg" "tame_tools ok ctx" shows "keeps_inv I (run_call env ctx am cfg c)"
  unfolding run_call_def
proof (rule keeping_then [OF keeps_emit], rule keeping_bind [OF keeps_prepare [OF assms]])
  fix preparation assume "tame_preparation ok preparation"
  then show "keeps_inv I (bindA (case preparation of
               Prepared p \<Rightarrow> bindA (executePreparedToolCall env p) (\<lambda>executed. finalizeExecutedToolCall env ctx am p executed cfg)
             | Immediate r isErr \<Rightarrow> returnA \<lparr>fin_toolCall = c, fin_result = r, fin_isError = isErr\<rparr>)
      (\<lambda>f. thenA (emitToolExecutionEnd env f) (returnA f)))"
    by (cases preparation) (auto intro!: keeping_intros keeps_execute keeps_finalize assms)
qed

lemma keeps_sequential:
  assumes "tame_config ok cfg" "tame_tools ok ctx" shows "keeps_inv I (sequential_calls env ctx am cfg calls)"
  by (induction calls) (auto intro!: keeping_intros keeps_run_call assms)

lemma keeps_prepare_tasks:
  assumes "tame_config ok cfg" "tame_tools ok ctx"
  shows "keeping I (prepare_tasks env ctx am cfg calls) (list_all (tame_task ok))"
proof (induction calls)
  case (Cons c calls)
  have task: "keeping I (case preparation of
               Prepared p \<Rightarrow> returnA (Queued p)
             | Immediate r isErr \<Rightarrow>
                 (let f = \<lparr>fin_toolCall = c, fin_result = r, fin_isError = isErr\<rparr>
                  in thenA (emitToolExecutionEnd env f) (returnA (Finished f)))) (tame_task ok)"
    if "tame_preparation ok preparation" for preparation
    using that by (cases preparation) (auto simp: Let_def intro!: keeping_return keeping_then keeping_intros)
  show ?case unfolding prepare_tasks.simps
    by (rule keeping_then [OF keeps_emit], rule keeping_bind [OF keeps_prepare [OF assms]], rule keeping_bind [OF task], assumption,
        rule keeping_bind [OF keeping_aborted], rule keeps_cases(2), simp add: keeping_return, rule keeping_bind [OF Cons])
      (simp add: keeping_return)
qed (simp add: keeping_return)

lemma keeps_advance:
  assumes "tame_config ok cfg" "tame_task ok task" shows "keeping I (advance env ctx am cfg task) (tame_task ok)"
proof (cases task)
  case (Queued p)
  then show ?thesis using assms(2)
    by (auto simp: Let_def intro!: keeping_bind [OF keeping_aborted] keeping_return keeping_then keeping_intros)
next
  case (Running p)
  then show ?thesis using assms(2) by (auto intro!: keeping_bind [OF keeps_execute] keeping_return)
next
  case (Executed p x)
  then show ?thesis by (auto intro!: keeping_bind [OF keeps_finalize [OF assms(1)]] keeping_then keeping_return keeping_intros)
qed (simp add: keeping_return)

lemma keeps_run_tasks:
  assumes "tame_config ok cfg"
  shows "list_all (tame_task ok) ts \<Longrightarrow> I s \<Longrightarrow> I (snd (run_tasks env ctx am cfg ts s))"
proof (induction "work_left ts" arbitrary: ts s rule: less_induct)
  case less
  show ?case
  proof (cases "unfinished ts = []")
    case False
    let ?i = "next_task env ts s"
    have i: "?i < length ts" "0 < actions_left (ts ! ?i)" using next_task_unfinished [OF False] by blast+
    obtain r t where r: "advance env ctx am cfg (ts ! ?i) s = (r, t)" by (cases "advance env ctx am cfg (ts ! ?i) s")
    have "tame_task ok (ts ! ?i)" using less.prems(1) i(1) by (simp add: list_all_length)
    note step = keepingD [OF keeps_advance [OF assms this] less.prems(2) r]
    show ?thesis
    proof (cases r)
      case (Inr task)
      have "list_all (tame_task ok) (ts[?i := task])"
        using less.prems(1) step Inr i(1) by (auto simp: list_all_iff dest!: set_update_subset_insert [THEN subsetD])
      then have "I (snd (run_tasks env ctx am cfg (ts[?i := task]) t))"
        using less.hyps [OF work_left_update [OF i(1)]] advance_decreases i(2) r Inr step by blast
      then show ?thesis using False r Inr by (subst run_tasks.simps) simp
    qed (use False r step in \<open>subst run_tasks.simps, simp\<close>)
  qed (use less.prems in \<open>subst run_tasks.simps, simp\<close>)
qed

lemma keeps_batch:
  assumes "tame_config ok cfg" "tame_tools ok ctx" shows "keeps_inv I (run_batch env ctx am cfg)"
proof -
  have tasks: "keeps_inv I (bindA (run_tasks env ctx am cfg ts) f)" if "list_all (tame_task ok) ts" "\<And>ts'. keeps_inv I (f ts')" for ts and f :: "'w task list \<Rightarrow> ('w, 'b) act"
    unfolding keeping_def wp_bind
  proof (intro allI impI)
    fix s assume "I s"
    then have "I (snd (run_tasks env ctx am cfg ts s))" by (rule keeps_run_tasks [OF assms(1) that(1)])
    then show "wp (run_tasks env ctx am cfg ts) (\<lambda>a. wp (f a) (\<lambda>a t. True \<and> I t) (\<lambda>_. I)) (\<lambda>_. I) s"
      using that(2) by (cases "run_tasks env ctx am cfg ts s"; cases "fst (run_tasks env ctx am cfg ts s)") (auto simp: wp_def [of "run_tasks env ctx am cfg ts"] keeping_def)
  qed
  have "keeps_inv I (executeToolCallsParallel env ctx am calls cfg)" for calls
    unfolding executeToolCallsParallel_def
    by (rule keeping_bind [OF keeps_prepare_tasks [OF assms]], rule tasks) (auto simp: Let_def intro!: keeping_intros)
  moreover have "keeps_inv I (executeToolCallsSequential env ctx am calls cfg)" for calls
    unfolding executeToolCallsSequential_def by (intro keeping_intros keeps_sequential assms)
  ultimately show ?thesis
    unfolding run_batch_def executeToolCalls_def failToolCallsFromTruncatedMessage_def Let_def by (intro keeping_intros)
qed

lemma keeps_poll [keeping_intros]:
  assumes "tame_config ok cfg" shows "keeps_inv I (poll_steering env cfg)" "keeps_inv I (poll_follow_up env cfg)"
  unfolding poll_steering_def poll_follow_up_def using tame_configD(7,8) [OF assms] by (auto intro!: keeping_intros)

lemma keeps_prepare_turn:
  assumes "tame_state ok ls" shows "keeping I (prepare_turn env ls) (tame_state ok)"
proof -
  have cfg: "tame_config ok (ls_config ls)" using assms by (simp add: tame_state_def)
  have rest: "keeping I (bindA (if ls_pending ls1 = [] then poll_steering env (ls_config ls1) else returnA (ls_pending ls1)) (\<lambda>ps.
             thenA (emit env Turn_start) (returnA (ls1\<lparr>ls_pending := ps\<rparr>)))) (tame_state ok)" if "tame_state ok ls1" for ls1
    using that by (intro keeping_bind [where P = "\<lambda>_. True"] keeping_then keeping_return keeping_intros) (auto simp: tame_state_def)
  have updated: "tame_state ok (update_turn v ls)" if "\<And>c. tu_context v = Some c \<Longrightarrow> tame_tools ok c" for v
    using assms that by (auto simp: tame_state_def update_turn_def tame_config_def split: option.splits)
  show ?thesis unfolding prepare_turn_def
  proof (rule keeps_cases(1))
    fix lastTurn
    have "keeping I (case cfg_prepareNextTurn (ls_config ls) of None \<Rightarrow> returnA None | Some f \<Rightarrow> call env (f lastTurn))
        (\<lambda>u. \<forall>v c. u = Some v \<longrightarrow> tu_context v = Some c \<longrightarrow> tame_tools ok c)"
      by (rule keeps_cases(1), simp add: keeping_return, rule keeping_call [OF tame_configD(5) [OF cfg]]) (auto dest: tame_configD(6) [OF cfg])
    then show "keeping I (bindA (case cfg_prepareNextTurn (ls_config ls) of None \<Rightarrow> returnA None | Some f \<Rightarrow> call env (f lastTurn)) (\<lambda>u.
          let ls1 = (case u of None \<Rightarrow> ls | Some v \<Rightarrow> update_turn v ls)
          in bindA (if ls_pending ls1 = [] then poll_steering env (ls_config ls1) else returnA (ls_pending ls1)) (\<lambda>ps.
             thenA (emit env Turn_start) (returnA (ls1\<lparr>ls_pending := ps\<rparr>))))) (tame_state ok)"
      by (rule keeping_bind) (unfold Let_def, rule rest, use assms in \<open>auto split: option.split intro!: updated\<close>)
  qed (simp add: keeping_return assms)
qed

lemma keeps_complete_turn:
  assumes "tame_state ok ls" shows "keeping I (complete_turn env ls m) (\<lambda>(over, ls'). tame_state ok ls')"
proof -
  have t: "tame_config ok (ls_config ls)" "tame_tools ok (ls_context ls)" using assms by (simp_all add: tame_state_def)
  show ?thesis unfolding complete_turn_def Let_def
    by (rule keeping_bind [OF keeps_batch [OF t]], rule keeping_then [OF keeps_emit], rule keeping_bind, rule keeps_cases(1),
        rule keeping_intros, rule keeps_call [OF tame_configD(4) [OF t(1)]], assumption, rule keeps_cases(2),
        rule keeping_then [OF keeps_emit], rule keeping_return, use t in \<open>simp add: tame_state_def tame_tools_def\<close>,
        rule keeping_bind [OF keeps_poll(1) [OF t(1)]], rule keeping_return)
      (use t in \<open>simp add: tame_state_def tame_tools_def\<close>)
qed

lemma keeps_turn:
  assumes "tame_state ok ls" shows "keeping I (run_turn env ls) (\<lambda>(over, ls'). tame_state ok ls')"
proof -
  have inject: "keeping I (inject_pending env ls1) (tame_state ok)" if "tame_state ok ls1" for ls1
    unfolding inject_pending_def
    by (rule keeping_then, intro keeping_intros, rule keeping_return) (use that in \<open>simp add: tame_state_def tame_tools_def\<close>)
  have rest: "keeping I (bindA (streamAssistantResponse env (ls_context ls2) (ls_config ls2)) (\<lambda>(message, ctx).
     let ls3 = ls2\<lparr>ls_context := ctx, ls_newMessages := ls_newMessages ls2 @ [AssistantMessage message]\<rparr>
     in if am_stopReason message = Error_stop \<or> am_stopReason message = Aborted
        then thenA (emit env (Turn_end message [])) (thenA (emit env (Agent_end (ls_newMessages ls3))) (returnA (True, ls3)))
        else complete_turn env ls3 message)) (\<lambda>(over, ls'). tame_state ok ls')" if "tame_state ok ls2" for ls2
  proof (rule keeping_bind [OF keeps_response])
    fix x :: "assistant_message \<times> 'w agent_context" assume x: "case x of (m, ctx') \<Rightarrow> ac_tools ctx' = ac_tools (ls_context ls2)"
    obtain m ctx where p: "x = (m, ctx)" by (cases x)
    have ls3: "tame_state ok (ls2\<lparr>ls_context := ctx, ls_newMessages := ls_newMessages ls2 @ [AssistantMessage m]\<rparr>)"
      using that x p by (simp add: tame_state_def tame_tools_def)
    show "keeping I (case x of (message, ctx) \<Rightarrow>
     let ls3 = ls2\<lparr>ls_context := ctx, ls_newMessages := ls_newMessages ls2 @ [AssistantMessage message]\<rparr>
     in if am_stopReason message = Error_stop \<or> am_stopReason message = Aborted
        then thenA (emit env (Turn_end message [])) (thenA (emit env (Agent_end (ls_newMessages ls3))) (returnA (True, ls3)))
        else complete_turn env ls3 message) (\<lambda>(over, ls'). tame_state ok ls')"
      unfolding p prod.case Let_def
      by (rule keeps_cases(2), rule keeping_then [OF keeps_emit], rule keeping_then [OF keeps_emit], rule keeping_return)
        (use ls3 keeps_complete_turn [OF ls3] in auto)
  qed (use that in \<open>simp add: tame_state_def\<close>)
  show ?thesis unfolding run_turn_def
    by (rule keeping_bind [OF keeps_prepare_turn [OF assms]], rule keeping_bind [OF inject], assumption, rule rest)
qed

lemma keeps_loop:
  assumes "run_loop env ls s = Some r" "tame_state ok ls" "I s" shows "I (snd r)"
proof -
  have "env' = env \<longrightarrow> tame_state ok ls \<longrightarrow> I s \<longrightarrow> I (snd r)" if "run_loop env' ls s = Some r" for env'
    using that
  proof (induction rule: run_loop.raw_induct [rotated, consumes 1, case_names step])
    case (step loop env' ls s r)
    show ?case
    proof (intro impI)
      assume e: "env' = env" and t: "tame_state ok ls" and s: "I s"
      have rec: "I (snd r)" if "loop env ls' u' = Some r" "tame_state ok ls'" "I u'" for ls' u' using step(1) [OF that(1)] that(2,3) by blast
      show "I (snd r)"
      proof (cases "ls_moreToolCalls ls \<or> ls_pending ls \<noteq> []")
        case True
        obtain x u where x: "run_turn env ls s = (x, u)" by (cases "run_turn env ls s")
        have "I u" "\<And>over ls'. x = Inr (over, ls') \<Longrightarrow> tame_state ok ls'" using keepingD [OF keeps_turn [OF t] s x] by auto
        then show ?thesis using step(2) True x e rec by (cases x) (auto split: if_splits)
      next
        case False
        have cfg: "tame_config ok (ls_config ls)" using t by (simp add: tame_state_def)
        obtain x u where x: "poll_follow_up env (ls_config ls) s = (x, u)" by (cases "poll_follow_up env (ls_config ls) s")
        have u: "I u" using keepingD [OF keeps_poll(2) [OF cfg] s x] by simp
        obtain y v where y: "finish_run env ls u = (y, v)" by (cases "finish_run env ls u")
        have "keeps_inv I (finish_run env ls)" unfolding finish_run_def by (intro keeping_intros)
        then have "I (snd (finish_run env ls u))" using keepingD u y by fastforce
        moreover have "tame_state ok (ls\<lparr>ls_pending := ms, ls_moreToolCalls := True\<rparr>)" for ms using t by (simp add: tame_state_def)
        ultimately show ?thesis using step(2) False x e rec u by (cases x) (auto split: if_splits)
      qed
    qed
  qed
  then show ?thesis using assms by blast
qed

lemma keeps_run:
  assumes "tame_config ok cfg" "tame_tools ok ctx" "I s"
  shows "runAgentLoop env prompts ctx cfg s = Some r \<Longrightarrow> I (snd r)" "runAgentLoopContinue env ctx cfg s = Some r \<Longrightarrow> I (snd r)"
proof -
  have loop: "I (snd r)" if "runLoop env c new cfg t = Some r" "I t" "tame_tools ok c" for c new t r
  proof -
    obtain x u where x: "poll_steering env cfg t = (x, u)" by (cases "poll_steering env cfg t")
    have "I u" using keepingD [OF keeps_poll(1) [OF assms(1)] that(2) x] by simp
    then show ?thesis using that(1,3) x keeps_loop assms(1) by (cases x) (auto simp: runLoop_def tame_state_def)
  qed
  have "keeps_inv I (thenA (emit env Agent_start) (thenA (emit env Turn_start) (forA (announce_message env) prompts)))"
      "keeps_inv I (thenA (emit env Agent_start) (emit env Turn_start))"
    by (intro keeping_intros)+
  note start = keepingD [OF this(1) assms(3)] keepingD [OF this(2) assms(3)]
  show "runAgentLoop env prompts ctx cfg s = Some r \<Longrightarrow> I (snd r)"
    using start(1) loop assms(2) by (auto simp: runAgentLoop_def tame_tools_def split: prod.splits sum.splits)
  show "runAgentLoopContinue env ctx cfg s = Some r \<Longrightarrow> I (snd r)"
    using start(2) loop [OF _ _ assms(2)] assms(3)
    by (auto simp: runAgentLoopContinue_def split: prod.splits sum.splits if_splits agent_message.splits)
qed

end

end
