(* ===== verification/Agent_Class.thy ===== *)
theory Agent_Class
  imports Agent_Invariant
begin

text \<open>
  The class \<open>Agent\<close> of \<open>agent/src/agent.ts\<close>: the stateful wrapper around the agent loop. Its mutable fields are the world of
  a run, so that tools, hooks and listeners, which are functions of that world, can steer, queue and abort while the run is
  going on. What a run only reads (hooks, tools, listeners) is the record \<open>agent_setup\<close>; listeners are added and removed
  between runs. Settings that are passed on to the stream function unread are left out.
\<close>

section \<open>Queues\<close>

datatype queue_mode = All_messages | One_at_a_time

record pending_queue =
  pq_mode :: queue_mode
  pq_messages :: "agent_message list"

definition new_queue :: "queue_mode \<Rightarrow> pending_queue" where
  "new_queue mode = \<lparr>pq_mode = mode, pq_messages = []\<rparr>"

definition enqueue :: "agent_message \<Rightarrow> pending_queue \<Rightarrow> pending_queue" where
  "enqueue m q = q\<lparr>pq_messages := pq_messages q @ [m]\<rparr>"


definition drain :: "pending_queue \<Rightarrow> agent_message list \<times> pending_queue" where
  "drain q =
     (case pq_mode q of
        All_messages \<Rightarrow> (pq_messages q, q\<lparr>pq_messages := []\<rparr>)
      | One_at_a_time \<Rightarrow>
          (case pq_messages q of [] \<Rightarrow> ([], q) | m # ms \<Rightarrow> ([m], q\<lparr>pq_messages := ms\<rparr>)))"

definition clear_queue :: "pending_queue \<Rightarrow> pending_queue" where
  "clear_queue q = q\<lparr>pq_messages := []\<rparr>"

section \<open>State\<close>


definition DEFAULT_MODEL :: agent_model where
  "DEFAULT_MODEL = \<lparr>md_id = ''unknown'', md_provider = ''unknown'', md_api = ''unknown''\<rparr>"

text \<open>\<open>ag_activeRun\<close> is the signal of the active run; \<open>ag_skipInitialSteeringPoll\<close> is the variable of the configuration
  that the run was given.\<close>

record 'u agent_world =
  ag_systemPrompt :: js_string
  ag_model :: agent_model
  ag_thinkingLevel :: ident
  ag_messages :: "agent_message list"
  ag_isStreaming :: bool
  ag_streamingMessage :: "agent_message option"
  ag_pendingToolCalls :: "ident list"
  ag_errorMessage :: "string option"
  ag_steeringQueue :: pending_queue
  ag_followUpQueue :: pending_queue
  ag_activeRun :: "bool option"
  ag_skipInitialSteeringPoll :: bool
  ag_user :: 'u

type_synonym 'u agw = "'u agent_world"

record 'w agent_setup =
  su_tools :: "'w agent_tool list"
  su_convertToLlm :: "(agent_message list \<Rightarrow> ('w, agent_message list) callback) option"
  su_transformContext :: "(agent_message list \<Rightarrow> ('w, agent_message list) callback) option"
  su_getApiKey :: "(ident \<Rightarrow> ('w, string option) callback) option"
  su_beforeToolCall :: "(assistant_message \<Rightarrow> tool_call \<Rightarrow> js_value \<Rightarrow> 'w agent_context
      \<Rightarrow> ('w, before_tool_call_result option) callback) option"
  su_afterToolCall :: "(assistant_message \<Rightarrow> tool_call \<Rightarrow> js_value \<Rightarrow> tool_result \<Rightarrow> bool \<Rightarrow> 'w agent_context
      \<Rightarrow> ('w, after_tool_call_result option) callback) option"
  su_shouldStopAfterTurn :: "('w turn_context \<Rightarrow> ('w, bool) callback) option"
  su_prepareNextTurn :: "('w, 'w turn_update option) callback option"
  su_prepareNextTurnWithContext :: "('w turn_context \<Rightarrow> ('w, 'w turn_update option) callback) option"
  su_toolExecution :: "tool_execution_mode option"
  su_listeners :: "(nat \<times> (agent_event \<Rightarrow> ('w, unit) callback)) list"

record agent_initial_state =
  is_systemPrompt :: "js_string option"
  is_model :: "agent_model option"
  is_thinkingLevel :: "ident option"
  is_messages :: "agent_message list option"

definition default_to :: "'a \<Rightarrow> 'a option \<Rightarrow> 'a" where
  "default_to d x = (case x of None \<Rightarrow> d | Some y \<Rightarrow> y)"

definition new_agent :: "agent_initial_state \<Rightarrow> queue_mode option \<Rightarrow> queue_mode option \<Rightarrow> 'u \<Rightarrow> 'u agent_world" where
  "new_agent init steeringMode followUpMode user =
     \<lparr>ag_systemPrompt = default_to [] (is_systemPrompt init), ag_model = default_to DEFAULT_MODEL (is_model init),
      ag_thinkingLevel = default_to ''off'' (is_thinkingLevel init), ag_messages = default_to [] (is_messages init),
      ag_isStreaming = False, ag_streamingMessage = None, ag_pendingToolCalls = [], ag_errorMessage = None,
      ag_steeringQueue = new_queue (default_to One_at_a_time steeringMode),
      ag_followUpQueue = new_queue (default_to One_at_a_time followUpMode),
      ag_activeRun = None, ag_skipInitialSteeringPoll = False, ag_user = user\<rparr>"


section \<open>Public operations that a run does not wait for\<close>

definition subscribe :: "nat \<Rightarrow> (agent_event \<Rightarrow> ('w, unit) callback) \<Rightarrow> 'w agent_setup \<Rightarrow> 'w agent_setup" where
  "subscribe k l su = (if map_has (su_listeners su) k then su else su\<lparr>su_listeners := su_listeners su @ [(k, l)]\<rparr>)"

definition unsubscribe :: "nat \<Rightarrow> 'w agent_setup \<Rightarrow> 'w agent_setup" where
  "unsubscribe k su = su\<lparr>su_listeners := AList.delete k (su_listeners su)\<rparr>"

definition set_steeringMode :: "queue_mode \<Rightarrow> 'u agent_world \<Rightarrow> 'u agent_world" where
  "set_steeringMode mode w = w\<lparr>ag_steeringQueue := (ag_steeringQueue w)\<lparr>pq_mode := mode\<rparr>\<rparr>"

definition set_followUpMode :: "queue_mode \<Rightarrow> 'u agent_world \<Rightarrow> 'u agent_world" where
  "set_followUpMode mode w = w\<lparr>ag_followUpQueue := (ag_followUpQueue w)\<lparr>pq_mode := mode\<rparr>\<rparr>"

definition steer :: "agent_message \<Rightarrow> 'u agent_world \<Rightarrow> 'u agent_world" where
  "steer m w = w\<lparr>ag_steeringQueue := enqueue m (ag_steeringQueue w)\<rparr>"

definition followUp :: "agent_message \<Rightarrow> 'u agent_world \<Rightarrow> 'u agent_world" where
  "followUp m w = w\<lparr>ag_followUpQueue := enqueue m (ag_followUpQueue w)\<rparr>"

definition clearSteeringQueue :: "'u agent_world \<Rightarrow> 'u agent_world" where
  "clearSteeringQueue w = w\<lparr>ag_steeringQueue := clear_queue (ag_steeringQueue w)\<rparr>"

definition clearFollowUpQueue :: "'u agent_world \<Rightarrow> 'u agent_world" where
  "clearFollowUpQueue w = w\<lparr>ag_followUpQueue := clear_queue (ag_followUpQueue w)\<rparr>"

definition clearAllQueues :: "'u agent_world \<Rightarrow> 'u agent_world" where
  "clearAllQueues w = clearFollowUpQueue (clearSteeringQueue w)"


definition abort :: "'u agent_world \<Rightarrow> 'u agent_world" where
  "abort w = (case ag_activeRun w of None \<Rightarrow> w | Some _ \<Rightarrow> w\<lparr>ag_activeRun := Some True\<rparr>)"

definition reset :: "'u agent_world \<Rightarrow> string + 'u agent_world" where
  "reset w =
     (if ag_activeRun w \<noteq> None then Inl ''Agent is already processing. Wait for completion before resetting.''
      else Inr (clearSteeringQueue (clearFollowUpQueue (w\<lparr>ag_messages := [], ag_isStreaming := False, ag_streamingMessage := None,
             ag_pendingToolCalls := [], ag_errorMessage := None\<rparr>))))"

section \<open>Events\<close>

fun reduce_event :: "agent_event \<Rightarrow> 'u agent_world \<Rightarrow> 'u agent_world" where
  "reduce_event (Message_start m) w = w\<lparr>ag_streamingMessage := Some m\<rparr>"
| "reduce_event (Message_update m) w = w\<lparr>ag_streamingMessage := Some m\<rparr>"
| "reduce_event (Message_end m) w = w\<lparr>ag_streamingMessage := None, ag_messages := ag_messages w @ [m]\<rparr>"
| "reduce_event (Tool_execution_start i n args) w =
     w\<lparr>ag_pendingToolCalls := (if i \<in> set (ag_pendingToolCalls w) then ag_pendingToolCalls w else ag_pendingToolCalls w @ [i])\<rparr>"
| "reduce_event (Tool_execution_end i n r e) w = w\<lparr>ag_pendingToolCalls := removeAll i (ag_pendingToolCalls w)\<rparr>"
| "reduce_event (Turn_end am rs) w =
     (case am_errorMessage am of None \<Rightarrow> w | Some e \<Rightarrow> if e = [] then w else w\<lparr>ag_errorMessage := Some e\<rparr>)"
| "reduce_event (Agent_end ms) w = w\<lparr>ag_streamingMessage := None\<rparr>"
| "reduce_event _ w = w"



section \<open>Runs\<close>



















section \<open>The state follows the events\<close>

text \<open>The part of the state that the events of a run determine, and what a function of the caller leaves alone.\<close>

definition event_view :: "'u agent_world \<Rightarrow> agent_message list \<times> agent_message option \<times> ident list \<times> string option" where
  "event_view w = (ag_messages w, ag_streamingMessage w, ag_pendingToolCalls w, ag_errorMessage w)"

definition leaves_view :: "'u agent_world \<Rightarrow> 'u agent_world \<Rightarrow> bool" where
  "leaves_view w w' \<longleftrightarrow> event_view w' = event_view w \<and> (ag_activeRun w' = None \<longleftrightarrow> ag_activeRun w = None)"



lemma public_operations_tame:
  "leaves_view w (steer m w)" "leaves_view w (followUp m w)" "leaves_view w (abort w)" "leaves_view w (clearAllQueues w)"
  "leaves_view w (set_steeringMode mode w)" "leaves_view w (set_followUpMode mode w)"
  by (auto simp: leaves_view_def event_view_def steer_def followUp_def abort_def clearAllQueues_def clearSteeringQueue_def clearFollowUpQueue_def
      set_steeringMode_def set_followUpMode_def split: option.splits)



lemma reduce_active [simp]: "ag_activeRun (reduce_event ev w) = ag_activeRun w"
  by (cases ev) (auto split: option.splits)








text \<open>Between runs the agent is idle.\<close>

definition idle :: "'u agent_world \<Rightarrow> bool" where
  "idle w \<longleftrightarrow> ag_activeRun w = None \<and> \<not> ag_isStreaming w \<and> ag_streamingMessage w = None \<and> ag_pendingToolCalls w = []"

lemma idle_new: "idle (new_agent init sm fm user)"
  by (simp add: idle_def new_agent_def)











lemma drain_cases: "drain q = (ms, q') \<Longrightarrow> ms @ pq_messages q' = pq_messages q \<and> (ms = [] \<longrightarrow> q' = q)"
  by (auto simp: drain_def split: queue_mode.splits list.splits)


section \<open>An agent on an example\<close>









end
