(* ===== verification/Js_Parse.thy ===== *)
theory Js_Parse
  imports Js_Json
begin

text \<open>
  \<open>JSON.parse\<close> without a reviver: white space, literals, strings with their escapes, numbers read as the
  nearest double, arrays and objects. Of two members with one key the later value stays, at the place
  of the first; the members of an object end up in enumeration order. The parser accepts the text that
  \<open>JSON.stringify\<close> gives for JSON data and returns the data.
\<close>

section \<open>Numbers\<close>

text \<open>
  The double nearest to a rational number, ties to even: an integral value is named by that integer,
  minus zero and the fractions by their bits, as in \<^typ>\<open>js_number\<close>.
\<close>

definition double_bits :: "bool \<Rightarrow> rat \<Rightarrow> 64 word" where
  "double_bits neg r =
     (let e = max (if r = 0 then - 1022 else binary_exponent r) (- 1022); M = \<lfloor>r / 2 powi (e - 52)\<rfloor>
      in of_int ((if neg then 2 ^ 63 else 0) + (if M < 2 ^ 52 then M else (e + 1023) * 2 ^ 52 + (M - 2 ^ 52))))"

definition nearest_number :: "bool \<Rightarrow> rat \<Rightarrow> js_number" where
  "nearest_number neg q =
     (let r = round_double q
      in if r \<noteq> 0 \<and> 1024 \<le> binary_exponent r then JInf neg
         else if of_int \<lfloor>r\<rfloor> = r \<and> \<not> (r = 0 \<and> neg) then JInt (if neg then - \<lfloor>r\<rfloor> else \<lfloor>r\<rfloor>)
         else JFrac (double_bits neg r))"

definition is_digit :: "16 word \<Rightarrow> bool" where
  "is_digit c = (48 \<le> unat c \<and> unat c \<le> 57)"

definition digits_int :: "js_string \<Rightarrow> int" where
  "digits_int ds = foldl (\<lambda>n c. 10 * n + (uint c - 48)) 0 ds"

text \<open>The integer part has no leading zero.\<close>

definition int_part :: "js_string \<Rightarrow> (js_string \<times> js_string) option" where
  "int_part s =
     (case s of
        [] \<Rightarrow> None
      | c # r \<Rightarrow> if c = 48 then Some ([c], r)
                  else if is_digit c then Some (takeWhile is_digit s, dropWhile is_digit s) else None)"

definition frac_part :: "js_string \<Rightarrow> (js_string \<times> js_string) option" where
  "frac_part s =
     (case s of
        c # r \<Rightarrow>
          if c = 0x2E then (if takeWhile is_digit r = [] then None else Some (takeWhile is_digit r, dropWhile is_digit r))
          else Some ([], s)
      | [] \<Rightarrow> Some ([], s))"

definition exp_part :: "js_string \<Rightarrow> (int \<times> js_string) option" where
  "exp_part s =
     (case s of
        c # r \<Rightarrow>
          if c = 0x65 \<or> c = 0x45 then
            (let signed = (r \<noteq> [] \<and> (hd r = 0x2B \<or> hd r = 0x2D)); ds = (if signed then tl r else r);
                 e = digits_int (takeWhile is_digit ds)
             in if takeWhile is_digit ds = [] then None
                else Some (if signed \<and> hd r = 0x2D then - e else e, dropWhile is_digit ds))
          else Some (0, s)
      | [] \<Rightarrow> Some (0, s))"

definition parse_number :: "js_string \<Rightarrow> (js_number \<times> js_string) option" where
  "parse_number s =
     (let neg = (s \<noteq> [] \<and> hd s = 0x2D)
      in case int_part (if neg then tl s else s) of
           None \<Rightarrow> None
         | Some (ds, r) \<Rightarrow>
             (case frac_part r of
                None \<Rightarrow> None
              | Some (fs, r1) \<Rightarrow>
                  (case exp_part r1 of
                     None \<Rightarrow> None
                   | Some (e, r2) \<Rightarrow>
                       Some (nearest_number neg (of_int (digits_int (ds @ fs)) * 10 powi (e - int (length fs))), r2))))"

section \<open>Strings\<close>

definition hex_value :: "16 word \<Rightarrow> nat option" where
  "hex_value c =
     (let n = unat c
      in if 48 \<le> n \<and> n \<le> 57 then Some (n - 48) else if 97 \<le> n \<and> n \<le> 102 then Some (n - 87)
         else if 65 \<le> n \<and> n \<le> 70 then Some (n - 55) else None)"

definition simple_escape :: "16 word \<Rightarrow> 16 word option" where
  "simple_escape c =
     (if c = 0x22 \<or> c = 0x5C \<or> c = 0x2F then Some c else if c = 0x62 then Some 8 else if c = 0x66 then Some 12
      else if c = 0x6E then Some 10 else if c = 0x72 then Some 13 else if c = 0x74 then Some 9 else None)"

text \<open>One escape sequence after its backslash: the code unit it denotes and the rest.\<close>

definition parse_escape :: "js_string \<Rightarrow> (16 word \<times> js_string) option" where
  "parse_escape s =
     (case s of
        [] \<Rightarrow> None
      | c # r \<Rightarrow>
          if c = 0x75 then
            (case r of
               a # b # d # e # r' \<Rightarrow>
                 (case (hex_value a, hex_value b, hex_value d, hex_value e) of
                    (Some w, Some x, Some y, Some z) \<Rightarrow> Some (of_nat (4096 * w + 256 * x + 16 * y + z), r')
                  | _ \<Rightarrow> None)
             | _ \<Rightarrow> None)
          else map_option (\<lambda>u. (u, r)) (simple_escape c))"

lemma parse_escape_shorter: "parse_escape s = Some (u, r) \<Longrightarrow> length r < length s"
  by (auto simp: parse_escape_def split: list.splits if_splits option.splits)

text \<open>The rest of a string after its opening quote.\<close>

function parse_string :: "js_string \<Rightarrow> (js_string \<times> js_string) option" where
  "parse_string [] = None"
| "parse_string (c # r) =
     (if c = 0x22 then Some ([], r)
      else if unat c < 0x20 then None
      else if c = 0x5C then
        (case parse_escape r of None \<Rightarrow> None | Some (u, r1) \<Rightarrow> map_option (apfst ((#) u)) (parse_string r1))
      else map_option (apfst ((#) c)) (parse_string r))"
  by pat_completeness auto
termination by (relation "measure length") (auto dest: parse_escape_shorter)

lemma parse_string_shorter: "parse_string s = Some (t, r) \<Longrightarrow> length r < length s"
proof (induction s arbitrary: t rule: parse_string.induct)
  case (2 c s)
  then show ?case by (fastforce split: if_splits option.splits dest: parse_escape_shorter)
qed simp

section \<open>Values\<close>

definition json_space :: "16 word \<Rightarrow> bool" where
  "json_space c = (c = 0x20 \<or> c = 9 \<or> c = 10 \<or> c = 13)"

definition skip_space :: "js_string \<Rightarrow> js_string" where
  "skip_space s = dropWhile json_space s"

text \<open>Optional white space and one given code unit.\<close>

definition expect :: "16 word \<Rightarrow> js_string \<Rightarrow> js_string option" where
  "expect c s = (case skip_space s of [] \<Rightarrow> None | d # r \<Rightarrow> if d = c then Some r else None)"

definition parse_literal :: "js_string \<Rightarrow> (js_value \<times> js_string) option" where
  "parse_literal s =
     (if take 4 s = js ''null'' then Some (JNull, drop 4 s)
      else if take 4 s = js ''true'' then Some (JBool True, drop 4 s)
      else if take 5 s = js ''false'' then Some (JBool False, drop 5 s)
      else map_option (apfst JNumber) (parse_number s))"

definition object_of :: "(js_string \<times> js_value) list \<Rightarrow> js_value" where
  "object_of ms = JObject False (own_keys_order (foldl (\<lambda>es (k, v). AList.update k v es) [] ms))"

lemma expect_shorter: "expect c s = Some r \<Longrightarrow> length r < length s"
proof -
  assume "expect c s = Some r"
  then have "dropWhile json_space s = c # r" by (auto simp: expect_def skip_space_def split: list.splits if_splits)
  then show ?thesis using length_dropWhile_le [of json_space s] by simp
qed

function parse_value :: "js_string \<Rightarrow> (js_value \<times> js_string) option"
  and parse_elements :: "js_string \<Rightarrow> (js_value list \<times> js_string) option"
  and parse_members :: "js_string \<Rightarrow> ((js_string \<times> js_value) list \<times> js_string) option" where
  "parse_value s =
     (case skip_space s of
        [] \<Rightarrow> None
      | c # r \<Rightarrow>
          if c = 0x22 then map_option (apfst JString) (parse_string r)
          else if c = 0x5B then
            (case expect 0x5D r of
               Some r1 \<Rightarrow> Some (JArray [], r1)
             | None \<Rightarrow> map_option (apfst JArray) (parse_elements r))
          else if c = 0x7B then
            (case expect 0x7D r of
               Some r1 \<Rightarrow> Some (object_of [], r1)
             | None \<Rightarrow> map_option (apfst object_of) (parse_members r))
          else parse_literal (c # r))"
| "parse_elements s =
     (case parse_value s of
        None \<Rightarrow> None
      | Some (v, r) \<Rightarrow>
          (case expect 0x5D r of
             Some r1 \<Rightarrow> Some ([v], r1)
           | None \<Rightarrow>
               (case expect 0x2C r of
                  None \<Rightarrow> None
                | Some r1 \<Rightarrow> map_option (apfst ((#) v)) (parse_elements r1))))"
| "parse_members s =
     (case expect 0x22 s of
        None \<Rightarrow> None
      | Some r \<Rightarrow>
          (case parse_string r of
             None \<Rightarrow> None
           | Some (k, r1) \<Rightarrow>
               (case expect 0x3A r1 of
                  None \<Rightarrow> None
                | Some r2 \<Rightarrow>
                    (case parse_value r2 of
                       None \<Rightarrow> None
                     | Some (v, r3) \<Rightarrow>
                         (case expect 0x7D r3 of
                            Some r4 \<Rightarrow> Some ([(k, v)], r4)
                          | None \<Rightarrow>
                              (case expect 0x2C r3 of
                                 None \<Rightarrow> None
                               | Some r4 \<Rightarrow> map_option (apfst ((#) (k, v))) (parse_members r4)))))))"
  by pat_completeness auto

text \<open>Every parser consumes something. For values this is shown where the parser is defined, and
  makes it total.\<close>

lemma int_part_shorter: "int_part s = Some (ds, r) \<Longrightarrow> length r < length s"
  by (auto simp: int_part_def le_imp_less_Suc length_dropWhile_le split: list.splits if_splits)

lemma frac_part_shorter: "frac_part s = Some (ds, r) \<Longrightarrow> length r \<le> length s"
  by (auto simp: frac_part_def le_SucI length_dropWhile_le split: list.splits if_splits)

lemma exp_part_shorter: "exp_part s = Some (ds, r) \<Longrightarrow> length r \<le> length s"
  by (cases s) (auto simp: exp_part_def Let_def le_SucI length_dropWhile_le split: list.splits if_splits
      intro: order_trans [OF length_dropWhile_le])

lemma parse_number_shorter: "parse_number s = Some (x, r) \<Longrightarrow> length r < length s"
proof -
  assume "parse_number s = Some (x, r)"
  moreover define t where "t = (if s \<noteq> [] \<and> hd s = 0x2D then tl s else s)"
  ultimately obtain ds r0 fs r1 e where "int_part t = Some (ds, r0)" "frac_part r0 = Some (fs, r1)" "exp_part r1 = Some (e, r)"
    unfolding parse_number_def Let_def t_def [symmetric] by (auto split: option.splits)
  moreover have "length t \<le> length s" by (simp add: t_def)
  ultimately show ?thesis using int_part_shorter [of t ds r0] frac_part_shorter [of r0 fs r1] exp_part_shorter [of r1 e r] by simp
qed

lemma parse_literal_shorter:
  assumes "parse_literal s = Some (v, r)" shows "length r < length s"
proof -
  have "4 \<le> length s" if "take 4 s = js ''null'' \<or> take 4 s = js ''true''"
    using that by (auto simp: js_def dest: arg_cong [where f = length])
  moreover have "5 \<le> length s" if "take 5 s = js ''false''"
    using that by (auto simp: js_def dest: arg_cong [where f = length])
  ultimately show ?thesis using assms parse_number_shorter
    by (auto simp: parse_literal_def split: if_splits)
qed

lemma skip_space_length: "length (skip_space s) \<le> length s"
  by (simp add: skip_space_def length_dropWhile_le)

lemma skip_space_Cons: "skip_space s = c # r \<Longrightarrow> length r < length s"
  using skip_space_length [of s] by simp

lemma parse_progress:
  "parse_value_parse_elements_parse_members_dom (Inl s) \<Longrightarrow> parse_value s = Some (v, r) \<Longrightarrow> length r < length s"
  "parse_value_parse_elements_parse_members_dom (Inr (Inl s)) \<Longrightarrow> parse_elements s = Some (vs, r) \<Longrightarrow> length r < length s"
  "parse_value_parse_elements_parse_members_dom (Inr (Inr s)) \<Longrightarrow> parse_members s = Some (ms, r) \<Longrightarrow> length r < length s"
proof (induction s and s and s arbitrary: v r and vs r and ms r rule: parse_value_parse_elements_parse_members.pinduct)
  case (1 s)
  obtain c r0 where s: "skip_space s = c # r0"
    using "1.prems" by (auto simp: parse_value.psimps [OF "1.hyps"] split: list.splits)
  then have "length r0 < length s" using skip_space_length [of s] by simp
  moreover have "length r < length (c # r0)"
    using "1.prems" s "1.IH" [OF s]
    by (auto simp: parse_value.psimps [OF "1.hyps"] split: if_splits option.splits
        dest!: parse_literal_shorter parse_string_shorter expect_shorter intro: less_SucI)
  ultimately show ?case by simp
next
  case (2 s)
  then show ?case
    by (fastforce simp: parse_elements.psimps split: option.splits dest!: expect_shorter)
next
  case (3 s)
  then show ?case
    by (fastforce simp: parse_members.psimps split: option.splits dest!: expect_shorter parse_string_shorter)
qed

termination parse_value
proof (relation "measure (case_sum (\<lambda>s. 2 * length s) (case_sum (\<lambda>s. 2 * length s + 1) (\<lambda>s. 2 * length s)))")
qed (auto dest!: parse_progress expect_shorter parse_string_shorter skip_space_Cons)

declare parse_value.simps [simp del] parse_elements.simps [simp del] parse_members.simps [simp del]

definition json_parse :: "js_string \<Rightarrow> js_value option" where
  "json_parse s =
     (case parse_value s of
        None \<Rightarrow> None
      | Some (v, r) \<Rightarrow> if skip_space r = [] then Some v else None)"

section \<open>Reading what was printed\<close>

text \<open>A number ends where the text goes on with none of its characters.\<close>

definition delimited :: "js_string \<Rightarrow> bool" where
  "delimited r = (r = [] \<or> \<not> is_digit (hd r) \<and> hd r \<noteq> 0x2E \<and> hd r \<noteq> 0x65 \<and> hd r \<noteq> 0x45)"

lemma takeWhile_delimited:
  "r = [] \<or> \<not> P (hd r) \<Longrightarrow> takeWhile P (t @ r) = takeWhile P t \<and> dropWhile P (t @ r) = dropWhile P t @ r"
  by (induction t) (cases r; auto)+

lemma digits_delimited:
  "delimited r \<Longrightarrow> takeWhile is_digit (t @ r) = takeWhile is_digit t"
  "delimited r \<Longrightarrow> dropWhile is_digit (t @ r) = dropWhile is_digit t @ r"
  using takeWhile_delimited [of r is_digit t] by (auto simp: delimited_def)

lemma int_part_append: "int_part t = Some (ds, r0) \<Longrightarrow> delimited r \<Longrightarrow> int_part (t @ r) = Some (ds, r0 @ r)"
  by (cases t) (auto simp: int_part_def digits_delimited split: if_splits)

lemma frac_part_append: "frac_part t = Some (fs, r0) \<Longrightarrow> delimited r \<Longrightarrow> frac_part (t @ r) = Some (fs, r0 @ r)"
  by (cases t; cases r) (auto simp: frac_part_def digits_delimited delimited_def split: if_splits)

lemma exp_part_append:
  assumes "exp_part t = Some (e, r0)" "delimited r" shows "exp_part (t @ r) = Some (e, r0 @ r)"
proof (cases t)
  case Nil
  then show ?thesis using assms by (cases r) (auto simp: exp_part_def delimited_def)
next
  case (Cons c t1)
  show ?thesis
  proof (cases "c = 0x65 \<or> c = 0x45")
    case True
    then have "t1 \<noteq> []" using assms Cons by (auto simp: exp_part_def)
    then show ?thesis using assms Cons True
      by (auto simp: exp_part_def Let_def digits_delimited split: if_splits)
  next
    case False
    then show ?thesis using assms Cons by (auto simp: exp_part_def)
  qed
qed

lemma parse_number_append:
  assumes "parse_number t = Some (x, r0)" "delimited r" shows "parse_number (t @ r) = Some (x, r0 @ r)"
proof -
  have ne: "t \<noteq> []" using assms(1) by (auto simp: parse_number_def int_part_def)
  define neg where "neg = (hd t = 0x2D)"
  define u where "u = (if neg then tl t else t)"
  have sign: "hd (t @ r) = hd t" "(if neg then tl (t @ r) else t @ r) = u @ r" using ne by (auto simp: u_def)
  obtain ds r1 fs r2 e where p: "int_part u = Some (ds, r1)" "frac_part r1 = Some (fs, r2)" "exp_part r2 = Some (e, r0)"
    and x: "x = nearest_number neg (of_int (digits_int (ds @ fs)) * 10 powi (e - int (length fs)))"
    using assms(1) ne unfolding parse_number_def Let_def neg_def u_def
    by (simp split: option.splits prod.splits)
  show ?thesis using ne sign unfolding parse_number_def Let_def neg_def [symmetric]
    by (simp add: int_part_append [OF p(1) assms(2)] frac_part_append [OF p(2) assms(2)]
        exp_part_append [OF p(3) assms(2)] x neg_def)
qed

lemma parse_number_start: "parse_number t = Some (x, r) \<Longrightarrow> t \<noteq> [] \<and> (hd t = 0x2D \<or> is_digit (hd t))"
  by (cases t) (auto simp: parse_number_def int_part_def is_digit_def split: if_splits option.splits)

text \<open>The integers that a double holds exactly.\<close>

lemma bit_length_le: "n < 2 ^ k \<Longrightarrow> bit_length n \<le> int k"
proof (induction k arbitrary: n)
  case 0
  then show ?case by (simp add: bit_length.simps)
next
  case (Suc k)
  then show ?case using Suc.IH [of "n div 2"] by (subst bit_length.simps) auto
qed

lemma binary_exponent_int:
  assumes "0 \<le> i" "i < 2 ^ 53" shows "binary_exponent (of_int i) \<le> 52"
proof -
  have "quotient_of \<bar>of_int i\<bar> = (i, 1)" using assms by simp
  then show ?thesis using bit_length_le [of i 53] assms
    by (auto simp: binary_exponent_def Let_def bit_length.simps [of 1] bit_length.simps [of 0])
qed

lemma round_half_even_int [simp]: "round_half_even (of_int i) = i"
  by (simp add: round_half_even_def)

lemma round_double_int:
  assumes "0 \<le> i" "i < 2 ^ 53" shows "round_double (of_int i) = of_int i"
proof (cases "i = 0")
  case False
  define e where "e = max (binary_exponent (of_int i) - 52) (- 1074)"
  have e: "e \<le> 0" "e = - int (nat (- e))" using binary_exponent_int [OF assms] by (simp_all add: e_def)
  then have "(2 :: rat) powi e = 1 / 2 ^ nat (- e)" by (metis power_int_minus_divide power_int_of_nat)
  then have "(of_int i :: rat) / 2 powi e = of_int (i * 2 ^ nat (- e))" by simp
  then have "of_int (round_half_even (of_int i / 2 powi e)) * 2 powi e = (of_int i :: rat)"
    using \<open>(2 :: rat) powi e = 1 / 2 ^ nat (- e)\<close> by (simp only: round_half_even_int) simp
  then show ?thesis using False by (simp add: round_double_def e_def [symmetric])
qed (simp add: round_double_def)

lemma nearest_safe:
  assumes "is_safe_integer i" shows "nearest_number (i < 0) (of_int \<bar>i\<bar>) = JInt i"
proof -
  have lt: "\<bar>i\<bar> < 2 ^ 53" using assms by (simp add: is_safe_integer_def max_safe_integer_def)
  then have "round_double (of_int \<bar>i\<bar>) = (of_int \<bar>i\<bar> :: rat)" by (intro round_double_int) auto
  moreover have "binary_exponent (of_int \<bar>i\<bar>) < 1024"
    using binary_exponent_int [of "\<bar>i\<bar>"] lt by simp
  ultimately show ?thesis by (simp add: nearest_number_def Let_def)
qed

lemma js_Cons: "js (c # cs) = of_nat (of_char c) # js cs"
  by (simp add: js_def)

lemma js_append [simp]: "js (s @ t) = js s @ js t"
  by (simp add: js_def)

lemma unat_char: "unat (of_nat (of_char c) :: 16 word) = of_char c"
  by (cases c) (simp add: unat_of_nat of_char_def take_bit_eq_mod)

lemma decimal_is_digit: "c \<in> set (js (decimal n)) \<Longrightarrow> is_digit c"
  using decimal_digits by (auto simp: js_def is_digit_def unat_char less_Suc_eq_le numeral_eq_Suc)

lemma digits_int_snoc: "digits_int (ds @ [c]) = 10 * digits_int ds + (uint c - 48)"
  by (simp add: digits_int_def)

lemma unit_digit: "k < 10 \<Longrightarrow> (of_nat (of_char (char_of (48 + k) :: char)) :: 16 word) = 48 + of_nat k"
  by (simp add: of_char_of)

lemma uint_digit: "k < 10 \<Longrightarrow> uint (48 + of_nat k :: 16 word) = 48 + int k"
  by (simp add: uint_word_ariths take_bit_eq_mod unsigned_of_nat)

lemma digits_int_decimal: "digits_int (js (decimal n)) = int n"
proof (induction n rule: decimal.induct)
  case (1 n)
  show ?case
  proof (cases "n < 10")
    case True
    then show ?thesis by (subst decimal.simps) (simp add: digits_int_def js_def unit_digit uint_digit)
  next
    case False
    have "int n = 10 * int (n div 10) + int (n mod 10)" by presburger
    then show ?thesis using 1 False
      by (subst decimal.simps) (simp add: js_Cons js_def [of "[]"] unit_digit uint_digit digits_int_snoc)
  qed
qed

lemma decimal_head: "n \<noteq> 0 \<Longrightarrow> hd (js (decimal n)) \<noteq> 48"
proof (induction n rule: decimal.induct)
  case (1 n)
  show ?case
  proof (cases "n < 10")
    case True
    have "uint (48 + of_nat n :: 16 word) \<noteq> uint (48 :: 16 word)" using True 1 by (subst uint_digit) auto
    then have "48 + of_nat n \<noteq> (48 :: 16 word)" by metis
    then show ?thesis using True by (subst decimal.simps) (simp add: js_def unit_digit)
  next
    case False
    have "js (decimal (n div 10)) \<noteq> []" by (subst decimal.simps) (simp add: js_def)
    then show ?thesis using False 1 by (subst decimal.simps) simp
  qed
qed

lemma decimal_nonempty: "js (decimal n) \<noteq> []"
  by (subst decimal.simps) (simp add: js_def)

lemma int_part_decimal: "delimited r \<Longrightarrow> int_part (js (decimal n) @ r) = Some (js (decimal n), r)"
proof -
  assume "delimited r"
  moreover have "takeWhile is_digit (js (decimal n)) = js (decimal n)" using decimal_is_digit by (simp add: takeWhile_eq_all_conv)
  moreover have "dropWhile is_digit (js (decimal n)) = []" using decimal_is_digit by (simp add: dropWhile_eq_Nil_conv)
  moreover have "decimal 0 = ''0''" by code_simp
  moreover obtain c cs where "js (decimal n) = c # cs" using decimal_nonempty by (cases "js (decimal n)") auto
  moreover from this have "is_digit c" using decimal_is_digit [of c n] by simp
  ultimately have "int_part (js (decimal n)) = Some (js (decimal n), [])"
    using decimal_head [of n] by (cases "n = 0") (auto simp: int_part_def js_Cons js_def [of "[]"])
  then show ?thesis using int_part_append \<open>delimited r\<close> by fastforce
qed

lemma parse_number_decimal:
  assumes "is_safe_integer i" "delimited r" shows "parse_number (js (decimal_int i) @ r) = Some (JInt i, r)"
proof -
  have rest: "frac_part r = Some ([], r)" "exp_part r = Some (0, r)"
    using assms(2) by (auto simp: frac_part_def exp_part_def delimited_def split: list.splits)
  have minus: "hd (js (decimal n) @ r) \<noteq> 0x2D" for n
    using decimal_nonempty [of n] decimal_is_digit [of "hd (js (decimal n))" n] by (auto simp: is_digit_def)
  have "nearest_number (i < 0) (of_int (int (nat \<bar>i\<bar>)) * 10 powi 0) = JInt i"
    using nearest_safe [OF assms(1)] by simp
  then show ?thesis using minus [of "nat i"] decimal_nonempty
    by (cases "i < 0") (auto simp: decimal_int_def parse_number_def int_part_decimal [OF assms(2)] rest
        digits_int_decimal js_Cons js_def [of "[]"])
qed

text \<open>Strings.\<close>

lemma hex_value_digit: "n < 16 \<Longrightarrow> hex_value (hex_digit n) = Some n"
  by (simp add: hex_digit_def hex_value_def unat_of_nat Let_def)

lemma hex_digits_value:
  fixes n :: nat assumes "n < 65536"
  shows "4096 * (n div 4096 mod 16) + 256 * (n div 256 mod 16) + 16 * (n div 16 mod 16) + n mod 16 = n"
proof -
  have "n div 4096 mod 16 = n div 4096" using assms by (simp add: less_mult_imp_div_less)
  moreover have "n div 256 = 16 * (n div 4096) + n div 256 mod 16" using mult_div_mod_eq [of 16 "n div 256"] by (simp flip: div_mult2_eq)
  moreover have "n div 16 = 16 * (n div 256) + n div 16 mod 16" using mult_div_mod_eq [of 16 "n div 16"] by (simp flip: div_mult2_eq)
  moreover have "n = 16 * (n div 16) + n mod 16" by simp
  ultimately show ?thesis by linarith
qed

lemma parse_unicode_escape: "parse_escape (tl (unicode_escape c) @ r) = Some (c, r)"
proof -
  have "4096 * (unat c div 4096 mod 16) + 256 * (unat c div 256 mod 16) + 16 * (unat c div 16 mod 16) + unat c mod 16
    = unat c" by (rule hex_digits_value) (rule unit_less)
  then have "of_nat (4096 * (unat c div 4096 mod 16) + 256 * (unat c div 256 mod 16) + 16 * (unat c div 16 mod 16) + unat c mod 16) = c"
    by (simp only:) simp
  then show ?thesis by (simp add: unicode_escape_def Let_def parse_escape_def hex_value_digit del: of_nat_add of_nat_mult)
qed

lemma parse_quote_unit: "parse_string (quote_unit c @ r) = map_option (apfst ((#) c)) (parse_string r)"
proof (cases "c \<noteq> 0x22 \<and> c \<noteq> 0x5C \<and> c \<noteq> 8 \<and> c \<noteq> 12 \<and> c \<noteq> 10 \<and> c \<noteq> 13 \<and> c \<noteq> 9")
  case True
  have "unicode_escape c @ r = 0x5C # (tl (unicode_escape c) @ r)" by (simp add: unicode_escape_def Let_def)
  then have "parse_string (unicode_escape c @ r) = map_option (apfst ((#) c)) (parse_string r)"
    using parse_unicode_escape [of c r] by (simp only: parse_string.simps) simp
  then show ?thesis using True by (simp add: quote_unit_def)
next
  case False
  then show ?thesis by (auto simp: quote_unit_def parse_escape_def simple_escape_def)
qed

lemma parse_pair:
  assumes "is_high (unat c)" "is_low (unat d)"
  shows "parse_string (c # d # r) = map_option (apfst (\<lambda>s. c # d # s)) (parse_string r)"
proof -
  have "c \<noteq> 0x22" "d \<noteq> 0x22" "c \<noteq> 0x5C" "d \<noteq> 0x5C" using assms by (auto simp: is_high_def is_low_def)
  then show ?thesis using assms by (simp add: is_high_def is_low_def option.map_comp comp_def) (cases "parse_string r"; auto)
qed

lemma quote_units_step:
  "\<not> (is_high (unat c) \<and> is_low (unat d)) \<Longrightarrow> quote_units (c # d # ds) = quote_unit c @ quote_units (d # ds)"
  unfolding quote_units.simps by (rule if_not_P)

lemma parse_quote_units: "parse_string (quote_units s @ 0x22 # r) = Some (s, r)"
proof (induction s rule: quote_units.induct)
  case (3 c d ds)
  show ?case
  proof (cases "is_high (unat c) \<and> is_low (unat d)")
    case True
    then show ?thesis using 3 parse_pair [of c d "quote_units ds @ 0x22 # r"] by (simp del: parse_string.simps)
  next
    case False
    then have "quote_units (c # d # ds) = quote_unit c @ quote_units (d # ds)" by (rule quote_units_step)
    then show ?thesis using False 3 by (simp add: parse_quote_unit del: parse_string.simps quote_units.simps)
  qed
qed (simp_all add: parse_quote_unit)

text \<open>Values. Every text starts with a code unit that is neither white space nor a closing bracket.\<close>

definition value_start :: "js_string \<Rightarrow> bool" where
  "value_start t = (t \<noteq> [] \<and> \<not> json_space (hd t) \<and> hd t \<noteq> 0x5D \<and> hd t \<noteq> 0x7D)"

lemma skip_space_start: "value_start t \<Longrightarrow> skip_space (t @ r) = t @ r"
  by (cases t) (auto simp: value_start_def skip_space_def)

lemma expect_start: "value_start t \<Longrightarrow> expect 0x5D (t @ r) = None"
  using skip_space_start [of t r] by (cases t) (auto simp: expect_def value_start_def)

lemma expect_hit [simp]: "\<not> json_space c \<Longrightarrow> expect d (c # r) = (if c = d then Some r else None)"
  by (simp add: expect_def skip_space_def)

lemma no_space [simp]: "\<not> json_space 0x2C" "\<not> json_space 0x5D" "\<not> json_space 0x7D" "\<not> json_space 0x3A" "\<not> json_space 0x22"
  "\<not> json_space 0x5B" "\<not> json_space 0x7B"
  by (simp_all add: json_space_def)

text \<open>The text of a value reads back, whatever delimited text follows.\<close>

definition reads_as :: "js_string \<Rightarrow> js_value \<Rightarrow> bool" where
  "reads_as t v = (value_start t \<and> (\<forall>r. delimited r \<longrightarrow> parse_value (t @ r) = Some (v, r)))"

lemma delimited_close [simp]: "delimited (0x2C # r)" "delimited (0x5D # r)" "delimited (0x7D # r)" "delimited []"
  by (simp_all add: delimited_def is_digit_def)

lemma parse_elements_join:
  "list_all2 reads_as ts vs \<Longrightarrow> ts \<noteq> [] \<Longrightarrow> parse_elements (join_on 0x2C ts @ 0x5D # r) = Some (vs, r)"
proof (induction ts vs rule: list_all2_induct)
  case (Cons t ts v vs)
  show ?case
  proof (cases ts)
    case Nil
    then show ?thesis using Cons by (simp add: parse_elements.simps reads_as_def)
  next
    case (Cons u us)
    then show ?thesis using Cons.IH Cons.hyps by (simp add: parse_elements.simps [of "t @ _"] reads_as_def)
  qed
qed simp

lemma parse_members_join:
  "list_all2 (\<lambda>u (k, v). \<exists>t. u = quote_json k @ 0x3A # t \<and> reads_as t v) us ms \<Longrightarrow> us \<noteq> [] \<Longrightarrow>
   parse_members (join_on 0x2C us @ 0x7D # r) = Some (ms, r)"
proof (induction us ms rule: list_all2_induct)
  case (Cons u us m ms)
  obtain k v where m: "m = (k, v)" by force
  with Cons.hyps obtain t where u: "u = 0x22 # quote_units k @ 0x22 # 0x3A # t" and t: "reads_as t v"
    by (auto simp: quote_json_def)
  show ?case
  proof (cases us)
    case Nil
    then show ?thesis using Cons m t by (simp add: parse_members.simps u reads_as_def parse_quote_units)
  next
    case (Cons w ws)
    then show ?thesis using Cons.IH Cons.hyps m t
      by (simp add: parse_members.simps [of "_ # _"] u reads_as_def parse_quote_units)
  qed
qed simp

text \<open>
  What the decimal form of a number must be like: a number token that reads as the number. For safe
  integers this holds; for the others it is what the language promises of \<open>Number.toString\<close>.
\<close>

definition readable_number :: "(js_number \<Rightarrow> string) \<Rightarrow> js_number \<Rightarrow> bool" where
  "readable_number print_number x =
     (case x of
        JInt i \<Rightarrow> is_safe_integer i \<or> parse_number (js (print_number x)) = Some (x, [])
      | _ \<Rightarrow> parse_number (js (print_number x)) = Some (x, []))"

fun readable_numbers :: "(js_number \<Rightarrow> string) \<Rightarrow> js_value \<Rightarrow> bool" where
  "readable_numbers pn (JNumber x) = readable_number pn x"
| "readable_numbers pn (JArray vs) = list_all (readable_numbers pn) vs"
| "readable_numbers pn (JObject symbols es) = list_all (\<lambda>(k, v). readable_numbers pn v) es"
| "readable_numbers pn _ = True"

lemma number_json_reads:
  assumes "is_finite_number x" "readable_number pn x" "delimited r"
  shows "parse_number (number_json pn x @ r) = Some (x, r)"
proof -
  have "parse_number (js (pn x) @ r) = Some (x, r)" if "parse_number (js (pn x)) = Some (x, [])"
    using parse_number_append [OF that assms(3)] by simp
  then show ?thesis using assms parse_number_decimal
    by (cases x) (auto simp: number_json_def is_finite_number_def readable_number_def)
qed

lemma parse_value_literal:
  assumes "t \<noteq> []" "hd t = 0x2D \<or> is_digit (hd t) \<or> hd t \<in> {0x6E, 0x74, 0x66}"
  shows "parse_value (t @ r) = parse_literal (t @ r)" "value_start t"
proof -
  obtain c u where t: "t = c # u" using assms(1) by (cases t) auto
  have c: "c \<noteq> 0x22" "c \<noteq> 0x5B" "c \<noteq> 0x7B" "c \<noteq> 0x5D" "c \<noteq> 0x7D" "\<not> json_space c"
    using assms(2) t by (auto simp: is_digit_def json_space_def)
  then show "value_start t" by (simp add: value_start_def t)
  show "parse_value (t @ r) = parse_literal (t @ r)"
    using c by (simp add: t parse_value.simps [of "_ # _"] skip_space_def)
qed

lemma number_reads_as:
  assumes "is_finite_number x" "readable_number pn x" shows "reads_as (number_json pn x) (JNumber x)"
proof -
  define t where "t = number_json pn x"
  have p: "parse_number (t @ r) = Some (x, r)" if "delimited r" for r
    using number_json_reads [OF assms that] by (simp add: t_def)
  have start: "t \<noteq> [] \<and> (hd t = 0x2D \<or> is_digit (hd t))" using parse_number_start [of t] p [of "[]"] by simp
  then have lit: "parse_literal (t @ r) = map_option (apfst JNumber) (parse_number (t @ r))" for r
    by (cases t) (auto simp: parse_literal_def js_def is_digit_def)
  show ?thesis using start lit p parse_value_literal [of t] unfolding t_def [symmetric] reads_as_def by auto
qed

lemma literal_reads_as:
  "reads_as (js ''null'') JNull" "reads_as (js (if b then ''true'' else ''false'')) (JBool b)"
  using parse_value_literal [of "js ''null''"] parse_value_literal [of "js ''true''"] parse_value_literal [of "js ''false''"]
  by (auto simp: reads_as_def parse_literal_def js_def)

lemma string_reads_as: "reads_as (quote_json s) (JString s)"
  by (auto simp: reads_as_def quote_json_def value_start_def parse_value.simps [of "_ # _"] skip_space_def parse_quote_units)

lemma array_reads_as:
  assumes "list_all2 reads_as ts vs" shows "reads_as ([0x5B] @ join_on 0x2C ts @ [0x5D]) (JArray vs)"
proof (cases ts)
  case Nil
  then show ?thesis using assms by (simp add: reads_as_def value_start_def parse_value.simps [of "_ # _"] skip_space_def)
next
  case (Cons t us)
  then have "value_start t" using assms by (auto simp: list_all2_Cons1 reads_as_def)
  then have "expect 0x5D (join_on 0x2C ts @ r) = None" for r
    using expect_start [of t] by (simp add: Cons join_on_Cons)
  then show ?thesis using parse_elements_join [OF assms] Cons
    by (simp add: reads_as_def value_start_def parse_value.simps [of "_ # _"] skip_space_def)
qed

lemma update_distinct:
  "distinct (map fst es @ map fst ms) \<Longrightarrow> foldl (\<lambda>es (k, v). AList.update k v es) es ms = es @ ms"
proof (induction ms arbitrary: es)
  case (Cons m ms)
  then have "AList.update (fst m) (snd m) es = es @ [m]" by (simp add: update_fresh)
  then show ?case using Cons.IH [of "es @ [m]"] Cons.prems by (auto simp: case_prod_beta)
qed simp

lemma object_of_wf: "distinct (map fst es) \<Longrightarrow> own_keys_order es = es \<Longrightarrow> object_of es = JObject False es"
  using update_distinct [of "[]" es] by (simp add: object_of_def)

lemma object_reads_as:
  assumes "list_all2 (\<lambda>u (k, v). \<exists>t. u = quote_json k @ 0x3A # t \<and> reads_as t v) us es" "object_of es = JObject False es"
  shows "reads_as ([0x7B] @ join_on 0x2C us @ [0x7D]) (JObject False es)"
proof (cases us)
  case Nil
  then show ?thesis using assms by (simp add: reads_as_def value_start_def parse_value.simps [of "_ # _"] skip_space_def)
next
  case (Cons u ws)
  then obtain u' where "u = 0x22 # u'" using assms by (auto simp: list_all2_Cons1 quote_json_def)
  then have "expect 0x7D (join_on 0x2C us @ r) = None" for r by (simp add: Cons join_on_Cons)
  then show ?thesis using parse_members_join [OF assms(1)] Cons assms(2)
    by (simp add: reads_as_def value_start_def parse_value.simps [of "_ # _"] skip_space_def)
qed

theorem stringify_reads_as:
  "json_value v \<Longrightarrow> wf_value v \<Longrightarrow> readable_numbers pn v \<Longrightarrow> stringify pn po v = JsonText t \<Longrightarrow> reads_as t v"
proof (induction v arbitrary: t rule: json_value.induct)
  case (5 vs)
  define ts where "ts = map (\<lambda>v. case stringify pn po v of JsonText t \<Rightarrow> t | _ \<Rightarrow> js ''null'') vs"
  have t: "t = [0x5B] @ join_on 0x2C ts @ [0x5D]"
    using "5.prems"(4) by (auto simp: array_json_def ts_def comp_def split: if_splits)
  have "reads_as (case stringify pn po v of JsonText t \<Rightarrow> t | _ \<Rightarrow> js ''null'') v" if "v \<in> set vs" for v
    using "5.IH" [OF that] "5.prems" json_value_text [of v pn po] that by (auto simp: list_all_iff)
  then have "list_all2 reads_as ts vs" by (simp add: ts_def list.rel_map list.rel_refl_strong)
  then show ?case unfolding t by (rule array_reads_as)
next
  case (6 symbols es)
  define f where "f = (\<lambda>(k, v). quote_json k @ 0x3A # (case stringify pn po v of JsonText t \<Rightarrow> t | _ \<Rightarrow> []))"
  have texts: "\<exists>u. stringify pn po v = JsonText u \<and> reads_as u v" if "(k, v) \<in> set es" for k v
    using "6.IH" [of "(k, v)" k v] "6.prems" json_value_text [of v pn po] that by (fastforce simp: list_all_iff)
  have "List.map_filter (\<lambda>(k, r). case r of JsonText t \<Rightarrow> Some (quote_json k @ [0x3A] @ t) | _ \<Rightarrow> None)
      (map (\<lambda>(k, v). (k, stringify pn po v)) es) = map f es"
    using texts by (induction es) (fastforce simp: map_filter_simps f_def)+
  then have t: "t = [0x7B] @ join_on 0x2C (map f es) @ [0x7D]"
    using "6.prems"(4) by (auto simp: object_json_def split: if_splits)
  have "list_all2 (\<lambda>u (k, v). \<exists>t. u = quote_json k @ 0x3A # t \<and> reads_as t v) (map f es) es"
    unfolding list.rel_map by (rule list.rel_refl_strong) (use texts in \<open>fastforce simp: f_def\<close>)
  then have "reads_as t (JObject False es)"
    unfolding t by (rule object_reads_as) (use "6.prems" in \<open>simp add: object_of_wf\<close>)
  then show ?case using "6.prems" by simp
qed (auto simp: literal_reads_as [simplified] number_reads_as string_reads_as)

theorem json_round_trip:
  assumes "json_value v" "wf_value v" "readable_numbers pn v" "stringify pn po v = JsonText t"
  shows "json_parse t = Some v"
  using stringify_reads_as [OF assms] by (auto simp: reads_as_def json_parse_def skip_space_def dest: spec [of _ "[]"])

section \<open>A text and its beginnings\<close>

text \<open>What the parser makes of a text it makes of every longer one, but for a number at the very end.\<close>

lemma while_append:
  "dropWhile P s \<noteq> [] \<Longrightarrow> takeWhile P (s @ x) = takeWhile P s" "dropWhile P s \<noteq> [] \<Longrightarrow> dropWhile P (s @ x) = dropWhile P s @ x"
  by (induction s) auto

lemma int_part_extend: "int_part s = Some (ds, r) \<Longrightarrow> r \<noteq> [] \<Longrightarrow> int_part (s @ x) = Some (ds, r @ x)"
  using while_append [of is_digit "tl s" x] by (cases s) (auto simp: int_part_def split: if_splits)

lemma frac_part_extend: "frac_part s = Some (ds, r) \<Longrightarrow> r \<noteq> [] \<Longrightarrow> frac_part (s @ x) = Some (ds, r @ x)"
  using while_append [of is_digit "tl s" x] by (cases s) (auto simp: frac_part_def split: if_splits)

lemma exp_part_extend:
  assumes "exp_part s = Some (e, r)" "r \<noteq> []" shows "exp_part (s @ x) = Some (e, r @ x)"
proof (cases s)
  case (Cons c t)
  show ?thesis
  proof (cases "c = 0x65 \<or> c = 0x45")
    case True
    then have "t \<noteq> []" using assms Cons by (auto simp: exp_part_def)
    then show ?thesis using assms Cons True while_append [of is_digit t x] while_append [of is_digit "tl t" x]
      by (auto simp: exp_part_def Let_def split: if_splits)
  next
    case False
    then show ?thesis using assms Cons by (auto simp: exp_part_def)
  qed
qed (use assms in \<open>simp add: exp_part_def\<close>)

lemma parse_number_extend:
  assumes "parse_number s = Some (y, r)" "r \<noteq> []" shows "parse_number (s @ x) = Some (y, r @ x)"
proof -
  have ne: "s \<noteq> []" using parse_number_start [OF assms(1)] by simp
  define neg where "neg = (hd s = 0x2D)"
  define u where "u = (if neg then tl s else s)"
  have sign: "hd (s @ x) = hd s" "(if neg then tl (s @ x) else s @ x) = u @ x" using ne by (auto simp: u_def)
  obtain ds r1 fs r2 e where p: "int_part u = Some (ds, r1)" "frac_part r1 = Some (fs, r2)" "exp_part r2 = Some (e, r)"
    and y: "y = nearest_number neg (of_int (digits_int (ds @ fs)) * 10 powi (e - int (length fs)))"
    using assms(1) ne unfolding parse_number_def Let_def neg_def u_def
    by (simp split: option.splits prod.splits)
  have "r2 \<noteq> []" using exp_part_shorter [OF p(3)] assms(2) by auto
  moreover from this have "r1 \<noteq> []" using frac_part_shorter [OF p(2)] by auto
  ultimately show ?thesis using ne sign unfolding parse_number_def Let_def neg_def [symmetric]
    by (simp add: int_part_extend [OF p(1)] frac_part_extend [OF p(2)] exp_part_extend [OF p(3) assms(2)] y neg_def)
qed

definition word_start :: "16 word \<Rightarrow> bool" where
  "word_start c = (c = 0x6E \<or> c = 0x74 \<or> c = 0x66)"

lemma parse_literal_extend:
  assumes "parse_literal s = Some (v, r)" "r \<noteq> [] \<or> word_start (hd s)"
  shows "parse_literal (s @ x) = Some (v, r @ x)"
proof -
  have len: "4 \<le> length s" if "take 4 s = js w" "length w = 4" for w using arg_cong [OF that(1), of length] that(2) by (simp add: js_def)
  have len5: "5 \<le> length s" if "take 5 s = js w" "length w = 5" for w using arg_cong [OF that(1), of length] that(2) by (simp add: js_def)
  consider "take 4 s = js ''null''" | "take 4 s = js ''true''" | "take 5 s = js ''false''"
    | "take 4 s \<noteq> js ''null''" "take 4 s \<noteq> js ''true''" "take 5 s \<noteq> js ''false''" by blast
  then show ?thesis
  proof cases
    case 4
    then obtain y where y: "parse_number s = Some (y, r)" "v = JNumber y"
      using assms(1) by (auto simp: parse_literal_def)
    have st: "s \<noteq> []" "hd s = 0x2D \<or> is_digit (hd s)" using parse_number_start [OF y(1)] by auto
    then have "\<not> word_start (hd s)" by (auto simp: word_start_def is_digit_def)
    then have "parse_number (s @ x) = Some (y, r @ x)" using parse_number_extend [OF y(1)] assms(2) by simp
    moreover have "take 4 (s @ x) \<noteq> js ''null''" "take 4 (s @ x) \<noteq> js ''true''" "take 5 (s @ x) \<noteq> js ''false''"
      using st by (cases s; auto simp: js_def is_digit_def)+
    ultimately show ?thesis using y by (simp add: parse_literal_def)
  qed (use assms(1) len [of "''null''"] len [of "''true''"] len5 [of "''false''"] in \<open>auto simp: parse_literal_def js_def\<close>)
qed

lemma parse_escape_extend: "parse_escape s = Some (u, r) \<Longrightarrow> parse_escape (s @ x) = Some (u, r @ x)"
  by (auto simp: parse_escape_def split: list.splits if_splits option.splits)

lemma parse_string_extend: "parse_string s = Some (t, r) \<Longrightarrow> parse_string (s @ x) = Some (t, r @ x)"
proof (induction s arbitrary: t rule: parse_string.induct)
  case (2 c s)
  then show ?case by (fastforce split: if_splits option.splits dest: parse_escape_extend [where x = x])
qed simp

lemma skip_space_extend: "skip_space s = c # r \<Longrightarrow> skip_space (s @ x) = c # r @ x"
  using while_append(2) [of json_space s x] by (simp add: skip_space_def)

lemma expect_extend: "expect c s = Some r \<Longrightarrow> expect c (s @ x) = Some (r @ x)"
  "expect c s = None \<Longrightarrow> skip_space s \<noteq> [] \<Longrightarrow> expect c (s @ x) = None"
  by (cases "skip_space s"; auto simp: expect_def skip_space_extend split: if_splits)+

definition bracket_start :: "js_string \<Rightarrow> bool" where
  "bracket_start s = (skip_space s \<noteq> [] \<and> (hd (skip_space s) = 0x22 \<or> hd (skip_space s) = 0x5B \<or> hd (skip_space s) = 0x7B))"

lemma parse_extend:
  "parse_value s = Some (v, r) \<Longrightarrow> r \<noteq> [] \<or> bracket_start s \<Longrightarrow> parse_value (s @ x) = Some (v, r @ x)"
  "parse_elements s = Some (vs, r) \<Longrightarrow> parse_elements (s @ x) = Some (vs, r @ x)"
  "parse_members s = Some (ms, r) \<Longrightarrow> parse_members (s @ x) = Some (ms, r @ x)"
proof (induction s and s and s arbitrary: v r and vs r and ms r rule: parse_value_parse_elements_parse_members.induct)
  case (1 s)
  obtain c r0 where s: "skip_space s = c # r0"
    using "1.prems"(1) by (auto simp: parse_value.simps [of s] split: list.splits)
  have s': "skip_space (s @ x) = c # r0 @ x" using skip_space_extend [OF s] .
  have some: "skip_space r0 \<noteq> []" if "parse_elements r0 = Some z \<or> parse_members r0 = Some w" for z w
    using that by (auto simp: parse_elements.simps [of r0] parse_members.simps [of r0] parse_value.simps [of r0] expect_def
        split: list.splits option.splits)
  consider (str) "c = 0x22" | (arr) "c = 0x5B" | (ob) "c = 0x7B" | (lit) "c \<noteq> 0x22" "c \<noteq> 0x5B" "c \<noteq> 0x7B" by blast
  then show ?case
  proof cases
    case str
    then show ?thesis using "1.prems"(1) s s' parse_string_extend [of r0 _ _ x]
      by (auto simp: parse_value.simps [of s] parse_value.simps [of "s @ x"])
  next
    case arr
    show ?thesis
    proof (cases "expect 0x5D r0")
      case None
      then obtain vs where vs: "parse_elements r0 = Some (vs, r)" "v = JArray vs"
        using "1.prems"(1) s arr by (auto simp: parse_value.simps [of s])
      then have "parse_elements (r0 @ x) = Some (vs, r @ x)" using "1.IH"(1) [OF s] arr None by auto
      moreover have "expect 0x5D (r0 @ x) = None" using expect_extend(2) [OF None] some vs by blast
      ultimately show ?thesis using s' arr vs by (simp add: parse_value.simps [of "s @ x"])
    next
      case (Some r1)
      then show ?thesis using "1.prems"(1) s s' arr expect_extend(1) [OF Some, of x]
        by (simp add: parse_value.simps [of s] parse_value.simps [of "s @ x"])
    qed
  next
    case ob
    show ?thesis
    proof (cases "expect 0x7D r0")
      case None
      then obtain ms where ms: "parse_members r0 = Some (ms, r)" "v = object_of ms"
        using "1.prems"(1) s ob by (auto simp: parse_value.simps [of s])
      then have "parse_members (r0 @ x) = Some (ms, r @ x)" using "1.IH"(2) [OF s] ob None by auto
      moreover have "expect 0x7D (r0 @ x) = None" using expect_extend(2) [OF None] some ms by blast
      ultimately show ?thesis using s' ob ms by (simp add: parse_value.simps [of "s @ x"])
    next
      case (Some r1)
      then show ?thesis using "1.prems"(1) s s' ob expect_extend(1) [OF Some, of x]
        by (simp add: parse_value.simps [of s] parse_value.simps [of "s @ x"])
    qed
  next
    case lit
    then have "r \<noteq> []" using "1.prems"(2) s by (auto simp: bracket_start_def)
    moreover have "parse_literal (c # r0) = Some (v, r)" using "1.prems"(1) s lit by (simp add: parse_value.simps [of s])
    ultimately have "parse_literal (c # r0 @ x) = Some (v, r @ x)" using parse_literal_extend [of "c # r0" v r x] by simp
    then show ?thesis using s' lit by (simp add: parse_value.simps [of "s @ x"])
  qed
next
  case (2 s)
  obtain v r1 where v: "parse_value s = Some (v, r1)" using "2.prems" by (auto simp: parse_elements.simps [of s] split: option.splits)
  have ne: "skip_space r1 \<noteq> []" using "2.prems" v by (auto simp: parse_elements.simps [of s] expect_def split: option.splits list.splits)
  then have "r1 \<noteq> []" by (auto simp: skip_space_def)
  then have v': "parse_value (s @ x) = Some (v, r1 @ x)" using "2.IH"(1) [OF v] by simp
  show ?case
  proof (cases "expect 0x5D r1")
    case None
    then obtain r2 vs' where r2: "expect 0x2C r1 = Some r2" "parse_elements r2 = Some (vs', r)" "vs = v # vs'"
      using "2.prems" v by (auto simp: parse_elements.simps [of s] split: option.splits)
    then have "parse_elements (r2 @ x) = Some (vs', r @ x)" using "2.IH"(2) [OF v refl None r2(1)] by blast
    then show ?thesis using v' r2 expect_extend(2) [OF None ne, of x] expect_extend(1) [OF r2(1), of x]
      by (simp add: parse_elements.simps [of "s @ x"])
  next
    case (Some r2)
    then show ?thesis using "2.prems" v v' expect_extend(1) [OF Some, of x]
      by (simp add: parse_elements.simps [of s] parse_elements.simps [of "s @ x"])
  qed
next
  case (3 s)
  obtain q k r1 r2 v r3 where p: "expect 0x22 s = Some q" "parse_string q = Some (k, r1)" "expect 0x3A r1 = Some r2"
      "parse_value r2 = Some (v, r3)"
    using "3.prems" by (auto simp: parse_members.simps [of s] split: option.splits)
  have ne: "skip_space r3 \<noteq> []" using "3.prems" p by (auto simp: parse_members.simps [of s] expect_def split: option.splits list.splits)
  then have "r3 \<noteq> []" by (auto simp: skip_space_def)
  then have v': "parse_value (r2 @ x) = Some (v, r3 @ x)" using "3.IH"(1) [OF p(1,2) refl p(3) p(4)] by simp
  note p' = expect_extend(1) [OF p(1), of x] parse_string_extend [OF p(2), of x] expect_extend(1) [OF p(3), of x]
  show ?case
  proof (cases "expect 0x7D r3")
    case None
    then obtain r4 ms' where r4: "expect 0x2C r3 = Some r4" "parse_members r4 = Some (ms', r)" "ms = (k, v) # ms'"
      using "3.prems" p by (auto simp: parse_members.simps [of s] split: option.splits)
    then have "parse_members (r4 @ x) = Some (ms', r @ x)" using "3.IH"(2) [OF p(1,2) refl p(3) p(4) refl None r4(1)] by blast
    then show ?thesis using v' p' r4 expect_extend(2) [OF None ne, of x] expect_extend(1) [OF r4(1), of x]
      by (simp add: parse_members.simps [of "s @ x"])
  next
    case (Some r4)
    then show ?thesis using "3.prems" p p' v' expect_extend(1) [OF Some, of x]
      by (simp add: parse_members.simps [of s] parse_members.simps [of "s @ x"])
  qed
qed

text \<open>A proper beginning of the text of an object is not JSON.\<close>

theorem torn_object:
  assumes "parse_value (p @ q) = Some (v, [])" "q \<noteq> []" "p = [] \<or> hd p = 0x7B" shows "json_parse p = None"
proof (rule ccontr)
  assume "json_parse p \<noteq> None"
  then obtain w r where w: "parse_value p = Some (w, r)" by (auto simp: json_parse_def split: option.splits)
  have "p \<noteq> []" using w by (auto simp: parse_value.simps [of "[]"] skip_space_def)
  then obtain p' where "p = 0x7B # p'" using assms(3) by (cases p) auto
  then have "bracket_start p" by (simp add: bracket_start_def skip_space_def)
  then have "parse_value (p @ q) = Some (w, r @ q)" using parse_extend(1) [OF w] by simp
  then show False using assms(1,2) by simp
qed

section \<open>A text is one line\<close>

lemma int_part_split: "int_part s = Some (ds, r) \<Longrightarrow> s = ds @ r \<and> list_all is_digit ds"
  by (cases s) (auto simp: int_part_def list_all_iff is_digit_def [of 48] split: if_splits dest: set_takeWhileD)

lemma frac_part_split: "frac_part s = Some (ds, r) \<Longrightarrow> \<exists>p. s = p @ r \<and> list_all (\<lambda>c. is_digit c \<or> c = 0x2E) p"
  by (cases s) (auto simp: frac_part_def list_all_iff split: if_splits dest: set_takeWhileD
      intro!: exI [of _ "hd s # takeWhile is_digit (tl s)"])

lemma exp_part_split:
  "exp_part s = Some (e, r) \<Longrightarrow> \<exists>p. s = p @ r \<and> list_all (\<lambda>c. is_digit c \<or> c \<in> {0x65, 0x45, 0x2B, 0x2D}) p"
proof (cases s)
  case (Cons c t)
  assume "exp_part s = Some (e, r)"
  moreover have "list_all (\<lambda>c. is_digit c \<or> c \<in> {0x65, 0x45, 0x2B, 0x2D}) (takeWhile is_digit u)" for u
    by (auto simp: list_all_iff dest: set_takeWhileD)
  ultimately show ?thesis using Cons
    by (cases t) (auto simp: exp_part_def Let_def split: if_splits
        intro: exI [of _ "c # takeWhile is_digit t"] exI [of _ "c # hd t # takeWhile is_digit (tl t)"])
qed (simp add: exp_part_def)

definition number_char :: "16 word \<Rightarrow> bool" where
  "number_char c = (is_digit c \<or> c \<in> {0x2E, 0x65, 0x45, 0x2B, 0x2D})"

lemma parse_number_chars: "parse_number s = Some (y, []) \<Longrightarrow> list_all number_char s"
proof -
  assume p: "parse_number s = Some (y, [])"
  define u where "u = (if s \<noteq> [] \<and> hd s = 0x2D then tl s else s)"
  obtain ds r1 fs r2 e where q: "int_part u = Some (ds, r1)" "frac_part r1 = Some (fs, r2)" "exp_part r2 = Some (e, [])"
    using p unfolding parse_number_def Let_def u_def by (auto split: option.splits prod.splits)
  have "list_all number_char u"
    using int_part_split [OF q(1)] frac_part_split [OF q(2)] exp_part_split [OF q(3)]
    by (auto simp: number_char_def list_all_iff)
  then show ?thesis by (cases s) (auto simp: u_def number_char_def split: if_splits)
qed

lemma number_json_chars: "is_finite_number x \<Longrightarrow> readable_number pn x \<Longrightarrow> list_all number_char (number_json pn x)"
  using number_json_reads [of x pn "[]"] parse_number_chars by simp

lemma hex_digit_printable: "n < 16 \<Longrightarrow> 0x20 \<le> unat (hex_digit n)"
  by (simp add: hex_digit_def unat_of_nat)

lemma quote_unit_printable: "d \<in> set (quote_unit c) \<Longrightarrow> 0x20 \<le> unat d"
  by (auto simp: quote_unit_def unicode_escape_def Let_def hex_digit_printable split: if_splits)

lemma quote_units_printable: "d \<in> set (quote_units s) \<Longrightarrow> 0x20 \<le> unat d"
  by (induction s rule: quote_units.induct)
    (auto simp: is_high_def is_low_def split: if_splits dest: quote_unit_printable)

lemma quote_json_printable: "d \<in> set (quote_json s) \<Longrightarrow> 0x20 \<le> unat d"
  by (auto simp: quote_json_def dest: quote_units_printable)

lemma join_on_set: "d \<in> set (join_on c ls) \<Longrightarrow> d = c \<or> (\<exists>l\<in>set ls. d \<in> set l)"
  by (induction c ls rule: join_on.induct) auto

theorem stringify_printable:
  "json_value v \<Longrightarrow> readable_numbers pn v \<Longrightarrow> stringify pn po v = JsonText t \<Longrightarrow> d \<in> set t \<Longrightarrow> 0x20 \<le> unat d"
proof (induction v arbitrary: t rule: json_value.induct)
  case (3 x)
  then have "number_char d" using number_json_chars [of x pn] by (auto simp: list_all_iff)
  then show ?case by (auto simp: number_char_def is_digit_def)
next
  case (4 s)
  then show ?case using quote_json_printable by auto
next
  case (5 vs)
  have "\<exists>v\<in>set vs. d \<in> set (case stringify pn po v of JsonText t \<Rightarrow> t | _ \<Rightarrow> js ''null'')" if "d \<notin> {0x5B, 0x2C, 0x5D}"
    using "5.prems"(3,4) that by (auto simp: array_json_def split: if_splits dest!: join_on_set) blast
  moreover have "0x20 \<le> unat d" if "v \<in> set vs" "d \<in> set (case stringify pn po v of JsonText t \<Rightarrow> t | _ \<Rightarrow> js ''null'')" for v
    using "5.IH" [OF that(1)] "5.prems" json_value_text [of v pn po] that by (auto simp: list_all_iff)
  ultimately show ?case by (cases "d \<in> {0x5B, 0x2C, 0x5D}") auto
next
  case (6 symbols es)
  then have "\<exists>k v u. (k, v) \<in> set es \<and> stringify pn po v = JsonText u \<and> d \<in> set (quote_json k @ [0x3A] @ u)"
    if "d \<notin> {0x7B, 0x2C, 0x7D}"
    using that by (fastforce simp: object_json_def map_filter_def split: if_splits json_result.splits dest!: join_on_set)
  moreover have "0x20 \<le> unat d" if "(k, v) \<in> set es" "stringify pn po v = JsonText u" "d \<in> set (quote_json k @ [0x3A] @ u)" for k v u
    using "6.IH" [of "(k, v)" k v] "6.prems" that quote_json_printable by (fastforce simp: list_all_iff)
  ultimately show ?case by (cases "d \<in> {0x7B, 0x2C, 0x7D}") auto
qed (auto simp: js_def split: if_splits)

lemma object_text_start: "stringify pn po (JObject b es) = JsonText t \<Longrightarrow> hd t = 0x7B \<and> t \<noteq> []"
  by (auto simp: object_json_def split: if_splits)

text \<open>The text of an object that was parsed ends with a brace, so one that breaks off inside a character is not JSON either.\<close>


lemma expect_split: "expect c s = Some r \<Longrightarrow> \<exists>u. s = u @ c # r"
  using exI [of "\<lambda>u. s = u @ dropWhile json_space s" "takeWhile json_space s"]
  by (auto simp: expect_def skip_space_def split: list.splits if_splits)

lemma expect_suffix: "expect c s = Some r \<Longrightarrow> \<exists>u. s = u @ r"
  using expect_split [of c s r] by (metis append.assoc append_Cons append_Nil)

lemma parse_escape_suffix: "parse_escape s = Some (c, r) \<Longrightarrow> \<exists>u. s = u @ r"
  by (auto simp: parse_escape_def split: list.splits if_splits option.splits)

lemma parse_string_suffix: "parse_string s = Some (t, r) \<Longrightarrow> \<exists>u. s = u @ r"
proof (induction s arbitrary: t rule: parse_string.induct)
  case (2 c s)
  then show ?case
    by (auto split: if_splits option.splits dest!: parse_escape_suffix) (metis append_Cons append.assoc)+
qed simp

lemma parse_number_suffix: "parse_number s = Some (y, r) \<Longrightarrow> \<exists>u. s = u @ r"
proof -
  assume p: "parse_number s = Some (y, r)"
  define u where "u = (if s \<noteq> [] \<and> hd s = 0x2D then tl s else s)"
  obtain ds r1 fs r2 e where q: "int_part u = Some (ds, r1)" "frac_part r1 = Some (fs, r2)" "exp_part r2 = Some (e, r)"
    using p unfolding parse_number_def Let_def u_def by (auto split: option.splits prod.splits)
  obtain z where "u = z @ r"
    using int_part_split [OF q(1)] frac_part_split [OF q(2)] exp_part_split [OF q(3)] by (metis append.assoc)
  moreover have "\<exists>x. s = x @ u" by (cases s) (auto simp: u_def)
  ultimately show ?thesis by (metis append.assoc)
qed

lemma parse_literal_suffix: "parse_literal s = Some (v, r) \<Longrightarrow> \<exists>u. s = u @ r"
  by (auto simp: parse_literal_def split: if_splits dest!: parse_number_suffix intro: append_take_drop_id [symmetric])

lemma parse_suffix:
  "parse_value s = Some (v, r) \<Longrightarrow> \<exists>u. s = u @ r"
  "parse_elements s = Some (vs, r) \<Longrightarrow> \<exists>u. s = u @ r"
  "parse_members s = Some (ms, r) \<Longrightarrow> \<exists>u. s = u @ 0x7D # r"
proof (induction s and s and s arbitrary: v r and vs r and ms r rule: parse_value_parse_elements_parse_members.induct)
  case (1 s)
  obtain c r0 where s: "skip_space s = c # r0"
    using "1.prems"(1) by (auto simp: parse_value.simps [of s] split: list.splits)
  have "\<exists>u. c # r0 = u @ r"
    using "1.prems" s "1.IH" [OF s]
    by (auto simp: parse_value.simps [of s] split: if_splits option.splits
        dest!: parse_literal_suffix parse_string_suffix expect_suffix)
  then show ?case using takeWhile_dropWhile_id [of json_space s] s by (metis append.assoc skip_space_def)
next
  case (2 s)
  then show ?case
    by (fastforce simp: parse_elements.simps [of s] split: option.splits dest!: expect_suffix)
next
  case (3 s)
  obtain q k r1 r2 v r3 where p: "expect 0x22 s = Some q" "parse_string q = Some (k, r1)" "expect 0x3A r1 = Some r2"
      "parse_value r2 = Some (v, r3)"
    using "3.prems" by (auto simp: parse_members.simps [of s] split: option.splits)
  obtain w where w: "s = w @ r3"
    using "3.IH"(1) [OF p(1,2) refl p(3) p(4)] expect_suffix [OF p(1)] parse_string_suffix [OF p(2)] expect_suffix [OF p(3)]
    by (metis append.assoc)
  show ?case
  proof (cases "expect 0x7D r3")
    case None
    then obtain r4 ms' where r4: "expect 0x2C r3 = Some r4" "parse_members r4 = Some (ms', r)"
      using "3.prems" p by (auto simp: parse_members.simps [of s] split: option.splits)
    then show ?thesis using "3.IH"(2) [OF p(1,2) refl p(3) p(4) refl None r4(1)] expect_suffix [OF r4(1)] w by (metis append.assoc)
  next
    case (Some r4)
    then have "r = r4" using "3.prems" p by (simp add: parse_members.simps [of s])
    then show ?thesis using expect_split [OF Some] w by (metis append.assoc)
  qed
qed

theorem object_text_end:
  assumes "json_parse (0x7B # s) = Some v" shows "\<exists>u r. s = u @ 0x7D # r \<and> skip_space r = []"
proof -
  obtain r where r: "parse_value (0x7B # s) = Some (v, r)" "skip_space r = []"
    using assms by (auto simp: json_parse_def split: option.splits if_splits)
  have "\<exists>u. s = u @ 0x7D # r"
    using r(1) expect_split [of "0x7D" s] parse_suffix(3) [of s]
    by (auto simp: parse_value.simps [of "_ # _"] skip_space_def split: option.splits)
  with r(2) show ?thesis by blast
qed

theorem torn_character:
  assumes "hd p = 0x7B" "p \<noteq> []" shows "json_parse (p @ [0xFFFD]) = None"
proof (rule ccontr)
  assume "json_parse (p @ [0xFFFD]) \<noteq> None"
  then obtain p' v where "p = 0x7B # p'" "json_parse (0x7B # p' @ [0xFFFD]) = Some v" using assms by (cases p) auto
  then obtain u r where u: "p' @ [0xFFFD] = u @ 0x7D # r" "skip_space r = []" using object_text_end by blast
  then have "r \<noteq> []" "last r = 0xFFFD" by (cases r rule: rev_cases; auto simp: append_eq_append_conv2)+
  then have "\<not> json_space (last r)" by (simp add: json_space_def)
  then show False using u(2) \<open>r \<noteq> []\<close> last_in_set [of r] by (auto simp: skip_space_def)
qed

end
