(* ===== verification/Json_File.thy ===== *)
theory Json_File
  imports Js_Parse
begin

text \<open>
  JSON in a file that people edit: \<open>JSON.stringify(value, null, 2)\<close>, the comments and trailing commas that
  \<open>coding-agent/src/utils/json.ts\<close> removes, and the byte order mark of \<open>utils/text.ts\<close>. What the program prints has
  nothing of the kind, so it is read back as it was.
\<close>

section \<open>Printing with an indentation\<close>

text \<open>\<open>pad\<close> is the line break and the indentation of the elements, \<open>backpad\<close> that of the closing bracket.\<close>

definition array_indented :: "js_string \<Rightarrow> js_string \<Rightarrow> json_result list \<Rightarrow> json_result" where
  "array_indented pad backpad rs =
     (if JsonThrows \<in> set rs then JsonThrows
      else if rs = [] then JsonText [0x5B, 0x5D]
      else JsonText ([0x5B] @ join_on 0x2C (map (\<lambda>r. pad @ (case r of JsonText t \<Rightarrow> t | _ \<Rightarrow> js ''null'')) rs) @ backpad @ [0x5D]))"

definition object_indented :: "js_string \<Rightarrow> js_string \<Rightarrow> (js_string \<times> json_result) list \<Rightarrow> json_result" where
  "object_indented pad backpad rs =
     (if JsonThrows \<in> snd ` set rs then JsonThrows
      else let members = List.map_filter (\<lambda>(k, r).
                 case r of JsonText t \<Rightarrow> Some (pad @ quote_json k @ [0x3A, 0x20] @ t) | _ \<Rightarrow> None) rs
           in if members = [] then JsonText [0x7B, 0x7D]
              else JsonText ([0x7B] @ join_on 0x2C members @ backpad @ [0x7D]))"

definition new_line :: "nat \<Rightarrow> js_string" where
  "new_line depth = LF # replicate (2 * depth) 0x20"

fun stringify_indented :: "(js_number \<Rightarrow> string) \<Rightarrow> (string \<Rightarrow> js_string) \<Rightarrow> nat \<Rightarrow> js_value \<Rightarrow> json_result" where
  "stringify_indented pn po d (JBytes bs) =
     object_indented (new_line (Suc d)) (new_line d)
       (map (\<lambda>(i, b). (js (decimal i), JsonText (js (decimal (unat b))))) (enumerate 0 bs))"
| "stringify_indented pn po d (JArray vs) =
     array_indented (new_line (Suc d)) (new_line d) (map (stringify_indented pn po (Suc d)) vs)"
| "stringify_indented pn po d (JObject symbols es) =
     object_indented (new_line (Suc d)) (new_line d) (map (\<lambda>(k, v). (k, stringify_indented pn po (Suc d) v)) es)"
| "stringify_indented pn po d v = stringify pn po v"

section \<open>Comments and trailing commas\<close>

text \<open>The rest of a string literal after its opening quote, with the closing quote, and what follows it.\<close>

fun string_token :: "js_string \<Rightarrow> (js_string \<times> js_string) option" where
  "string_token [] = None"
| "string_token [c] = (if c = 0x22 then Some ([c], []) else None)"
| "string_token (c # d # r) =
     (if c = 0x22 then Some ([c], d # r)
      else if c = 0x5C then (if line_terminator d then None else map_option (apfst (\<lambda>t. c # d # t)) (string_token r))
      else map_option (apfst ((#) c)) (string_token (d # r)))"

lemma string_token_split: "string_token s = Some (t, r) \<Longrightarrow> s = t @ r \<and> t \<noteq> []"
  by (induction s arbitrary: t rule: string_token.induct) (fastforce split: if_splits)+

lemma string_token_shorter: "string_token s = Some (t, r) \<Longrightarrow> length r < length s"
  by (auto dest: string_token_split)

lemma comment_shorter: "length (dropWhile P (tl r)) < Suc (length r)"
  by (rule le_imp_less_Suc) (use length_dropWhile_le [of P "tl r"] in simp)

function strip_line_comments :: "js_string \<Rightarrow> js_string" where
  "strip_line_comments [] = []"
| "strip_line_comments (c # r) =
     (if c = 0x22 then
        (case string_token r of Some (t, r1) \<Rightarrow> c # t @ strip_line_comments r1 | None \<Rightarrow> c # strip_line_comments r)
      else if c = 0x2F \<and> r \<noteq> [] \<and> hd r = 0x2F then strip_line_comments (dropWhile (\<lambda>d. d \<noteq> LF) (tl r))
      else c # strip_line_comments r)"
  by pat_completeness auto
termination
  by (relation "measure length") (auto dest: string_token_shorter simp: comment_shorter)

definition closing :: "16 word \<Rightarrow> bool" where
  "closing c = (c = 0x7D \<or> c = 0x5D)"

text \<open>A comma with only white space before a closing bracket.\<close>

definition trailing_comma :: "16 word \<Rightarrow> js_string \<Rightarrow> bool" where
  "trailing_comma c r = (c = 0x2C \<and> dropWhile js_space r \<noteq> [] \<and> closing (hd (dropWhile js_space r)))"

lemma rest_shorter: "length (tl (dropWhile P r)) < Suc (length r)"
  using length_dropWhile_le [of P r] by simp

function strip_trailing_commas :: "js_string \<Rightarrow> js_string" where
  "strip_trailing_commas [] = []"
| "strip_trailing_commas (c # r) =
     (if c = 0x22 then
        (case string_token r of Some (t, r1) \<Rightarrow> c # t @ strip_trailing_commas r1 | None \<Rightarrow> c # strip_trailing_commas r)
      else if trailing_comma c r then
        takeWhile js_space r @ hd (dropWhile js_space r) # strip_trailing_commas (tl (dropWhile js_space r))
      else c # strip_trailing_commas r)"
  by pat_completeness auto
termination
  by (relation "measure length") (auto dest: string_token_shorter simp: rest_shorter [simplified])

declare strip_line_comments.simps(2) [simp del] strip_trailing_commas.simps(2) [simp del]

definition stripJsonComments :: "js_string \<Rightarrow> js_string" where
  "stripJsonComments s = strip_trailing_commas (strip_line_comments s)"

definition splitBom :: "js_string \<Rightarrow> js_string \<times> js_string" where
  "splitBom s = (if s \<noteq> [] \<and> hd s = 0xFEFF then ([0xFEFF], tl s) else ([], s))"

definition strip_bom :: "js_string \<Rightarrow> js_string" where
  "strip_bom s = snd (splitBom s)"


section \<open>Setting the entries of one list in another\<close>

definition put_all :: "('k \<times> 'v) list \<Rightarrow> ('k \<times> 'v) list \<Rightarrow> ('k \<times> 'v) list" where
  "put_all es ms = foldl (\<lambda>es (k, v). AList.update k v es) es ms"

lemma put_all_simps [simp]: "put_all es [] = es" "put_all es ((k, v) # ms) = put_all (AList.update k v es) ms"
  by (simp_all add: put_all_def)

lemma put_all_append: "put_all es (ms @ ns) = put_all (put_all es ms) ns"
  by (simp add: put_all_def)

lemma put_all_fresh: "distinct (map fst es @ map fst ms) \<Longrightarrow> put_all es ms = es @ ms"
  by (simp add: put_all_def update_distinct)

lemma put_all_lookup: "map_of (put_all es ms) = map_of es ++ map_of (rev ms)"
  by (induction ms arbitrary: es) (auto simp: alist_of_update map_add_upd_left [symmetric] fun_eq_iff map_add_def split: option.splits)

lemma update_all: "list_all P es \<Longrightarrow> P (k, v) \<Longrightarrow> list_all P (AList.update k v es)"
  by (auto simp: list_all_iff dest: alist_update_memD)

lemma put_all_each:
  "list_all P es \<Longrightarrow> list_all P ms \<Longrightarrow> distinct (map fst es) \<Longrightarrow>
   list_all P (put_all es ms) \<and> distinct (map fst (put_all es ms))"
proof (induction ms arbitrary: es)
  case (Cons m ms)
  obtain k v where "m = (k, v)" by force
  then show ?case using Cons.prems Cons.IH [of "AList.update k v es"] update_all [of P es k v] distinct_update [of es k v] by simp
qed simp

section \<open>Stripping what was printed\<close>

text \<open>A text that a pass copies as it is, whatever follows.\<close>

definition copied :: "(js_string \<Rightarrow> js_string) \<Rightarrow> js_string \<Rightarrow> bool" where
  "copied f t = (\<forall>r. f (t @ r) = t @ f r)"

lemma copied_append [intro]: "copied f s \<Longrightarrow> copied f t \<Longrightarrow> copied f (s @ t)"
  by (simp add: copied_def)

lemma copied_Nil [simp]: "copied f []"
  by (simp add: copied_def)

lemma copied_end: "copied f t \<Longrightarrow> f [] = [] \<Longrightarrow> f t = t"
  by (simp add: copied_def) (metis append_Nil2)

definition plain_unit :: "16 word \<Rightarrow> bool" where
  "plain_unit c = (c \<noteq> 0x22 \<and> c \<noteq> 0x2F \<and> c \<noteq> 0x2C)"

lemma copied_plain: "list_all plain_unit t \<Longrightarrow> copied strip_line_comments t" "list_all plain_unit t \<Longrightarrow> copied strip_trailing_commas t"
  by (induction t) (auto simp: copied_def plain_unit_def strip_line_comments.simps(2) strip_trailing_commas.simps(2) trailing_comma_def)

lemma copied_comma: "copied strip_line_comments [0x2C]"
  by (simp add: copied_def strip_line_comments.simps(2))

text \<open>The quoted form of a string is one string token.\<close>

lemma token_plain: "c \<noteq> 0x22 \<Longrightarrow> c \<noteq> 0x5C \<Longrightarrow> string_token (c # r) = map_option (apfst ((#) c)) (string_token r)"
  by (cases r) simp_all

lemma token_escape: "\<not> line_terminator d \<Longrightarrow> string_token (0x5C # d # r) = map_option (apfst (\<lambda>t. 0x5C # d # t)) (string_token r)"
  by simp

lemma token_plains:
  "list_all (\<lambda>c. c \<noteq> 0x22 \<and> c \<noteq> 0x5C) t \<Longrightarrow> string_token (t @ r) = map_option (apfst ((@) t)) (string_token r)"
  by (cases "string_token r"; induction t) (auto simp: token_plain)

lemma hex_digit_plain: "n < 16 \<Longrightarrow> hex_digit n \<noteq> 0x22 \<and> hex_digit n \<noteq> 0x5C"
  using hex_value_digit [of n] by (auto simp: hex_value_def)

lemma token_quote_unit: "string_token (quote_unit c @ r) = map_option (apfst ((@) (quote_unit c))) (string_token r)"
proof -
  have "unicode_escape c @ r = 0x5C # 0x75 # drop 2 (unicode_escape c) @ r" by (simp add: unicode_escape_def Let_def)
  moreover have "list_all (\<lambda>c. c \<noteq> 0x22 \<and> c \<noteq> 0x5C) (drop 2 (unicode_escape c))"
    by (simp add: unicode_escape_def Let_def hex_digit_plain)
  ultimately have "string_token (unicode_escape c @ r) = map_option (apfst ((@) (unicode_escape c))) (string_token r)"
    using token_plains [of "drop 2 (unicode_escape c)" r]
    by (simp add: line_terminator_def LF_def CR_def unicode_escape_def Let_def split: option.splits)
       (cases "string_token r"; auto)
  then show ?thesis by (auto simp: quote_unit_def token_plain line_terminator_def LF_def CR_def apfst_def map_prod_def)
qed

lemma token_quote_units: "string_token (quote_units s @ 0x22 # r) = Some (quote_units s @ [0x22], r)"
proof (induction s rule: quote_units.induct)
  case 1
  then show ?case by (cases r) simp_all
next
  case (2 c)
  then show ?case by (cases r) (simp_all add: token_quote_unit)
next
  case (3 c d ds)
  show ?case
  proof (cases "is_high (unat c) \<and> is_low (unat d)")
    case True
    then have "c \<noteq> 0x22" "d \<noteq> 0x22" "c \<noteq> 0x5C" "d \<noteq> 0x5C" by (auto simp: is_high_def is_low_def)
    then show ?thesis using 3 True by (simp add: token_plain del: string_token.simps)
  next
    case False
    then have "quote_units (c # d # ds) = quote_unit c @ quote_units (d # ds)" by (rule quote_units_step)
    then show ?thesis using False 3 by (simp add: token_quote_unit del: string_token.simps quote_units.simps)
  qed
qed

lemma copied_quote: "copied strip_line_comments (quote_json s)" "copied strip_trailing_commas (quote_json s)"
  by (simp_all add: copied_def quote_json_def strip_line_comments.simps(2) strip_trailing_commas.simps(2) token_quote_units)


section \<open>Reading what was printed\<close>

text \<open>The white space of an indentation.\<close>

definition padding :: "js_string \<Rightarrow> bool" where
  "padding w = list_all json_space w"

lemma padding_new_line [simp]: "padding (new_line d)"
  by (simp add: padding_def new_line_def json_space_def LF_def list_all_iff)

lemma skip_padding: "padding w \<Longrightarrow> skip_space (w @ r) = skip_space r"
  by (induction w) (auto simp: padding_def skip_space_def)

lemma parse_padding: "padding w \<Longrightarrow> parse_value (w @ r) = parse_value r" "padding w \<Longrightarrow> expect c (w @ r) = expect c r"
  by (simp_all add: parse_value.simps [of "w @ r"] parse_value.simps [of r] skip_padding expect_def)

lemma json_js_space: "json_space c \<Longrightarrow> js_space c"
  by (auto simp: json_space_def js_space_def)

lemma delimited_padding: "padding w \<Longrightarrow> delimited r \<Longrightarrow> delimited (w @ r)"
  by (cases w) (auto simp: padding_def delimited_def json_space_def is_digit_def)

lemma padding_plain: "padding w \<Longrightarrow> list_all plain_unit w"
  by (auto simp: padding_def list_all_iff json_space_def plain_unit_def)

text \<open>What a printed value is like: it reads as the value, is copied by both passes, and no white space or closing bracket
  comes first, so that a comma before it stays.\<close>

definition printed_as :: "js_string \<Rightarrow> js_value \<Rightarrow> bool" where
  "printed_as t v = (reads_as t v \<and> copied strip_line_comments t \<and> copied strip_trailing_commas t \<and> \<not> js_space (hd t))"

lemma printed_start:
  "printed_as t v \<Longrightarrow> t \<noteq> [] \<and> \<not> js_space (hd t) \<and> \<not> closing (hd t) \<and> copied strip_line_comments t \<and> copied strip_trailing_commas t
    \<and> reads_as t v"
  by (auto simp: printed_as_def reads_as_def value_start_def closing_def)

lemma comma_stays:
  assumes "padding w" "t \<noteq> []" "\<not> js_space (hd t)" "\<not> closing (hd t)"
  shows "strip_trailing_commas (0x2C # w @ t @ r) = 0x2C # strip_trailing_commas (w @ t @ r)"
proof -
  obtain c u where "t = c # u" using assms by (cases t) auto
  moreover have "list_all js_space w" using assms(1) by (auto simp: padding_def list_all_iff json_js_space)
  ultimately have "dropWhile js_space (w @ t @ r) = t @ r" using assms(3) by (induction w) auto
  then show ?thesis using assms by (simp add: strip_trailing_commas.simps(2) trailing_comma_def)
qed

text \<open>Padded elements, separated by commas.\<close>

lemma copied_join:
  assumes "padding w" "\<forall>t\<in>set ts. t \<noteq> [] \<and> \<not> js_space (hd t) \<and> \<not> closing (hd t) \<and> copied strip_line_comments t \<and> copied strip_trailing_commas t"
  shows "copied strip_line_comments (join_on 0x2C (map ((@) w) ts)) \<and> copied strip_trailing_commas (join_on 0x2C (map ((@) w) ts))"
  using assms(2)
proof (induction ts)
  case (Cons t ts)
  have w: "copied strip_line_comments w" "copied strip_trailing_commas w" using copied_plain padding_plain [OF assms(1)] by auto
  show ?case
  proof (cases ts)
    case Nil
    then show ?thesis using Cons.prems w by auto
  next
    case (Cons u us)
    define rest where "rest = join_on 0x2C (map ((@) w) ts)"
    have IH: "copied strip_line_comments rest" "copied strip_trailing_commas rest" using Cons.IH Cons.prems by (auto simp: rest_def)
    have eq: "join_on 0x2C (map ((@) w) (t # ts)) = (w @ t) @ [0x2C] @ rest" by (simp add: Cons rest_def)
    obtain z where z: "rest = w @ u @ z" by (cases us) (auto simp: rest_def Cons)
    have "strip_trailing_commas (0x2C # rest @ r) = 0x2C # strip_trailing_commas (rest @ r)" for r
      using comma_stays [OF assms(1), of u "z @ r"] Cons.prems by (simp add: z Cons)
    then have "copied strip_trailing_commas ([0x2C] @ rest)" using IH(2) by (simp add: copied_def)
    moreover have "copied strip_line_comments ([0x2C] @ rest)" using copied_comma IH(1) by (rule copied_append)
    ultimately show ?thesis unfolding eq using Cons.prems w by (auto intro!: copied_append)
  qed
qed simp

lemma parse_elements_padded:
  assumes "padding w" "padding z"
  shows "list_all2 reads_as ts vs \<Longrightarrow> ts \<noteq> [] \<Longrightarrow> parse_elements (join_on 0x2C (map ((@) w) ts) @ z @ 0x5D # r) = Some (vs, r)"
proof (induction ts vs rule: list_all2_induct)
  case (Cons t ts v vs)
  have end_delimited: "delimited (z @ 0x5D # r)" using assms(2) by (intro delimited_padding) simp_all
  show ?case
  proof (cases ts)
    case Nil
    then show ?thesis using Cons assms end_delimited by (simp add: parse_elements.simps reads_as_def parse_padding)
  next
    case (Cons u us)
    then show ?thesis using Cons.IH Cons.hyps assms by (simp add: parse_elements.simps [of "w @ _"] reads_as_def parse_padding)
  qed
qed simp

lemma parse_members_padded:
  assumes "padding w" "padding z"
  shows "list_all2 (\<lambda>u (k, v). \<exists>t. u = quote_json k @ 0x3A # 0x20 # t \<and> reads_as t v) us ms \<Longrightarrow> us \<noteq> [] \<Longrightarrow>
    parse_members (join_on 0x2C (map ((@) w) us) @ z @ 0x7D # r) = Some (ms, r)"
proof (induction us ms rule: list_all2_induct)
  case (Cons u us m ms)
  obtain k v where m: "m = (k, v)" by force
  with Cons.hyps obtain t where u: "u = 0x22 # quote_units k @ 0x22 # 0x3A # [0x20] @ t" and t: "reads_as t v"
    by (auto simp: quote_json_def)
  have space: "padding [0x20]" by (simp add: padding_def json_space_def)
  have end_delimited: "delimited (z @ 0x7D # r)" using assms(2) by (intro delimited_padding) simp_all
  note pad = parse_padding [OF assms(1)] parse_padding [OF assms(2)] parse_padding [OF space, simplified]
  show ?case
  proof (cases us)
    case Nil
    then show ?thesis using Cons m t end_delimited by (simp add: parse_members.simps u reads_as_def parse_quote_units pad)
  next
    case (Cons a as)
    then show ?thesis using Cons.IH Cons.hyps m t
      by (simp add: parse_members.simps [of "w @ _"] u reads_as_def parse_quote_units pad)
  qed
qed simp


lemma copied_bracket:
  "plain_unit a \<Longrightarrow> plain_unit b \<Longrightarrow> padding z \<Longrightarrow> copied strip_line_comments x \<and> copied strip_trailing_commas x \<Longrightarrow>
   copied strip_line_comments ([a] @ x @ z @ [b]) \<and> copied strip_trailing_commas ([a] @ x @ z @ [b])"
  using copied_plain [of "[a]"] copied_plain [of "z @ [b]"] padding_plain [of z] by (auto intro!: copied_append simp del: append_Cons append_Nil)

lemma brackets_plain [simp]: "plain_unit 0x5B" "plain_unit 0x5D" "plain_unit 0x7B" "plain_unit 0x7D"
  by (simp_all add: plain_unit_def)

lemma brackets_no_space [simp]: "\<not> js_space 0x5B" "\<not> js_space 0x7B" "\<not> js_space 0x22"
  by (simp_all add: js_space_def)

lemma printed_elements:
  "list_all2 printed_as ts vs \<Longrightarrow>
   (\<forall>t\<in>set ts. t \<noteq> [] \<and> \<not> js_space (hd t) \<and> \<not> closing (hd t) \<and> copied strip_line_comments t \<and> copied strip_trailing_commas t)
   \<and> list_all2 reads_as ts vs"
  by (induction ts vs rule: list_all2_induct) (auto dest!: printed_start)

lemma array_printed:
  assumes "list_all2 printed_as ts vs" "ts \<noteq> []" "padding w" "padding z"
  shows "printed_as ([0x5B] @ join_on 0x2C (map ((@) w) ts) @ z @ [0x5D]) (JArray vs)"
proof -
  have start: "\<forall>t\<in>set ts. t \<noteq> [] \<and> \<not> js_space (hd t) \<and> \<not> closing (hd t) \<and> copied strip_line_comments t \<and> copied strip_trailing_commas t"
    and reads: "list_all2 reads_as ts vs"
    using printed_elements [OF assms(1)] by blast+
  obtain t us where ts: "ts = t # us" using assms(2) by (cases ts) auto
  then have "value_start t" using reads by (auto simp: list_all2_Cons1 reads_as_def)
  then have "expect 0x5D (join_on 0x2C (map ((@) w) ts) @ r) = None" for r
    using expect_start [of t] by (simp add: ts join_on_Cons parse_padding [OF assms(3)])
  then have "reads_as ([0x5B] @ join_on 0x2C (map ((@) w) ts) @ z @ [0x5D]) (JArray vs)"
    using parse_elements_padded [OF assms(3,4) reads assms(2)]
    by (simp add: reads_as_def value_start_def parse_value.simps [of "_ # _"] skip_space_def)
  then show ?thesis using copied_bracket [OF brackets_plain(1,2) assms(4) copied_join [OF assms(3) start]] by (simp add: printed_as_def)
qed

lemma object_printed:
  assumes "list_all2 (\<lambda>u (k, v). \<exists>t. u = quote_json k @ [0x3A, 0x20] @ t \<and> printed_as t v) us es" "us \<noteq> []" "padding w" "padding z"
    "object_of es = JObject False es"
  shows "printed_as ([0x7B] @ join_on 0x2C (map ((@) w) us) @ z @ [0x7D]) (JObject False es)"
proof -
  have "u \<noteq> [] \<and> \<not> js_space (hd u) \<and> \<not> closing (hd u) \<and> copied strip_line_comments u \<and> copied strip_trailing_commas u"
    if member: "u \<in> set us" for u
  proof -
    obtain k t v where u: "u = quote_json k @ [0x3A, 0x20] @ t" "printed_as t v"
      using assms(1) member by (fastforce simp: list_all2_conv_all_nth in_set_conv_nth)
    have "list_all plain_unit [0x3A, 0x20]" by (simp add: plain_unit_def)
    from copied_plain [OF this] copied_quote [of k] u(2)
    have "copied strip_line_comments u" "copied strip_trailing_commas u"
      unfolding u(1) printed_as_def by (blast intro: copied_append)+
    then show ?thesis by (simp add: u quote_json_def closing_def)
  qed
  then have start: "\<forall>u\<in>set us. u \<noteq> [] \<and> \<not> js_space (hd u) \<and> \<not> closing (hd u) \<and> copied strip_line_comments u \<and> copied strip_trailing_commas u"
    by blast
  have reads: "list_all2 (\<lambda>u (k, v). \<exists>t. u = quote_json k @ 0x3A # 0x20 # t \<and> reads_as t v) us es"
    using assms(1) by (rule list_all2_mono) (auto simp: printed_as_def)
  obtain u as where us: "us = u # as" using assms(2) by (cases us) auto
  then obtain u' where "u = 0x22 # u'" using reads by (auto simp: list_all2_Cons1 quote_json_def)
  then have "expect 0x7D (join_on 0x2C (map ((@) w) us) @ r) = None" for r by (simp add: us join_on_Cons parse_padding [OF assms(3)])
  then have "reads_as ([0x7B] @ join_on 0x2C (map ((@) w) us) @ z @ [0x7D]) (JObject False es)"
    using parse_members_padded [OF assms(3,4) reads assms(2)] assms(5)
    by (simp add: reads_as_def value_start_def parse_value.simps [of "_ # _"] skip_space_def)
  then show ?thesis using copied_bracket [OF brackets_plain(3,4) assms(4) copied_join [OF assms(3) start]] by (simp add: printed_as_def)
qed

lemma empty_printed: "printed_as [0x5B, 0x5D] (JArray [])" "printed_as [0x7B, 0x7D] (JObject False [])"
  using copied_plain [of "[0x5B, 0x5D]"] copied_plain [of "[0x7B, 0x7D]"]
  by (simp_all add: printed_as_def reads_as_def value_start_def parse_value.simps [of "_ # _"] skip_space_def object_of_wf)

lemma json_value_indented: "json_value v \<Longrightarrow> \<exists>t. stringify_indented pn po d v = JsonText t"
proof (induction v arbitrary: d rule: json_value.induct)
  case (5 vs)
  have "stringify_indented pn po (Suc d) v \<noteq> JsonThrows" if member: "v \<in> set vs" for v
    using "5.IH" [OF member, of "Suc d"] "5.prems" member by (auto simp: list_all_iff)
  then have "JsonThrows \<notin> set (map (stringify_indented pn po (Suc d)) vs)" by force
  then show ?case by (simp add: array_indented_def)
next
  case (6 symbols es)
  have "stringify_indented pn po (Suc d) v \<noteq> JsonThrows" if member: "(k, v) \<in> set es" for k v
    using "6.IH" [OF member refl, of "Suc d"] "6.prems" member by (auto simp: list_all_iff)
  then have "JsonThrows \<notin> snd ` set (map (\<lambda>(k, v). (k, stringify_indented pn po (Suc d) v)) es)" by force
  then show ?case by (simp add: object_indented_def Let_def)
qed simp_all


lemma scalar_printed:
  "printed_as (js ''null'') JNull" "printed_as (js (if b then ''true'' else ''false'')) (JBool b)"
  "is_finite_number x \<Longrightarrow> readable_number pn x \<Longrightarrow> printed_as (number_json pn x) (JNumber x)"
  "printed_as (quote_json s) (JString s)"
proof -
  have "list_all plain_unit (js ''null'')" "list_all plain_unit (js (if b then ''true'' else ''false''))"
    by (simp_all add: plain_unit_def js_def)
  with copied_plain show "printed_as (js ''null'') JNull" "printed_as (js (if b then ''true'' else ''false'')) (JBool b)"
    using literal_reads_as by (auto simp: printed_as_def js_def js_space_def)
next
  assume x: "is_finite_number x" "readable_number pn x"
  have "list_all plain_unit (number_json pn x)" using number_json_chars [OF x]
    by (rule list.pred_mono_strong) (auto simp: number_char_def plain_unit_def is_digit_def)
  moreover have "\<not> js_space c" if "number_char c" for c
  proof -
    have "uint c = int (unat c)" by simp
    then have "is_digit c \<Longrightarrow> 48 \<le> uint c \<and> uint c \<le> 57" unfolding is_digit_def by linarith
    then have "33 \<le> uint c \<and> uint c \<le> 101"
      using that by (auto simp: number_char_def)
    then show ?thesis unfolding js_space_def Let_def by presburger
  qed
  moreover have "number_json pn x \<noteq> []" using number_reads_as [OF x] by (auto simp: reads_as_def value_start_def)
  ultimately show "printed_as (number_json pn x) (JNumber x)"
    using copied_plain number_reads_as [OF x] number_json_chars [OF x] by (auto simp: printed_as_def list_all_iff)
next
  show "printed_as (quote_json s) (JString s)"
    using copied_quote string_reads_as by (auto simp: printed_as_def quote_json_def)
qed

text \<open>Data as it comes out of the parser: objects with distinct keys in enumeration order, nothing undefined.\<close>

fun tidy :: "js_value \<Rightarrow> bool" where
  "tidy (JArray vs) = list_all tidy vs"
| "tidy (JObject s es) = (\<not> s \<and> distinct (map fst es) \<and> own_keys_order es = es \<and> list_all (\<lambda>(k, v). tidy v) es)"
| "tidy JUndefined = False"
| "tidy JHole = False"
| "tidy (JBytes bs) = False"
| "tidy (JOther t) = False"
| "tidy _ = True"

lemma tidy_object_of: "list_all (\<lambda>(k, v). tidy v) ms \<Longrightarrow> tidy (object_of ms)"
  using put_all_each [of "\<lambda>(k, v). tidy v" "[]" ms]
  by (simp add: object_of_def put_all_def [symmetric] own_keys_order_idem own_keys_order_distinct list_all_iff)

lemma tidy_literal: "parse_literal s = Some (v, r) \<Longrightarrow> tidy v"
  by (auto simp: parse_literal_def split: if_splits)

lemma parse_tidy:
  "parse_value s = Some (v, r) \<Longrightarrow> tidy v"
  "parse_elements s = Some (vs, r) \<Longrightarrow> list_all tidy vs"
  "parse_members s = Some (ms, r) \<Longrightarrow> list_all (\<lambda>(k, v). tidy v) ms"
proof (induction s and s and s arbitrary: v r and vs r and ms r rule: parse_value_parse_elements_parse_members.induct)
  case (1 s)
  obtain c r0 where s: "skip_space s = c # r0"
    using "1.prems"(1) by (auto simp: parse_value.simps [of s] split: list.splits)
  then show ?case using "1.prems" "1.IH" [OF s]
    by (auto simp: parse_value.simps [of s] tidy_object_of split: if_splits option.splits dest: tidy_literal)
next
  case (2 s)
  obtain w r1 where w: "parse_value s = Some (w, r1)" using "2.prems" by (auto simp: parse_elements.simps [of s] split: option.splits)
  show ?case
  proof (cases "expect 0x5D r1")
    case None
    then obtain r2 vs' where r2: "expect 0x2C r1 = Some r2" "parse_elements r2 = Some (vs', r)" "vs = w # vs'"
      using "2.prems" w by (auto simp: parse_elements.simps [of s] split: option.splits)
    then show ?thesis using "2.IH"(1) [OF w] "2.IH"(2) [OF w refl None r2(1,2)] by simp
  next
    case (Some r2)
    then show ?thesis using "2.prems" w "2.IH"(1) [OF w] by (auto simp: parse_elements.simps [of s])
  qed
next
  case (3 s)
  obtain q k r1 r2 w r3 where p: "expect 0x22 s = Some q" "parse_string q = Some (k, r1)" "expect 0x3A r1 = Some r2"
      "parse_value r2 = Some (w, r3)"
    using "3.prems" by (auto simp: parse_members.simps [of s] split: option.splits)
  have w: "tidy w" using "3.IH"(1) [OF p(1,2) refl p(3) p(4)] .
  show ?case
  proof (cases "expect 0x7D r3")
    case None
    then obtain r4 ms' where r4: "expect 0x2C r3 = Some r4" "parse_members r4 = Some (ms', r)" "ms = (k, w) # ms'"
      using "3.prems" p by (auto simp: parse_members.simps [of s] split: option.splits)
    then show ?thesis using "3.IH"(2) [OF p(1,2) refl p(3) p(4) refl None r4(1,2)] w by simp
  next
    case (Some r4)
    then show ?thesis using "3.prems" p w by (auto simp: parse_members.simps [of s])
  qed
qed

theorem json_parse_tidy: "json_parse s = Some v \<Longrightarrow> tidy v"
  by (auto simp: json_parse_def split: option.splits if_splits dest: parse_tidy(1))

theorem stringify_indented_printed:
  "json_value v \<Longrightarrow> tidy v \<Longrightarrow> readable_numbers pn v \<Longrightarrow> stringify_indented pn po d v = JsonText t \<Longrightarrow> printed_as t v"
proof (induction v arbitrary: d t rule: json_value.induct)
  case (5 vs)
  define f where "f = (\<lambda>v. case stringify_indented pn po (Suc d) v of JsonText t \<Rightarrow> t | _ \<Rightarrow> js ''null'')"
  have "printed_as (f v) v" if member: "v \<in> set vs" for v
    using "5.IH" [OF member] "5.prems" json_value_indented [of v pn po "Suc d"] member by (auto simp: list_all_iff f_def)
  then have printed: "list_all2 printed_as (map f vs) vs" by (simp add: list.rel_map list.rel_refl_strong)
  have t: "t = (if vs = [] then [0x5B, 0x5D] else [0x5B] @ join_on 0x2C (map ((@) (new_line (Suc d))) (map f vs)) @ new_line d @ [0x5D])"
    using "5.prems"(4) by (auto simp: array_indented_def f_def comp_def split: if_splits)
  then show ?case using empty_printed(1) array_printed [OF printed] by (cases "vs = []") auto
next
  case (6 symbols es)
  define f where "f = (\<lambda>(k, v). quote_json k @ [0x3A, 0x20] @ (case stringify_indented pn po (Suc d) v of JsonText t \<Rightarrow> t | _ \<Rightarrow> []))"
  have texts: "\<exists>u. stringify_indented pn po (Suc d) v = JsonText u \<and> printed_as u v" if member: "(k, v) \<in> set es" for k v
    using "6.IH" [OF member refl] "6.prems" json_value_indented [of v pn po "Suc d"] member by (fastforce simp: list_all_iff)
  have members: "List.map_filter (\<lambda>(k, r). case r of JsonText t \<Rightarrow> Some (new_line (Suc d) @ quote_json k @ [0x3A, 0x20] @ t) | _ \<Rightarrow> None)
      (map (\<lambda>(k, v). (k, stringify_indented pn po (Suc d) v)) es) = map ((@) (new_line (Suc d))) (map f es)"
    using texts by (induction es) (fastforce simp: map_filter_simps f_def)+
  have printed: "list_all2 (\<lambda>u (k, v). \<exists>t. u = quote_json k @ [0x3A, 0x20] @ t \<and> printed_as t v) (map f es) es"
    unfolding list.rel_map by (rule list.rel_refl_strong) (use texts in \<open>fastforce simp: f_def\<close>)
  have t: "t = (if es = [] then [0x7B, 0x7D] else [0x7B] @ join_on 0x2C (map ((@) (new_line (Suc d))) (map f es)) @ new_line d @ [0x7D])"
    using "6.prems"(4) unfolding stringify_indented.simps object_indented_def Let_def members by (simp split: if_splits)
  have wf: "object_of es = JObject False es" using "6.prems"(2) by (simp add: object_of_wf)
  have "printed_as t (JObject False es)"
    unfolding t using empty_printed(2) object_printed [OF printed _ _ _ wf] by (cases "es = []") auto
  then show ?case using "6.prems"(1) by simp
qed (use scalar_printed in auto)

text \<open>The text that is written to a file, with its final line feed, is read back as the value.\<close>

theorem json_file_round_trip:
  assumes "json_value v" "tidy v" "readable_numbers pn v" "stringify_indented pn po 0 v = JsonText t"
  shows "json_parse (stripJsonComments (strip_bom (t @ [LF]))) = Some v"
proof -
  have t: "printed_as t v" using stringify_indented_printed [OF assms] .
  have "strip_line_comments (t @ [LF]) = t @ [LF]" "strip_trailing_commas (t @ [LF]) = t @ [LF]"
    using t by (auto simp: printed_as_def copied_def strip_line_comments.simps(2) strip_trailing_commas.simps(2) LF_def trailing_comma_def)
  moreover have "strip_bom (t @ [LF]) = t @ [LF]"
  proof -
    have "hd t \<noteq> 0xFEFF" using printed_start [OF t] by (auto simp: js_space_def)
    then show ?thesis using printed_start [OF t] by (simp add: strip_bom_def splitBom_def)
  qed
  moreover have "parse_value (t @ [LF]) = Some (v, [LF])"
    using t by (auto simp: printed_as_def reads_as_def delimited_def is_digit_def LF_def)
  ultimately show ?thesis by (simp add: stripJsonComments_def json_parse_def skip_space_def json_space_def LF_def)
qed

end
