(* ===== verification/Session_Json.thy ===== *)
theory Session_Json
  imports Session_State Js_Parse "HOL-Library.Monad_Syntax"
begin

text \<open>
  The JavaScript objects that the typed values of the session are, as \<open>JSON.stringify\<close> sees them, and the
  reading of an object at its declared type, which TypeScript writes as a cast. A cast never fails when the
  program runs; here it has a value only for objects that have the declared type. The properties of an object are
  listed in the order of the declaration; nothing reads that order.
\<close>

section \<open>Scalars\<close>

text \<open>The double that a rational number is, and the number that a double is.\<close>

definition number_of_rat :: "rat \<Rightarrow> js_number" where
  "number_of_rat r = nearest_number (r < 0) \<bar>r\<bar>"

definition double_value :: "64 word \<Rightarrow> rat" where
  "double_value b =
     (let n = uint b; s = (n div 2 ^ 63 = 1); e = n div 2 ^ 52 mod 2 ^ 11; m = n mod 2 ^ 52;
          k = (if e = 0 then 1 else e); M = (if e = 0 then m else m + 2 ^ 52);
          v = of_int M * 2 powi (k - 1075)
      in if s then - v else v)"

definition rat_of_number :: "js_number \<Rightarrow> rat option" where
  "rat_of_number x = (case x of JInt i \<Rightarrow> Some (of_int i) | JFrac b \<Rightarrow> Some (double_value b) | _ \<Rightarrow> None)"

definition is_double :: "rat \<Rightarrow> bool" where
  "is_double r = (rat_of_number (number_of_rat r) = Some r)"

definition unjs :: "js_string \<Rightarrow> string option" where
  "unjs s = (if list_all (\<lambda>c. uint c < 256) s then Some (map (\<lambda>c. char_of (unat c)) s) else None)"

definition json_str :: "string \<Rightarrow> js_value" where "json_str s = JString (js s)"
definition json_nat :: "nat \<Rightarrow> js_value" where "json_nat n = JNumber (JInt (int n))"
definition json_int :: "int \<Rightarrow> js_value" where "json_int i = JNumber (JInt i)"
definition json_rat :: "rat \<Rightarrow> js_value" where "json_rat r = JNumber (number_of_rat r)"
definition json_null :: "('a \<Rightarrow> js_value) \<Rightarrow> 'a option \<Rightarrow> js_value" where
  "json_null f x = (case x of None \<Rightarrow> JNull | Some y \<Rightarrow> f y)"

definition as_text :: "js_value \<Rightarrow> js_string option" where
  "as_text v = (case v of JString s \<Rightarrow> Some s | _ \<Rightarrow> None)"
definition as_str :: "js_value \<Rightarrow> string option" where
  "as_str v = (case v of JString s \<Rightarrow> unjs s | _ \<Rightarrow> None)"
definition as_int :: "js_value \<Rightarrow> int option" where
  "as_int v = (case v of JNumber (JInt i) \<Rightarrow> Some i | _ \<Rightarrow> None)"
definition as_nat :: "js_value \<Rightarrow> nat option" where
  "as_nat v = (case v of JNumber (JInt i) \<Rightarrow> if 0 \<le> i then Some (nat i) else None | _ \<Rightarrow> None)"
definition as_rat :: "js_value \<Rightarrow> rat option" where
  "as_rat v = (case v of JNumber x \<Rightarrow> rat_of_number x | _ \<Rightarrow> None)"
definition as_bool :: "js_value \<Rightarrow> bool option" where
  "as_bool v = (case v of JBool b \<Rightarrow> Some b | _ \<Rightarrow> None)"
definition as_any :: "js_value \<Rightarrow> js_value option" where
  "as_any v = Some v"
definition as_null :: "(js_value \<Rightarrow> 'a option) \<Rightarrow> js_value \<Rightarrow> 'a option option" where
  "as_null d v = (case v of JNull \<Rightarrow> Some None | _ \<Rightarrow> map_option Some (d v))"
definition as_list :: "(js_value \<Rightarrow> 'a option) \<Rightarrow> js_value \<Rightarrow> 'a list option" where
  "as_list d v = (case v of JArray vs \<Rightarrow> those (map d vs) | _ \<Rightarrow> None)"
definition as_object :: "js_value \<Rightarrow> (js_string \<times> js_value) list option" where
  "as_object v = (case v of JObject _ es \<Rightarrow> Some es | _ \<Rightarrow> None)"

text \<open>A string that stands for one of several constants.\<close>

definition as_enum :: "(string \<times> 'a) list \<Rightarrow> js_value \<Rightarrow> 'a option" where
  "as_enum table v = (case as_str v of None \<Rightarrow> None | Some s \<Rightarrow> map_of table s)"

definition json_enum :: "(string \<times> 'a) list \<Rightarrow> 'a \<Rightarrow> js_value" where
  "json_enum table x = (case find (\<lambda>(s, y). y = x) table of Some (s, _) \<Rightarrow> json_str s | None \<Rightarrow> JUndefined)"

section \<open>Objects\<close>

type_synonym fields = "(js_string \<times> js_value) list"

fun obj :: "(string \<times> js_value option) list \<Rightarrow> fields" where
  "obj [] = []"
| "obj ((k, v) # es) = (case v of None \<Rightarrow> obj es | Some w \<Rightarrow> (js k, w) # obj es)"

definition get :: "fields \<Rightarrow> string \<Rightarrow> (js_value \<Rightarrow> 'a option) \<Rightarrow> 'a option" where
  "get es k d = (case map_of es (js k) of None \<Rightarrow> None | Some v \<Rightarrow> d v)"

definition get_opt :: "fields \<Rightarrow> string \<Rightarrow> (js_value \<Rightarrow> 'a option) \<Rightarrow> 'a option option" where
  "get_opt es k d = (case map_of es (js k) of None \<Rightarrow> Some None | Some v \<Rightarrow> map_option Some (d v))"

named_theorems json_codec \<open>round trips of the readings of typed values\<close>

lemma js_inject [simp]: "js s = js t \<longleftrightarrow> s = t"
proof
  assume "js s = js t"
  then have "map unat (js s) = map unat (js t)" by simp
  then have "map of_char s = (map of_char t :: nat list)" by (simp add: js_def comp_def unat_char)
  moreover have "inj (of_char :: char \<Rightarrow> nat)" by (rule injI) simp
  ultimately show "s = t" by (rule map_injective)
qed simp

lemma unjs_js [json_codec]: "unjs (js s) = Some s"
proof -
  have lt: "uint (of_nat (of_char c) :: 16 word) < 256" for c :: char
    by (simp add: uint_nat unat_char)
  show ?thesis using lt by (induction s) (simp_all add: unjs_def js_Cons js_def [of "[]"] unat_char split: if_splits)
qed

lemma as_scalar [json_codec]:
  "as_str (json_str s) = Some s" "as_text (JString t) = Some t" "as_nat (json_nat n) = Some n" "as_int (json_int i) = Some i"
  "as_bool (JBool b) = Some b" "as_any v = Some v" "as_object (JObject c es) = Some es"
  "is_double r \<Longrightarrow> as_rat (json_rat r) = Some r"
  by (simp_all add: as_str_def json_str_def unjs_js as_text_def as_nat_def json_nat_def as_int_def json_int_def
      as_bool_def as_any_def as_object_def as_rat_def json_rat_def is_double_def)

lemma those_round: "(\<And>x. x \<in> set xs \<Longrightarrow> d (f x) = Some x) \<Longrightarrow> those (map d (map f xs)) = Some xs"
  by (induction xs) auto

lemma as_list_round [json_codec]: "(\<And>x. x \<in> set xs \<Longrightarrow> d (f x) = Some x) \<Longrightarrow> as_list d (JArray (map f xs)) = Some xs"
  using those_round [of xs d f] by (simp add: as_list_def)

lemma as_null_round [json_codec]:
  "(\<And>y. x = Some y \<Longrightarrow> d (f y) = Some y \<and> f y \<noteq> JNull) \<Longrightarrow> as_null d (json_null f x) = Some x"
  by (cases x) (auto simp: as_null_def json_null_def split: js_value.splits)

lemma get_obj [json_codec]:
  "k' \<noteq> k \<Longrightarrow> get (obj ((k, v) # es)) k' d = get (obj es) k' d" "get (obj ((k, Some w) # es)) k d' = d' w"
  by (simp_all add: get_def split: option.split)

lemma get_opt_obj [json_codec]:
  "k' \<noteq> k \<Longrightarrow> get_opt (obj ((k, v) # es)) k' d = get_opt (obj es) k' d" "get_opt (obj []) k d' = Some None"
  by (simp_all add: get_opt_def split: option.split)

lemma get_opt_same [json_codec]:
  "(\<And>y. x = Some y \<Longrightarrow> d (f y) = Some y) \<Longrightarrow> get_opt (obj es) k d = Some None \<Longrightarrow>
   get_opt (obj ((k, map_option f x) # es)) k d = Some x"
  by (cases x) (auto simp: get_opt_def)

declare obj.simps [simp del]

section \<open>Messages\<close>

definition stop_reasons :: "(string \<times> stop_reason) list" where
  "stop_reasons = [(''pending'', Pending), (''stop'', Stop), (''length'', Length_stop), (''toolUse'', ToolUse),
     (''error'', Error_stop), (''aborted'', Aborted), (''deferred'', Deferred)]"

definition cost_object :: "usage_cost \<Rightarrow> js_value" where
  "cost_object c = JObject False
     (obj [(''input'', Some (json_rat (cost_input c))), (''output'', Some (json_rat (cost_output c))),
      (''cacheRead'', Some (json_rat (cost_cacheRead c))), (''cacheWrite'', Some (json_rat (cost_cacheWrite c))),
      (''total'', Some (json_rat (cost_total c)))])"

definition as_cost :: "js_value \<Rightarrow> usage_cost option" where
  "as_cost v = do {
     es \<leftarrow> as_object v; a \<leftarrow> get es ''input'' as_rat; b \<leftarrow> get es ''output'' as_rat; c \<leftarrow> get es ''cacheRead'' as_rat;
     d \<leftarrow> get es ''cacheWrite'' as_rat; t \<leftarrow> get es ''total'' as_rat;
     Some \<lparr>cost_input = a, cost_output = b, cost_cacheRead = c, cost_cacheWrite = d, cost_total = t\<rparr> }"

definition usage_object :: "usage \<Rightarrow> js_value" where
  "usage_object u = JObject False
     (obj [(''input'', Some (json_nat (u_input u))), (''output'', Some (json_nat (u_output u))),
      (''cacheRead'', Some (json_nat (u_cacheRead u))), (''cacheWrite'', Some (json_nat (u_cacheWrite u))),
      (''cacheWrite1h'', map_option json_nat (u_cacheWrite1h u)), (''reasoning'', map_option json_nat (u_reasoning u)),
      (''totalTokens'', Some (json_nat (u_totalTokens u))), (''cost'', Some (cost_object (u_cost u)))])"

definition as_usage :: "js_value \<Rightarrow> usage option" where
  "as_usage v = do {
     es \<leftarrow> as_object v; a \<leftarrow> get es ''input'' as_nat; b \<leftarrow> get es ''output'' as_nat; c \<leftarrow> get es ''cacheRead'' as_nat;
     d \<leftarrow> get es ''cacheWrite'' as_nat; h \<leftarrow> get_opt es ''cacheWrite1h'' as_nat; r \<leftarrow> get_opt es ''reasoning'' as_nat;
     t \<leftarrow> get es ''totalTokens'' as_nat; k \<leftarrow> get es ''cost'' as_cost;
     Some \<lparr>u_input = a, u_output = b, u_cacheRead = c, u_cacheWrite = d, u_cacheWrite1h = h, u_reasoning = r,
           u_totalTokens = t, u_cost = k\<rparr> }"

definition usage_doubles :: "usage \<Rightarrow> bool" where
  "usage_doubles u =
     (let c = u_cost u in is_double (cost_input c) \<and> is_double (cost_output c) \<and> is_double (cost_cacheRead c)
        \<and> is_double (cost_cacheWrite c) \<and> is_double (cost_total c))"

lemma as_usage_object [json_codec]: "usage_doubles u \<Longrightarrow> as_usage (usage_object u) = Some u"
  by (simp add: as_usage_def usage_object_def as_cost_def cost_object_def usage_doubles_def Let_def json_codec)

lemma get_opt_usage [json_codec]:
  "pred_option usage_doubles x \<Longrightarrow> get_opt (obj es) k as_usage = Some None \<Longrightarrow>
   get_opt (obj ((k, map_option usage_object x) # es)) k as_usage = Some x"
  by (cases x) (auto simp: get_opt_def obj.simps as_usage_object)

definition tagged :: "string \<Rightarrow> string \<Rightarrow> (string \<times> js_value option) list \<Rightarrow> js_value" where
  "tagged k t es = JObject False (obj ((k, Some (json_str t)) # es))"

definition text_object :: "text_content \<Rightarrow> js_value" where
  "text_object t = tagged ''type'' ''text''
     [(''text'', Some (JString (txt_text t))), (''textSignature'', map_option json_str (txt_textSignature t))]"

definition thinking_object :: "thinking_content \<Rightarrow> js_value" where
  "thinking_object t = tagged ''type'' ''thinking''
     [(''thinking'', Some (JString (thk_thinking t))), (''thinkingSignature'', map_option json_str (thk_thinkingSignature t)),
      (''redacted'', map_option JBool (thk_redacted t))]"

definition image_object :: "image_content \<Rightarrow> js_value" where
  "image_object i = tagged ''type'' ''image''
     [(''data'', Some (json_str (img_data i))), (''mimeType'', Some (json_str (img_mimeType i)))]"

definition tool_call_object :: "tool_call \<Rightarrow> js_value" where
  "tool_call_object c = tagged ''type'' ''toolCall''
     [(''id'', Some (json_str (tc_id c))), (''name'', Some (json_str (tc_name c))), (''arguments'', Some (tc_arguments c)),
      (''thoughtSignature'', map_option json_str (tc_thoughtSignature c)), (''namespace'', map_option json_str (tc_namespace c))]"

fun user_block_object :: "user_block \<Rightarrow> js_value" where
  "user_block_object (UText t) = text_object t"
| "user_block_object (UImage i) = image_object i"

fun assistant_block_object :: "assistant_block \<Rightarrow> js_value" where
  "assistant_block_object (AText t) = text_object t"
| "assistant_block_object (AThinking t) = thinking_object t"
| "assistant_block_object (AToolCall c) = tool_call_object c"

fun content_json :: "user_content \<Rightarrow> js_value" where
  "content_json (ContentString s) = JString s"
| "content_json (ContentBlocks bs) = JArray (map user_block_object bs)"

definition as_text_content :: "fields \<Rightarrow> text_content option" where
  "as_text_content es = do { t \<leftarrow> get es ''text'' as_text; s \<leftarrow> get_opt es ''textSignature'' as_str;
     Some \<lparr>txt_text = t, txt_textSignature = s\<rparr> }"

definition as_thinking_content :: "fields \<Rightarrow> thinking_content option" where
  "as_thinking_content es = do { t \<leftarrow> get es ''thinking'' as_text; s \<leftarrow> get_opt es ''thinkingSignature'' as_str;
     r \<leftarrow> get_opt es ''redacted'' as_bool; Some \<lparr>thk_thinking = t, thk_thinkingSignature = s, thk_redacted = r\<rparr> }"

definition as_image_content :: "fields \<Rightarrow> image_content option" where
  "as_image_content es = do { d \<leftarrow> get es ''data'' as_str; m \<leftarrow> get es ''mimeType'' as_str;
     Some \<lparr>img_data = d, img_mimeType = m\<rparr> }"

definition as_tool_call :: "fields \<Rightarrow> tool_call option" where
  "as_tool_call es = do { i \<leftarrow> get es ''id'' as_str; n \<leftarrow> get es ''name'' as_str; a \<leftarrow> get es ''arguments'' as_any;
     t \<leftarrow> get_opt es ''thoughtSignature'' as_str; s \<leftarrow> get_opt es ''namespace'' as_str;
     Some \<lparr>tc_id = i, tc_name = n, tc_arguments = a, tc_thoughtSignature = t, tc_namespace = s\<rparr> }"

definition as_user_block :: "js_value \<Rightarrow> user_block option" where
  "as_user_block v = do { es \<leftarrow> as_object v; t \<leftarrow> get es ''type'' as_str;
     if t = ''text'' then map_option UText (as_text_content es)
     else if t = ''image'' then map_option UImage (as_image_content es) else None }"

definition as_assistant_block :: "js_value \<Rightarrow> assistant_block option" where
  "as_assistant_block v = do { es \<leftarrow> as_object v; t \<leftarrow> get es ''type'' as_str;
     if t = ''text'' then map_option AText (as_text_content es)
     else if t = ''thinking'' then map_option AThinking (as_thinking_content es)
     else if t = ''toolCall'' then map_option AToolCall (as_tool_call es) else None }"

definition as_content :: "js_value \<Rightarrow> user_content option" where
  "as_content v = (case v of JString s \<Rightarrow> Some (ContentString s) | _ \<Rightarrow> map_option ContentBlocks (as_list as_user_block v))"

lemma as_user_block_object [json_codec]: "as_user_block (user_block_object b) = Some b"
  by (cases b) (simp_all add: as_user_block_def text_object_def image_object_def tagged_def as_text_content_def
      as_image_content_def json_codec)

lemma as_assistant_block_object [json_codec]: "as_assistant_block (assistant_block_object b) = Some b"
  by (cases b) (simp_all add: as_assistant_block_def text_object_def thinking_object_def tool_call_object_def tagged_def
      as_text_content_def as_thinking_content_def as_tool_call_def json_codec)

lemma as_content_json [json_codec]: "as_content (content_json c) = Some c"
  by (cases c) (simp_all add: as_content_def json_codec)

lemma as_enum_round [json_codec]:
  "(\<exists>s. (s, x) \<in> set table) \<Longrightarrow> distinct (map fst table) \<Longrightarrow> as_enum table (json_enum table x) = Some x"
proof -
  assume "\<exists>s. (s, x) \<in> set table" and d: "distinct (map fst table)"
  then obtain p where p: "find (\<lambda>(s, y). y = x) table = Some p" by (cases "find (\<lambda>(s, y). y = x) table") (auto simp: find_None_iff)
  then have "p \<in> set table" "snd p = x" by (auto dest: find_Some_iff')
  then show ?thesis using p d by (auto simp: as_enum_def json_enum_def as_scalar split: prod.splits)
qed

lemma stop_reason_round [json_codec]: "as_enum stop_reasons (json_enum stop_reasons r) = Some r"
  by (rule as_enum_round) (cases r; simp add: stop_reasons_def)+

definition deferred_object :: "deferred_handle \<Rightarrow> js_value" where
  "deferred_object h = JObject False
     (obj [(''provider'', Some (json_str (dh_provider h))), (''modelId'', Some (json_str (dh_modelId h))),
      (''api'', Some (json_str (dh_api h))), (''id'', Some (json_str (dh_id h))),
      (''expiresAt'', map_option json_nat (dh_expiresAt h)), (''pollAfterMs'', map_option json_nat (dh_pollAfterMs h)),
      (''data'', map_option id (dh_data h))])"

definition as_deferred :: "js_value \<Rightarrow> deferred_handle option" where
  "as_deferred v = do { es \<leftarrow> as_object v; p \<leftarrow> get es ''provider'' as_str; m \<leftarrow> get es ''modelId'' as_str;
     a \<leftarrow> get es ''api'' as_str; i \<leftarrow> get es ''id'' as_str; x \<leftarrow> get_opt es ''expiresAt'' as_nat;
     q \<leftarrow> get_opt es ''pollAfterMs'' as_nat; d \<leftarrow> get_opt es ''data'' as_any;
     Some \<lparr>dh_provider = p, dh_modelId = m, dh_api = a, dh_id = i, dh_expiresAt = x, dh_pollAfterMs = q, dh_data = d\<rparr> }"

lemma map_option_id_get [json_codec]:
  "get_opt (obj es) k as_any = Some None \<Longrightarrow> get_opt (obj ((k, x) # es)) k as_any = Some x"
  by (cases x) (auto simp: get_opt_def as_any_def obj.simps)

lemma as_deferred_object [json_codec]: "as_deferred (deferred_object h) = Some h"
  by (simp add: as_deferred_def deferred_object_def json_codec option.map_id)

fun message_object :: "agent_message \<Rightarrow> js_value" where
  "message_object (UserMessage m) = tagged ''role'' ''user''
     [(''content'', Some (content_json (um_content m))), (''timestamp'', Some (json_nat (um_timestamp m)))]"
| "message_object (AssistantMessage m) = tagged ''role'' ''assistant''
     [(''content'', Some (JArray (map assistant_block_object (am_content m)))), (''api'', Some (json_str (am_api m))),
      (''provider'', Some (json_str (am_provider m))), (''model'', Some (json_str (am_model m))),
      (''responseModel'', map_option json_str (am_responseModel m)), (''responseId'', map_option json_str (am_responseId m)),
      (''diagnostics'', am_diagnostics m), (''usage'', Some (usage_object (am_usage m))),
      (''stopReason'', Some (json_enum stop_reasons (am_stopReason m))), (''deferred'', map_option deferred_object (am_deferred m)),
      (''errorMessage'', map_option json_str (am_errorMessage m)), (''rawStopReason'', map_option json_str (am_rawStopReason m)),
      (''endTurn'', map_option JBool (am_endTurn m)), (''timestamp'', Some (json_nat (am_timestamp m)))]"
| "message_object (ToolResultMessage m) = tagged ''role'' ''toolResult''
     [(''toolCallId'', Some (json_str (tr_toolCallId m))), (''toolName'', Some (json_str (tr_toolName m))),
      (''content'', Some (JArray (map user_block_object (tr_content m)))), (''details'', tr_details m),
      (''usage'', map_option usage_object (tr_usage m)),
      (''addedToolNames'', map_option (\<lambda>ns. JArray (map json_str ns)) (tr_addedToolNames m)),
      (''isError'', Some (JBool (tr_isError m))), (''timestamp'', Some (json_nat (tr_timestamp m)))]"
| "message_object (BashExecutionMessage m) = tagged ''role'' ''bashExecution''
     [(''command'', Some (JString (be_command m))), (''output'', Some (JString (be_output m))),
      (''exitCode'', map_option json_int (be_exitCode m)), (''cancelled'', Some (JBool (be_cancelled m))),
      (''truncated'', Some (JBool (be_truncated m))), (''fullOutputPath'', map_option JString (be_fullOutputPath m)),
      (''timestamp'', Some (json_nat (be_timestamp m))), (''excludeFromContext'', map_option JBool (be_excludeFromContext m))]"
| "message_object (CustomMessage m) = tagged ''role'' ''custom''
     [(''customType'', Some (json_str (cm_customType m))), (''content'', Some (content_json (cm_content m))),
      (''display'', Some (JBool (cm_display m))), (''details'', cm_details m), (''timestamp'', Some (json_nat (cm_timestamp m)))]"
| "message_object (BranchSummaryMessage m) = tagged ''role'' ''branchSummary''
     [(''summary'', Some (JString (bs_summary m))), (''fromId'', Some (json_str (bs_fromId m))),
      (''timestamp'', Some (json_nat (bs_timestamp m)))]"
| "message_object (CompactionSummaryMessage m) = tagged ''role'' ''compactionSummary''
     [(''summary'', Some (JString (cs_summary m))), (''tokensBefore'', Some (json_nat (cs_tokensBefore m))),
      (''timestamp'', Some (json_nat (cs_timestamp m)))]"

definition as_user_message :: "fields \<Rightarrow> user_message option" where
  "as_user_message es = do { c \<leftarrow> get es ''content'' as_content; t \<leftarrow> get es ''timestamp'' as_nat;
     Some \<lparr>um_content = c, um_timestamp = t\<rparr> }"

definition as_assistant_message :: "fields \<Rightarrow> assistant_message option" where
  "as_assistant_message es = do { c \<leftarrow> get es ''content'' (as_list as_assistant_block); a \<leftarrow> get es ''api'' as_str;
     p \<leftarrow> get es ''provider'' as_str; m \<leftarrow> get es ''model'' as_str; rm \<leftarrow> get_opt es ''responseModel'' as_str;
     ri \<leftarrow> get_opt es ''responseId'' as_str; d \<leftarrow> get_opt es ''diagnostics'' as_any; u \<leftarrow> get es ''usage'' as_usage;
     s \<leftarrow> get es ''stopReason'' (as_enum stop_reasons); h \<leftarrow> get_opt es ''deferred'' as_deferred;
     e \<leftarrow> get_opt es ''errorMessage'' as_str; r \<leftarrow> get_opt es ''rawStopReason'' as_str; n \<leftarrow> get_opt es ''endTurn'' as_bool;
     t \<leftarrow> get es ''timestamp'' as_nat;
     Some \<lparr>am_content = c, am_api = a, am_provider = p, am_model = m, am_responseModel = rm, am_responseId = ri,
           am_diagnostics = d, am_usage = u, am_stopReason = s, am_deferred = h, am_errorMessage = e,
           am_rawStopReason = r, am_endTurn = n, am_timestamp = t\<rparr> }"

definition as_tool_result :: "fields \<Rightarrow> tool_result_message option" where
  "as_tool_result es = do { i \<leftarrow> get es ''toolCallId'' as_str; n \<leftarrow> get es ''toolName'' as_str;
     c \<leftarrow> get es ''content'' (as_list as_user_block); d \<leftarrow> get_opt es ''details'' as_any; u \<leftarrow> get_opt es ''usage'' as_usage;
     a \<leftarrow> get_opt es ''addedToolNames'' (as_list as_str); e \<leftarrow> get es ''isError'' as_bool; t \<leftarrow> get es ''timestamp'' as_nat;
     Some \<lparr>tr_toolCallId = i, tr_toolName = n, tr_content = c, tr_details = d, tr_usage = u, tr_addedToolNames = a,
           tr_isError = e, tr_timestamp = t\<rparr> }"

definition as_bash_execution :: "fields \<Rightarrow> bash_execution_message option" where
  "as_bash_execution es = do { c \<leftarrow> get es ''command'' as_text; out \<leftarrow> get es ''output'' as_text;
     x \<leftarrow> get_opt es ''exitCode'' as_int; k \<leftarrow> get es ''cancelled'' as_bool; tr \<leftarrow> get es ''truncated'' as_bool;
     p \<leftarrow> get_opt es ''fullOutputPath'' as_text; t \<leftarrow> get es ''timestamp'' as_nat; e \<leftarrow> get_opt es ''excludeFromContext'' as_bool;
     Some \<lparr>be_command = c, be_output = out, be_exitCode = x, be_cancelled = k, be_truncated = tr, be_fullOutputPath = p,
           be_timestamp = t, be_excludeFromContext = e\<rparr> }"

definition as_custom_message :: "fields \<Rightarrow> custom_message option" where
  "as_custom_message es = do { k \<leftarrow> get es ''customType'' as_str; c \<leftarrow> get es ''content'' as_content;
     s \<leftarrow> get es ''display'' as_bool; d \<leftarrow> get_opt es ''details'' as_any; t \<leftarrow> get es ''timestamp'' as_nat;
     Some \<lparr>cm_customType = k, cm_content = c, cm_display = s, cm_details = d, cm_timestamp = t\<rparr> }"

definition as_branch_summary_message :: "fields \<Rightarrow> branch_summary_message option" where
  "as_branch_summary_message es = do { s \<leftarrow> get es ''summary'' as_text; f \<leftarrow> get es ''fromId'' as_str;
     t \<leftarrow> get es ''timestamp'' as_nat; Some \<lparr>bs_summary = s, bs_fromId = f, bs_timestamp = t\<rparr> }"

definition as_compaction_summary_message :: "fields \<Rightarrow> compaction_summary_message option" where
  "as_compaction_summary_message es = do { s \<leftarrow> get es ''summary'' as_text; n \<leftarrow> get es ''tokensBefore'' as_nat;
     t \<leftarrow> get es ''timestamp'' as_nat; Some \<lparr>cs_summary = s, cs_tokensBefore = n, cs_timestamp = t\<rparr> }"

definition as_message :: "js_value \<Rightarrow> agent_message option" where
  "as_message v = do { es \<leftarrow> as_object v; r \<leftarrow> get es ''role'' as_str;
     if r = ''user'' then map_option UserMessage (as_user_message es)
     else if r = ''assistant'' then map_option AssistantMessage (as_assistant_message es)
     else if r = ''toolResult'' then map_option ToolResultMessage (as_tool_result es)
     else if r = ''bashExecution'' then map_option BashExecutionMessage (as_bash_execution es)
     else if r = ''custom'' then map_option CustomMessage (as_custom_message es)
     else if r = ''branchSummary'' then map_option BranchSummaryMessage (as_branch_summary_message es)
     else if r = ''compactionSummary'' then map_option CompactionSummaryMessage (as_compaction_summary_message es)
     else None }"

fun message_doubles :: "agent_message \<Rightarrow> bool" where
  "message_doubles (AssistantMessage m) = usage_doubles (am_usage m)"
| "message_doubles (ToolResultMessage m) = pred_option usage_doubles (tr_usage m)"
| "message_doubles _ = True"

lemma as_message_object [json_codec]: "message_doubles m \<Longrightarrow> as_message (message_object m) = Some m"
  by (cases m) (simp_all add: as_message_def tagged_def as_user_message_def as_assistant_message_def as_tool_result_def
      as_bash_execution_def as_custom_message_def as_branch_summary_message_def as_compaction_summary_message_def
      json_codec)

section \<open>Entries\<close>

definition entry_types :: "(string \<times> entry_type) list" where
  "entry_types = [(''message'', Type_message), (''model_change'', Type_model_change),
     (''thinking_level_change'', Type_thinking_level_change), (''active_tools_change'', Type_active_tools_change),
     (''compaction'', Type_compaction), (''branch_summary'', Type_branch_summary), (''custom'', Type_custom)]"

lemma entry_type_round [json_codec]: "as_enum entry_types (json_enum entry_types t) = Some t"
  by (rule as_enum_round) (cases t; simp add: entry_types_def)+

text \<open>\<open>terminate\<close> is \<open>true\<close> or absent.\<close>

definition as_true :: "js_value \<Rightarrow> unit option" where
  "as_true v = (if v = JBool True then Some () else None)"

fun payload_fields :: "entry_payload \<Rightarrow> (string \<times> js_value option) list" where
  "payload_fields (MessageEntry m term) =
     [(''message'', Some (message_object m)), (''terminate'', map_option (\<lambda>_. JBool True) (if term then Some () else None))]"
| "payload_fields (ModelChangeEntry p m) = [(''provider'', Some (json_str p)), (''modelId'', Some (json_str m))]"
| "payload_fields (ThinkingLevelEntry l) = [(''thinkingLevel'', Some (json_str l))]"
| "payload_fields (ActiveToolsEntry ns) = [(''activeToolNames'', Some (JArray (map json_str ns)))]"
| "payload_fields (CompactionEntry c) =
     [(''summary'', Some (JString (cp_summary c))), (''retainedTail'', Some (JArray (map message_object (cp_retainedTail c)))),
      (''tokensBefore'', Some (json_nat (cp_tokensBefore c))), (''details'', cp_details c),
      (''usage'', map_option usage_object (cp_usage c))]"
| "payload_fields (BranchSummaryEntry b) =
     [(''fromId'', Some (json_str (bp_fromId b))), (''summary'', Some (JString (bp_summary b))), (''details'', bp_details b),
      (''usage'', map_option usage_object (bp_usage b))]"
| "payload_fields (CustomEntry t d) = [(''customType'', Some (json_str t)), (''data'', d)]"

definition as_payload :: "entry_type \<Rightarrow> fields \<Rightarrow> entry_payload option" where
  "as_payload t es =
     (case t of
        Type_message \<Rightarrow> do { m \<leftarrow> get es ''message'' as_message; x \<leftarrow> get_opt es ''terminate'' as_true; Some (MessageEntry m (x \<noteq> None)) }
      | Type_model_change \<Rightarrow> do { p \<leftarrow> get es ''provider'' as_str; m \<leftarrow> get es ''modelId'' as_str; Some (ModelChangeEntry p m) }
      | Type_thinking_level_change \<Rightarrow> map_option ThinkingLevelEntry (get es ''thinkingLevel'' as_str)
      | Type_active_tools_change \<Rightarrow> map_option ActiveToolsEntry (get es ''activeToolNames'' (as_list as_str))
      | Type_compaction \<Rightarrow> do { s \<leftarrow> get es ''summary'' as_text; r \<leftarrow> get es ''retainedTail'' (as_list as_message);
          n \<leftarrow> get es ''tokensBefore'' as_nat; d \<leftarrow> get_opt es ''details'' as_any; u \<leftarrow> get_opt es ''usage'' as_usage;
          Some (CompactionEntry \<lparr>cp_summary = s, cp_retainedTail = r, cp_tokensBefore = n, cp_details = d, cp_usage = u\<rparr>) }
      | Type_branch_summary \<Rightarrow> do { f \<leftarrow> get es ''fromId'' as_str; s \<leftarrow> get es ''summary'' as_text;
          d \<leftarrow> get_opt es ''details'' as_any; u \<leftarrow> get_opt es ''usage'' as_usage;
          Some (BranchSummaryEntry \<lparr>bp_fromId = f, bp_summary = s, bp_details = d, bp_usage = u\<rparr>) }
      | Type_custom \<Rightarrow> do { t \<leftarrow> get es ''customType'' as_str; d \<leftarrow> get_opt es ''data'' as_any; Some (CustomEntry t d) })"

fun payload_doubles :: "entry_payload \<Rightarrow> bool" where
  "payload_doubles (MessageEntry m _) = message_doubles m"
| "payload_doubles (CompactionEntry c) = (list_all message_doubles (cp_retainedTail c) \<and> pred_option usage_doubles (cp_usage c))"
| "payload_doubles (BranchSummaryEntry b) = pred_option usage_doubles (bp_usage b)"
| "payload_doubles _ = True"

text \<open>Reading finds its property behind properties with other names.\<close>

lemma as_payload_fields [json_codec]:
  "payload_doubles p \<Longrightarrow> as_payload (payload_type p) (obj (payload_fields p)) = Some p"
  by (cases p) (auto simp: as_payload_def as_true_def json_codec list_all_iff)

lemma as_payload_skip [json_codec]:
  "k \<in> {''type'', ''id'', ''seq'', ''parentId'', ''timestamp'', ''kind'', ''lane''} \<Longrightarrow>
   as_payload t (obj ((k, v) # es)) = as_payload t (obj es)"
  by (cases t) (auto simp: as_payload_def json_codec)

definition provisioned_fields :: "provisioned_entry \<Rightarrow> (string \<times> js_value option) list" where
  "provisioned_fields e =
     [(''type'', Some (json_enum entry_types (payload_type (prov_payload e)))), (''id'', Some (json_str (prov_id e)))]
     @ payload_fields (prov_payload e)"

definition provisioned_object :: "provisioned_entry \<Rightarrow> js_value" where
  "provisioned_object e = JObject False (obj (provisioned_fields e))"

definition as_provisioned :: "js_value \<Rightarrow> provisioned_entry option" where
  "as_provisioned v = do { es \<leftarrow> as_object v; t \<leftarrow> get es ''type'' (as_enum entry_types); i \<leftarrow> get es ''id'' as_str;
     p \<leftarrow> as_payload t es; Some \<lparr>prov_id = i, prov_payload = p\<rparr> }"

lemma as_provisioned_object [json_codec]:
  "payload_doubles (prov_payload e) \<Longrightarrow> as_provisioned (provisioned_object e) = Some e"
  by (simp add: as_provisioned_def provisioned_object_def provisioned_fields_def json_codec)

definition entry_fields :: "entry \<Rightarrow> (string \<times> js_value option) list" where
  "entry_fields e =
     [(''type'', Some (json_enum entry_types (entry_type_of e))), (''id'', Some (json_str (entry_id e))),
      (''seq'', Some (json_nat (entry_seq e))), (''parentId'', Some (json_null json_str (parentId e))),
      (''timestamp'', Some (json_nat (entry_timestamp e)))]
     @ payload_fields (payload e)"

definition as_entry :: "fields \<Rightarrow> entry option" where
  "as_entry es = do { t \<leftarrow> get es ''type'' (as_enum entry_types); i \<leftarrow> get es ''id'' as_str; n \<leftarrow> get es ''seq'' as_nat;
     p \<leftarrow> get es ''parentId'' (as_null as_str); c \<leftarrow> get es ''timestamp'' as_nat; x \<leftarrow> as_payload t es;
     Some \<lparr>entry_id = i, entry_seq = n, parentId = p, entry_timestamp = c, payload = x\<rparr> }"

lemma json_str_not_null [json_codec]: "json_str s \<noteq> JNull"
  by (simp add: json_str_def)

lemma as_entry_fields [json_codec]:
  "payload_doubles (payload e) \<Longrightarrow> as_entry (obj (entry_fields e)) = Some e"
  by (simp add: as_entry_def entry_fields_def entry_type_of_def json_codec)

section \<open>Records\<close>

definition operation_outcomes :: "(string \<times> operation_outcome) list" where
  "operation_outcomes = [(''completed'', Completed), (''aborted'', Aborted_outcome), (''failed'', Failed), (''declined'', Declined)]"

definition step_kinds :: "(string \<times> step_kind) list" where
  "step_kinds = [(''assistant'', Step_assistant), (''branch_summary'', Step_branch_summary), (''compaction'', Step_compaction)]"

definition replay_modes :: "(string \<times> replay_mode) list" where
  "replay_modes = [(''never'', Replay_never), (''safe'', Replay_safe)]"

definition queue_kinds :: "(string \<times> queue_kind) list" where
  "queue_kinds = [(''steer'', Steer), (''followUp'', FollowUp), (''nextRun'', NextRun)]"

definition usage_causes :: "(string \<times> usage_cause) list" where
  "usage_causes = [(''assistant'', Cause_assistant), (''compaction'', Cause_compaction), (''branch_summary'', Cause_branch_summary),
     (''deferred_fetch'', Cause_deferred_fetch), (''tool'', Cause_tool), (''hook'', Cause_hook), (''adjustment'', Cause_adjustment)]"

definition record_types :: "(string \<times> record_type) list" where
  "record_types = [(''operation_started'', Rec_operation_started), (''abort_requested'', Rec_abort_requested),
     (''operation_finished'', Rec_operation_finished), (''step_attempt'', Rec_step_attempt), (''tool_started'', Rec_tool_started),
     (''queue_enqueued'', Rec_queue_enqueued), (''queue_cancelled'', Rec_queue_cancelled), (''write_deferred'', Rec_write_deferred),
     (''usage'', Rec_usage)]"

definition operation_kinds :: "(string \<times> operation_kind) list" where
  "operation_kinds = [(''run'', Kind_run), (''compaction'', Kind_compaction), (''navigation'', Kind_navigation)]"

lemma operation_outcome_round [json_codec]: "as_enum operation_outcomes (json_enum operation_outcomes x) = Some x"
  by (rule as_enum_round) (cases x; simp add: operation_outcomes_def)+

lemma step_kind_round [json_codec]: "as_enum step_kinds (json_enum step_kinds x) = Some x"
  by (rule as_enum_round) (cases x; simp add: step_kinds_def)+

lemma replay_mode_round [json_codec]: "as_enum replay_modes (json_enum replay_modes x) = Some x"
  by (rule as_enum_round) (cases x; simp add: replay_modes_def)+

lemma queue_kind_round [json_codec]: "as_enum queue_kinds (json_enum queue_kinds x) = Some x"
  by (rule as_enum_round) (cases x; simp add: queue_kinds_def)+

lemma usage_cause_round [json_codec]: "as_enum usage_causes (json_enum usage_causes x) = Some x"
  by (rule as_enum_round) (cases x; simp add: usage_causes_def)+

lemma record_type_round [json_codec]: "as_enum record_types (json_enum record_types x) = Some x"
  by (rule as_enum_round) (cases x; simp add: record_types_def)+

lemma operation_kind_round [json_codec]: "as_enum operation_kinds (json_enum operation_kinds x) = Some x"
  by (rule as_enum_round) (cases x; simp add: operation_kinds_def)+

definition keyed_object :: "(ident \<times> js_value) list \<Rightarrow> js_value" where
  "keyed_object xs = JObject False (map (\<lambda>(k, v). (js k, v)) xs)"

definition as_keyed :: "js_value \<Rightarrow> (ident \<times> js_value) list option" where
  "as_keyed v = do { es \<leftarrow> as_object v; those (map (\<lambda>(k, w). map_option (\<lambda>s. (s, w)) (unjs k)) es) }"

lemma as_keyed_object [json_codec]: "as_keyed (keyed_object xs) = Some xs"
  unfolding as_keyed_def keyed_object_def by (simp only: as_scalar bind.bind_lunit) (rule those_round, auto simp: unjs_js)

fun intent_object :: "intent \<Rightarrow> js_value" where
  "intent_object (RunIntent r) = tagged ''kind'' ''run''
     [(''originalPrompt'', Some (JArray (map message_object (originalPrompt r)))),
      (''initialMessages'', Some (JArray (map provisioned_object (initialMessages r)))),
      (''systemPromptOverride'', map_option json_str (systemPromptOverride r)), (''resumeData'', map_option keyed_object (resumeData r))]"
| "intent_object (CompactionIntent c) = tagged ''kind'' ''compaction''
     [(''customInstructions'', map_option json_str (ci_customInstructions c)), (''resultEntryId'', Some (json_str (ci_resultEntryId c)))]"
| "intent_object (NavigationIntent n) = tagged ''kind'' ''navigation''
     [(''targetId'', Some (json_null json_str (ni_targetId n))), (''summarize'', Some (JBool (ni_summarize n))),
      (''customInstructions'', map_option json_str (ni_customInstructions n)), (''label'', map_option json_str (ni_label n)),
      (''summaryEntryId'', map_option json_str (ni_summaryEntryId n))]"

definition as_intent :: "js_value \<Rightarrow> intent option" where
  "as_intent v = do { es \<leftarrow> as_object v; k \<leftarrow> get es ''kind'' as_str;
     if k = ''run'' then do { m \<leftarrow> get es ''originalPrompt'' (as_list as_message); i \<leftarrow> get es ''initialMessages'' (as_list as_provisioned);
       s \<leftarrow> get_opt es ''systemPromptOverride'' as_str; d \<leftarrow> get_opt es ''resumeData'' as_keyed;
       Some (RunIntent \<lparr>originalPrompt = m, initialMessages = i, systemPromptOverride = s, resumeData = d\<rparr>) }
     else if k = ''compaction'' then do { c \<leftarrow> get_opt es ''customInstructions'' as_str; r \<leftarrow> get es ''resultEntryId'' as_str;
       Some (CompactionIntent \<lparr>ci_customInstructions = c, ci_resultEntryId = r\<rparr>) }
     else if k = ''navigation'' then do { t \<leftarrow> get es ''targetId'' (as_null as_str); z \<leftarrow> get es ''summarize'' as_bool;
       c \<leftarrow> get_opt es ''customInstructions'' as_str; l \<leftarrow> get_opt es ''label'' as_str; e \<leftarrow> get_opt es ''summaryEntryId'' as_str;
       Some (NavigationIntent \<lparr>ni_targetId = t, ni_summarize = z, ni_customInstructions = c, ni_label = l, ni_summaryEntryId = e\<rparr>) }
     else None }"

fun intent_doubles :: "intent \<Rightarrow> bool" where
  "intent_doubles (RunIntent r) =
     (list_all message_doubles (originalPrompt r) \<and> list_all (\<lambda>e. payload_doubles (prov_payload e)) (initialMessages r))"
| "intent_doubles _ = True"

lemma as_intent_object [json_codec]: "intent_doubles i \<Longrightarrow> as_intent (intent_object i) = Some i"
  by (cases i) (auto simp: as_intent_def tagged_def json_codec list_all_iff)

definition error_object :: "string \<times> string \<Rightarrow> js_value" where
  "error_object e = JObject False (obj [(''code'', Some (json_str (fst e))), (''message'', Some (json_str (snd e)))])"

definition as_error :: "js_value \<Rightarrow> (string \<times> string) option" where
  "as_error v = do { es \<leftarrow> as_object v; c \<leftarrow> get es ''code'' as_str; m \<leftarrow> get es ''message'' as_str; Some (c, m) }"

lemma as_error_object [json_codec]: "as_error (error_object e) = Some e"
  by (simp add: as_error_def error_object_def json_codec)

fun record_payload_fields :: "record_payload \<Rightarrow> (string \<times> js_value option) list" where
  "record_payload_fields (OperationStarted leaf i) =
     [(''sourceLeafId'', Some (json_null json_str leaf)), (''intent'', Some (intent_object i))]"
| "record_payload_fields (AbortRequested r) = [(''runId'', Some (json_str r))]"
| "record_payload_fields (OperationFinished r out err) =
     [(''runId'', Some (json_str r)), (''outcome'', Some (json_enum operation_outcomes out)), (''error'', map_option error_object err)]"
| "record_payload_fields (StepAttempt a) =
     [(''runId'', Some (json_str (sa_runId a))), (''step'', Some (json_enum step_kinds (sa_step a))),
      (''attempt'', Some (json_nat (sa_attempt a))), (''resultEntryId'', Some (json_str (sa_resultEntryId a))),
      (''compactionReason'', map_option json_str (sa_compactionReason a))]"
| "record_payload_fields (ToolStarted t) =
     [(''runId'', Some (json_str (ts_runId t))), (''assistantEntryId'', Some (json_str (ts_assistantEntryId t))),
      (''toolIndex'', Some (json_nat (ts_toolIndex t))), (''toolCallId'', Some (json_str (ts_toolCallId t))),
      (''toolName'', Some (json_str (ts_toolName t))), (''effectiveArgs'', Some (ts_effectiveArgs t)),
      (''resultEntryId'', Some (json_str (ts_resultEntryId t))), (''replay'', Some (json_enum replay_modes (ts_replay t)))]"
| "record_payload_fields (QueueEnqueued q r e) =
     [(''queue'', Some (json_enum queue_kinds q)), (''runId'', map_option json_str r), (''target'', Some (provisioned_object e))]"
| "record_payload_fields (QueueCancelled r i) = [(''runId'', map_option json_str r), (''entryId'', Some (json_str i))]"
| "record_payload_fields (WriteDeferred r e) = [(''runId'', Some (json_str r)), (''target'', Some (provisioned_object e))]"
| "record_payload_fields (UsageRecord u) =
     [(''usage'', Some (usage_object (ui_usage u))), (''cause'', Some (json_enum usage_causes (ui_cause u))),
      (''runId'', map_option json_str (ui_runId u)), (''entryId'', map_option json_str (ui_entryId u)),
      (''attempt'', map_option json_nat (ui_attempt u)), (''stopReason'', map_option (json_enum stop_reasons) (ui_stopReason u)),
      (''toolCallId'', map_option json_str (ui_toolCallId u)), (''details'', ui_details u)]"

definition as_record_payload :: "record_type \<Rightarrow> fields \<Rightarrow> record_payload option" where
  "as_record_payload t es =
     (case t of
        Rec_operation_started \<Rightarrow> do { l \<leftarrow> get es ''sourceLeafId'' (as_null as_str); i \<leftarrow> get es ''intent'' as_intent; Some (OperationStarted l i) }
      | Rec_abort_requested \<Rightarrow> map_option AbortRequested (get es ''runId'' as_str)
      | Rec_operation_finished \<Rightarrow> do { r \<leftarrow> get es ''runId'' as_str; out \<leftarrow> get es ''outcome'' (as_enum operation_outcomes);
          e \<leftarrow> get_opt es ''error'' as_error; Some (OperationFinished r out e) }
      | Rec_step_attempt \<Rightarrow> do { r \<leftarrow> get es ''runId'' as_str; s \<leftarrow> get es ''step'' (as_enum step_kinds); a \<leftarrow> get es ''attempt'' as_nat;
          i \<leftarrow> get es ''resultEntryId'' as_str; c \<leftarrow> get_opt es ''compactionReason'' as_str;
          Some (StepAttempt \<lparr>sa_runId = r, sa_step = s, sa_attempt = a, sa_resultEntryId = i, sa_compactionReason = c\<rparr>) }
      | Rec_tool_started \<Rightarrow> do { r \<leftarrow> get es ''runId'' as_str; a \<leftarrow> get es ''assistantEntryId'' as_str; x \<leftarrow> get es ''toolIndex'' as_nat;
          c \<leftarrow> get es ''toolCallId'' as_str; n \<leftarrow> get es ''toolName'' as_str; g \<leftarrow> get es ''effectiveArgs'' as_any;
          i \<leftarrow> get es ''resultEntryId'' as_str; m \<leftarrow> get es ''replay'' (as_enum replay_modes);
          Some (ToolStarted \<lparr>ts_runId = r, ts_assistantEntryId = a, ts_toolIndex = x, ts_toolCallId = c, ts_toolName = n,
            ts_effectiveArgs = g, ts_resultEntryId = i, ts_replay = m\<rparr>) }
      | Rec_queue_enqueued \<Rightarrow> do { q \<leftarrow> get es ''queue'' (as_enum queue_kinds); r \<leftarrow> get_opt es ''runId'' as_str;
          e \<leftarrow> get es ''target'' as_provisioned; Some (QueueEnqueued q r e) }
      | Rec_queue_cancelled \<Rightarrow> do { r \<leftarrow> get_opt es ''runId'' as_str; i \<leftarrow> get es ''entryId'' as_str; Some (QueueCancelled r i) }
      | Rec_write_deferred \<Rightarrow> do { r \<leftarrow> get es ''runId'' as_str; e \<leftarrow> get es ''target'' as_provisioned; Some (WriteDeferred r e) }
      | Rec_usage \<Rightarrow> do { u \<leftarrow> get es ''usage'' as_usage; c \<leftarrow> get es ''cause'' (as_enum usage_causes); r \<leftarrow> get_opt es ''runId'' as_str;
          i \<leftarrow> get_opt es ''entryId'' as_str; a \<leftarrow> get_opt es ''attempt'' as_nat; s \<leftarrow> get_opt es ''stopReason'' (as_enum stop_reasons);
          t \<leftarrow> get_opt es ''toolCallId'' as_str; d \<leftarrow> get_opt es ''details'' as_any;
          Some (UsageRecord \<lparr>ui_usage = u, ui_cause = c, ui_runId = r, ui_entryId = i, ui_attempt = a, ui_stopReason = s,
            ui_toolCallId = t, ui_details = d\<rparr>) })"

fun record_doubles :: "record_payload \<Rightarrow> bool" where
  "record_doubles (OperationStarted _ i) = intent_doubles i"
| "record_doubles (QueueEnqueued _ _ e) = payload_doubles (prov_payload e)"
| "record_doubles (WriteDeferred _ e) = payload_doubles (prov_payload e)"
| "record_doubles (UsageRecord u) = usage_doubles (ui_usage u)"
| "record_doubles _ = True"

lemma as_record_payload_fields [json_codec]:
  "record_doubles p \<Longrightarrow> as_record_payload (record_type_of_payload p) (obj (record_payload_fields p)) = Some p"
  by (cases p) (simp_all add: as_record_payload_def json_codec)

lemma as_record_payload_skip [json_codec]:
  "k \<in> {''type'', ''id'', ''seq'', ''lane'', ''timestamp'', ''kind''} \<Longrightarrow>
   as_record_payload t (obj ((k, v) # es)) = as_record_payload t (obj es)"
  by (cases t) (auto simp: as_record_payload_def json_codec)

definition record_fields :: "lane_record \<Rightarrow> (string \<times> js_value option) list" where
  "record_fields r =
     [(''id'', Some (json_str (record_id r))), (''seq'', Some (json_nat (record_seq r))), (''lane'', Some (json_str (record_lane r))),
      (''timestamp'', Some (json_nat (record_timestamp r))), (''type'', Some (json_enum record_types (record_type_of r)))]
     @ record_payload_fields (record_payload r)"

definition as_record :: "fields \<Rightarrow> lane_record option" where
  "as_record es = do { i \<leftarrow> get es ''id'' as_str; n \<leftarrow> get es ''seq'' as_nat; l \<leftarrow> get es ''lane'' as_str;
     c \<leftarrow> get es ''timestamp'' as_nat; t \<leftarrow> get es ''type'' (as_enum record_types); p \<leftarrow> as_record_payload t es;
     Some \<lparr>record_id = i, record_seq = n, record_lane = l, record_timestamp = c, record_payload = p\<rparr> }"

lemma as_record_fields [json_codec]:
  "record_doubles (record_payload r) \<Longrightarrow> as_record (obj (record_fields r)) = Some r"
  by (simp add: as_record_def record_fields_def record_type_of_def json_codec)

end
