(* ===== verification/Jsonl_Codec.thy ===== *)
theory Jsonl_Codec
  imports Session_Json
begin

text \<open>
  The lines of a session file: \<open>session/jsonl/codec.ts\<close>, \<open>errors.ts\<close> and \<open>types.ts\<close>. A line is the JSON text of
  a header or of a mutation. The decoder checks the fields that the session state reads and casts the rest; the
  result of a cast is a raw mutation, and \<open>as_mutation\<close> reads it at its declared type.
\<close>

section \<open>Errors and checks\<close>

datatype decode_kind = Syntax | Schema

datatype jsonl_decode_error = JsonlDecodeError (decode_error_kind: decode_kind) (decode_error_message: js_string)

definition prop_of :: "fields \<Rightarrow> string \<Rightarrow> js_value" where
  "prop_of es k = (case map_of es (js k) of None \<Rightarrow> JUndefined | Some v \<Rightarrow> v)"

definition parseObject :: "js_string \<Rightarrow> jsonl_decode_error + fields" where
  "parseObject line =
     (case json_parse line of
        None \<Rightarrow> Inl (JsonlDecodeError Syntax (js ''is not valid JSON''))
      | Some (JObject _ es) \<Rightarrow> Inr es
      | Some _ \<Rightarrow> Inl (JsonlDecodeError Schema (js ''is not a JSON object'')))"

definition invalid_field :: "string \<Rightarrow> jsonl_decode_error" where
  "invalid_field k = JsonlDecodeError Schema (js (''has invalid '' @ k))"

definition requireString :: "js_value \<Rightarrow> string \<Rightarrow> jsonl_decode_error + js_string" where
  "requireString v k = (case v of JString s \<Rightarrow> Inr s | _ \<Rightarrow> Inl (invalid_field k))"

text \<open>\<open>Number.isSafeInteger\<close>; minus zero is a safe integer.\<close>

definition safe_integer :: "js_value \<Rightarrow> int option" where
  "safe_integer v =
     (case v of
        JNumber (JInt i) \<Rightarrow> if is_safe_integer i then Some i else None
      | JNumber (JFrac b) \<Rightarrow> if b = 0x8000000000000000 then Some 0 else None
      | _ \<Rightarrow> None)"

definition requireSequence :: "js_value \<Rightarrow> jsonl_decode_error + nat" where
  "requireSequence v =
     (case safe_integer v of
        Some i \<Rightarrow> if i \<le> 0 then Inl (invalid_field ''seq'') else Inr (nat i)
      | None \<Rightarrow> Inl (invalid_field ''seq''))"

definition requireTimestamp :: "js_value \<Rightarrow> jsonl_decode_error + nat" where
  "requireTimestamp v =
     (case safe_integer v of
        Some i \<Rightarrow> if i < 0 then Inl (invalid_field ''timestamp'') else Inr (nat i)
      | None \<Rightarrow> Inl (invalid_field ''timestamp''))"

definition requireNullableId :: "js_value \<Rightarrow> string \<Rightarrow> jsonl_decode_error + js_string option" where
  "requireNullableId v k = (case v of JNull \<Rightarrow> Inr None | JString s \<Rightarrow> Inr (Some s) | _ \<Rightarrow> Inl (invalid_field k))"

text \<open>A property of type \<open>string | undefined\<close>.\<close>

definition optional_string :: "js_value \<Rightarrow> string \<Rightarrow> jsonl_decode_error + js_string option" where
  "optional_string v k = (case v of JUndefined \<Rightarrow> Inr None | JString s \<Rightarrow> Inr (Some s) | _ \<Rightarrow> Inl (invalid_field k))"

section \<open>The header\<close>

record jsonl_header =
  hd_id :: js_string
  hd_createdAt :: nat
  hd_cwd :: js_string
  hd_parentSessionId :: "js_string option"
  hd_legacyParentSessionPath :: "js_string option"
  hd_metadata :: "fields option"

record jsonl_metadata =
  jm_id :: js_string
  jm_createdAt :: nat
  jm_cwd :: js_string
  jm_path :: js_string
  jm_modifiedAt :: nat
  jm_sourceFormat :: nat
  jm_parentSessionId :: "js_string option"
  jm_legacyParentSessionPath :: "js_string option"
  jm_metadata :: "fields option"

definition decodeHeader :: "js_string \<Rightarrow> jsonl_decode_error + jsonl_header" where
  "decodeHeader line =
     bindR (parseObject line) (\<lambda>value.
     bindR (guardR (prop_of value ''kind'' = json_str ''header'') (JsonlDecodeError Schema (js ''is not a header''))) (\<lambda>_.
     bindR (guardR (prop_of value ''version'' = json_nat 4) (JsonlDecodeError Schema (js ''has unsupported session version''))) (\<lambda>_.
     bindR (optional_string (prop_of value ''parentSessionId'') ''parentSessionId'') (\<lambda>parent.
     bindR (optional_string (prop_of value ''legacyParentSessionPath'') ''legacyParentSessionPath'') (\<lambda>legacy.
     bindR (guardR (parent = None \<or> legacy = None) (JsonlDecodeError Schema (js ''has both parentSessionId and legacyParentSessionPath''))) (\<lambda>_.
     bindR (case prop_of value ''metadata'' of
              JUndefined \<Rightarrow> Inr None
            | JObject _ es \<Rightarrow> Inr (Some es)
            | _ \<Rightarrow> Inl (invalid_field ''metadata'')) (\<lambda>metadata.
     bindR (requireString (prop_of value ''id'') ''id'') (\<lambda>i.
     bindR (requireTimestamp (prop_of value ''createdAt'')) (\<lambda>created.
     bindR (requireString (prop_of value ''cwd'') ''cwd'') (\<lambda>cwd.
     Inr \<lparr>hd_id = i, hd_createdAt = created, hd_cwd = cwd, hd_parentSessionId = parent,
          hd_legacyParentSessionPath = legacy, hd_metadata = metadata\<rparr>))))))))))"

definition parseHeader :: "js_string \<Rightarrow> jsonl_decode_error + jsonl_header" where
  "parseHeader line = decodeHeader line"

definition header_object :: "jsonl_header \<Rightarrow> js_value" where
  "header_object h = JObject False
     (obj [(''kind'', Some (json_str ''header'')), (''version'', Some (json_nat 4)), (''id'', Some (JString (hd_id h))),
      (''createdAt'', Some (json_nat (hd_createdAt h))), (''cwd'', Some (JString (hd_cwd h))),
      (''parentSessionId'', map_option JString (hd_parentSessionId h)),
      (''legacyParentSessionPath'', map_option JString (hd_legacyParentSessionPath h)),
      (''metadata'', map_option (JObject False) (hd_metadata h))])"

text \<open>The text of an object followed by a line feed; \<open>None\<close> when \<open>JSON.stringify\<close> throws.\<close>

definition json_line :: "(js_number \<Rightarrow> string) \<Rightarrow> (string \<Rightarrow> js_string) \<Rightarrow> js_value \<Rightarrow> js_string option" where
  "json_line pn po v =
     (case stringify pn po v of
        JsonText t \<Rightarrow> Some (t @ [LF])
      | JsonUndefined \<Rightarrow> Some (js ''undefined'' @ [LF])
      | JsonThrows \<Rightarrow> None)"

definition encodeHeader :: "(js_number \<Rightarrow> string) \<Rightarrow> (string \<Rightarrow> js_string) \<Rightarrow> jsonl_header \<Rightarrow> js_string option" where
  "encodeHeader pn po h = json_line pn po (header_object h)"

definition metadataFromHeader :: "jsonl_header \<Rightarrow> js_string \<Rightarrow> nat \<Rightarrow> jsonl_metadata" where
  "metadataFromHeader h path modifiedAt =
     \<lparr>jm_id = hd_id h, jm_createdAt = hd_createdAt h, jm_cwd = hd_cwd h, jm_path = path, jm_modifiedAt = modifiedAt,
      jm_sourceFormat = 4, jm_parentSessionId = hd_parentSessionId h,
      jm_legacyParentSessionPath = hd_legacyParentSessionPath h, jm_metadata = hd_metadata h\<rparr>"

section \<open>Mutations\<close>

datatype raw_mutation =
    RawEntry "js_string option" fields
  | RawRecord fields
  | RawLane nat js_string "js_string option"
  | RawName nat "js_string option"
  | RawLabel nat js_string "js_string option"

text \<open>A rest pattern leaves properties out; an object literal with a spread sets the named ones again.\<close>

definition omit :: "string list \<Rightarrow> fields \<Rightarrow> fields" where
  "omit ks es = filter (\<lambda>(k, v). k \<notin> set (map js ks)) es"

definition set_fields :: "fields \<Rightarrow> (string \<times> js_value) list \<Rightarrow> fields" where
  "set_fields es kvs = foldl (\<lambda>es (k, v). AList.update (js k) v es) es kvs"

definition parseEntryMutation :: "fields \<Rightarrow> nat \<Rightarrow> jsonl_decode_error + raw_mutation" where
  "parseEntryMutation value seq =
     bindR (if prop_of value ''lane'' = JUndefined then Inr None
            else bindR (requireString (prop_of value ''lane'') ''lane'') (\<lambda>l. Inr (Some l))) (\<lambda>lane.
     bindR (requireString (prop_of value ''id'') ''id'') (\<lambda>i.
     bindR (requireString (prop_of value ''type'') ''entry type'') (\<lambda>type.
     bindR (guardR (type \<in> set (map (js \<circ> fst) entry_types)) (JsonlDecodeError Schema (js ''has unknown entry type '' @ type))) (\<lambda>_.
     bindR (requireNullableId (prop_of value ''parentId'') ''parentId'') (\<lambda>parent.
     bindR (requireTimestamp (prop_of value ''timestamp'')) (\<lambda>timestamp.
     bindR (if type = js ''custom'' then requireString (prop_of value ''customType'') ''customType'' else Inr []) (\<lambda>_.
     Inr (RawEntry lane (set_fields (omit [''kind'', ''lane''] value)
       [(''id'', JString i), (''type'', JString type), (''parentId'', json_null JString parent),
        (''seq'', json_nat seq), (''timestamp'', json_nat timestamp)])))))))))"

definition parseRecordMutation :: "fields \<Rightarrow> nat \<Rightarrow> jsonl_decode_error + raw_mutation" where
  "parseRecordMutation value seq =
     bindR (requireString (prop_of value ''id'') ''id'') (\<lambda>i.
     bindR (requireString (prop_of value ''lane'') ''lane'') (\<lambda>lane.
     bindR (requireString (prop_of value ''type'') ''record type'') (\<lambda>type.
     bindR (guardR (type \<in> set (map (js \<circ> fst) record_types)) (JsonlDecodeError Schema (js ''has unknown record type '' @ type))) (\<lambda>_.
     bindR (requireTimestamp (prop_of value ''timestamp'')) (\<lambda>timestamp.
     bindR (if type = js ''operation_started'' then
              (case prop_of value ''intent'' of
                 JObject _ is \<Rightarrow>
                   bindR (requireString (prop_of is ''kind'') ''operation kind'') (\<lambda>k.
                   guardR (k \<in> set (map (js \<circ> fst) operation_kinds)) (JsonlDecodeError Schema (js ''has unknown operation kind '' @ k)))
               | _ \<Rightarrow> Inl (invalid_field ''intent''))
            else Inr ()) (\<lambda>_.
     bindR (if type = js ''operation_finished'' then requireString (prop_of value ''runId'') ''runId'' else Inr []) (\<lambda>_.
     Inr (RawRecord (set_fields (omit [''kind''] value)
       [(''id'', JString i), (''lane'', JString lane), (''type'', JString type), (''seq'', json_nat seq),
        (''timestamp'', json_nat timestamp)])))))))))"

definition parseLaneMutation :: "fields \<Rightarrow> nat \<Rightarrow> jsonl_decode_error + raw_mutation" where
  "parseLaneMutation value seq =
     bindR (requireString (prop_of value ''lane'') ''lane'') (\<lambda>lane.
     bindR (requireNullableId (prop_of value ''leafId'') ''leafId'') (\<lambda>leaf.
     Inr (RawLane seq lane leaf)))"

definition parseFactMutation :: "fields \<Rightarrow> nat \<Rightarrow> jsonl_decode_error + raw_mutation" where
  "parseFactMutation value seq =
     (if prop_of value ''fact'' = json_str ''name'' then
        bindR (optional_string (prop_of value ''name'') ''name'') (\<lambda>n. Inr (RawName seq n))
      else if prop_of value ''fact'' = json_str ''label'' then
        bindR (optional_string (prop_of value ''label'') ''label'') (\<lambda>l.
        bindR (requireString (prop_of value ''targetId'') ''targetId'') (\<lambda>t. Inr (RawLabel seq t l)))
      else Inl (JsonlDecodeError Schema (js ''has unknown fact type'')))"

definition decodeMutation :: "js_string \<Rightarrow> jsonl_decode_error + raw_mutation" where
  "decodeMutation line =
     bindR (parseObject line) (\<lambda>value.
     bindR (requireSequence (prop_of value ''seq'')) (\<lambda>seq.
     if prop_of value ''kind'' = json_str ''entry'' then parseEntryMutation value seq
     else if prop_of value ''kind'' = json_str ''record'' then parseRecordMutation value seq
     else if prop_of value ''kind'' = json_str ''lane'' then parseLaneMutation value seq
     else if prop_of value ''kind'' = json_str ''fact'' then parseFactMutation value seq
     else Inl (JsonlDecodeError Schema (js ''has unknown mutation kind''))))"

definition parseMutation :: "js_string \<Rightarrow> jsonl_decode_error + raw_mutation" where
  "parseMutation line = decodeMutation line"

fun mutation_fields :: "session_mutation \<Rightarrow> (string \<times> js_value option) list" where
  "mutation_fields (MutEntry lane e) =
     (''kind'', Some (json_str ''entry'')) # (''lane'', map_option json_str lane) # entry_fields e"
| "mutation_fields (MutRecord r) = (''kind'', Some (json_str ''record'')) # record_fields r"
| "mutation_fields (MutLane n lane leaf) =
     [(''kind'', Some (json_str ''lane'')), (''seq'', Some (json_nat n)), (''lane'', Some (json_str lane)),
      (''leafId'', Some (json_null json_str leaf))]"
| "mutation_fields (MutName n name) =
     [(''kind'', Some (json_str ''fact'')), (''seq'', Some (json_nat n)), (''fact'', Some (json_str ''name'')),
      (''name'', map_option json_str name)]"
| "mutation_fields (MutLabel n t label) =
     [(''kind'', Some (json_str ''fact'')), (''seq'', Some (json_nat n)), (''fact'', Some (json_str ''label'')),
      (''targetId'', Some (json_str t)), (''label'', map_option json_str label)]"

definition mutation_object :: "session_mutation \<Rightarrow> js_value" where
  "mutation_object m = JObject False (obj (mutation_fields m))"

definition encodeMutation :: "(js_number \<Rightarrow> string) \<Rightarrow> (string \<Rightarrow> js_string) \<Rightarrow> session_mutation \<Rightarrow> js_string option" where
  "encodeMutation pn po m = json_line pn po (mutation_object m)"

definition opt_unjs :: "js_string option \<Rightarrow> string option option" where
  "opt_unjs x = (case x of None \<Rightarrow> Some None | Some s \<Rightarrow> map_option Some (unjs s))"

fun as_mutation :: "raw_mutation \<Rightarrow> session_mutation option" where
  "as_mutation (RawEntry lane es) = do { l \<leftarrow> opt_unjs lane; e \<leftarrow> as_entry es; Some (MutEntry l e) }"
| "as_mutation (RawRecord es) = map_option MutRecord (as_record es)"
| "as_mutation (RawLane n lane leaf) = do { l \<leftarrow> unjs lane; i \<leftarrow> opt_unjs leaf; Some (MutLane n l i) }"
| "as_mutation (RawName n name) = map_option (MutName n) (opt_unjs name)"
| "as_mutation (RawLabel n t label) = do { i \<leftarrow> unjs t; l \<leftarrow> opt_unjs label; Some (MutLabel n i l) }"

section \<open>Reading what was written\<close>

lemma prop_of_obj [json_codec]:
  "k' \<noteq> k \<Longrightarrow> prop_of (obj ((k, v) # es)) k' = prop_of (obj es) k'" "prop_of (obj ((k, Some w) # es)) k = w"
  "prop_of (obj ((k, None) # es)) k' = prop_of (obj es) k'" "prop_of (obj []) k = JUndefined"
  by (simp_all add: prop_of_def obj.simps split: option.split)

lemma prop_of_optional [json_codec]:
  "prop_of (obj es) k = JUndefined \<Longrightarrow>
   prop_of (obj ((k, map_option f x) # es)) k = (case x of None \<Rightarrow> JUndefined | Some y \<Rightarrow> f y)"
  by (cases x) (simp_all add: json_codec)

lemma optional_string_round [json_codec]:
  "optional_string (case x of None \<Rightarrow> JUndefined | Some y \<Rightarrow> json_str y) k = Inr (map_option js x)"
  "optional_string (case z of None \<Rightarrow> JUndefined | Some y \<Rightarrow> JString y) k = Inr z"
  by (cases x; cases z; simp add: optional_string_def json_str_def)+

lemma requireString_json [json_codec]: "requireString (json_str s) k = Inr (js s)" "requireString (JString t) k = Inr t"
  by (simp_all add: requireString_def json_str_def)

lemma requireNullableId_json [json_codec]: "requireNullableId (json_null json_str x) k = Inr (map_option js x)"
  by (cases x) (simp_all add: requireNullableId_def json_null_def json_str_def)

lemma require_numbers [json_codec]:
  "is_safe_integer (int n) \<Longrightarrow> 0 < n \<Longrightarrow> requireSequence (json_nat n) = Inr n"
  "is_safe_integer (int m) \<Longrightarrow> requireTimestamp (json_nat m) = Inr m"
  by (simp_all add: requireSequence_def requireTimestamp_def safe_integer_def json_nat_def)

lemma json_str_inject [json_codec]: "json_str s = json_str t \<longleftrightarrow> s = t"
  by (simp add: json_str_def)

lemma opt_unjs_round [json_codec]: "opt_unjs (map_option js x) = Some x"
  by (cases x) (simp_all add: opt_unjs_def unjs_js)

lemma omit_drop: "k \<in> set ks \<Longrightarrow> omit ks (obj ((k, v) # es)) = omit ks (obj es)"
  by (simp add: omit_def obj.simps split: option.split)

lemma omit_absent: "\<forall>k\<in>set ks. k \<notin> fst ` set es \<Longrightarrow> omit ks (obj es) = obj es"
proof (induction es)
  case (Cons x es)
  then show ?case by (cases x) (auto simp: omit_def obj.simps split: option.split)
qed (simp add: omit_def obj.simps)

lemma update_same: "map_of es k = Some v \<Longrightarrow> AList.update k v es = es"
  by (induction es) (auto split: if_splits)

lemma set_fields_same: "(\<And>k v. (k, v) \<in> set kvs \<Longrightarrow> map_of es (js k) = Some v) \<Longrightarrow> set_fields es kvs = es"
  unfolding set_fields_def by (induction kvs) (auto simp: update_same)

lemma map_of_obj [json_codec]:
  "k' \<noteq> k \<Longrightarrow> map_of (obj ((k, v) # es)) (js k') = map_of (obj es) (js k')" "map_of (obj ((k, Some w) # es)) (js k) = Some w"
  by (simp_all add: obj.simps split: option.split)

text \<open>A mutation that can be stored: its object is JSON data, its numbers are in range and print readably.\<close>

fun mutation_doubles :: "session_mutation \<Rightarrow> bool" where
  "mutation_doubles (MutEntry _ e) = (payload_doubles (payload e) \<and> is_safe_integer (int (entry_timestamp e)))"
| "mutation_doubles (MutRecord r) = (record_doubles (record_payload r) \<and> is_safe_integer (int (record_timestamp r)))"
| "mutation_doubles _ = True"

definition json_data :: "(js_number \<Rightarrow> string) \<Rightarrow> js_value \<Rightarrow> bool" where
  "json_data pn v = (json_value v \<and> wf_value v \<and> readable_numbers pn v)"

definition storable :: "(js_number \<Rightarrow> string) \<Rightarrow> session_mutation \<Rightarrow> bool" where
  "storable pn m =
     (json_data pn (mutation_object m) \<and> mutation_doubles m \<and> 0 < mutation_seq m \<and> is_safe_integer (int (mutation_seq m)))"

lemma parse_entry_object:
  assumes "is_safe_integer (int (entry_timestamp e))"
  shows "parseEntryMutation (obj (mutation_fields (MutEntry lane e))) (entry_seq e) = Inr (RawEntry (map_option js lane) (obj (entry_fields e)))"
proof -
  define es where es: "es = obj (mutation_fields (MutEntry lane e))"
  have absent: "omit [''kind'', ''lane''] es = obj (entry_fields e)"
  proof -
    have "omit [''kind'', ''lane''] (obj (entry_fields e)) = obj (entry_fields e)"
      by (rule omit_absent, cases "payload e") (auto simp: entry_fields_def)
    then show ?thesis by (simp add: omit_drop es)
  qed
  have lane: "prop_of es ''lane'' = (case lane of None \<Rightarrow> JUndefined | Some l \<Rightarrow> json_str l)"
    by (cases "payload e"; cases lane) (simp_all add: json_codec entry_fields_def es)
  obtain s where s: "json_enum entry_types (entry_type_of e) = json_str s" "s \<in> fst ` set entry_types"
    by (cases "payload e") (auto simp: json_enum_def entry_types_def entry_type_of_def)
  have custom: "\<exists>t. requireString (prop_of es ''customType'') ''customType'' = Inr t" if "s = ''custom''"
    using that s by (cases "payload e") (auto simp: json_enum_def entry_types_def entry_type_of_def entry_fields_def json_codec es)
  have same: "set_fields (obj (entry_fields e)) [(''id'', JString (js (entry_id e))), (''type'', JString (js s)),
      (''parentId'', json_null JString (map_option js (parentId e))), (''seq'', json_nat (entry_seq e)), (''timestamp'', json_nat (entry_timestamp e))]
      = obj (entry_fields e)"
    by (rule set_fields_same) (auto simp: entry_fields_def json_codec s json_str_def json_null_def split: option.split)
  have reads: "prop_of es ''id'' = json_str (entry_id e)" "prop_of es ''type'' = json_str s"
    "prop_of es ''parentId'' = json_null json_str (parentId e)" "prop_of es ''timestamp'' = json_nat (entry_timestamp e)"
    by (simp_all add: entry_fields_def json_codec s es)
  have lane_step: "(if prop_of es ''lane'' = JUndefined then Inr None
      else bindR (requireString (prop_of es ''lane'') ''lane'') (\<lambda>l. Inr (Some l))) = Inr (map_option js lane)"
    unfolding lane by (cases lane) (simp_all add: json_codec json_str_def)
  obtain t where t: "(if s = ''custom'' then requireString (prop_of es ''customType'') ''customType'' else Inr []) = Inr t"
    using custom by (cases "s = ''custom''") auto
  have guard: "guardR (js s \<in> set (map (js \<circ> fst) entry_types)) err = Inr ()" for err :: jsonl_decode_error
    using s(2) by (auto simp: guardR_def)
  have custom_step: "(if js s = js ''custom'' then requireString (prop_of es ''customType'') ''customType'' else Inr []) = Inr t"
    using t by (simp only: js_inject)
  show ?thesis
    unfolding parseEntryMutation_def es [symmetric] reads lane_step absent
      bindR_simps requireString_json requireNullableId_json require_numbers(2) [OF assms] guard custom_step same ..
qed

lemma parse_record_object:
  assumes "is_safe_integer (int (record_timestamp r))"
  shows "parseRecordMutation (obj (mutation_fields (MutRecord r))) (record_seq r) = Inr (RawRecord (obj (record_fields r)))"
proof -
  define es where es: "es = obj (mutation_fields (MutRecord r))"
  have absent: "omit [''kind''] es = obj (record_fields r)"
  proof -
    have "omit [''kind''] (obj (record_fields r)) = obj (record_fields r)"
      by (rule omit_absent, cases "record_payload r") (auto simp: record_fields_def)
    then show ?thesis by (simp add: omit_drop es)
  qed
  obtain s where s: "json_enum record_types (record_type_of r) = json_str s" "s \<in> fst ` set record_types"
    by (cases "record_payload r") (auto simp: json_enum_def record_types_def record_type_of_def)
  have same: "set_fields (obj (record_fields r)) [(''id'', JString (js (record_id r))), (''lane'', JString (js (record_lane r))),
      (''type'', JString (js s)), (''seq'', json_nat (record_seq r)), (''timestamp'', json_nat (record_timestamp r))]
      = obj (record_fields r)"
    by (rule set_fields_same) (auto simp: record_fields_def json_codec s json_str_def)
  have reads: "prop_of es ''id'' = json_str (record_id r)" "prop_of es ''lane'' = json_str (record_lane r)"
    "prop_of es ''type'' = json_str s" "prop_of es ''timestamp'' = json_nat (record_timestamp r)"
    by (simp_all add: record_fields_def json_codec s es)
  have guard: "guardR (js s \<in> set (map (js \<circ> fst) record_types)) err = Inr ()" for err :: jsonl_decode_error
    using s(2) by (auto simp: guardR_def)
  have kinds: "\<exists>is k. intent_object i = JObject False is \<and> prop_of is ''kind'' = json_str k \<and> k \<in> fst ` set operation_kinds" for i
    by (cases i) (auto simp: tagged_def json_codec operation_kinds_def)
  have intent_step: "(if js s = js ''operation_started'' then
              (case prop_of es ''intent'' of
                 JObject _ is \<Rightarrow>
                   bindR (requireString (prop_of is ''kind'') ''operation kind'') (\<lambda>k.
                   guardR (k \<in> set (map (js \<circ> fst) operation_kinds)) (JsonlDecodeError Schema (js ''has unknown operation kind '' @ k)))
               | _ \<Rightarrow> Inl (invalid_field ''intent''))
            else Inr ()) = Inr ()"
  proof (cases "record_payload r")
    case (OperationStarted leaf i)
    then have "prop_of es ''intent'' = intent_object i" by (simp add: es record_fields_def json_codec)
    moreover obtain "is" k where "intent_object i = JObject False is" "prop_of is ''kind'' = json_str k" "k \<in> fst ` set operation_kinds"
      using kinds by blast
    ultimately show ?thesis by (auto simp: json_codec guardR_def)
  qed (use s(1) in \<open>auto simp: json_enum_def record_types_def record_type_of_def json_str_def\<close>)
  have "\<exists>t. (if js s = js ''operation_finished'' then requireString (prop_of es ''runId'') ''runId'' else Inr []) = Inr t"
    by (cases "record_payload r") (use s(1) in \<open>auto simp: json_enum_def record_types_def record_type_of_def json_str_def es record_fields_def json_codec\<close>)
  then obtain t where finished_step: "(if js s = js ''operation_finished'' then requireString (prop_of es ''runId'') ''runId'' else Inr []) = Inr t" ..
  show ?thesis
    unfolding parseRecordMutation_def es [symmetric] reads absent bindR_simps requireString_json require_numbers(2) [OF assms] guard
      intent_step finished_step same ..
qed

lemma decode_mutation_object:
  assumes "mutation_doubles m" "0 < mutation_seq m" "is_safe_integer (int (mutation_seq m))"
    and "json_parse line = Some (mutation_object m)"
  shows "\<exists>raw. parseMutation line = Inr raw \<and> as_mutation raw = Some m"
proof -
  have parsed: "parseObject line = Inr (obj (mutation_fields m))" using assms(4) by (simp add: parseObject_def mutation_object_def)
  have seq: "requireSequence (prop_of (obj (mutation_fields m)) ''seq'') = Inr (mutation_seq m)"
    using assms(2,3) by (cases m) (simp_all add: json_codec entry_fields_def record_fields_def)
  show ?thesis
  proof (cases m)
    case (MutEntry lane e)
    then have "parseMutation line = Inr (RawEntry (map_option js lane) (obj (entry_fields e)))"
      using parsed seq parse_entry_object [of e lane] assms(1) by (simp add: parseMutation_def decodeMutation_def json_codec)
    then show ?thesis using assms(1) MutEntry by (simp add: json_codec)
  next
    case (MutRecord r)
    then have "parseMutation line = Inr (RawRecord (obj (record_fields r)))"
      using parsed seq parse_record_object [of r] assms(1) by (simp add: parseMutation_def decodeMutation_def json_codec)
    then show ?thesis using assms(1) MutRecord by (simp add: json_codec)
  qed (use parsed seq in \<open>simp_all add: parseMutation_def decodeMutation_def parseLaneMutation_def parseFactMutation_def json_codec\<close>)
qed

section \<open>Lines\<close>

text \<open>A line that holds JSON data is one line, and reading it gives the data.\<close>

lemma json_line_text:
  assumes "json_data pn v" "v = JObject False es"
  shows "\<exists>t. json_line pn po v = Some (t @ [LF]) \<and> LF \<notin> set t \<and> t \<noteq> [] \<and> hd t = 0x7B
    \<and> json_parse t = Some v \<and> parse_value t = Some (v, [])"
proof -
  have jv: "json_value v" "wf_value v" "readable_numbers pn v" using assms(1) by (simp_all add: json_data_def)
  then obtain t where t: "stringify pn po v = JsonText t" using json_value_text by blast
  have "LF \<notin> set t" using stringify_printable [OF jv(1,3) t, of LF] by (auto simp: LF_def)
  moreover have "reads_as t v" by (rule stringify_reads_as [OF jv t])
  then have "parse_value t = Some (v, [])" by (auto simp: reads_as_def dest: spec [of _ "[]"])
  moreover have "hd t = 0x7B \<and> t \<noteq> []" using object_text_start t unfolding assms(2) .
  ultimately show ?thesis using json_round_trip [OF jv t] by (auto simp: json_line_def t)
qed

definition storable_header :: "(js_number \<Rightarrow> string) \<Rightarrow> jsonl_header \<Rightarrow> bool" where
  "storable_header pn h =
     (json_data pn (header_object h) \<and> is_safe_integer (int (hd_createdAt h))
      \<and> (hd_parentSessionId h = None \<or> hd_legacyParentSessionPath h = None))"

lemma decode_header_object:
  assumes "json_parse line = Some (header_object h)" "is_safe_integer (int (hd_createdAt h))"
    and "hd_parentSessionId h = None \<or> hd_legacyParentSessionPath h = None"
  shows "parseHeader line = Inr h"
proof -
  define es where es: "es = obj [(''kind'', Some (json_str ''header'')), (''version'', Some (json_nat 4)), (''id'', Some (JString (hd_id h))),
      (''createdAt'', Some (json_nat (hd_createdAt h))), (''cwd'', Some (JString (hd_cwd h))),
      (''parentSessionId'', map_option JString (hd_parentSessionId h)),
      (''legacyParentSessionPath'', map_option JString (hd_legacyParentSessionPath h)),
      (''metadata'', map_option (JObject False) (hd_metadata h))]"
  have parsed: "parseObject line = Inr es" using assms(1) by (simp add: parseObject_def header_object_def es)
  have reads: "prop_of es ''kind'' = json_str ''header''" "prop_of es ''version'' = json_nat 4" "prop_of es ''id'' = JString (hd_id h)"
    "prop_of es ''createdAt'' = json_nat (hd_createdAt h)" "prop_of es ''cwd'' = JString (hd_cwd h)"
    "prop_of es ''parentSessionId'' = (case hd_parentSessionId h of None \<Rightarrow> JUndefined | Some y \<Rightarrow> JString y)"
    "prop_of es ''legacyParentSessionPath'' = (case hd_legacyParentSessionPath h of None \<Rightarrow> JUndefined | Some y \<Rightarrow> JString y)"
    "prop_of es ''metadata'' = (case hd_metadata h of None \<Rightarrow> JUndefined | Some y \<Rightarrow> JObject False y)"
    by (simp_all add: es json_codec)
  have meta: "(case (case hd_metadata h of None \<Rightarrow> JUndefined | Some y \<Rightarrow> JObject False y) of
              JUndefined \<Rightarrow> Inr None
            | JObject _ es \<Rightarrow> Inr (Some es)
            | _ \<Rightarrow> Inl (invalid_field ''metadata'')) = Inr (hd_metadata h)"
    by (cases "hd_metadata h") simp_all
  have guard: "guardR (hd_parentSessionId h = None \<or> hd_legacyParentSessionPath h = None) e = Inr ()" for e :: jsonl_decode_error
    using assms(3) by simp
  show ?thesis
    unfolding parseHeader_def decodeHeader_def parsed reads bindR_simps optional_string_round guard meta
      requireString_json require_numbers(2) [OF assms(2)] by simp
qed

theorem header_line_round:
  assumes "storable_header pn h"
  shows "\<exists>t. encodeHeader pn po h = Some (t @ [LF]) \<and> LF \<notin> set t \<and> t \<noteq> [] \<and> parseHeader t = Inr h"
proof -
  obtain t where t: "json_line pn po (header_object h) = Some (t @ [LF])" "LF \<notin> set t" "t \<noteq> []" "json_parse t = Some (header_object h)"
    using json_line_text [of pn "header_object h" _ po] assms by (auto simp: storable_header_def header_object_def)
  then have "parseHeader t = Inr h" using decode_header_object assms by (simp add: storable_header_def)
  with t show ?thesis unfolding encodeHeader_def by blast
qed

text \<open>What is left of a line when the write of it breaks off: a beginning of it, which may end inside a character.\<close>

definition torn_piece :: "js_string \<Rightarrow> js_string \<Rightarrow> bool" where
  "torn_piece t p = (p \<noteq> t \<and> (\<exists>q r. t = q @ r \<and> r \<noteq> [] \<and> (p = q \<or> q \<noteq> [] \<and> p = q @ [0xFFFD])))"

theorem mutation_line_round:
  assumes "storable pn m"
  shows "\<exists>t raw. encodeMutation pn po m = Some (t @ [LF]) \<and> LF \<notin> set t \<and> t \<noteq> [] \<and> hd t = 0x7B
    \<and> parseMutation t = Inr raw \<and> as_mutation raw = Some m
    \<and> (\<forall>p. torn_piece t p \<longrightarrow> (\<exists>msg. parseMutation p = Inl (JsonlDecodeError Syntax msg)))"
proof -
  obtain t where t: "json_line pn po (mutation_object m) = Some (t @ [LF])" "LF \<notin> set t" "t \<noteq> []" "hd t = 0x7B"
      "json_parse t = Some (mutation_object m)" "parse_value t = Some (mutation_object m, [])"
    using json_line_text [of pn "mutation_object m" _ po] assms by (auto simp: storable_def mutation_object_def)
  obtain raw where raw: "parseMutation t = Inr raw" "as_mutation raw = Some m"
    using decode_mutation_object [OF _ _ _ t(5)] assms by (auto simp: storable_def)
  have "json_parse p = None" if p: "torn_piece t p" for p
  proof -
    from p obtain q r where q: "t = q @ r" "r \<noteq> []" "p = q \<or> q \<noteq> [] \<and> p = q @ [0xFFFD]" unfolding torn_piece_def by blast
    have hd: "q = [] \<or> hd q = 0x7B" using t(4) q(1) by (cases q) auto
    show ?thesis using torn_object [of q r] torn_character [of q] t(6) q hd by auto
  qed
  then have "parseMutation p = Inl (JsonlDecodeError Syntax (js ''is not valid JSON''))" if "torn_piece t p" for p
    using that by (simp add: parseMutation_def decodeMutation_def parseObject_def)
  with t raw show ?thesis unfolding encodeMutation_def by blast
qed

end
