(* ===== verification/Node_Path.thy ===== *)
theory Node_Path
  imports Js_Text
begin

text \<open>
  The functions of \<open>node:path\<close> that the program calls, for POSIX hosts: \<open>isAbsolute\<close>, \<open>normalize\<close>,
  \<open>join\<close>, \<open>resolve\<close>, \<open>basename\<close> and \<open>dirname\<close>. They work on the text of a path only. The current
  directory is an argument.
\<close>

abbreviation sep :: "16 word" where "sep \<equiv> 0x2F"
abbreviation dot :: js_string where "dot \<equiv> [0x2E]"
abbreviation dotdot :: js_string where "dotdot \<equiv> [0x2E, 0x2E]"

definition isAbsolute :: "js_string \<Rightarrow> bool" where
  "isAbsolute p = (p \<noteq> [] \<and> hd p = sep)"

text \<open>One segment of a path, read from left to right. A step up removes the last name; above the first
  name it is kept in a relative path (\<open>up\<close>) and ignored in an absolute one.\<close>

definition push_segment :: "bool \<Rightarrow> js_string list \<Rightarrow> js_string \<Rightarrow> js_string list" where
  "push_segment up acc seg =
     (if seg = [] \<or> seg = dot then acc
      else if seg = dotdot then
        (if acc \<noteq> [] \<and> last acc \<noteq> dotdot then butlast acc else if up then acc @ [dotdot] else acc)
      else acc @ [seg])"

definition normalizeString :: "js_string \<Rightarrow> bool \<Rightarrow> js_string" where
  "normalizeString p up = join_on sep (foldl (push_segment up) [] (split_on sep p))"

definition normalize_path :: "js_string \<Rightarrow> js_string" where
  "normalize_path p =
     (if p = [] then dot
      else let abs = isAbsolute p; q = normalizeString p (\<not> abs)
           in if q = [] then (if abs then [sep] else if last p = sep then dot @ [sep] else dot)
              else (if abs then [sep] else []) @ q @ (if last p = sep then [sep] else []))"

definition join_path :: "js_string list \<Rightarrow> js_string" where
  "join_path ps =
     (let qs = filter (\<lambda>p. p \<noteq> []) ps in if qs = [] then dot else normalize_path (join_on sep qs))"

text \<open>The arguments of \<open>resolve\<close> are read from the last one back to the first absolute one.\<close>

fun resolve_back :: "js_string list \<Rightarrow> js_string \<Rightarrow> js_string \<times> bool" where
  "resolve_back [] acc = (acc, False)"
| "resolve_back (p # ps) acc =
     (if p = [] then resolve_back ps acc
      else if isAbsolute p then (p @ sep # acc, True)
      else resolve_back ps (p @ sep # acc))"

definition resolve_path :: "js_string \<Rightarrow> js_string list \<Rightarrow> js_string" where
  "resolve_path cwd ps =
     (let (acc, abs) = resolve_back (rev ps) [];
          p = (if abs then acc else cwd @ sep # acc); abs' = (abs \<or> isAbsolute cwd);
          q = normalizeString p (\<not> abs')
      in if abs' then sep # q else if q \<noteq> [] then q else dot)"

definition basename :: "js_string \<Rightarrow> js_string" where
  "basename p = rev (takeWhile (\<lambda>c. c \<noteq> sep) (dropWhile (\<lambda>c. c = sep) (rev p)))"

definition dirname :: "js_string \<Rightarrow> js_string" where
  "dirname p =
     (case dropWhile (\<lambda>c. c \<noteq> sep) (dropWhile (\<lambda>c. c = sep) (rev p)) of
        [] \<Rightarrow> if isAbsolute p then [sep] else dot
      | _ # r \<Rightarrow>
          if r = [] then [sep]
          else if length r = 1 \<and> isAbsolute p then [sep, sep]
          else rev r)"

section \<open>Absolute normal paths\<close>

definition clean_name :: "js_string \<Rightarrow> bool" where
  "clean_name s = (s \<noteq> [] \<and> s \<noteq> dot \<and> s \<noteq> dotdot \<and> sep \<notin> set s)"

definition abs_path :: "js_string list \<Rightarrow> js_string" where
  "abs_path names = sep # join_on sep names"

text \<open>The directory that a path names, as the list of names from the root, when the reading starts
  at the directory \<open>d\<close>.\<close>

definition walk :: "js_string list \<Rightarrow> js_string \<Rightarrow> js_string list" where
  "walk d p = foldl (push_segment False) d (split_on sep p)"

definition directory :: "js_string \<Rightarrow> js_string \<Rightarrow> js_string list" where
  "directory cwd p = (if isAbsolute p then walk [] p else walk (walk [] cwd) p)"

lemma split_on_append: "split_on c (xs @ c # ys) = split_on c xs @ split_on c ys"
proof (induction xs)
  case (Cons x xs)
  then show ?case by (cases "split_on c xs") auto
qed simp

lemma push_clean:
  "list_all clean_name acc \<Longrightarrow> sep \<notin> set seg \<Longrightarrow> list_all clean_name (push_segment False acc seg)"
  by (auto simp: push_segment_def clean_name_def list_all_iff dest: in_set_butlastD)

lemma walk_clean:
  assumes "list_all clean_name d" shows "list_all clean_name (walk d p)"
proof -
  have "list_all clean_name (foldl (push_segment False) d ss)" if "\<forall>s\<in>set ss. sep \<notin> set s" for ss
    using that assms by (induction ss arbitrary: d) (auto simp: push_clean)
  moreover have "\<forall>s\<in>set (split_on sep p). sep \<notin> set s" by (rule ballI) (rule split_on_pieces)
  ultimately show ?thesis unfolding walk_def .
qed

lemma directory_clean: "list_all clean_name (directory cwd p)"
  by (simp add: directory_def walk_clean)

lemma walk_sep: "walk d (p @ sep # q) = walk (walk d p) q"
  by (simp add: walk_def split_on_append)

lemma walk_Nil [simp]: "walk d [] = d"
  by (simp add: walk_def push_segment_def)

lemma walk_abs [simp]: "walk d (sep # p) = walk d p"
  using walk_sep [of d "[]" p] by simp

lemma push_clean_name [simp]: "clean_name s \<Longrightarrow> push_segment a acc s = acc @ [s]"
  by (simp add: push_segment_def clean_name_def)

lemma foldl_push_clean: "list_all clean_name ss \<Longrightarrow> foldl (push_segment False) d ss = d @ ss"
  by (induction ss arbitrary: d) auto

lemma walk_join: "list_all clean_name ss \<Longrightarrow> walk d (join_on sep ss) = d @ ss"
proof (cases "ss = []")
  case False
  assume c: "list_all clean_name ss"
  then have "split_on sep (join_on sep ss) = ss"
    using False by (intro split_join) (auto simp: list_all_iff clean_name_def)
  then show ?thesis using c by (simp add: walk_def foldl_push_clean)
qed simp

lemma walk_abs_path: "list_all clean_name ss \<Longrightarrow> walk [] (abs_path ss) = ss"
  by (simp add: abs_path_def walk_join)

lemma abs_path_inject:
  "list_all clean_name ss \<Longrightarrow> list_all clean_name ts \<Longrightarrow> abs_path ss = abs_path ts \<longleftrightarrow> ss = ts"
  using walk_abs_path by metis

lemma isAbsolute_abs_path [simp]: "isAbsolute (abs_path ss)"
  by (simp add: isAbsolute_def abs_path_def)

lemma normalizeString_walk: "normalizeString p False = join_on sep (walk [] p)"
  by (simp add: normalizeString_def walk_def)

lemma resolve_one:
  assumes "isAbsolute cwd"
  shows "resolve_path cwd [p] = abs_path (directory cwd p)"
  using assms walk_sep [of _ p "[]"]
  by (auto simp: resolve_path_def normalizeString_walk abs_path_def walk_sep isAbsolute_def directory_def)

lemma resolve_two:
  assumes "isAbsolute d" "rel \<noteq> []" "\<not> isAbsolute rel"
  shows "resolve_path cwd [d, rel] = abs_path (walk (walk [] d) rel)"
proof -
  have "d \<noteq> []" using assms(1) by (simp add: isAbsolute_def)
  then have "resolve_back (rev [d, rel]) [] = (d @ sep # rel @ [sep], True)" using assms by simp
  moreover have "walk [] (d @ sep # rel @ [sep]) = walk (walk [] d) rel"
    using walk_sep [of "[]" d "rel @ [sep]"] walk_sep [of "walk [] d" rel "[]"] by simp
  ultimately show ?thesis by (simp add: resolve_path_def normalizeString_walk abs_path_def)
qed

lemma take_prefix_iff: "take (length p) xs = p \<longleftrightarrow> (\<exists>q. xs = p @ q)"
  by (metis append_eq_conv_conj append_take_drop_id)

text \<open>One absolute path is below another exactly when its text goes on after the other's text and
  a separator.\<close>

lemma below_iff:
  assumes "list_all clean_name ds" "list_all clean_name ss"
  shows "abs_path ss = abs_path ds \<or>
      (let p = (if last (abs_path ds) = sep then abs_path ds else abs_path ds @ [sep]) in take (length p) (abs_path ss) = p)
    \<longleftrightarrow> take (length ds) ss = ds"
proof (cases "ds = []")
  case True
  then show ?thesis by (simp add: abs_path_def)
next
  case False
  have "clean_name (last ds)" using False assms(1) by (simp add: list_all_iff)
  then have "last (last ds) \<noteq> sep" unfolding clean_name_def by (metis last_in_set)
  moreover have ld: "last (join_on sep ds) = last (last ds) \<and> join_on sep ds \<noteq> []"
    using assms(1) False
  proof (induction ds)
    case (Cons d ds)
    then show ?case by (cases "ds = []") (auto simp: join_on_Cons clean_name_def)
  qed simp
  ultimately have last: "last (abs_path ds) \<noteq> sep" by (simp add: abs_path_def)
  have "take (length (abs_path ds @ [sep])) (abs_path ss) = abs_path ds @ [sep] \<longleftrightarrow> (\<exists>q. abs_path ss = abs_path ds @ sep # q)"
    by (simp only: take_prefix_iff append.assoc append_Cons append_Nil)
  moreover have "abs_path ss = abs_path ds \<longleftrightarrow> ss = ds" using abs_path_inject assms by blast
  moreover have "(\<exists>q. abs_path ss = abs_path ds @ sep # q) \<longleftrightarrow> (\<exists>t ts. ss = ds @ t # ts)"
  proof
    assume "\<exists>q. abs_path ss = abs_path ds @ sep # q"
    then obtain q where q: "join_on sep ss = join_on sep ds @ sep # q" by (auto simp: abs_path_def)
    have "ss \<noteq> []" using q by auto
    then have "ss = split_on sep (join_on sep ss)" using assms(2) by (subst split_join) (auto simp: list_all_iff clean_name_def)
    also have "\<dots> = ds @ split_on sep q"
      unfolding q split_on_append using False assms(1) by (subst split_join) (auto simp: list_all_iff clean_name_def)
    finally show "\<exists>t ts. ss = ds @ t # ts" by (cases "split_on sep q") auto
  next
    assume "\<exists>t ts. ss = ds @ t # ts"
    then show "\<exists>q. abs_path ss = abs_path ds @ sep # q" using False by (auto simp: abs_path_def join_on_append)
  qed
  moreover have "take (length ds) ss = ds \<longleftrightarrow> ss = ds \<or> (\<exists>t ts. ss = ds @ t # ts)"
    by (simp only: take_prefix_iff) (metis append_Nil2 neq_Nil_conv)
  ultimately show ?thesis using last by (simp add: Let_def)
qed

section \<open>The parts of a normal path\<close>

lemma abs_path_snoc: "abs_path (d @ [n]) = (if d = [] then [sep] else abs_path d @ [sep]) @ n"
  by (simp add: abs_path_def join_on_append)

lemma until_sep:
  "x \<notin> set xs \<Longrightarrow> takeWhile (\<lambda>c. c \<noteq> x) (xs @ x # r) = xs" "x \<notin> set xs \<Longrightarrow> dropWhile (\<lambda>c. c \<noteq> x) (xs @ x # r) = x # r"
  by (induction xs) auto

lemma rev_abs_path_snoc:
  assumes "clean_name n"
  shows "dropWhile (\<lambda>c. c = sep) (rev (abs_path (d @ [n]))) = rev n @ sep # (if d = [] then [] else rev (abs_path d))"
proof -
  obtain c m where n: "rev n = c # m" using assms by (cases "rev n") (auto simp: clean_name_def)
  then have "c \<in> set n" by (metis list.set_intros(1) set_rev)
  then have "c \<noteq> sep" using assms by (auto simp: clean_name_def)
  then show ?thesis by (simp add: abs_path_snoc n)
qed

lemma clean_name_sep [simp]: "clean_name n \<Longrightarrow> sep \<notin> set (rev n)"
  by (simp add: clean_name_def)

lemma basename_abs_path:
  assumes "clean_name n" shows "basename (abs_path (d @ [n])) = n"
proof -
  have "takeWhile (\<lambda>c. c \<noteq> sep) (dropWhile (\<lambda>c. c = sep) (rev (abs_path (d @ [n])))) = rev n"
    unfolding rev_abs_path_snoc [OF assms] by (rule until_sep) (rule clean_name_sep [OF assms])
  then show ?thesis unfolding basename_def by simp
qed

lemma dirname_abs_path:
  assumes "clean_name n" "list_all clean_name d" shows "dirname (abs_path (d @ [n])) = abs_path d"
proof -
  have len: "length (abs_path d) \<noteq> 1" "abs_path d \<noteq> []" if "d \<noteq> []"
  proof -
    from that obtain x xs where "d = x # xs" "x \<noteq> []" using assms(2) by (cases d) (auto simp: clean_name_def)
    then show "length (abs_path d) \<noteq> 1" "abs_path d \<noteq> []" by (cases xs; auto simp: abs_path_def join_on_Cons)+
  qed
  have "dropWhile (\<lambda>c. c \<noteq> sep) (dropWhile (\<lambda>c. c = sep) (rev (abs_path (d @ [n]))))
      = sep # (if d = [] then [] else rev (abs_path d))"
    unfolding rev_abs_path_snoc [OF assms(1)] by (rule until_sep) (rule clean_name_sep [OF assms(1)])
  then show ?thesis using len unfolding dirname_def by (cases "d = []") (simp_all add: abs_path_def [of "[]"])
qed

lemma normalize_absolute:
  assumes "isAbsolute p" "last p \<noteq> sep" "walk [] p \<noteq> []"
  shows "normalize_path p = abs_path (walk [] p)"
proof -
  have "p \<noteq> []" using assms(1) by (simp add: isAbsolute_def)
  moreover have "list_all clean_name (walk [] p)" by (simp add: walk_clean)
  then have "join_on sep (walk [] p) \<noteq> []" using assms(3)
    by (cases "walk [] p") (auto simp: join_on_Cons clean_name_def)
  ultimately show ?thesis using assms by (simp add: normalize_path_def Let_def normalizeString_walk abs_path_def)
qed

lemma join_absolute:
  assumes "isAbsolute p" "clean_name n" shows "join_path [p, n] = abs_path (walk [] p @ [n])"
proof -
  have ne: "p \<noteq> []" "n \<noteq> []" using assms by (auto simp: isAbsolute_def clean_name_def)
  have w: "walk [] (p @ sep # n) = walk [] p @ [n]"
    using walk_sep [of "[]" p n] walk_join [of "[n]" "walk [] p"] assms(2) by simp
  have "last n \<noteq> sep" using assms(2) ne by (metis clean_name_def last_in_set)
  then have "normalize_path (p @ sep # n) = abs_path (walk [] p @ [n])"
    using normalize_absolute [of "p @ sep # n"] assms ne w by (simp add: isAbsolute_def)
  then show ?thesis using ne by (simp add: join_path_def)
qed

end
