(* ===== verification/File_Store.thy ===== *)
theory File_Store
  imports Node_Path
begin

text \<open>
  The file system that the session repository writes to, as the interface \<open>FileSystem\<close> of \<open>harness/types.ts\<close>
  documents it: a store of files and directories by path, whose calls return a value or a \<open>FileError\<close> and never throw.
  What the disk does is part of the store: each call takes the next fault, if there is one; a write that fails may
  leave a part of its text behind. Symbolic links and the creation of parent directories are not part of it.
\<close>

section \<open>Errors and nodes\<close>

datatype file_error_code =
    Fe_aborted | Fe_not_found | Fe_permission_denied | Fe_not_directory | Fe_is_directory | Fe_invalid
  | Fe_not_supported | Fe_unknown

datatype file_error = FileError (file_error_code: file_error_code) (file_error_message: js_string)

datatype file_kind = Kind_file | Kind_directory | Kind_symlink

record file_info =
  fi_name :: js_string
  fi_path :: js_string
  fi_kind :: file_kind
  fi_mtimeMs :: nat

datatype fs_node = FileNode (node_text: js_string) (node_mtime: nat) | DirNode (node_mtime: nat)

text \<open>A fault makes the call fail; of the text that was to be written the given part is on the disk.\<close>

datatype fault = NoFault | Fault file_error js_string

record fsys =
  fs_nodes :: "(js_string \<times> fs_node) list"
  fs_faults :: "fault list"
  fs_clock :: nat
  fs_reason :: js_string

type_synonym 'a fs_action = "fsys \<Rightarrow> (file_error + 'a) \<times> fsys"

section \<open>Calls\<close>

definition fs_call :: "(js_string \<Rightarrow> fsys \<Rightarrow> fsys) \<Rightarrow> 'a fs_action \<Rightarrow> 'a fs_action" where
  "fs_call broken run fs =
     (case fs_faults fs of
        [] \<Rightarrow> run fs
      | NoFault # fl \<Rightarrow> run (fs\<lparr>fs_faults := fl\<rparr>)
      | Fault e written # fl \<Rightarrow> (Inl e, broken written (fs\<lparr>fs_faults := fl\<rparr>)))"

definition put_text :: "js_string \<Rightarrow> js_string \<Rightarrow> fsys \<Rightarrow> fsys" where
  "put_text path text fs = fs\<lparr>fs_nodes := AList.update path (FileNode text (fs_clock fs)) (fs_nodes fs)\<rparr>"

definition add_text :: "js_string \<Rightarrow> js_string \<Rightarrow> fsys \<Rightarrow> fsys" where
  "add_text path text fs =
     put_text path ((case map_of (fs_nodes fs) path of Some (FileNode t _) \<Rightarrow> t | _ \<Rightarrow> []) @ text) fs"

definition is_directory :: "js_string \<Rightarrow> fsys \<Rightarrow> bool" where
  "is_directory path fs = (case map_of (fs_nodes fs) path of Some (DirNode _) \<Rightarrow> True | _ \<Rightarrow> False)"

text \<open>A write that fails leaves a part of its text in the file; a directory stays what it is.\<close>

definition unless_directory :: "js_string \<Rightarrow> (fsys \<Rightarrow> fsys) \<Rightarrow> fsys \<Rightarrow> fsys" where
  "unless_directory path f fs = (if is_directory path fs then fs else f fs)"

definition fs_readTextFile :: "js_string \<Rightarrow> js_string fs_action" where
  "fs_readTextFile path = fs_call (\<lambda>_ fs. fs) (\<lambda>fs.
     (case map_of (fs_nodes fs) path of
        Some (FileNode t _) \<Rightarrow> (Inr t, fs)
      | Some (DirNode _) \<Rightarrow> (Inl (FileError Fe_is_directory (fs_reason fs)), fs)
      | None \<Rightarrow> (Inl (FileError Fe_not_found (fs_reason fs)), fs)))"

definition fs_writeFile :: "js_string \<Rightarrow> js_string \<Rightarrow> unit fs_action" where
  "fs_writeFile path text = fs_call (\<lambda>written. unless_directory path (put_text path written)) (\<lambda>fs.
     if is_directory path fs then (Inl (FileError Fe_is_directory (fs_reason fs)), fs)
     else (Inr (), put_text path text fs))"

definition fs_appendFile :: "js_string \<Rightarrow> js_string \<Rightarrow> unit fs_action" where
  "fs_appendFile path text = fs_call (\<lambda>written. unless_directory path (add_text path written)) (\<lambda>fs.
     if is_directory path fs then (Inl (FileError Fe_is_directory (fs_reason fs)), fs)
     else (Inr (), add_text path text fs))"

text \<open>A rename is atomic: it replaces the destination or leaves everything as it was.\<close>

definition fs_renameFile :: "js_string \<Rightarrow> js_string \<Rightarrow> unit fs_action" where
  "fs_renameFile source destination = fs_call (\<lambda>_ fs. fs) (\<lambda>fs.
     (case map_of (fs_nodes fs) source of
        None \<Rightarrow> (Inl (FileError Fe_not_found (fs_reason fs)), fs)
      | Some (DirNode _) \<Rightarrow> (Inl (FileError Fe_invalid (fs_reason fs)), fs)
      | Some (FileNode t m) \<Rightarrow>
          if is_directory destination fs then (Inl (FileError Fe_is_directory (fs_reason fs)), fs)
          else (Inr (), fs\<lparr>fs_nodes := AList.update destination (FileNode t m)
                  (if source = destination then fs_nodes fs else AList.delete source (fs_nodes fs))\<rparr>)))"

definition fs_remove :: "js_string \<Rightarrow> bool \<Rightarrow> unit fs_action" where
  "fs_remove path force = fs_call (\<lambda>_ fs. fs) (\<lambda>fs.
     (case map_of (fs_nodes fs) path of
        None \<Rightarrow> (if force then Inr () else Inl (FileError Fe_not_found (fs_reason fs)), fs)
      | Some (DirNode _) \<Rightarrow> (Inl (FileError Fe_is_directory (fs_reason fs)), fs)
      | Some (FileNode _ _) \<Rightarrow> (Inr (), fs\<lparr>fs_nodes := AList.delete path (fs_nodes fs)\<rparr>)))"

definition info_of :: "js_string \<Rightarrow> fs_node \<Rightarrow> file_info" where
  "info_of path n =
     \<lparr>fi_name = basename path, fi_path = path,
      fi_kind = (case n of FileNode _ _ \<Rightarrow> Kind_file | DirNode _ \<Rightarrow> Kind_directory), fi_mtimeMs = node_mtime n\<rparr>"

definition fs_fileInfo :: "js_string \<Rightarrow> file_info fs_action" where
  "fs_fileInfo path = fs_call (\<lambda>_ fs. fs) (\<lambda>fs.
     (case map_of (fs_nodes fs) path of
        None \<Rightarrow> (Inl (FileError Fe_not_found (fs_reason fs)), fs)
      | Some n \<Rightarrow> (Inr (info_of path n), fs)))"

definition fs_exists :: "js_string \<Rightarrow> bool fs_action" where
  "fs_exists path fs =
     (case fs_fileInfo path fs of
        (Inr _, fs') \<Rightarrow> (Inr True, fs')
      | (Inl e, fs') \<Rightarrow> (if file_error_code e = Fe_not_found then Inr False else Inl e, fs'))"

section \<open>A store without faults\<close>

definition healthy :: "fsys \<Rightarrow> bool" where
  "healthy fs = (fs_faults fs = [])"

text \<open>The text of a file, and what the calls make of it.\<close>

definition text_at :: "fsys \<Rightarrow> js_string \<rightharpoonup> js_string" where
  "text_at fs path = (case map_of (fs_nodes fs) path of Some (FileNode t _) \<Rightarrow> Some t | _ \<Rightarrow> None)"

named_theorems fs_simps \<open>what a call does when it meets no fault\<close>

lemma fs_call_healthy [fs_simps]: "healthy fs \<Longrightarrow> fs_call broken run fs = run fs"
  by (simp add: fs_call_def healthy_def)

lemma put_text_simps [fs_simps]:
  "map_of (fs_nodes (put_text path t fs)) q = (if q = path then Some (FileNode t (fs_clock fs)) else map_of (fs_nodes fs) q)"
  "healthy (put_text path t fs) = healthy fs" "fs_clock (put_text path t fs) = fs_clock fs" "fs_reason (put_text path t fs) = fs_reason fs"
  by (auto simp: put_text_def healthy_def update_conv')

lemma text_at_put: "text_at (put_text path t fs) = (text_at fs)(path \<mapsto> t)"
  by (auto simp: text_at_def put_text_simps)

lemma text_at_add: "text_at (add_text path t fs) = (text_at fs)(path \<mapsto> (case text_at fs path of Some u \<Rightarrow> u | None \<Rightarrow> []) @ t)"
  by (auto simp: add_text_def text_at_put text_at_def split: option.splits fs_node.splits)

lemma text_at_node: "text_at fs path = Some t \<longleftrightarrow> (\<exists>m. map_of (fs_nodes fs) path = Some (FileNode t m))"
  by (auto simp: text_at_def split: option.splits fs_node.splits)

lemma text_at_not_directory: "text_at fs path = Some t \<Longrightarrow> \<not> is_directory path fs"
  by (auto simp: text_at_node is_directory_def)

lemma append_healthy [fs_simps]:
  "healthy fs \<Longrightarrow> text_at fs path = Some t \<Longrightarrow> fs_appendFile path u fs = (Inr (), add_text path u fs)"
  by (simp add: fs_appendFile_def fs_call_healthy text_at_not_directory)

lemma add_text_healthy [fs_simps]: "healthy (add_text path u fs) = healthy fs"
  by (simp add: add_text_def put_text_simps)

section \<open>What a call changes, with or without a fault\<close>

lemma text_at_faults [simp]: "text_at (fs\<lparr>fs_faults := fl\<rparr>) = text_at fs" "is_directory path (fs\<lparr>fs_faults := fl\<rparr>) = is_directory path fs"
  by (simp_all add: text_at_def is_directory_def fun_eq_iff)

lemma fs_call_cases:
  fixes fs :: fsys
  assumes "fs_call broken run fs = (r, fs')"
  obtains fl where "run (fs\<lparr>fs_faults := fl\<rparr>) = (r, fs')"
    | e written fl where "r = Inl e" "fs' = broken written (fs\<lparr>fs_faults := fl\<rparr>)"
proof (cases "fs_faults fs")
  case Nil
  then have same: "fs\<lparr>fs_faults := []\<rparr> = fs" by simp
  have "run fs = (r, fs')" using assms Nil by (simp add: fs_call_def)
  then show thesis by (intro that(1) [of "[]"]) (simp only: same)
next
  case (Cons f fl)
  then show thesis using that assms by (cases f) (auto simp: fs_call_def)
qed

lemma fs_call_reads:
  assumes "fs_call (\<lambda>_ fs. fs) run fs = (r, fs')" "\<And>fs r fs'. run fs = (r, fs') \<Longrightarrow> text_at fs' = text_at fs"
  shows "text_at fs' = text_at fs"
  using assms(1) by (rule fs_call_cases) (auto dest: assms(2))

lemma reads_keep:
  "fs_readTextFile path fs = (r1, fs') \<Longrightarrow> text_at fs' = text_at fs"
  "fs_fileInfo path fs = (r2, fs') \<Longrightarrow> text_at fs' = text_at fs"
  by (auto simp: fs_readTextFile_def fs_fileInfo_def elim!: fs_call_reads split: option.splits fs_node.splits)

lemma fs_read_text: "fs_readTextFile path fs = (Inr t, fs') \<Longrightarrow> text_at fs path = Some t"
  unfolding fs_readTextFile_def by (erule fs_call_cases) (auto simp: text_at_node split: option.splits fs_node.splits)

lemma write_effect:
  "fs_writeFile path t fs = (Inr u, fs') \<Longrightarrow> text_at fs' = (text_at fs)(path \<mapsto> t)"
  "fs_writeFile path t fs = (r, fs') \<Longrightarrow> q \<noteq> path \<Longrightarrow> text_at fs' q = text_at fs q"
  unfolding fs_writeFile_def by (erule fs_call_cases; auto simp: text_at_put unless_directory_def split: if_splits)+

lemma append_effect:
  "fs_appendFile path t fs = (Inr u, fs') \<Longrightarrow> text_at fs' = (text_at fs)(path \<mapsto> (case text_at fs path of Some u \<Rightarrow> u | None \<Rightarrow> []) @ t)"
  "fs_appendFile path t fs = (r, fs') \<Longrightarrow> q \<noteq> path \<Longrightarrow> text_at fs' q = text_at fs q"
  unfolding fs_appendFile_def by (erule fs_call_cases; auto simp: text_at_add unless_directory_def split: if_splits)+

lemma append_fault:
  "\<not> is_directory path fs \<Longrightarrow>
   fs_appendFile path t (fs\<lparr>fs_faults := Fault e p # fl\<rparr>) = (Inl e, add_text path p (fs\<lparr>fs_faults := fl\<rparr>))"
  by (simp add: fs_appendFile_def fs_call_def unless_directory_def)

lemma text_at_moved:
  "map_of (fs_nodes fs) a = Some (FileNode t m) \<Longrightarrow> a \<noteq> b \<Longrightarrow>
   text_at (fs\<lparr>fs_nodes := AList.update b (FileNode t m) (AList.delete a (fs_nodes fs))\<rparr>) = (text_at fs)(a := None, b := text_at fs a)"
  by (simp add: text_at_def update_conv' delete_conv' fun_eq_iff)

lemma rename_effect:
  "fs_renameFile a b fs = (Inr u, fs') \<Longrightarrow> a \<noteq> b \<Longrightarrow>
   text_at fs' = (text_at fs)(a := None, b := text_at fs a) \<and> text_at fs a \<noteq> None"
  "fs_renameFile a b fs = (Inl e, fs') \<Longrightarrow> text_at fs' = text_at fs"
proof -
  assume ok: "fs_renameFile a b fs = (Inr u, fs')" and "a \<noteq> b"
  then show "text_at fs' = (text_at fs)(a := None, b := text_at fs a) \<and> text_at fs a \<noteq> None"
    unfolding fs_renameFile_def
  proof (cases rule: fs_call_cases)
    case (1 fl)
    then obtain t m where t: "map_of (fs_nodes (fs\<lparr>fs_faults := fl\<rparr>)) a = Some (FileNode t m)"
        "fs' = fs\<lparr>fs_faults := fl\<rparr>\<lparr>fs_nodes := AList.update b (FileNode t m) (AList.delete a (fs_nodes (fs\<lparr>fs_faults := fl\<rparr>)))\<rparr>"
      using \<open>a \<noteq> b\<close> by (auto split: option.splits fs_node.splits if_splits)
    moreover have "text_at fs a \<noteq> None" using t(1) by (simp add: text_at_def)
    ultimately show ?thesis using text_at_moved [OF t(1) \<open>a \<noteq> b\<close>] by simp
  qed simp
next
  assume "fs_renameFile a b fs = (Inl e, fs')"
  then show "text_at fs' = text_at fs"
    unfolding fs_renameFile_def by (rule fs_call_cases) (auto split: option.splits fs_node.splits if_splits)
qed

lemma remove_effect: "fs_remove path force fs = (r, fs') \<Longrightarrow> q \<noteq> path \<Longrightarrow> text_at fs' q = text_at fs q"
  unfolding fs_remove_def
  by (erule fs_call_cases; auto simp: text_at_def delete_conv' split: option.splits fs_node.splits if_splits)
end
