(* ===== verification/Jsonl_Storage.thy ===== *)
theory Jsonl_Storage
  imports Session_Storage Jsonl_Codec File_Store
begin

text \<open>
  The storage of \<open>session/jsonl/storage.ts\<close>: a session state and the file that holds the mutations that made it. Every
  operation validates, appends the line of one mutation to the file and then applies the mutation; loading replays the
  file. The file system is the store of \<^verbatim>\<open>File_Store\<close>; the clock is an argument, the number and object printers of
  \<open>JSON.stringify\<close> are the arguments \<open>pn\<close> and \<open>po\<close>.
\<close>

section \<open>Failures\<close>

text \<open>A \<open>SessionError\<close> with its code and message, or the \<open>TypeError\<close> of \<open>JSON.stringify\<close>. \<open>Untyped\<close> stands for a
  file whose data do not have the declared types; the program goes on with them, the model does not.\<close>

datatype jsonl_failure = Thrown session_error_code js_string | StringifyThrows | Untyped

type_synonym ('s, 'a) state_io = "'s \<Rightarrow> (jsonl_failure + 'a) \<times> 's"
type_synonym 'a io = "(fsys, 'a) state_io"

definition pureF :: "jsonl_failure + 'a \<Rightarrow> ('s, 'a) state_io" where
  "pureF r = (\<lambda>fs. (r, fs))"

definition bindF :: "('s, 'a) state_io \<Rightarrow> ('a \<Rightarrow> ('s, 'b) state_io) \<Rightarrow> ('s, 'b) state_io" where
  "bindF m f = (\<lambda>fs. case m fs of (Inl e, fs') \<Rightarrow> (Inl e, fs') | (Inr a, fs') \<Rightarrow> f a fs')"

definition fileResult :: "file_error + 'a \<Rightarrow> js_string \<Rightarrow> jsonl_failure + 'a" where
  "fileResult r message =
     (case r of
        Inl e \<Rightarrow> Inl (Thrown (if file_error_code e = Fe_not_found then Not_found else Storage_error)
                        (message @ js '': '' @ file_error_message e))
      | Inr v \<Rightarrow> Inr v)"

definition file_io :: "'a fs_action \<Rightarrow> js_string \<Rightarrow> 'a io" where
  "file_io call message = (\<lambda>fs. case call fs of (r, fs') \<Rightarrow> (fileResult r message, fs'))"

definition invalidFile :: "js_string \<Rightarrow> nat \<Rightarrow> js_string \<Rightarrow> jsonl_failure" where
  "invalidFile path line cause =
     Thrown Invalid_entry (js ''Invalid JSONL v4 session '' @ path @ js '': line '' @ js (decimal line) @ js '' '' @ cause)"

fun thrown :: "session_error \<Rightarrow> jsonl_failure" where
  "thrown (SessionError c message) = Thrown c (js message)"

definition liftS :: "session_error + 'a \<Rightarrow> jsonl_failure + 'a" where
  "liftS r = (case r of Inl e \<Rightarrow> Inl (thrown e) | Inr a \<Rightarrow> Inr a)"

section \<open>Publication\<close>

definition temp_path :: "js_string \<Rightarrow> js_string" where
  "temp_path path = path @ js ''.tmp''"

definition publishFileAtomically :: "js_string \<Rightarrow> (js_string \<Rightarrow> unit io) \<Rightarrow> unit io" where
  "publishFileAtomically destinationPath populate = (\<lambda>fs.
     case bindF (populate (temp_path destinationPath)) (\<lambda>_.
            file_io (fs_renameFile (temp_path destinationPath) destinationPath)
              (js ''Failed to publish staged file '' @ destinationPath)) fs of
       (Inl e, fs') \<Rightarrow> (Inl e, snd (fs_remove (temp_path destinationPath) True fs'))
     | (Inr u, fs') \<Rightarrow> (Inr u, fs'))"

section \<open>The storage\<close>

record jsonl_storage =
  jmeta :: jsonl_metadata
  jstate :: session_state

definition new_jsonl_storage :: "jsonl_metadata \<Rightarrow> jsonl_storage" where
  "new_jsonl_storage m = \<lparr>jmeta = m, jstate = init_state\<rparr>"

definition line_io :: "js_string option \<Rightarrow> (js_string \<Rightarrow> 'a io) \<Rightarrow> 'a io" where
  "line_io line f = (case line of None \<Rightarrow> pureF (Inl StringifyThrows) | Some t \<Rightarrow> f t)"

definition jsonl_create ::
    "(js_number \<Rightarrow> string) \<Rightarrow> (string \<Rightarrow> js_string) \<Rightarrow> js_string \<Rightarrow> jsonl_header \<Rightarrow> jsonl_storage io" where
  "jsonl_create pn po path header =
     line_io (encodeHeader pn po header) (\<lambda>line.
     bindF (file_io (fs_writeFile path line) (js ''Failed to initialize session '' @ path)) (\<lambda>_.
     bindF (file_io (fs_fileInfo path) (js ''Failed to read session metadata '' @ path)) (\<lambda>info.
     pureF (Inr (new_jsonl_storage (metadataFromHeader header path (fi_mtimeMs info)))))))"

definition jsonl_appendMutation ::
    "(js_number \<Rightarrow> string) \<Rightarrow> (string \<Rightarrow> js_string) \<Rightarrow> jsonl_storage \<Rightarrow> session_mutation \<Rightarrow> unit io" where
  "jsonl_appendMutation pn po st m =
     line_io (encodeMutation pn po m) (\<lambda>line.
     file_io (fs_appendFile (jm_path (jmeta st)) line) (js ''Failed to append session '' @ jm_path (jmeta st)))"

definition jsonl_applyMutation :: "jsonl_storage \<Rightarrow> session_mutation \<Rightarrow> session_error + jsonl_storage" where
  "jsonl_applyMutation st m = bindR (applyMutation (jstate st) m) (\<lambda>s. Inr (st\<lparr>jstate := s\<rparr>))"

text \<open>The lines of a text; a text that ends with a line feed has no last empty line.\<close>

definition physical_lines :: "js_string \<Rightarrow> js_string list" where
  "physical_lines content =
     (let ls = split_on LF content in if last ls = [] then butlast ls else ls)"

text \<open>The loop of \<open>load\<close> after the lines \<open>seen\<close>; the flag says that a torn last line was cut off.\<close>

fun load_lines :: "js_string \<Rightarrow> js_string list \<Rightarrow> js_string list \<Rightarrow> jsonl_storage \<Rightarrow> (bool \<times> jsonl_storage) io" where
  "load_lines path seen [] st = pureF (Inr (False, st))"
| "load_lines path seen (line # rest) st =
     (case parseMutation line of
        Inl e \<Rightarrow>
          if rest = [] \<and> decode_error_kind e = Syntax then
            bindF (publishFileAtomically path (\<lambda>tempPath.
                     file_io (fs_writeFile tempPath (join_on LF seen @ [LF])) (js ''Failed to stage torn-tail repair '' @ path))) (\<lambda>_.
            pureF (Inr (True, st)))
          else pureF (Inl (invalidFile path (length seen + 1) (decode_error_message e)))
      | Inr raw \<Rightarrow>
          (case as_mutation raw of
             None \<Rightarrow> pureF (Inl Untyped)
           | Some m \<Rightarrow>
               (case jsonl_applyMutation st m of
                  Inl (SessionError c message) \<Rightarrow>
                    pureF (Inl (if c = Invalid_entry then invalidFile path (length seen + 1) (js message)
                                else Thrown c (js message)))
                | Inr st' \<Rightarrow> load_lines path (seen @ [line]) rest st')))"

definition jsonl_load :: "js_string \<Rightarrow> jsonl_storage io" where
  "jsonl_load path =
     bindF (file_io (fs_readTextFile path) (js ''Failed to read session '' @ path)) (\<lambda>content.
     let physicalLines = physical_lines content
     in if physicalLines = [] \<or> hd physicalLines = [] then
          pureF (Inl (invalidFile path 1 (js ''is missing a header'')))
        else
          (case parseHeader (hd physicalLines) of
             Inl e \<Rightarrow> pureF (Inl (invalidFile path 1 (decode_error_message e)))
           | Inr header \<Rightarrow>
               bindF (file_io (fs_fileInfo path) (js ''Failed to read session metadata '' @ path)) (\<lambda>info.
               bindF (load_lines path [hd physicalLines] (tl physicalLines)
                        (new_jsonl_storage (metadataFromHeader header path (fi_mtimeMs info)))) (\<lambda>(torn, st).
               if torn then pureF (Inr st)
               else if last content \<noteq> LF then
                 bindF (file_io (fs_appendFile path [LF]) (js ''Failed to repair unterminated session tail '' @ path)) (\<lambda>_.
                 pureF (Inr st))
               else pureF (Inr st)))))"

text \<open>Append the line of a mutation, then apply the mutation.\<close>

definition jsonl_commit ::
    "(js_number \<Rightarrow> string) \<Rightarrow> (string \<Rightarrow> js_string) \<Rightarrow> jsonl_storage \<Rightarrow> session_mutation \<Rightarrow> jsonl_storage io" where
  "jsonl_commit pn po st m =
     bindF (jsonl_appendMutation pn po st m) (\<lambda>_. pureF (liftS (jsonl_applyMutation st m)))"

fun commit_all ::
    "(js_number \<Rightarrow> string) \<Rightarrow> (string \<Rightarrow> js_string) \<Rightarrow> jsonl_storage \<Rightarrow> session_mutation list \<Rightarrow> jsonl_storage io" where
  "commit_all pn po st [] = pureF (Inr st)"
| "commit_all pn po st (m # ms) = bindF (jsonl_commit pn po st m) (\<lambda>st'. commit_all pn po st' ms)"

definition jsonl_fork ::
    "(js_number \<Rightarrow> string) \<Rightarrow> (string \<Rightarrow> js_string) \<Rightarrow> jsonl_storage \<Rightarrow> js_string \<Rightarrow> jsonl_header \<Rightarrow> fork_options
      \<Rightarrow> jsonl_storage io" where
  "jsonl_fork pn po st path header options =
     bindF (pureF (liftS (createForkMutations (jstate st) options))) (\<lambda>mutations.
     bindF (publishFileAtomically path (\<lambda>tempPath.
              bindF (jsonl_create pn po tempPath header) (\<lambda>target.
              bindF (commit_all pn po target mutations) (\<lambda>_. pureF (Inr ()))))) (\<lambda>_.
     jsonl_load path))"

section \<open>Operations\<close>

definition jsonl_createLane ::
    "(js_number \<Rightarrow> string) \<Rightarrow> (string \<Rightarrow> js_string) \<Rightarrow> jsonl_storage \<Rightarrow> ident \<Rightarrow> ident option \<Rightarrow> jsonl_storage io" where
  "jsonl_createLane pn po st lane leafId =
     bindF (pureF (liftS (validateNewLane (jstate st) lane))) (\<lambda>_.
     bindF (pureF (liftS (validateTarget (jstate st) leafId))) (\<lambda>_.
     jsonl_commit pn po st (MutLane (nextSequence (jstate st)) lane leafId)))"

definition jsonl_moveLane ::
    "(js_number \<Rightarrow> string) \<Rightarrow> (string \<Rightarrow> js_string) \<Rightarrow> jsonl_storage \<Rightarrow> ident \<Rightarrow> ident option \<Rightarrow> jsonl_storage io" where
  "jsonl_moveLane pn po st lane to =
     bindF (pureF (liftS (requireLane (jstate st) lane))) (\<lambda>_.
     bindF (pureF (liftS (validateTarget (jstate st) to))) (\<lambda>_.
     jsonl_commit pn po st (MutLane (nextSequence (jstate st)) lane to)))"

definition jsonl_appendEntry ::
    "(js_number \<Rightarrow> string) \<Rightarrow> (string \<Rightarrow> js_string) \<Rightarrow> nat \<Rightarrow> jsonl_storage \<Rightarrow> provisioned_entry \<Rightarrow> ident
      \<Rightarrow> (jsonl_storage \<times> entry) io" where
  "jsonl_appendEntry pn po now st newEntry lane =
     bindF (pureF (liftS (requireLane (jstate st) lane))) (\<lambda>leafId.
     bindF (pureF (liftS (validateUnusedId (jstate st) (prov_id newEntry)))) (\<lambda>_.
     let e = \<lparr>entry_id = prov_id newEntry, entry_seq = nextSequence (jstate st), parentId = leafId,
              entry_timestamp = now, payload = prov_payload newEntry\<rparr>
     in bindF (jsonl_commit pn po st (MutEntry (Some lane) e)) (\<lambda>st'. pureF (Inr (st', e)))))"

definition jsonl_appendRecord ::
    "(js_number \<Rightarrow> string) \<Rightarrow> (string \<Rightarrow> js_string) \<Rightarrow> nat \<Rightarrow> jsonl_storage \<Rightarrow> new_record \<Rightarrow> (jsonl_storage \<times> lane_record) io" where
  "jsonl_appendRecord pn po now st newRecord =
     bindF (pureF (liftS (requireLane (jstate st) (new_lane newRecord)))) (\<lambda>_.
     bindF (pureF (liftS (validateUnusedId (jstate st) (new_id newRecord)))) (\<lambda>_.
     bindF (pureF (liftS (findOpenOperations (jstate st) (new_lane newRecord) (Some 1)))) (\<lambda>ops.
     bindF (pureF (liftS (case ops of
              [] \<Rightarrow> Inr ()
            | op # _ \<Rightarrow>
                guardR (record_type_of_payload (new_payload newRecord) \<noteq> Rec_operation_started)
                  (SessionError Storage_error
                    (''Lane '' @ new_lane newRecord @ '' already has an open operation '' @ record_id op))))) (\<lambda>_.
     let r = \<lparr>record_id = new_id newRecord, record_seq = nextSequence (jstate st), record_lane = new_lane newRecord,
              record_timestamp = now, record_payload = new_payload newRecord\<rparr>
     in bindF (jsonl_commit pn po st (MutRecord r)) (\<lambda>st'. pureF (Inr (st', r)))))))"

definition jsonl_setName ::
    "(js_number \<Rightarrow> string) \<Rightarrow> (string \<Rightarrow> js_string) \<Rightarrow> jsonl_storage \<Rightarrow> string option \<Rightarrow> jsonl_storage io" where
  "jsonl_setName pn po st nm = jsonl_commit pn po st (MutName (nextSequence (jstate st)) nm)"

definition jsonl_setLabel ::
    "(js_number \<Rightarrow> string) \<Rightarrow> (string \<Rightarrow> js_string) \<Rightarrow> jsonl_storage \<Rightarrow> ident \<Rightarrow> string option \<Rightarrow> jsonl_storage io" where
  "jsonl_setLabel pn po st i label =
     bindF (pureF (liftS (validateTarget (jstate st) (Some i)))) (\<lambda>_.
     jsonl_commit pn po st (MutLabel (nextSequence (jstate st)) i label))"

text \<open>The reads copy what the session state returns.\<close>

definition jsonl_getMetadata :: "jsonl_storage \<Rightarrow> jsonl_metadata" where
  "jsonl_getMetadata st = jmeta st"

definition jsonl_getLanes :: "jsonl_storage \<Rightarrow> (ident \<times> ident option) list" where
  "jsonl_getLanes st = getLanes (jstate st)"

definition jsonl_getEntry :: "jsonl_storage \<Rightarrow> ident \<Rightarrow> entry option" where
  "jsonl_getEntry st i = getEntry (jstate st) i"

definition jsonl_findEntries :: "jsonl_storage \<Rightarrow> entry_query \<Rightarrow> session_error + entry list" where
  "jsonl_findEntries st q = findEntries (jstate st) q"

definition jsonl_findEntriesOnBranch ::
    "jsonl_storage \<Rightarrow> entry_query \<Rightarrow> branch_bounds \<Rightarrow> ident \<Rightarrow> session_error + entry list" where
  "jsonl_findEntriesOnBranch st q b start = findEntriesOnBranch (jstate st) q b start"

definition jsonl_findRecords :: "jsonl_storage \<Rightarrow> record_query \<Rightarrow> session_error + lane_record list" where
  "jsonl_findRecords st q = findRecords (jstate st) q"

definition jsonl_findOpenOperations :: "jsonl_storage \<Rightarrow> ident \<Rightarrow> int option \<Rightarrow> session_error + lane_record list" where
  "jsonl_findOpenOperations st lane lmt = findOpenOperations (jstate st) lane lmt"

definition jsonl_getLog :: "jsonl_storage \<Rightarrow> int option \<Rightarrow> int option \<Rightarrow> session_error + log_item list" where
  "jsonl_getLog st afterSeq lmt = getLog (jstate st) afterSeq lmt"

definition jsonl_getName :: "jsonl_storage \<Rightarrow> string option" where
  "jsonl_getName st = getName (jstate st)"

definition jsonl_getLabel :: "jsonl_storage \<Rightarrow> ident \<Rightarrow> string option" where
  "jsonl_getLabel st i = getLabel (jstate st) i"

definition jsonl_getStats :: "jsonl_storage \<Rightarrow> session_stats" where
  "jsonl_getStats st = getStats (jstate st)"

fun jsonl_step ::
    "(js_number \<Rightarrow> string) \<Rightarrow> (string \<Rightarrow> js_string) \<Rightarrow> jsonl_storage \<Rightarrow> storage_op \<Rightarrow> jsonl_storage io" where
  "jsonl_step pn po st (OpCreateLane l i) = jsonl_createLane pn po st l i"
| "jsonl_step pn po st (OpMoveLane l i) = jsonl_moveLane pn po st l i"
| "jsonl_step pn po st (OpAppendEntry now p l) = bindF (jsonl_appendEntry pn po now st p l) (\<lambda>(st', _). pureF (Inr st'))"
| "jsonl_step pn po st (OpAppendRecord now r) = bindF (jsonl_appendRecord pn po now st r) (\<lambda>(st', _). pureF (Inr st'))"
| "jsonl_step pn po st (OpSetName nm) = jsonl_setName pn po st nm"
| "jsonl_step pn po st (OpSetLabel i l) = jsonl_setLabel pn po st i l"

text \<open>The queue of a storage: an operation starts when the one before it has settled, also when that one failed; a
  failed operation leaves the session state as it was.\<close>

definition enqueue_step ::
    "(js_number \<Rightarrow> string) \<Rightarrow> (string \<Rightarrow> js_string) \<Rightarrow> jsonl_storage \<times> fsys \<Rightarrow> storage_op
      \<Rightarrow> jsonl_failure option \<times> jsonl_storage \<times> fsys" where
  "enqueue_step pn po x op =
     (case jsonl_step pn po (fst x) op (snd x) of
        (Inl e, fs') \<Rightarrow> (Some e, fst x, fs')
      | (Inr st', fs') \<Rightarrow> (None, st', fs'))"

fun queue_run :: "('x \<Rightarrow> 'op \<Rightarrow> 'r \<times> 'x) \<Rightarrow> 'x \<Rightarrow> 'op list \<Rightarrow> 'r list \<times> 'x" where
  "queue_run f x [] = ([], x)"
| "queue_run f x (op # ops) = (case f x op of (r, y) \<Rightarrow> (case queue_run f y ops of (rs, z) \<Rightarrow> (r # rs, z)))"

section \<open>Refinement of the storage in memory\<close>

lemma io_simps [simp]:
  "bindF (pureF (Inl e)) f = pureF (Inl e)" "bindF (pureF (Inr a)) f = f a"
  "liftS (Inl e') = Inl (thrown e')" "liftS (Inr a) = Inr a"
  by (simp_all add: bindF_def pureF_def liftS_def)

lemma bindF_assoc: "bindF (bindF m f) g = bindF m (\<lambda>a. bindF (f a) g)"
  by (auto simp: bindF_def fun_eq_iff split: prod.splits sum.splits)

lemma bindF_pure: "bindF m (\<lambda>a. pureF (Inr a)) = m"
  by (auto simp: bindF_def pureF_def fun_eq_iff split: prod.splits sum.splits)

text \<open>The mutation that an operation appends, when its checks pass. Both storages build the same one.\<close>

fun prepare :: "session_state \<Rightarrow> storage_op \<Rightarrow> session_error + session_mutation" where
  "prepare s (OpCreateLane l i) =
     bindR (validateNewLane s l) (\<lambda>_. bindR (validateTarget s i) (\<lambda>_. Inr (MutLane (nextSequence s) l i)))"
| "prepare s (OpMoveLane l i) =
     bindR (requireLane s l) (\<lambda>_. bindR (validateTarget s i) (\<lambda>_. Inr (MutLane (nextSequence s) l i)))"
| "prepare s (OpAppendEntry now p l) =
     bindR (requireLane s l) (\<lambda>leafId. bindR (validateUnusedId s (prov_id p)) (\<lambda>_.
     Inr (MutEntry (Some l) \<lparr>entry_id = prov_id p, entry_seq = nextSequence s, parentId = leafId,
            entry_timestamp = now, payload = prov_payload p\<rparr>)))"
| "prepare s (OpAppendRecord now r) =
     bindR (requireLane s (new_lane r)) (\<lambda>_. bindR (validateUnusedId s (new_id r)) (\<lambda>_.
     bindR (findOpenOperations s (new_lane r) (Some 1)) (\<lambda>ops.
     bindR (case ops of
              [] \<Rightarrow> Inr ()
            | op # _ \<Rightarrow>
                guardR (record_type_of_payload (new_payload r) \<noteq> Rec_operation_started)
                  (SessionError Storage_error
                    (''Lane '' @ new_lane r @ '' already has an open operation '' @ record_id op))) (\<lambda>_.
     Inr (MutRecord \<lparr>record_id = new_id r, record_seq = nextSequence s, record_lane = new_lane r,
            record_timestamp = now, record_payload = new_payload r\<rparr>)))))"
| "prepare s (OpSetName nm) = Inr (MutName (nextSequence s) nm)"
| "prepare s (OpSetLabel i l) = bindR (validateTarget s (Some i)) (\<lambda>_. Inr (MutLabel (nextSequence s) i l))"

lemma bindR_assoc: "bindR (bindR m f) g = bindR m (\<lambda>a. bindR (f a) g)"
  by (cases m) simp_all

lemma bindR_pure: "bindR m Inr = m"
  by (cases m) simp_all

lemma storage_step_prepare: "storage_step st op = bindR (prepare (state st) op) (commit st)"
  by (cases op) (simp_all add: storage_defs bindR_assoc Let_def bindR_pure)

lemma bind_lift: "bindF (pureF (liftS (bindR m f))) g = bindF (pureF (liftS m)) (\<lambda>a. bindF (pureF (liftS (f a))) g)"
  by (cases m) simp_all

lemmas jsonl_defs = jsonl_createLane_def jsonl_moveLane_def jsonl_appendEntry_def jsonl_appendRecord_def jsonl_setName_def
  jsonl_setLabel_def

lemma jsonl_step_prepare:
  "jsonl_step pn po st op = bindF (pureF (liftS (prepare (jstate st) op))) (jsonl_commit pn po st)"
  by (cases op) (simp_all add: jsonl_defs bind_lift bindF_assoc Let_def bindF_pure)

lemma prepare_seq: "prepare s op = Inr m \<Longrightarrow> mutation_seq m = nextSequence s"
  by (cases op) (auto simp: result_simps)

lemma prepare_accepted:
  assumes "wf_state s" "prepare s op = Inr m" obtains t where "applyMutation s m = Inr t"
proof -
  have leaf: "map_has (entriesById s) i" if "map_of (lanes s) l = Some (Some i)" for l i
  proof -
    have "(l, Some i) \<in> set (lanes s)" using that by (rule map_of_SomeD)
    then have "i \<in> entry_ids s" using assms(1) by (fastforce simp: wf_state_def tree_inv_def)
    then show ?thesis using assms(1) index_inv_has [of s i] by (simp add: wf_state_def)
  qed
  have "\<exists>t. applyMutation s m = Inr t"
  proof (cases op)
    case (OpAppendEntry now p l)
    then show ?thesis using assms(2) leaf [of l]
      by (auto simp: result_simps applyMutation_def apply_entry_def nextSequence_def requireLane_def validateUnusedId_def
          split: option.splits)
  next
    case (OpAppendRecord now r)
    then show ?thesis using assms(2)
      by (auto simp: result_simps applyMutation_def apply_record_def nextSequence_def requireLane_def validateUnusedId_def map_has_def
          split: option.splits)
  qed (use assms(2) in \<open>auto simp: result_simps applyMutation_def apply_lane_def apply_name_def apply_label_def nextSequence_def
      validateTarget_def split: option.splits\<close>)
  then show thesis using that by blast
qed
section \<open>The text of a session\<close>

definition mutation_line :: "(js_number \<Rightarrow> string) \<Rightarrow> (string \<Rightarrow> js_string) \<Rightarrow> session_mutation \<Rightarrow> js_string" where
  "mutation_line pn po m = (case encodeMutation pn po m of Some t \<Rightarrow> butlast t | None \<Rightarrow> [])"

definition header_line :: "(js_number \<Rightarrow> string) \<Rightarrow> (string \<Rightarrow> js_string) \<Rightarrow> jsonl_header \<Rightarrow> js_string" where
  "header_line pn po h = (case encodeHeader pn po h of Some t \<Rightarrow> butlast t | None \<Rightarrow> [])"

definition text_of_lines :: "js_string list \<Rightarrow> js_string" where
  "text_of_lines ls = concat (map (\<lambda>l. l @ [LF]) ls)"

definition session_text ::
    "(js_number \<Rightarrow> string) \<Rightarrow> (string \<Rightarrow> js_string) \<Rightarrow> jsonl_header \<Rightarrow> session_mutation list \<Rightarrow> js_string" where
  "session_text pn po h ms = text_of_lines (header_line pn po h # map (mutation_line pn po) ms)"

lemma mutation_line:
  assumes "storable pn m"
  shows "encodeMutation pn po m = Some (mutation_line pn po m @ [LF])" "LF \<notin> set (mutation_line pn po m)"
    "mutation_line pn po m \<noteq> []" "\<exists>raw. parseMutation (mutation_line pn po m) = Inr raw \<and> as_mutation raw = Some m"
    "torn_piece (mutation_line pn po m) p \<Longrightarrow> \<exists>msg. parseMutation p = Inl (JsonlDecodeError Syntax msg)"
    "hd (mutation_line pn po m) = 0x7B"
  using mutation_line_round [OF assms, of po] by (auto simp: mutation_line_def)

lemma header_line:
  assumes "storable_header pn h"
  shows "encodeHeader pn po h = Some (header_line pn po h @ [LF])" "LF \<notin> set (header_line pn po h)"
    "header_line pn po h \<noteq> []" "parseHeader (header_line pn po h) = Inr h"
  using header_line_round [OF assms, of po] by (auto simp: header_line_def)

lemma text_of_lines_simps [simp]:
  "text_of_lines [] = []" "text_of_lines (ls @ ks) = text_of_lines ls @ text_of_lines ks"
  "text_of_lines (l # ls) = l @ LF # text_of_lines ls"
  by (simp_all add: text_of_lines_def)

lemma session_text_snoc: "session_text pn po h (ms @ [m]) = session_text pn po h ms @ mutation_line pn po m @ [LF]"
  by (simp add: session_text_def)

lemma split_text_of_lines:
  "\<forall>l\<in>set ls. LF \<notin> set l \<Longrightarrow> split_on LF (text_of_lines ls @ p) = ls @ split_on LF p"
  by (induction ls) (simp_all add: split_append_sep)

lemma physical_lines_text:
  assumes "\<forall>l\<in>set ls. LF \<notin> set l" "LF \<notin> set p"
  shows "physical_lines (text_of_lines ls @ p) = ls @ (if p = [] then [] else [p])"
  using assms by (simp add: physical_lines_def split_text_of_lines split_no_sep Let_def)

lemma join_text_of_lines: "ls \<noteq> [] \<Longrightarrow> join_on LF ls @ [LF] = text_of_lines ls"
  by (induction LF ls rule: join_on.induct) simp_all

section \<open>Loading\<close>

lemma load_lines_replay:
  fixes st :: jsonl_storage
  shows "list_all (storable pn) ms \<Longrightarrow> foldR applyMutation (jstate st) ms = Inr s \<Longrightarrow>
   load_lines path seen (map (mutation_line pn po) ms @ rest) st =
   load_lines path (seen @ map (mutation_line pn po) ms) rest (st\<lparr>jstate := s\<rparr>)"
proof (induction ms arbitrary: st seen)
  case (Cons m ms)
  then obtain t where t: "applyMutation (jstate st) m = Inr t" "foldR applyMutation t ms = Inr s" by (auto split: sum.splits)
  obtain raw where raw: "parseMutation (mutation_line pn po m) = Inr raw" "as_mutation raw = Some m"
    using mutation_line(4) [of pn m po] Cons.prems(1) by auto
  then show ?case using Cons.IH [of "st\<lparr>jstate := t\<rparr>" "seen @ [mutation_line pn po m]"] t Cons.prems(1)
    by (simp add: jsonl_applyMutation_def)
qed auto

lemma file_io_simps:
  "call fs = (Inr a, fs') \<Longrightarrow> file_io call msg fs = (Inr a, fs')"
  "call fs = (Inl e, fs') \<Longrightarrow> fst (file_io call msg fs) = Inl (Thrown (if file_error_code e = Fe_not_found then Not_found else Storage_error) (msg @ js '': '' @ file_error_message e))"
  "call fs = (Inl e, fs') \<Longrightarrow> snd (file_io call msg fs) = fs'"
  by (simp_all add: file_io_def fileResult_def)

lemma bindF_run: "m fs = (Inr a, fs') \<Longrightarrow> bindF m f fs = f a fs'" "m fs = (Inl e, fs') \<Longrightarrow> bindF m f fs = (Inl e, fs')"
  by (simp_all add: bindF_def)

lemma temp_path_differs [simp]: "temp_path path \<noteq> path" "path \<noteq> temp_path path"
  by (simp_all add: temp_path_def js_def)

lemma write_healthy:
  "healthy fs \<Longrightarrow> \<not> is_directory path fs \<Longrightarrow> file_io (fs_writeFile path t) msg fs = (Inr (), put_text path t fs)"
  by (simp add: file_io_def fileResult_def fs_writeFile_def fs_call_healthy)

lemma publish_healthy:
  assumes "populate (temp_path path) fs = (Inr (), fs1)" "healthy fs1" "text_at fs1 (temp_path path) = Some t" "\<not> is_directory path fs1"
  shows "\<exists>fs'. publishFileAtomically path populate fs = (Inr (), fs') \<and> healthy fs'
    \<and> text_at fs' = (text_at fs1)(temp_path path := None, path \<mapsto> t)
    \<and> map_of (fs_nodes fs') = (map_of (fs_nodes fs1))(temp_path path := None, path := map_of (fs_nodes fs1) (temp_path path))
    \<and> fs_clock fs' = fs_clock fs1"
proof -
  obtain m where m: "map_of (fs_nodes fs1) (temp_path path) = Some (FileNode t m)" using assms(3) by (auto simp: text_at_node)
  let ?fs = "fs1\<lparr>fs_nodes := AList.update path (FileNode t m) (AList.delete (temp_path path) (fs_nodes fs1))\<rparr>"
  have ren: "fs_renameFile (temp_path path) path fs1 = (Inr (), ?fs)"
    using m assms(2,4) by (simp add: fs_renameFile_def fs_call_healthy)
  have "publishFileAtomically path populate fs = (Inr (), ?fs)"
    by (simp add: publishFileAtomically_def bindF_def assms(1) file_io_simps(1) [of "fs_renameFile (temp_path path) path", OF ren])
  moreover have nodes: "map_of (fs_nodes ?fs) = (map_of (fs_nodes fs1))(temp_path path := None, path := map_of (fs_nodes fs1) (temp_path path))"
    using m by (simp add: update_conv' delete_conv')
  moreover have "text_at ?fs = (text_at fs1)(temp_path path := None, path \<mapsto> t)"
    unfolding text_at_def nodes using m by (auto simp: fun_eq_iff)
  ultimately show ?thesis using assms(2) by (intro exI [of _ ?fs]) (simp add: healthy_def)
qed
lemma info_healthy:
  "healthy fs \<Longrightarrow> map_of (fs_nodes fs) path = Some n \<Longrightarrow> file_io (fs_fileInfo path) msg fs = (Inr (info_of path n), fs)"
  by (simp add: file_io_def fileResult_def fs_fileInfo_def fs_call_healthy)

lemma read_healthy: "healthy fs \<Longrightarrow> text_at fs path = Some t \<Longrightarrow> file_io (fs_readTextFile path) msg fs = (Inr t, fs)"
  by (auto simp: file_io_def fileResult_def fs_readTextFile_def fs_call_healthy text_at_node)

lemma session_lines_one_line:
  assumes "storable_header pn h" "list_all (storable pn) ms"
  shows "\<forall>l\<in>set (header_line pn po h # map (mutation_line pn po) ms). LF \<notin> set l"
  using assms header_line(2) [of pn h po] mutation_line(2) [of pn _ po] by (auto simp: list_all_iff)

lemma text_of_lines_last: "ls \<noteq> [] \<Longrightarrow> last (text_of_lines ls) = LF"
  by (cases ls rule: rev_cases) simp_all

lemma jm_path_header [simp]: "jm_path (metadataFromHeader h path mt) = path"
  by (simp add: metadataFromHeader_def)

text \<open>What loading does with a file whose first lines are those of a session.\<close>

lemma load_text:
  assumes "healthy fs" "map_of (fs_nodes fs) path = Some (FileNode c mt)"
    and "physical_lines c = header_line pn po h # map (mutation_line pn po) ms @ rest"
    and "storable_header pn h" "list_all (storable pn) ms" "foldR applyMutation init_state ms = Inr s"
  shows "jsonl_load path fs =
    bindF (load_lines path (header_line pn po h # map (mutation_line pn po) ms) rest
             \<lparr>jmeta = metadataFromHeader h path mt, jstate = s\<rparr>) (\<lambda>(torn, st).
      if torn then pureF (Inr st)
      else if last c \<noteq> LF then bindF (file_io (fs_appendFile path [LF]) (js ''Failed to repair unterminated session tail '' @ path)) (\<lambda>_. pureF (Inr st))
      else pureF (Inr st)) fs"
proof -
  have held: "text_at fs path = Some c" using assms(2) by (simp add: text_at_node)
  have replay: "load_lines path [header_line pn po h] (map (mutation_line pn po) ms @ rest) (new_jsonl_storage md)
      = load_lines path (header_line pn po h # map (mutation_line pn po) ms) rest \<lparr>jmeta = md, jstate = s\<rparr>" for md
    using load_lines_replay [of pn ms "new_jsonl_storage md" s path "[header_line pn po h]" po rest] assms(5,6)
    by (simp add: new_jsonl_storage_def)
  show ?thesis
    unfolding jsonl_load_def using header_line(3,4) [OF assms(4), of po]
    by (simp add: bindF_def [of "file_io _ _"] read_healthy [OF assms(1) held] assms(3) info_healthy [OF assms(1,2)] Let_def replay info_of_def
        del: load_lines.simps)
qed

lemma session_text_piece:
  assumes "storable_header pn h" "list_all (storable pn) ms" "LF \<notin> set p"
  shows "physical_lines (session_text pn po h ms @ p) = header_line pn po h # map (mutation_line pn po) ms @ (if p = [] then [] else [p])"
    "physical_lines (session_text pn po h ms @ p @ [LF]) = header_line pn po h # map (mutation_line pn po) ms @ [p]"
    "last (session_text pn po h ms @ p) \<noteq> LF \<longleftrightarrow> p \<noteq> []"
proof -
  let ?ls = "header_line pn po h # map (mutation_line pn po) ms"
  have one: "\<forall>l\<in>set ?ls. LF \<notin> set l" by (rule session_lines_one_line [OF assms(1,2)])
  show "physical_lines (session_text pn po h ms @ p) = header_line pn po h # map (mutation_line pn po) ms @ (if p = [] then [] else [p])"
    using physical_lines_text [OF one assms(3)] by (simp add: session_text_def)
  show "physical_lines (session_text pn po h ms @ p @ [LF]) = header_line pn po h # map (mutation_line pn po) ms @ [p]"
    using physical_lines_text [of "?ls @ [p]" "[]"] one assms(3) by (simp add: session_text_def)
  have "p \<noteq> [] \<Longrightarrow> last p \<noteq> LF" using assms(3) last_in_set [of p] by metis
  then show "last (session_text pn po h ms @ p) \<noteq> LF \<longleftrightarrow> p \<noteq> []"
    using text_of_lines_last [of ?ls] by (cases "p = []") (auto simp: session_text_def simp del: text_of_lines_simps)
qed

lemma load_session:
  assumes "healthy fs" "map_of (fs_nodes fs) path = Some (FileNode (session_text pn po h ms) mt)"
    and "storable_header pn h" "list_all (storable pn) ms" "foldR applyMutation init_state ms = Inr s"
  shows "jsonl_load path fs = (Inr \<lparr>jmeta = metadataFromHeader h path mt, jstate = s\<rparr>, fs)"
  using load_text [OF assms(1,2) _ assms(3-5), where rest = "[]" and po = po] session_text_piece(1,3) [OF assms(3,4), where p = "[]" and po = po]
  by (simp, simp add: pureF_def)

section \<open>Durability\<close>

text \<open>The file of the storage holds mutations that give its state.\<close>

definition durable :: "(js_number \<Rightarrow> string) \<Rightarrow> (string \<Rightarrow> js_string) \<Rightarrow> jsonl_storage \<Rightarrow> fsys \<Rightarrow> bool" where
  "durable pn po st fs \<longleftrightarrow> (\<exists>h ms mt. storable_header pn h \<and> list_all (storable pn) ms
     \<and> foldR applyMutation init_state ms = Inr (jstate st) \<and> jmeta st = metadataFromHeader h (jm_path (jmeta st)) mt
     \<and> text_at fs (jm_path (jmeta st)) = Some (session_text pn po h ms))"

lemma replayed_wf: "foldR applyMutation init_state ms = Inr s \<Longrightarrow> wf_state s"
  by (rule foldR_invariant [where f = applyMutation and I = wf_state]) (auto intro: wf_init wf_apply)

lemma durable_wf: "durable pn po st fs \<Longrightarrow> wf_state (jstate st)"
  by (auto simp: durable_def intro: replayed_wf)

lemma load_durable:
  assumes "healthy fs" "durable pn po st fs"
  shows "\<exists>mt. jsonl_load (jm_path (jmeta st)) fs = (Inr (st\<lparr>jmeta := (jmeta st)\<lparr>jm_modifiedAt := mt\<rparr>\<rparr>), fs)"
proof -
  obtain h ms mt mt' where d: "storable_header pn h" "list_all (storable pn) ms" "foldR applyMutation init_state ms = Inr (jstate st)"
      "jmeta st = metadataFromHeader h (jm_path (jmeta st)) mt"
      "map_of (fs_nodes fs) (jm_path (jmeta st)) = Some (FileNode (session_text pn po h ms) mt')"
    using assms(2) by (auto simp: durable_def text_at_node)
  have "(jmeta st)\<lparr>jm_modifiedAt := mt'\<rparr> = metadataFromHeader h (jm_path (jmeta st)) mt'"
    by (subst d(4)) (simp add: metadataFromHeader_def)
  then show ?thesis
    using load_session [OF assms(1) d(5,1,2,3)] by (intro exI [of _ mt']) simp
qed

lemma commit_durable:
  assumes "healthy fs" "durable pn po st fs" "storable pn m" "applyMutation (jstate st) m = Inr s"
  shows "\<exists>fs'. jsonl_commit pn po st m fs = (Inr (st\<lparr>jstate := s\<rparr>), fs') \<and> healthy fs' \<and> durable pn po (st\<lparr>jstate := s\<rparr>) fs'
    \<and> (\<forall>q. q \<noteq> jm_path (jmeta st) \<longrightarrow> map_of (fs_nodes fs') q = map_of (fs_nodes fs) q)"
proof -
  define path where "path = jm_path (jmeta st)"
  obtain h ms mt where d: "storable_header pn h" "list_all (storable pn) ms" "foldR applyMutation init_state ms = Inr (jstate st)"
      "jmeta st = metadataFromHeader h path mt" "text_at fs path = Some (session_text pn po h ms)"
    using assms(2) by (auto simp: durable_def path_def)
  let ?line = "mutation_line pn po m @ [LF]"
  have run: "jsonl_commit pn po st m fs = (Inr (st\<lparr>jstate := s\<rparr>), add_text path ?line fs)"
    using append_healthy [OF assms(1) d(5), of ?line] assms(4)
    by (simp add: jsonl_commit_def jsonl_appendMutation_def line_io_def mutation_line(1) [OF assms(3)] bindF_def file_io_simps(1)
        jsonl_applyMutation_def pureF_def flip: path_def)
  have "durable pn po (st\<lparr>jstate := s\<rparr>) (add_text path ?line fs)"
    unfolding durable_def
    by (rule exI [of _ h], rule exI [of _ "ms @ [m]"], rule exI [of _ mt])
      (use d assms(3,4) in \<open>simp add: foldR_append text_at_add session_text_snoc flip: path_def\<close>)
  then show ?thesis using run assms(1) by (auto simp: add_text_healthy add_text_def put_text_simps path_def)
qed
lemma create_durable:
  assumes "healthy fs" "storable_header pn h" "\<not> is_directory path fs"
  shows "\<exists>st fs'. jsonl_create pn po path h fs = (Inr st, fs') \<and> healthy fs' \<and> durable pn po st fs'
    \<and> jstate st = init_state \<and> jm_path (jmeta st) = path
    \<and> (\<forall>q. q \<noteq> path \<longrightarrow> map_of (fs_nodes fs') q = map_of (fs_nodes fs) q)"
proof -
  let ?line = "header_line pn po h @ [LF]" let ?fs = "put_text path (header_line pn po h @ [LF]) fs"
  let ?st = "new_jsonl_storage (metadataFromHeader h path (fs_clock fs))"
  have healthy: "healthy ?fs" using assms(1) by (simp add: put_text_simps)
  have node: "map_of (fs_nodes ?fs) path = Some (FileNode ?line (fs_clock fs))" by (simp add: put_text_simps)
  have "jsonl_create pn po path h fs = (Inr ?st, ?fs)"
    by (simp add: jsonl_create_def line_io_def header_line(1) [OF assms(2)] bindF_def write_healthy [OF assms(1,3)]
        info_healthy [OF healthy node] info_of_def pureF_def)
  moreover have "durable pn po ?st ?fs"
    unfolding durable_def
    by (rule exI [of _ h], rule exI [of _ "[]"], rule exI [of _ "fs_clock fs"])
      (use assms(2) in \<open>simp add: new_jsonl_storage_def text_at_put session_text_def\<close>)
  ultimately show ?thesis using healthy by (auto simp: new_jsonl_storage_def put_text_simps)
qed

section \<open>Queues in lock step\<close>

text \<open>Two machines that answer alike, as long as every operation is one that the first one can carry out.\<close>

locale queue_simulation =
  fixes step1 :: "'a \<Rightarrow> 'op \<Rightarrow> 'r \<times> 'a" and step2 :: "'b \<Rightarrow> 'op \<Rightarrow> 'r \<times> 'b"
    and match :: "'a \<Rightarrow> 'b \<Rightarrow> bool" and able :: "'a \<Rightarrow> 'op \<Rightarrow> bool"
  assumes same_answer: "match a b \<Longrightarrow> able a op \<Longrightarrow> fst (step1 a op) = fst (step2 b op)"
    and match_step: "match a b \<Longrightarrow> able a op \<Longrightarrow> match (snd (step1 a op)) (snd (step2 b op))"
begin

fun able_run :: "'a \<Rightarrow> 'op list \<Rightarrow> bool" where
  "able_run a [] = True"
| "able_run a (op # ops) = (able a op \<and> able_run (snd (step1 a op)) ops)"

lemma queue_match:
  "match a b \<Longrightarrow> able_run a ops \<Longrightarrow>
   fst (queue_run step1 a ops) = fst (queue_run step2 b ops) \<and> match (snd (queue_run step1 a ops)) (snd (queue_run step2 b ops))"
proof (induction ops arbitrary: a b)
  case (Cons op ops)
  then show ?case
    using Cons.IH [of "snd (step1 a op)" "snd (step2 b op)"] same_answer [of a b op] match_step [of a b op]
    by (auto simp: case_prod_beta)
qed simp

end

text \<open>The same queue over the storage in memory.\<close>

definition memory_enqueue :: "memory_storage \<Rightarrow> storage_op \<Rightarrow> jsonl_failure option \<times> memory_storage" where
  "memory_enqueue st op = (case storage_step st op of Inl e \<Rightarrow> (Some (thrown e), st) | Inr st' \<Rightarrow> (None, st'))"

definition op_storable :: "(js_number \<Rightarrow> string) \<Rightarrow> session_state \<Rightarrow> storage_op \<Rightarrow> bool" where
  "op_storable pn s op = (case prepare s op of Inl _ \<Rightarrow> True | Inr m \<Rightarrow> storable pn m)"

definition kept :: "(js_number \<Rightarrow> string) \<Rightarrow> (string \<Rightarrow> js_string) \<Rightarrow> jsonl_storage \<times> fsys \<Rightarrow> memory_storage \<Rightarrow> bool" where
  "kept pn po x m = (healthy (snd x) \<and> durable pn po (fst x) (snd x) \<and> jstate (fst x) = state m)"

lemma enqueue_refused:
  "prepare (jstate st) op = Inl e \<Longrightarrow> enqueue_step pn po (st, fs) op = (Some (thrown e), st, fs)"
  "prepare (state m) op = Inl e \<Longrightarrow> memory_enqueue m op = (Some (thrown e), m)"
  by (simp_all add: enqueue_step_def jsonl_step_prepare bindF_def pureF_def memory_enqueue_def storage_step_prepare)

lemma enqueue_accepted:
  assumes "kept pn po (st, fs) m" "prepare (jstate st) op = Inr mu" "storable pn mu"
  obtains s fs' where "applyMutation (jstate st) mu = Inr s" "enqueue_step pn po (st, fs) op = (None, st\<lparr>jstate := s\<rparr>, fs')"
    "memory_enqueue m op = (None, m\<lparr>state := s\<rparr>)" "kept pn po (st\<lparr>jstate := s\<rparr>, fs') (m\<lparr>state := s\<rparr>)"
proof -
  have k: "healthy fs" "durable pn po st fs" "jstate st = state m" using assms(1) by (simp_all add: kept_def)
  obtain s where s: "applyMutation (jstate st) mu = Inr s" using prepare_accepted [OF durable_wf [OF k(2)] assms(2)] by blast
  obtain fs' where fs': "jsonl_commit pn po st mu fs = (Inr (st\<lparr>jstate := s\<rparr>), fs')" "healthy fs'" "durable pn po (st\<lparr>jstate := s\<rparr>) fs'"
    using commit_durable [OF k(1,2) assms(3) s] by blast
  show thesis
    by (rule that [OF s, of fs'])
      (use s fs' assms(2) k(3) in \<open>auto simp: enqueue_step_def jsonl_step_prepare memory_enqueue_def storage_step_prepare commit_def kept_def\<close>)
qed

interpretation jsonl: queue_simulation "enqueue_step pn po" memory_enqueue "kept pn po" "\<lambda>x op. op_storable pn (jstate (fst x)) op"
proof (unfold_locales)
  fix a :: "jsonl_storage \<times> fsys" and b :: memory_storage and op
  assume k: "kept pn po a b" and ok: "op_storable pn (jstate (fst a)) op"
  obtain st fs where a: "a = (st, fs)" by (cases a) auto
  have same: "jstate st = state b" using k by (simp add: kept_def a)
  have "fst (enqueue_step pn po a op) = fst (memory_enqueue b op) \<and> kept pn po (snd (enqueue_step pn po a op)) (snd (memory_enqueue b op))"
  proof (cases "prepare (jstate st) op")
    case (Inl e)
    then show ?thesis using k enqueue_refused(1) [OF Inl] enqueue_refused(2) [of b op e] same by (simp add: a)
  next
    case (Inr mu)
    then have "storable pn mu" using ok by (simp add: op_storable_def a)
    then show ?thesis by (rule enqueue_accepted [OF k [unfolded a] Inr]) (simp add: a)
  qed
  then show "fst (enqueue_step pn po a op) = fst (memory_enqueue b op)" "kept pn po (snd (enqueue_step pn po a op)) (snd (memory_enqueue b op))"
    by simp_all
qed

section \<open>Interrupted writes\<close>

text \<open>What is on the disk when the write of a line was interrupted.\<close>

definition broken_write :: "js_string \<Rightarrow> js_string \<Rightarrow> bool" where
  "broken_write line p = (torn_piece line p \<or> p = line \<or> p = line @ [LF])"

lemma torn_not_line: "torn_piece t p \<Longrightarrow> LF \<notin> set t \<Longrightarrow> LF \<notin> set p"
  by (auto simp: torn_piece_def LF_def)

lemma repair_torn:
  assumes "healthy fs" "map_of (fs_nodes fs) path = Some (FileNode c mt)" "\<not> is_directory (temp_path path) fs"
  shows "\<exists>fs'. publishFileAtomically path (\<lambda>tempPath. file_io (fs_writeFile tempPath text) msg) fs = (Inr (), fs')
    \<and> healthy fs' \<and> text_at fs' = (text_at fs)(temp_path path := None, path \<mapsto> text)"
proof -
  let ?fs = "put_text (temp_path path) text fs"
  have "\<not> is_directory path ?fs" using assms(2) by (simp add: is_directory_def put_text_simps)
  moreover have "file_io (fs_writeFile (temp_path path) text) msg fs = (Inr (), ?fs)" by (rule write_healthy [OF assms(1,3)])
  ultimately show ?thesis
    using publish_healthy [of "\<lambda>tempPath. file_io (fs_writeFile tempPath text) msg" path fs ?fs "text"] assms(1)
    by (auto simp: put_text_simps text_at_put)
qed

lemma load_torn:
  assumes "healthy fs" "map_of (fs_nodes fs) path = Some (FileNode c mt)"
    and "physical_lines c = header_line pn po h # map (mutation_line pn po) ms @ [p]"
    and "storable_header pn h" "list_all (storable pn) ms" "foldR applyMutation init_state ms = Inr s"
    and "parseMutation p = Inl (JsonlDecodeError Syntax msg)" "\<not> is_directory (temp_path path) fs"
  shows "\<exists>fs'. jsonl_load path fs = (Inr \<lparr>jmeta = metadataFromHeader h path mt, jstate = s\<rparr>, fs') \<and> healthy fs'
    \<and> text_at fs' = (text_at fs)(temp_path path := None, path \<mapsto> session_text pn po h ms)"
proof -
  have joined: "join_on LF (header_line pn po h # map (mutation_line pn po) ms) @ [LF] = session_text pn po h ms"
    unfolding session_text_def by (rule join_text_of_lines) simp
  from repair_torn [OF assms(1,2,8), of "session_text pn po h ms" "js ''Failed to stage torn-tail repair '' @ path"]
  obtain fs' where fs': "publishFileAtomically path (\<lambda>tempPath. file_io (fs_writeFile tempPath (session_text pn po h ms))
        (js ''Failed to stage torn-tail repair '' @ path)) fs = (Inr (), fs')"
      "healthy fs'" "text_at fs' = (text_at fs)(temp_path path := None, path \<mapsto> session_text pn po h ms)" by blast
  then show ?thesis
    unfolding load_text [OF assms(1-6)] using assms(7)
    by (intro exI [of _ fs']) (simp add: joined, simp add: bindF_def pureF_def)
qed

text \<open>A line that lacks only its line feed counts, and gets the line feed.\<close>

lemma load_unterminated:
  assumes "healthy fs" "map_of (fs_nodes fs) path = Some (FileNode (session_text pn po h ms @ mutation_line pn po m) mt)"
    and "storable_header pn h" "list_all (storable pn) ms" "foldR applyMutation init_state ms = Inr s"
    and "storable pn m" "applyMutation s m = Inr s'"
  shows "\<exists>fs'. jsonl_load path fs = (Inr \<lparr>jmeta = metadataFromHeader h path mt, jstate = s'\<rparr>, fs') \<and> healthy fs'
    \<and> text_at fs' = (text_at fs)(path \<mapsto> session_text pn po h (ms @ [m]))"
proof -
  have held: "text_at fs path = Some (session_text pn po h ms @ mutation_line pn po m)" using assms(2) by (simp add: text_at_node)
  have "load_lines path seen [mutation_line pn po m] \<lparr>jmeta = md, jstate = s\<rparr> = pureF (Inr (False, \<lparr>jmeta = md, jstate = s'\<rparr>))" for seen md
    using load_lines_replay [of pn "[m]" "\<lparr>jmeta = md, jstate = s\<rparr>" s' path seen po "[]"] assms(6,7) by simp
  then show ?thesis
    unfolding load_text [OF assms(1,2) session_text_piece(1) [OF assms(3,4) mutation_line(2) [OF assms(6)]] assms(3-5)]
      session_text_piece(3) [OF assms(3,4) mutation_line(2) [OF assms(6)]]
    using mutation_line(3) [OF assms(6), of po] append_healthy [OF assms(1) held, of "[LF]"] assms(1)
    by (intro exI [of _ "add_text path [LF] fs"])
      (simp add: add_text_healthy text_at_add held session_text_snoc, simp add: bindF_def pureF_def file_io_simps(1))
qed

theorem load_after_crash:
  assumes "healthy fs" "storable_header pn h" "list_all (storable pn) (ms @ [m])"
    and "foldR applyMutation init_state ms = Inr s" "applyMutation s m = Inr s'"
    and "text_at fs path = Some (session_text pn po h ms @ p)" "broken_write (mutation_line pn po m) p"
    and "\<not> is_directory (temp_path path) fs"
  shows "\<exists>st fs'. jsonl_load path fs = (Inr st, fs') \<and> healthy fs' \<and> durable pn po st fs' \<and> jm_path (jmeta st) = path
    \<and> jstate st = (if torn_piece (mutation_line pn po m) p then s else s')
    \<and> text_at fs' path = Some (session_text pn po h (if torn_piece (mutation_line pn po m) p then ms else ms @ [m]))
    \<and> (\<forall>q. q \<noteq> path \<longrightarrow> q \<noteq> temp_path path \<longrightarrow> text_at fs' q = text_at fs q)"
proof -
  define line where "line = mutation_line pn po m"
  obtain mt where node: "map_of (fs_nodes fs) path = Some (FileNode (session_text pn po h ms @ p) mt)"
    using assms(6) by (auto simp: text_at_node)
  have ms: "list_all (storable pn) ms" "storable pn m" and all: "foldR applyMutation init_state (ms @ [m]) = Inr s'"
    using assms(3-5) by (simp_all add: foldR_append)
  note l = mutation_line [OF ms(2), of po, folded line_def]
  have durable: "durable pn po \<lparr>jmeta = metadataFromHeader h path mt, jstate = t\<rparr> fs'"
    if "list_all (storable pn) ns" "foldR applyMutation init_state ns = Inr t" "text_at fs' path = Some (session_text pn po h ns)" for t ns fs'
    unfolding durable_def using that assms(2) by (intro exI [of _ h] exI [of _ ns] exI [of _ mt]) simp
  have distinct: "\<not> torn_piece line line" "\<not> torn_piece line (line @ [LF])"
    using l(2) torn_not_line [of line "line @ [LF]"] by (auto simp: torn_piece_def)
  consider (none) "p = []" "torn_piece line p" | (torn) "p \<noteq> []" "torn_piece line p" | (unterminated) "p = line" | (complete) "p = line @ [LF]"
    using assms(7) unfolding broken_write_def line_def [symmetric] by blast
  then show ?thesis
  proof cases
    case none
    let ?st = "\<lparr>jmeta = metadataFromHeader h path mt, jstate = s\<rparr>"
    have "jsonl_load path fs = (Inr ?st, fs)"
      using load_session [OF assms(1) _ assms(2) ms(1) assms(4)] node none by simp
    moreover have "durable pn po ?st fs" using durable [OF ms(1) assms(4)] assms(6) none by simp
    ultimately show ?thesis unfolding line_def [symmetric] using none assms(1,6) by (intro exI [of _ ?st] exI [of _ fs]) simp
  next
    case torn
    obtain msg where "parseMutation p = Inl (JsonlDecodeError Syntax msg)" using l(5) torn(2) by blast
    then obtain fs' where "jsonl_load path fs = (Inr \<lparr>jmeta = metadataFromHeader h path mt, jstate = s\<rparr>, fs')" "healthy fs'"
        "text_at fs' = (text_at fs)(temp_path path := None, path \<mapsto> session_text pn po h ms)"
      using load_torn [OF assms(1) node _ assms(2) ms(1) assms(4) _ assms(8)]
        session_text_piece(1) [OF assms(2) ms(1) torn_not_line [OF torn(2) l(2)], of po] torn(1) by auto
    then show ?thesis unfolding line_def [symmetric] using durable [OF ms(1) assms(4), of fs'] torn by simp
  next
    case unterminated
    obtain fs' where "jsonl_load path fs = (Inr \<lparr>jmeta = metadataFromHeader h path mt, jstate = s'\<rparr>, fs')" "healthy fs'"
        "text_at fs' = (text_at fs)(path \<mapsto> session_text pn po h (ms @ [m]))"
      using load_unterminated [OF assms(1) _ assms(2) ms(1) assms(4) ms(2) assms(5)] node unterminated unfolding line_def by blast
    then show ?thesis unfolding line_def [symmetric] using durable [OF assms(3) all, of fs'] distinct unterminated by simp
  next
    case complete
    let ?st = "\<lparr>jmeta = metadataFromHeader h path mt, jstate = s'\<rparr>"
    have node': "map_of (fs_nodes fs) path = Some (FileNode (session_text pn po h (ms @ [m])) mt)"
      using node complete by (simp add: session_text_snoc line_def)
    then have "jsonl_load path fs = (Inr ?st, fs)"
      by (rule load_session [OF assms(1) _ assms(2,3) all])
    moreover have held: "text_at fs path = Some (session_text pn po h (ms @ [m]))" using node' by (simp add: text_at_node)
    ultimately show ?thesis unfolding line_def [symmetric] using durable [OF assms(3) all held] distinct complete assms(1)
      by (intro exI [of _ ?st] exI [of _ fs]) simp
  qed
qed
section \<open>Publication under faults\<close>

lemma file_io_Inr: "file_io call msg fs = (Inr a, fs') \<longleftrightarrow> call fs = (Inr a, fs')"
  by (auto simp: file_io_def fileResult_def split: prod.splits sum.splits)

lemma file_io_call: "file_io call msg fs = (r, fs') \<Longrightarrow> \<exists>r'. call fs = (r', fs')"
  by (auto simp: file_io_def split: prod.splits)

lemma bindF_Inr: "bindF m f fs = (Inr b, fs') \<longleftrightarrow> (\<exists>a fs1. m fs = (Inr a, fs1) \<and> f a fs1 = (Inr b, fs'))"
  by (auto simp: bindF_def split: prod.splits sum.splits)

lemma pureF_Inr: "pureF r fs = (Inr a, fs') \<longleftrightarrow> r = Inr a \<and> fs' = fs"
  by (auto simp: pureF_def)

text \<open>An action leaves the text of a file alone.\<close>

definition leaves :: "'a io \<Rightarrow> js_string \<Rightarrow> bool" where
  "leaves m q = (\<forall>fs r fs'. m fs = (r, fs') \<longrightarrow> text_at fs' q = text_at fs q)"

lemma leaves_simps:
  "leaves (pureF r) q"
  "leaves m q \<Longrightarrow> (\<And>a. leaves (f a) q) \<Longrightarrow> leaves (bindF m f) q"
  "(\<And>t. leaves (g t) q) \<Longrightarrow> leaves (line_io x g) q"
  by (auto simp: leaves_def pureF_def bindF_def line_io_def split: prod.splits sum.splits option.splits)

lemma leaves_calls:
  "leaves (file_io (fs_readTextFile path) msg) q" "leaves (file_io (fs_fileInfo path) msg) q"
  "q \<noteq> path \<Longrightarrow> leaves (file_io (fs_writeFile path t) msg) q" "q \<noteq> path \<Longrightarrow> leaves (file_io (fs_appendFile path t) msg) q"
  unfolding leaves_def by (auto dest!: file_io_call dest: reads_keep write_effect(2) append_effect(2))

lemma create_leaves: "q \<noteq> path \<Longrightarrow> leaves (jsonl_create pn po path h) q"
  unfolding jsonl_create_def by (intro leaves_simps leaves_calls)

lemma commit_leaves: "q \<noteq> jm_path (jmeta st) \<Longrightarrow> leaves (jsonl_commit pn po st m) q"
  unfolding jsonl_commit_def jsonl_appendMutation_def by (intro leaves_simps leaves_calls)

lemma commit_keeps_meta: "jsonl_commit pn po st m fs = (Inr st', fs') \<Longrightarrow> jmeta st' = jmeta st"
  by (auto simp: jsonl_commit_def bindF_Inr pureF_Inr liftS_def jsonl_applyMutation_def result_simps split: sum.splits)

lemma commit_all_leaves: "q \<noteq> jm_path (jmeta st) \<Longrightarrow> text_at (snd (commit_all pn po st ms fs)) q = text_at fs q"
proof (induction ms arbitrary: st fs)
  case (Cons m ms)
  obtain r fs1 where r: "jsonl_commit pn po st m fs = (r, fs1)" by (cases "jsonl_commit pn po st m fs") auto
  then have "text_at fs1 q = text_at fs q" using commit_leaves [OF Cons.prems, of pn po m] by (auto simp: leaves_def)
  then show ?case using r Cons.IH Cons.prems commit_keeps_meta by (cases r) (auto simp: bindF_def)
qed (simp add: pureF_def)

theorem publish_atomic:
  assumes "leaves (populate (temp_path path)) path" "publishFileAtomically path populate fs = (r, fs')"
  shows "case r of
      Inl e \<Rightarrow> text_at fs' path = text_at fs path
    | Inr _ \<Rightarrow> (\<exists>fs1 t. populate (temp_path path) fs = (Inr (), fs1) \<and> text_at fs1 (temp_path path) = Some t
        \<and> text_at fs' path = Some t \<and> text_at fs' (temp_path path) = None)"
proof -
  let ?m = "bindF (populate (temp_path path)) (\<lambda>_. file_io (fs_renameFile (temp_path path) path)
      (js ''Failed to publish staged file '' @ path))"
  obtain r1 fs1 where m: "?m fs = (r1, fs1)" by (cases "?m fs") auto
  obtain rp fsp where p: "populate (temp_path path) fs = (rp, fsp)" by (cases "populate (temp_path path) fs") auto
  have kept: "text_at fsp path = text_at fs path" using assms(1) p by (auto simp: leaves_def)
  show ?thesis
  proof (cases r1)
    case (Inl e)
    have "text_at fs1 path = text_at fs path"
    proof (cases rp)
      case (Inr u)
      then obtain e' where "fs_renameFile (temp_path path) path fsp = (Inl e', fs1)"
        using m p Inl by (auto simp: bindF_def file_io_def fileResult_def split: prod.splits sum.splits)
      then show ?thesis using rename_effect(2) kept by metis
    qed (use m p kept in \<open>auto simp: bindF_def\<close>)
    moreover have "fs' = snd (fs_remove (temp_path path) True fs1)" "r = Inl e" using assms(2) m Inl by (auto simp: publishFileAtomically_def)
    ultimately show ?thesis using remove_effect [of "temp_path path" True fs1 _ fs' path] by (cases "fs_remove (temp_path path) True fs1") auto
  next
    case (Inr u)
    then have "populate (temp_path path) fs = (Inr (), fsp)" "fs_renameFile (temp_path path) path fsp = (Inr u, fs1)"
      using m p by (auto simp: bindF_Inr file_io_Inr)
    moreover have "r = Inr u" "fs' = fs1" using m Inr assms(2) by (auto simp: publishFileAtomically_def)
    ultimately show ?thesis using rename_effect(1) [of "temp_path path" path fsp u fs1] by auto
  qed
qed

section \<open>Forks\<close>

lemma create_success:
  assumes "jsonl_create pn po path h fs = (Inr st, fs')" "storable_header pn h"
  shows "text_at fs' = (text_at fs)(path \<mapsto> session_text pn po h []) \<and> jstate st = init_state \<and> jm_path (jmeta st) = path"
proof -
  obtain fs1 info where "fs_writeFile path (header_line pn po h @ [LF]) fs = (Inr (), fs1)" "fs_fileInfo path fs1 = (Inr info, fs')"
      "st = new_jsonl_storage (metadataFromHeader h path (fi_mtimeMs info))"
    using assms(1) by (auto simp: jsonl_create_def line_io_def header_line(1) [OF assms(2)] bindF_Inr pureF_Inr file_io_Inr)
  then show ?thesis using write_effect(1) reads_keep(2) by (fastforce simp: session_text_def new_jsonl_storage_def)
qed

lemma commit_all_success:
  "list_all (storable pn) ms \<Longrightarrow> commit_all pn po st ms fs = (Inr st', fs') \<Longrightarrow>
   text_at fs (jm_path (jmeta st)) = Some (session_text pn po h ns) \<Longrightarrow>
   text_at fs' (jm_path (jmeta st)) = Some (session_text pn po h (ns @ ms)) \<and> foldR applyMutation (jstate st) ms = Inr (jstate st')"
proof (induction ms arbitrary: st fs ns)
  case (Cons m ms)
  obtain st1 fs1 where c: "jsonl_commit pn po st m fs = (Inr st1, fs1)" "commit_all pn po st1 ms fs1 = (Inr st', fs')"
    using Cons.prems(2) by (auto simp: bindF_Inr)
  have line: "encodeMutation pn po m = Some (mutation_line pn po m @ [LF])" using Cons.prems(1) mutation_line(1) by simp
  have a: "fs_appendFile (jm_path (jmeta st)) (mutation_line pn po m @ [LF]) fs = (Inr (), fs1)" and s: "applyMutation (jstate st) m = Inr (jstate st1)"
    and meta: "jmeta st1 = jmeta st"
    using c(1) by (auto simp: jsonl_commit_def jsonl_appendMutation_def line_io_def line bindF_Inr pureF_Inr file_io_Inr liftS_def
        jsonl_applyMutation_def result_simps split: sum.splits)
  have "text_at fs1 (jm_path (jmeta st)) = Some (session_text pn po h (ns @ [m]))"
    using append_effect(1) [OF a] Cons.prems(3) by (simp add: session_text_snoc)
  then show ?case using Cons.IH [of st1 fs1 "ns @ [m]"] Cons.prems(1) c(2) s meta by simp
qed (auto simp: pureF_Inr)

lemma fork_populate:
  assumes "bindF (jsonl_create pn po path h) (\<lambda>target. bindF (commit_all pn po target ms) (\<lambda>_. pureF (Inr ()))) fs = (Inr (), fs')"
    and "storable_header pn h" "list_all (storable pn) ms"
  shows "text_at fs' path = Some (session_text pn po h ms) \<and> (\<exists>s. foldR applyMutation init_state ms = Inr s)"
proof -
  obtain st fs1 st' where c: "jsonl_create pn po path h fs = (Inr st, fs1)" "commit_all pn po st ms fs1 = (Inr st', fs')"
    using assms(1) by (auto simp: bindF_Inr pureF_Inr)
  then show ?thesis
    using create_success [OF c(1) assms(2)] commit_all_success [OF assms(3) c(2), of h "[]"] by auto
qed

lemma fork_populate_leaves:
  assumes "q \<noteq> path"
  shows "leaves (bindF (jsonl_create pn po path h) (\<lambda>target. bindF (commit_all pn po target ms) (\<lambda>_. pureF (Inr ())))) q"
  unfolding leaves_def
proof (intro allI impI)
  fix fs r' fs'
  assume run: "bindF (jsonl_create pn po path h) (\<lambda>target. bindF (commit_all pn po target ms) (\<lambda>_. pureF (Inr ()))) fs = (r', fs')"
  obtain r fs1 where r: "jsonl_create pn po path h fs = (r, fs1)" by (cases "jsonl_create pn po path h fs") auto
  then have "text_at fs1 q = text_at fs q" using create_leaves [OF assms, of pn po h] by (auto simp: leaves_def)
  moreover have "jm_path (jmeta st) = path" if "r = Inr st" for st
    using r that by (auto simp: jsonl_create_def line_io_def bindF_Inr pureF_Inr new_jsonl_storage_def split: option.splits)
  ultimately show "text_at fs' q = text_at fs q"
    using run r commit_all_leaves [of q _ pn po ms fs1] assms by (cases r) (force simp: bindF_def pureF_def split: prod.splits sum.splits)+
qed
text \<open>Loading a complete session file changes no text, whatever faults it meets.\<close>

lemma load_complete:
  assumes "text_at fs path = Some (session_text pn po h ms)" "storable_header pn h" "list_all (storable pn) ms"
    and "foldR applyMutation init_state ms = Inr s" "jsonl_load path fs = (r, fs')"
  shows "text_at fs' = text_at fs \<and> (\<forall>st. r = Inr st \<longrightarrow> jstate st = s)"
proof -
  obtain rc fs1 where rc: "file_io (fs_readTextFile path) (js ''Failed to read session '' @ path) fs = (rc, fs1)"
    by (cases "file_io (fs_readTextFile path) (js ''Failed to read session '' @ path) fs") auto
  have keep1: "text_at fs1 = text_at fs" using rc file_io_call reads_keep(1) by blast
  show ?thesis
  proof (cases rc)
    case (Inl e)
    then show ?thesis using assms(5) rc keep1 by (auto simp: jsonl_load_def bindF_def)
  next
    case (Inr c)
    have "c = session_text pn po h ms"
      using rc Inr assms(1) fs_read_text [of path fs c fs1] by (simp add: file_io_Inr)
    then have lines: "physical_lines c = header_line pn po h # map (mutation_line pn po) ms"
      and last: "last c = LF"
      using physical_lines_text [OF session_lines_one_line [OF assms(2,3), of po], of "[]"]
        text_of_lines_last [of "header_line pn po h # map (mutation_line pn po) ms"]
      by (simp_all add: session_text_def)
    obtain ri fs2 where ri: "file_io (fs_fileInfo path) (js ''Failed to read session metadata '' @ path) fs1 = (ri, fs2)"
      by (cases "file_io (fs_fileInfo path) (js ''Failed to read session metadata '' @ path) fs1") auto
    have keep2: "text_at fs2 = text_at fs1" using ri file_io_call reads_keep(2) by blast
    have replay: "load_lines path [header_line pn po h] (map (mutation_line pn po) ms) (new_jsonl_storage md) =
        pureF (Inr (False, \<lparr>jmeta = md, jstate = s\<rparr>))" for md
      using load_lines_replay [of pn ms "new_jsonl_storage md" s path "[header_line pn po h]" po "[]"] assms(3,4)
      by (simp add: new_jsonl_storage_def)
    have "(r, fs') = bindF (file_io (fs_fileInfo path) (js ''Failed to read session metadata '' @ path)) (\<lambda>info.
        pureF (Inr \<lparr>jmeta = metadataFromHeader h path (fi_mtimeMs info), jstate = s\<rparr>)) fs1"
      using assms(5) rc Inr header_line(3,4) [OF assms(2), of po]
      by (simp add: jsonl_load_def bindF_run(1) [where m = "file_io _ _"] lines last Let_def replay del: load_lines.simps)
    then show ?thesis using ri keep1 keep2 by (cases ri) (auto simp: bindF_def pureF_def)
  qed
qed
lemma commit_all_healthy:
  "healthy fs \<Longrightarrow> durable pn po st fs \<Longrightarrow> list_all (storable pn) ms \<Longrightarrow> foldR applyMutation (jstate st) ms = Inr s \<Longrightarrow>
   \<exists>fs'. commit_all pn po st ms fs = (Inr (st\<lparr>jstate := s\<rparr>), fs') \<and> healthy fs' \<and> durable pn po (st\<lparr>jstate := s\<rparr>) fs'
     \<and> (\<forall>q. q \<noteq> jm_path (jmeta st) \<longrightarrow> map_of (fs_nodes fs') q = map_of (fs_nodes fs) q)"
  for st :: jsonl_storage
proof (induction ms arbitrary: st fs)
  case Nil
  then show ?case by (auto simp: pureF_def)
next
  case (Cons m ms)
  then obtain t where t: "applyMutation (jstate st) m = Inr t" "foldR applyMutation t ms = Inr s" by (auto split: sum.splits)
  obtain fs1 where fs1: "jsonl_commit pn po st m fs = (Inr (st\<lparr>jstate := t\<rparr>), fs1)" "healthy fs1" "durable pn po (st\<lparr>jstate := t\<rparr>) fs1"
      "\<forall>q. q \<noteq> jm_path (jmeta st) \<longrightarrow> map_of (fs_nodes fs1) q = map_of (fs_nodes fs) q"
    using commit_durable [OF Cons.prems(1,2) _ t(1)] Cons.prems(3) by auto
  then show ?case using Cons.IH [OF fs1(2,3)] Cons.prems(3) t(2) by (auto simp: bindF_def)
qed

theorem fork_healthy:
  assumes "healthy fs" "createForkMutations (jstate st) options = Inr ms" "foldR applyMutation init_state ms = Inr s"
    and "storable_header pn h" "list_all (storable pn) ms" "\<not> is_directory path fs" "\<not> is_directory (temp_path path) fs"
  shows "\<exists>st' fs'. jsonl_fork pn po st path h options fs = (Inr st', fs') \<and> jstate st' = s"
proof -
  let ?populate = "\<lambda>tempPath. bindF (jsonl_create pn po tempPath h) (\<lambda>target. bindF (commit_all pn po target ms) (\<lambda>_. pureF (Inr ())))"
  obtain st0 fs0 where c: "jsonl_create pn po (temp_path path) h fs = (Inr st0, fs0)" "healthy fs0" "durable pn po st0 fs0"
      "jstate st0 = init_state" "jm_path (jmeta st0) = temp_path path" "\<forall>q. q \<noteq> temp_path path \<longrightarrow> map_of (fs_nodes fs0) q = map_of (fs_nodes fs) q"
    using create_durable [OF assms(1,4,7)] by blast
  obtain fs1 where a: "commit_all pn po st0 ms fs0 = (Inr (st0\<lparr>jstate := s\<rparr>), fs1)" "healthy fs1" "durable pn po (st0\<lparr>jstate := s\<rparr>) fs1"
      "\<forall>q. q \<noteq> temp_path path \<longrightarrow> map_of (fs_nodes fs1) q = map_of (fs_nodes fs0) q"
    using commit_all_healthy [OF c(2,3) assms(5)] assms(3) c(4,5) by auto
  have p: "?populate (temp_path path) fs = (Inr (), fs1)" using c(1) a(1) by (simp add: bindF_def pureF_def)
  have held: "text_at fs1 (temp_path path) = Some (session_text pn po h ms)"
    using fork_populate [OF p assms(4,5)] by simp
  have "\<not> is_directory path fs1" using assms(6) a(4) c(6) by (simp add: is_directory_def)
  then obtain fs2 where fs2: "publishFileAtomically path ?populate fs = (Inr (), fs2)" "healthy fs2" "text_at fs2 path = Some (session_text pn po h ms)"
    using publish_healthy [of ?populate path fs fs1, OF p a(2) held] by auto
  obtain mt where node: "map_of (fs_nodes fs2) path = Some (FileNode (session_text pn po h ms) mt)" using fs2(3) by (auto simp: text_at_node)
  have "jsonl_load path fs2 = (Inr \<lparr>jmeta = metadataFromHeader h path mt, jstate = s\<rparr>, fs2)"
    by (rule load_session [OF fs2(2) node assms(4,5,3)])
  then show ?thesis using fs2(1) assms(2) by (simp add: jsonl_fork_def, simp add: bindF_def)
qed

lemma fork_load:
  assumes "jsonl_fork pn po st path h options fs = (r, fs')" "createForkMutations (jstate st) options = Inr ms"
  obtains e where "r = Inl e" "publishFileAtomically path (\<lambda>tempPath. bindF (jsonl_create pn po tempPath h) (\<lambda>target. bindF (commit_all pn po target ms) (\<lambda>_. pureF (Inr ())))) fs = (Inl e, fs')"
    | fs1 where "publishFileAtomically path (\<lambda>tempPath. bindF (jsonl_create pn po tempPath h) (\<lambda>target. bindF (commit_all pn po target ms) (\<lambda>_. pureF (Inr ())))) fs = (Inr (), fs1)"
        "jsonl_load path fs1 = (r, fs')"
proof -
  let ?p = "publishFileAtomically path (\<lambda>tempPath. bindF (jsonl_create pn po tempPath h) (\<lambda>target. bindF (commit_all pn po target ms) (\<lambda>_. pureF (Inr ()))))"
  obtain rp fs1 where rp: "?p fs = (rp, fs1)" by (cases "?p fs") auto
  have run: "bindF ?p (\<lambda>_. jsonl_load path) fs = (r, fs')" using assms by (simp add: jsonl_fork_def)
  show thesis using that(1) that(2) [of fs1] rp run by (cases rp) (auto simp: bindF_def)
qed

lemma enqueue_keeps_meta:
  assumes "enqueue_step pn po (st, fs) op = (r, st', fs')" shows "jmeta st' = jmeta st"
proof (cases "jsonl_step pn po st op fs")
  case (Pair r1 fs1)
  have "jmeta st1 = jmeta st" if "r1 = Inr st1" for st1
    using Pair that by (auto simp: jsonl_step_prepare bindF_Inr pureF_Inr dest: commit_keeps_meta)
  then show ?thesis using assms Pair by (cases r1) (auto simp: enqueue_step_def)
qed

lemma queue_keeps_meta: "queue_run (enqueue_step pn po) (st, fs) ops = (rs, st', fs') \<Longrightarrow> jmeta st' = jmeta st"
proof (induction ops arbitrary: st fs rs)
  case (Cons op ops)
  obtain r st1 fs1 where s: "enqueue_step pn po (st, fs) op = (r, st1, fs1)" by (metis prod_cases3)
  then show ?case using Cons enqueue_keeps_meta [OF s] by (auto split: prod.splits)
qed simp

section \<open>Properties of the file storage\<close>

fun storable_run ::
    "(js_number \<Rightarrow> string) \<Rightarrow> (string \<Rightarrow> js_string) \<Rightarrow> jsonl_storage \<times> fsys \<Rightarrow> storage_op list \<Rightarrow> bool" where
  "storable_run pn po x [] = True"
| "storable_run pn po x (op # ops) =
     (op_storable pn (jstate (fst x)) op \<and> storable_run pn po (snd (enqueue_step pn po x op)) ops)"

lemma storable_run_able: "storable_run pn po x ops = jsonl.able_run pn po x ops"
  by (induction ops arbitrary: x) simp_all

text \<open>C4: A session created on a file system without faults answers every queue of operations as the storage in memory
  does, also the operations it refuses, and has the same state afterwards. A process that loads the file then gets
  exactly that state and the metadata of the session, and changes nothing on the disk.\<close>

theorem jsonl_restart:
  assumes "healthy fs" "storable_header pn h" "\<not> is_directory path fs"
  shows "\<exists>st0 fs0. jsonl_create pn po path h fs = (Inr st0, fs0)
    \<and> (\<forall>ops rs st fs'. storable_run pn po (st0, fs0) ops \<longrightarrow> queue_run (enqueue_step pn po) (st0, fs0) ops = (rs, st, fs') \<longrightarrow>
        rs = fst (queue_run memory_enqueue (new_storage md) ops)
      \<and> jstate st = state (snd (queue_run memory_enqueue (new_storage md) ops))
      \<and> (\<exists>mt. jsonl_load path fs' = (Inr (st\<lparr>jmeta := (jmeta st)\<lparr>jm_modifiedAt := mt\<rparr>\<rparr>), fs') \<and> jmeta st = jmeta st0))"
proof -
  obtain st0 fs0 where c: "jsonl_create pn po path h fs = (Inr st0, fs0)" "healthy fs0" "durable pn po st0 fs0"
      "jstate st0 = init_state" "jm_path (jmeta st0) = path"
    using create_durable [OF assms] by blast
  then have k: "kept pn po (st0, fs0) (new_storage md)" by (simp add: kept_def new_storage_def)
  have "rs = fst (queue_run memory_enqueue (new_storage md) ops)
      \<and> jstate st = state (snd (queue_run memory_enqueue (new_storage md) ops))
      \<and> (\<exists>mt. jsonl_load path fs' = (Inr (st\<lparr>jmeta := (jmeta st)\<lparr>jm_modifiedAt := mt\<rparr>\<rparr>), fs') \<and> jmeta st = jmeta st0)"
    if "storable_run pn po (st0, fs0) ops" "queue_run (enqueue_step pn po) (st0, fs0) ops = (rs, st, fs')" for ops rs st fs'
  proof -
    have m: "rs = fst (queue_run memory_enqueue (new_storage md) ops)" "kept pn po (st, fs') (snd (queue_run memory_enqueue (new_storage md) ops))"
      using jsonl.queue_match [OF k, of ops] that by (auto simp: storable_run_able)
    moreover have "jmeta st = jmeta st0" by (rule queue_keeps_meta [OF that(2)])
    ultimately show ?thesis using load_durable [of fs' pn po st] c(5) by (auto simp: kept_def)
  qed
  with c(1) show ?thesis by blast
qed
lemma enqueue_fault:
  fixes fs :: fsys
  assumes "prepare (jstate st) op = Inr m" "storable pn m" "durable pn po st fs"
  shows "\<exists>x. enqueue_step pn po (st, fs\<lparr>fs_faults := Fault e p # fl\<rparr>) op = (Some x, st, add_text (jm_path (jmeta st)) p (fs\<lparr>fs_faults := fl\<rparr>))"
proof -
  have "\<not> is_directory (jm_path (jmeta st)) fs" using assms(3) text_at_not_directory by (auto simp: durable_def)
  then have "\<exists>x. jsonl_commit pn po st m (fs\<lparr>fs_faults := Fault e p # fl\<rparr>) = (Inl x, add_text (jm_path (jmeta st)) p (fs\<lparr>fs_faults := fl\<rparr>))"
    by (simp add: jsonl_commit_def jsonl_appendMutation_def line_io_def mutation_line(1) [OF assms(2)] bindF_def file_io_def fileResult_def append_fault)
  then show ?thesis by (auto simp: enqueue_step_def jsonl_step_prepare assms(1))
qed

definition demo_header :: jsonl_header where
  "demo_header = \<lparr>hd_id = js ''s1'', hd_createdAt = 7, hd_cwd = js ''/w'', hd_parentSessionId = None,
     hd_legacyParentSessionPath = None, hd_metadata = None\<rparr>"

definition demo_disk :: fsys where
  "demo_disk = \<lparr>fs_nodes = [], fs_faults = [], fs_clock = 9, fs_reason = []\<rparr>"

definition no_print :: "js_number \<Rightarrow> string" where
  "no_print x = ''''"

lemma demo_header_storable: "storable_header no_print demo_header"
  by code_simp

lemma demo_disk_simps [simp]: "healthy demo_disk" "\<not> is_directory path demo_disk" "text_at demo_disk path = None"
  by (simp_all add: demo_disk_def healthy_def is_directory_def text_at_def)

lemma demo_name_storable: "storable no_print (MutName 1 (Some ''a''))" "storable no_print (MutName 1 (Some ''b''))"
  by code_simp+

theorem jsonl_restart_witness:
  "\<exists>st0 fs0 st fs'. jsonl_create no_print (\<lambda>_. []) (js ''/s'') demo_header demo_disk = (Inr st0, fs0)
    \<and> snd (queue_run (enqueue_step no_print (\<lambda>_. [])) (st0, fs0) [OpMoveLane ''x'' None, OpSetName (Some ''a'')]) = (st, fs')
    \<and> sessionName (jstate st) = Some ''a''
    \<and> (\<exists>mt. jsonl_load (js ''/s'') fs' = (Inr (st\<lparr>jmeta := (jmeta st)\<lparr>jm_modifiedAt := mt\<rparr>\<rparr>), fs'))"
proof -
  let ?ops = "[OpMoveLane ''x'' None, OpSetName (Some ''a'')]" let ?po = "\<lambda>_. [] :: js_string"
  let ?md = "\<lparr>meta_id = ''s1'', createdAt = 7, parentSessionId = None\<rparr>"
  from jsonl_restart [where fs = demo_disk and pn = no_print and h = demo_header and path = "js ''/s''" and po = ?po and md = ?md,
      OF demo_disk_simps(1) demo_header_storable demo_disk_simps(2)]
  obtain st0 fs0 where c: "jsonl_create no_print ?po (js ''/s'') demo_header demo_disk = (Inr st0, fs0)"
    and all: "\<forall>ops rs st fs'. storable_run no_print ?po (st0, fs0) ops \<longrightarrow> queue_run (enqueue_step no_print ?po) (st0, fs0) ops = (rs, st, fs') \<longrightarrow>
        rs = fst (queue_run memory_enqueue (new_storage ?md) ops)
      \<and> jstate st = state (snd (queue_run memory_enqueue (new_storage ?md) ops))
      \<and> (\<exists>mt. jsonl_load (js ''/s'') fs' = (Inr (st\<lparr>jmeta := (jmeta st)\<lparr>jm_modifiedAt := mt\<rparr>\<rparr>), fs') \<and> jmeta st = jmeta st0)"
    by blast
  have s0: "jstate st0 = init_state" using create_success [OF c demo_header_storable] by simp
  have refused: "prepare (jstate st0) (OpMoveLane ''x'' None) = Inl (SessionError Invalid_lane ''Lane not found: x'')"
    by (simp add: s0 init_state_def requireLane_def)
  have "storable_run no_print ?po (st0, fs0) ?ops"
    using demo_name_storable by (simp add: enqueue_refused(1) [OF refused] op_storable_def s0 init_state_def nextSequence_def requireLane_def)
  moreover obtain rs st fs' where run: "queue_run (enqueue_step no_print ?po) (st0, fs0) ?ops = (rs, st, fs')" by (metis prod_cases3)
  ultimately have "jstate st = state (snd (queue_run memory_enqueue (new_storage ?md) ?ops))"
    "\<exists>mt. jsonl_load (js ''/s'') fs' = (Inr (st\<lparr>jmeta := (jmeta st)\<lparr>jm_modifiedAt := mt\<rparr>\<rparr>), fs')"
    using all by blast+
  moreover have "sessionName (state (snd (queue_run memory_enqueue (new_storage ?md) ?ops))) = Some ''a''"
    by (simp add: memory_enqueue_def storage_step_prepare requireLane_def new_storage_def init_state_def commit_def applyMutation_def
        apply_name_def nextSequence_def)
  ultimately show ?thesis using c run by (metis snd_conv)
qed

text \<open>C3: When the append of an operation is interrupted, wherever in the line and also inside a character, the
  operation fails and leaves the session as it was, and a process that loads the file afterwards succeeds: with the
  state before the operation when the line is incomplete, with the state after it when all of the line or all but its
  line feed is there. The file is then repaired and holds exactly that state; other files are as they were.\<close>

theorem jsonl_crash_recovery:
  assumes "durable pn po st fs" "prepare (jstate st) op = Inr m" "storable pn m"
    and "broken_write (mutation_line pn po m) p" "\<not> is_directory (temp_path (jm_path (jmeta st))) fs"
    and "enqueue_step pn po (st, fs\<lparr>fs_faults := [Fault e p]\<rparr>) op = (r, st', fs')"
  shows "r \<noteq> None \<and> st' = st
    \<and> (\<exists>st2 fs2. jsonl_load (jm_path (jmeta st)) fs' = (Inr st2, fs2) \<and> durable pn po st2 fs2
        \<and> (if torn_piece (mutation_line pn po m) p then jstate st2 = jstate st else applyMutation (jstate st) m = Inr (jstate st2))
        \<and> (\<forall>q. q \<noteq> jm_path (jmeta st) \<longrightarrow> q \<noteq> temp_path (jm_path (jmeta st)) \<longrightarrow> text_at fs2 q = text_at fs q))"
proof -
  define path where "path = jm_path (jmeta st)"
  obtain h ms mt where d: "storable_header pn h" "list_all (storable pn) ms" "foldR applyMutation init_state ms = Inr (jstate st)"
      "text_at fs path = Some (session_text pn po h ms)"
    using assms(1) by (auto simp: durable_def path_def)
  obtain s where s: "applyMutation (jstate st) m = Inr s" using prepare_accepted [OF durable_wf [OF assms(1)] assms(2)] by blast
  have fs': "fs' = add_text path p (fs\<lparr>fs_faults := []\<rparr>)" and r: "r \<noteq> None" "st' = st"
    using assms(6) enqueue_fault [OF assms(2,3,1), where e = e and p = p and fl = "[]"] by (auto simp: path_def)
  have held: "text_at fs' path = Some (session_text pn po h ms @ p)" and other: "q \<noteq> path \<Longrightarrow> text_at fs' q = text_at fs q" for q
    using d(4) by (simp_all add: fs' text_at_add)
  have "healthy fs'" unfolding fs' add_text_healthy by (simp add: healthy_def)
  moreover have "\<not> is_directory (temp_path path) fs'"
    using assms(5) by (simp add: fs' is_directory_def add_text_def put_text_simps path_def)
  moreover have "list_all (storable pn) (ms @ [m])" using d(2) assms(3) by simp
  ultimately obtain st2 fs2 where "jsonl_load path fs' = (Inr st2, fs2)" "durable pn po st2 fs2"
      "jstate st2 = (if torn_piece (mutation_line pn po m) p then jstate st else s)"
      "\<forall>q. q \<noteq> path \<longrightarrow> q \<noteq> temp_path path \<longrightarrow> text_at fs2 q = text_at fs' q"
    using load_after_crash [OF _ d(1) _ d(3) s held assms(4)] by blast
  then show ?thesis unfolding path_def [symmetric] using r s other by auto
qed

lemma brace_line:
  assumes "storable pn m" shows "json_parse (0x7B # mutation_line pn po m) = None"
proof -
  obtain t where "mutation_line pn po m = 0x7B # t" using mutation_line(3,6) [OF assms, of po] by (metis list.collapse)
  moreover have "parse_members (0x7B # t) = None" by (simp add: parse_members.simps [of "_ # _"] json_space_def)
  ultimately show ?thesis by (simp add: json_parse_def parse_value.simps [of "_ # _"] skip_space_def json_space_def)
qed

lemma torn_brace:
  assumes "storable pn m" shows "torn_piece (mutation_line pn po m) [0x7B]"
proof -
  have "parseMutation [0x7B] = Inl (JsonlDecodeError Syntax (js ''is not valid JSON''))" by code_simp
  then have "mutation_line pn po m \<noteq> [0x7B]" using mutation_line(4) [OF assms, of po] by auto
  then show ?thesis using mutation_line(3,6) [OF assms, of po] unfolding torn_piece_def
    by (intro conjI exI [of _ "[0x7B]"] exI [of _ "tl (mutation_line pn po m)"]) (auto simp: neq_Nil_conv)
qed

lemma demo_created:
  obtains st fs where "durable no_print (\<lambda>_. []) st fs" "healthy fs" "jstate st = init_state" "jm_path (jmeta st) = js ''/s''"
    "\<And>q. q \<noteq> js ''/s'' \<Longrightarrow> map_of (fs_nodes fs) q = None"
  using create_durable [OF demo_disk_simps(1) demo_header_storable demo_disk_simps(2), of "\<lambda>_. []" "js ''/s''"]
  by (auto simp: demo_disk_def)

lemma demo_temp: "\<not> is_directory (temp_path (js ''/s'')) fs" if "\<And>q. q \<noteq> js ''/s'' \<Longrightarrow> map_of (fs_nodes fs) q = None"
  using that [of "temp_path (js ''/s'')"] by (simp add: is_directory_def)

theorem jsonl_crash_recovery_witness:
  "\<exists>st fs r fs' st2 fs2. enqueue_step no_print (\<lambda>_. []) (st, fs\<lparr>fs_faults := [Fault (FileError Fe_unknown []) [0x7B]]\<rparr>) (OpSetName (Some ''a''))
      = (Some r, st, fs')
    \<and> jsonl_load (js ''/s'') fs' = (Inr st2, fs2) \<and> sessionName (jstate st2) = None"
proof -
  let ?po = "\<lambda>_. [] :: js_string" let ?m = "MutName 1 (Some ''a'')"
  obtain st fs where d: "durable no_print ?po st fs" "jstate st = init_state" "jm_path (jmeta st) = js ''/s''"
      "\<And>q. q \<noteq> js ''/s'' \<Longrightarrow> map_of (fs_nodes fs) q = None"
    by (rule demo_created) blast
  have prep: "prepare (jstate st) (OpSetName (Some ''a'')) = Inr ?m" by (simp add: d(2) init_state_def nextSequence_def)
  have torn: "torn_piece (mutation_line no_print ?po ?m) [0x7B]" by (rule torn_brace [OF demo_name_storable(1)])
  then have broken: "broken_write (mutation_line no_print ?po ?m) [0x7B]" by (simp add: broken_write_def)
  obtain r st' fs' where run: "enqueue_step no_print ?po (st, fs\<lparr>fs_faults := [Fault (FileError Fe_unknown []) [0x7B]]\<rparr>) (OpSetName (Some ''a'')) = (r, st', fs')"
    by (metis prod_cases3)
  have "\<not> is_directory (temp_path (jm_path (jmeta st))) fs" unfolding d(3) by (rule demo_temp [OF d(4)])
  from jsonl_crash_recovery [OF d(1) prep demo_name_storable(1) broken this run] torn
  obtain r' st2 fs2 where "r = Some r'" "st' = st" "jsonl_load (js ''/s'') fs' = (Inr st2, fs2)" "jstate st2 = jstate st" unfolding d(3) by auto
  then show ?thesis using run d(2) by (intro exI [of _ st] exI [of _ fs]) (auto simp: init_state_def)
qed

text \<open>C6: A fork is published as a whole or not at all, whatever faults the disk has: the destination keeps its text
  or holds the complete text of the fork, and a fork that returns a session has published it and replays it. On a disk
  without faults the fork returns its session.\<close>

theorem jsonl_fork_atomic:
  assumes "createForkMutations (jstate st) options = Inr ms" "foldR applyMutation init_state ms = Inr s"
    and "storable_header pn h" "list_all (storable pn) ms" "jsonl_fork pn po st path h options fs = (r, fs')"
  shows "(text_at fs' path = text_at fs path \<or> text_at fs' path = Some (session_text pn po h ms))
    \<and> (\<forall>st'. r = Inr st' \<longrightarrow> text_at fs' path = Some (session_text pn po h ms) \<and> jstate st' = s)
    \<and> (healthy fs \<and> \<not> is_directory path fs \<and> \<not> is_directory (temp_path path) fs \<longrightarrow> (\<exists>st'. r = Inr st'))"
proof -
  let ?populate = "\<lambda>tempPath. bindF (jsonl_create pn po tempPath h) (\<lambda>target. bindF (commit_all pn po target ms) (\<lambda>_. pureF (Inr ())))"
  have leaves: "leaves (?populate (temp_path path)) path" by (rule fork_populate_leaves) simp
  have "\<exists>st'. r = Inr st'" if "healthy fs" "\<not> is_directory path fs" "\<not> is_directory (temp_path path) fs"
    using fork_healthy [OF that(1) assms(1-4) that(2,3), of po] assms(5) by auto
  moreover have "(text_at fs' path = text_at fs path \<or> text_at fs' path = Some (session_text pn po h ms))
      \<and> (\<forall>st'. r = Inr st' \<longrightarrow> text_at fs' path = Some (session_text pn po h ms) \<and> jstate st' = s)"
    using assms(5,1)
  proof (cases rule: fork_load)
    case (1 e)
    then show ?thesis using publish_atomic [of ?populate path fs "Inl e" fs'] leaves by simp
  next
    case (2 fs1)
    obtain fs0 t where p: "?populate (temp_path path) fs = (Inr (), fs0)" "text_at fs0 (temp_path path) = Some t" "text_at fs1 path = Some t"
      using publish_atomic [of ?populate path fs "Inr ()" fs1] leaves 2(1) by auto
    then have "text_at fs1 path = Some (session_text pn po h ms)" using fork_populate [OF p(1) assms(3,4)] by simp
    from load_complete [OF this assms(3,4,2) 2(2)] this show ?thesis by auto
  qed
  ultimately show ?thesis by blast
qed

theorem jsonl_fork_atomic_witness:
  "\<exists>st fs'. jsonl_fork no_print (\<lambda>_. []) \<lparr>jmeta = metadataFromHeader demo_header (js ''/a'') 0, jstate = init_state\<rparr> (js ''/s'') demo_header ForkTree demo_disk
      = (Inr st, fs')
    \<and> lanes (jstate st) = [(''main'', None)]"
proof -
  let ?st = "\<lparr>jmeta = metadataFromHeader demo_header (js ''/a'') 0, jstate = init_state\<rparr>"
  obtain ms s where ms: "createForkMutations (jstate ?st) ForkTree = Inr ms" "foldR applyMutation init_state ms = Inr s" "lanes s = lanes init_state"
    using fork_tree_copy [OF wf_init] by auto
  have "createForkMutations init_state ForkTree = Inr [MutLane 1 ''main'' None]" by code_simp
  then have "ms = [MutLane 1 ''main'' None]" using ms(1) by simp
  then have "list_all (storable no_print) ms" by simp code_simp
  moreover obtain r fs' where run: "jsonl_fork no_print (\<lambda>_. []) ?st (js ''/s'') demo_header ForkTree demo_disk = (r, fs')" by (metis surj_pair)
  ultimately have "(\<forall>st'. r = Inr st' \<longrightarrow> jstate st' = s)" "\<exists>st'. r = Inr st'"
    using jsonl_fork_atomic [OF ms(1,2) demo_header_storable _ run] by auto
  then show ?thesis using run ms(3) by (auto simp: init_state_def)
qed

text \<open>C5: An append that fails after its first character leaves a brace behind, and the next append goes on the same
  line. That operation is acknowledged and applied to the session, and it is lost when the file is loaded again.\<close>

theorem append_after_torn_append_lost:
  assumes "durable pn po st fs" "prepare (jstate st) op1 = Inr m1" "storable pn m1" "prepare (jstate st) op2 = Inr m2" "storable pn m2"
    and "\<not> is_directory (temp_path (jm_path (jmeta st))) fs"
  shows "\<exists>x st' fs' st2 fs2. queue_run (enqueue_step pn po) (st, fs\<lparr>fs_faults := [Fault e [0x7B]]\<rparr>) [op1, op2] = ([Some x, None], st', fs')
    \<and> applyMutation (jstate st) m2 = Inr (jstate st')
    \<and> jsonl_load (jm_path (jmeta st)) fs' = (Inr st2, fs2) \<and> jstate st2 = jstate st"
proof -
  define path where "path = jm_path (jmeta st)"
  obtain h ms mt where d: "storable_header pn h" "list_all (storable pn) ms" "foldR applyMutation init_state ms = Inr (jstate st)"
      "text_at fs path = Some (session_text pn po h ms)"
    using assms(1) by (auto simp: durable_def path_def)
  obtain s where s: "applyMutation (jstate st) m2 = Inr s" using prepare_accepted [OF durable_wf [OF assms(1)] assms(4)] by blast
  define fs1 where "fs1 = add_text path [0x7B] (fs\<lparr>fs_faults := []\<rparr>)"
  define line where "line = mutation_line pn po m2"
  note l = mutation_line [OF assms(5), of po, folded line_def]
  obtain x where x: "enqueue_step pn po (st, fs\<lparr>fs_faults := [Fault e [0x7B]]\<rparr>) op1 = (Some x, st, fs1)"
    using enqueue_fault [OF assms(2,3,1), where e = e and p = "[0x7B]" and fl = "[]"] by (auto simp: fs1_def path_def)
  have h1: "healthy fs1" unfolding fs1_def add_text_healthy by (simp add: healthy_def)
  have t1: "text_at fs1 path = Some (session_text pn po h ms @ [0x7B])" using d(4) by (simp add: fs1_def text_at_add)
  define fs2 where "fs2 = add_text path (line @ [LF]) fs1"
  have "jsonl_commit pn po st m2 fs1 = (Inr (st\<lparr>jstate := s\<rparr>), fs2)"
    using append_healthy [OF h1 t1, of "line @ [LF]"] s l(1)
    by (simp add: jsonl_commit_def jsonl_appendMutation_def line_io_def bindF_def file_io_simps(1) jsonl_applyMutation_def pureF_def fs2_def flip: path_def)
  then have step2: "enqueue_step pn po (st, fs1) op2 = (None, st\<lparr>jstate := s\<rparr>, fs2)" by (simp add: enqueue_step_def jsonl_step_prepare assms(4))
  obtain mt' where node: "map_of (fs_nodes fs2) path = Some (FileNode (session_text pn po h ms @ 0x7B # line @ [LF]) mt')"
    using text_at_node [of fs2 path] t1 by (auto simp: fs2_def text_at_add)
  have h2: "healthy fs2" using h1 by (simp add: fs2_def add_text_healthy)
  have garbage: "parseMutation (0x7B # line) = Inl (JsonlDecodeError Syntax (js ''is not valid JSON''))"
    using brace_line [OF assms(5), of po] by (simp add: parseMutation_def decodeMutation_def parseObject_def line_def)
  have lines: "physical_lines (session_text pn po h ms @ 0x7B # line @ [LF]) = header_line pn po h # map (mutation_line pn po) ms @ [0x7B # line]"
    using session_text_piece(2) [OF d(1,2), of "0x7B # line" po] l(2) by (simp add: LF_def)
  have "\<not> is_directory (temp_path path) fs2" using assms(6) by (simp add: fs2_def fs1_def is_directory_def add_text_def put_text_simps path_def)
  then obtain st2 fs3 where "jsonl_load path fs2 = (Inr st2, fs3)" "jstate st2 = jstate st"
    using load_torn [OF h2 node lines d(1-3) garbage] by auto
  then show ?thesis using x step2 s by (auto simp: path_def)
qed
theorem append_after_torn_append_lost_witness:
  "\<exists>st fs x st' fs' st2 fs2.
     queue_run (enqueue_step no_print (\<lambda>_. [])) (st, fs\<lparr>fs_faults := [Fault (FileError Fe_unknown []) [0x7B]]\<rparr>)
       [OpSetName (Some ''a''), OpSetName (Some ''b'')] = ([Some x, None], st', fs')
    \<and> sessionName (jstate st') = Some ''b'' \<and> jsonl_load (js ''/s'') fs' = (Inr st2, fs2) \<and> sessionName (jstate st2) = None"
proof -
  let ?po = "\<lambda>_. [] :: js_string"
  obtain st fs where d: "durable no_print ?po st fs" "jstate st = init_state" "jm_path (jmeta st) = js ''/s''"
      "\<And>q. q \<noteq> js ''/s'' \<Longrightarrow> map_of (fs_nodes fs) q = None"
    by (rule demo_created) blast
  have prep: "prepare (jstate st) (OpSetName nm) = Inr (MutName 1 nm)" for nm by (simp add: d(2) init_state_def nextSequence_def)
  have "\<not> is_directory (temp_path (jm_path (jmeta st))) fs" unfolding d(3) by (rule demo_temp [OF d(4)])
  from append_after_torn_append_lost [OF d(1) prep demo_name_storable(1) prep demo_name_storable(2) this, where e = "FileError Fe_unknown []"]
  obtain x st' fs' st2 fs2 where
      "queue_run (enqueue_step no_print ?po) (st, fs\<lparr>fs_faults := [Fault (FileError Fe_unknown []) [0x7B]]\<rparr>)
         [OpSetName (Some ''a''), OpSetName (Some ''b'')] = ([Some x, None], st', fs')"
      "applyMutation (jstate st) (MutName 1 (Some ''b'')) = Inr (jstate st')"
      "jsonl_load (js ''/s'') fs' = (Inr st2, fs2)" "jstate st2 = jstate st"
    unfolding d(3) by blast
  moreover have "sessionName t = Some ''b''" if "applyMutation (jstate st) (MutName 1 (Some ''b'')) = Inr t" for t
    using that by (cases rule: applyMutation_elim) auto
  ultimately show ?thesis using d(2) by (intro exI [of _ st] exI [of _ fs]) (auto simp: init_state_def)
qed

end
