(* ===== verification/Jsonl_Repo.thy ===== *)
theory Jsonl_Repo
  imports Jsonl_Storage Session_Api
begin

text \<open>
  The repository of session files, \<open>session/jsonl/repo.ts\<close>: session ids and directory names, listing, opening,
  creating and forking. The resolution of a path to an absolute one is an argument (\<open>ro_absolute\<close>), so are the clock
  and the id generator; paths are joined as \<open>node:path\<close> joins them. A create claims its destination before its first
  file operation and releases it when it has settled.
\<close>

section \<open>More calls of the file system\<close>

definition fs_resolve :: "js_string \<Rightarrow> js_string fs_action" where
  "fs_resolve absolute = fs_call (\<lambda>_ fs. fs) (\<lambda>fs. (Inr absolute, fs))"

definition fs_joinPath :: "js_string list \<Rightarrow> js_string fs_action" where
  "fs_joinPath parts = fs_call (\<lambda>_ fs. fs) (\<lambda>fs. (Inr (join_path parts), fs))"

definition fs_listDir :: "js_string \<Rightarrow> file_info list fs_action" where
  "fs_listDir path = fs_call (\<lambda>_ fs. fs) (\<lambda>fs.
     (case map_of (fs_nodes fs) path of
        None \<Rightarrow> (Inl (FileError Fe_not_found (fs_reason fs)), fs)
      | Some (FileNode _ _) \<Rightarrow> (Inl (FileError Fe_not_directory (fs_reason fs)), fs)
      | Some (DirNode _) \<Rightarrow>
          (Inr (map (\<lambda>(p, n). info_of p n) (filter (\<lambda>(p, _). p \<noteq> path \<and> dirname p = path) (fs_nodes fs))), fs)))"

text \<open>\<open>createDir\<close> with \<open>recursive\<close> makes the directories on the way to the path that are missing.\<close>

definition path_prefixes :: "js_string \<Rightarrow> js_string list" where
  "path_prefixes path = map (\<lambda>k. abs_path (take k (walk [] path))) [1 ..< Suc (length (walk [] path))]"

definition make_dir :: "fsys \<Rightarrow> js_string \<Rightarrow> fsys" where
  "make_dir fs p = (if map_has (fs_nodes fs) p then fs else fs\<lparr>fs_nodes := fs_nodes fs @ [(p, DirNode (fs_clock fs))]\<rparr>)"

definition fs_createDir :: "js_string \<Rightarrow> unit fs_action" where
  "fs_createDir path = fs_call (\<lambda>_ fs. fs) (\<lambda>fs.
     if \<exists>p \<in> set (path_prefixes path). map_has (fs_nodes fs) p \<and> \<not> is_directory p fs
     then (Inl (FileError Fe_not_directory (fs_reason fs)), fs)
     else (Inr (), foldl make_dir fs (path_prefixes path)))"

text \<open>\<open>readTextLines\<close> with \<open>maxLines: 1\<close>; a line ends where \<open>node:readline\<close> ends one.\<close>

definition first_lines :: "js_string \<Rightarrow> js_string list" where
  "first_lines t = (if t = [] then [] else [takeWhile (\<lambda>c. \<not> line_terminator c) t])"

definition fs_readFirstLine :: "js_string \<Rightarrow> js_string list fs_action" where
  "fs_readFirstLine path fs =
     (case fs_readTextFile path fs of (Inl e, fs') \<Rightarrow> (Inl e, fs') | (Inr t, fs') \<Rightarrow> (Inr (first_lines t), fs'))"

section \<open>Names\<close>

definition alphanumeric :: "16 word \<Rightarrow> bool" where
  "alphanumeric c = (65 \<le> uint c \<and> uint c \<le> 90 \<or> 97 \<le> uint c \<and> uint c \<le> 122 \<or> 48 \<le> uint c \<and> uint c \<le> 57)"

definition session_id_pattern :: "js_string \<Rightarrow> bool" where
  "session_id_pattern s =
     (s \<noteq> [] \<and> alphanumeric (hd s) \<and> alphanumeric (last s)
      \<and> list_all (\<lambda>c. alphanumeric c \<or> c \<in> set (js ''._-'')) s)"

definition validateSessionId :: "js_string \<Rightarrow> jsonl_failure + unit" where
  "validateSessionId i =
     guardR (session_id_pattern i) (Thrown Invalid_payload (js (''Session id must be non-empty, contain only alphanumeric characters, '' @
       [CHR 0x27, CHR ''-'', CHR 0x27] @ '', '' @ [CHR 0x27, CHR ''_'', CHR 0x27] @ '', and '' @ [CHR 0x27, CHR ''.'', CHR 0x27]
       @ '', and start and end with an alphanumeric character'')))"

definition jsonlSessionDirectoryName :: "js_string \<Rightarrow> js_string" where
  "jsonlSessionDirectoryName cwd =
     (let slash = set (js [CHR ''/'', CHR 0x5C]); rest = (if cwd \<noteq> [] \<and> hd cwd \<in> slash then tl cwd else cwd)
      in js ''--'' @ map (\<lambda>c. if c \<in> slash \<or> c = 0x3A then 0x2D else c) rest @ js ''--'')"

text \<open>\<open>Date.prototype.toISOString\<close> for times from 1970 on: the civil date of the day number and the time of the day.\<close>

definition civil_date :: "int \<Rightarrow> int \<times> int \<times> int" where
  "civil_date days =
     (let z = days + 719468; era = z div 146097; doe = z mod 146097;
          yoe = (doe - doe div 1460 + doe div 36524 - doe div 146096) div 365;
          doy = doe - (365 * yoe + yoe div 4 - yoe div 100); mp = (5 * doy + 2) div 153;
          d = doy - (153 * mp + 2) div 5 + 1; m = (if mp < 10 then mp + 3 else mp - 9)
      in (yoe + era * 400 + (if m \<le> 2 then 1 else 0), m, d))"

definition padded :: "nat \<Rightarrow> int \<Rightarrow> string" where
  "padded w n = replicate (w - length (decimal (nat n))) (CHR ''0'') @ decimal (nat n)"

definition toISOString :: "int \<Rightarrow> string" where
  "toISOString ms =
     (case civil_date (ms div 86400000) of
        (y, m, d) \<Rightarrow>
          (if y \<le> 9999 then padded 4 y else CHR ''+'' # padded 6 y) @ ''-'' @ padded 2 m @ ''-'' @ padded 2 d @ ''T''
          @ padded 2 (ms div 3600000 mod 24) @ '':'' @ padded 2 (ms div 60000 mod 60) @ '':'' @ padded 2 (ms div 1000 mod 60)
          @ ''.'' @ padded 3 (ms mod 1000) @ ''Z'')"

definition sessionFileName :: "nat \<Rightarrow> js_string \<Rightarrow> js_string" where
  "sessionFileName created i =
     js (map (\<lambda>c. if c = CHR '':'' \<or> c = CHR ''.'' then CHR ''-'' else c) (toISOString (int created))) @ js ''_'' @ i @ js ''.jsonl''"

section \<open>Directories and listing\<close>

record repo_options =
  ro_absolute :: "js_string \<Rightarrow> js_string"
  ro_sessionsRoot :: js_string

definition fs_absolutePath :: "repo_options \<Rightarrow> js_string \<Rightarrow> js_string fs_action" where
  "fs_absolutePath opts p = fs_resolve (ro_absolute opts p)"

definition jsonlSessionsRoot :: "repo_options \<Rightarrow> js_string io" where
  "jsonlSessionsRoot opts =
     file_io (fs_absolutePath opts (ro_sessionsRoot opts)) (js ''Failed to resolve sessions root '' @ ro_sessionsRoot opts)"

definition jsonlSessionDirectory :: "js_string \<Rightarrow> js_string \<Rightarrow> js_string io" where
  "jsonlSessionDirectory sessionsRoot cwd =
     file_io (fs_joinPath [sessionsRoot, jsonlSessionDirectoryName cwd]) (js ''Failed to resolve sessions directory for '' @ cwd)"

definition jsonlSessionDirectories :: "repo_options \<Rightarrow> js_string option \<Rightarrow> js_string list io" where
  "jsonlSessionDirectories opts cwd =
     bindF (jsonlSessionsRoot opts) (\<lambda>sessionsRoot.
     case cwd of
       Some c \<Rightarrow>
         bindF (file_io (fs_absolutePath opts c) (js ''Failed to resolve session cwd '' @ c)) (\<lambda>resolvedCwd.
         bindF (jsonlSessionDirectory sessionsRoot resolvedCwd) (\<lambda>directory.
         bindF (file_io (fs_exists directory) (js ''Failed to check sessions directory '' @ directory)) (\<lambda>found.
         pureF (Inr (if found then [directory] else [])))))
     | None \<Rightarrow>
         bindF (file_io (fs_exists sessionsRoot) (js ''Failed to check sessions directory '' @ sessionsRoot)) (\<lambda>found.
         if \<not> found then pureF (Inr [])
         else
           bindF (file_io (fs_listDir sessionsRoot) (js ''Failed to list sessions directory '' @ sessionsRoot)) (\<lambda>entries.
           pureF (Inr (map fi_path (filter (\<lambda>e. fi_kind e = Kind_directory \<or> fi_kind e = Kind_symlink) entries))))))"

fun forF :: "'a list \<Rightarrow> ('a \<Rightarrow> ('s, 'b list) state_io) \<Rightarrow> ('s, 'b list) state_io" where
  "forF [] f = pureF (Inr [])"
| "forF (x # xs) f = bindF (f x) (\<lambda>ys. bindF (forF xs f) (\<lambda>zs. pureF (Inr (ys @ zs))))"

definition ends_in :: "js_string \<Rightarrow> js_string \<Rightarrow> bool" where
  "ends_in s suffix = (length suffix \<le> length s \<and> drop (length s - length suffix) s = suffix)"

definition list_file :: "file_info \<Rightarrow> jsonl_metadata list io" where
  "list_file file =
     bindF (file_io (fs_readFirstLine (fi_path file)) (js ''Failed to read session header '' @ fi_path file)) (\<lambda>ls.
     pureF (Inr (case ls of
         [] \<Rightarrow> []
       | l # _ \<Rightarrow>
           if l = [] then []
           else (case parseHeader l of Inl _ \<Rightarrow> [] | Inr h \<Rightarrow> [metadataFromHeader h (fi_path file) (fi_mtimeMs file)]))))"

definition listJsonlSessionMetadata :: "repo_options \<Rightarrow> js_string option \<Rightarrow> jsonl_metadata list io" where
  "listJsonlSessionMetadata opts cwd =
     bindF (jsonlSessionDirectories opts cwd) (\<lambda>directories.
     bindF (forF directories (\<lambda>directory.
              bindF (file_io (fs_listDir directory) (js ''Failed to list sessions directory '' @ directory)) (\<lambda>entries.
              forF (filter (\<lambda>e. fi_kind e \<noteq> Kind_directory \<and> ends_in (fi_name e) (js ''.jsonl'')) entries) list_file))) (\<lambda>found.
     pureF (Inr (sort_key (\<lambda>m. - int (jm_modifiedAt m)) found))))"

definition loadJsonlSessionStorage :: "jsonl_metadata \<Rightarrow> jsonl_storage io" where
  "loadJsonlSessionStorage md =
     bindF (file_io (fs_exists (jm_path md)) (js ''Failed to check session '' @ jm_path md)) (\<lambda>found.
     if \<not> found then pureF (Inl (Thrown Not_found (js ''Session not found: '' @ jm_id md)))
     else
       bindF (jsonl_load (jm_path md)) (\<lambda>st.
       if jm_id (jsonl_getMetadata st) \<noteq> jm_id md
       then pureF (Inl (Thrown Invalid_entry (js ''Session id does not match header: '' @ jm_id md)))
       else pureF (Inr st)))"

section \<open>The repository\<close>

text \<open>The promise of the root is kept, also when it was rejected.\<close>

record jsonl_repo =
  jr_options :: repo_options
  jr_activeCreateDestinations :: "js_string list"
  jr_rootPromise :: "(jsonl_failure + js_string) option"

definition new_jsonl_repo :: "repo_options \<Rightarrow> jsonl_repo" where
  "new_jsonl_repo opts = \<lparr>jr_options = opts, jr_activeCreateDestinations = [], jr_rootPromise = None\<rparr>"

type_synonym 'a repo_io = "(jsonl_repo \<times> fsys, 'a) state_io"

definition on_disk :: "'a io \<Rightarrow> 'a repo_io" where
  "on_disk m = (\<lambda>(r, fs). case m fs of (x, fs') \<Rightarrow> (x, r, fs'))"

definition repo_rootPath :: "js_string repo_io" where
  "repo_rootPath = (\<lambda>(r, fs).
     case jr_rootPromise r of
       Some x \<Rightarrow> (x, r, fs)
     | None \<Rightarrow> (case jsonlSessionsRoot (jr_options r) fs of (x, fs') \<Rightarrow> (x, r\<lparr>jr_rootPromise := Some x\<rparr>, fs')))"

definition repo_sessionDirectory :: "js_string \<Rightarrow> js_string repo_io" where
  "repo_sessionDirectory cwd =
     bindF repo_rootPath (\<lambda>rootPath.
     on_disk (file_io (fs_joinPath [rootPath, jsonlSessionDirectoryName cwd]) (js ''Failed to resolve sessions directory for '' @ cwd)))"

definition sessionIdExists :: "js_string \<Rightarrow> js_string \<Rightarrow> bool repo_io" where
  "sessionIdExists i cwd =
     bindF (repo_sessionDirectory cwd) (\<lambda>directory.
     bindF (on_disk (file_io (fs_exists directory) (js ''Failed to check sessions directory '' @ directory))) (\<lambda>found.
     if \<not> found then pureF (Inr False)
     else
       bindF (on_disk (file_io (fs_listDir directory) (js ''Failed to list sessions directory '' @ directory))) (\<lambda>files.
       pureF (Inr (list_ex (\<lambda>e. fi_kind e \<noteq> Kind_directory \<and> ends_in (fi_name e) (js ''_'' @ i @ js ''.jsonl'')) files)))))"

record create_options =
  co_id :: "js_string option"
  co_cwd :: js_string
  co_parentSessionId :: "js_string option"
  co_metadata :: "fields option"

definition resolveCreateDestination :: "js_string \<Rightarrow> create_options \<Rightarrow> (js_string \<times> js_string) repo_io" where
  "resolveCreateDestination fresh options =
     (let i = (case co_id options of None \<Rightarrow> fresh | Some i \<Rightarrow> i)
      in bindF (pureF (validateSessionId i)) (\<lambda>_. (\<lambda>(r, fs).
         bindF (on_disk (file_io (fs_absolutePath (jr_options r) (co_cwd options)) (js ''Failed to resolve session cwd '' @ co_cwd options))) (\<lambda>cwd.
         pureF (Inr (i, cwd))) (r, fs))))"

definition destination_key :: "js_string \<times> js_string \<Rightarrow> js_string" where
  "destination_key d = snd d @ 0 # fst d"

text \<open>The check and the claim are one step; what runs under the claim releases it when it settles.\<close>

definition claim :: "js_string \<times> js_string \<Rightarrow> unit repo_io" where
  "claim destination = (\<lambda>(r, fs).
     if destination_key destination \<in> set (jr_activeCreateDestinations r)
     then (Inl (Thrown Already_exists (js ''Session already exists: '' @ fst destination)), r, fs)
     else (Inr (), r\<lparr>jr_activeCreateDestinations := destination_key destination # jr_activeCreateDestinations r\<rparr>, fs))"

definition release :: "js_string \<times> js_string \<Rightarrow> jsonl_repo \<Rightarrow> jsonl_repo" where
  "release destination r =
     r\<lparr>jr_activeCreateDestinations := removeAll (destination_key destination) (jr_activeCreateDestinations r)\<rparr>"

definition under_claim :: "js_string \<times> js_string \<Rightarrow> 'a repo_io \<Rightarrow> 'a repo_io" where
  "under_claim destination operation = (\<lambda>x. case operation x of (y, r, fs) \<Rightarrow> (y, release destination r, fs))"

definition claimCreateDestination :: "js_string \<times> js_string \<Rightarrow> 'a repo_io \<Rightarrow> 'a repo_io" where
  "claimCreateDestination destination operation = bindF (claim destination) (\<lambda>_. under_claim destination operation)"

text \<open>The preparation in two parts: the look for the id, and what follows it.\<close>

definition place_session :: "nat \<Rightarrow> js_string \<times> js_string \<Rightarrow> create_options \<Rightarrow> (jsonl_header \<times> js_string) repo_io" where
  "place_session now destination options =
     (case destination of (i, cwd) \<Rightarrow>
        bindF (repo_sessionDirectory cwd) (\<lambda>directory.
        bindF (on_disk (file_io (fs_joinPath [directory, sessionFileName now i]) (js ''Failed to resolve path for session '' @ i))) (\<lambda>path.
        bindF (pureF (case co_metadata options of None \<Rightarrow> Inr () | Some es \<Rightarrow> liftS (tree_loop [JObject False es]))) (\<lambda>_.
        let header = \<lparr>hd_id = i, hd_createdAt = now, hd_cwd = cwd, hd_parentSessionId = co_parentSessionId options,
                      hd_legacyParentSessionPath = None, hd_metadata = co_metadata options\<rparr>
        in bindF (on_disk (file_io (fs_createDir directory) (js ''Failed to create sessions directory''))) (\<lambda>_.
           pureF (Inr (header, path)))))))"

definition look_for_id :: "js_string \<times> js_string \<Rightarrow> unit repo_io" where
  "look_for_id destination =
     bindF (sessionIdExists (fst destination) (snd destination)) (\<lambda>found.
     if found then pureF (Inl (Thrown Already_exists (js ''Session already exists: '' @ fst destination))) else pureF (Inr ()))"

definition prepareCreate :: "nat \<Rightarrow> js_string \<times> js_string \<Rightarrow> create_options \<Rightarrow> (jsonl_header \<times> js_string) repo_io" where
  "prepareCreate now destination options = bindF (look_for_id destination) (\<lambda>_. place_session now destination options)"

definition jsonl_repo_create ::
    "(js_number \<Rightarrow> string) \<Rightarrow> (string \<Rightarrow> js_string) \<Rightarrow> nat \<Rightarrow> js_string \<Rightarrow> create_options \<Rightarrow> jsonl_storage repo_io" where
  "jsonl_repo_create pn po now fresh options =
     bindF (resolveCreateDestination fresh options) (\<lambda>destination.
     claimCreateDestination destination
       (bindF (prepareCreate now destination options) (\<lambda>(header, path). on_disk (jsonl_create pn po path header))))"

definition jsonl_repo_open :: "jsonl_metadata \<Rightarrow> jsonl_storage repo_io" where
  "jsonl_repo_open md = on_disk (loadJsonlSessionStorage md)"

definition jsonl_repo_list :: "js_string option \<Rightarrow> jsonl_metadata list repo_io" where
  "jsonl_repo_list cwd = (\<lambda>(r, fs). on_disk (listJsonlSessionMetadata (jr_options r) cwd) (r, fs))"

definition jsonl_repo_delete :: "jsonl_metadata \<Rightarrow> unit repo_io" where
  "jsonl_repo_delete md =
     on_disk (file_io (fs_remove (jm_path md) True) (js ''Failed to delete session '' @ jm_path md))"

definition jsonl_repo_fork ::
    "(js_number \<Rightarrow> string) \<Rightarrow> (string \<Rightarrow> js_string) \<Rightarrow> nat \<Rightarrow> js_string \<Rightarrow> jsonl_metadata \<Rightarrow> fork_options \<Rightarrow> create_options
      \<Rightarrow> jsonl_storage repo_io" where
  "jsonl_repo_fork pn po now fresh source forkOptions options =
     bindF (on_disk (loadJsonlSessionStorage source)) (\<lambda>sourceStorage.
     let createOptions = options\<lparr>co_parentSessionId :=
           (case co_parentSessionId options of None \<Rightarrow> Some (jm_id source) | Some p \<Rightarrow> Some p)\<rparr>
     in bindF (resolveCreateDestination fresh createOptions) (\<lambda>destination.
        claimCreateDestination destination
          (bindF (prepareCreate now destination createOptions) (\<lambda>(header, path).
           on_disk (jsonl_fork pn po sourceStorage path header forkOptions)))))"

section \<open>Names of directories and files\<close>

lemma directory_name_clean: "clean_name (jsonlSessionDirectoryName cwd)"
proof -
  have "c \<noteq> sep" if "c \<in> set (jsonlSessionDirectoryName cwd)" for c
    using that by (auto simp: jsonlSessionDirectoryName_def Let_def js_def split: if_splits)
  then have "sep \<notin> set (jsonlSessionDirectoryName cwd)" by blast
  moreover have "jsonlSessionDirectoryName cwd = js ''--'' @ rest \<Longrightarrow> jsonlSessionDirectoryName cwd \<noteq> dot \<and> jsonlSessionDirectoryName cwd \<noteq> dotdot
      \<and> jsonlSessionDirectoryName cwd \<noteq> []" for rest
    by (simp add: js_def)
  ultimately show ?thesis by (auto simp: clean_name_def jsonlSessionDirectoryName_def Let_def)
qed

lemma padded_digits: "c \<in> set (padded w n) \<Longrightarrow> 48 \<le> (of_char c :: nat) \<and> (of_char c :: nat) < 58"
  by (auto simp: padded_def dest: decimal_digits)

definition file_stamp :: "nat \<Rightarrow> js_string" where
  "file_stamp created = js (map (\<lambda>c. if c = CHR '':'' \<or> c = CHR ''.'' then CHR ''-'' else c) (toISOString (int created)))"

lemma file_stamp_chars: "c \<in> set (file_stamp created) \<Longrightarrow> c \<noteq> 0x5F \<and> c \<noteq> sep"
proof -
  assume "c \<in> set (file_stamp created)"
  then obtain d where d: "d \<in> set (toISOString (int created))" "c = of_nat (of_char (if d = CHR '':'' \<or> d = CHR ''.'' then CHR ''-'' else d))"
    by (auto simp: file_stamp_def js_def)
  obtain y m e where "civil_date (int created div 86400000) = (y, m, e)" by (metis prod_cases3)
  then have "d \<in> set ''-T+Z:.'' \<or> 48 \<le> (of_char d :: nat) \<and> (of_char d :: nat) < 58"
    using d(1) by (auto simp: toISOString_def split: if_splits dest!: padded_digits)
  moreover have "unat c = of_char (if d = CHR '':'' \<or> d = CHR ''.'' then CHR ''-'' else d)" unfolding d(2) by (rule unat_char)
  ultimately have "unat c \<noteq> 0x5F \<and> unat c \<noteq> 0x2F" by (auto split: if_splits)
  then show ?thesis by auto
qed

lemma sessionFileName_stamp: "sessionFileName created i = file_stamp created @ js ''_'' @ i @ js ''.jsonl''"
  by (simp add: sessionFileName_def file_stamp_def)

lemma session_id_chars: "session_id_pattern i \<Longrightarrow> c \<in> set i \<Longrightarrow> c \<noteq> sep"
  by (auto simp: session_id_pattern_def list_all_iff alphanumeric_def js_def)

lemma session_file_clean:
  assumes "session_id_pattern i" shows "clean_name (sessionFileName created i)"
proof -
  have "sep \<notin> set (sessionFileName created i)"
    using file_stamp_chars [of sep created] session_id_chars [OF assms, of sep] by (auto simp: sessionFileName_stamp js_def)
  moreover have "length (sessionFileName created i) \<noteq> 1 \<and> length (sessionFileName created i) \<noteq> 2 \<and> length (sessionFileName created i) \<noteq> 0"
    by (simp add: sessionFileName_stamp js_def)
  ultimately show ?thesis unfolding clean_name_def by auto
qed

text \<open>The id in the name of a session file: what stands between the first underscore and the extension.\<close>

definition file_id :: "js_string \<Rightarrow> js_string option" where
  "file_id name =
     (let rest = dropWhile (\<lambda>c. c \<noteq> 0x5F) name
      in if rest \<noteq> [] \<and> ends_in (tl rest) (js ''.jsonl'') then Some (take (length (tl rest) - 6) (tl rest)) else None)"

lemma ends_in_iff: "ends_in s t \<longleftrightarrow> (\<exists>u. s = u @ t)"
  unfolding ends_in_def by (metis add_diff_cancel_right' append_eq_conv_conj append_take_drop_id le_add2 length_append)

lemma file_id_name: "file_id (sessionFileName created i) = Some i"
proof -
  have "0x5F \<notin> set (file_stamp created)" using file_stamp_chars by blast
  then have "dropWhile (\<lambda>c. c \<noteq> 0x5F) (sessionFileName created i) = 0x5F # i @ js ''.jsonl''"
    using until_sep(2) [of "0x5F" "file_stamp created" "i @ js ''.jsonl''"] by (simp add: sessionFileName_stamp js_def)
  then show ?thesis by (simp add: file_id_def ends_in_def js_def)
qed

text \<open>The test for an existing id looks at the end of the name only.\<close>

lemma file_id_ends: "file_id name = Some i \<Longrightarrow> ends_in name (js ''_'' @ i @ js ''.jsonl'')"
proof -
  assume id: "file_id name = Some i"
  define rest where "rest = dropWhile (\<lambda>c. c \<noteq> 0x5F) name"
  have r: "rest \<noteq> []" "ends_in (tl rest) (js ''.jsonl'')" "i = take (length (tl rest) - 6) (tl rest)"
    using id by (auto simp: file_id_def Let_def rest_def split: if_splits)
  obtain u where u: "tl rest = u @ js ''.jsonl''" using r(2) by (auto simp: ends_in_iff)
  then have "i = u" using r(3) by (simp add: js_def)
  moreover have "hd rest = 0x5F" using r(1) hd_dropWhile [of "\<lambda>c. c \<noteq> 0x5F" name] by (simp add: rest_def)
  ultimately have "rest = js ''_'' @ i @ js ''.jsonl''" using r(1) u by (cases rest) (simp_all add: js_def)
  moreover have "name = takeWhile (\<lambda>c. c \<noteq> 0x5F) name @ rest" by (simp add: rest_def)
  ultimately have "name = takeWhile (\<lambda>c. c \<noteq> 0x5F) name @ js ''_'' @ i @ js ''.jsonl''" by simp
  then show ?thesis unfolding ends_in_iff by blast
qed
section \<open>Creations in flight\<close>

text \<open>
  Creates and forks of one process overlap. A creation takes the steps \<open>Begin\<close> (resolve and claim the destination),
  \<open>Look\<close> (for a file of the id), \<open>Place\<close> (choose the path, make the directory) and \<open>Publish\<close> (write the file and
  release the claim); between them other creations and deletions take theirs. A step that fails ends the creation and
  releases the claim.
\<close>

datatype creation = NewSession | ForkOf jsonl_storage fork_options

datatype flight =
    Claimed (flight_destination: "js_string \<times> js_string") create_options creation
  | Free (flight_destination: "js_string \<times> js_string") create_options creation
  | Ready (flight_destination: "js_string \<times> js_string") jsonl_header js_string creation

record repo_world =
  rw_repo :: jsonl_repo
  rw_disk :: fsys
  rw_flights :: "(nat \<times> flight) list"

datatype repo_event =
    Begin nat js_string create_options creation
  | Look nat
  | Place nat nat
  | Publish nat
  | Delete jsonl_metadata

definition publish_creation ::
    "(js_number \<Rightarrow> string) \<Rightarrow> (string \<Rightarrow> js_string) \<Rightarrow> creation \<Rightarrow> js_string \<Rightarrow> jsonl_header \<Rightarrow> jsonl_storage io" where
  "publish_creation pn po c path header =
     (case c of NewSession \<Rightarrow> jsonl_create pn po path header | ForkOf st options \<Rightarrow> jsonl_fork pn po st path header options)"

definition land :: "nat \<Rightarrow> js_string \<times> js_string \<Rightarrow> jsonl_repo \<times> fsys \<Rightarrow> repo_world \<Rightarrow> repo_world" where
  "land k destination x w = w\<lparr>rw_repo := release destination (fst x), rw_disk := snd x, rw_flights := AList.delete k (rw_flights w)\<rparr>"

definition step_flight :: "nat \<Rightarrow> flight \<Rightarrow> jsonl_repo \<times> fsys \<Rightarrow> repo_world \<Rightarrow> repo_world" where
  "step_flight k f x w = w\<lparr>rw_repo := fst x, rw_disk := snd x, rw_flights := (k, f) # AList.delete k (rw_flights w)\<rparr>"

fun repo_event_step :: "(js_number \<Rightarrow> string) \<Rightarrow> (string \<Rightarrow> js_string) \<Rightarrow> repo_world \<Rightarrow> repo_event \<Rightarrow> repo_world" where
  "repo_event_step pn po w (Begin k fresh options c) =
     (if map_has (rw_flights w) k then w
      else case bindF (resolveCreateDestination fresh options) (\<lambda>d. bindF (claim d) (\<lambda>_. pureF (Inr d))) (rw_repo w, rw_disk w) of
          (Inl _, r, fs) \<Rightarrow> w\<lparr>rw_repo := r, rw_disk := fs\<rparr>
        | (Inr d, x) \<Rightarrow> step_flight k (Claimed d options c) x w)"
| "repo_event_step pn po w (Look k) =
     (case map_of (rw_flights w) k of
        Some (Claimed d options c) \<Rightarrow>
          (case look_for_id d (rw_repo w, rw_disk w) of
             (Inl _, x) \<Rightarrow> land k d x w
           | (Inr _, x) \<Rightarrow> step_flight k (Free d options c) x w)
      | _ \<Rightarrow> w)"
| "repo_event_step pn po w (Place k now) =
     (case map_of (rw_flights w) k of
        Some (Free d options c) \<Rightarrow>
          (case place_session now d options (rw_repo w, rw_disk w) of
             (Inl _, x) \<Rightarrow> land k d x w
           | (Inr (header, path), x) \<Rightarrow> step_flight k (Ready d header path c) x w)
      | _ \<Rightarrow> w)"
| "repo_event_step pn po w (Publish k) =
     (case map_of (rw_flights w) k of
        Some (Ready d header path c) \<Rightarrow> land k d (snd (on_disk (publish_creation pn po c path header) (rw_repo w, rw_disk w))) w
      | _ \<Rightarrow> w)"
| "repo_event_step pn po w (Delete md) =
     (case jsonl_repo_delete md (rw_repo w, rw_disk w) of (_, r, fs) \<Rightarrow> w\<lparr>rw_repo := r, rw_disk := fs\<rparr>)"

text \<open>A create without interruption is the steps in a row.\<close>

lemma create_steps:
  "jsonl_repo_create pn po now fresh options =
     bindF (bindF (resolveCreateDestination fresh options) (\<lambda>d. bindF (claim d) (\<lambda>_. pureF (Inr d)))) (\<lambda>d.
     under_claim d (bindF (look_for_id d) (\<lambda>_. bindF (place_session now d options) (\<lambda>(header, path).
       on_disk (publish_creation pn po NewSession path header)))))"
  by (simp add: jsonl_repo_create_def claimCreateDestination_def prepareCreate_def bindF_assoc publish_creation_def)

section \<open>What a file action can add\<close>

text \<open>An action keeps a property of the disk.\<close>

definition keeps :: "('s \<Rightarrow> bool) \<Rightarrow> ('s, 'a) state_io \<Rightarrow> bool" where
  "keeps P m = (\<forall>x. P x \<longrightarrow> P (snd (m x)))"

lemma keeps_pure: "keeps P (pureF r)"
  by (simp add: keeps_def pureF_def)

lemma keeps_bind: "keeps P m \<Longrightarrow> (\<And>a. keeps P (f a)) \<Longrightarrow> keeps P (bindF m f)"
  unfolding keeps_def bindF_def by (force split: prod.splits sum.splits)

lemma keeps_line: "(\<And>t. keeps P (g t)) \<Longrightarrow> keeps P (line_io x g)"
  by (auto simp: line_io_def keeps_pure split: option.split)

text \<open>The files are old ones or the named new ones, the old directories are there, and a fault does not claim that
  something is missing.\<close>

definition honest_fault :: "fault \<Rightarrow> bool" where
  "honest_fault f = (case f of NoFault \<Rightarrow> True | Fault e _ \<Rightarrow> file_error_code e \<noteq> Fe_not_found)"

definition honest :: "fsys \<Rightarrow> bool" where
  "honest fs = list_all honest_fault (fs_faults fs)"

lemma honest_simps [simp]:
  "honest (fs\<lparr>fs_nodes := ns\<rparr>) = honest fs" "honest (fs\<lparr>fs_faults := fl\<rparr>) = list_all honest_fault fl"
  "honest (put_text path t fs) = honest fs" "honest (add_text path t fs) = honest fs"
  by (simp_all add: honest_def put_text_def add_text_def)

definition within_files :: "js_string set \<Rightarrow> js_string set \<Rightarrow> fsys \<Rightarrow> bool" where
  "within_files F D fs = (dom (text_at fs) \<subseteq> F \<and> (\<forall>d\<in>D. is_directory d fs) \<and> honest fs)"

lemma call_keeps:
  assumes "\<And>fs. within_files F D fs \<Longrightarrow> within_files F D (snd (run fs))" "\<And>w fs. within_files F D fs \<Longrightarrow> within_files F D (broken w fs)"
  shows "keeps (within_files F D) (file_io (fs_call broken run) msg)"
  unfolding keeps_def
proof (intro allI impI)
  fix fs assume P: "within_files F D fs"
  have faults: "within_files F D (fs\<lparr>fs_faults := fl\<rparr>)" if "set fl \<subseteq> set (fs_faults fs)" for fl
    using P that by (auto simp: within_files_def honest_def list_all_iff)
  have "within_files F D (snd (fs_call broken run fs))"
  proof (cases "fs_faults fs")
    case (Cons f fl)
    then have "within_files F D (fs\<lparr>fs_faults := fl\<rparr>)" using faults by auto
    then show ?thesis using Cons assms by (cases f) (simp_all add: fs_call_def)
  qed (use P assms(1) in \<open>simp add: fs_call_def\<close>)
  then show "within_files F D (snd (file_io (fs_call broken run) msg fs))" by (simp add: file_io_def case_prod_beta)
qed

lemma within_put:
  assumes "within_files F D fs" "path \<in> F" "\<not> is_directory path fs" shows "within_files F D (put_text path t fs)"
proof -
  have "d \<noteq> path" if "d \<in> D" for d using that assms(1,3) by (auto simp: within_files_def)
  then show ?thesis using assms
    by (auto simp: within_files_def text_at_put is_directory_def put_text_simps)
qed

lemma calls_keep:
  "keeps (within_files F D) (file_io (fs_readTextFile path) msg)" "keeps (within_files F D) (file_io (fs_fileInfo path) msg)"
  "path \<in> F \<Longrightarrow> keeps (within_files F D) (file_io (fs_writeFile path t) msg)"
  "path \<in> F \<Longrightarrow> keeps (within_files F D) (file_io (fs_appendFile path t) msg)"
  unfolding fs_readTextFile_def fs_fileInfo_def fs_writeFile_def fs_appendFile_def
  by (rule call_keeps; auto simp: unless_directory_def add_text_def within_put split: option.splits fs_node.splits)+

lemma within_nodes:
  assumes "within_files F D fs" "\<And>q. text_at (fs\<lparr>fs_nodes := ns\<rparr>) q \<noteq> None \<Longrightarrow> q \<in> F"
    and "\<And>q. is_directory q fs \<Longrightarrow> is_directory q (fs\<lparr>fs_nodes := ns\<rparr>)"
  shows "within_files F D (fs\<lparr>fs_nodes := ns\<rparr>)"
  using assms by (auto simp: within_files_def)

lemma rename_keeps:
  assumes "b \<in> F" shows "keeps (within_files F D) (file_io (fs_renameFile a b) msg)"
  unfolding fs_renameFile_def
proof (rule call_keeps)
  fix fs assume P: "within_files F D fs"
  have "within_files F D (fs\<lparr>fs_nodes := AList.update b (FileNode t m) (if a = b then fs_nodes fs else AList.delete a (fs_nodes fs))\<rparr>)"
    if node: "map_of (fs_nodes fs) a = Some (FileNode t m)" "\<not> is_directory b fs" for t m
  proof (rule within_nodes [OF P])
    show "q \<in> F" if "text_at (fs\<lparr>fs_nodes := AList.update b (FileNode t m) (if a = b then fs_nodes fs else AList.delete a (fs_nodes fs))\<rparr>) q \<noteq> None" for q
    proof (cases "q = b")
      case False
      then have "text_at fs q \<noteq> None" using that by (auto simp: text_at_def update_conv' delete_conv' split: if_splits)
      then show ?thesis using P by (auto simp: within_files_def)
    qed (use assms in simp)
    show "is_directory q (fs\<lparr>fs_nodes := AList.update b (FileNode t m) (if a = b then fs_nodes fs else AList.delete a (fs_nodes fs))\<rparr>)"
      if "is_directory q fs" for q
    proof -
      have "q \<noteq> a" "q \<noteq> b" using node that by (auto simp: is_directory_def)
      then show ?thesis using that by (simp add: is_directory_def update_conv' delete_conv')
    qed
  qed
  then show "within_files F D (snd (case map_of (fs_nodes fs) a of
        None \<Rightarrow> (Inl (FileError Fe_not_found (fs_reason fs)), fs)
      | Some (FileNode t m) \<Rightarrow>
          if is_directory b fs then (Inl (FileError Fe_is_directory (fs_reason fs)), fs)
          else (Inr (), fs\<lparr>fs_nodes := AList.update b (FileNode t m) (if a = b then fs_nodes fs else AList.delete a (fs_nodes fs))\<rparr>)
      | Some (DirNode _) \<Rightarrow> (Inl (FileError Fe_invalid (fs_reason fs)), fs)))"
    using P by (auto split: option.splits fs_node.splits)
qed

lemma remove_keeps: "keeps (within_files F D) (file_io (fs_remove path force) msg)"
  unfolding fs_remove_def
proof (rule call_keeps)
  fix fs assume P: "within_files F D fs"
  have "within_files F D (fs\<lparr>fs_nodes := AList.delete path (fs_nodes fs)\<rparr>)" if "map_of (fs_nodes fs) path = Some (FileNode t m)" for t m
  proof (rule within_nodes [OF P])
    show "q \<in> F" if "text_at (fs\<lparr>fs_nodes := AList.delete path (fs_nodes fs)\<rparr>) q \<noteq> None" for q
      using that P by (auto simp: within_files_def text_at_def delete_conv' split: if_splits)
    show "is_directory q (fs\<lparr>fs_nodes := AList.delete path (fs_nodes fs)\<rparr>)" if "is_directory q fs" for q
      using that \<open>map_of (fs_nodes fs) path = Some (FileNode t m)\<close> by (auto simp: is_directory_def delete_conv')
  qed
  then show "within_files F D (snd (case map_of (fs_nodes fs) path of
        None \<Rightarrow> (if force then Inr () else Inl (FileError Fe_not_found (fs_reason fs)), fs)
      | Some (FileNode _ _) \<Rightarrow> (Inr (), fs\<lparr>fs_nodes := AList.delete path (fs_nodes fs)\<rparr>)
      | Some (DirNode _) \<Rightarrow> (Inl (FileError Fe_is_directory (fs_reason fs)), fs)))"
    using P by (auto split: option.splits fs_node.splits)
qed

lemma keeps_remove_step: "P fs \<Longrightarrow> keeps P (file_io (fs_remove path force) []) \<Longrightarrow> P (snd (fs_remove path force fs))"
  by (auto simp: keeps_def file_io_def case_prod_beta)

lemma publish_keeps:
  assumes "path \<in> F" "keeps (within_files F D) (populate (temp_path path))"
  shows "keeps (within_files F D) (publishFileAtomically path populate)"
  unfolding keeps_def
proof (intro allI impI)
  fix fs assume P: "within_files F D fs"
  let ?m = "bindF (populate (temp_path path)) (\<lambda>_. file_io (fs_renameFile (temp_path path) path)
      (js ''Failed to publish staged file '' @ path))"
  have "keeps (within_files F D) ?m" by (intro keeps_bind assms(2) rename_keeps assms(1))
  then have "within_files F D (snd (?m fs))" using P by (simp add: keeps_def)
  then show "within_files F D (snd (publishFileAtomically path populate fs))"
    using keeps_remove_step [OF _ remove_keeps] by (cases "?m fs"; cases "fst (?m fs)") (auto simp: publishFileAtomically_def)
qed

lemma create_keeps: "path \<in> F \<Longrightarrow> keeps (within_files F D) (jsonl_create pn po path h)"
  unfolding jsonl_create_def by (intro keeps_line keeps_bind keeps_pure calls_keep)

lemma commit_all_keeps:
  "jm_path (jmeta st) \<in> F \<Longrightarrow> within_files F D fs \<Longrightarrow> within_files F D (snd (commit_all pn po st ms fs))"
proof (induction ms arbitrary: st fs)
  case (Cons m ms)
  obtain r fs1 where r: "jsonl_commit pn po st m fs = (r, fs1)" by (cases "jsonl_commit pn po st m fs") auto
  have "keeps (within_files F D) (jsonl_commit pn po st m)"
    unfolding jsonl_commit_def jsonl_appendMutation_def by (intro keeps_line keeps_bind keeps_pure calls_keep Cons.prems)
  then have "within_files F D fs1" using r Cons.prems(2) by (auto simp: keeps_def dest: spec [of _ fs])
  then show ?case using r Cons.IH Cons.prems(1) commit_keeps_meta by (cases r) (auto simp: bindF_def)
qed (simp add: pureF_def)

lemma fork_populate_keeps:
  assumes "path \<in> F"
  shows "keeps (within_files F D) (bindF (jsonl_create pn po path h) (\<lambda>target. bindF (commit_all pn po target ms) (\<lambda>_. pureF (Inr ()))))"
  unfolding keeps_def
proof (intro allI impI)
  fix fs assume P: "within_files F D fs"
  obtain r fs1 where r: "jsonl_create pn po path h fs = (r, fs1)" by (cases "jsonl_create pn po path h fs") auto
  then have P1: "within_files F D fs1" using create_keeps [OF assms, of D pn po h] P by (auto simp: keeps_def dest: spec [of _ fs])
  have "jm_path (jmeta st) = path" if "r = Inr st" for st
    using r that by (auto simp: jsonl_create_def line_io_def bindF_Inr pureF_Inr new_jsonl_storage_def split: option.splits)
  then show "within_files F D (snd (bindF (jsonl_create pn po path h) (\<lambda>target. bindF (commit_all pn po target ms) (\<lambda>_. pureF (Inr ()))) fs))"
    using r P1 commit_all_keeps [of _ F D fs1 pn po ms] assms by (cases r) (force simp: bindF_def pureF_def split: prod.splits sum.splits)+
qed

lemma load_lines_keeps:
  assumes "path \<in> F" "temp_path path \<in> F" shows "keeps (within_files F D) (load_lines path seen ls st)"
proof (induction ls arbitrary: seen st)
  case (Cons l ls)
  show ?case
    by (auto simp: Cons keeps_pure split: sum.split option.split session_error.split
        intro!: keeps_bind publish_keeps assms(1) calls_keep(3) [OF assms(2)])
qed (simp add: keeps_pure)

lemma load_keeps:
  assumes "path \<in> F" "temp_path path \<in> F" shows "keeps (within_files F D) (jsonl_load path)"
  unfolding jsonl_load_def Let_def
  by (auto intro!: keeps_bind calls_keep load_lines_keeps keeps_pure assms split: sum.split prod.split)

lemma publish_creation_keeps:
  assumes "path \<in> F" "temp_path path \<in> F" shows "keeps (within_files F D) (publish_creation pn po c path h)"
  unfolding publish_creation_def jsonl_fork_def
  by (cases c) (auto intro!: keeps_bind create_keeps publish_keeps fork_populate_keeps load_keeps keeps_pure assms)
section \<open>One file for every id\<close>

definition unique_ids :: "fsys \<Rightarrow> bool" where
  "unique_ids fs \<longleftrightarrow> (\<forall>p q i. text_at fs p \<noteq> None \<longrightarrow> text_at fs q \<noteq> None \<longrightarrow> dirname p = dirname q \<longrightarrow>
     file_id (basename p) = Some i \<longrightarrow> file_id (basename q) = Some i \<longrightarrow> p = q)"

definition id_free :: "fsys \<Rightarrow> js_string \<Rightarrow> js_string \<Rightarrow> bool" where
  "id_free fs dir i \<longleftrightarrow> (\<forall>q. text_at fs q \<noteq> None \<longrightarrow> dirname q = dir \<longrightarrow> file_id (basename q) \<noteq> Some i)"

definition housed :: "fsys \<Rightarrow> bool" where
  "housed fs \<longleftrightarrow> (\<forall>q. text_at fs q \<noteq> None \<longrightarrow> is_directory (dirname q) fs)"

definition disk_ok :: "fsys \<Rightarrow> bool" where
  "disk_ok fs = (honest fs \<and> unique_ids fs \<and> housed fs)"

definition grown :: "js_string set \<Rightarrow> fsys \<Rightarrow> fsys \<Rightarrow> bool" where
  "grown X fs fs' = within_files (dom (text_at fs) \<union> X) {q. is_directory q fs} fs'"

lemma grown_refl: "honest fs \<Longrightarrow> grown X fs fs"
  by (auto simp: grown_def within_files_def)

lemma grown_start: "honest fs \<Longrightarrow> keeps (within_files (dom (text_at fs) \<union> X) {q. is_directory q fs}) m \<Longrightarrow> grown X fs (snd (m fs))"
  using grown_refl [of fs X] by (simp add: grown_def keeps_def)

lemma grown_same:
  assumes "grown {} fs fs'" "disk_ok fs"
  shows "disk_ok fs'" "id_free fs dir i \<Longrightarrow> id_free fs' dir i" "is_directory q fs \<Longrightarrow> is_directory q fs'"
proof -
  have g: "\<And>q. text_at fs' q \<noteq> None \<Longrightarrow> text_at fs q \<noteq> None" "\<And>q. is_directory q fs \<Longrightarrow> is_directory q fs'" "honest fs'"
    using assms(1) by (auto simp: grown_def within_files_def)
  show "is_directory q fs \<Longrightarrow> is_directory q fs'" by (rule g(2))
  show "id_free fs dir i \<Longrightarrow> id_free fs' dir i" using g(1) unfolding id_free_def by blast
  show "disk_ok fs'" using assms(2) g unfolding disk_ok_def unique_ids_def housed_def by meson
qed

text \<open>A new session file in a directory that has no file of its id, and the file it is staged in.\<close>

lemma grown_session:
  assumes "grown {path, temp_path path} fs fs'" "disk_ok fs" "is_directory dir fs" "id_free fs dir i"
    and "dirname path = dir" "dirname (temp_path path) = dir" "file_id (basename path) = Some i" "file_id (basename (temp_path path)) = None"
  shows "disk_ok fs'" "id_free fs dir' j \<Longrightarrow> dir' \<noteq> dir \<or> j \<noteq> i \<Longrightarrow> id_free fs' dir' j" "is_directory q fs \<Longrightarrow> is_directory q fs'"
proof -
  have g: "\<And>q. text_at fs' q \<noteq> None \<Longrightarrow> text_at fs q \<noteq> None \<or> q = path \<or> q = temp_path path"
      "\<And>q. is_directory q fs \<Longrightarrow> is_directory q fs'" "honest fs'"
    using assms(1) unfolding grown_def within_files_def by (fastforce simp: dom_def)+
  show "is_directory q fs \<Longrightarrow> is_directory q fs'" by (rule g(2))
  show "id_free fs dir' j \<Longrightarrow> dir' \<noteq> dir \<or> j \<noteq> i \<Longrightarrow> id_free fs' dir' j"
    using g(1) assms(5-8) unfolding id_free_def by fastforce
  have known: "text_at fs q \<noteq> None \<or> q = path" if "text_at fs' q \<noteq> None" "file_id (basename q) = Some j" for q j
    using g(1) [OF that(1)] that(2) assms(8) by auto
  have "unique_ids fs'"
    unfolding unique_ids_def
  proof (intro allI impI)
    fix p q j
    assume a: "text_at fs' p \<noteq> None" "text_at fs' q \<noteq> None" "dirname p = dirname q" "file_id (basename p) = Some j" "file_id (basename q) = Some j"
    have "\<not> (text_at fs p \<noteq> None \<and> q = path)" "\<not> (text_at fs q \<noteq> None \<and> p = path)"
      using assms(4,5,7) a unfolding id_free_def by auto
    then show "p = q" using known [OF a(1,4)] known [OF a(2,5)] assms(2) a(3-5) unfolding disk_ok_def unique_ids_def by blast
  qed
  moreover have "housed fs'" using assms(2,3,5,6) g(1,2) unfolding housed_def disk_ok_def by metis
  ultimately show "disk_ok fs'" using g(3) by (simp add: disk_ok_def)
qed

section \<open>The steps of a creation\<close>

text \<open>Calls that only look: they change nothing but the list of faults.\<close>

definition looks :: "'a io \<Rightarrow> bool" where
  "looks m \<longleftrightarrow> (\<forall>fs r fs'. m fs = (r, fs') \<longrightarrow> fs_nodes fs' = fs_nodes fs \<and> (honest fs \<longrightarrow> honest fs'))"

lemma call_looks:
  assumes "\<And>fs. snd (run fs) = fs" shows "looks (file_io (fs_call (\<lambda>_ fs. fs) run) msg)"
  unfolding looks_def
proof (intro allI impI)
  fix fs :: fsys and r fs' assume "file_io (fs_call (\<lambda>_ fs. fs) run) msg fs = (r, fs')"
  then obtain r' where "fs_call (\<lambda>_ fs. fs) run fs = (r', fs')" using file_io_call by blast
  moreover have same: "b = x" if "run x = (a, b)" for x a b using assms [of x] that by simp
  ultimately show "fs_nodes fs' = fs_nodes fs \<and> (honest fs \<longrightarrow> honest fs')"
    by (cases "fs_faults fs"; cases "hd (fs_faults fs)") (auto simp: fs_call_def honest_def list_all_iff dest!: same)
qed

lemma looking_calls:
  "looks (file_io (fs_absolutePath opts p) msg)" "looks (file_io (fs_joinPath ps) msg)" "looks (file_io (fs_listDir p) msg)"
  "looks (file_io (fs_fileInfo p) msg)"
  unfolding fs_absolutePath_def fs_resolve_def fs_joinPath_def fs_listDir_def fs_fileInfo_def
  by (rule call_looks; auto split: option.split fs_node.split)+

lemma exists_looks: "looks (file_io (fs_exists p) msg)"
  unfolding looks_def
proof (intro allI impI)
  fix fs r fs' assume "file_io (fs_exists p) msg fs = (r, fs')"
  then obtain r' where "fs_exists p fs = (r', fs')" using file_io_call by blast
  then obtain r'' where "fs_fileInfo p fs = (r'', fs')" by (auto simp: fs_exists_def split: prod.splits sum.splits)
  then have "file_io (fs_fileInfo p) [] fs = (fileResult r'' [], fs')" by (simp add: file_io_def)
  then show "fs_nodes fs' = fs_nodes fs \<and> (honest fs \<longrightarrow> honest fs')" using looking_calls(4) unfolding looks_def by blast
qed

lemma same_nodes: "fs_nodes fs' = fs_nodes fs \<Longrightarrow> text_at fs' = text_at fs \<and> is_directory q fs' = is_directory q fs"
  by (auto simp: text_at_def is_directory_def fun_eq_iff)

lemma same_nodes_grown: "fs_nodes fs' = fs_nodes fs \<Longrightarrow> honest fs' \<Longrightarrow> grown {} fs fs'"
  using same_nodes [of fs' fs] by (auto simp: grown_def within_files_def)

text \<open>An honest disk says that a path is missing only when it is.\<close>

lemma exists_False:
  assumes "honest fs" "fs_exists p fs = (Inr False, fs')" shows "map_of (fs_nodes fs) p = None"
proof (cases "fs_faults fs")
  case Nil
  then show ?thesis using assms(2) by (auto simp: fs_exists_def fs_fileInfo_def fs_call_def split: option.splits)
next
  case (Cons f fl)
  then show ?thesis using assms
    by (cases f) (auto simp: fs_exists_def fs_fileInfo_def fs_call_def honest_def honest_fault_def split: option.splits if_splits)
qed

lemma listDir_entries:
  assumes "fs_listDir p fs = (Inr infos, fs')"
  shows "is_directory p fs \<and> infos = map (\<lambda>(q, n). info_of q n) (filter (\<lambda>(q, _). q \<noteq> p \<and> dirname q = p) (fs_nodes fs))"
  using assms unfolding fs_listDir_def
  by (rule fs_call_cases) (auto simp: is_directory_def split: option.splits fs_node.splits)

lemma joinPath_value: "fs_joinPath ps fs = (Inr p, fs') \<Longrightarrow> p = join_path ps"
  unfolding fs_joinPath_def by (erule fs_call_cases) auto
text \<open>The directory of the sessions of a working directory.\<close>

definition repo_names :: "repo_options \<Rightarrow> js_string list" where
  "repo_names opts = walk [] (ro_absolute opts (ro_sessionsRoot opts))"

definition session_dir :: "repo_options \<Rightarrow> js_string \<Rightarrow> js_string" where
  "session_dir opts cwd = abs_path (repo_names opts @ [jsonlSessionDirectoryName cwd])"

definition repo_ok :: "repo_options \<Rightarrow> jsonl_repo \<Rightarrow> bool" where
  "repo_ok opts r = (jr_options r = opts \<and> isAbsolute (ro_absolute opts (ro_sessionsRoot opts))
     \<and> (\<forall>x. jr_rootPromise r = Some (Inr x) \<longrightarrow> x = ro_absolute opts (ro_sessionsRoot opts)))"

lemma looksD: "looks m \<Longrightarrow> m fs = (r, fs') \<Longrightarrow> fs_nodes fs' = fs_nodes fs" "looks m \<Longrightarrow> m fs = (r, fs') \<Longrightarrow> honest fs \<Longrightarrow> honest fs'"
  by (auto simp: looks_def)

text \<open>What the looking steps of the repository do to the repository and the disk.\<close>

definition looked :: "repo_options \<Rightarrow> jsonl_repo \<times> fsys \<Rightarrow> jsonl_repo \<times> fsys \<Rightarrow> bool" where
  "looked opts x y \<longleftrightarrow> fs_nodes (snd y) = fs_nodes (snd x) \<and> (honest (snd x) \<longrightarrow> honest (snd y)) \<and> (repo_ok opts (fst x) \<longrightarrow> repo_ok opts (fst y))
     \<and> jr_activeCreateDestinations (fst y) = jr_activeCreateDestinations (fst x)"

lemma looked_refl [simp]: "looked opts x x"
  by (simp add: looked_def)

lemma looked_trans: "looked opts x y \<Longrightarrow> looked opts y z \<Longrightarrow> looked opts x z"
  by (simp add: looked_def)

lemma on_disk_looked: "looks m \<Longrightarrow> on_disk m (r, fs) = (a, y) \<Longrightarrow> looked opts (r, fs) y"
  by (auto simp: on_disk_def looked_def looks_def split: prod.splits)

lemma resolve_value: "fs_absolutePath opts p fs = (Inr q, fs') \<Longrightarrow> q = ro_absolute opts p"
  unfolding fs_absolutePath_def fs_resolve_def by (erule fs_call_cases) auto

lemma root_looked:
  assumes "repo_rootPath x = (a, y)"
  shows "looked opts x y" "repo_ok opts (fst x) \<Longrightarrow> a = Inr p \<Longrightarrow> p = ro_absolute opts (ro_sessionsRoot opts)"
proof -
  obtain r fs where x: "x = (r, fs)" by (cases x)
  show "looked opts x y"
  proof (cases "jr_rootPromise r")
    case None
    obtain b fs' where b: "jsonlSessionsRoot (jr_options r) fs = (b, fs')" by (cases "jsonlSessionsRoot (jr_options r) fs")
    have "b = Inr p \<Longrightarrow> p = ro_absolute (jr_options r) (ro_sessionsRoot (jr_options r))" for p
      using b resolve_value by (fastforce simp: jsonlSessionsRoot_def file_io_Inr)
    then show ?thesis using assms None b looking_calls(1) [unfolded looks_def]
      by (auto simp: x repo_rootPath_def looked_def repo_ok_def jsonlSessionsRoot_def)
  qed (use assms in \<open>simp add: x repo_rootPath_def\<close>)
  show "p = ro_absolute opts (ro_sessionsRoot opts)" if "repo_ok opts (fst x)" "a = Inr p"
    using assms that resolve_value
    by (fastforce simp: x repo_rootPath_def repo_ok_def jsonlSessionsRoot_def file_io_Inr split: option.splits prod.splits)
qed

lemma bindF_cases:
  assumes "bindF m f x = (b, z)"
  obtains e where "m x = (Inl e, z)" "b = Inl e" | a y where "m x = (Inr a, y)" "f a y = (b, z)"
  using assms by (auto simp: bindF_def split: prod.splits sum.splits)

lemma directory_looked:
  assumes "repo_sessionDirectory cwd x = (a, y)" 
  shows "looked opts x y" "repo_ok opts (fst x) \<Longrightarrow> a = Inr d \<Longrightarrow> d = session_dir opts cwd"
proof -
  have "looked opts x y \<and> (repo_ok opts (fst x) \<longrightarrow> a = Inr d \<longrightarrow> d = session_dir opts cwd)"
    using assms unfolding repo_sessionDirectory_def
  proof (cases rule: bindF_cases)
    case (2 p x1)
    then have "looked opts x1 y" using on_disk_looked [OF looking_calls(2)] by (metis prod.collapse)
    moreover have "d = join_path [p, jsonlSessionDirectoryName cwd]" if "a = Inr d"
      using 2(2) that joinPath_value by (cases x1) (fastforce simp: on_disk_def file_io_Inr split: prod.splits)
    moreover have "join_path [p, jsonlSessionDirectoryName cwd] = session_dir opts cwd" if "repo_ok opts (fst x)"
      using root_looked(2) [OF 2(1) that] that join_absolute [OF _ directory_name_clean, of p cwd]
      by (simp add: session_dir_def repo_names_def repo_ok_def)
    ultimately show ?thesis using looked_trans [OF root_looked(1) [OF 2(1)]] by auto
  qed (use root_looked(1) in auto)
  then show "looked opts x y" "repo_ok opts (fst x) \<Longrightarrow> a = Inr d \<Longrightarrow> d = session_dir opts cwd" by blast+
qed

lemma missing_free: "map_of (fs_nodes fs) d = None \<Longrightarrow> housed fs \<Longrightarrow> id_free fs d i"
  unfolding id_free_def housed_def by (auto simp: is_directory_def)

lemma listed_free:
  assumes "fs_listDir d fs = (Inr files, fs')"
    and "\<not> list_ex (\<lambda>e. fi_kind e \<noteq> Kind_directory \<and> ends_in (fi_name e) (js ''_'' @ i @ js ''.jsonl'')) files"
  shows "id_free fs d i"
  unfolding id_free_def
proof (intro allI impI)
  fix q assume q: "text_at fs q \<noteq> None" "dirname q = d"
  note files = listDir_entries [OF assms(1)]
  obtain t m where n: "map_of (fs_nodes fs) q = Some (FileNode t m)"
    using q(1) by (auto simp: text_at_def split: option.splits fs_node.splits)
  then have "q \<noteq> d" using files by (auto simp: is_directory_def)
  then have "info_of q (FileNode t m) \<in> set files" using files n q(2) by (force dest: map_of_SomeD)
  then have "\<not> ends_in (basename q) (js ''_'' @ i @ js ''.jsonl'')" using assms(2) by (force simp: info_of_def list_ex_iff)
  then show "file_id (basename q) \<noteq> Some i" using file_id_ends by blast
qed

lemma same_free: "fs_nodes fs' = fs_nodes fs \<Longrightarrow> id_free fs' d i = id_free fs d i"
  using same_nodes [of fs' fs] by (simp add: id_free_def)

lemma id_exists_looked:
  assumes "sessionIdExists i cwd x = (a, y)"
  shows "looked opts x y"
    "repo_ok opts (fst x) \<Longrightarrow> disk_ok (snd x) \<Longrightarrow> a = Inr False \<Longrightarrow> id_free (snd x) (session_dir opts cwd) i"
proof -
  have "looked opts x y \<and> (disk_ok (snd x) \<longrightarrow> repo_ok opts (fst x) \<longrightarrow> a = Inr False \<longrightarrow> id_free (snd x) (session_dir opts cwd) i)"
    using assms unfolding sessionIdExists_def
  proof (cases rule: bindF_cases)
    case (2 d x1)
    note l1 = directory_looked(1) [OF 2(1), of opts] and d = directory_looked(2) [OF 2(1) _ refl, of opts]
    obtain r1 fs1 where x1: "x1 = (r1, fs1)" by (cases x1)
    from 2(2) show ?thesis
    proof (cases rule: bindF_cases)
      case (1 e)
      then show ?thesis using looked_trans [OF l1] on_disk_looked [OF exists_looks, of d _ r1 fs1] x1 by fastforce
    next
      case (2 found x2)
      have l2: "looked opts x x2" using looked_trans [OF l1] 2(1) on_disk_looked [OF exists_looks] x1 by blast
      obtain r2 fs2 where x2: "x2 = (r2, fs2)" by (cases x2)
      have found: "fs_exists d fs1 = (Inr found, fs2)" using 2(1) by (auto simp: x1 x2 on_disk_def file_io_Inr split: prod.splits)
      have missing: "\<not> found \<Longrightarrow> disk_ok (snd x) \<Longrightarrow> id_free (snd x) d i"
        using exists_False found l1 missing_free by (fastforce simp: x1 looked_def disk_ok_def)
      show ?thesis
      proof (cases found)
        case False
        then show ?thesis using 2(2) l2 missing d by (auto simp: pureF_def)
      next
        case True
        with 2(2) have "bindF (on_disk (file_io (fs_listDir d) (js ''Failed to list sessions directory '' @ d))) (\<lambda>files.
           pureF (Inr (list_ex (\<lambda>e. fi_kind e \<noteq> Kind_directory \<and> ends_in (fi_name e) (js ''_'' @ i @ js ''.jsonl'')) files))) x2 = (a, y)"
          by simp
        then show ?thesis
        proof (cases rule: bindF_cases)
          case (1 e)
          then show ?thesis using looked_trans [OF l2] on_disk_looked [OF looking_calls(3), of d _ r2 fs2] x2 by fastforce
        next
          case (2 files x3)
          have l3: "looked opts x x3" using looked_trans [OF l2] 2(1) on_disk_looked [OF looking_calls(3)] x2 by blast
          obtain fs3 where "fs_listDir d fs2 = (Inr files, fs3)" using 2(1) by (auto simp: x2 on_disk_def file_io_Inr split: prod.splits)
          note free = listed_free [OF this, of i]
          have nodes: "fs_nodes fs2 = fs_nodes (snd x)" using l2 by (simp add: looked_def x2)
          have "id_free (snd x) d i" if "a = Inr False"
            using 2(2) that free unfolding same_free [OF nodes] pureF_def by simp
          moreover have "y = x3" using 2(2) by (simp add: pureF_def)
          ultimately show ?thesis using l3 d by blast
        qed
      qed
    qed
  qed (use directory_looked(1) in auto)
  then show "looked opts x y"
    "repo_ok opts (fst x) \<Longrightarrow> disk_ok (snd x) \<Longrightarrow> a = Inr False \<Longrightarrow> id_free (snd x) (session_dir opts cwd) i" by blast+
qed

text \<open>Making directories adds directories only.\<close>

lemma make_dir_simps:
  "text_at (make_dir fs p) = text_at fs" "is_directory q fs \<Longrightarrow> is_directory q (make_dir fs p)" "honest (make_dir fs p) = honest fs"
  "map_has (fs_nodes (make_dir fs p)) p" "map_has (fs_nodes fs) q \<Longrightarrow> map_has (fs_nodes (make_dir fs p)) q"
  "map_has (fs_nodes (make_dir fs p)) q \<Longrightarrow> \<not> map_has (fs_nodes fs) q \<Longrightarrow> is_directory q (make_dir fs p)"
  by (auto simp: make_dir_def text_at_def is_directory_def honest_def map_has_def map_add_def fun_eq_iff split: option.splits fs_node.splits if_splits)

lemma make_dirs_grown: "honest fs \<Longrightarrow> grown {} fs (foldl make_dir fs ps)"
proof (induction ps rule: rev_induct)
  case (snoc p ps)
  then show ?case using make_dir_simps(1,3) make_dir_simps(2) unfolding grown_def within_files_def by (simp add: Ball_def)
qed (simp add: grown_refl)

lemma make_dirs_made:
  assumes "\<forall>p\<in>set ps. map_has (fs_nodes fs) p \<longrightarrow> is_directory p fs" "p \<in> set ps"
  shows "is_directory p (foldl make_dir fs ps)"
  using assms
proof (induction ps arbitrary: fs)
  case (Cons q ps)
  have all: "\<forall>p\<in>set (q # ps). map_has (fs_nodes (make_dir fs q)) p \<longrightarrow> is_directory p (make_dir fs q)"
    using Cons.prems(1) make_dir_simps(2,6) by (metis)
  show ?case
  proof (cases "p \<in> set ps")
    case False
    have "is_directory q (make_dir fs q)" using all make_dir_simps(4) by (metis list.set_intros(1))
    moreover have "is_directory q (foldl make_dir fs' ps)" if "is_directory q fs'" for fs' :: fsys
      using that by (induction ps arbitrary: fs') (simp_all add: make_dir_simps(2))
    ultimately show ?thesis using False Cons.prems(2) by simp
  qed (use Cons.IH all in simp)
qed simp

lemma last_prefix: "list_all clean_name (ns @ [n]) \<Longrightarrow> abs_path (ns @ [n]) \<in> set (path_prefixes (abs_path (ns @ [n])))"
  by (force simp: path_prefixes_def walk_abs_path image_iff intro!: bexI [of _ "Suc (length ns)"])

lemma createDir_grown:
  assumes "honest fs" "fs_createDir p fs = (a, fs')"
  shows "grown {} fs fs'" "a = Inr () \<Longrightarrow> q \<in> set (path_prefixes p) \<Longrightarrow> is_directory q fs'"
proof -
  have "grown {} fs fs' \<and> (a = Inr () \<longrightarrow> q \<in> set (path_prefixes p) \<longrightarrow> is_directory q fs')"
  proof (cases "fs_faults fs")
    case Nil
    then show ?thesis using assms make_dirs_grown [OF assms(1)] make_dirs_made [of "path_prefixes p" fs q]
      by (auto simp: fs_createDir_def fs_call_def grown_refl split: if_splits)
  next
    case (Cons f fl)
    define fs1 where "fs1 = fs\<lparr>fs_faults := fl\<rparr>"
    have h: "honest fs1" "grown {} fs fs1" using assms(1) Cons by (auto simp: fs1_def honest_def grown_def within_files_def)
    have g: "grown {} fs fs2" if "grown {} fs1 fs2" for fs2 using that by (simp add: fs1_def grown_def within_files_def)
    have same: "is_directory p' fs = is_directory p' fs1" "fs_nodes fs = fs_nodes fs1" for p' by (simp_all add: fs1_def is_directory_def)
    show ?thesis using assms(2) Cons h g [OF make_dirs_grown [OF h(1)]] make_dirs_made [of "path_prefixes p" fs1 q]
      by (cases f) (auto simp: fs_createDir_def fs_call_def fs1_def [symmetric] same split: if_splits)
  qed
  then show "grown {} fs fs'" "a = Inr () \<Longrightarrow> q \<in> set (path_prefixes p) \<Longrightarrow> is_directory q fs'" by blast+
qed

definition stepped :: "repo_options \<Rightarrow> jsonl_repo \<times> fsys \<Rightarrow> jsonl_repo \<times> fsys \<Rightarrow> bool" where
  "stepped opts x y \<longleftrightarrow> grown {} (snd x) (snd y) \<and> repo_ok opts (fst y) \<and> jr_activeCreateDestinations (fst y) = jr_activeCreateDestinations (fst x)"

lemma looked_stepped: "looked opts x y \<Longrightarrow> honest (snd x) \<Longrightarrow> repo_ok opts (fst x) \<Longrightarrow> stepped opts x y"
  by (auto simp: looked_def stepped_def intro: same_nodes_grown)

lemma stepped_from: "looked opts x y \<Longrightarrow> stepped opts y z \<Longrightarrow> stepped opts x z"
  using same_nodes [of "snd y" "snd x"] by (simp add: looked_def stepped_def grown_def within_files_def)

lemma session_dir_clean: "list_all clean_name (repo_names opts @ [jsonlSessionDirectoryName cwd])"
  using directory_name_clean by (simp add: repo_names_def walk_clean)

lemma session_path:
  assumes "clean_name n" shows "join_path [session_dir opts cwd, n] = abs_path (repo_names opts @ [jsonlSessionDirectoryName cwd, n])"
  using join_absolute [of "session_dir opts cwd" n] assms walk_abs_path [OF session_dir_clean] by (simp add: session_dir_def)

lemma look_free:
  assumes "look_for_id (i, cwd) x = (a, y)"
  shows "looked opts x y"
    "repo_ok opts (fst x) \<Longrightarrow> disk_ok (snd x) \<Longrightarrow> a = Inr u \<Longrightarrow> id_free (snd x) (session_dir opts cwd) i"
proof -
  obtain b where b: "sessionIdExists i cwd x = (b, y)" "\<And>u. a = Inr u \<Longrightarrow> b = Inr False"
    using assms by (cases "sessionIdExists i cwd x"; cases "fst (sessionIdExists i cwd x)")
      (auto simp: look_for_id_def bindF_def pureF_def split: if_splits)
  show "looked opts x y" by (rule id_exists_looked(1) [OF b(1)])
  show "id_free (snd x) (session_dir opts cwd) i" if "repo_ok opts (fst x)" "disk_ok (snd x)" "a = Inr u"
    using id_exists_looked(2) [OF b(1) that(1,2)] b(2) that(3) by simp
qed

lemma place_last:
  assumes "bindF (pureF v) (\<lambda>_. let header = h in bindF (on_disk (file_io (fs_createDir d) msg)) (\<lambda>_. pureF (Inr (header, path)))) x = (a, y)"
    and "honest (snd x)" "repo_ok opts (fst x)"
  shows "stepped opts x y" "a = Inr (h', path') \<Longrightarrow> path' = path \<and> (\<forall>q\<in>set (path_prefixes d). is_directory q (snd y))"
proof -
  obtain r fs where x: "x = (r, fs)" by (cases x)
  obtain b fs4 where b: "fs_createDir d fs = (b, fs4)" by (cases "fs_createDir d fs")
  note made = createDir_grown [OF assms(2) [unfolded x snd_conv] b]
  have run: "y = (r, fs) \<and> (\<exists>e. a = Inl e) \<or> y = (r, fs4) \<and> (\<forall>z. a = Inr z \<longrightarrow> b = Inr () \<and> z = (h, path))"
    using assms(1) b by (auto simp: x Let_def bindF_def on_disk_def file_io_def pureF_def fileResult_def split: sum.splits)
  show "stepped opts x y" using run made(1) assms(2,3) by (auto simp: stepped_def x grown_refl)
  show "path' = path \<and> (\<forall>q\<in>set (path_prefixes d). is_directory q (snd y))" if "a = Inr (h', path')"
    using run made(2) that by auto
qed

lemma place_ready:
  assumes "place_session now (i, cwd) options x = (a, y)" "repo_ok opts (fst x)" "honest (snd x)" "session_id_pattern i"
  shows "stepped opts x y
    \<and> (\<forall>h path. a = Inr (h, path) \<longrightarrow> path = abs_path (repo_names opts @ [jsonlSessionDirectoryName cwd, sessionFileName now i])
        \<and> is_directory (session_dir opts cwd) (snd y))"
proof -
  have settled: ?thesis if "looked opts x y" "\<forall>v. a \<noteq> Inr v" using that looked_stepped assms(2,3) by auto
  from assms(1) [unfolded place_session_def prod.case] show ?thesis
  proof (cases rule: bindF_cases)
    case (1 e)
    then show ?thesis using settled directory_looked(1) by blast
  next
    case (2 d x2)
    have d: "d = session_dir opts cwd" using directory_looked(2) [OF 2(1) assms(2)] by simp
    have l2: "looked opts x x2" by (rule directory_looked(1) [OF 2(1)])
    obtain r2 fs2 where x2: "x2 = (r2, fs2)" by (cases x2)
    from 2(2) show ?thesis
    proof (cases rule: bindF_cases)
      case (1 e)
      then have "looked opts x2 y" using on_disk_looked [OF looking_calls(2)] x2 by blast
      then show ?thesis using settled looked_trans [OF l2] 1(2) by blast
    next
      case (2 path x3)
      have "looked opts x2 x3" using on_disk_looked [OF looking_calls(2)] 2(1) x2 by blast
      then have l3: "looked opts x x3" by (rule looked_trans [OF l2])
      have path: "path = abs_path (repo_names opts @ [jsonlSessionDirectoryName cwd, sessionFileName now i])"
        using 2(1) joinPath_value session_path [OF session_file_clean [OF assms(4)]] d
        by (fastforce simp: x2 on_disk_def file_io_Inr split: prod.splits)
      have st3: "honest (snd x3)" "repo_ok opts (fst x3)" using l3 assms(2,3) by (simp_all add: looked_def)
      note last = place_last [OF 2(2) st3]
      have "stepped opts x y" by (rule stepped_from [OF l3 last(1)])
      then show ?thesis using last(2) path last_prefix [OF session_dir_clean] d by (auto simp: session_dir_def)
    qed
  qed
qed

section \<open>Any interleaving\<close>

lemma session_id_no_nul: "session_id_pattern i \<Longrightarrow> 0 \<notin> set i"
  by (auto simp: session_id_pattern_def list_all_iff alphanumeric_def js_def)

lemma destination_key_inj:
  assumes "session_id_pattern (fst d)" "session_id_pattern (fst e)" "destination_key d = destination_key e" shows "d = e"
proof -
  have "rev (fst d) = takeWhile (\<lambda>c. c \<noteq> 0) (rev (destination_key d))" if "session_id_pattern (fst d)" for d
    using session_id_no_nul [OF that] using until_sep(1) [of 0 "rev (fst d)" "rev (snd d)"] by (simp add: destination_key_def)
  then have "fst d = fst e" using assms by (metis rev_is_rev_conv)
  then show ?thesis using assms(3) by (simp add: destination_key_def prod_eq_iff)
qed

text \<open>Where the file of a session goes, and the name it is staged under.\<close>

definition session_place :: "repo_options \<Rightarrow> js_string \<times> js_string \<Rightarrow> nat \<Rightarrow> js_string" where
  "session_place opts d now = abs_path (repo_names opts @ [jsonlSessionDirectoryName (snd d), sessionFileName now (fst d)])"

lemma staged_name: "file_id (n @ js ''.tmp'') = None"
proof -
  have "\<not> ends_in (t :: js_string) (js ''.jsonl'')" if "ends_in t (js ''.tmp'') \<or> length t < 4" for t
    using that by (auto simp: ends_in_iff js_def append_eq_append_conv2 append_eq_Cons_conv)
  moreover have "ends_in (drop k (n @ js ''.tmp'')) (js ''.tmp'') \<or> length (drop k (n @ js ''.tmp'')) < 4" for k
    by (cases "k \<le> length n") (auto simp: ends_in_iff js_def)
  moreover have "tl (dropWhile P s) = drop (Suc (length (takeWhile P s))) s" for P and s :: js_string
    by (simp add: dropWhile_eq_drop drop_Suc tl_drop)
  ultimately show ?thesis by (simp add: file_id_def Let_def)
qed

lemma join_last_append: "join_on c (ls @ [m, l @ t]) = join_on c (ls @ [m, l]) @ t"
  by (induction ls) (simp_all add: join_on_Cons)

lemma session_place_simps:
  assumes "session_id_pattern (fst d)"
  shows "dirname (session_place opts d now) = session_dir opts (snd d)" "dirname (temp_path (session_place opts d now)) = session_dir opts (snd d)"
    "file_id (basename (session_place opts d now)) = Some (fst d)" "file_id (basename (temp_path (session_place opts d now))) = None"
proof -
  let ?ns = "repo_names opts @ [jsonlSessionDirectoryName (snd d)]" and ?n = "sessionFileName now (fst d)"
  have n: "clean_name ?n" "clean_name (?n @ js ''.tmp'')"
    using session_file_clean [OF assms, of now] by (auto simp: clean_name_def js_def)
  have p: "session_place opts d now = abs_path (?ns @ [?n])" by (simp add: session_place_def)
  have t: "temp_path (session_place opts d now) = abs_path (?ns @ [?n @ js ''.tmp''])"
    by (simp add: session_place_def temp_path_def abs_path_def join_last_append)
  show "dirname (session_place opts d now) = session_dir opts (snd d)" "dirname (temp_path (session_place opts d now)) = session_dir opts (snd d)"
    unfolding t unfolding p session_dir_def by (rule dirname_abs_path [OF n(1) session_dir_clean] dirname_abs_path [OF n(2) session_dir_clean])+
  show "file_id (basename (session_place opts d now)) = Some (fst d)" "file_id (basename (temp_path (session_place opts d now))) = None"
    unfolding t unfolding p basename_abs_path [OF n(1)] basename_abs_path [OF n(2)] by (rule file_id_name) (rule staged_name)
qed

text \<open>What holds of a creation in flight, and of the repository, its disk and its creations together.\<close>

definition flight_ok :: "repo_options \<Rightarrow> js_string set \<Rightarrow> fsys \<Rightarrow> flight \<Rightarrow> bool" where
  "flight_ok opts C fs f \<longleftrightarrow>
     session_id_pattern (fst (flight_destination f)) \<and> snd (flight_destination f) \<in> C \<and>
     (case f of
        Claimed _ _ _ \<Rightarrow> True
      | Free d _ _ \<Rightarrow> id_free fs (session_dir opts (snd d)) (fst d)
      | Ready d _ path _ \<Rightarrow> id_free fs (session_dir opts (snd d)) (fst d) \<and> is_directory (session_dir opts (snd d)) fs
          \<and> (\<exists>now. path = session_place opts d now))"

definition repo_inv :: "repo_options \<Rightarrow> js_string set \<Rightarrow> repo_world \<Rightarrow> bool" where
  "repo_inv opts C w \<longleftrightarrow>
     repo_ok opts (rw_repo w) \<and> disk_ok (rw_disk w)
     \<and> (\<forall>k f. map_of (rw_flights w) k = Some f \<longrightarrow>
          flight_ok opts C (rw_disk w) f \<and> destination_key (flight_destination f) \<in> set (jr_activeCreateDestinations (rw_repo w)))
     \<and> (\<forall>k f k' f'. map_of (rw_flights w) k = Some f \<longrightarrow> map_of (rw_flights w) k' = Some f' \<longrightarrow>
          flight_destination f = flight_destination f' \<longrightarrow> k = k')"

lemma repo_invD:
  assumes "repo_inv opts C w"
  shows "repo_ok opts (rw_repo w)" "disk_ok (rw_disk w)" "honest (rw_disk w)"
    "map_of (rw_flights w) k = Some f \<Longrightarrow> flight_ok opts C (rw_disk w) f"
    "map_of (rw_flights w) k = Some f \<Longrightarrow> destination_key (flight_destination f) \<in> set (jr_activeCreateDestinations (rw_repo w))"
    "map_of (rw_flights w) k = Some f \<Longrightarrow> map_of (rw_flights w) k' = Some f' \<Longrightarrow> k' \<noteq> k \<Longrightarrow> flight_destination f' \<noteq> flight_destination f"
  using assms unfolding repo_inv_def disk_ok_def by blast+

lemma flight_ok_grown: "grown {} fs fs' \<Longrightarrow> disk_ok fs \<Longrightarrow> flight_ok opts C fs f \<Longrightarrow> flight_ok opts C fs' f"
  using grown_same(2,3) [of fs fs'] by (auto simp: flight_ok_def split: flight.splits)

lemma settle_inv:
  assumes "repo_inv opts C w" "stepped opts (rw_repo w, rw_disk w) (r, fs)"
  shows "repo_inv opts C (w\<lparr>rw_repo := r, rw_disk := fs\<rparr>)"
proof -
  note w = repo_invD [OF assms(1)]
  have g: "grown {} (rw_disk w) fs" "repo_ok opts r" "jr_activeCreateDestinations r = jr_activeCreateDestinations (rw_repo w)"
    using assms(2) by (auto simp: stepped_def)
  show ?thesis using assms(1) g grown_same(1) [OF g(1) w(2)] flight_ok_grown [OF g(1) w(2)] unfolding repo_inv_def by simp
qed

lemma step_flight_inv:
  assumes "repo_inv opts C w" "grown {} (rw_disk w) (snd x)" "repo_ok opts (fst x)" "flight_ok opts C (snd x) f"
    and "set (jr_activeCreateDestinations (fst x)) = insert (destination_key (flight_destination f)) (set (jr_activeCreateDestinations (rw_repo w)))"
    and "\<And>k' f'. k' \<noteq> k \<Longrightarrow> map_of (rw_flights w) k' = Some f' \<Longrightarrow> flight_destination f' \<noteq> flight_destination f"
  shows "repo_inv opts C (step_flight k f x w)"
proof -
  note w = repo_invD [OF assms(1)]
  have m: "map_of (rw_flights (step_flight k f x w)) = (map_of (rw_flights w))(k \<mapsto> f)"
    by (simp add: step_flight_def delete_conv' fun_eq_iff)
  have d: "rw_repo (step_flight k f x w) = fst x" "rw_disk (step_flight k f x w) = snd x" by (simp_all add: step_flight_def)
  show ?thesis unfolding repo_inv_def m d
  proof (intro conjI allI impI)
    show "flight_ok opts C (snd x) g" if "((map_of (rw_flights w))(k \<mapsto> f)) j = Some g" for j g
      using that flight_ok_grown [OF assms(2) w(2) w(4)] assms(4) by (auto split: if_splits)
    show "destination_key (flight_destination g) \<in> set (jr_activeCreateDestinations (fst x))" if "((map_of (rw_flights w))(k \<mapsto> f)) j = Some g" for j g
      using that w(5) assms(5) by (auto split: if_splits)
    show "j = j'" if "((map_of (rw_flights w))(k \<mapsto> f)) j = Some g" "((map_of (rw_flights w))(k \<mapsto> f)) j' = Some g'"
        "flight_destination g = flight_destination g'" for j g j' g'
      using that assms(6) w(6) by (auto split: if_splits) (metis)+
  qed (use assms(3) grown_same(1) [OF assms(2) w(2)] in auto)
qed

lemma land_inv:
  assumes "repo_inv opts C w" "map_of (rw_flights w) k = Some f" "d = flight_destination f"
    and "repo_ok opts (fst x)" "jr_activeCreateDestinations (fst x) = jr_activeCreateDestinations (rw_repo w)" "disk_ok (snd x)"
    and "\<And>k' f'. k' \<noteq> k \<Longrightarrow> map_of (rw_flights w) k' = Some f' \<Longrightarrow> flight_ok opts C (snd x) f'"
  shows "repo_inv opts C (land k d x w)"
proof -
  note w = repo_invD [OF assms(1)]
  have m: "map_of (rw_flights (land k d x w)) = (map_of (rw_flights w))(k := None)" by (simp add: land_def delete_conv')
  have r: "rw_repo (land k d x w) = release d (fst x)" "rw_disk (land k d x w) = snd x" by (simp_all add: land_def)
  have valid: "session_id_pattern (fst (flight_destination g))" if "map_of (rw_flights w) j = Some g" for j g
    using w(4) [OF that] by (simp add: flight_ok_def)
  show ?thesis unfolding repo_inv_def m r
  proof (intro conjI allI impI)
    show "repo_ok opts (release d (fst x))" using assms(4) by (simp add: repo_ok_def release_def)
    show "flight_ok opts C (snd x) g" if "((map_of (rw_flights w))(k := None)) j = Some g" for j g
      using that assms(7) by (auto split: if_splits)
    show "destination_key (flight_destination g) \<in> set (jr_activeCreateDestinations (release d (fst x)))"
      if j: "((map_of (rw_flights w))(k := None)) j = Some g" for j g
    proof -
      have g: "map_of (rw_flights w) j = Some g" "j \<noteq> k" using j by (auto split: if_splits)
      then have "destination_key (flight_destination g) \<noteq> destination_key d"
        using destination_key_inj valid w(6) [OF assms(2) g] assms(2,3) by metis
      then show ?thesis using w(5) [OF g(1)] assms(5) by (simp add: release_def)
    qed
    show "j = j'" if "((map_of (rw_flights w))(k := None)) j = Some g" "((map_of (rw_flights w))(k := None)) j' = Some g'"
        "flight_destination g = flight_destination g'" for j g j' g'
      using that w(6) by (auto split: if_splits)
  qed (use assms(6) in simp)
qed

lemma resolve_looked:
  assumes "resolveCreateDestination fresh options (r, fs) = (a, y)"
  shows "looked opts (r, fs) y"
    "a = Inr d \<Longrightarrow> session_id_pattern (fst d) \<and> snd d = ro_absolute (jr_options r) (co_cwd options)"
proof -
  define i where "i = (case co_id options of None \<Rightarrow> fresh | Some i \<Rightarrow> i)"
  let ?m = "file_io (fs_absolutePath (jr_options r) (co_cwd options)) (js ''Failed to resolve session cwd '' @ co_cwd options)"
  have "looked opts (r, fs) y \<and> (a = Inr d \<longrightarrow> session_id_pattern (fst d) \<and> snd d = ro_absolute (jr_options r) (co_cwd options))"
  proof (cases "session_id_pattern i")
    case True
    then have run: "bindF (on_disk ?m) (\<lambda>cwd. pureF (Inr (i, cwd))) (r, fs) = (a, y)"
      using assms by (simp add: resolveCreateDestination_def i_def [symmetric] Let_def bindF_def pureF_def validateSessionId_def guardR_def)
    then show ?thesis
    proof (cases rule: bindF_cases)
      case (1 e)
      then show ?thesis using on_disk_looked [OF looking_calls(1)] by blast
    next
      case (2 cwd x1)
      have "cwd = ro_absolute (jr_options r) (co_cwd options)"
        using 2(1) resolve_value by (fastforce simp: on_disk_def file_io_Inr split: prod.splits)
      then show ?thesis using on_disk_looked [OF looking_calls(1) 2(1), of opts] 2(2) True by (auto simp: pureF_def)
    qed
  next
    case False
    then show ?thesis using assms
      by (simp add: resolveCreateDestination_def i_def [symmetric] Let_def bindF_def pureF_def validateSessionId_def guardR_def) auto
  qed
  then show "looked opts (r, fs) y" "a = Inr d \<Longrightarrow> session_id_pattern (fst d) \<and> snd d = ro_absolute (jr_options r) (co_cwd options)"
    by blast+
qed

lemma begin_inv:
  assumes "repo_inv opts C w" "ro_absolute opts (co_cwd options) \<in> C"
  shows "repo_inv opts C (repo_event_step pn po w (Begin k fresh options c))"
proof (cases "map_has (rw_flights w) k")
  case new: False
  note w = repo_invD [OF assms(1)]
  let ?x = "(rw_repo w, rw_disk w)"
  obtain a r1 fs1 where a: "resolveCreateDestination fresh options ?x = (a, r1, fs1)" by (metis prod_cases3)
  have st: "stepped opts ?x (r1, fs1)" using looked_stepped [OF resolve_looked(1) [OF a]] w(1,3) by simp
  show ?thesis
  proof (cases a)
    case (Inl e)
    then show ?thesis using new a settle_inv [OF assms(1) st] by (simp add: bindF_def)
  next
    case (Inr d)
    have d: "session_id_pattern (fst d)" "snd d \<in> C" using resolve_looked(2) [OF a Inr] w(1) assms(2) by (auto simp: repo_ok_def)
    show ?thesis
    proof (cases "destination_key d \<in> set (jr_activeCreateDestinations r1)")
      case True
      then show ?thesis using new a Inr settle_inv [OF assms(1) st] by (simp add: bindF_def claim_def)
    next
      case False
      let ?r = "r1\<lparr>jr_activeCreateDestinations := destination_key d # jr_activeCreateDestinations r1\<rparr>"
      have "repo_event_step pn po w (Begin k fresh options c) = step_flight k (Claimed d options c) (?r, fs1) w"
        using new a Inr False by (simp add: bindF_def claim_def pureF_def)
      moreover have "flight_destination f' \<noteq> d" if "map_of (rw_flights w) k' = Some f'" for k' f'
        using w(5) [OF that] False st by (auto simp: stepped_def)
      ultimately show ?thesis using step_flight_inv [OF assms(1), of "(?r, fs1)" "Claimed d options c" k] st d
        by (auto simp: stepped_def repo_ok_def flight_ok_def)
    qed
  qed
qed (use assms(1) in simp)

text \<open>A step that leaves the files alone: the creation ends or goes on.\<close>

lemma flight_step_inv:
  assumes "repo_inv opts C w" "map_of (rw_flights w) k = Some f" "stepped opts (rw_repo w, rw_disk w) y"
  shows "d = flight_destination f \<Longrightarrow> repo_inv opts C (land k d y w)"
    "flight_ok opts C (snd y) f' \<Longrightarrow> flight_destination f' = flight_destination f \<Longrightarrow> repo_inv opts C (step_flight k f' y w)"
proof -
  note w = repo_invD [OF assms(1)]
  have g: "grown {} (rw_disk w) (snd y)" "repo_ok opts (fst y)"
    "jr_activeCreateDestinations (fst y) = jr_activeCreateDestinations (rw_repo w)" using assms(3) by (simp_all add: stepped_def)
  show "d = flight_destination f \<Longrightarrow> repo_inv opts C (land k d y w)"
    using land_inv [OF assms(1,2) _ g(2,3) grown_same(1) [OF g(1) w(2)]] flight_ok_grown [OF g(1) w(2) w(4)] by simp
  show "repo_inv opts C (step_flight k f' y w)" if "flight_ok opts C (snd y) f'" "flight_destination f' = flight_destination f"
  proof (rule step_flight_inv [OF assms(1) g(1,2) that(1)])
    show "flight_destination g \<noteq> flight_destination f'" if "k' \<noteq> k" "map_of (rw_flights w) k' = Some g" for k' g
      using w(6) [OF assms(2) that(2,1)] \<open>flight_destination f' = flight_destination f\<close> by simp
  qed (use g(3) w(5) [OF assms(2)] that(2) in auto)
qed

lemma look_inv:
  assumes inv: "repo_inv opts C w" shows "repo_inv opts C (repo_event_step pn po w (Look k))"
proof (cases "\<exists>d options c. map_of (rw_flights w) k = Some (Claimed d options c)")
  case True
  note w = repo_invD [OF inv]
  obtain i cwd options c where f: "map_of (rw_flights w) k = Some (Claimed (i, cwd) options c)" using True by (metis prod.collapse)
  obtain a y where a: "look_for_id (i, cwd) (rw_repo w, rw_disk w) = (a, y)" by (cases "look_for_id (i, cwd) (rw_repo w, rw_disk w)")
  have st: "stepped opts (rw_repo w, rw_disk w) y" using looked_stepped [OF look_free(1) [OF a]] w(1,3) by simp
  then have g: "grown {} (rw_disk w) (snd y)" by (simp add: stepped_def)
  show ?thesis
  proof (cases a)
    case (Inr u)
    have "id_free (snd y) (session_dir opts cwd) i"
      using look_free(2) [OF a _ _ Inr, of opts] w(1,2) grown_same(2) [OF g w(2)] by simp
    then have "flight_ok opts C (snd y) (Free (i, cwd) options c)" using w(4) [OF f] by (simp add: flight_ok_def)
    then show ?thesis using flight_step_inv(2) [OF inv f st] f a Inr by simp
  qed (use flight_step_inv(1) [OF inv f st] f a in simp)
next
  case False
  then show ?thesis using inv by (auto split: option.splits flight.splits)
qed

lemma place_inv:
  assumes inv: "repo_inv opts C w" shows "repo_inv opts C (repo_event_step pn po w (Place k now))"
proof (cases "\<exists>d options c. map_of (rw_flights w) k = Some (Free d options c)")
  case True
  note w = repo_invD [OF inv]
  obtain i cwd options c where f: "map_of (rw_flights w) k = Some (Free (i, cwd) options c)" using True by (metis prod.collapse)
  have fl: "session_id_pattern i" "id_free (rw_disk w) (session_dir opts cwd) i" "cwd \<in> C"
    using w(4) [OF f] by (simp_all add: flight_ok_def)
  obtain a y where a: "place_session now (i, cwd) options (rw_repo w, rw_disk w) = (a, y)"
    by (cases "place_session now (i, cwd) options (rw_repo w, rw_disk w)")
  have st: "stepped opts (rw_repo w, rw_disk w) y" and ready: "\<And>h path. a = Inr (h, path) \<Longrightarrow>
      path = session_place opts (i, cwd) now \<and> is_directory (session_dir opts cwd) (snd y)"
    using place_ready [OF a, of opts] w(1,3) fl(1) by (simp_all add: session_place_def)
  then have g: "grown {} (rw_disk w) (snd y)" by (simp add: stepped_def)
  show ?thesis
  proof (cases a)
    case (Inr v)
    obtain h path where v: "v = (h, path)" by (cases v)
    have "flight_ok opts C (snd y) (Ready (i, cwd) h path c)"
      using ready [of h path] Inr v fl grown_same(2) [OF g w(2) fl(2)] by (auto simp: flight_ok_def)
    then show ?thesis using flight_step_inv(2) [OF inv f st] f a Inr v by simp
  qed (use flight_step_inv(1) [OF inv f st] f a in simp)
next
  case False
  then show ?thesis using inv by (auto split: option.splits flight.splits)
qed

text \<open>Publishing adds the file of a claimed id, so it takes the id from no other creation.\<close>

lemma session_dir_inj:
  assumes "inj_on jsonlSessionDirectoryName C" "c \<in> C" "c' \<in> C" "session_dir opts c = session_dir opts c'" shows "c = c'"
  using assms(4) abs_path_inject [OF session_dir_clean session_dir_clean, of opts c opts c'] inj_onD [OF assms(1) _ assms(2,3)]
  by (simp add: session_dir_def)

lemma publish_inv:
  assumes inv: "repo_inv opts C w" and names: "inj_on jsonlSessionDirectoryName C"
  shows "repo_inv opts C (repo_event_step pn po w (Publish k))"
proof (cases "\<exists>d h path c. map_of (rw_flights w) k = Some (Ready d h path c)")
  case True
  note w = repo_invD [OF inv]
  obtain d h path c where f: "map_of (rw_flights w) k = Some (Ready d h path c)" using True by blast
  have fl: "session_id_pattern (fst d)" "snd d \<in> C" "id_free (rw_disk w) (session_dir opts (snd d)) (fst d)"
      "is_directory (session_dir opts (snd d)) (rw_disk w)" "\<exists>now. path = session_place opts d now"
    using w(4) [OF f] by (simp_all add: flight_ok_def)
  then obtain now where path: "path = session_place opts d now" by blast
  define fs where "fs = snd (publish_creation pn po c path h (rw_disk w))"
  have "grown {path, temp_path path} (rw_disk w) fs" unfolding fs_def by (rule grown_start [OF w(3) publish_creation_keeps]) auto
  note g = grown_session [OF this w(2) fl(4,3) session_place_simps [OF fl(1), of opts now, folded path]]
  have "flight_ok opts C fs f'" if "k' \<noteq> k" "map_of (rw_flights w) k' = Some f'" for k' f'
  proof -
    have f': "flight_destination f' \<noteq> d" "flight_ok opts C (rw_disk w) f'" using w(6) [OF f that(2,1)] w(4) [OF that(2)] by simp_all
    then have "session_dir opts (snd (flight_destination f')) \<noteq> session_dir opts (snd d) \<or> fst (flight_destination f') \<noteq> fst d"
      using session_dir_inj [OF names _ fl(2)] by (auto simp: flight_ok_def prod_eq_iff)
    then show ?thesis using f'(2) g(2,3) by (cases f') (auto simp: flight_ok_def)
  qed
  moreover have "repo_event_step pn po w (Publish k) = land k d (rw_repo w, fs) w" using f by (simp add: fs_def on_disk_def case_prod_beta)
  ultimately show ?thesis using land_inv [OF inv f, of d "(rw_repo w, fs)"] w(1) g(1) by simp
next
  case False
  then show ?thesis using inv by (auto split: option.splits flight.splits)
qed

lemma delete_inv: "repo_inv opts C w \<Longrightarrow> repo_inv opts C (repo_event_step pn po w (Delete md))"
proof -
  assume inv: "repo_inv opts C w"
  note w = repo_invD [OF inv]
  let ?m = "file_io (fs_remove (jm_path md) True) (js ''Failed to delete session '' @ jm_path md)"
  have "stepped opts (rw_repo w, rw_disk w) (rw_repo w, snd (?m (rw_disk w)))"
    using grown_start [OF w(3) remove_keeps] w(1) by (auto simp: stepped_def)
  from settle_inv [OF inv this] show ?thesis by (simp add: jsonl_repo_delete_def on_disk_def case_prod_beta)
qed

definition event_cwds :: "repo_options \<Rightarrow> repo_event list \<Rightarrow> js_string set" where
  "event_cwds opts evs = (\<Union>e\<in>set evs. case e of Begin _ _ options _ \<Rightarrow> {ro_absolute opts (co_cwd options)} | _ \<Rightarrow> {})"

lemma events_inv:
  assumes "repo_inv opts C w" "inj_on jsonlSessionDirectoryName C" "event_cwds opts evs \<subseteq> C"
  shows "repo_inv opts C (foldl (repo_event_step pn po) w evs)"
  using assms(1,3)
proof (induction evs arbitrary: w)
  case (Cons e evs)
  have rest: "event_cwds opts evs \<subseteq> C" using Cons.prems(2) by (simp add: event_cwds_def)
  have "repo_inv opts C (repo_event_step pn po w e)"
    using Cons.prems begin_inv look_inv place_inv publish_inv [OF _ assms(2)] delete_inv by (cases e) (auto simp: event_cwds_def simp del: repo_event_step.simps)
  then show ?case using Cons.IH [OF _ rest] by simp
qed simp

section \<open>A disk without faults\<close>

lemma healthy_calls:
  assumes "healthy fs"
  shows "file_io (fs_absolutePath opts p) msg fs = (Inr (ro_absolute opts p), fs)"
    "file_io (fs_joinPath ps) msg fs = (Inr (join_path ps), fs)"
    "file_io (fs_exists p) msg fs = (Inr (map_has (fs_nodes fs) p), fs)"
    "is_directory p fs \<Longrightarrow> file_io (fs_listDir p) msg fs =
       (Inr (map (\<lambda>(q, n). info_of q n) (filter (\<lambda>(q, _). q \<noteq> p \<and> dirname q = p) (fs_nodes fs))), fs)"
    "\<forall>q\<in>set (path_prefixes p). map_has (fs_nodes fs) q \<longrightarrow> is_directory q fs \<Longrightarrow>
       file_io (fs_createDir p) msg fs = (Inr (), foldl make_dir fs (path_prefixes p))"
  using assms
  by (auto simp: file_io_def fileResult_def fs_absolutePath_def fs_resolve_def fs_joinPath_def fs_exists_def fs_fileInfo_def
      fs_listDir_def fs_createDir_def fs_call_healthy map_has_def is_directory_def split: option.splits fs_node.splits if_splits)

text \<open>A repository whose root did not fail to resolve, and the same one with the root at hand.\<close>

definition rootable :: "repo_options \<Rightarrow> jsonl_repo \<Rightarrow> bool" where
  "rootable opts r = (repo_ok opts r \<and> (\<forall>e. jr_rootPromise r \<noteq> Some (Inl e)))"

definition rooted :: "repo_options \<Rightarrow> jsonl_repo \<Rightarrow> jsonl_repo" where
  "rooted opts r = r\<lparr>jr_rootPromise := Some (Inr (ro_absolute opts (ro_sessionsRoot opts)))\<rparr>"

lemma rooted_simps [simp]:
  "rooted opts (rooted opts r) = rooted opts r" "jr_options (rooted opts r) = jr_options r"
  "jr_activeCreateDestinations (rooted opts r) = jr_activeCreateDestinations r" "rootable opts r \<Longrightarrow> rootable opts (rooted opts r)"
  by (auto simp: rooted_def rootable_def repo_ok_def)

lemma directory_healthy:
  assumes "healthy fs" "rootable opts r"
  shows "repo_sessionDirectory cwd (r, fs) = (Inr (session_dir opts cwd), rooted opts r, fs)"
proof -
  have root: "repo_rootPath (r, fs) = (Inr (ro_absolute opts (ro_sessionsRoot opts)), rooted opts r, fs)"
  proof (cases "jr_rootPromise r")
    case None
    then show ?thesis using assms by (simp add: repo_rootPath_def jsonlSessionsRoot_def healthy_calls rootable_def repo_ok_def rooted_def)
  next
    case (Some x)
    then have "x = Inr (ro_absolute opts (ro_sessionsRoot opts))" using assms(2) by (cases x) (auto simp: rootable_def repo_ok_def)
    then show ?thesis using Some by (simp add: repo_rootPath_def rooted_def)
  qed
  have "join_path [ro_absolute opts (ro_sessionsRoot opts), jsonlSessionDirectoryName cwd] = session_dir opts cwd"
    using join_absolute [OF _ directory_name_clean] assms(2) by (simp add: session_dir_def repo_names_def rootable_def repo_ok_def)
  then show ?thesis using healthy_calls(2) [OF assms(1)] by (simp add: repo_sessionDirectory_def bindF_def root on_disk_def)
qed

text \<open>The directory of the sessions of a working directory can be made, and no name in it has the ending of the id.\<close>

definition makeable :: "fsys \<Rightarrow> js_string \<Rightarrow> bool" where
  "makeable fs p = list_all (\<lambda>q. map_has (fs_nodes fs) q \<longrightarrow> is_directory q fs) (path_prefixes p)"

definition name_free :: "fsys \<Rightarrow> js_string \<Rightarrow> js_string \<Rightarrow> bool" where
  "name_free fs dir i = list_all (\<lambda>(p, _). dirname p = dir \<longrightarrow> \<not> ends_in (basename p) (js ''_'' @ i @ js ''.jsonl'')) (fs_nodes fs)"

lemma session_dir_makeable: "makeable fs (session_dir opts cwd) \<Longrightarrow> map_has (fs_nodes fs) (session_dir opts cwd) \<Longrightarrow> is_directory (session_dir opts cwd) fs"
  using last_prefix [OF session_dir_clean] by (simp add: makeable_def session_dir_def list_all_iff)

lemma look_healthy:
  assumes "healthy fs" "rootable opts r" "makeable fs (session_dir opts cwd)" "name_free fs (session_dir opts cwd) i"
  shows "look_for_id (i, cwd) (r, fs) = (Inr (), rooted opts r, fs)"
proof -
  let ?d = "session_dir opts cwd"
  have "sessionIdExists i cwd (r, fs) = (Inr False, rooted opts r, fs)"
  proof (cases "map_has (fs_nodes fs) ?d")
    case True
    have "\<not> list_ex (\<lambda>e. fi_kind e \<noteq> Kind_directory \<and> ends_in (fi_name e) (js ''_'' @ i @ js ''.jsonl''))
        (map (\<lambda>(q, n). info_of q n) (filter (\<lambda>(q, _). q \<noteq> ?d \<and> dirname q = ?d) (fs_nodes fs)))"
      using assms(4) by (auto simp: list_ex_iff name_free_def list_all_iff info_of_def)
    then show ?thesis using healthy_calls(3,4) [OF assms(1)] session_dir_makeable [OF assms(3) True] True
      by (simp add: sessionIdExists_def bindF_def directory_healthy [OF assms(1,2)] on_disk_def pureF_def)
  next
    case False
    then show ?thesis using healthy_calls(3) [OF assms(1)]
      by (simp add: sessionIdExists_def bindF_def directory_healthy [OF assms(1,2)] on_disk_def pureF_def)
  qed
  then show ?thesis by (simp add: look_for_id_def bindF_def pureF_def)
qed

definition new_header :: "nat \<Rightarrow> js_string \<times> js_string \<Rightarrow> create_options \<Rightarrow> jsonl_header" where
  "new_header now d options = \<lparr>hd_id = fst d, hd_createdAt = now, hd_cwd = snd d, hd_parentSessionId = co_parentSessionId options,
     hd_legacyParentSessionPath = None, hd_metadata = co_metadata options\<rparr>"

definition metadata_ok :: "create_options \<Rightarrow> bool" where
  "metadata_ok options = (case co_metadata options of None \<Rightarrow> True | Some es \<Rightarrow> tree_loop [JObject False es] = Inr ())"

lemma place_healthy:
  assumes "healthy fs" "rootable opts r" "makeable fs (session_dir opts cwd)" "session_id_pattern i" "metadata_ok options"
  shows "place_session now (i, cwd) options (r, fs) =
    (Inr (new_header now (i, cwd) options, session_place opts (i, cwd) now), rooted opts r, foldl make_dir fs (path_prefixes (session_dir opts cwd)))"
proof -
  have "(case co_metadata options of None \<Rightarrow> Inr () | Some es \<Rightarrow> liftS (tree_loop [JObject False es])) = Inr ()"
    using assms(5) by (auto simp: metadata_ok_def liftS_def split: option.splits)
  then show ?thesis
    using healthy_calls(2,5) [OF assms(1)] session_path [OF session_file_clean [OF assms(4)]] assms(3)
    by (simp add: place_session_def bindF_def directory_healthy [OF assms(1,2)] on_disk_def pureF_def Let_def new_header_def
        session_place_def makeable_def list_all_iff)
qed

lemma make_dir_nodes:
  "map_of (fs_nodes (make_dir fs p)) q = (case map_of (fs_nodes fs) q of Some n \<Rightarrow> Some n | None \<Rightarrow> if q = p then Some (DirNode (fs_clock fs)) else None)"
  "healthy (make_dir fs p) = healthy fs" "fs_clock (make_dir fs p) = fs_clock fs"
  by (auto simp: make_dir_def map_has_def healthy_def map_add_def split: option.splits)

lemma make_dir_distinct: "distinct (map fst (fs_nodes fs)) \<Longrightarrow> distinct (map fst (fs_nodes (make_dir fs p)))"
  by (auto simp: make_dir_def map_has_iff)

lemma make_dirs_nodes:
  "map_of (fs_nodes (foldl make_dir fs ps)) q =
     (case map_of (fs_nodes fs) q of Some n \<Rightarrow> Some n | None \<Rightarrow> if q \<in> set ps then Some (DirNode (fs_clock fs)) else None)"
  "healthy (foldl make_dir fs ps) = healthy fs" "fs_clock (foldl make_dir fs ps) = fs_clock fs"
  "distinct (map fst (fs_nodes fs)) \<Longrightarrow> distinct (map fst (fs_nodes (foldl make_dir fs ps)))"
proof (induction ps arbitrary: fs)
  case (Cons p ps)
  { case 1 show ?case by (cases "map_of (fs_nodes fs) q") (simp_all add: Cons.IH(1) make_dir_nodes) }
  { case 2 then show ?case using Cons.IH(2) make_dir_nodes by simp }
  { case 3 then show ?case using Cons.IH(3) make_dir_nodes by simp }
  { case 4 then show ?case using Cons.IH(4) make_dir_distinct by simp }
qed (auto split: option.splits)

lemma longer_path:
  assumes "list_all clean_name (ns @ [n])" shows "abs_path (ns @ [n]) \<noteq> abs_path (take k ns)"
proof
  assume "abs_path (ns @ [n]) = abs_path (take k ns)"
  moreover have "list_all clean_name (take k ns)" using assms by (auto simp: list_all_iff dest: in_set_takeD)
  ultimately have "ns @ [n] = take k ns" using abs_path_inject [OF assms] by blast
  then show False by (metis append_take_drop_id append_assoc append_self_conv snoc_eq_iff_butlast)
qed

lemma place_fresh:
  assumes "name_free fs (session_dir opts (snd d)) (fst d)" "session_id_pattern (fst d)"
  shows "map_of (fs_nodes (foldl make_dir fs (path_prefixes (session_dir opts (snd d))))) (session_place opts d now) = None"
proof -
  let ?ns = "repo_names opts @ [jsonlSessionDirectoryName (snd d)]" and ?n = "sessionFileName now (fst d)"
  have dirs: "path_prefixes (session_dir opts (snd d)) = map (\<lambda>k. abs_path (take k ?ns)) [1 ..< Suc (length ?ns)]"
    by (simp only: path_prefixes_def session_dir_def walk_abs_path [OF session_dir_clean])
  have "abs_path (?ns @ [?n]) \<noteq> abs_path (take k ?ns)" for k
    using longer_path [of ?ns ?n k] session_dir_clean [of opts "snd d"] session_file_clean [OF assms(2), of now] by simp
  moreover have "session_place opts d now = abs_path (?ns @ [?n])" by (simp add: session_place_def)
  ultimately have "session_place opts d now \<notin> set (path_prefixes (session_dir opts (snd d)))"
    unfolding dirs set_map image_iff by metis
  moreover have "map_of (fs_nodes fs) (session_place opts d now) = None"
  proof (rule ccontr)
    assume "map_of (fs_nodes fs) (session_place opts d now) \<noteq> None"
    then obtain n where "(session_place opts d now, n) \<in> set (fs_nodes fs)" by (auto dest: map_of_SomeD)
    then show False using assms session_place_simps [OF assms(2), of opts now] file_id_ends
      by (fastforce simp: name_free_def list_all_iff)
  qed
  ultimately show ?thesis by (simp add: make_dirs_nodes(1))
qed

text \<open>What a create without faults leaves behind.\<close>

definition created_disk ::
    "(js_number \<Rightarrow> string) \<Rightarrow> (string \<Rightarrow> js_string) \<Rightarrow> repo_options \<Rightarrow> nat \<Rightarrow> js_string \<times> js_string \<Rightarrow> create_options \<Rightarrow> fsys \<Rightarrow> fsys" where
  "created_disk pn po opts now d options fs =
     put_text (session_place opts d now) (header_line pn po (new_header now d options) @ [LF])
       (foldl make_dir fs (path_prefixes (session_dir opts (snd d))))"

lemma publish_healthy_new:
  assumes "healthy fs" "storable_header pn h" "\<not> is_directory path fs"
  shows "jsonl_create pn po path h fs =
    (Inr (new_jsonl_storage (metadataFromHeader h path (fs_clock fs))), put_text path (header_line pn po h @ [LF]) fs)"
proof -
  have "healthy (put_text path (header_line pn po h @ [LF]) fs)" using assms(1) by (simp add: put_text_simps)
  moreover have "map_of (fs_nodes (put_text path (header_line pn po h @ [LF]) fs)) path = Some (FileNode (header_line pn po h @ [LF]) (fs_clock fs))"
    by (simp add: put_text_simps)
  ultimately show ?thesis
    by (simp add: jsonl_create_def line_io_def header_line(1) [OF assms(2)] bindF_def write_healthy [OF assms(1,3)] info_healthy info_of_def pureF_def)
qed

lemma create_healthy:
  assumes "healthy fs" "rootable opts r" "makeable fs (session_dir opts (snd d))" "name_free fs (session_dir opts (snd d)) (fst d)"
    and "session_id_pattern (fst d)" "metadata_ok options" "storable_header pn (new_header now d options)"
    and "co_id options = Some (fst d)" "ro_absolute opts (co_cwd options) = snd d" "destination_key d \<notin> set (jr_activeCreateDestinations r)"
  shows "jsonl_repo_create pn po now fresh options (r, fs) =
    (Inr (new_jsonl_storage (metadataFromHeader (new_header now d options) (session_place opts d now) (fs_clock fs))),
     rooted opts r, created_disk pn po opts now d options fs)"
proof -
  obtain i cwd where d: "d = (i, cwd)" by (cases d)
  define r1 where "r1 = r\<lparr>jr_activeCreateDestinations := destination_key d # jr_activeCreateDestinations r\<rparr>"
  have r1: "rootable opts r1" using assms(2) by (simp add: r1_def rootable_def repo_ok_def)
  have opts: "jr_options r = opts" using assms(2) by (simp add: rootable_def repo_ok_def)
  have resolved: "resolveCreateDestination fresh options (r, fs) = (Inr d, r, fs)"
    using healthy_calls(1) [OF assms(1)] assms(5,8,9) opts
    by (simp add: resolveCreateDestination_def bindF_def pureF_def validateSessionId_def guardR_def on_disk_def d)
  have claimed: "claim d (r, fs) = (Inr (), r1, fs)" using assms(10) by (simp add: claim_def r1_def)
  let ?fs = "foldl make_dir fs (path_prefixes (session_dir opts cwd))"
  have freed: "release d (rooted opts (rooted opts r1)) = rooted opts r"
    using assms(10) by (simp add: release_def rooted_def r1_def removeAll_id)
  have new: "\<not> is_directory (session_place opts d now) ?fs" using place_fresh [OF assms(4,5)] by (simp add: is_directory_def d)
  have created: "jsonl_create pn po (session_place opts d now) (new_header now d options) ?fs =
      (Inr (new_jsonl_storage (metadataFromHeader (new_header now d options) (session_place opts d now) (fs_clock fs))), created_disk pn po opts now d options fs)"
    using publish_healthy_new [OF _ assms(7) new] assms(1) by (simp add: make_dirs_nodes(2,3) created_disk_def d)
  have looked: "look_for_id d (r1, fs) = (Inr (), rooted opts r1, fs)" using look_healthy [OF assms(1) r1] assms(3,4) by (simp add: d)
  have placed: "place_session now d options (rooted opts r1, fs) = (Inr (new_header now d options, session_place opts d now), rooted opts (rooted opts r1), ?fs)"
    using place_healthy [OF assms(1) rooted_simps(4) [OF r1], of cwd i options now] assms(3,5,6) by (simp add: d)
  show ?thesis
    by (simp add: jsonl_repo_create_def claimCreateDestination_def prepareCreate_def bindF_def resolved claimed under_claim_def looked placed
        on_disk_def created freed del: rooted_simps(1))
qed

lemma header_line_no_cr:
  assumes "storable_header pn h" shows "CR \<notin> set (header_line pn po h)"
proof -
  have data: "json_value (header_object h)" "readable_numbers pn (header_object h)" using assms by (simp_all add: storable_header_def json_data_def)
  then obtain t where t: "stringify pn po (header_object h) = JsonText t" using json_value_text by blast
  then have "header_line pn po h = t" by (simp add: header_line_def encodeHeader_def json_line_def)
  then show ?thesis using stringify_printable [OF data t, of CR] by (auto simp: CR_def)
qed

lemma forF_healthy: "\<forall>x\<in>set xs. f x s = (Inr (g x), s) \<Longrightarrow> forF xs f s = (Inr (concat (map g xs)), s)"
  by (induction xs) (simp_all add: bindF_def pureF_def)

text \<open>What the listing makes of the text of a file.\<close>

definition listed_text :: "js_string \<Rightarrow> js_string \<Rightarrow> nat \<Rightarrow> jsonl_metadata list" where
  "listed_text path t mtime =
     (case first_lines t of
        [] \<Rightarrow> []
      | l # _ \<Rightarrow> if l = [] then [] else (case parseHeader l of Inl _ \<Rightarrow> [] | Inr h \<Rightarrow> [metadataFromHeader h path mtime]))"

lemma list_file_healthy:
  assumes "healthy fs" "text_at fs (fi_path e) = Some t"
  shows "list_file e fs = (Inr (listed_text (fi_path e) t (fi_mtimeMs e)), fs)"
  using assms by (auto simp: list_file_def bindF_def pureF_def file_io_def fileResult_def fs_readFirstLine_def fs_readTextFile_def
      fs_call_healthy listed_text_def text_at_node)

text \<open>The line of a header is the first line as the listing reads it.\<close>

definition one_line :: "js_string \<Rightarrow> bool" where
  "one_line t = list_all (\<lambda>c. c \<noteq> 0x2028 \<and> c \<noteq> 0x2029) t"

lemma listed_header:
  assumes "storable_header pn h" "one_line (header_line pn po h)"
  shows "listed_text p (header_line pn po h @ [LF]) m = [metadataFromHeader h p m]"
proof -
  have "takeWhile (\<lambda>c. \<not> line_terminator c) (header_line pn po h @ [LF]) = header_line pn po h"
    using header_line(2) [OF assms(1)] header_line_no_cr [OF assms(1)] assms(2)
    by (subst takeWhile_append2) (auto simp: line_terminator_def one_line_def list_all_iff)
  then show ?thesis using header_line(3,4) [OF assms(1)] by (simp add: listed_text_def first_lines_def)
qed

definition session_files :: "fsys \<Rightarrow> js_string \<Rightarrow> file_info list" where
  "session_files fs d = filter (\<lambda>e. fi_kind e \<noteq> Kind_directory \<and> ends_in (fi_name e) (js ''.jsonl''))
     (map (\<lambda>(q, n). info_of q n) (filter (\<lambda>(q, _). q \<noteq> d \<and> dirname q = d) (fs_nodes fs)))"

lemma list_healthy:
  assumes "healthy fs" "distinct (map fst (fs_nodes fs))" "rootable opts r" "is_directory (session_dir opts (ro_absolute opts c)) fs"
  shows "jsonl_repo_list (Some c) (r, fs) =
    (Inr (sort_key (\<lambda>m. - int (jm_modifiedAt m)) (concat (map (\<lambda>e. listed_text (fi_path e) (the (text_at fs (fi_path e))) (fi_mtimeMs e))
       (session_files fs (session_dir opts (ro_absolute opts c)))))), r, fs)"
proof -
  let ?d = "session_dir opts (ro_absolute opts c)"
  have d: "join_path [ro_absolute opts (ro_sessionsRoot opts), jsonlSessionDirectoryName (ro_absolute opts c)] = ?d"
    using join_absolute [OF _ directory_name_clean] assms(3) by (simp add: session_dir_def repo_names_def rootable_def repo_ok_def)
  have here: "map_has (fs_nodes fs) ?d" using assms(4) by (auto simp: is_directory_def map_has_def split: option.splits)
  have "jsonlSessionDirectories opts (Some c) fs = (Inr [?d], fs)"
    using healthy_calls(1-3) [OF assms(1)] d here
    by (simp add: jsonlSessionDirectories_def jsonlSessionsRoot_def jsonlSessionDirectory_def bindF_def pureF_def)
  moreover have "text_at fs (fi_path e) \<noteq> None" if mem: "e \<in> set (session_files fs ?d)" for e
  proof -
    obtain q n where q: "(q, n) \<in> set (fs_nodes fs)" "e = info_of q n" "fi_kind e \<noteq> Kind_directory"
      using mem by (auto simp: session_files_def)
    then have "map_of (fs_nodes fs) q = Some n" using assms(2) by simp
    then show ?thesis using q by (cases n) (auto simp: info_of_def text_at_def)
  qed
  then have "forF (session_files fs ?d) list_file fs =
      (Inr (concat (map (\<lambda>e. listed_text (fi_path e) (the (text_at fs (fi_path e))) (fi_mtimeMs e)) (session_files fs ?d))), fs)"
    using list_file_healthy [OF assms(1)] by (intro forF_healthy) force
  moreover have "jr_options r = opts" using assms(3) by (simp add: rootable_def repo_ok_def)
  ultimately show ?thesis using healthy_calls(4) [OF assms(1,4)]
    by (simp add: jsonl_repo_list_def on_disk_def listJsonlSessionMetadata_def bindF_def pureF_def session_files_def)
qed

lemma created_listed:
  assumes "healthy fs" "distinct (map fst (fs_nodes fs))" "rootable opts r" "makeable fs (session_dir opts (snd d))"
    and "name_free fs (session_dir opts (snd d)) (fst d)" "session_id_pattern (fst d)" "storable_header pn (new_header now d options)"
    and "ro_absolute opts (co_cwd options) = snd d" "one_line (header_line pn po (new_header now d options))"
  shows "\<exists>ms. jsonl_repo_list (Some (co_cwd options)) (r, created_disk pn po opts now d options fs) = (Inr ms, r, created_disk pn po opts now d options fs)
    \<and> metadataFromHeader (new_header now d options) (session_place opts d now) (fs_clock fs) \<in> set ms"
proof -
  let ?p = "session_place opts d now" and ?dir = "session_dir opts (snd d)" and ?t = "header_line pn po (new_header now d options) @ [LF]"
  define fs1 where "fs1 = foldl make_dir fs (path_prefixes ?dir)"
  define fs2 where "fs2 = created_disk pn po opts now d options fs"
  have fs2: "fs2 = put_text ?p ?t fs1" by (simp add: fs2_def fs1_def created_disk_def)
  have h: "healthy fs2" using assms(1) by (simp add: fs2 fs1_def put_text_simps make_dirs_nodes(2))
  have dist: "distinct (map fst (fs_nodes fs2))"
    using distinct_update [OF make_dirs_nodes(4) [OF assms(2)]] by (simp add: fs2 put_text_def fs1_def)
  note place = session_place_simps [OF assms(6), of opts now]
  have node: "map_of (fs_nodes fs2) ?p = Some (FileNode ?t (fs_clock fs))"
    by (simp add: fs2 put_text_simps fs1_def make_dirs_nodes(3))
  have "is_directory ?dir fs1" using make_dirs_made [of "path_prefixes ?dir" fs ?dir] assms(4) last_prefix [OF session_dir_clean]
    by (simp add: fs1_def makeable_def list_all_iff session_dir_def)
  then have dir: "is_directory ?dir fs2" "?p \<noteq> ?dir" using place_fresh [OF assms(5,6), of now]
    by (auto simp: fs2 is_directory_def put_text_simps fs1_def)
  have "ends_in (sessionFileName now (fst d)) (js ''.jsonl'')" unfolding ends_in_iff sessionFileName_stamp by (intro exI [of _ "file_stamp now @ js ''_'' @ fst d"]) simp
  moreover have "basename ?p = sessionFileName now (fst d)"
    using basename_abs_path [OF session_file_clean [OF assms(6)], of "repo_names opts @ [jsonlSessionDirectoryName (snd d)]" now] by (simp add: session_place_def)
  ultimately have "info_of ?p (FileNode ?t (fs_clock fs)) \<in> set (session_files fs2 ?dir)"
    using map_of_SomeD [OF node] place(1) dir(2) by (force simp: session_files_def info_of_def)
  moreover have "listed_text ?p ?t (fs_clock fs) = [metadataFromHeader (new_header now d options) ?p (fs_clock fs)]"
    by (rule listed_header [OF assms(7,9)])
  moreover have "text_at fs2 ?p = Some ?t" using node by (simp add: text_at_def)
  ultimately show ?thesis using list_healthy [OF h dist assms(3), of "co_cwd options"] dir(1) assms(8)
    by (force simp: info_of_def fs2_def [symmetric])
qed

lemma created_opens:
  assumes "healthy fs" "storable_header pn (new_header now d options)" "map_of (fs_nodes (foldl make_dir fs (path_prefixes (session_dir opts (snd d))))) (session_place opts d now) = None"
  shows "\<exists>st. jsonl_repo_open (metadataFromHeader (new_header now d options) (session_place opts d now) m) (r, created_disk pn po opts now d options fs) =
    (Inr st, r, created_disk pn po opts now d options fs) \<and> jstate st = init_state"
proof -
  let ?h = "new_header now d options" and ?p = "session_place opts d now"
  define fs1 where "fs1 = foldl make_dir fs (path_prefixes (session_dir opts (snd d)))"
  define fs2 where "fs2 = created_disk pn po opts now d options fs"
  have fs1: "healthy fs1" "\<not> is_directory ?p fs1" using assms(1,3) by (simp_all add: fs1_def make_dirs_nodes(2) is_directory_def)
  have fs2: "fs2 = put_text ?p (header_line pn po ?h @ [LF]) fs1" by (simp add: fs2_def fs1_def created_disk_def)
  let ?st = "new_jsonl_storage (metadataFromHeader ?h ?p (fs_clock fs1))"
  have h: "healthy fs2" "durable pn po ?st fs2" "jm_path (jmeta ?st) = ?p"
    using create_durable [OF fs1(1) assms(2) fs1(2), of po] publish_healthy_new [OF fs1(1) assms(2) fs1(2), of po] by (auto simp: fs2)
  obtain mt where "jsonl_load ?p fs2 = (Inr (?st\<lparr>jmeta := (jmeta ?st)\<lparr>jm_modifiedAt := mt\<rparr>\<rparr>), fs2)"
    using load_durable [OF h(1,2)] h(3) by auto
  moreover have "map_has (fs_nodes fs2) ?p" by (simp add: fs2 map_has_def put_text_simps)
  ultimately show ?thesis using healthy_calls(3) [OF h(1)] unfolding fs2_def [symmetric]
    by (simp add: jsonl_repo_open_def on_disk_def loadJsonlSessionStorage_def bindF_def pureF_def jsonl_getMetadata_def new_jsonl_storage_def
        metadataFromHeader_def new_header_def)
qed

text \<open>The steps of a creation on a disk without faults.\<close>

lemma step_flight_simps [simp]:
  "rw_repo (step_flight k f x w) = fst x" "rw_disk (step_flight k f x w) = snd x"
  "map_of (rw_flights (step_flight k f x w)) = (map_of (rw_flights w))(k \<mapsto> f)"
  by (simp_all add: step_flight_def delete_conv' fun_eq_iff)

lemma land_simps [simp]:
  "rw_repo (land k d x w) = release d (fst x)" "rw_disk (land k d x w) = snd x"
  "map_of (rw_flights (land k d x w)) = (map_of (rw_flights w))(k := None)"
  by (simp_all add: land_def delete_conv')

lemma healthy_steps:
  assumes "healthy (rw_disk w)" "rootable opts (rw_repo w)" "session_id_pattern (fst d)"
  shows "map_of (rw_flights w) k = None \<Longrightarrow> co_id options = Some (fst d) \<Longrightarrow> ro_absolute opts (co_cwd options) = snd d \<Longrightarrow>
      destination_key d \<notin> set (jr_activeCreateDestinations (rw_repo w)) \<Longrightarrow>
      repo_event_step pn po w (Begin k fresh options c) = step_flight k (Claimed d options c)
        ((rw_repo w)\<lparr>jr_activeCreateDestinations := destination_key d # jr_activeCreateDestinations (rw_repo w)\<rparr>, rw_disk w) w"
    "map_of (rw_flights w) k = Some (Claimed d options c) \<Longrightarrow> makeable (rw_disk w) (session_dir opts (snd d)) \<Longrightarrow>
      name_free (rw_disk w) (session_dir opts (snd d)) (fst d) \<Longrightarrow>
      repo_event_step pn po w (Look k) = step_flight k (Free d options c) (rooted opts (rw_repo w), rw_disk w) w"
    "map_of (rw_flights w) k = Some (Free d options c) \<Longrightarrow> makeable (rw_disk w) (session_dir opts (snd d)) \<Longrightarrow> metadata_ok options \<Longrightarrow>
      repo_event_step pn po w (Place k now) = step_flight k (Ready d (new_header now d options) (session_place opts d now) c)
        (rooted opts (rw_repo w), foldl make_dir (rw_disk w) (path_prefixes (session_dir opts (snd d)))) w"
    "map_of (rw_flights w) k = Some (Ready d h path NewSession) \<Longrightarrow> storable_header pn h \<Longrightarrow> \<not> is_directory path (rw_disk w) \<Longrightarrow>
      repo_event_step pn po w (Publish k) = land k d (rw_repo w, put_text path (header_line pn po h @ [LF]) (rw_disk w)) w"
proof -
  have opts: "jr_options (rw_repo w) = opts" using assms(2) by (simp add: rootable_def repo_ok_def)
  show "repo_event_step pn po w (Begin k fresh options c) = step_flight k (Claimed d options c)
        ((rw_repo w)\<lparr>jr_activeCreateDestinations := destination_key d # jr_activeCreateDestinations (rw_repo w)\<rparr>, rw_disk w) w"
    if "map_of (rw_flights w) k = None" "co_id options = Some (fst d)" "ro_absolute opts (co_cwd options) = snd d"
      "destination_key d \<notin> set (jr_activeCreateDestinations (rw_repo w))"
    using that healthy_calls(1) [OF assms(1)] assms(3) opts
    by (simp add: map_has_def resolveCreateDestination_def bindF_def pureF_def validateSessionId_def guardR_def on_disk_def claim_def)
  show "repo_event_step pn po w (Look k) = step_flight k (Free d options c) (rooted opts (rw_repo w), rw_disk w) w"
    if "map_of (rw_flights w) k = Some (Claimed d options c)" "makeable (rw_disk w) (session_dir opts (snd d))"
      "name_free (rw_disk w) (session_dir opts (snd d)) (fst d)"
    using that look_healthy [OF assms(1,2), of "snd d" "fst d"] by simp
  show "repo_event_step pn po w (Place k now) = step_flight k (Ready d (new_header now d options) (session_place opts d now) c)
        (rooted opts (rw_repo w), foldl make_dir (rw_disk w) (path_prefixes (session_dir opts (snd d)))) w"
    if "map_of (rw_flights w) k = Some (Free d options c)" "makeable (rw_disk w) (session_dir opts (snd d))" "metadata_ok options"
    using that place_healthy [OF assms(1,2) that(2) assms(3) that(3), of now] by simp
  show "repo_event_step pn po w (Publish k) = land k d (rw_repo w, put_text path (header_line pn po h @ [LF]) (rw_disk w)) w"
    if "map_of (rw_flights w) k = Some (Ready d h path NewSession)" "storable_header pn h" "\<not> is_directory path (rw_disk w)"
    using that publish_healthy_new [OF assms(1) that(2,3), of po] by (simp add: publish_creation_def on_disk_def)
qed

definition start_world :: "repo_options \<Rightarrow> fsys \<Rightarrow> repo_world" where
  "start_world opts fs = \<lparr>rw_repo = new_jsonl_repo opts, rw_disk = fs, rw_flights = []\<rparr>"

text \<open>Two creations that overlap: both look before either places its file.\<close>

definition overlapping :: "create_options \<Rightarrow> create_options \<Rightarrow> nat \<Rightarrow> nat \<Rightarrow> repo_event list" where
  "overlapping a b now1 now2 =
     [Begin 0 [] a NewSession, Begin 1 [] b NewSession, Look 0, Look 1, Place 0 now1, Place 1 now2, Publish 0, Publish 1]"

lemma make_dirs_texts [simp]: "text_at (foldl make_dir fs ps) = text_at fs"
  by (induction ps arbitrary: fs) (simp_all add: make_dir_simps(1))

lemma makeable_again: "makeable fs p \<Longrightarrow> makeable (foldl make_dir fs (path_prefixes p)) p"
  using make_dirs_made [of "path_prefixes p" fs] by (simp add: makeable_def list_all_iff)

lemma rootable_active [simp]: "rootable opts (r\<lparr>jr_activeCreateDestinations := ks\<rparr>) = rootable opts r"
  by (simp add: rootable_def repo_ok_def)

lemma overlapping_texts:
  assumes "healthy fs" "isAbsolute (ro_absolute opts (ro_sessionsRoot opts))" "session_id_pattern i"
    and "co_id a = Some i" "co_id b = Some i" "ro_absolute opts (co_cwd a) = x" "ro_absolute opts (co_cwd b) = y" "x \<noteq> y"
    and "session_dir opts x = session_dir opts y" "makeable fs (session_dir opts x)" "name_free fs (session_dir opts x) i" "metadata_ok a" "metadata_ok b"
    and "storable_header pn (new_header now1 (i, x) a)" "storable_header pn (new_header now2 (i, y) b)"
  shows "\<exists>t u. text_at (rw_disk (foldl (repo_event_step pn po) (start_world opts fs) (overlapping a b now1 now2)))
    = (text_at fs)(session_place opts (i, x) now1 \<mapsto> t, session_place opts (i, y) now2 \<mapsto> u)"
proof -
  let ?w0 = "start_world opts fs" and ?step = "repo_event_step pn po" and ?dir = "session_dir opts x"
  have r0: "rootable opts (rw_repo ?w0)" "rw_disk ?w0 = fs" "map_of (rw_flights ?w0) k = None" "jr_activeCreateDestinations (rw_repo ?w0) = []" for k
    using assms(2) by (simp_all add: start_world_def new_jsonl_repo_def rootable_def repo_ok_def)
  have keys: "destination_key (i, x) \<noteq> destination_key (i, y)" using assms(8) by (simp add: destination_key_def)
  define r2 where "r2 = (rw_repo ?w0)\<lparr>jr_activeCreateDestinations := [destination_key (i, y), destination_key (i, x)]\<rparr>"
  have r2: "rootable opts r2" "rootable opts (rooted opts r2)" using r0(1) by (simp_all add: r2_def)
  define w2 where "w2 = foldl ?step ?w0 [Begin 0 [] a NewSession, Begin 1 [] b NewSession]"
  have w2: "rw_repo w2 = r2" "rw_disk w2 = fs" "map_of (rw_flights w2) = [0 \<mapsto> Claimed (i, x) a NewSession, 1 \<mapsto> Claimed (i, y) b NewSession]"
    using healthy_steps(1) [of _ opts "(i, x)" 0 a pn po "[]" NewSession] healthy_steps(1) [of _ opts "(i, y)" 1 b pn po "[]" NewSession] keys r0 assms
    by (simp_all add: w2_def r2_def start_world_def del: repo_event_step.simps)
  define w4 where "w4 = foldl ?step w2 [Look 0, Look 1]"
  have w4: "rw_repo w4 = rooted opts r2" "rw_disk w4 = fs" "map_of (rw_flights w4) = [0 \<mapsto> Free (i, x) a NewSession, 1 \<mapsto> Free (i, y) b NewSession]"
    using healthy_steps(2) [of _ opts "(i, x)" 0 a NewSession pn po] healthy_steps(2) [of _ opts "(i, y)" 1 b NewSession pn po] w2 r2 assms
    by (auto simp: w4_def simp del: repo_event_step.simps)
  define fs1 where "fs1 = foldl make_dir fs (path_prefixes ?dir)"
  define fs2 where "fs2 = foldl make_dir fs1 (path_prefixes ?dir)"
  have fs1: "healthy fs1" "makeable fs1 ?dir" using assms(1,10) makeable_again by (simp_all add: fs1_def make_dirs_nodes(2))
  define w6 where "w6 = foldl ?step w4 [Place 0 now1, Place 1 now2]"
  have w6: "rw_repo w6 = rooted opts r2" "rw_disk w6 = fs2"
      "map_of (rw_flights w6) = [0 \<mapsto> Ready (i, x) (new_header now1 (i, x) a) (session_place opts (i, x) now1) NewSession,
         1 \<mapsto> Ready (i, y) (new_header now2 (i, y) b) (session_place opts (i, y) now2) NewSession]"
    using healthy_steps(3) [of _ opts "(i, x)" 0 a NewSession pn po now1] healthy_steps(3) [of _ opts "(i, y)" 1 b NewSession pn po now2] w4 r2 assms fs1
    by (auto simp: w6_def fs2_def fs1_def simp del: repo_event_step.simps)
  have fresh: "\<not> is_directory (session_place opts (i, x) now1) fs2" "\<not> is_directory (session_place opts (i, y) now2) fs2"
    using place_fresh [of fs opts "(i, x)" now1] place_fresh [of fs opts "(i, y)" now2] assms(3,9,11)
    by (auto simp: is_directory_def fs2_def fs1_def make_dirs_nodes(1) split: option.splits if_splits)
  have fs2: "healthy fs2" "text_at fs2 = text_at fs"
    using assms(1) by (auto simp: fs2_def fs1_def make_dirs_nodes(2))
  have "text_at (rw_disk (foldl ?step w6 [Publish 0, Publish 1])) = (text_at fs)
      (session_place opts (i, x) now1 \<mapsto> header_line pn po (new_header now1 (i, x) a) @ [LF],
       session_place opts (i, y) now2 \<mapsto> header_line pn po (new_header now2 (i, y) b) @ [LF])"
    using healthy_steps(4) [of _ opts "(i, x)" 0 "new_header now1 (i, x) a" "session_place opts (i, x) now1" pn po]
      healthy_steps(4) [of _ opts "(i, y)" 1 "new_header now2 (i, y) b" "session_place opts (i, y) now2" pn po] w6 r2 assms(3,14,15) fs2 fresh
    by (simp add: release_def put_text_simps text_at_put is_directory_def del: repo_event_step.simps)
  moreover have "foldl ?step ?w0 (overlapping a b now1 now2) = foldl ?step w6 [Publish 0, Publish 1]"
    by (simp add: overlapping_def w6_def w4_def w2_def del: repo_event_step.simps)
  ultimately show ?thesis by auto
qed

section \<open>Inputs of the witnesses\<close>

definition demo_options :: repo_options where
  "demo_options = \<lparr>ro_absolute = (\<lambda>p. p), ro_sessionsRoot = js ''/s''\<rparr>"

definition demo_create :: "string \<Rightarrow> create_options" where
  "demo_create cwd = \<lparr>co_id = Some (js ''x''), co_cwd = js cwd, co_parentSessionId = None, co_metadata = None\<rparr>"

definition demo_root :: fsys where
  "demo_root = \<lparr>fs_nodes = [], fs_faults = [], fs_clock = 0, fs_reason = []\<rparr>"

lemma demo_root_simps:
  "healthy demo_root" "fs_nodes demo_root = []" "makeable demo_root p" "name_free demo_root p i" "disk_ok demo_root"
  by (simp_all add: demo_root_def healthy_def makeable_def map_has_def name_free_def disk_ok_def honest_def unique_ids_def housed_def
      text_at_def list_all_iff)

lemma demo_names:
  "isAbsolute (js ''/s'')" "session_id_pattern (js ''x'')" "jsonlSessionDirectoryName (js ''/a/b'') = jsonlSessionDirectoryName (js ''/a-b'')"
  "jsonlSessionDirectoryName (js ''/a'') \<noteq> jsonlSessionDirectoryName (js ''/b'')" "js ''/a/b'' \<noteq> js ''/a-b''"
  "sessionFileName 0 (js ''x'') \<noteq> sessionFileName 1 (js ''x'')"
  by code_simp+

lemma demo_headers:
  "storable_header no_print (new_header 0 (js ''x'', js ''/a/b'') (demo_create ''/a/b''))"
  "storable_header no_print (new_header 1 (js ''x'', js ''/a-b'') (demo_create ''/a-b''))"
  by code_simp+

lemma demo_one_line: "one_line (header_line no_print (\<lambda>_. []) (new_header 0 (js ''x'', js ''/a/b'') (demo_create ''/a/b'')))"
proof -
  have "decimal 4 = ''4''" "decimal 0 = ''0''" by code_simp+
  then show ?thesis
    by (simp add: one_line_def header_line_def encodeHeader_def json_line_def header_object_def new_header_def demo_create_def js_def
        obj.simps json_str_def json_nat_def object_json_def quote_json_def quote_unit_def is_high_def is_low_def surrogate_def
        number_json_def is_safe_integer_def max_safe_integer_def decimal_int_def map_filter_simps no_print_def LF_def butlast_append)
qed

lemma demo_options_simps:
  "ro_absolute demo_options p = p" "ro_sessionsRoot demo_options = js ''/s''" "co_id (demo_create c) = Some (js ''x'')"
  "co_cwd (demo_create c) = js c" "metadata_ok (demo_create c)" "rootable demo_options (new_jsonl_repo demo_options)"
  using demo_names(1) by (simp_all add: demo_options_def demo_create_def metadata_ok_def rootable_def repo_ok_def new_jsonl_repo_def)

section \<open>Properties\<close>

text \<open>C7: Creations, forks and deletions of one repository may overlap in any order, and file operations may fail as long
  as they do not report that an existing path is missing. When different working directories have directories of different
  names, no directory ever holds two session files of one id.\<close>

theorem session_ids_unique:
  assumes "isAbsolute (ro_absolute opts (ro_sessionsRoot opts))" "disk_ok fs" "inj_on jsonlSessionDirectoryName (event_cwds opts evs)"
  shows "unique_ids (rw_disk (foldl (repo_event_step pn po) (start_world opts fs) evs))"
proof -
  have "repo_inv opts (event_cwds opts evs) (start_world opts fs)"
    using assms(1,2) by (simp add: repo_inv_def start_world_def new_jsonl_repo_def repo_ok_def)
  from events_inv [OF this assms(3) order_refl] show ?thesis by (simp add: repo_inv_def disk_ok_def)
qed

theorem session_ids_unique_witness:
  "unique_ids (rw_disk (foldl (repo_event_step no_print (\<lambda>_. [])) (start_world demo_options demo_root)
     (overlapping (demo_create ''/a'') (demo_create ''/b'') 0 1)))"
proof -
  have "event_cwds demo_options (overlapping (demo_create ''/a'') (demo_create ''/b'') 0 1) = {js ''/a'', js ''/b''}"
    by (auto simp: event_cwds_def overlapping_def demo_options_simps)
  then have "inj_on jsonlSessionDirectoryName (event_cwds demo_options (overlapping (demo_create ''/a'') (demo_create ''/b'') 0 1))"
    using demo_names(4) by (simp add: inj_on_def)
  then show ?thesis using session_ids_unique [of demo_options demo_root _ no_print "\<lambda>_. []"] demo_names(1) demo_root_simps(5)
    by (simp add: demo_options_simps)
qed

text \<open>C8: Without that condition the claim of a destination does not prevent duplicates: two overlapping creations of one
  id for working directories whose directory names collide leave two session files of the id in the directory.\<close>

theorem colliding_directories_race:
  assumes "healthy fs" "isAbsolute (ro_absolute opts (ro_sessionsRoot opts))" "session_id_pattern i"
    and "co_id a = Some i" "co_id b = Some i" "ro_absolute opts (co_cwd a) = x" "ro_absolute opts (co_cwd b) = y" "x \<noteq> y"
    and "jsonlSessionDirectoryName x = jsonlSessionDirectoryName y" "sessionFileName now1 i \<noteq> sessionFileName now2 i"
    and "makeable fs (session_dir opts x)" "name_free fs (session_dir opts x) i" "metadata_ok a" "metadata_ok b"
    and "storable_header pn (new_header now1 (i, x) a)" "storable_header pn (new_header now2 (i, y) b)"
  shows "\<not> unique_ids (rw_disk (foldl (repo_event_step pn po) (start_world opts fs) (overlapping a b now1 now2)))"
proof -
  let ?p = "session_place opts (i, x) now1" and ?q = "session_place opts (i, y) now2"
  have dir: "session_dir opts x = session_dir opts y" using assms(9) by (simp add: session_dir_def)
  have "basename ?p \<noteq> basename ?q"
    using basename_abs_path [OF session_file_clean [OF assms(3)], of "repo_names opts @ [jsonlSessionDirectoryName x]"]
      basename_abs_path [OF session_file_clean [OF assms(3)], of "repo_names opts @ [jsonlSessionDirectoryName y]"] assms(10)
    by (simp add: session_place_def)
  moreover have "dirname ?p = dirname ?q" "file_id (basename ?p) = Some i" "file_id (basename ?q) = Some i"
    using session_place_simps(1,3) assms(3) dir by simp_all
  moreover obtain t u where "text_at (rw_disk (foldl (repo_event_step pn po) (start_world opts fs) (overlapping a b now1 now2)))
      = (text_at fs)(?p \<mapsto> t, ?q \<mapsto> u)"
    using overlapping_texts [OF assms(1-8) dir assms(11-16)] by blast
  ultimately show ?thesis unfolding unique_ids_def by (metis fun_upd_apply option.distinct(1))
qed

theorem colliding_directories_race_witness:
  "\<not> unique_ids (rw_disk (foldl (repo_event_step no_print (\<lambda>_. [])) (start_world demo_options demo_root)
     (overlapping (demo_create ''/a/b'') (demo_create ''/a-b'') 0 1)))"
  by (rule colliding_directories_race [where i = "js ''x''" and x = "js ''/a/b''" and y = "js ''/a-b''"])
    (simp_all only: demo_root_simps demo_options_simps demo_names demo_headers not_False_eq_True)

text \<open>C9: On a disk without faults, a create whose id no file name of the directory ends with succeeds; its session is
  then among the listed ones of its working directory (when its header has no Unicode line separator), opens to the empty
  session, and the claim is released.\<close>

theorem created_session_listed:
  assumes "healthy fs" "distinct (map fst (fs_nodes fs))" "rootable opts r" "makeable fs (session_dir opts cwd)" "name_free fs (session_dir opts cwd) i"
    and "session_id_pattern i" "metadata_ok options" "storable_header pn (new_header now (i, cwd) options)"
    and "co_id options = Some i" "ro_absolute opts (co_cwd options) = cwd" "destination_key (i, cwd) \<notin> set (jr_activeCreateDestinations r)"
    and "one_line (header_line pn po (new_header now (i, cwd) options))"
  shows "\<exists>st r' fs' ms st'. jsonl_repo_create pn po now fresh options (r, fs) = (Inr st, r', fs')
    \<and> jr_activeCreateDestinations r' = jr_activeCreateDestinations r \<and> jm_id (jmeta st) = i
    \<and> jsonl_repo_list (Some (co_cwd options)) (r', fs') = (Inr ms, r', fs') \<and> jmeta st \<in> set ms
    \<and> jsonl_repo_open (jmeta st) (r', fs') = (Inr st', r', fs') \<and> jstate st' = init_state"
proof -
  let ?d = "(i, cwd)" and ?fs = "created_disk pn po opts now (i, cwd) options fs" and ?r = "rooted opts r"
  let ?m = "metadataFromHeader (new_header now ?d options) (session_place opts ?d now) (fs_clock fs)"
  have "jsonl_repo_create pn po now fresh options (r, fs) = (Inr (new_jsonl_storage ?m), ?r, ?fs)"
    using create_healthy [OF assms(1,3), of ?d options pn now po fresh] assms(4-11) by simp
  moreover obtain ms where "jsonl_repo_list (Some (co_cwd options)) (?r, ?fs) = (Inr ms, ?r, ?fs)" "?m \<in> set ms"
    using created_listed [OF assms(1,2) rooted_simps(4) [OF assms(3)], of ?d pn now options po] assms(4-6,8,10,12) by auto
  moreover obtain st' where "jsonl_repo_open ?m (?r, ?fs) = (Inr st', ?r, ?fs)" "jstate st' = init_state"
    using created_opens [OF assms(1,8) place_fresh, where m = "fs_clock fs" and r = ?r and po = po] assms(5,6) by auto
  ultimately show ?thesis by (auto simp: new_jsonl_storage_def metadataFromHeader_def new_header_def)
qed

theorem created_session_listed_witness:
  "\<exists>st r' fs' ms st'. jsonl_repo_create no_print (\<lambda>_. []) 0 [] (demo_create ''/a/b'') (new_jsonl_repo demo_options, demo_root) = (Inr st, r', fs')
    \<and> jsonl_repo_list (Some (js ''/a/b'')) (r', fs') = (Inr ms, r', fs') \<and> jmeta st \<in> set ms
    \<and> jsonl_repo_open (jmeta st) (r', fs') = (Inr st', r', fs') \<and> jstate st' = init_state"
proof -
  have free: "destination_key d \<notin> set (jr_activeCreateDestinations (new_jsonl_repo demo_options))" for d by (simp add: new_jsonl_repo_def)
  have distinct: "distinct (map fst (fs_nodes demo_root))" by (simp add: demo_root_simps)
  show ?thesis
    using created_session_listed [OF demo_root_simps(1) distinct demo_options_simps(6) demo_root_simps(3,4) demo_names(2) demo_options_simps(5)
        demo_headers(1) demo_options_simps(3) _ free demo_one_line, where fresh = "[]"]
    unfolding demo_options_simps by blast
qed

end
