(* ===== verification/Patchcage_Sandbox.thy ===== *)
theory Patchcage_Sandbox
  imports Js_Parse Node_Path
begin

text \<open>
  \<open>coding-agent/src/core/patchcage-sandbox.ts\<close>: the bridge from the chat agent to \<open>patchcage-engine\<close>.
  It finds the inputs of a run, builds the child's arguments and environment, reads the JSON lines the
  child prints, and reads the candidate patch that a user is asked to approve. What the operating system
  answers (directory listings, existing files, file contents, the events of the child process), the
  upper-case form of a string and SHA-256 are arguments. Paths are those of a POSIX host.
\<close>

section \<open>JavaScript on parsed data\<close>

text \<open>Conversion to a string for data that \<open>JSON.parse\<close> returns. An object with an own property
  \<open>toString\<close> cannot be converted: the property is not a function, and the conversion throws.\<close>

definition number_text :: "(js_number \<Rightarrow> string) \<Rightarrow> js_number \<Rightarrow> js_string" where
  "number_text print_number x =
     (case x of
        JInt i \<Rightarrow> js (if is_safe_integer i then decimal_int i else print_number x)
      | JFrac b \<Rightarrow> if b = 0x8000000000000000 then js ''0'' else js (print_number x)
      | JNaN \<Rightarrow> js ''NaN''
      | JInf neg \<Rightarrow> js (if neg then ''-Infinity'' else ''Infinity''))"

fun to_string :: "(js_number \<Rightarrow> string) \<Rightarrow> js_value \<Rightarrow> js_string option" where
  "to_string print_number JUndefined = Some (js ''undefined'')"
| "to_string print_number JHole = Some (js ''undefined'')"
| "to_string print_number JNull = Some (js ''null'')"
| "to_string print_number (JBool b) = Some (js (if b then ''true'' else ''false''))"
| "to_string print_number (JNumber x) = Some (number_text print_number x)"
| "to_string print_number (JString s) = Some s"
| "to_string print_number (JArray vs) =
     (let ts = map (\<lambda>v. if v = JUndefined \<or> v = JHole \<or> v = JNull then Some [] else to_string print_number v) vs
      in if None \<in> set ts then None else Some (join_on 0x2C (map the ts)))"
| "to_string print_number (JObject symbols es) =
     (if map_has es (js ''toString'') then None else Some (js ''[object Object]''))"
| "to_string print_number (JBytes bs) = Some (join_on 0x2C (map (\<lambda>b. js (decimal (unat b))) bs))"
| "to_string print_number (JOther t) = None"

definition js_truthy :: "js_value \<Rightarrow> bool" where
  "js_truthy v =
     (case v of
        JUndefined \<Rightarrow> False | JHole \<Rightarrow> False | JNull \<Rightarrow> False | JBool b \<Rightarrow> b
      | JNumber x \<Rightarrow> x \<noteq> JInt 0 \<and> x \<noteq> JNaN \<and> x \<noteq> JFrac 0x8000000000000000
      | JString s \<Rightarrow> s \<noteq> []
      | _ \<Rightarrow> True)"

definition nullish :: "js_value \<Rightarrow> bool" where
  "nullish v = (v = JUndefined \<or> v = JHole \<or> v = JNull)"

text \<open>\<open>a ?? b\<close>, a property of an object, and \<open>v?.k\<close> for the property names used below, which no
  string, number, boolean or array has.\<close>

definition coalesce :: "js_value \<Rightarrow> js_value \<Rightarrow> js_value" where
  "coalesce a b = (if nullish a then b else a)"

definition get_prop :: "(js_string \<times> js_value) list \<Rightarrow> js_string \<Rightarrow> js_value" where
  "get_prop es k = (case map_of es k of None \<Rightarrow> JUndefined | Some v \<Rightarrow> v)"

definition opt_prop :: "js_value \<Rightarrow> js_string \<Rightarrow> js_value" where
  "opt_prop v k = (case v of JObject _ es \<Rightarrow> get_prop es k | _ \<Rightarrow> JUndefined)"

section \<open>Inputs of a run\<close>

definition ends_with :: "js_string \<Rightarrow> js_string \<Rightarrow> bool" where
  "ends_with t s = (length t \<le> length s \<and> drop (length s - length t) s = t)"

definition starts_with :: "js_string \<Rightarrow> js_string \<Rightarrow> bool" where
  "starts_with t s = (take (length t) s = t)"

definition manifest_extensions :: "js_string list" where
  "manifest_extensions = [js ''.yml'', js ''.yaml'', js ''.json'']"

text \<open>\<open>/\.finding\.(ya?ml|json)$/.test(name)\<close>\<close>

definition is_finding_name :: "js_string \<Rightarrow> bool" where
  "is_finding_name name = list_ex (\<lambda>e. ends_with (js ''.finding'' @ e) name) manifest_extensions"

text \<open>The stem and the extension of \<open>/^(.*)\.finding(\.(?:ya?ml|json))$/\<close>.\<close>

definition finding_match :: "js_string \<Rightarrow> (js_string \<times> js_string) option" where
  "finding_match name =
     (case find (\<lambda>e. ends_with (js ''.finding'' @ e) name) manifest_extensions of
        None \<Rightarrow> None
      | Some e \<Rightarrow>
          let stem = take (length name - length (js ''.finding'' @ e)) name
          in if list_ex line_terminator stem then None else Some (stem, e))"

definition siblingManifest :: "js_string \<Rightarrow> js_string option" where
  "siblingManifest finding =
     (case finding_match (basename finding) of
        None \<Rightarrow> None
      | Some (stem, e) \<Rightarrow> Some (join_path [dirname finding, stem @ e]))"

definition safeReaddir :: "(js_string \<Rightarrow> js_string list option) \<Rightarrow> js_string \<Rightarrow> js_string list" where
  "safeReaddir readdirSync dir = (case readdirSync dir of None \<Rightarrow> [] | Some names \<Rightarrow> names)"

datatype input_error =
    NoFinding js_string | MultipleFindings js_string | BadFindingName js_string
  | FindingNotFound js_string | ManifestNotFound js_string | NoFilePath js_string
  | OutsideRoot js_string js_string | NotInRoot js_string js_string

definition resolveSandboxInputs ::
  "js_string \<Rightarrow> js_string \<Rightarrow> js_string option \<Rightarrow> (js_string \<Rightarrow> js_string list) \<Rightarrow> input_error + (js_string \<times> js_string)" where
  "resolveSandboxInputs cwd repoRoot findingArg readdir =
     (let given = (case findingArg of Some a \<Rightarrow> if js_trim a \<noteq> [] then Some a else None | None \<Rightarrow> None);
          dir = join_path [repoRoot, js ''manifests''];
          candidates = filter is_finding_name (readdir dir)
      in bindR
           (case given of
              Some a \<Rightarrow> Inr (if isAbsolute a then a else resolve_path cwd [repoRoot, js_trim a])
            | None \<Rightarrow>
                if length candidates \<noteq> 1
                then Inl (if candidates = [] then NoFinding repoRoot else MultipleFindings repoRoot)
                else Inr (join_path [dir, hd candidates]))
           (\<lambda>finding.
              case siblingManifest finding of
                None \<Rightarrow> Inl (BadFindingName finding)
              | Some manifest \<Rightarrow> Inr (finding, manifest)))"

text \<open>
  \<open>/^\s*file_path:\s*(?:["']([^"']+)["']|(\S+))\s*(?:#.*)?$/\<close> on one line. The quoted form is tried first.
  In the plain form the longest run of characters that leaves only white space and a comment is taken.
\<close>

definition comment_tail :: "js_string \<Rightarrow> bool" where
  "comment_tail s =
     (case dropWhile js_space s of [] \<Rightarrow> True | c # r \<Rightarrow> c = 0x23 \<and> \<not> list_ex line_terminator r)"

definition is_quote :: "16 word \<Rightarrow> bool" where
  "is_quote c = (c = 0x22 \<or> c = 0x27)"

definition quoted_path :: "js_string \<Rightarrow> js_string option" where
  "quoted_path s =
     (case s of
        [] \<Rightarrow> None
      | q # r \<Rightarrow>
          let body = takeWhile (\<lambda>c. \<not> is_quote c) r; rest = dropWhile (\<lambda>c. \<not> is_quote c) r
          in if is_quote q \<and> body \<noteq> [] \<and> rest \<noteq> [] \<and> comment_tail (tl rest) then Some body else None)"

definition plain_path :: "js_string \<Rightarrow> js_string option" where
  "plain_path s =
     (let run = takeWhile (\<lambda>c. \<not> js_space c) s
      in map_option (\<lambda>n. take n s) (find (\<lambda>n. comment_tail (drop n s)) (rev [1..<Suc (length run)])))"

definition file_path_match :: "js_string \<Rightarrow> js_string option" where
  "file_path_match line =
     (let s = dropWhile js_space line; key = js ''file_path:''
      in if starts_with key s then
           (let v = dropWhile js_space (drop (length key) s)
            in case quoted_path v of Some p \<Rightarrow> Some p | None \<Rightarrow> plain_path v)
         else None)"

text \<open>\<open>split(/\r?\n/)\<close>\<close>

definition strip_cr :: "js_string \<Rightarrow> js_string" where
  "strip_cr l = (if l \<noteq> [] \<and> last l = CR then butlast l else l)"

definition split_lines :: "js_string \<Rightarrow> js_string list" where
  "split_lines s = (let ls = split_on LF s in map strip_cr (butlast ls) @ [last ls])"

fun yaml_file_path :: "js_string list \<Rightarrow> js_string option" where
  "yaml_file_path [] = None"
| "yaml_file_path (line # lines) =
     (case file_path_match line of
        None \<Rightarrow> yaml_file_path lines
      | Some m \<Rightarrow>
          let p = js_trim m
          in if p \<noteq> [] \<and> p \<noteq> js ''|'' \<and> p \<noteq> js ''>'' then Some p else yaml_file_path lines)"

definition findingFilePath :: "js_string \<Rightarrow> js_string option" where
  "findingFilePath contents =
     (let trimmed = js_trim contents
      in if starts_with (js ''{'') trimmed then
           (case json_parse trimmed of
              None \<Rightarrow> None
            | Some parsed \<Rightarrow>
                (case opt_prop parsed (js ''file_path'') of
                   JString s \<Rightarrow> let p = js_trim s in if p \<noteq> [] then Some p else None
                 | _ \<Rightarrow> None))
         else yaml_file_path (split_lines contents))"

definition pathUnderRoot :: "js_string \<Rightarrow> js_string \<Rightarrow> js_string \<Rightarrow> js_string option" where
  "pathUnderRoot cwd rt rel =
     (if rel = [] \<or> isAbsolute rel \<or> 0 \<in> set rel then None
      else let rootAbs = resolve_path cwd [rt]; target = resolve_path cwd [rootAbs, rel];
               prefix = (if ends_with [sep] rootAbs then rootAbs else rootAbs @ [sep])
           in if target = rootAbs \<or> starts_with prefix target then Some target else None)"

definition assertSandboxTarget ::
  "js_string \<Rightarrow> (js_string \<Rightarrow> bool) \<Rightarrow> (js_string \<Rightarrow> js_string option) \<Rightarrow> js_string \<Rightarrow> js_string \<Rightarrow> js_string \<Rightarrow> input_error + unit" where
  "assertSandboxTarget cwd exists readFile repoRoot finding manifest =
     (if \<not> exists finding then Inl (FindingNotFound finding)
      else if \<not> exists manifest then Inl (ManifestNotFound manifest)
      else case readFile finding of
        None \<Rightarrow> Inl (FindingNotFound finding)
      | Some contents \<Rightarrow>
          (case findingFilePath contents of
             None \<Rightarrow> Inl (NoFilePath finding)
           | Some rel \<Rightarrow>
               (case pathUnderRoot cwd repoRoot rel of
                  None \<Rightarrow> Inl (OutsideRoot rel repoRoot)
                | Some target \<Rightarrow> if exists target then Inr () else Inl (NotInRoot rel repoRoot))))"

section \<open>The engine process\<close>

text \<open>The engine's executable and its arguments.\<close>

type_synonym environment = "(js_string \<times> js_string) list"

definition ENGINE_ENV :: js_string where "ENGINE_ENV = js ''PATCHCAGE_ENGINE''"
definition ENGINE_BIN :: js_string where "ENGINE_BIN = js ''patchcage-engine''"
definition MODEL_API_KEY_ENV :: js_string where "MODEL_API_KEY_ENV = js ''PATCHCAGE_MODEL_API_KEY''"
definition MODEL_HTTP_HEADERS_ENV :: js_string where "MODEL_HTTP_HEADERS_ENV = js ''PATCHCAGE_MODEL_HTTP_HEADERS''"

definition ENGINE_MISSING :: js_string where
  "ENGINE_MISSING =
     ENGINE_BIN @ js '' not found. Install the PatchCage engine (pip install -e . in the PatchCage repo) or set ''
     @ ENGINE_ENV @ js '' to the executable.''"

definition DOCKER_DOWN_HINT :: js_string where
  "DOCKER_DOWN_HINT = js ''Docker is required for /sandbox. Start the daemon and retry; the unsandboxed agent is unaffected.''"

definition resolveEngineBinary :: "environment \<Rightarrow> js_string" where
  "resolveEngineBinary env =
     (case map_of env ENGINE_ENV of
        None \<Rightarrow> ENGINE_BIN
      | Some v \<Rightarrow> if js_trim v \<noteq> [] then js_trim v else ENGINE_BIN)"

record run_args =
  ra_repo :: js_string
  ra_manifest :: js_string
  ra_finding :: js_string
  ra_runDir :: js_string
  ra_modelEndpoint :: js_string
  ra_modelId :: js_string

definition buildRunArgs :: "run_args \<Rightarrow> js_string list" where
  "buildRunArgs input =
     [js ''run'', js ''--repo'', ra_repo input, js ''--manifest'', ra_manifest input, js ''--finding'', ra_finding input,
      js ''--run-dir'', ra_runDir input, js ''--model-endpoint'', ra_modelEndpoint input, js ''--model-id'', ra_modelId input]"

definition buildExportArgs :: "js_string \<Rightarrow> js_string \<Rightarrow> js_string option \<Rightarrow> js_string list" where
  "buildExportArgs runDir outDir digest =
     [js ''export'', js ''--run'', runDir, js ''--out'', outDir]
     @ (case digest of None \<Rightarrow> [] | Some d \<Rightarrow> if d \<noteq> [] then [js ''--expected-sha256'', d] else [])"

text \<open>The environment of the child. \<open>upper\<close> is \<open>toUpperCase\<close>.\<close>

definition includes_text :: "js_string \<Rightarrow> js_string \<Rightarrow> bool" where
  "includes_text t s = list_ex (\<lambda>i. starts_with t (drop i s)) [0..<Suc (length s)]"

definition ends_word :: "js_string \<Rightarrow> js_string \<Rightarrow> bool" where
  "ends_word w s = (s = w \<or> ends_with (js ''_'' @ w) s)"

definition isCredentialEnvKey :: "(js_string \<Rightarrow> js_string) \<Rightarrow> js_string \<Rightarrow> bool" where
  "isCredentialEnvKey upper key =
     (let u = upper key
      in u = MODEL_API_KEY_ENV \<or> u = MODEL_HTTP_HEADERS_ENV
         \<or> u = js ''AWS_SECRET_ACCESS_KEY'' \<or> u = js ''AWS_SESSION_TOKEN''
         \<or> includes_text (js ''APIKEY'') u \<or> includes_text (js ''API_KEY'') u \<or> includes_text (js ''API-KEY'') u
         \<or> list_ex (\<lambda>w. ends_word (js w) u) [''TOKEN'', ''SECRET'', ''PASSWORD'', ''PASSPHRASE'']
         \<or> includes_text (js ''_SECRET_'') u)"

text \<open>Setting a property of a plain object. Setting \<open>__proto__\<close> to a string has no effect.\<close>

definition set_env :: "environment \<Rightarrow> js_string \<Rightarrow> js_string \<Rightarrow> environment" where
  "set_env env k v = (if k = js ''__proto__'' then env else AList.update k v env)"

definition engineEnv ::
  "(js_string \<Rightarrow> js_string) \<Rightarrow> (js_string \<times> js_string option) list \<Rightarrow> js_string option \<Rightarrow> environment \<Rightarrow> environment" where
  "engineEnv upper base apiKey extraHeaders =
     (let env = foldl (\<lambda>env (key, v).
            case v of
              None \<Rightarrow> env
            | Some t \<Rightarrow> if isCredentialEnvKey upper key then env else set_env env key t) [] base;
          env1 = (case apiKey of Some k \<Rightarrow> if k \<noteq> [] then set_env env MODEL_API_KEY_ENV k else env | None \<Rightarrow> env)
      in if extraHeaders \<noteq> [] then
           (case stringify (\<lambda>_. []) (\<lambda>_. []) (JObject False (map (\<lambda>(k, v). (k, JString v)) extraHeaders)) of
              JsonText t \<Rightarrow> set_env env1 MODEL_HTTP_HEADERS_ENV t
            | _ \<Rightarrow> env1)
         else env1)"

section \<open>Events of the engine\<close>

text \<open>An event is the object of a line: its own properties.\<close>

type_synonym engine_event = "(js_string \<times> js_value) list"

definition event_type :: "engine_event \<Rightarrow> js_value" where
  "event_type e = get_prop e (js ''event_type'')"

definition parseEngineLine :: "js_string \<Rightarrow> engine_event option" where
  "parseEngineLine line =
     (let trimmed = js_trim line
      in if \<not> starts_with (js ''{'') trimmed then None
         else case json_parse trimmed of
           Some (JObject _ es) \<Rightarrow> (case event_type es of JString _ \<Rightarrow> Some es | _ \<Rightarrow> None)
         | _ \<Rightarrow> None)"

datatype type_error = TypeError

definition text_of :: "(js_number \<Rightarrow> string) \<Rightarrow> js_value \<Rightarrow> type_error + js_string" where
  "text_of print_number v = (case to_string print_number v of None \<Rightarrow> Inl TypeError | Some s \<Rightarrow> Inr s)"

definition em_dash :: js_string where "em_dash = js '' '' @ [0x2014] @ js '' ''"

definition narrateEvent :: "(js_number \<Rightarrow> string) \<Rightarrow> engine_event \<Rightarrow> type_error + js_string option" where
  "narrateEvent pn event =
     (let payload = get_prop event (js ''payload'')
      in if event_type event = JString (js ''phase'') then
           bindR (text_of pn (coalesce (coalesce (opt_prop payload (js ''phase'')) (get_prop event (js ''phase''))) (JString (js ''?''))))
             (\<lambda>t. Inr (Some (js ''sandbox: '' @ t)))
         else if event_type event = JString (js ''check_result'') then
           bindR (text_of pn (opt_prop payload (js ''name''))) (\<lambda>name.
           bindR (text_of pn (opt_prop payload (js ''status''))) (\<lambda>status.
           bindR (text_of pn (coalesce (opt_prop payload (js ''summary'')) (JString []))) (\<lambda>summary.
             Inr (Some (trimEnd (js ''check '' @ name @ js '': '' @ status @ em_dash @ summary))))))
         else if event_type event = JString (js ''run_finished'') then
           bindR (text_of pn (coalesce (opt_prop payload (js ''detail'')) (JString [])))
             (\<lambda>t. Inr (Some (trimEnd (js ''sandbox finished: '' @ t))))
         else if event_type event = JString (js ''result'') then
           bindR (text_of pn (get_prop event (js ''status''))) (\<lambda>status.
             let detail = get_prop event (js ''detail'')
             in if js_truthy detail then bindR (text_of pn detail) (\<lambda>t. Inr (Some (js ''result: '' @ status @ em_dash @ t)))
                else Inr (Some (js ''result: '' @ status)))
         else Inr None)"

section \<open>Running the engine\<close>

text \<open>
  What happens to the child: output on its two streams (decoded), the abort signal, a failure to run,
  and its end. The promise is resolved once. \<open>delivered\<close> are the events handed to \<open>onEvent\<close>, in order;
  \<open>kills\<close> counts the interrupts sent to the child.
\<close>

datatype child_event =
    Stdout js_string
  | Stderr js_string
  | Abort_signal
  | Child_error "js_string option" js_string
  | Child_close "int option" "js_string option"

record engine_outcome =
  oc_code :: "int option"
  oc_signal :: "js_string option"
  oc_result :: "engine_event option"
  oc_stderr :: js_string

record engine_run =
  er_buffer :: js_string
  er_stderr :: js_string
  er_result :: "engine_event option"
  er_delivered :: "engine_event list"
  er_kills :: nat
  er_listening :: bool
  er_outcome :: "engine_outcome option"

text \<open>Deliver one line.\<close>

definition engine_line :: "js_string \<Rightarrow> engine_run \<Rightarrow> engine_run" where
  "engine_line line st =
     (case parseEngineLine line of
        None \<Rightarrow> st
      | Some e \<Rightarrow>
          st\<lparr>er_result := (if event_type e = JString (js ''result'') then Some e else er_result st),
             er_delivered := er_delivered st @ [e]\<rparr>)"

function feed_loop :: "engine_run \<Rightarrow> engine_run" where
  "feed_loop st =
     (case dropWhile (\<lambda>c. c \<noteq> LF) (er_buffer st) of
        [] \<Rightarrow> st
      | _ # rest \<Rightarrow>
          feed_loop (engine_line (takeWhile (\<lambda>c. c \<noteq> LF) (er_buffer st)) st \<lparr>er_buffer := rest\<rparr>))"
  by pat_completeness auto
termination
proof (relation "measure (length \<circ> er_buffer)")
  fix st :: engine_run and c rest assume "dropWhile (\<lambda>c. c \<noteq> LF) (er_buffer st) = c # rest"
  then have "length (c # rest) \<le> length (er_buffer st)" by (metis length_dropWhile_le)
  then show "(engine_line (takeWhile (\<lambda>c. c \<noteq> LF) (er_buffer st)) st \<lparr>er_buffer := rest\<rparr>, st)
      \<in> measure (length \<circ> er_buffer)" by simp
qed simp

declare feed_loop.simps [simp del]

definition feed :: "js_string \<Rightarrow> engine_run \<Rightarrow> engine_run" where
  "feed chunk st = feed_loop (st\<lparr>er_buffer := er_buffer st @ chunk\<rparr>)"

definition resolve_once :: "engine_outcome \<Rightarrow> engine_run \<Rightarrow> engine_run" where
  "resolve_once oc st = (case er_outcome st of None \<Rightarrow> st\<lparr>er_outcome := Some oc\<rparr> | Some _ \<Rightarrow> st)"

text \<open>The listener of the abort signal is a one-time listener. A signal that is set already interrupts
  the child at once.\<close>

definition engine_start :: "bool \<Rightarrow> bool \<Rightarrow> engine_run" where
  "engine_start has_signal aborted =
     \<lparr>er_buffer = [], er_stderr = [], er_result = None, er_delivered = [],
      er_kills = (if has_signal \<and> aborted then 1 else 0), er_listening = has_signal, er_outcome = None\<rparr>"

definition engine_step :: "engine_run \<Rightarrow> child_event \<Rightarrow> engine_run" where
  "engine_step st ev =
     (case ev of
        Stdout chunk \<Rightarrow> feed chunk st
      | Stderr chunk \<Rightarrow> st\<lparr>er_stderr := er_stderr st @ chunk\<rparr>
      | Abort_signal \<Rightarrow> if er_listening st then st\<lparr>er_kills := Suc (er_kills st), er_listening := False\<rparr> else st
      | Child_error code message \<Rightarrow>
          (let st1 = st\<lparr>er_listening := False,
                        er_stderr := er_stderr st @ (if code = Some (js ''ENOENT'') then ENGINE_MISSING else message)\<rparr>
           in resolve_once \<lparr>oc_code = None, oc_signal = None, oc_result = None, oc_stderr = er_stderr st1\<rparr> st1)
      | Child_close code signal \<Rightarrow>
          (let st1 = st\<lparr>er_listening := False\<rparr>;
               st2 = (if er_buffer st1 \<noteq> [] then feed [LF] st1 else st1)
           in resolve_once \<lparr>oc_code = code, oc_signal = signal, oc_result = er_result st2, oc_stderr = er_stderr st2\<rparr> st2))"

definition runEngine :: "bool \<Rightarrow> bool \<Rightarrow> child_event list \<Rightarrow> engine_run" where
  "runEngine has_signal aborted evs = foldl engine_step (engine_start has_signal aborted) evs"

text \<open>\<open>/docker (daemon unavailable|error)/i\<close>: without the unicode flag the case of ASCII letters only is ignored.\<close>

definition ascii_lower :: "16 word \<Rightarrow> 16 word" where
  "ascii_lower c = (if 65 \<le> unat c \<and> unat c \<le> 90 then c + 32 else c)"

definition isDockerDown :: "js_string \<Rightarrow> bool" where
  "isDockerDown err =
     (let s = map ascii_lower err
      in includes_text (js ''docker daemon unavailable'') s \<or> includes_text (js ''docker error'') s)"

definition describeFailure :: "(js_number \<Rightarrow> string) \<Rightarrow> engine_outcome \<Rightarrow> type_error + js_string" where
  "describeFailure pn oc =
     (let ls = filter (\<lambda>l. l \<noteq> []) (split_on LF (js_trim (oc_stderr oc)));
          tail = join_on LF (drop (length ls - 3) ls);
          hint = (if isDockerDown (oc_stderr oc) then LF # DOCKER_DOWN_HINT else [])
      in bindR
           (case oc_result oc of
              Some e \<Rightarrow> bindR (text_of pn (get_prop e (js ''status''))) (\<lambda>t. Inr (js ''sandbox run ended: '' @ t))
            | None \<Rightarrow>
                Inr (ENGINE_BIN @ js '' exited ''
                     @ (case oc_code oc of
                          Some c \<Rightarrow> js (decimal_int c)
                        | None \<Rightarrow> (case oc_signal oc of Some s \<Rightarrow> s | None \<Rightarrow> js ''abnormally''))))
           (\<lambda>head. Inr (if tail \<noteq> [] then head @ [LF] @ tail @ hint else head @ hint)))"

definition isRepoRoot :: "(js_string \<Rightarrow> bool) \<Rightarrow> js_string \<Rightarrow> bool" where
  "isRepoRoot exists dir = exists (join_path [dir, js ''.git''])"

section \<open>The candidate for approval\<close>

text \<open>
  \<open>Buffer.toString("utf8")\<close>: as the fatal decoder, but a maximal part of an ill-formed sequence becomes one
  replacement character.
\<close>

definition bad_length :: "bytes \<Rightarrow> nat" where
  "bad_length bs =
     (case bs of
        b0 # b1 # r \<Rightarrow>
          if in_range 0xE0 0xEF b0 \<and> in_range (if unat b0 = 0xE0 then 0xA0 else 0x80) (if unat b0 = 0xED then 0x9F else 0xBF) b1 then 2
          else if in_range 0xF0 0xF4 b0 \<and> in_range (if unat b0 = 0xF0 then 0x90 else 0x80) (if unat b0 = 0xF4 then 0x8F else 0xBF) b1
          then (case r of b2 # _ \<Rightarrow> if in_range 0x80 0xBF b2 then 3 else 2 | [] \<Rightarrow> 2)
          else 1
      | _ \<Rightarrow> 1)"

lemma bad_length_pos: "0 < bad_length bs"
  by (auto simp: bad_length_def split: list.splits)

function lossy_decode :: "bytes \<Rightarrow> js_string" where
  "lossy_decode bs =
     (if bs = [] then []
      else case utf8_head bs of
        Some (cp, r) \<Rightarrow> utf16_units cp @ lossy_decode r
      | None \<Rightarrow> 0xFFFD # lossy_decode (drop (bad_length bs) bs))"
  by pat_completeness auto
termination by (relation "measure length") (auto dest: utf8_head_shorter simp: bad_length_pos)

declare lossy_decode.simps [simp del]

datatype candidate_error = NoDigest | OpenFailed | BadDescriptor | StatFailed | NotReviewable | ReadFailed | CandidateChanged

text \<open>
  An open file: what \<open>fstat\<close> reports (whether it is a regular file, and its size) and what a read of at most \<open>n\<close> bytes
  delivers; either may fail, and the file may change between the two calls. The process has a table of open
  descriptors; \<open>openSync\<close> adds the lowest free number to it, \<open>closeSync\<close> takes a number out.
\<close>

record open_file =
  of_stat :: "(bool \<times> nat) option"
  of_read :: "nat \<Rightarrow> bytes option"

type_synonym descriptor_table = "(nat \<times> open_file) list"
type_synonym 'a fd_action = "descriptor_table \<Rightarrow> descriptor_table \<times> (candidate_error + 'a)"

definition bindD :: "'a fd_action \<Rightarrow> ('a \<Rightarrow> 'b fd_action) \<Rightarrow> 'b fd_action" where
  "bindD m k fds = (case m fds of (fds', Inl e) \<Rightarrow> (fds', Inl e) | (fds', Inr x) \<Rightarrow> k x fds')"

definition pureD :: "candidate_error + 'a \<Rightarrow> 'a fd_action" where
  "pureD r fds = (fds, r)"

text \<open>\<open>try\<close> with \<open>finally\<close>: the last part runs whatever the body did, and what it throws takes the place of the result.\<close>

definition try_finally :: "'a fd_action \<Rightarrow> unit fd_action \<Rightarrow> 'a fd_action" where
  "try_finally body fin fds =
     (case body fds of (fds1, r) \<Rightarrow>
      case fin fds1 of (fds2, c) \<Rightarrow> (fds2, case c of Inl e \<Rightarrow> Inl e | Inr _ \<Rightarrow> r))"

definition free_descriptor :: "descriptor_table \<Rightarrow> nat" where
  "free_descriptor fds = hd (filter (\<lambda>n. n \<notin> fst ` set fds) [0 ..< Suc (length fds)])"

definition openSync :: "(js_string \<Rightarrow> open_file option) \<Rightarrow> js_string \<Rightarrow> nat fd_action" where
  "openSync disk path fds =
     (case disk path of
        None \<Rightarrow> (fds, Inl OpenFailed)
      | Some f \<Rightarrow> (let fd = free_descriptor fds in ((fd, f) # fds, Inr fd)))"

definition with_descriptor :: "nat \<Rightarrow> (open_file \<Rightarrow> candidate_error + 'a) \<Rightarrow> 'a fd_action" where
  "with_descriptor fd k fds = (fds, case map_of fds fd of None \<Rightarrow> Inl BadDescriptor | Some f \<Rightarrow> k f)"

definition fstatSync :: "nat \<Rightarrow> (bool \<times> nat) fd_action" where
  "fstatSync fd = with_descriptor fd (\<lambda>f. case of_stat f of None \<Rightarrow> Inl StatFailed | Some st \<Rightarrow> Inr st)"

definition readSync :: "nat \<Rightarrow> nat \<Rightarrow> bytes fd_action" where
  "readSync fd n = with_descriptor fd (\<lambda>f. case of_read f n of None \<Rightarrow> Inl ReadFailed | Some available \<Rightarrow> Inr (take n available))"

definition closeSync :: "nat \<Rightarrow> unit fd_action" where
  "closeSync fd fds =
     (if fd \<in> fst ` set fds then (filter (\<lambda>x. fst x \<noteq> fd) fds, Inr ()) else (fds, Inl BadDescriptor))"

definition readCandidateForApproval ::
  "(js_string \<Rightarrow> open_file option) \<Rightarrow> (bytes \<Rightarrow> js_string) \<Rightarrow> js_string \<Rightarrow> js_string option \<Rightarrow> js_string fd_action" where
  "readCandidateForApproval disk sha256 runDir digest =
     (case digest of
        None \<Rightarrow> pureD (Inl NoDigest)
      | Some d \<Rightarrow>
          if d = [] then pureD (Inl NoDigest)
          else bindD (openSync disk (join_path [runDir, js ''candidate.patch''])) (\<lambda>fd.
            try_finally
              (bindD (fstatSync fd) (\<lambda>(isFile, size).
                 if \<not> isFile \<or> int size > 1000000 then pureD (Inl NotReviewable)
                 else bindD (readSync fd (size + 1)) (\<lambda>bytes.
                   if sha256 bytes \<noteq> d then pureD (Inl CandidateChanged) else pureD (Inr (lossy_decode bytes)))))
              (closeSync fd)))"

section \<open>Paths stay inside the repository\<close>

lemma ends_with_sep: "ends_with [sep] p \<longleftrightarrow> p \<noteq> [] \<and> last p = sep"
  by (cases p rule: rev_cases) (auto simp: ends_with_def)

lemma pathUnderRoot_walk:
  assumes "isAbsolute cwd" and d_def: "d = directory cwd rt"
  shows "pathUnderRoot cwd rt rel =
    (if rel = [] \<or> isAbsolute rel \<or> 0 \<in> set rel \<or> take (length d) (walk d rel) \<noteq> d then None
     else Some (abs_path (walk d rel)))"
proof -
  have d: "list_all clean_name d" by (simp add: d_def directory_clean)
  have "resolve_path cwd [rt] = abs_path d" unfolding d_def by (rule resolve_one) (fact assms)
  moreover have "resolve_path cwd [abs_path d, rel] = abs_path (walk d rel)" if "rel \<noteq> []" "\<not> isAbsolute rel"
    using resolve_two [of "abs_path d" rel cwd] walk_abs_path [OF d] that by simp
  moreover have "(abs_path (walk d rel) = abs_path d
      \<or> starts_with (if ends_with [sep] (abs_path d) then abs_path d else abs_path d @ [sep]) (abs_path (walk d rel)))
      \<longleftrightarrow> take (length d) (walk d rel) = d"
    using below_iff [OF d walk_clean [OF d], of rel]
    by (simp add: starts_with_def ends_with_sep Let_def abs_path_def)
  ultimately show ?thesis unfolding pathUnderRoot_def Let_def by (auto split: if_split_asm)
qed

text \<open>\<open>pathUnderRoot\<close> returns a path exactly when the relative path is not empty, not absolute, has no NUL
  character and leads to the root directory or to a directory or file below it, read name by name with
  the steps up taken; the result is the normal absolute path of that place. A path that leaves the root, or
  that ends in a sibling whose name only starts like the root's, is refused.
\<close>

theorem pathUnderRoot_inside:
  assumes "isAbsolute cwd"
  shows "pathUnderRoot cwd rt rel = Some target \<longleftrightarrow>
    rel \<noteq> [] \<and> \<not> isAbsolute rel \<and> 0 \<notin> set rel
    \<and> (\<exists>names. list_all clean_name names \<and> walk (directory cwd rt) rel = directory cwd rt @ names
         \<and> target = abs_path (directory cwd rt @ names))"
proof -
  have "list_all clean_name (walk (directory cwd rt) rel)" by (simp add: walk_clean directory_clean)
  then have names: "list_all clean_name names" if "walk (directory cwd rt) rel = directory cwd rt @ names" for names
    using that by simp
  show ?thesis unfolding pathUnderRoot_walk [OF assms refl] take_prefix_iff using names by auto
qed

lemma yaml_file_path_nonempty: "yaml_file_path ls = Some p \<Longrightarrow> p \<noteq> []"
  by (induction ls) (auto simp: Let_def split: option.splits if_splits)

lemma findingFilePath_nonempty: "findingFilePath c = Some p \<Longrightarrow> p \<noteq> []"
  by (auto simp: findingFilePath_def Let_def dest: yaml_file_path_nonempty split: option.splits if_splits js_value.splits)

text \<open>C14: A sandbox target is accepted exactly when the finding and its manifest exist, the finding can be read,
  and it names by a relative path a place of the repository that exists. So no finding makes a run
  start for a file outside the repository root.
\<close>

theorem sandbox_target_in_repository:
  assumes "isAbsolute cwd"
  shows "assertSandboxTarget cwd exists readFile repoRoot finding manifest = Inr () \<longleftrightarrow>
    exists finding \<and> exists manifest
    \<and> (\<exists>contents rel names. readFile finding = Some contents \<and> findingFilePath contents = Some rel
         \<and> \<not> isAbsolute rel \<and> 0 \<notin> set rel \<and> walk (directory cwd repoRoot) rel = directory cwd repoRoot @ names
         \<and> exists (abs_path (directory cwd repoRoot @ names)))"
  (is "_ \<longleftrightarrow> ?spec")
proof -
  have nonempty: "rel \<noteq> []" if "findingFilePath contents = Some rel" for contents rel
    using that findingFilePath_nonempty by blast
  show ?thesis
    unfolding assertSandboxTarget_def pathUnderRoot_walk [OF assms refl] take_prefix_iff
    using nonempty by (auto split: option.splits if_splits)
qed

theorem sandbox_target_in_repository_witness:
  "assertSandboxTarget (js ''/w'') (\<lambda>p. p \<in> {js ''/f.finding.yml'', js ''/f.yml'', js ''/w/repo/a.py''})
      (\<lambda>_. Some (js ''file_path: a.py # the file'')) (js ''repo'') (js ''/f.finding.yml'') (js ''/f.yml'') = Inr ()
   \<and> (\<exists>contents rel names. Some (js ''file_path: a.py # the file'') = Some contents \<and> findingFilePath contents = Some rel
         \<and> \<not> isAbsolute rel \<and> 0 \<notin> set rel \<and> walk (directory (js ''/w'') (js ''repo'')) rel = directory (js ''/w'') (js ''repo'') @ names
         \<and> abs_path (directory (js ''/w'') (js ''repo'') @ names) \<in> {js ''/f.finding.yml'', js ''/f.yml'', js ''/w/repo/a.py''})"
proof -
  have cwd: "isAbsolute (js ''/w'')" by code_simp
  have ok: "assertSandboxTarget (js ''/w'') (\<lambda>p. p \<in> {js ''/f.finding.yml'', js ''/f.yml'', js ''/w/repo/a.py''})
      (\<lambda>_. Some (js ''file_path: a.py # the file'')) (js ''repo'') (js ''/f.finding.yml'') (js ''/f.yml'') = Inr ()"
    by code_simp
  from ok [unfolded sandbox_target_in_repository [OF cwd]] show ?thesis using ok by simp
qed

section \<open>The environment of the child\<close>

text \<open>What the child inherits of a variable.\<close>

definition inherited :: "(js_string \<Rightarrow> js_string) \<Rightarrow> (js_string \<times> js_string option) list \<Rightarrow> js_string \<Rightarrow> js_string option" where
  "inherited upper base k =
     (if isCredentialEnvKey upper k \<or> k = js ''__proto__'' then None
      else case map_of base k of Some v \<Rightarrow> v | None \<Rightarrow> None)"

lemma map_of_set_env: "map_of (set_env env k v) = (if k = js ''__proto__'' then map_of env else (map_of env)(k \<mapsto> v))"
  by (simp add: set_env_def alist_of_update)

lemma env_step:
  "map_of (case v of None \<Rightarrow> env | Some t \<Rightarrow> if isCredentialEnvKey upper key then env else set_env env key t)
   = (map_of env)(key := (case inherited upper [(key, v)] key of None \<Rightarrow> map_of env key | Some t \<Rightarrow> Some t))"
  by (cases v) (auto simp: map_of_set_env inherited_def)

lemma inherited_Cons:
  "inherited upper ((key, v) # base) k = (if k = key then inherited upper [(key, v)] k else inherited upper base k)"
  by (simp add: inherited_def)

lemma inherited_absent: "k \<notin> fst ` set base \<Longrightarrow> inherited upper base k = None"
  by (simp add: inherited_def map_of_eq_None_iff [THEN iffD2])

lemma env_loop:
  "distinct (map fst base) \<Longrightarrow>
   map_of (foldl (\<lambda>env (key, v). case v of None \<Rightarrow> env | Some t \<Rightarrow> if isCredentialEnvKey upper key then env else set_env env key t) env base) k
   = (case inherited upper base k of None \<Rightarrow> map_of env k | Some t \<Rightarrow> Some t)"
proof (induction base arbitrary: env)
  case (Cons x base)
  obtain key v where x: "x = (key, v)" by force
  show ?case
  proof (cases "k = key")
    case True
    then have "inherited upper base k = None" using Cons.prems by (intro inherited_absent) (simp add: x)
    then show ?thesis using Cons True by (simp add: x env_step inherited_Cons [of _ key v base] split: option.split)
  next
    case False
    then show ?thesis using Cons by (simp add: x env_step inherited_Cons [of _ key v base] split: option.split)
  qed
qed (simp add: inherited_def)

text \<open>The value of the header variable.\<close>

definition headers_json :: "environment \<Rightarrow> js_string" where
  "headers_json hs =
     [0x7B] @ join_on 0x2C (map (\<lambda>(k, v). quote_json k @ [0x3A] @ quote_json v) hs) @ [0x7D]"

lemma stringify_headers:
  "stringify pn po (JObject False (map (\<lambda>(k, v). (k, JString v)) hs)) = JsonText (headers_json hs)"
proof -
  have "List.map_filter (\<lambda>(k, r). case r of JsonText t \<Rightarrow> Some (quote_json k @ [0x3A] @ t) | _ \<Rightarrow> None)
      (map (\<lambda>(k, v). (k, JsonText (quote_json v))) hs) = map (\<lambda>(k, v). quote_json k @ [0x3A] @ quote_json v) hs"
    by (induction hs) (auto simp: map_filter_simps)
  moreover have "map (\<lambda>(k, v). (k, stringify pn po v)) (map (\<lambda>(k, v). (k, JString v)) hs)
      = map (\<lambda>(k, v). (k, JsonText (quote_json v))) hs" by auto
  moreover have "JsonThrows \<notin> snd ` set (map (\<lambda>(k, v). (k, JsonText (quote_json v))) hs)" by auto
  ultimately show ?thesis unfolding stringify.simps object_json_def headers_json_def by (simp only: if_False)
qed

text \<open>C13: The environment of the engine is known for every name: the model key and the request headers are set under
  their two names when they are given, and under no other name; every other name that looks like a
  credential is absent, whatever the parent has; all others have the parent's value. The header variable is
  the JSON text of the headers.
\<close>

theorem engineEnv_spec:
  assumes "distinct (map fst base)"
  shows "map_of (engineEnv upper base apiKey headers) k =
    (if k = MODEL_HTTP_HEADERS_ENV \<and> headers \<noteq> [] then Some (headers_json headers)
     else if k = MODEL_API_KEY_ENV \<and> apiKey \<noteq> None \<and> apiKey \<noteq> Some [] then apiKey
     else if isCredentialEnvKey upper k \<or> k = js ''__proto__'' then None
     else case map_of base k of Some v \<Rightarrow> v | None \<Rightarrow> None)"
proof -
  define env where "env = foldl (\<lambda>env (key, v).
    case v of None \<Rightarrow> env | Some t \<Rightarrow> if isCredentialEnvKey upper key then env else set_env env key t) [] base"
  have env: "map_of env k = inherited upper base k" using env_loop [OF assms, of upper "[]" k]
    by (simp add: env_def split: option.splits)
  have names: "MODEL_API_KEY_ENV \<noteq> js ''__proto__''" "MODEL_HTTP_HEADERS_ENV \<noteq> js ''__proto__''"
    "MODEL_HTTP_HEADERS_ENV \<noteq> MODEL_API_KEY_ENV"
    by (simp_all add: MODEL_API_KEY_ENV_def MODEL_HTTP_HEADERS_ENV_def js_def)
  show ?thesis using env names
    unfolding engineEnv_def env_def [symmetric] Let_def stringify_headers
    by (cases apiKey) (auto simp: map_of_set_env inherited_def)
qed

definition demo_parent_env :: "(js_string \<times> js_string option) list" where
  "demo_parent_env = [(js ''PATH'', Some (js ''/bin'')), (js ''GITHUB_TOKEN'', Some (js ''t'')), (js ''PATCHCAGE_MODEL_API_KEY'', Some (js ''old''))]"

theorem engineEnv_spec_witness:
  "map_of (engineEnv (\<lambda>s. s) demo_parent_env (Some (js ''key'')) []) (js ''GITHUB_TOKEN'') = None
   \<and> map_of (engineEnv (\<lambda>s. s) demo_parent_env (Some (js ''key'')) []) (js ''PATH'') = Some (js ''/bin'')
   \<and> map_of (engineEnv (\<lambda>s. s) demo_parent_env (Some (js ''key'')) []) MODEL_API_KEY_ENV = Some (js ''key'')"
proof -
  have d: "distinct (map fst demo_parent_env)" by code_simp
  have "isCredentialEnvKey (\<lambda>s. s) (js ''GITHUB_TOKEN'')" "\<not> isCredentialEnvKey (\<lambda>s. s) (js ''PATH'')"
    by code_simp+
  moreover have "js ''GITHUB_TOKEN'' \<notin> {MODEL_API_KEY_ENV, MODEL_HTTP_HEADERS_ENV}" "js ''PATH'' \<notin> {MODEL_API_KEY_ENV, MODEL_HTTP_HEADERS_ENV}"
    "MODEL_API_KEY_ENV \<noteq> MODEL_HTTP_HEADERS_ENV" "js ''PATH'' \<noteq> js ''__proto__''" "map_of demo_parent_env (js ''PATH'') = Some (Some (js ''/bin''))" "js ''key'' \<noteq> []"
    by code_simp+
  ultimately show ?thesis unfolding engineEnv_spec [OF d] by simp
qed

section \<open>The output of the engine\<close>

definition engine_events :: "js_string \<Rightarrow> engine_event list" where
  "engine_events out = List.map_filter parseEngineLine (split_on LF out)"

definition last_result :: "engine_event list \<Rightarrow> engine_event option" where
  "last_result es = find (\<lambda>e. event_type e = JString (js ''result'')) (rev es)"

definition stdout_of :: "child_event list \<Rightarrow> js_string" where
  "stdout_of evs = concat (map (\<lambda>ev. case ev of Stdout c \<Rightarrow> c | _ \<Rightarrow> []) evs)"

definition stderr_of :: "child_event list \<Rightarrow> js_string" where
  "stderr_of evs = concat (map (\<lambda>ev. case ev of Stderr c \<Rightarrow> c | _ \<Rightarrow> []) evs)"

definition running :: "child_event \<Rightarrow> bool" where
  "running ev = (case ev of Child_error _ _ \<Rightarrow> False | Child_close _ _ \<Rightarrow> False | _ \<Rightarrow> True)"

lemma streams_snoc [simp]:
  "stdout_of (evs @ [ev]) = stdout_of evs @ (case ev of Stdout c \<Rightarrow> c | _ \<Rightarrow> [])"
  "stderr_of (evs @ [ev]) = stderr_of evs @ (case ev of Stderr c \<Rightarrow> c | _ \<Rightarrow> [])"
  by (simp_all add: stdout_of_def stderr_of_def)

lemma last_result_snoc:
  "last_result (es @ [e]) = (if event_type e = JString (js ''result'') then Some e else last_result es)"
  by (simp add: last_result_def)

text \<open>The lines of a state: those in its buffer follow those it has delivered.\<close>

definition delivers :: "engine_event list \<Rightarrow> engine_run \<Rightarrow> bool" where
  "delivers es st = (er_delivered st = es \<and> er_result st = last_result es)"

lemma engine_line_delivers:
  "delivers es st \<Longrightarrow> delivers (es @ List.map_filter parseEngineLine [line]) (engine_line line st)"
  by (auto simp: delivers_def engine_line_def map_filter_simps last_result_snoc split: option.splits)

lemma engine_line_others [simp]:
  "er_buffer (engine_line l st) = er_buffer st" "er_stderr (engine_line l st) = er_stderr st"
  "er_kills (engine_line l st) = er_kills st" "er_listening (engine_line l st) = er_listening st"
  "er_outcome (engine_line l st) = er_outcome st"
  by (simp_all add: engine_line_def split: option.splits)

lemma delivers_buffer [simp]: "delivers es (st\<lparr>er_buffer := b\<rparr>) = delivers es st"
  by (simp add: delivers_def)

lemma split_on_step:
  assumes "dropWhile (\<lambda>c. c \<noteq> x) b = y # rest"
  shows "split_on x b = takeWhile (\<lambda>c. c \<noteq> x) b # split_on x rest"
proof -
  have "y = x" using assms by (simp add: dropWhile_eq_Cons_conv)
  then have "takeWhile (\<lambda>c. c \<noteq> x) b @ x # rest = b" using takeWhile_dropWhile_id [of "\<lambda>c. c \<noteq> x" b] assms by simp
  moreover have "x \<notin> set (takeWhile (\<lambda>c. c \<noteq> x) b)" by (auto dest: set_takeWhileD)
  ultimately show ?thesis using split_append_sep [of x "takeWhile (\<lambda>c. c \<noteq> x) b" rest] by simp
qed

lemma feed_loop_spec:
  "delivers es st \<Longrightarrow>
   delivers (es @ List.map_filter parseEngineLine (butlast (split_on LF (er_buffer st)))) (feed_loop st)
   \<and> er_buffer (feed_loop st) = last (split_on LF (er_buffer st))
   \<and> er_stderr (feed_loop st) = er_stderr st \<and> er_kills (feed_loop st) = er_kills st
   \<and> er_listening (feed_loop st) = er_listening st \<and> er_outcome (feed_loop st) = er_outcome st"
proof (induction st arbitrary: es rule: feed_loop.induct)
  case (1 st)
  show ?case
  proof (cases "dropWhile (\<lambda>c. c \<noteq> LF) (er_buffer st)")
    case Nil
    then have "LF \<notin> set (er_buffer st)" by (auto simp: dropWhile_eq_Nil_conv)
    moreover have "feed_loop st = st" unfolding feed_loop.simps [of st] Nil by simp
    ultimately show ?thesis using "1.prems" by (simp add: split_no_sep map_filter_simps)
  next
    case (Cons c rest)
    define line where "line = takeWhile (\<lambda>c. c \<noteq> LF) (er_buffer st)"
    define st1 where "st1 = engine_line line st\<lparr>er_buffer := rest\<rparr>"
    have step: "feed_loop st = feed_loop st1" unfolding feed_loop.simps [of st] Cons by (simp add: st1_def line_def)
    have b: "er_buffer st1 = rest" by (simp add: st1_def)
    have sp: "split_on LF (er_buffer st) = line # split_on LF rest" using split_on_step [OF Cons] by (simp add: line_def)
    have d1: "delivers (es @ List.map_filter parseEngineLine [line]) st1"
      using engine_line_delivers [OF "1.prems"] by (simp add: st1_def)
    have "butlast (line # split_on LF rest) = [line] @ butlast (split_on LF rest)" by simp
    moreover have "er_stderr st1 = er_stderr st" "er_kills st1 = er_kills st" "er_listening st1 = er_listening st" "er_outcome st1 = er_outcome st"
      by (simp_all add: st1_def)
    ultimately show ?thesis using "1.IH" [OF Cons, folded line_def, folded st1_def, OF d1] unfolding step sp b
      by (simp only: map_filter_append append.assoc last.simps split_on_nonempty if_False)
  qed
qed

lemma split_on_append_any:
  "split_on c (xs @ ys) = butlast (split_on c xs) @ split_on c (last (split_on c xs) @ ys)"
proof (induction xs)
  case (Cons x xs)
  then show ?case by (cases "split_on c xs"; cases "split_on c (xs @ ys)") (auto split: if_splits)
qed simp

text \<open>What holds while the child runs.\<close>

definition engine_inv :: "bool \<Rightarrow> bool \<Rightarrow> child_event list \<Rightarrow> engine_run \<Rightarrow> bool" where
  "engine_inv has_signal aborted evs st =
     (delivers (List.map_filter parseEngineLine (butlast (split_on LF (stdout_of evs)))) st
      \<and> er_buffer st = last (split_on LF (stdout_of evs)) \<and> er_stderr st = stderr_of evs \<and> er_outcome st = None
      \<and> er_listening st = (has_signal \<and> Abort_signal \<notin> set evs)
      \<and> er_kills st = (if has_signal \<and> aborted then 1 else 0) + (if has_signal \<and> Abort_signal \<in> set evs then 1 else 0))"

lemma engine_inv_start: "engine_inv has_signal aborted [] (engine_start has_signal aborted)"
  by (simp add: engine_inv_def engine_start_def stdout_of_def stderr_of_def delivers_def map_filter_simps last_result_def)

lemma engine_inv_step:
  assumes "engine_inv hs ab evs st" "running ev"
  shows "engine_inv hs ab (evs @ [ev]) (engine_step st ev)"
proof (cases ev)
  case (Stdout chunk)
  define b where "b = er_buffer st @ chunk"
  have b: "b = last (split_on LF (stdout_of evs)) @ chunk" using assms by (simp add: b_def engine_inv_def)
  have "split_on LF (stdout_of evs @ chunk) = butlast (split_on LF (stdout_of evs)) @ split_on LF b"
    unfolding b by (rule split_on_append_any)
  then have sp: "butlast (split_on LF (stdout_of evs @ chunk)) = butlast (split_on LF (stdout_of evs)) @ butlast (split_on LF b)"
    "last (split_on LF (stdout_of evs @ chunk)) = last (split_on LF b)" by (simp_all add: butlast_append)
  have "delivers (List.map_filter parseEngineLine (butlast (split_on LF (stdout_of evs)))) (st\<lparr>er_buffer := b\<rparr>)"
    using assms by (simp add: engine_inv_def)
  from feed_loop_spec [OF this] show ?thesis using assms(1)
    by (simp add: Stdout engine_step_def feed_def b [symmetric] engine_inv_def map_filter_append sp split del: if_split)
qed (use assms in \<open>auto simp: engine_inv_def engine_step_def delivers_def running_def\<close>)

lemma engine_inv_run: "list_all running evs \<Longrightarrow> engine_inv hs ab evs (runEngine hs ab evs)"
proof (induction evs rule: rev_induct)
  case Nil
  then show ?case by (simp add: runEngine_def engine_inv_start)
next
  case (snoc ev evs)
  then show ?case using engine_inv_step [of hs ab evs _ ev] by (simp add: runEngine_def)
qed

lemma parseEngineLine_Nil [simp]: "parseEngineLine [] = None"
  by (simp add: parseEngineLine_def js_trim_def trimEnd_def starts_with_def js_def)

lemma engine_close:
  assumes "engine_inv hs ab evs st" "st' = engine_step st (Child_close code signal)"
  shows "delivers (engine_events (stdout_of evs)) st' \<and> er_kills st' = er_kills st
    \<and> er_outcome st' = Some \<lparr>oc_code = code, oc_signal = signal,
         oc_result = last_result (engine_events (stdout_of evs)), oc_stderr = stderr_of evs\<rparr>"
proof -
  define ls where "ls = split_on LF (stdout_of evs)"
  have ls: "ls = butlast ls @ [last ls]" by (simp add: ls_def)
  have buf: "er_buffer st = last ls" and del: "delivers (List.map_filter parseEngineLine (butlast ls)) st"
    using assms by (simp_all add: engine_inv_def ls_def)
  have nolf: "LF \<notin> set (last ls)" using split_on_pieces [of "last ls" LF "stdout_of evs"] by (simp add: ls_def)
  define st1 where "st1 = st\<lparr>er_listening := False\<rparr>"
  define st2 where "st2 = (if er_buffer st1 \<noteq> [] then feed [LF] st1 else st1)"
  have del1: "delivers (List.map_filter parseEngineLine (butlast ls)) st1" using del by (simp add: st1_def delivers_def)
  have sp: "split_on LF (last ls @ [LF]) = [last ls, []]" using split_append_sep [OF nolf, of "[]"] by simp
  have "delivers (List.map_filter parseEngineLine ls) st2 \<and> er_stderr st2 = er_stderr st \<and> er_kills st2 = er_kills st \<and> er_outcome st2 = er_outcome st"
  proof (cases "last ls = []")
    case True
    then have "List.map_filter parseEngineLine ls = List.map_filter parseEngineLine (butlast ls)"
      using map_filter_append [of parseEngineLine "butlast ls" "[last ls]"] ls by (simp add: map_filter_simps)
    then show ?thesis using del1 True buf by (simp add: st2_def st1_def)
  next
    case False
    then have "st2 = feed_loop (st1\<lparr>er_buffer := last ls @ [LF]\<rparr>)" using buf by (simp add: st2_def feed_def st1_def)
    then show ?thesis using feed_loop_spec [of _ "st1\<lparr>er_buffer := last ls @ [LF]\<rparr>"] del1 sp
        map_filter_append [of parseEngineLine "butlast ls" "[last ls]"] ls by (simp add: st1_def)
  qed
  then show ?thesis using assms unfolding engine_events_def ls_def [symmetric]
    by (simp add: engine_step_def Let_def st1_def [symmetric] st2_def [symmetric] resolve_once_def engine_inv_def delivers_def)
qed

text \<open>C19: However the output of the engine is cut into chunks, mixed with output on the other stream and with an abort,
  the events handed over are those of the lines of the whole output, in order, a last line without
  a line feed included; the promise is resolved with the exit code and signal of the child, the last result event,
  and everything written to the error stream; the child is interrupted at most once for a signal that fires.
\<close>

theorem engine_run_outcome:
  assumes "list_all running evs" "st = runEngine has_signal aborted (evs @ [Child_close code signal])"
  shows "er_delivered st = engine_events (stdout_of evs)
    \<and> er_outcome st = Some \<lparr>oc_code = code, oc_signal = signal,
        oc_result = last_result (engine_events (stdout_of evs)), oc_stderr = stderr_of evs\<rparr>
    \<and> er_kills st = (if has_signal \<and> aborted then 1 else 0) + (if has_signal \<and> Abort_signal \<in> set evs then 1 else 0)"
proof -
  define st0 where "st0 = runEngine has_signal aborted evs"
  have inv: "engine_inv has_signal aborted evs st0" unfolding st0_def by (rule engine_inv_run) (fact assms)
  have st: "st = engine_step st0 (Child_close code signal)" using assms(2) by (simp add: st0_def runEngine_def)
  show ?thesis using engine_close [OF inv st] inv by (simp add: delivers_def engine_inv_def split del: if_split)
qed

definition demo_output :: "child_event list" where
  "demo_output =
     [Stdout (js ''log'' @ [LF] @ js ''{\"event_type\":\"re''), Stderr (js ''w''), Abort_signal, Stdout (js ''sult\",\"status\":\"ok\"}'')]"

theorem engine_run_outcome_witness:
  "er_delivered (runEngine True False (demo_output @ [Child_close (Some 0) None]))
     = [[(js ''event_type'', JString (js ''result'')), (js ''status'', JString (js ''ok''))]]
   \<and> er_kills (runEngine True False (demo_output @ [Child_close (Some 0) None])) = 1"
proof -
  have "list_all running demo_output" by code_simp
  moreover have "engine_events (stdout_of demo_output) = [[(js ''event_type'', JString (js ''result'')), (js ''status'', JString (js ''ok''))]]"
    by code_simp
  moreover have "Abort_signal \<in> set demo_output" by (simp add: demo_output_def)
  ultimately show ?thesis using engine_run_outcome [of demo_output _ True False "Some 0" None, OF _ refl] by simp
qed

section \<open>The candidate is the verified one\<close>

lemma free_descriptor_free: "free_descriptor fds \<notin> fst ` set fds"
proof -
  let ?free = "filter (\<lambda>n. n \<notin> fst ` set fds) [0 ..< Suc (length fds)]"
  have "?free \<noteq> []"
  proof
    assume "?free = []"
    then have "{0 ..< Suc (length fds)} \<subseteq> fst ` set fds" by (simp only: filter_empty_conv set_upt) blast
    then have "Suc (length fds) \<le> card (fst ` set fds)" using card_mono [of "fst ` set fds" "{0 ..< Suc (length fds)}"] by simp
    then show False using card_length [of "map fst fds"] by simp
  qed
  from hd_in_set [OF this] show ?thesis unfolding free_descriptor_def set_filter by blast
qed

lemma close_opened: "closeSync (free_descriptor fds) ((free_descriptor fds, f) # fds) = (fds, Inr ())"
proof -
  have "filter (\<lambda>x. fst x \<noteq> free_descriptor fds) fds = fds"
    using free_descriptor_free [of fds] by (force simp: filter_id_conv)
  then show ?thesis by (simp add: closeSync_def)
qed

text \<open>The call on an open file: what the checks say of the bytes that the read delivers, and a table as before.\<close>

definition reviewed :: "(bytes \<Rightarrow> js_string) \<Rightarrow> js_string \<Rightarrow> open_file \<Rightarrow> candidate_error + js_string" where
  "reviewed sha256 d f =
     (case of_stat f of
        None \<Rightarrow> Inl StatFailed
      | Some (isFile, fileSize) \<Rightarrow>
          if \<not> isFile \<or> int fileSize > 1000000 then Inl NotReviewable
          else (case of_read f (fileSize + 1) of
            None \<Rightarrow> Inl ReadFailed
          | Some available \<Rightarrow>
              if sha256 (take (fileSize + 1) available) \<noteq> d then Inl CandidateChanged else Inr (lossy_decode (take (fileSize + 1) available))))"

lemma readCandidate_eq:
  "readCandidateForApproval disk sha256 runDir digest fds =
     (fds, case digest of
        None \<Rightarrow> Inl NoDigest
      | Some d \<Rightarrow> if d = [] then Inl NoDigest
          else case disk (join_path [runDir, js ''candidate.patch'']) of None \<Rightarrow> Inl OpenFailed | Some f \<Rightarrow> reviewed sha256 d f)"
  by (simp add: readCandidateForApproval_def bindD_def pureD_def openSync_def try_finally_def fstatSync_def readSync_def
      with_descriptor_def close_opened reviewed_def Let_def split: option.splits)

text \<open>A regular file that holds the same bytes throughout the call.\<close>

definition regular_file :: "bytes \<Rightarrow> open_file" where
  "regular_file content = \<lparr>of_stat = Some (True, length content), of_read = (\<lambda>n. Some (take n content))\<rparr>"

text \<open>C15: What a user is asked to approve is the decoding of bytes that were read from the candidate file, at most a million and one of
  them, and whose digest is the one the engine reported. So when the digest is that of a verified patch, the text is that of
  the verified patch, or the bytes in the file are another input with the same digest, a collision. A regular file that does not change is accepted
  exactly when it has at most a million bytes and the digest, and then all of it is shown. Whatever fails, the
  descriptors that are open after the call are those that were open before it.
\<close>

theorem candidate_for_approval:
  shows "fst (readCandidateForApproval disk sha256 runDir digest fds) = fds
    \<and> (snd (readCandidateForApproval disk sha256 runDir digest fds) = Inr text \<longrightarrow>
        (\<exists>f fileSize available bytes. disk (join_path [runDir, js ''candidate.patch'']) = Some f
           \<and> of_stat f = Some (True, fileSize) \<and> of_read f (fileSize + 1) = Some available \<and> bytes = take (fileSize + 1) available
           \<and> int (length bytes) \<le> 1000001 \<and> digest = Some (sha256 bytes) \<and> text = lossy_decode bytes
           \<and> (\<forall>verified. digest = Some (sha256 verified) \<longrightarrow>
                 text = lossy_decode verified \<or> bytes \<noteq> verified \<and> sha256 bytes = sha256 verified)))
    \<and> (disk (join_path [runDir, js ''candidate.patch'']) = Some (regular_file content) \<longrightarrow>
        (snd (readCandidateForApproval disk sha256 runDir digest fds) = Inr text
         \<longleftrightarrow> digest = Some (sha256 content) \<and> sha256 content \<noteq> [] \<and> int (length content) \<le> 1000000 \<and> text = lossy_decode content))"
    (is "?closed \<and> (?ok \<longrightarrow> ?read) \<and> (?regular \<longrightarrow> ?exact)")
proof (intro conjI impI)
  show ?closed by (simp add: readCandidate_eq)
next
  assume ?ok
  then obtain d f where d: "digest = Some d" "disk (join_path [runDir, js ''candidate.patch'']) = Some f" "reviewed sha256 d f = Inr text"
    by (auto simp: readCandidate_eq split: option.splits if_splits)
  then obtain fileSize available where f: "of_stat f = Some (True, fileSize)" "\<not> int fileSize > 1000000" "of_read f (fileSize + 1) = Some available"
    "sha256 (take (fileSize + 1) available) = d" "text = lossy_decode (take (fileSize + 1) available)"
    by (auto simp: reviewed_def split: option.splits if_splits)
  have "int (length (take (fileSize + 1) available)) \<le> 1000001" using f(2) by simp
  then show ?read using d(1,2) f by blast
next
  assume ?regular
  then show ?exact by (auto simp: readCandidate_eq reviewed_def regular_file_def split: option.splits if_splits)
qed

definition demo_digest :: "bytes \<Rightarrow> js_string" where
  "demo_digest bs = js ''sha:'' @ map (\<lambda>b. of_nat (unat b)) bs"

theorem candidate_for_approval_witness:
  "readCandidateForApproval (\<lambda>_. Some (regular_file [0x2B, 0x61])) demo_digest (js ''/r'') (Some (demo_digest [0x2B, 0x61])) []
     = ([], Inr (lossy_decode [0x2B, 0x61]))"
  using candidate_for_approval [of "\<lambda>_. Some (regular_file [0x2B, 0x61])" demo_digest "js ''/r''" "Some (demo_digest [0x2B, 0x61])" "[]"
      "lossy_decode [0x2B, 0x61]" "[0x2B, 0x61]"]
  by (auto simp: demo_digest_def js_def prod_eq_iff)

section \<open>The manifest lies beside the finding\<close>

lemma ends_with_iff: "ends_with t s \<longleftrightarrow> (\<exists>p. s = p @ t)"
proof
  assume "ends_with t s"
  then have "s = take (length s - length t) s @ t" unfolding ends_with_def by (metis append_take_drop_id)
  then show "\<exists>p. s = p @ t" ..
qed (auto simp: ends_with_def)

lemma extension_unique:
  assumes "e \<in> set manifest_extensions" "e' \<in> set manifest_extensions" "p @ e = q @ e'" shows "e = e'"
proof -
  have "take 4 (rev e) = take 4 (rev e')"
    using arg_cong [OF assms(3), of "\<lambda>s. take 4 (rev s)"] assms(1,2) by (auto simp: manifest_extensions_def js_def)
  then show ?thesis using assms(1,2) by (auto simp: manifest_extensions_def js_def)
qed

lemma finding_match_iff:
  "finding_match name = Some (stem, e) \<longleftrightarrow>
     e \<in> set manifest_extensions \<and> name = stem @ js ''.finding'' @ e \<and> \<not> list_ex line_terminator stem"
proof (cases "find (\<lambda>e. ends_with (js ''.finding'' @ e) name) manifest_extensions")
  case None
  then have "\<not> ends_with (js ''.finding'' @ e) name" if "e \<in> set manifest_extensions"
    using that by (auto simp: find_None_iff)
  then show ?thesis using None by (auto simp: finding_match_def ends_with_iff)
next
  case (Some e')
  then have e': "e' \<in> set manifest_extensions" "ends_with (js ''.finding'' @ e') name" by (auto dest: find_Some_iff')
  then obtain p where p: "name = p @ js ''.finding'' @ e'" by (auto simp: ends_with_iff)
  have "stem = p \<and> e = e'" if "e \<in> set manifest_extensions" "name = stem @ js ''.finding'' @ e"
    using extension_unique [OF e'(1) that(1), of "p @ js ''.finding''" "stem @ js ''.finding''"] p that(2) by auto
  then show ?thesis using Some e'(1) p by (auto simp: finding_match_def Let_def)
qed

lemma extension_clean:
  assumes "e \<in> set manifest_extensions" "sep \<notin> set stem" shows "clean_name (stem @ e)"
proof -
  have "3 < length e" "sep \<notin> set e" using assms(1) by (auto simp: manifest_extensions_def js_def)
  then show ?thesis using assms(2) by (auto simp: clean_name_def dest: arg_cong [where f = length])
qed

lemma siblingManifest_abs:
  assumes "list_all clean_name d" "clean_name name"
  shows "siblingManifest (abs_path (d @ [name])) = Some m \<longleftrightarrow>
    (\<exists>stem e. e \<in> set manifest_extensions \<and> name = stem @ js ''.finding'' @ e \<and> \<not> list_ex line_terminator stem
       \<and> m = abs_path (d @ [stem @ e]))"
proof -
  have join: "join_path [abs_path d, stem @ e] = abs_path (d @ [stem @ e])" if "finding_match name = Some (stem, e)" for stem e
  proof -
    from that have "e \<in> set manifest_extensions" "name = stem @ js ''.finding'' @ e" by (simp_all add: finding_match_iff)
    then have "clean_name (stem @ e)" using assms(2) by (intro extension_clean) (auto simp: clean_name_def)
    then show ?thesis using join_absolute [of "abs_path d"] walk_abs_path [OF assms(1)] by simp
  qed
  have "siblingManifest (abs_path (d @ [name])) = Some m \<longleftrightarrow>
      (\<exists>stem e. finding_match name = Some (stem, e) \<and> m = abs_path (d @ [stem @ e]))"
    unfolding siblingManifest_def basename_abs_path [OF assms(2)] dirname_abs_path [OF assms(2,1)]
    using join by (auto split: option.splits)
  then show ?thesis by (simp add: finding_match_iff)
qed

lemma siblingManifest_root: "siblingManifest (abs_path []) = None"
  by code_simp

lemma resolve_abs:
  assumes "isAbsolute d" shows "\<exists>names. list_all clean_name names \<and> resolve_path cwd [d, p] = abs_path names"
proof -
  have "d \<noteq> []" using assms by (simp add: isAbsolute_def)
  then have "\<exists>q. resolve_path cwd [d, p] = abs_path (walk [] q)"
    using assms by (auto simp: resolve_path_def normalizeString_walk abs_path_def)
  then show ?thesis using walk_clean [of "[]"] by auto
qed

text \<open>The manifest of a run is the sibling of its finding: when the inputs are resolved, the finding is a
  normal absolute path that ends in \<open>X.finding.yml\<close>, \<open>X.finding.yaml\<close> or \<open>X.finding.json\<close>, and the manifest is
  the file of the same directory without \<open>.finding\<close>. Without an argument the finding is the only one in the
  repository's \<open>manifests\<close> directory.
\<close>

theorem sandbox_inputs_siblings:
  assumes "isAbsolute cwd" "isAbsolute repoRoot" "\<forall>dir n. n \<in> set (readdir dir) \<longrightarrow> clean_name n"
    and "\<forall>a. findingArg = Some a \<longrightarrow> \<not> isAbsolute a"
    and ok: "resolveSandboxInputs cwd repoRoot findingArg readdir = Inr (finding, manifest)"
  shows "\<exists>d stem e. list_all clean_name d \<and> e \<in> set manifest_extensions
    \<and> finding = abs_path (d @ [stem @ js ''.finding'' @ e]) \<and> manifest = abs_path (d @ [stem @ e])
    \<and> (findingArg = None \<longrightarrow> d = walk [] repoRoot @ [js ''manifests'']
        \<and> filter is_finding_name (readdir (abs_path d)) = [stem @ js ''.finding'' @ e])"
proof -
  have manifests: "clean_name (js ''manifests'')" by code_simp
  define md where "md = walk [] repoRoot @ [js ''manifests'']"
  have md: "list_all clean_name md" "join_path [repoRoot, js ''manifests''] = abs_path md"
    using manifests join_absolute [OF assms(2) manifests] walk_clean [of "[]" repoRoot] by (simp_all add: md_def)
  have sib: "siblingManifest finding = Some manifest"
    using ok by (auto simp: resolveSandboxInputs_def Let_def bindR_Inr_iff split: option.splits)
  have "\<exists>names. list_all clean_name names \<and> finding = abs_path names
      \<and> (findingArg = None \<longrightarrow> (\<exists>n. names = md @ [n] \<and> filter is_finding_name (readdir (abs_path md)) = [n]))"
  proof (cases "\<exists>a. findingArg = Some a \<and> js_trim a \<noteq> []")
    case True
    then obtain a where a: "findingArg = Some a" "js_trim a \<noteq> []" by blast
    then have "finding = resolve_path cwd [repoRoot, js_trim a]"
      using ok assms(4) by (auto simp: resolveSandboxInputs_def Let_def bindR_Inr_iff split: option.splits)
    then show ?thesis using resolve_abs [OF assms(2), of cwd "js_trim a"] a(1) by auto
  next
    case False
    define cs where "cs = filter is_finding_name (readdir (abs_path md))"
    have given: "(case findingArg of Some a \<Rightarrow> if js_trim a \<noteq> [] then Some a else None | None \<Rightarrow> None) = None"
      using False by (auto split: option.splits)
    have one: "length cs = 1" "finding = join_path [abs_path md, hd cs]"
      using ok unfolding resolveSandboxInputs_def Let_def given md cs_def [symmetric]
      by (auto simp: bindR_Inr_iff split: option.splits if_splits)
    then obtain n where n: "cs = [n]" by (cases cs) auto
    then have "n \<in> set cs" by simp
    then have "n \<in> set (readdir (abs_path md))" by (simp add: cs_def)
    then have c: "clean_name n" using assms(3) by blast
    then have "finding = abs_path (md @ [n])" using one n join_absolute [of "abs_path md" n] walk_abs_path [OF md(1)] by simp
    then show ?thesis using md(1) c n cs_def by (intro exI [of _ "md @ [n]"]) simp
  qed
  then obtain names where names: "list_all clean_name names" "finding = abs_path names"
    and none: "findingArg = None \<longrightarrow> (\<exists>n. names = md @ [n] \<and> filter is_finding_name (readdir (abs_path md)) = [n])" by blast
  have "names \<noteq> []" using sib names siblingManifest_root by auto
  then obtain d name where d: "names = d @ [name]" by (metis rev_exhaust)
  have cl: "list_all clean_name d" "clean_name name" using names d by simp_all
  from sib [unfolded names(2) d siblingManifest_abs [OF cl]] obtain stem e where
    "e \<in> set manifest_extensions" "name = stem @ js ''.finding'' @ e" "manifest = abs_path (d @ [stem @ e])" by blast
  then show ?thesis using cl names d none by (intro exI [of _ d] exI [of _ stem] exI [of _ e]) (auto simp: md_def)
qed

end
