(* ===== verification/Model_Config.thy ===== *)
theory Model_Config
  imports Json_File Jsonl_Repo Patchcage_Sandbox
begin

text \<open>
  The file \<open>models.json\<close>: \<open>coding-agent/src/core/model-config.ts\<close> with \<open>normalizePath\<close> of \<open>utils/paths.ts\<close> on a POSIX host.
  The schema is data; the checker of the package \<open>typebox\<close> is an argument, and the locale \<open>schema_checker\<close> says what the
  package documents of it.
\<close>

section \<open>The schema\<close>

text \<open>\<open>TString n\<close> is \<open>Type.String({ minLength: n })\<close>; the keys of a record are strings.\<close>

datatype schema =
    TString nat | TNumber | TBoolean | TNull | TUnknown | TLiteral string | TArray schema | TRecord schema
  | TUnion "schema list" | TOptional schema | TObject "(string \<times> schema) list"

definition optionals :: "string list \<Rightarrow> schema \<Rightarrow> (string \<times> schema) list" where
  "optionals names s = map (\<lambda>n. (n, TOptional s)) names"

definition PercentileCutoffsSchema :: schema where
  "PercentileCutoffsSchema = TObject (optionals [''p50'', ''p75'', ''p90'', ''p99''] TNumber)"

definition OpenRouterRoutingSchema :: schema where
  "OpenRouterRoutingSchema = TObject
     ([(''allow_fallbacks'', TOptional TBoolean), (''require_parameters'', TOptional TBoolean),
       (''data_collection'', TOptional (TUnion [TLiteral ''deny'', TLiteral ''allow''])),
       (''zdr'', TOptional TBoolean), (''enforce_distillable_text'', TOptional TBoolean)]
      @ optionals [''order'', ''only'', ''ignore'', ''quantizations''] (TArray (TString 0))
      @ [(''sort'', TOptional (TUnion [TString 0, TObject
            [(''by'', TOptional (TString 0)), (''partition'', TOptional (TUnion [TString 0, TNull]))]])),
         (''max_price'', TOptional (TObject
            (optionals [''prompt'', ''completion'', ''image'', ''audio'', ''request''] (TUnion [TNumber, TString 0])))),
         (''preferred_min_throughput'', TOptional (TUnion [TNumber, PercentileCutoffsSchema])),
         (''preferred_max_latency'', TOptional (TUnion [TNumber, PercentileCutoffsSchema]))])"

definition VercelGatewayRoutingSchema :: schema where
  "VercelGatewayRoutingSchema = TObject (optionals [''only'', ''order''] (TArray (TString 0)))"

definition ThinkingLevelMapValueSchema :: schema where
  "ThinkingLevelMapValueSchema = TUnion [TString 0, TNull]"

definition ThinkingLevelMapSchema :: schema where
  "ThinkingLevelMapSchema = TObject
     (optionals [''off'', ''minimal'', ''low'', ''medium'', ''high'', ''xhigh'', ''max''] ThinkingLevelMapValueSchema)"

definition ChatTemplateKwargScalarSchema :: schema where
  "ChatTemplateKwargScalarSchema = TUnion [TString 0, TNumber, TBoolean, TNull]"

definition ChatTemplateKwargVariableSchema :: schema where
  "ChatTemplateKwargVariableSchema = TObject
     [(''$var'', TUnion [TLiteral ''thinking.enabled'', TLiteral ''thinking.effort'']), (''omitWhenOff'', TOptional TBoolean)]"

definition ChatTemplateKwargSchema :: schema where
  "ChatTemplateKwargSchema = TUnion [ChatTemplateKwargScalarSchema, ChatTemplateKwargVariableSchema]"

definition session_affinity_formats :: schema where
  "session_affinity_formats = TUnion [TLiteral ''openai'', TLiteral ''openai-nosession'', TLiteral ''openrouter'']"

definition OpenAICompletionsCompatSchema :: schema where
  "OpenAICompletionsCompatSchema = TObject
     (optionals [''supportsStore'', ''supportsDeveloperRole'', ''supportsReasoningEffort'', ''supportsUsageInStreaming'',
        ''supportsFinishReason''] TBoolean
      @ [(''maxTokensField'', TOptional (TUnion [TLiteral ''max_completion_tokens'', TLiteral ''max_tokens'']))]
      @ optionals [''requiresToolResultName'', ''requiresAssistantAfterToolResult'', ''requiresThinkingAsText'',
          ''requiresReasoningContentOnAssistantMessages''] TBoolean
      @ [(''thinkingFormat'', TOptional (TUnion (map TLiteral
            [''openai'', ''openrouter'', ''together'', ''baseten'', ''deepseek'', ''zai'', ''qwen'', ''chat-template'',
             ''qwen-chat-template'', ''string-thinking'', ''ant-ling'']))),
         (''chatTemplateKwargs'', TOptional (TRecord ChatTemplateKwargSchema)),
         (''chatTemplateArgs'', TOptional (TRecord ChatTemplateKwargSchema)),
         (''cacheControlFormat'', TOptional (TLiteral ''anthropic'')),
         (''openRouterRouting'', TOptional OpenRouterRoutingSchema),
         (''vercelGatewayRouting'', TOptional VercelGatewayRoutingSchema),
         (''supportsOpenAIGrammarTools'', TOptional TBoolean), (''supportsStrictMode'', TOptional TBoolean),
         (''sendSessionAffinityHeaders'', TOptional TBoolean), (''deferredToolsMode'', TOptional (TLiteral ''kimi'')),
         (''sessionAffinityFormat'', TOptional session_affinity_formats),
         (''supportsLongCacheRetention'', TOptional TBoolean)])"

definition OpenAIResponsesCompatSchema :: schema where
  "OpenAIResponsesCompatSchema = TObject
     ([(''supportsDeveloperRole'', TOptional TBoolean), (''sessionAffinityFormat'', TOptional session_affinity_formats)]
      @ optionals [''supportsLongCacheRetention'', ''supportsStrictMode'', ''supportsOpenAIGrammarTools'',
          ''supportsAdditionalTools'', ''supportsToolSearch'', ''supportsMaxOutputTokens''] TBoolean)"

definition AnthropicMessagesCompatSchema :: schema where
  "AnthropicMessagesCompatSchema = TObject
     (optionals [''supportsEagerToolInputStreaming'', ''supportsLongCacheRetention'', ''sendSessionAffinityHeaders'',
        ''supportsCacheControlOnTools'', ''supportsTemperature'', ''forceAdaptiveThinking'', ''allowEmptySignature'',
        ''supportsStrictTools'', ''supportsToolReferences''] TBoolean)"

definition ProviderCompatSchema :: schema where
  "ProviderCompatSchema = TUnion [OpenAICompletionsCompatSchema, OpenAIResponsesCompatSchema, AnthropicMessagesCompatSchema]"

definition ModelCostRatesSchema :: "(string \<times> schema) list" where
  "ModelCostRatesSchema = [(''input'', TNumber), (''output'', TNumber), (''cacheRead'', TNumber), (''cacheWrite'', TNumber)]"

definition ModelCostTierSchema :: schema where
  "ModelCostTierSchema = TObject ((''inputTokensAbove'', TNumber) # ModelCostRatesSchema)"

definition ModelCostSchema :: schema where
  "ModelCostSchema = TObject (ModelCostRatesSchema @ [(''tiers'', TOptional (TArray ModelCostTierSchema))])"

text \<open>The fields that models and overrides of models share after their names.\<close>

definition model_inputs :: schema where
  "model_inputs = TArray (TUnion [TLiteral ''text'', TLiteral ''image''])"

definition model_limits :: "(string \<times> schema) list" where
  "model_limits =
     [(''contextWindow'', TOptional TNumber), (''maxTokens'', TOptional TNumber),
      (''samplingParams'', TOptional (TRecord TUnknown)), (''headers'', TOptional (TRecord (TString 0))),
      (''compat'', TOptional ProviderCompatSchema)]"

definition ModelDefinitionSchema :: schema where
  "ModelDefinitionSchema = TObject
     ([(''id'', TString 1)] @ optionals [''name'', ''api'', ''baseUrl''] (TString 1)
      @ [(''reasoning'', TOptional TBoolean), (''thinkingLevelMap'', TOptional ThinkingLevelMapSchema),
         (''input'', TOptional model_inputs), (''cost'', TOptional ModelCostSchema)]
      @ model_limits)"

definition ModelOverrideSchema :: schema where
  "ModelOverrideSchema = TObject
     ([(''name'', TOptional (TString 1)), (''reasoning'', TOptional TBoolean), (''thinkingLevelMap'', TOptional ThinkingLevelMapSchema),
       (''input'', TOptional model_inputs),
       (''cost'', TOptional (TObject
          (optionals [''input'', ''output'', ''cacheRead'', ''cacheWrite''] TNumber
           @ [(''tiers'', TOptional (TArray ModelCostTierSchema))])))]
      @ model_limits)"

definition provider_fields :: "(string \<times> schema) list" where
  "provider_fields =
     optionals [''name'', ''baseUrl'', ''apiKey'', ''api''] (TString 1)
     @ [(''oauth'', TOptional (TLiteral ''radius'')), (''headers'', TOptional (TRecord (TString 0))),
        (''compat'', TOptional ProviderCompatSchema), (''authHeader'', TOptional TBoolean),
        (''models'', TOptional (TArray ModelDefinitionSchema)), (''modelOverrides'', TOptional (TRecord ModelOverrideSchema))]"

definition ProviderConfigSchema :: schema where
  "ProviderConfigSchema = TObject provider_fields"

definition ModelsConfigSchema :: schema where
  "ModelsConfigSchema = TObject [(''providers'', TRecord ProviderConfigSchema)]"

section \<open>Checking\<close>

definition is_optional :: "schema \<Rightarrow> bool" where
  "is_optional s = (case s of TOptional _ \<Rightarrow> True | _ \<Rightarrow> False)"

text \<open>What \<open>typebox\<close> documents of \<open>Check\<close>, for data that came out of \<open>JSON.parse\<close>: an object has its required properties,
  those of its properties that the schema names conform, others may be there; every value of a record and every
  element of an array conforms; one of the schemas of a union is enough.\<close>

locale schema_checker =
  fixes Check :: "schema \<Rightarrow> js_value \<Rightarrow> bool"
  assumes check_object: "tidy (JObject False es) \<Longrightarrow> Check (TObject fs) (JObject False es) \<longleftrightarrow>
      (\<forall>(k, s) \<in> set fs. case map_of es (js k) of None \<Rightarrow> is_optional s | Some w \<Rightarrow> Check s w)"
    and check_only_object: "tidy v \<Longrightarrow> Check (TObject fs) v \<Longrightarrow> \<exists>es. v = JObject False es"
    and check_optional: "Check (TOptional s) v = Check s v"
    and check_record: "tidy v \<Longrightarrow> Check (TRecord s) v \<longleftrightarrow> (\<exists>es. v = JObject False es \<and> (\<forall>(k, w) \<in> set es. Check s w))"
    and check_array: "tidy v \<Longrightarrow> Check (TArray s) v \<longleftrightarrow> (\<exists>vs. v = JArray vs \<and> (\<forall>w \<in> set vs. Check s w))"
    and check_string: "n \<le> 1 \<Longrightarrow> tidy v \<Longrightarrow> Check (TString n) v \<longleftrightarrow> (\<exists>s. v = JString s \<and> n \<le> length s)"
    and check_boolean: "tidy v \<Longrightarrow> Check TBoolean v \<longleftrightarrow> (\<exists>b. v = JBool b)"
    and check_union: "Check (TUnion ss) v \<longleftrightarrow> (\<exists>s \<in> set ss. Check s v)"

text \<open>A checker that does just this.\<close>

fun conforms :: "schema \<Rightarrow> js_value \<Rightarrow> bool" where
  "conforms (TString n) v = (case v of JString s \<Rightarrow> n \<le> length s | _ \<Rightarrow> False)"
| "conforms TNumber v = (case v of JNumber _ \<Rightarrow> True | _ \<Rightarrow> False)"
| "conforms TBoolean v = (case v of JBool _ \<Rightarrow> True | _ \<Rightarrow> False)"
| "conforms TNull v = (v = JNull)"
| "conforms TUnknown v = True"
| "conforms (TLiteral t) v = (v = JString (js t))"
| "conforms (TArray s) v = (case v of JArray vs \<Rightarrow> list_all (conforms s) vs | _ \<Rightarrow> False)"
| "conforms (TRecord s) v = (case v of JObject _ es \<Rightarrow> list_all (\<lambda>(k, w). conforms s w) es | _ \<Rightarrow> False)"
| "conforms (TUnion ss) v = list_ex (\<lambda>s. conforms s v) ss"
| "conforms (TOptional s) v = conforms s v"
| "conforms (TObject fs) v =
     (case v of
        JObject _ es \<Rightarrow>
          list_all (\<lambda>(k, s). case map_of es (js k) of None \<Rightarrow> is_optional s | Some w \<Rightarrow> conforms s w) fs
      | _ \<Rightarrow> False)"

interpretation conforming: schema_checker conforms
proof
  fix es :: "(js_string \<times> js_value) list" and fs :: "(string \<times> schema) list"
  show "conforms (TObject fs) (JObject False es) \<longleftrightarrow>
      (\<forall>(k, s) \<in> set fs. case map_of es (js k) of None \<Rightarrow> is_optional s | Some w \<Rightarrow> conforms s w)"
    by (simp add: list_all_iff)
qed (auto simp: list_all_iff list_ex_iff split: js_value.splits)


section \<open>Paths\<close>

record path_options =
  pt_trim :: bool
  pt_expandTilde :: "bool option"
  pt_homeDir :: "js_string option"
  pt_stripAtPrefix :: bool
  pt_normalizeUnicodeSpaces :: bool

definition default_path_options :: path_options where
  "default_path_options =
     \<lparr>pt_trim = False, pt_expandTilde = None, pt_homeDir = None, pt_stripAtPrefix = False, pt_normalizeUnicodeSpaces = False\<rparr>"

definition unicode_space :: "16 word \<Rightarrow> bool" where
  "unicode_space c =
     (let n = uint c in n = 0xA0 \<or> 0x2000 \<le> n \<and> n \<le> 0x200A \<or> n = 0x202F \<or> n = 0x205F \<or> n = 0x3000)"

definition expand_path :: "js_string \<Rightarrow> (js_string \<Rightarrow> 'e + js_string) \<Rightarrow> path_options \<Rightarrow> js_string \<Rightarrow> 'e + js_string" where
  "expand_path homedir fileURLToPath options path =
     (let home = (case pt_homeDir options of Some h \<Rightarrow> h | None \<Rightarrow> homedir); tilde = (pt_expandTilde options \<noteq> Some False)
      in if tilde \<and> path = js ''~'' then Inr home
         else if tilde \<and> starts_with (js ''~/'') path then Inr (join_path [home, drop 2 path])
         else if starts_with (js ''file://'') path then fileURLToPath path
         else Inr path)"

definition normalizePath :: "js_string \<Rightarrow> (js_string \<Rightarrow> 'e + js_string) \<Rightarrow> path_options \<Rightarrow> js_string \<Rightarrow> 'e + js_string" where
  "normalizePath homedir fileURLToPath options path =
     (let trimmed = (if pt_trim options then js_trim path else path);
          spaced = (if pt_normalizeUnicodeSpaces options then map (\<lambda>c. if unicode_space c then 0x20 else c) trimmed else trimmed);
          bare = (if pt_stripAtPrefix options \<and> starts_with (js ''@'') spaced then drop 1 spaced else spaced)
      in expand_path homedir fileURLToPath options bare)"

section \<open>Loading\<close>

record validation_error =
  ve_keyword :: js_string
  ve_requiredProperties :: "js_string list option"
  ve_instancePath :: js_string
  ve_message :: js_string

definition dotted_path :: "js_string \<Rightarrow> js_string" where
  "dotted_path p = map (\<lambda>c. if c = sep then 0x2E else c) (if starts_with [sep] p then drop 1 p else p)"

definition formatValidationPath :: "validation_error \<Rightarrow> js_string" where
  "formatValidationPath e =
     (let required = (if ve_keyword e = js ''required'' then
                        (case ve_requiredProperties e of Some (p # _) \<Rightarrow> p | _ \<Rightarrow> []) else []);
          path = dotted_path (ve_instancePath e)
      in if required \<noteq> [] then (if path \<noteq> [] then path @ js ''.'' @ required else required)
         else if path \<noteq> [] then path else js ''root'')"

text \<open>What the process gives: the home directory, the conversion of a file URL, the message of a syntax error and the schema
  checker. A conversion that throws makes \<open>load\<close> throw.\<close>

record config_env =
  ce_homedir :: js_string
  ce_fileURLToPath :: "js_string \<Rightarrow> js_string + js_string"
  ce_syntaxMessage :: "js_string \<Rightarrow> js_string"
  ce_Check :: "schema \<Rightarrow> js_value \<Rightarrow> bool"
  ce_Errors :: "js_value \<Rightarrow> validation_error list"

text \<open>The providers are a map in insertion order; their copies are equal values, and freezing changes none.\<close>

record model_config =
  mc_providers :: "(js_string \<times> js_value) list"
  mc_error :: "js_string option"

definition config_failure :: "js_string \<Rightarrow> js_string \<Rightarrow> js_string \<Rightarrow> model_config" where
  "config_failure title message path =
     \<lparr>mc_providers = [], mc_error = Some (title @ message @ [LF, LF] @ js ''File: '' @ path)\<rparr>"

definition schema_failure :: "config_env \<Rightarrow> js_value \<Rightarrow> js_string \<Rightarrow> model_config" where
  "schema_failure env parsed path =
     (let errors = join_on LF (map (\<lambda>e. js ''  - '' @ formatValidationPath e @ js '': '' @ ve_message e) (ce_Errors env parsed))
      in config_failure (js ''Invalid models.json schema:'' @ [LF]) (if errors \<noteq> [] then errors else js ''Unknown schema error'') path)"

definition read_config :: "config_env \<Rightarrow> js_string \<Rightarrow> js_string \<Rightarrow> model_config" where
  "read_config env path content =
     (case json_parse (stripJsonComments (strip_bom content)) of
        None \<Rightarrow> config_failure (js ''Failed to parse models.json: '') (ce_syntaxMessage env (stripJsonComments (strip_bom content))) path
      | Some parsed \<Rightarrow>
          if \<not> ce_Check env ModelsConfigSchema parsed then schema_failure env parsed path
          else \<lparr>mc_providers =
                   (case opt_prop parsed (js ''providers'') of
                      JObject _ es \<Rightarrow> put_all [] es
                    | _ \<Rightarrow> []),
                 mc_error = None\<rparr>)"

definition load_config :: "config_env \<Rightarrow> js_string option \<Rightarrow> fsys \<Rightarrow> (js_string + model_config) \<times> fsys" where
  "load_config env modelsJsonPath fs =
     (case modelsJsonPath of
        None \<Rightarrow> (Inr \<lparr>mc_providers = [], mc_error = None\<rparr>, fs)
      | Some p \<Rightarrow>
          if p = [] then (Inr \<lparr>mc_providers = [], mc_error = None\<rparr>, fs)
          else
            (case normalizePath (ce_homedir env) (ce_fileURLToPath env) default_path_options p of
               Inl e \<Rightarrow> (Inl e, fs)
             | Inr path \<Rightarrow>
                 (case fs_readTextFile path fs of
                    (Inl e, fs') \<Rightarrow>
                      (Inr (if file_error_code e = Fe_not_found then \<lparr>mc_providers = [], mc_error = None\<rparr>
                            else config_failure (js ''Failed to load models.json: '') (file_error_message e) path), fs')
                  | (Inr content, fs') \<Rightarrow> (Inr (read_config env path content), fs'))))"

definition getProvider :: "model_config \<Rightarrow> js_string \<Rightarrow> js_value option" where
  "getProvider c providerId = map_of (mc_providers c) providerId"

definition getProviderIds :: "model_config \<Rightarrow> js_string list" where
  "getProviderIds c = map fst (mc_providers c)"

end
