(* ===== verification/Models_File.thy ===== *)
theory Models_File
  imports Model_Config
begin

text \<open>
  The update of \<open>models.json\<close>, the part of \<open>coding-agent/src/core/patchcage-agent-mode.ts\<close> that stores a provider: the presets, the merge
  with the stored provider, and the file that replaces the old one. What is written loads again, and a failure leaves the
  old file.
\<close>

section \<open>Presets\<close>

datatype local_preset_id = Preset_ollama | Preset_llamacpp | Preset_vllm

record local_preset =
  lp_providerId :: js_string
  lp_baseUrl :: js_string
  lp_apiKey :: js_string
  lp_label :: js_string

fun LOCAL_MODEL_PRESETS :: "local_preset_id \<Rightarrow> local_preset" where
  "LOCAL_MODEL_PRESETS Preset_ollama =
     \<lparr>lp_providerId = js ''ollama'', lp_baseUrl = js ''http://127.0.0.1:11434/v1'', lp_apiKey = js ''ollama'',
      lp_label = js ''Ollama (127.0.0.1:11434)''\<rparr>"
| "LOCAL_MODEL_PRESETS Preset_llamacpp =
     \<lparr>lp_providerId = js ''llamacpp'', lp_baseUrl = js ''http://127.0.0.1:8080/v1'', lp_apiKey = js ''llamacpp'',
      lp_label = js ''llama.cpp (127.0.0.1:8080)''\<rparr>"
| "LOCAL_MODEL_PRESETS Preset_vllm =
     \<lparr>lp_providerId = js ''vllm'', lp_baseUrl = js ''http://127.0.0.1:8000/v1'', lp_apiKey = js ''vllm'',
      lp_label = js ''vLLM (127.0.0.1:8000)''\<rparr>"

definition HOSTED_PROVIDER_ID :: js_string where
  "HOSTED_PROVIDER_ID = js ''openai-compat''"

definition LOCAL_COMPAT :: js_value where
  "LOCAL_COMPAT = JObject False [(js ''supportsDeveloperRole'', JBool False), (js ''supportsReasoningEffort'', JBool False)]"

definition only_model :: "js_string \<Rightarrow> js_value" where
  "only_model modelId = JArray [JObject False [(js ''id'', JString modelId)]]"

definition localPresetProvider :: "local_preset \<Rightarrow> js_string \<Rightarrow> js_value" where
  "localPresetProvider preset modelId = JObject False
     [(js ''baseUrl'', JString (lp_baseUrl preset)), (js ''api'', JString (js ''openai-completions'')),
      (js ''apiKey'', JString (lp_apiKey preset)), (js ''compat'', LOCAL_COMPAT), (js ''models'', only_model modelId)]"

definition hostedPresetProvider :: "js_string \<Rightarrow> js_string \<Rightarrow> js_string \<Rightarrow> js_value" where
  "hostedPresetProvider baseUrl apiKeyRef modelId = JObject False
     [(js ''baseUrl'', JString baseUrl), (js ''api'', JString (js ''openai-completions'')),
      (js ''apiKey'', JString apiKeyRef), (js ''models'', only_model modelId)]"

section \<open>Merging a provider\<close>

text \<open>What the spread of a value adds to an object literal.\<close>

definition indexed :: "js_value list \<Rightarrow> (js_string \<times> js_value) list" where
  "indexed vs = map (\<lambda>(i, v). (js (decimal i), v)) (filter (\<lambda>(i, v). v \<noteq> JHole) (enumerate 0 vs))"

definition spread_entries :: "js_value \<Rightarrow> (js_string \<times> js_value) list" where
  "spread_entries v =
     (case v of JObject _ es \<Rightarrow> es | JArray vs \<Rightarrow> indexed vs | JString s \<Rightarrow> indexed (map (\<lambda>c. JString [c]) s) | _ \<Rightarrow> [])"

text \<open>\<open>provider?.models ?? []\<close> and the keys of its elements; \<open>None\<close> is a \<open>TypeError\<close>.\<close>

definition model_entries :: "js_value \<Rightarrow> (js_value \<times> js_value) list option" where
  "model_entries provider =
     (case coalesce (opt_prop provider (js ''models'')) (JArray []) of
        JArray ms \<Rightarrow> if list_ex nullish ms then None else Some (map (\<lambda>m. (opt_prop m (js ''id''), m)) ms)
      | _ \<Rightarrow> None)"

definition mergeProviderIntoConfig :: "js_value \<Rightarrow> js_value \<Rightarrow> js_value option" where
  "mergeProviderIntoConfig existing incoming =
     (case (model_entries existing, model_entries incoming) of
        (Some old, Some new) \<Rightarrow>
          let byId = put_all (put_all [] old) new
          in Some (JObject False (own_keys_order (AList.update (js ''models'') (JArray (map snd byId))
                 (put_all (put_all [] (spread_entries existing)) (spread_entries incoming)))))
      | _ \<Rightarrow> None)"

section \<open>Writing models.json\<close>

text \<open>
  A plain object that is filled by assignments \<open>o[k] = v\<close>: its own properties, and the prototype, which an assignment to
  \<open>__proto__\<close> replaces. The members of \<open>Object.prototype\<close> have no \<open>models\<close> and no enumerable properties; reading one
  merges like reading nothing.
\<close>

type_synonym filled = "(js_string \<times> js_value) list \<times> js_value option"

definition proto_key :: js_string where "proto_key = js ''__proto__''"

definition assign_property :: "js_string \<Rightarrow> js_value \<Rightarrow> filled \<Rightarrow> filled" where
  "assign_property k v target = (if k = proto_key then (fst target, Some v) else (AList.update k v (fst target), snd target))"

definition read_property :: "filled \<Rightarrow> js_string \<Rightarrow> js_value" where
  "read_property target k =
     (let inherited = (case snd target of None \<Rightarrow> JUndefined | Some p \<Rightarrow> if k = proto_key then p else opt_prop p k)
      in case map_of (fst target) k of Some v \<Rightarrow> v | None \<Rightarrow> inherited)"

definition copy_providers :: "model_config \<Rightarrow> filled" where
  "copy_providers c =
     foldl (\<lambda>target k. case getProvider c k of None \<Rightarrow> target | Some p \<Rightarrow> assign_property k p target) ([], None) (getProviderIds c)"

definition models_file :: "filled \<Rightarrow> js_value" where
  "models_file target = JObject False [(js ''providers'', JObject False (own_keys_order (fst target)))]"

text \<open>The text of a number that is no safe integer, and of an object that is not plain.\<close>

record printer =
  pr_number :: "js_number \<Rightarrow> string"
  pr_object :: "string \<Rightarrow> js_string"

definition models_text :: "printer \<Rightarrow> js_value \<Rightarrow> js_string + js_string" where
  "models_text p data =
     (case stringify_indented (pr_number p) (pr_object p) 0 data of
        JsonText t \<Rightarrow> Inr (t @ [LF])
      | JsonUndefined \<Rightarrow> Inr (js ''undefined'' @ [LF])
      | JsonThrows \<Rightarrow> Inl (js ''Do not know how to serialize a BigInt''))"

definition temporary_path :: "js_string \<Rightarrow> js_string \<Rightarrow> js_string" where
  "temporary_path path random = join_path [dirname path, js ''.models.json.'' @ random @ js ''.tmp'']"

text \<open>The failure of the removal is ignored, the one of the renaming is reported.\<close>

definition writeModelsJsonAtomic :: "printer \<Rightarrow> js_string \<Rightarrow> js_string \<Rightarrow> js_value \<Rightarrow> fsys \<Rightarrow> (js_string + unit) \<times> fsys" where
  "writeModelsJsonAtomic p random path data fs =
     (case fs_createDir (dirname path) fs of
        (Inl e, fs1) \<Rightarrow> (Inl (file_error_message e), fs1)
      | (Inr _, fs1) \<Rightarrow>
          let tmp = temporary_path path random
          in case models_text p data of
               Inl message \<Rightarrow> (Inl message, fs1)
             | Inr t \<Rightarrow>
                 (case fs_writeFile tmp t fs1 of
                    (Inl e, fs2) \<Rightarrow> (Inl (file_error_message e), fs2)
                  | (Inr _, fs2) \<Rightarrow>
                      (case fs_renameFile tmp path fs2 of
                         (Inr _, fs3) \<Rightarrow> (Inr (), fs3)
                       | (Inl e, fs3) \<Rightarrow> (Inl (file_error_message e), snd (fs_remove tmp False fs3)))))"

datatype write_result = Written | Not_written js_string

datatype rejection = Bad_url js_string | Type_error

definition mergeAndWriteModelsJson ::
  "config_env \<Rightarrow> printer \<Rightarrow> js_string \<Rightarrow> js_string \<Rightarrow> js_string \<Rightarrow> js_value \<Rightarrow> fsys \<Rightarrow> (rejection + write_result) \<times> fsys" where
  "mergeAndWriteModelsJson env p random path providerId incoming fs =
     (case load_config env (Some path) fs of
        (Inl e, fs1) \<Rightarrow> (Inl (Bad_url e), fs1)
      | (Inr loaded, fs1) \<Rightarrow>
          if mc_error loaded \<noteq> None \<and> mc_error loaded \<noteq> Some [] then (Inr (Not_written (the (mc_error loaded))), fs1)
          else
            let providers = copy_providers loaded
            in case mergeProviderIntoConfig (read_property providers providerId) incoming of
                 None \<Rightarrow> (Inl Type_error, fs1)
               | Some merged \<Rightarrow>
                   (case writeModelsJsonAtomic p random path (models_file (assign_property providerId merged providers)) fs1 of
                      (Inl message, fs2) \<Rightarrow> (Inr (Not_written message), fs2)
                    | (Inr _, fs2) \<Rightarrow> (Inr Written, fs2)))"

section \<open>What a merge gives\<close>

definition id_of :: "js_value \<Rightarrow> js_value" where
  "id_of m = opt_prop m (js ''id'')"

lemma model_entries_ids: "model_entries v = Some es \<Longrightarrow> (i, m) \<in> set es \<Longrightarrow> i = id_of m"
  by (auto simp: model_entries_def id_of_def split: js_value.splits if_splits)

lemma put_all_set: "(k, v) \<in> set (put_all es ms) \<Longrightarrow> (k, v) \<in> set es \<union> set ms"
proof (induction ms arbitrary: es)
  case (Cons m ms)
  obtain k' v' where "m = (k', v')" by force
  then show ?case using Cons.IH [of "AList.update k' v' es"] Cons.prems alist_update_memD [of "(k, v)" k' v' es] by auto
qed simp

lemma update_keys: "map fst (AList.update k v es) = map fst es @ (if k \<in> fst ` set es then [] else [k])"
  by (induction es) auto

text \<open>The keys, each at the place where it comes first.\<close>

definition first_places :: "'a list \<Rightarrow> 'a list" where
  "first_places xs = rev (remdups (rev xs))"

lemma first_places_snoc: "first_places (xs @ [x]) = first_places xs @ (if x \<in> set xs then [] else [x])"
  by (induction xs) (auto simp: first_places_def)

lemma put_all_keys: "map fst (put_all [] ms) = first_places (map fst ms)"
proof (induction ms rule: rev_induct)
  case (snoc m ms)
  obtain k v where m: "m = (k, v)" by force
  have "fst ` set (put_all [] ms) = set (map fst ms)" using snoc by (metis first_places_def list.set_map set_remdups set_rev)
  then show ?case using snoc by (simp add: m put_all_append update_keys first_places_snoc)
qed (simp add: first_places_def)


lemma merge_fields:
  assumes "model_entries existing = Some old" "model_entries incoming = Some new"
    and "distinct (map fst (spread_entries existing))" "distinct (map fst (spread_entries incoming))"
  obtains fields models where "mergeProviderIntoConfig existing incoming = Some (JObject False fields)"
    "map_of fields = (map_of (spread_entries existing) ++ map_of (spread_entries incoming))(js ''models'' \<mapsto> JArray models)"
    "distinct (map fst fields)" "own_keys_order fields = fields"
    "map id_of models = first_places (map fst (old @ new))"
    "\<forall>m \<in> set models. map_of (rev (old @ new)) (id_of m) = Some m"
proof
  define byId where "byId = put_all [] (old @ new)"
  define F where "F = AList.update (js ''models'') (JArray (map snd byId)) (put_all (spread_entries existing) (spread_entries incoming))"
  have fresh: "put_all [] (spread_entries existing) = spread_entries existing"
    using put_all_fresh [of "[]" "spread_entries existing"] assms(3) by simp
  show "mergeProviderIntoConfig existing incoming = Some (JObject False (own_keys_order F))"
    using assms(1,2) by (simp add: mergeProviderIntoConfig_def F_def byId_def put_all_append fresh)
  have d: "distinct (map fst F)"
    unfolding F_def using put_all_each [of "\<lambda>_. True" "spread_entries existing" "spread_entries incoming"] assms(3)
    by (intro distinct_update) (simp add: list_all_iff)
  have "map_of (rev (spread_entries incoming)) = map_of (spread_entries incoming)"
    using map_of_inject_set [of "rev (spread_entries incoming)" "spread_entries incoming"] assms(4)
    by (simp add: rev_map [symmetric])
  then show "map_of (own_keys_order F) = (map_of (spread_entries existing) ++ map_of (spread_entries incoming))(js ''models'' \<mapsto> JArray (map snd byId))"
    by (simp add: own_keys_order_map_of [OF d]) (simp add: F_def alist_of_update put_all_lookup)
  show "distinct (map fst (own_keys_order F))" by (rule own_keys_order_distinct [OF d])
  show "own_keys_order (own_keys_order F) = own_keys_order F" by (rule own_keys_order_idem)
  have key: "fst x = id_of (snd x)" if "x \<in> set byId" for x
    using that put_all_set [of "fst x" "snd x" "[]" "old @ new"] model_entries_ids [OF assms(1)] model_entries_ids [OF assms(2)]
    by (auto simp: byId_def)
  then have "map id_of (map snd byId) = map fst byId" by simp
  then show "map id_of (map snd byId) = first_places (map fst (old @ new))" unfolding byId_def put_all_keys .
  have "distinct (map fst byId)" unfolding byId_def using put_all_each [of "\<lambda>_. True" "[]" "old @ new"] by (simp add: list_all_iff)
  then have "map_of byId (fst x) = Some (snd x)" if "x \<in> set byId" for x using that by (cases x) simp
  moreover have "map_of byId = map_of (rev (old @ new))" by (simp add: byId_def put_all_lookup)
  ultimately show "\<forall>m \<in> set (map snd byId). map_of (rev (old @ new)) (id_of m) = Some m" using key by fastforce
qed

section \<open>Writing the file\<close>

lemma createDir_text: "fs_createDir d fs = (r, fs') \<Longrightarrow> text_at fs' = text_at fs"
proof -
  have dirs: "text_at (foldl make_dir fs ps) = text_at fs" for fs ps
    by (induction ps arbitrary: fs) (simp_all add: make_dir_simps(1))
  assume "fs_createDir d fs = (r, fs')"
  then show ?thesis unfolding fs_createDir_def by (rule fs_call_reads) (auto simp: dirs split: if_splits)
qed

lemma write_cases:
  assumes "writeModelsJsonAtomic p random path data fs = (r, fs')"
  obtains (failed) e where "r = Inl e"
      "\<And>q. q \<noteq> temporary_path path random \<Longrightarrow> text_at fs' q = text_at fs q"
    | (written) t where "r = Inr ()" "models_text p data = Inr t"
      "temporary_path path random \<noteq> path \<Longrightarrow> text_at fs' = (text_at fs)(temporary_path path random := None, path \<mapsto> t)"
proof -
  define tmp where "tmp = temporary_path path random"
  obtain r1 fs1 where mk: "fs_createDir (dirname path) fs = (r1, fs1)" by force
  have fs1: "text_at fs1 = text_at fs" by (rule createDir_text [OF mk])
  consider (stop) e where "r = Inl e" "fs' = fs1"
    | (go) t r2 fs2 where "models_text p data = Inr t" "fs_writeFile tmp t fs1 = (r2, fs2)"
        "(case r2 of Inl e \<Rightarrow> (Inl (file_error_message e), fs2)
          | Inr _ \<Rightarrow> (case fs_renameFile tmp path fs2 of (Inr _, fs3) \<Rightarrow> (Inr (), fs3)
             | (Inl e, fs3) \<Rightarrow> (Inl (file_error_message e), snd (fs_remove tmp False fs3)))) = (r, fs')"
    using assms mk unfolding writeModelsJsonAtomic_def tmp_def by (auto simp: Let_def split: sum.splits prod.splits)
  then show thesis
  proof cases
    case stop
    then show thesis using fs1 by (intro failed) auto
  next
    case go
    note w = write_effect(2) [OF go(2)]
    show thesis
    proof (cases r2)
      case (Inl e)
      then show thesis using go(3) w fs1 by (intro failed) (auto simp: tmp_def)
    next
      case (Inr u)
      have t: "text_at fs2 = (text_at fs)(tmp \<mapsto> t)" using write_effect(1) [of tmp t fs1 u fs2] go(2) Inr fs1 by simp
      obtain r3 fs3 where rn: "fs_renameFile tmp path fs2 = (r3, fs3)" by force
      show thesis
      proof (cases r3)
        case (Inl e)
        have "text_at fs3 = text_at fs2" using rename_effect(2) [of tmp path fs2 e fs3] rn Inl by simp
        moreover have "text_at (snd (fs_remove tmp False fs3)) q = text_at fs3 q" if "q \<noteq> tmp" for q
          using remove_effect [of tmp False fs3 _ _ q] that by (metis surjective_pairing)
        ultimately have "text_at fs' q = text_at fs q" if "q \<noteq> tmp" for q
          using go(3) Inr rn Inl t that by auto
        then show thesis using go(3) Inr rn Inl by (intro failed) (auto simp: tmp_def)
      next
        case r3: (Inr v)
        have "text_at fs' = (text_at fs)(tmp := None, path \<mapsto> t)" if "tmp \<noteq> path"
          using rename_effect(1) [of tmp path fs2 v fs3] rn r3 Inr go(3) that t by (auto simp: fun_eq_iff)
        then show thesis using go(1,3) Inr rn r3 by (intro written) (auto simp: tmp_def)
      qed
    qed
  qed
qed


lemma load_keeps_text: "load_config env path fs = (r, fs') \<Longrightarrow> text_at fs' = text_at fs"
  by (auto simp: load_config_def split: option.splits if_splits sum.splits prod.splits dest: reads_keep(1))

lemma read_config_error: "mc_error (read_config env path content) \<noteq> Some []"
  by (auto simp: read_config_def schema_failure_def config_failure_def Let_def split: option.splits if_splits)

lemma load_error: "load_config env path fs = (Inr c, fs') \<Longrightarrow> mc_error c \<noteq> Some []"
  using read_config_error by (fastforce simp: load_config_def config_failure_def split: option.splits if_splits sum.splits prod.splits)

lemma merge_and_write_cases:
  assumes "mergeAndWriteModelsJson env p random path providerId incoming fs = (r, fs')"
  obtains (failed) "r \<noteq> Inr Written" "\<And>q. q \<noteq> temporary_path path random \<Longrightarrow> text_at fs' q = text_at fs q"
    | (written) c fs1 merged t where "r = Inr Written" "load_config env (Some path) fs = (Inr c, fs1)" "mc_error c = None"
      "mergeProviderIntoConfig (read_property (copy_providers c) providerId) incoming = Some merged"
      "models_text p (models_file (assign_property providerId merged (copy_providers c))) = Inr t"
      "temporary_path path random \<noteq> path \<Longrightarrow> text_at fs' = (text_at fs)(temporary_path path random := None, path \<mapsto> t)"
proof -
  obtain r1 fs1 where load: "load_config env (Some path) fs = (r1, fs1)" by force
  note same = load_keeps_text [OF load]
  show thesis
  proof (cases "\<exists>c merged. r1 = Inr c \<and> mc_error c = None
      \<and> mergeProviderIntoConfig (read_property (copy_providers c) providerId) incoming = Some merged")
    case False
    have "mc_error c \<noteq> Some []" if "r1 = Inr c" for c using load that by (auto dest: load_error)
    then have "r \<noteq> Inr Written \<and> fs' = fs1"
      using assms load False by (cases r1) (auto simp: mergeAndWriteModelsJson_def Let_def split: if_splits option.splits)
    then show thesis using same by (intro failed) auto
  next
    case True
    then obtain c merged where c: "r1 = Inr c" "mc_error c = None"
      "mergeProviderIntoConfig (read_property (copy_providers c) providerId) incoming = Some merged" by blast
    define data where "data = models_file (assign_property providerId merged (copy_providers c))"
    obtain r2 fs2 where w: "writeModelsJsonAtomic p random path data fs1 = (r2, fs2)" by force
    have r: "fs' = fs2" "r = (case r2 of Inl m \<Rightarrow> Inr (Not_written m) | Inr _ \<Rightarrow> Inr Written)"
      using assms load c w by (auto simp: mergeAndWriteModelsJson_def data_def split: sum.splits)
    from w show thesis
    proof (cases rule: write_cases)
      case (failed e)
      then show thesis using r same that(1) by simp
    next
      case (written t)
      then show thesis using r same c load that(2) [of c fs1 merged t] by (simp add: data_def)
    qed
  qed
qed


section \<open>What is written loads again\<close>

text \<open>Data that is printed and parsed without loss.\<close>

definition sound :: "printer \<Rightarrow> js_value \<Rightarrow> bool" where
  "sound p v = (json_value v \<and> tidy v \<and> readable_numbers (pr_number p) v)"

lemma sound_object:
  "sound p (JObject False es) \<longleftrightarrow> distinct (map fst es) \<and> own_keys_order es = es \<and> (\<forall>x \<in> set es. sound p (snd x))"
  by (auto simp: sound_def list_all_iff)

lemma sound_array: "sound p (JArray vs) \<longleftrightarrow> (\<forall>v \<in> set vs. sound p v)"
  by (auto simp: sound_def list_all_iff)

lemma provider_optional: "(k, s) \<in> set provider_fields \<Longrightarrow> is_optional s"
  by (auto simp: provider_fields_def optionals_def is_optional_def)

context schema_checker
begin

lemma provider_check:
  "tidy (JObject False es) \<Longrightarrow> Check ProviderConfigSchema (JObject False es) \<longleftrightarrow>
   (\<forall>(k, s) \<in> set provider_fields. \<forall>w. map_of es (js k) = Some w \<longrightarrow> Check s w)"
  unfolding ProviderConfigSchema_def check_object
  by (rule ball_cong) (auto split: option.splits dest: provider_optional)

lemma models_check:
  assumes "tidy v" "Check ProviderConfigSchema v"
  obtains es ms where "v = JObject False es" "model_entries v = Some (map (\<lambda>m. (id_of m, m)) ms)"
    "\<forall>m \<in> set ms. Check ModelDefinitionSchema m \<and> (\<exists>ds. m = JObject False ds)"
    "map_of es (js ''models'') = Some (JArray ms) \<or> ms = []"
proof -
  obtain es where v: "v = JObject False es" using check_only_object [of v provider_fields] assms by (auto simp: ProviderConfigSchema_def)
  note checks = provider_check [of es] assms [unfolded v]
  show thesis
  proof (cases "map_of es (js ''models'')")
    case None
    then show thesis by (intro that [of es "[]"]) (simp_all add: v model_entries_def opt_prop_def get_prop_def coalesce_def nullish_def)
  next
    case (Some w)
    then have w: "tidy w" using assms(1) by (force simp: v list_all_iff dest: map_of_SomeD)
    have "Check (TOptional (TArray ModelDefinitionSchema)) w" using checks Some by (force simp: provider_fields_def)
    then obtain ms where ms: "w = JArray ms" "\<forall>m \<in> set ms. Check ModelDefinitionSchema m"
      using check_array [OF w] by (auto simp: check_optional)
    have obj: "\<exists>ds. m = JObject False ds" if mem: "m \<in> set ms" for m
    proof -
      have "tidy m" using w mem by (simp add: ms list_all_iff)
      then show ?thesis using ms(2) mem check_only_object [of m] by (auto simp: ModelDefinitionSchema_def)
    qed
    then have "\<not> list_ex nullish ms" by (fastforce simp: list_ex_iff nullish_def)
    then show thesis using Some ms obj
      by (intro that [of es ms]) (auto simp: v model_entries_def opt_prop_def get_prop_def coalesce_def nullish_def id_of_def)
  qed
qed

text \<open>A provider that may be stored, or none: its entries and its models.\<close>

lemma provider_parts:
  assumes "v = JUndefined \<or> sound p v \<and> Check ProviderConfigSchema v"
  obtains ms where "model_entries v = Some (map (\<lambda>m. (id_of m, m)) ms)" "\<forall>m \<in> set ms. Check ModelDefinitionSchema m \<and> sound p m"
    "distinct (map fst (spread_entries v))" "\<forall>x \<in> set (spread_entries v). sound p (snd x)"
    "\<forall>(k, s) \<in> set provider_fields. \<forall>w. map_of (spread_entries v) (js k) = Some w \<longrightarrow> Check s w"
proof (cases "v = JUndefined")
  case True
  then show thesis by (intro that [of "[]"]) (simp_all add: spread_entries_def model_entries_def opt_prop_def coalesce_def nullish_def)
next
  case False
  then have v: "sound p v" "tidy v" "Check ProviderConfigSchema v" using assms by (auto simp: sound_def)
  then obtain es ms where m: "v = JObject False es" "model_entries v = Some (map (\<lambda>m. (id_of m, m)) ms)"
      "\<forall>m \<in> set ms. Check ModelDefinitionSchema m" "map_of es (js ''models'') = Some (JArray ms) \<or> ms = []"
    by (auto elim!: models_check [of v])
  have es: "distinct (map fst es)" "\<forall>x \<in> set es. sound p (snd x)" using v(1) by (simp_all add: m(1) sound_object)
  have "\<forall>m \<in> set ms. sound p m" using m(4) es(2) by (force simp: sound_array dest: map_of_SomeD)
  moreover have "\<forall>(k, s) \<in> set provider_fields. \<forall>w. map_of es (js k) = Some w \<longrightarrow> Check s w"
    using v(2,3) provider_check unfolding m(1) by blast
  ultimately show thesis using m(2,3) es by (intro that [of ms]) (simp_all add: spread_entries_def m(1))
qed

text \<open>Two providers that the schema admits have a merge that it admits.\<close>

lemma merge_check:
  assumes old: "existing = JUndefined \<or> sound p existing \<and> Check ProviderConfigSchema existing"
    and inc: "sound p incoming" "Check ProviderConfigSchema incoming"
  obtains merged where "mergeProviderIntoConfig existing incoming = Some merged" "sound p merged" "Check ProviderConfigSchema merged"
proof -
  obtain ms where a: "model_entries existing = Some (map (\<lambda>m. (id_of m, m)) ms)" "\<forall>m \<in> set ms. Check ModelDefinitionSchema m \<and> sound p m"
      "distinct (map fst (spread_entries existing))" "\<forall>x \<in> set (spread_entries existing). sound p (snd x)"
      "\<forall>(k, s) \<in> set provider_fields. \<forall>w. map_of (spread_entries existing) (js k) = Some w \<longrightarrow> Check s w"
    using provider_parts [OF old] .
  obtain ns where b: "model_entries incoming = Some (map (\<lambda>m. (id_of m, m)) ns)" "\<forall>m \<in> set ns. Check ModelDefinitionSchema m \<and> sound p m"
      "distinct (map fst (spread_entries incoming))" "\<forall>x \<in> set (spread_entries incoming). sound p (snd x)"
      "\<forall>(k, s) \<in> set provider_fields. \<forall>w. map_of (spread_entries incoming) (js k) = Some w \<longrightarrow> Check s w"
    using provider_parts [OF disjI2] inc by blast
  obtain fields models where f: "mergeProviderIntoConfig existing incoming = Some (JObject False fields)"
      "map_of fields = (map_of (spread_entries existing) ++ map_of (spread_entries incoming))(js ''models'' \<mapsto> JArray models)"
      "distinct (map fst fields)" "own_keys_order fields = fields"
      "\<forall>m \<in> set models. map_of (rev (map (\<lambda>m. (id_of m, m)) ms @ map (\<lambda>m. (id_of m, m)) ns)) (id_of m) = Some m"
    by (rule merge_fields [OF a(1) b(1) a(3) b(3)])
  have models: "\<forall>m \<in> set models. Check ModelDefinitionSchema m \<and> sound p m"
  proof
    fix m assume "m \<in> set models"
    then have "(id_of m, m) \<in> set (map (\<lambda>m. (id_of m, m)) ms @ map (\<lambda>m. (id_of m, m)) ns)" using f(5) map_of_SomeD by fastforce
    then show "Check ModelDefinitionSchema m \<and> sound p m" using a(2) b(2) by auto
  qed
  have field: "k = js ''models'' \<and> w = JArray models \<or> map_of (spread_entries incoming) k = Some w \<or> map_of (spread_entries existing) k = Some w"
    if "map_of fields k = Some w" for k w using that by (auto simp: f(2) map_add_Some_iff split: if_splits)
  have "sound p (snd x)" if x: "x \<in> set fields" for x
  proof -
    have "map_of fields (fst x) = Some (snd x)" using map_of_is_SomeI [OF f(3), of "fst x" "snd x"] x by simp
    from field [OF this] show ?thesis using models a(4) b(4) by (force simp: sound_array dest: map_of_SomeD)
  qed
  then have sound: "sound p (JObject False fields)" using f(3,4) by (simp add: sound_object)
  have array: "Check (TOptional (TArray ModelDefinitionSchema)) (JArray models)"
    using check_array [of "JArray models"] models by (auto simp: check_optional sound_def list_all_iff)
  have "Check s w" if ks: "(k, s) \<in> set provider_fields" "map_of fields (js k) = Some w" for k s w
  proof (cases "k = ''models''")
    case True
    then have "s = TOptional (TArray ModelDefinitionSchema)" "w = JArray models"
      using ks f(2) by (auto simp: provider_fields_def optionals_def)
    then show ?thesis using array by simp
  next
    case False
    then show ?thesis using field [OF ks(2)] a(5) b(5) ks(1) by (auto simp: js_inject)
  qed
  moreover have "tidy (JObject False fields)" using sound by (simp add: sound_def)
  ultimately have "Check ProviderConfigSchema (JObject False fields)" using provider_check by blast
  then show thesis using that f(1) sound by blast
qed

end


text \<open>The copy of the providers is the map itself, unless one of them is named like the prototype.\<close>

lemma copy_providers_plain:
  assumes "proto_key \<notin> fst ` set (mc_providers c)" "distinct (map fst (mc_providers c))"
  shows "copy_providers c = (mc_providers c, None)"
proof -
  have step: "foldl (\<lambda>target k. case getProvider c k of None \<Rightarrow> target | Some p \<Rightarrow> assign_property k p target) (us, None) (map fst ps)
      = (us @ ps, None)" if "mc_providers c = us @ ps" for us ps
    using that
  proof (induction ps arbitrary: us)
    case (Cons x ps)
    have x: "x \<in> set (mc_providers c)" "fst x \<notin> fst ` set us" using Cons.prems assms(2) by auto
    have "getProvider c (fst x) = Some (snd x)"
      using map_of_is_SomeI [OF assms(2), of "fst x" "snd x"] x by (simp add: getProvider_def)
    moreover have "fst x \<noteq> proto_key" using x(1) assms(1) by force
    ultimately show ?case using Cons.IH [of "us @ [x]"] Cons.prems x(2) by (simp add: assign_property_def update_fresh)
  qed simp
  show ?thesis using step [of "[]" "mc_providers c"] by (simp add: copy_providers_def getProviderIds_def)
qed

lemma read_plain: "read_property (es, None) k = (case map_of es k of None \<Rightarrow> JUndefined | Some v \<Rightarrow> v)"
  by (simp add: read_property_def)

text \<open>A file of providers that may be stored.\<close>

definition admissible :: "config_env \<Rightarrow> printer \<Rightarrow> js_value \<Rightarrow> bool" where
  "admissible env p v = (sound p v \<and> ce_Check env ProviderConfigSchema v)"

lemma models_text_defined:
  assumes "\<forall>x \<in> set (fst target). json_value (snd x)" obtains t where "models_text p (models_file target) = Inr t"
proof -
  have "json_value (models_file target)" using assms by (auto simp: models_file_def list_all_iff)
  from json_value_indented [OF this, of "pr_number p" "pr_object p" 0] show thesis using that by (auto simp: models_text_def)
qed

lemma read_models_file:
  assumes "schema_checker (ce_Check env)" "distinct (map fst es)" "\<forall>x \<in> set es. admissible env p (snd x)"
    "models_text p (models_file (es, None)) = Inr t"
  shows "read_config env path t = \<lparr>mc_providers = own_keys_order es, mc_error = None\<rparr>"
proof -
  define v where "v = JObject False (own_keys_order es)"
  have v: "sound p v" unfolding v_def sound_object
    using assms(2,3) by (auto simp: own_keys_order_distinct own_keys_order_idem admissible_def)
  then have data: "sound p (models_file (es, None))"
    unfolding models_file_def sound_object fst_conv v_def [symmetric] by (simp add: own_keys_order_def array_index_def js_def)
  obtain u where "stringify_indented (pr_number p) (pr_object p) 0 (models_file (es, None)) = JsonText u"
    using json_value_indented data unfolding sound_def by blast
  then have parsed: "json_parse (stripJsonComments (strip_bom t)) = Some (models_file (es, None))"
    using assms(4) data json_file_round_trip [of "models_file (es, None)" "pr_number p" "pr_object p"]
    by (auto simp: models_text_def sound_def)
  have "tidy v" using v by (simp add: sound_def)
  then have "ce_Check env (TRecord ProviderConfigSchema) v"
    using schema_checker.check_record [OF assms(1)] assms(3) by (auto simp: v_def admissible_def)
  moreover have "tidy (models_file (es, None))" using data by (simp add: sound_def)
  ultimately have "ce_Check env ModelsConfigSchema (models_file (es, None))"
    using schema_checker.check_object [OF assms(1)] by (simp add: ModelsConfigSchema_def models_file_def v_def)
  then show ?thesis using parsed put_all_fresh [of "[]" "own_keys_order es"] assms(2)
    by (simp add: read_config_def models_file_def opt_prop_def get_prop_def own_keys_order_distinct)
qed


lemma read_config_providers:
  assumes checker: "schema_checker (ce_Check env)" and ok: "mc_error (read_config env path t) = None"
  shows "distinct (map fst (mc_providers (read_config env path t))) \<and>
    (\<forall>x \<in> set (mc_providers (read_config env path t)). tidy (snd x) \<and> ce_Check env ProviderConfigSchema (snd x))"
proof -
  obtain v where v: "json_parse (stripJsonComments (strip_bom t)) = Some v" "ce_Check env ModelsConfigSchema v"
    using ok by (auto simp: read_config_def config_failure_def schema_failure_def Let_def split: option.splits if_splits)
  have tidy: "tidy v" by (rule json_parse_tidy [OF v(1)])
  then obtain es where es: "v = JObject False es"
    using schema_checker.check_only_object [OF checker tidy] v(2) by (auto simp: ModelsConfigSchema_def)
  then obtain w where w: "map_of es (js ''providers'') = Some w" "ce_Check env (TRecord ProviderConfigSchema) w"
    using schema_checker.check_object [OF checker tidy [unfolded es]] v(2)
    by (auto simp: ModelsConfigSchema_def is_optional_def split: option.splits)
  have "tidy w" using tidy w(1) by (force simp: es list_all_iff dest: map_of_SomeD)
  then obtain ps where ps: "w = JObject False ps" "\<forall>(k, q) \<in> set ps. ce_Check env ProviderConfigSchema q" "tidy (JObject False ps)"
    using schema_checker.check_record [OF checker] w(2) by blast
  then have "distinct (map fst ps)" by simp
  then have "mc_providers (read_config env path t) = ps"
    using v es w ps(1) put_all_fresh [of "[]" ps] by (simp add: read_config_def opt_prop_def get_prop_def)
  then show ?thesis using ps by (auto simp: list_all_iff)
qed

lemma loaded_providers:
  assumes "schema_checker (ce_Check env)" "load_config env path fs = (Inr c, fs1)" "mc_error c = None"
  shows "distinct (map fst (mc_providers c))" "\<forall>x \<in> set (mc_providers c). tidy (snd x) \<and> ce_Check env ProviderConfigSchema (snd x)"
proof -
  have "mc_providers c = [] \<or> (\<exists>q t. c = read_config env q t)"
    using assms(2,3) by (auto simp: load_config_def config_failure_def split: option.splits if_splits sum.splits prod.splits)
  then show "distinct (map fst (mc_providers c))" "\<forall>x \<in> set (mc_providers c). tidy (snd x) \<and> ce_Check env ProviderConfigSchema (snd x)"
    using read_config_providers [OF assms(1)] assms(3) by auto
qed

text \<open>Where the file is: an absolute path, with a temporary file beside it.\<close>

definition config_place :: "js_string list \<Rightarrow> js_string \<Rightarrow> js_string \<Rightarrow> bool" where
  "config_place ds n random =
     (list_all clean_name (ds @ [n]) \<and> sep \<notin> set random \<and> n \<noteq> js ''.models.json.'' @ random @ js ''.tmp'')"

lemma config_paths:
  assumes "config_place ds n random"
  shows "normalizePath h f default_path_options (abs_path (ds @ [n])) = Inr (abs_path (ds @ [n]))"
    "dirname (abs_path (ds @ [n])) = abs_path ds"
    "temporary_path (abs_path (ds @ [n])) random = abs_path (ds @ [js ''.models.json.'' @ random @ js ''.tmp''])"
    "temporary_path (abs_path (ds @ [n])) random \<noteq> abs_path (ds @ [n])"
proof -
  have clean: "list_all clean_name ds" "clean_name n" "clean_name (js ''.models.json.'' @ random @ js ''.tmp'')"
    using assms by (auto simp: config_place_def clean_name_def js_def)
  show "normalizePath h f default_path_options (abs_path (ds @ [n])) = Inr (abs_path (ds @ [n]))"
    by (simp add: normalizePath_def expand_path_def default_path_options_def abs_path_def starts_with_def js_def)
  show d: "dirname (abs_path (ds @ [n])) = abs_path ds" by (rule dirname_abs_path [OF clean(2,1)])
  show t: "temporary_path (abs_path (ds @ [n])) random = abs_path (ds @ [js ''.models.json.'' @ random @ js ''.tmp''])"
    unfolding temporary_path_def d using join_absolute [OF isAbsolute_abs_path clean(3), of ds] walk_abs_path [OF clean(1)] by simp
  show "temporary_path (abs_path (ds @ [n])) random \<noteq> abs_path (ds @ [n])"
    unfolding t using assms clean by (subst abs_path_inject) (auto simp: config_place_def)
qed


text \<open>A disk without faults that has nothing in the way of the file and its temporary copy.\<close>

definition config_ready :: "js_string list \<Rightarrow> js_string \<Rightarrow> js_string \<Rightarrow> fsys \<Rightarrow> bool" where
  "config_ready ds n random fs =
     (config_place ds n random \<and> healthy fs \<and> makeable fs (abs_path ds) \<and> \<not> is_directory (abs_path (ds @ [n])) fs
      \<and> \<not> is_directory (temporary_path (abs_path (ds @ [n])) random) fs)"

lemma not_prefix:
  assumes "list_all clean_name (ds @ [n])" shows "abs_path (ds @ [n]) \<notin> set (path_prefixes (abs_path ds))"
proof -
  have "walk [] (abs_path ds) = ds" using assms by (simp add: walk_abs_path)
  then show ?thesis using longer_path [OF assms] by (auto simp: path_prefixes_def)
qed

lemma still_no_directory:
  assumes "list_all clean_name (ds @ [n])" "\<not> is_directory (abs_path (ds @ [n])) fs"
  shows "\<not> is_directory (abs_path (ds @ [n])) (foldl make_dir fs (path_prefixes (abs_path ds)))"
  using assms(2) not_prefix [OF assms(1)] by (auto simp: is_directory_def make_dirs_nodes(1) split: option.splits)

lemma ready_put:
  assumes "config_ready ds n random fs" shows "config_ready ds n random (put_text (abs_path (ds @ [n])) t fs)"
proof -
  have place: "config_place ds n random" "list_all clean_name (ds @ [n])" using assms by (simp_all add: config_ready_def config_place_def)
  then show ?thesis using assms not_prefix [OF place(2)] config_paths(4) [OF place(1)]
    unfolding config_ready_def makeable_def list_all_iff map_has_def is_directory_def put_text_simps by auto
qed

lemma write_ready:
  assumes "config_ready ds n random fs" "models_text p data = Inr t"
  obtains fs' where "writeModelsJsonAtomic p random (abs_path (ds @ [n])) data fs = (Inr (), fs')" "healthy fs'"
proof -
  let ?path = "abs_path (ds @ [n])"
  let ?tmp = "temporary_path ?path random"
  have place: "config_place ds n random" and h: "healthy fs" using assms(1) by (simp_all add: config_ready_def)
  note paths = config_paths [OF place]
  define fs1 where "fs1 = foldl make_dir fs (path_prefixes (abs_path ds))"
  have mk: "fs_createDir (dirname ?path) fs = (Inr (), fs1)"
    using assms(1) by (auto simp: config_ready_def makeable_def list_all_iff paths(2) fs_createDir_def fs_call_healthy fs1_def)
  have "list_all clean_name (ds @ [n])" "list_all clean_name (ds @ [js ''.models.json.'' @ random @ js ''.tmp''])"
    using place by (auto simp: config_place_def clean_name_def js_def)
  then have dirs: "\<not> is_directory ?path fs1" "\<not> is_directory ?tmp fs1"
    using assms(1) still_no_directory unfolding fs1_def config_ready_def paths(3) by blast+
  have h1: "healthy fs1" using h by (simp add: fs1_def make_dirs_nodes(2))
  define fs2 where "fs2 = put_text ?tmp t fs1"
  have wr: "fs_writeFile ?tmp t fs1 = (Inr (), fs2)" using h1 dirs(2) by (simp add: fs_writeFile_def fs_call_healthy fs2_def)
  have two: "healthy fs2" "map_of (fs_nodes fs2) ?tmp = Some (FileNode t (fs_clock fs1))" "\<not> is_directory ?path fs2"
    using h1 dirs(1) paths(4) by (auto simp: fs2_def put_text_simps is_directory_def)
  then obtain fs3 where rn: "fs_renameFile ?tmp ?path fs2 = (Inr (), fs3)" "healthy fs3"
    by (simp add: fs_renameFile_def fs_call_healthy) (simp add: healthy_def)
  have "writeModelsJsonAtomic p random ?path data fs = (Inr (), fs3)"
    unfolding writeModelsJsonAtomic_def mk using assms(2) wr rn(1) by simp
  then show thesis using that rn(2) by blast
qed

lemma load_stored:
  assumes "config_place ds n random" "healthy fs" "text_at fs (abs_path (ds @ [n])) = Some t"
  shows "load_config env (Some (abs_path (ds @ [n]))) fs = (Inr (read_config env (abs_path (ds @ [n])) t), fs)"
proof -
  have "abs_path (ds @ [n]) \<noteq> []" by (simp add: abs_path_def)
  moreover have "fs_readTextFile (abs_path (ds @ [n])) fs = (Inr t, fs)"
    using assms(2,3) by (auto simp: fs_readTextFile_def fs_call_healthy text_at_node)
  ultimately show ?thesis by (simp add: load_config_def config_paths(1) [OF assms(1)])
qed

text \<open>The provider that is stored under an id.\<close>

abbreviation stored_provider :: "model_config \<Rightarrow> js_string \<Rightarrow> js_value" where
  "stored_provider c k \<equiv> (case getProvider c k of None \<Rightarrow> JUndefined | Some q \<Rightarrow> q)"

lemma stored_admissible:
  assumes "schema_checker (ce_Check env)" "load_config env path fs = (Inr c, fs1)" "mc_error c = None"
    and "\<forall>x \<in> set (mc_providers c). json_value (snd x) \<and> readable_numbers (pr_number p) (snd x)"
  shows "\<forall>x \<in> set (mc_providers c). admissible env p (snd x)" "stored_provider c k = JUndefined \<or> admissible env p (stored_provider c k)"
proof -
  show all: "\<forall>x \<in> set (mc_providers c). admissible env p (snd x)"
    using loaded_providers(2) [OF assms(1-3)] assms(4) by (simp add: admissible_def sound_def)
  show "stored_provider c k = JUndefined \<or> admissible env p (stored_provider c k)"
  proof (cases "getProvider c k")
    case (Some q)
    then have "(k, q) \<in> set (mc_providers c)" by (simp add: getProvider_def map_of_SomeD)
    then show ?thesis using all Some by force
  qed simp
qed

text \<open>The config that is read after an update: the merge at the provider, everything else as it was.\<close>

lemma update_loads:
  assumes "schema_checker (ce_Check env)" "config_ready ds n random fs" "path = abs_path (ds @ [n])"
    and loaded: "load_config env (Some path) fs = (Inr c, fs)" "mc_error c = None"
    and names: "proto_key \<noteq> providerId" "proto_key \<notin> set (getProviderIds c)"
    and data: "\<forall>x \<in> set (mc_providers c). json_value (snd x) \<and> readable_numbers (pr_number p) (snd x)" "admissible env p incoming"
  obtains fs' merged c' where "mergeAndWriteModelsJson env p random path providerId incoming fs = (Inr Written, fs')"
    "mergeProviderIntoConfig (stored_provider c providerId) incoming = Some merged"
    "load_config env (Some path) fs' = (Inr c', fs')" "mc_error c' = None"
    "map_of (mc_providers c') = (map_of (mc_providers c))(providerId \<mapsto> merged)"
proof -
  note prov = loaded_providers [OF assms(1) loaded]
  note old = stored_admissible(1) [OF assms(1) loaded data(1)]
  define existing where "existing = stored_provider c providerId"
  have "existing = JUndefined \<or> sound p existing \<and> ce_Check env ProviderConfigSchema existing"
    using stored_admissible(2) [OF assms(1) loaded data(1), of providerId] unfolding existing_def admissible_def .
  then obtain merged where m: "mergeProviderIntoConfig existing incoming = Some merged" "admissible env p merged"
    using schema_checker.merge_check [OF assms(1), of existing p incoming] data(2) unfolding admissible_def by blast
  have copy: "copy_providers c = (mc_providers c, None)"
    using copy_providers_plain prov(1) names(2) by (simp add: getProviderIds_def)
  define es where "es = AList.update providerId merged (mc_providers c)"
  have es: "distinct (map fst es)" "\<forall>x \<in> set es. admissible env p (snd x)"
    using prov(1) old m(2) by (auto simp: es_def distinct_update dest!: alist_update_memD)
  have assigned: "assign_property providerId merged (copy_providers c) = (es, None)"
    using names(1) by (simp add: copy assign_property_def es_def)
  have read: "read_property (copy_providers c) providerId = existing"
    by (simp add: copy read_plain existing_def getProvider_def)
  have "\<forall>x \<in> set (fst (es, None)). json_value (snd x)" using es(2) by (simp add: admissible_def sound_def)
  then obtain t where t: "models_text p (models_file (es, None)) = Inr t" by (rule models_text_defined)
  obtain fs' where w: "writeModelsJsonAtomic p random path (models_file (es, None)) fs = (Inr (), fs')" "healthy fs'"
    using write_ready [OF assms(2) t] assms(3) by blast
  have written: "mergeAndWriteModelsJson env p random path providerId incoming fs = (Inr Written, fs')"
    using loaded read m(1) assigned w(1) by (simp add: mergeAndWriteModelsJson_def)
  have place: "config_place ds n random" using assms(2) by (simp add: config_ready_def)
  have stored: "text_at fs' path = Some t"
    using w(1) by (cases rule: write_cases) (use t config_paths(4) [OF place] assms(3) in simp_all)
  then have reload: "load_config env (Some path) fs' = (Inr (read_config env path t), fs')"
    unfolding assms(3) by (rule load_stored [OF place w(2)])
  have "read_config env path t = \<lparr>mc_providers = own_keys_order es, mc_error = None\<rparr>"
    by (rule read_models_file [OF assms(1) es t])
  moreover have "map_of (own_keys_order es) = (map_of (mc_providers c))(providerId \<mapsto> merged)"
    using own_keys_order_map_of [OF es(1)] by (simp add: es_def alist_of_update)
  ultimately show thesis using that [OF written m(1) [unfolded existing_def] reload] by simp
qed


section \<open>Presets\<close>

lemma keys_in_order: "list_all (\<lambda>x. array_index (fst x) = None) es \<Longrightarrow> own_keys_order es = es"
  by (simp add: own_keys_order_def list_all_iff filter_id_conv case_prod_beta filter_empty_conv)

lemma name_no_index: "k \<noteq> [] \<Longrightarrow> \<not> is_digit (hd k) \<Longrightarrow> array_index k = None"
  by (cases k) (auto simp: array_index_def is_digit_def)

lemma only_model_sound [simp]: "sound p (only_model m)"
  by (simp add: only_model_def sound_def keys_in_order name_no_index js_def is_digit_def)

context schema_checker
begin

lemma model_check: "m \<noteq> [] \<Longrightarrow> Check (TOptional (TArray ModelDefinitionSchema)) (only_model m)"
proof -
  assume m: "m \<noteq> []"
  have t: "tidy (only_model m)" using only_model_sound [of undefined m] by (simp add: sound_def)
  have "Check ModelDefinitionSchema (JObject False [(js ''id'', JString m)])"
    unfolding ModelDefinitionSchema_def
    by (subst check_object) (use t m check_string [of 1 "JString m"] in \<open>auto simp: Suc_le_eq only_model_def js_inject optionals_def model_limits_def is_optional_def\<close>)
  then show ?thesis using check_array [OF t] by (auto simp: check_optional only_model_def)
qed

lemma compat_check: "Check (TOptional ProviderCompatSchema) LOCAL_COMPAT"
proof -
  have t: "tidy LOCAL_COMPAT" by (simp add: LOCAL_COMPAT_def keys_in_order name_no_index js_def is_digit_def)
  have "Check TBoolean (JBool False)" using check_boolean [of "JBool False"] by auto
  then have "Check OpenAICompletionsCompatSchema LOCAL_COMPAT"
    unfolding OpenAICompletionsCompatSchema_def LOCAL_COMPAT_def
    by (subst check_object) (use t in \<open>auto simp: LOCAL_COMPAT_def js_inject optionals_def is_optional_def check_optional\<close>)
  then show ?thesis by (simp add: check_optional ProviderCompatSchema_def check_union)
qed

end

lemma preset_admissible:
  assumes "schema_checker (ce_Check env)" "modelId \<noteq> []"
  shows "admissible env p (localPresetProvider (LOCAL_MODEL_PRESETS preset) modelId)"
    "baseUrl \<noteq> [] \<Longrightarrow> key \<noteq> [] \<Longrightarrow> admissible env p (hostedPresetProvider baseUrl key modelId)"
proof -
  have text_check: "ce_Check env (TOptional (TString 1)) (JString s)" if "s \<noteq> []" for s
    using schema_checker.check_string [OF assms(1), of 1 "JString s"] that
    by (simp add: Suc_le_eq schema_checker.check_optional [OF assms(1)])
  note checks = text_check schema_checker.model_check [OF assms] schema_checker.compat_check [OF assms(1)]
  have sounds: "sound p (JString s)" "sound p LOCAL_COMPAT" for s
    by (simp_all add: sound_def LOCAL_COMPAT_def keys_in_order name_no_index js_def is_digit_def)
  have order: "sound p (localPresetProvider (LOCAL_MODEL_PRESETS preset) modelId)" "sound p (hostedPresetProvider baseUrl key modelId)"
    unfolding localPresetProvider_def hostedPresetProvider_def sound_object
    by (auto simp: sounds keys_in_order name_no_index js_def is_digit_def)
  have texts: "lp_baseUrl (LOCAL_MODEL_PRESETS preset) \<noteq> []" "lp_apiKey (LOCAL_MODEL_PRESETS preset) \<noteq> []" "js ''openai-completions'' \<noteq> []"
    by (cases preset; simp add: js_def)+
  have "ce_Check env ProviderConfigSchema (localPresetProvider (LOCAL_MODEL_PRESETS preset) modelId)"
    unfolding localPresetProvider_def
    by (subst schema_checker.provider_check [OF assms(1)])
      (use order(1) checks texts in \<open>auto simp: sound_def localPresetProvider_def provider_fields_def optionals_def js_inject\<close>)
  with order(1) show "admissible env p (localPresetProvider (LOCAL_MODEL_PRESETS preset) modelId)" by (simp add: admissible_def)
  assume "baseUrl \<noteq> []" "key \<noteq> []"
  then have "ce_Check env ProviderConfigSchema (hostedPresetProvider baseUrl key modelId)"
    unfolding hostedPresetProvider_def
    by (subst schema_checker.provider_check [OF assms(1)])
      (use order(2) checks texts in \<open>auto simp: sound_def hostedPresetProvider_def provider_fields_def optionals_def js_inject\<close>)
  with order(2) show "admissible env p (hostedPresetProvider baseUrl key modelId)" by (simp add: admissible_def)
qed

lemma proto_never_own: "proto_key \<notin> fst ` set (fst (copy_providers c))" "proto_key \<notin> fst ` set es \<Longrightarrow> proto_key \<notin> fst ` set (fst (assign_property k v (es, q)))"
proof -
  have "proto_key \<notin> fst ` set (fst (foldl (\<lambda>target k. case getProvider c k of None \<Rightarrow> target | Some p \<Rightarrow> assign_property k p target) obj0 ks))"
    if "proto_key \<notin> fst ` set (fst obj0)" for ks and obj0 :: filled
    using that by (induction ks arbitrary: obj0) (auto simp: assign_property_def split: option.splits)
  then show "proto_key \<notin> fst ` set (fst (copy_providers c))" by (simp add: copy_providers_def)
qed (simp add: assign_property_def)

section \<open>Properties\<close>

text \<open>An environment and a disk for the witnesses: the checker that conforms to the schema, an empty disk, a printer for numbers that are
  not needed.\<close>

definition sample_env :: config_env where
  "sample_env = \<lparr>ce_homedir = js ''/home'', ce_fileURLToPath = Inr, ce_syntaxMessage = id, ce_Check = conforms, ce_Errors = (\<lambda>_. [])\<rparr>"

definition sample_printer :: printer where
  "sample_printer = \<lparr>pr_number = (\<lambda>_. ''0''), pr_object = js\<rparr>"

definition empty_disk :: fsys where
  "empty_disk = \<lparr>fs_nodes = [], fs_faults = [], fs_clock = 0, fs_reason = []\<rparr>"

abbreviation sample_path :: js_string where
  "sample_path \<equiv> abs_path ([js ''home''] @ [js ''models.json''])"

lemma sample_ready: "config_ready [js ''home''] (js ''models.json'') (js ''0f'') empty_disk"
proof -
  have "config_place [js ''home''] (js ''models.json'') (js ''0f'')" by (simp add: config_place_def clean_name_def js_def)
  then show ?thesis by (simp add: config_ready_def empty_disk_def healthy_def is_directory_def makeable_def map_has_def list_all_iff)
qed

lemma sample_place: "config_place [js ''home''] (js ''models.json'') (js ''0f'')"
  using sample_ready by (simp add: config_ready_def)

lemma sample_load: "load_config sample_env (Some sample_path) empty_disk = (Inr \<lparr>mc_providers = [], mc_error = None\<rparr>, empty_disk)"
proof -
  have "sample_path \<noteq> []" by (simp add: abs_path_def)
  moreover have "fs_readTextFile sample_path empty_disk = (Inl (FileError Fe_not_found []), empty_disk)"
    by (simp add: fs_readTextFile_def fs_call_def empty_disk_def)
  ultimately show ?thesis by (simp add: load_config_def config_paths(1) [OF sample_place, simplified])
qed

lemma sample_checker: "schema_checker (ce_Check sample_env)"
  by (simp add: sample_env_def) (rule conforming.schema_checker_axioms)

text \<open>C16: On a disk without faults the update of \<open>models.json\<close> succeeds, and the file that it writes loads without an error: the
  provider is the merge of the stored and the given one, and every other provider is what it was. This takes a schema
  checker that does what its package documents, a given provider that the schema admits, numbers that the language
  prints and reads back, and no provider of the name \<open>__proto__\<close>.\<close>

theorem models_json_round_trip:
  assumes "schema_checker (ce_Check env)" "config_ready ds n random fs" "path = abs_path (ds @ [n])"
    and "load_config env (Some path) fs = (Inr c, fs)" "mc_error c = None"
    and "proto_key \<noteq> providerId" "proto_key \<notin> set (getProviderIds c)"
    and "\<forall>x \<in> set (mc_providers c). json_value (snd x) \<and> readable_numbers (pr_number p) (snd x)" "admissible env p incoming"
  shows "\<exists>fs' merged c'. mergeAndWriteModelsJson env p random path providerId incoming fs = (Inr Written, fs')
    \<and> mergeProviderIntoConfig (stored_provider c providerId) incoming = Some merged
    \<and> load_config env (Some path) fs' = (Inr c', fs') \<and> mc_error c' = None
    \<and> map_of (mc_providers c') = (map_of (mc_providers c))(providerId \<mapsto> merged)"
  by (rule update_loads [OF assms]) blast

theorem models_json_round_trip_witness:
  "\<exists>fs' merged c'. mergeAndWriteModelsJson sample_env sample_printer (js ''0f'') sample_path (js ''ollama'')
       (localPresetProvider (LOCAL_MODEL_PRESETS Preset_ollama) (js ''llama3'')) empty_disk = (Inr Written, fs')
    \<and> load_config sample_env (Some sample_path) fs' = (Inr c', fs') \<and> mc_error c' = None
    \<and> map_of (mc_providers c') = [js ''ollama'' \<mapsto> merged]"
proof -
  have "admissible sample_env sample_printer (localPresetProvider (LOCAL_MODEL_PRESETS Preset_ollama) (js ''llama3''))"
    by (rule preset_admissible(1) [OF sample_checker]) (simp add: js_def)
  moreover have "proto_key \<noteq> js ''ollama''" by (simp add: proto_key_def js_inject)
  ultimately show ?thesis
    using models_json_round_trip [OF sample_checker sample_ready refl sample_load, where p = sample_printer and providerId = "js ''ollama''"
        and incoming = "localPresetProvider (LOCAL_MODEL_PRESETS Preset_ollama) (js ''llama3'')"]
    unfolding getProviderIds_def model_config.simps list.map list.set map_of.simps by blast
qed

text \<open>C17: Whatever faults the disk has, the update of \<open>models.json\<close> touches no file but the config and its temporary copy; the
  config is unchanged unless the update reports success, and then it holds the whole new text, printed from the
  providers that were loaded and the merge, and the temporary copy is gone.\<close>

theorem models_json_atomic:
  assumes "temporary_path path random \<noteq> path"
  shows "case mergeAndWriteModelsJson env p random path providerId incoming fs of (r, fs') \<Rightarrow>
    (\<forall>q. q \<noteq> path \<longrightarrow> q \<noteq> temporary_path path random \<longrightarrow> text_at fs' q = text_at fs q)
    \<and> (if r = Inr Written then text_at fs' (temporary_path path random) = None
         \<and> (\<exists>c fs1 merged t. load_config env (Some path) fs = (Inr c, fs1) \<and> mc_error c = None
              \<and> mergeProviderIntoConfig (read_property (copy_providers c) providerId) incoming = Some merged
              \<and> models_text p (models_file (assign_property providerId merged (copy_providers c))) = Inr t
              \<and> text_at fs' path = Some t)
       else text_at fs' path = text_at fs path)"
proof -
  obtain r fs' where run: "mergeAndWriteModelsJson env p random path providerId incoming fs = (r, fs')" by force
  from run show ?thesis
  proof (cases rule: merge_and_write_cases)
    case failed
    then show ?thesis using run assms by simp
  next
    case (written c fs1 merged t)
    then show ?thesis using run assms by auto
  qed
qed

theorem models_json_atomic_witness:
  "case mergeAndWriteModelsJson sample_env sample_printer (js ''0f'') sample_path (js ''ollama'') JNull
      (put_text sample_path (js ''{}'') (empty_disk\<lparr>fs_faults := [NoFault, Fault (FileError Fe_unknown []) []]\<rparr>)) of (r, fs') \<Rightarrow>
    r \<noteq> Inr Written \<longrightarrow> text_at fs' sample_path = Some (js ''{}'')"
  using models_json_atomic [OF config_paths(4) [OF sample_place], where env = sample_env and p = sample_printer
      and providerId = "js ''ollama''" and incoming = JNull
      and fs = "put_text sample_path (js ''{}'') (empty_disk\<lparr>fs_faults := [NoFault, Fault (FileError Fe_unknown []) []]\<rparr>)"]
  by (auto simp: text_at_put)

text \<open>C20: A merge keeps every field of the stored provider that the given one does not have and takes the others from the given
  one; of the models with one id it keeps the last, a given one before a stored one, at the place of the first.\<close>

theorem merge_provider_spec:
  assumes "model_entries existing = Some old" "model_entries incoming = Some new"
    and "distinct (map fst (spread_entries existing))" "distinct (map fst (spread_entries incoming))"
  shows "\<exists>fields models. mergeProviderIntoConfig existing incoming = Some (JObject False fields)
    \<and> map_of fields = (map_of (spread_entries existing) ++ map_of (spread_entries incoming))(js ''models'' \<mapsto> JArray models)
    \<and> map id_of models = first_places (map fst (old @ new))
    \<and> (\<forall>m \<in> set models. map_of (rev (old @ new)) (id_of m) = Some m)"
  by (rule merge_fields [OF assms]) blast

theorem merge_provider_spec_witness:
  "\<exists>fields models. mergeProviderIntoConfig (hostedPresetProvider (js ''a'') (js ''$A'') (js ''m''))
      (hostedPresetProvider (js ''b'') (js ''$A'') (js ''n'')) = Some (JObject False fields)
    \<and> map_of fields (js ''baseUrl'') = Some (JString (js ''b'')) \<and> map_of fields (js ''models'') = Some (JArray models)
    \<and> map id_of models = [JString (js ''m''), JString (js ''n'')]"
proof -
  have entries: "model_entries (hostedPresetProvider (js u) (js k) (js x)) = Some [(JString (js x), JObject False [(js ''id'', JString (js x))])]" for u k x
    by (simp add: model_entries_def hostedPresetProvider_def opt_prop_def get_prop_def coalesce_def nullish_def only_model_def js_inject)
  have keys: "distinct (map fst (spread_entries (hostedPresetProvider (js u) (js k) (js x))))" for u k x
    by (simp add: spread_entries_def hostedPresetProvider_def js_inject)
  obtain fields models where "mergeProviderIntoConfig (hostedPresetProvider (js ''a'') (js ''$A'') (js ''m''))
      (hostedPresetProvider (js ''b'') (js ''$A'') (js ''n'')) = Some (JObject False fields)"
    and f: "map_of fields = (map_of (spread_entries (hostedPresetProvider (js ''a'') (js ''$A'') (js ''m'')))
        ++ map_of (spread_entries (hostedPresetProvider (js ''b'') (js ''$A'') (js ''n''))))(js ''models'' \<mapsto> JArray models)"
      "map id_of models = first_places [JString (js ''m''), JString (js ''n'')]"
    using merge_provider_spec [OF entries entries keys keys, of "''a''" "''$A''" "''m''" "''b''" "''$A''" "''n''"] by auto
  moreover have "map_of fields (js ''baseUrl'') = Some (JString (js ''b''))"
    by (simp add: f(1) spread_entries_def hostedPresetProvider_def js_inject map_add_def)
  moreover have "map_of fields (js ''models'') = Some (JArray models)" by (simp add: f(1))
  moreover have "map id_of models = [JString (js ''m''), JString (js ''n'')]" by (simp add: f(2) first_places_def js_inject)
  ultimately show ?thesis by (intro exI conjI)
qed

text \<open>C21: A provider named \<open>__proto__\<close>, which the schema admits and a load reports, is not in the file that an update writes,
  whatever provider is updated: its assignment sets the prototype of the object that is printed.\<close>

theorem proto_provider_lost:
  assumes "mergeAndWriteModelsJson env p random path providerId incoming fs = (Inr Written, fs')" "temporary_path path random \<noteq> path"
  shows "\<exists>es t. text_at fs' path = Some t \<and> models_text p (JObject False [(js ''providers'', JObject False es)]) = Inr t
    \<and> map_of es proto_key = None"
  using assms(1)
proof (cases rule: merge_and_write_cases)
  case (written c fs1 merged t)
  obtain es q where copy: "copy_providers c = (es, q)" by force
  obtain es' q' where assigned: "assign_property providerId merged (es, q) = (es', q')" by force
  have "proto_key \<notin> fst ` set es'" using proto_never_own(1) [of c] proto_never_own(2) [of es providerId merged q] copy assigned by simp
  then have "map_of (own_keys_order es') proto_key = None" by (simp add: map_of_eq_None_iff)
  moreover have "text_at fs' path = Some t" using written(6) [OF assms(2)] assms(2) by simp
  ultimately show ?thesis using written(5) by (auto simp: copy assigned models_file_def)
qed simp

theorem proto_provider_lost_witness:
  "\<exists>fs fs' c es t. load_config sample_env (Some sample_path) fs = (Inr c, fs) \<and> mc_error c = None \<and> getProvider c proto_key = Some (JObject False [])
    \<and> mergeAndWriteModelsJson sample_env sample_printer (js ''0f'') sample_path (js ''ollama'') (JObject False []) fs = (Inr Written, fs')
    \<and> text_at fs' sample_path = Some t \<and> models_text sample_printer (JObject False [(js ''providers'', JObject False es)]) = Inr t
    \<and> map_of es proto_key = None"
proof -
  let ?old = "[(proto_key, JObject False [])] :: (js_string \<times> js_value) list"
  let ?new = "models_file ([(js ''ollama'', JObject False [(js ''models'', JArray [])])], Some (JObject False []))"
  have ok: "\<forall>x \<in> set ?old. admissible sample_env sample_printer (snd x)"
    by (simp add: admissible_def sound_def sample_env_def ProviderConfigSchema_def provider_fields_def optionals_def is_optional_def)
  obtain t0 where t0: "models_text sample_printer (models_file (?old, None)) = Inr t0"
    by (rule models_text_defined [of "(?old, None)" sample_printer]) simp_all
  obtain t1 where t1: "models_text sample_printer ?new = Inr t1"
    by (rule models_text_defined [of "([(js ''ollama'', JObject False [(js ''models'', JArray [])])], Some (JObject False []))" sample_printer]) simp_all
  define fs where "fs = put_text sample_path t0 empty_disk"
  have ready: "config_ready [js ''home''] (js ''models.json'') (js ''0f'') fs"
    unfolding fs_def by (rule ready_put [OF sample_ready])
  have load: "load_config sample_env (Some sample_path) fs = (Inr \<lparr>mc_providers = ?old, mc_error = None\<rparr>, fs)"
    using load_stored [OF sample_place, of fs t0 sample_env] ready read_models_file [OF sample_checker _ ok t0]
    by (simp add: fs_def text_at_put config_ready_def own_keys_order_def array_index_def proto_key_def js_def)
  obtain fs' where w: "writeModelsJsonAtomic sample_printer (js ''0f'') sample_path ?new fs = (Inr (), fs')" by (rule write_ready [OF ready t1])
  have run: "mergeAndWriteModelsJson sample_env sample_printer (js ''0f'') sample_path (js ''ollama'') (JObject False []) fs = (Inr Written, fs')"
    using w unfolding mergeAndWriteModelsJson_def load
    by (simp add: copy_providers_def getProviderIds_def getProvider_def assign_property_def read_property_def opt_prop_def get_prop_def
        mergeProviderIntoConfig_def model_entries_def coalesce_def nullish_def spread_entries_def own_keys_order_def array_index_def
        proto_key_def js_inject js_def)
  have found: "mc_error \<lparr>mc_providers = ?old, mc_error = None\<rparr> = None" "getProvider \<lparr>mc_providers = ?old, mc_error = None\<rparr> proto_key = Some (JObject False [])"
    by (simp_all add: getProvider_def)
  from proto_provider_lost [OF run config_paths(4) [OF sample_place]] run load found show ?thesis by blast
qed

end
