(* ===== verification/Patchcage_Mode.thy ===== *)
theory Patchcage_Mode
  imports Models_File
begin

text \<open>
  The agent mode of PatchCage, the rest of \<open>coding-agent/src/core/patchcage-agent-mode.ts\<close>, and its prompts, \<open>cli/patchcage-onboarding.ts\<close>:
  the disclosure before a run that is not sandboxed, the checks of what the user types in, the probe for local models and
  the onboarding. The answers of the user, \<open>fetch\<close>, the parser of URLs and the random bytes are arguments.
\<close>

section \<open>Disclosure\<close>

datatype disclosure = Allow | Need_interactive_prompt | Fail_closed

record disclosure_input =
  di_acknowledged :: bool
  di_toolsEnabled :: bool
  di_interactive :: bool
  di_ackThisRun :: bool

definition decideUnsandboxedDisclosure :: "disclosure_input \<Rightarrow> disclosure" where
  "decideUnsandboxedDisclosure i =
     (if \<not> di_toolsEnabled i then Allow
      else if di_acknowledged i \<or> di_ackThisRun i then Allow
      else if di_interactive i then Need_interactive_prompt
      else Fail_closed)"

text \<open>The arguments of the command line that \<open>main.ts\<close> reads here; \<open>listModels\<close> is a pattern or \<open>true\<close>.\<close>

record cli_args =
  ca_help :: bool
  ca_listModels :: "js_string option option"
  ca_version :: bool
  ca_noTools :: bool
  ca_ackUnsandboxed :: bool

definition shouldSkipUnsandboxedDisclosure :: "cli_args \<Rightarrow> bool" where
  "shouldSkipUnsandboxedDisclosure a = (ca_help a \<or> ca_listModels a \<noteq> None \<or> ca_version a)"

text \<open>The choice of the selector is \<open>undefined\<close> when the user leaves it.\<close>

definition promptUnsandboxedDisclosure :: "bool option \<Rightarrow> bool" where
  "promptUnsandboxedDisclosure choice = (choice = Some True)"

definition UNSANDBOXED_DISCLOSURE_FAIL_CLOSED :: js_string where
  "UNSANDBOXED_DISCLOSURE_FAIL_CLOSED = js
     (''This PatchCage agent session is not sandboxed and can use tools with your user permissions. ''
      @ ''Acknowledge once in interactive mode, or pass --ack-unsandboxed (this run only) or --no-tools.'')"

definition UNSANDBOXED_DISCLOSURE_DECLINED :: js_string where
  "UNSANDBOXED_DISCLOSURE_DECLINED = js ''Declined unsandboxed agent mode. Exiting.''"

text \<open>The gate in \<open>main\<close>: the exit code with the message, or the acknowledgement that is stored when the run goes on.\<close>

datatype gate = Exits nat js_string | Goes_on bool

definition disclosure_gate :: "cli_args \<Rightarrow> bool \<Rightarrow> bool \<Rightarrow> bool option \<Rightarrow> gate" where
  "disclosure_gate parsed acknowledged interactive choice =
     (if shouldSkipUnsandboxedDisclosure parsed then Goes_on acknowledged
      else
        (case decideUnsandboxedDisclosure \<lparr>di_acknowledged = acknowledged, di_toolsEnabled = (\<not> ca_noTools parsed),
                 di_interactive = interactive, di_ackThisRun = ca_ackUnsandboxed parsed\<rparr> of
           Fail_closed \<Rightarrow> Exits 1 UNSANDBOXED_DISCLOSURE_FAIL_CLOSED
         | Need_interactive_prompt \<Rightarrow> if promptUnsandboxedDisclosure choice then Goes_on True else Exits 0 UNSANDBOXED_DISCLOSURE_DECLINED
         | Allow \<Rightarrow> Goes_on acknowledged))"

definition withBundledPromptTemplates :: "js_string list option \<Rightarrow> js_string \<Rightarrow> bool \<Rightarrow> bool \<Rightarrow> js_string list option" where
  "withBundledPromptTemplates existing bundledDir bundledDirExists enabled =
     (if \<not> enabled \<or> \<not> bundledDirExists then existing
      else Some ((case existing of None \<Rightarrow> [] | Some ds \<Rightarrow> ds) @ [bundledDir]))"

section \<open>Input of the user\<close>

definition upper_or_underscore :: "16 word \<Rightarrow> bool" where
  "upper_or_underscore c = (65 \<le> uint c \<and> uint c \<le> 90 \<or> c = 0x5F)"

text \<open>\<open>/^[A-Z_][A-Z0-9_]*$/\<close>\<close>

definition env_name :: "js_string \<Rightarrow> bool" where
  "env_name s = (s \<noteq> [] \<and> upper_or_underscore (hd s) \<and> list_all (\<lambda>c. upper_or_underscore c \<or> is_digit c) (tl s))"

text \<open>\<open>s.toLowerCase().startsWith("sk-")\<close>. Besides S and K the Kelvin sign has the lower case k.\<close>

definition secret_start :: "js_string \<Rightarrow> bool" where
  "secret_start s =
     (case s of a # b # c # _ \<Rightarrow> (a = 0x73 \<or> a = 0x53) \<and> (b = 0x6B \<or> b = 0x4B \<or> b = 0x212A) \<and> c = 0x2D | _ \<Rightarrow> False)"

definition normalizeHostedApiKeyRef :: "js_string \<Rightarrow> js_string + js_string" where
  "normalizeHostedApiKeyRef input =
     (let trimmed = js_trim input; name = (if starts_with [0x24] trimmed then drop 1 trimmed else trimmed)
      in if trimmed = [] then Inl (js ''Environment variable name is required'')
         else if list_ex js_space trimmed \<or> secret_start trimmed then Inl (js ''Paste the environment variable name, not an API key'')
         else if \<not> env_name name then Inl (js ''Environment variable name must match [A-Z_][A-Z0-9_]*'')
         else Inr (0x24 # name))"

record url_parts =
  url_protocol :: js_string
  url_username :: js_string
  url_password :: js_string

text \<open>\<open>new URL(s)\<close> is an argument; \<open>None\<close> is the error it throws.\<close>

definition validateHostedBaseUrl :: "(js_string \<Rightarrow> url_parts option) \<Rightarrow> js_string \<Rightarrow> js_string + js_string" where
  "validateHostedBaseUrl parse_url input =
     (let trimmed = js_trim input
      in if trimmed = [] then Inl (js ''Base URL is required'')
         else
           (case parse_url trimmed of
              None \<Rightarrow> Inl (js ''Base URL must be a valid http(s) URL'')
            | Some u \<Rightarrow>
                if url_protocol u \<noteq> js ''http:'' \<and> url_protocol u \<noteq> js ''https:'' then Inl (js ''Base URL must be http or https'')
                else if url_username u \<noteq> [] \<or> url_password u \<noteq> [] then Inl (js ''Base URL must not include credentials'')
                else Inr trimmed))"

section \<open>Local models\<close>

definition LOCAL_PROBE_BASE_URLS :: "js_string list" where
  "LOCAL_PROBE_BASE_URLS = [js ''http://127.0.0.1:11434/v1'', js ''http://127.0.0.1:8080/v1'', js ''http://127.0.0.1:8000/v1'']"

definition normalizeLocalBaseUrl :: "js_string \<Rightarrow> js_string" where
  "normalizeLocalBaseUrl baseUrl = rev (dropWhile (\<lambda>c. c = sep) (rev baseUrl))"

definition isAllowlistedLocalBaseUrl :: "js_string \<Rightarrow> bool" where
  "isAllowlistedLocalBaseUrl baseUrl = (normalizeLocalBaseUrl baseUrl \<in> set LOCAL_PROBE_BASE_URLS)"

text \<open>What \<open>fetch\<close> gives for a URL within a second: it throws (\<open>None\<close>), or a status and the outcome of \<open>response.json()\<close>.\<close>

type_synonym fetch = "js_string \<Rightarrow> (bool \<times> js_value option) option"

text \<open>An item that is \<open>null\<close> or \<open>undefined\<close> has no property, so the whole probe gives nothing then; so has a body.\<close>

definition probe_ids :: "js_value \<Rightarrow> js_string list" where
  "probe_ids body =
     (case opt_prop body (js ''data'') of
        JArray items \<Rightarrow>
          if list_ex nullish items then []
          else List.map_filter (\<lambda>item. case opt_prop item (js ''id'') of JString s \<Rightarrow> if s \<noteq> [] then Some s else None | _ \<Rightarrow> None) items
      | _ \<Rightarrow> [])"

definition probeLocalModels :: "fetch \<Rightarrow> js_string \<Rightarrow> js_string list" where
  "probeLocalModels fetch baseUrl =
     (let normalized = normalizeLocalBaseUrl baseUrl
      in if \<not> isAllowlistedLocalBaseUrl normalized then []
         else
           (case fetch (normalized @ js ''/models'') of
              Some (True, Some body) \<Rightarrow> probe_ids body
            | _ \<Rightarrow> []))"

section \<open>Onboarding\<close>

text \<open>\<open>applyPresetToSession\<close> on the runtime of a session: the refresh without network, the model found, the model set. The
  state of the session and its calls are arguments; a call may throw.\<close>

record ('s, 'm) preset_session =
  ps_refresh :: "js_string list \<Rightarrow> 's \<Rightarrow> (js_string + unit) \<times> 's"
  ps_getModel :: "js_string \<Rightarrow> js_string \<Rightarrow> 's \<Rightarrow> 'm option"
  ps_setModel :: "'m \<Rightarrow> 's \<Rightarrow> (js_string + unit) \<times> 's"

definition applyPresetToSession :: "('s, 'm) preset_session \<Rightarrow> js_string \<Rightarrow> js_string \<Rightarrow> 's \<Rightarrow> (js_string + unit) \<times> 's" where
  "applyPresetToSession session providerId modelId s =
     (case ps_refresh session [providerId] s of
        (Inl e, s1) \<Rightarrow> (Inl e, s1)
      | (Inr _, s1) \<Rightarrow>
          (case ps_getModel session providerId modelId s1 of
             None \<Rightarrow> (Inl (js ''Model '' @ providerId @ [sep] @ modelId @ js '' not found after writing models.json''), s1)
           | Some m \<Rightarrow> ps_setModel session m s1))"

datatype onboarding_choice = Choose_local local_preset_id | Choose_hosted | Choose_skip

datatype onboarding_result = Applied js_string js_string | Skip bool | Onboarding_error js_string

text \<open>The answers of the user: the choice of a preset, the model among those a local server offers or the id that is typed in,
  the URL, the name of the variable and the model of a hosted provider. \<open>None\<close> is a prompt that was left.\<close>

record user_answers =
  an_choice :: "onboarding_choice option"
  an_selected :: "js_string list \<Rightarrow> js_string option"
  an_modelId :: "js_string option"
  an_baseUrl :: "js_string option"
  an_envVar :: "js_string option"

definition named_model :: "js_string option \<Rightarrow> js_string" where
  "named_model modelId = (case modelId of None \<Rightarrow> [] | Some m \<Rightarrow> js_trim m)"

definition after_write :: "js_string \<Rightarrow> js_string \<Rightarrow> (rejection + write_result) \<times> fsys \<Rightarrow> (rejection + onboarding_result) \<times> fsys" where
  "after_write providerId modelId r =
     (case r of
        (Inl e, fs) \<Rightarrow> (Inl e, fs)
      | (Inr (Not_written e), fs) \<Rightarrow> (Inr (Onboarding_error e), fs)
      | (Inr Written, fs) \<Rightarrow> (Inr (Applied providerId modelId), fs))"

definition writeLocalPreset ::
  "config_env \<Rightarrow> printer \<Rightarrow> js_string \<Rightarrow> fetch \<Rightarrow> user_answers \<Rightarrow> local_preset_id \<Rightarrow> js_string \<Rightarrow> fsys
    \<Rightarrow> (rejection + onboarding_result) \<times> fsys" where
  "writeLocalPreset env p random fetch a presetId modelsPath fs =
     (let preset = LOCAL_MODEL_PRESETS presetId; probed = probeLocalModels fetch (lp_baseUrl preset);
          modelId = named_model (if probed \<noteq> [] then an_selected a probed else an_modelId a)
      in if modelId = [] then (Inr (Skip False), fs)
         else after_write (lp_providerId preset) modelId
                (mergeAndWriteModelsJson env p random modelsPath (lp_providerId preset) (localPresetProvider preset modelId) fs))"

definition writeHostedPreset ::
  "config_env \<Rightarrow> printer \<Rightarrow> js_string \<Rightarrow> (js_string \<Rightarrow> url_parts option) \<Rightarrow> user_answers \<Rightarrow> js_string \<Rightarrow> fsys
    \<Rightarrow> (rejection + onboarding_result) \<times> fsys" where
  "writeHostedPreset env p random parse_url a modelsPath fs =
     (case an_baseUrl a of
        None \<Rightarrow> (Inr (Skip False), fs)
      | Some baseRaw \<Rightarrow>
          (case validateHostedBaseUrl parse_url baseRaw of
             Inl e \<Rightarrow> (Inr (Onboarding_error e), fs)
           | Inr base \<Rightarrow>
               (case an_envVar a of
                  None \<Rightarrow> (Inr (Skip False), fs)
                | Some envRaw \<Rightarrow>
                    (case normalizeHostedApiKeyRef envRaw of
                       Inl e \<Rightarrow> (Inr (Onboarding_error e), fs)
                     | Inr envVar \<Rightarrow>
                         let modelId = named_model (an_modelId a)
                         in if modelId = [] then (Inr (Skip False), fs)
                            else after_write HOSTED_PROVIDER_ID modelId
                                   (mergeAndWriteModelsJson env p random modelsPath HOSTED_PROVIDER_ID
                                      (hostedPresetProvider base envVar modelId) fs)))))"

definition runModelPresetOnboarding ::
  "config_env \<Rightarrow> printer \<Rightarrow> js_string \<Rightarrow> fetch \<Rightarrow> (js_string \<Rightarrow> url_parts option) \<Rightarrow> user_answers \<Rightarrow> bool \<Rightarrow> js_string \<Rightarrow> fsys
    \<Rightarrow> (rejection + onboarding_result) \<times> fsys" where
  "runModelPresetOnboarding env p random fetch parse_url a persistSkip modelsPath fs =
     (case an_choice a of
        None \<Rightarrow> (Inr (Skip False), fs)
      | Some Choose_skip \<Rightarrow> (Inr (Skip persistSkip), fs)
      | Some Choose_hosted \<Rightarrow> writeHostedPreset env p random parse_url a modelsPath fs
      | Some (Choose_local presetId) \<Rightarrow> writeLocalPreset env p random fetch a presetId modelsPath fs)"

section \<open>The gate and the probe\<close>

text \<open>A run with tools goes past the gate only with an acknowledgement, and only that of the prompt is stored.\<close>

lemma gate_goes_on:
  assumes "\<not> shouldSkipUnsandboxedDisclosure parsed" "\<not> ca_noTools parsed"
  shows "disclosure_gate parsed acknowledged interactive choice = Goes_on s \<longleftrightarrow>
    (acknowledged \<or> ca_ackUnsandboxed parsed) \<and> s = acknowledged \<or>
    \<not> acknowledged \<and> \<not> ca_ackUnsandboxed parsed \<and> interactive \<and> choice = Some True \<and> s"
  using assms by (auto simp: disclosure_gate_def decideUnsandboxedDisclosure_def promptUnsandboxedDisclosure_def)

lemma normalizeLocalBaseUrl_idem [simp]: "normalizeLocalBaseUrl (normalizeLocalBaseUrl u) = normalizeLocalBaseUrl u"
  by (simp add: normalizeLocalBaseUrl_def dropWhile_idem)

text \<open>The probe depends on what the three local addresses answer and on nothing else.\<close>

lemma probe_stays_local:
  assumes "\<And>u. u \<in> set LOCAL_PROBE_BASE_URLS \<Longrightarrow> fetch (u @ js ''/models'') = fetch' (u @ js ''/models'')"
  shows "probeLocalModels fetch baseUrl = probeLocalModels fetch' baseUrl"
  using assms by (simp add: probeLocalModels_def Let_def isAllowlistedLocalBaseUrl_def)

section \<open>After the onboarding\<close>

text \<open>What the hosted preset stores for the key is a reference.\<close>

lemma key_reference: "normalizeHostedApiKeyRef input = Inr v \<Longrightarrow> \<exists>name. v = 0x24 # name \<and> env_name name"
  by (auto simp: normalizeHostedApiKeyRef_def Let_def split: if_splits)

lemma base_url: "validateHostedBaseUrl parse_url input = Inr u \<Longrightarrow> u \<noteq> [] \<and> parse_url u \<noteq> None"
  by (auto simp: validateHostedBaseUrl_def Let_def split: if_splits option.splits)

definition key_kept :: "js_value \<Rightarrow> bool" where
  "key_kept k \<longleftrightarrow> (\<exists>name. k = JString (0x24 # name) \<and> env_name name) \<or> (\<exists>preset. k = JString (lp_apiKey (LOCAL_MODEL_PRESETS preset)))"

text \<open>A preset as it is given to the merge: one model, and a key that is no secret.\<close>

lemma applied_write:
  assumes "runModelPresetOnboarding env p random fetch parse_url a persistSkip path fs = (Inr (Applied pid mid), fs')"
    "schema_checker (ce_Check env)"
  obtains es where "mergeAndWriteModelsJson env p random path pid (JObject False es) fs = (Inr Written, fs')"
    "admissible env p (JObject False es)" "pid \<noteq> proto_key" "map_of es (js ''models'') = Some (only_model mid)"
    "\<exists>k. map_of es (js ''apiKey'') = Some k \<and> key_kept k"
proof -
  have ended: "r = (Inr Written, fs') \<and> p' = pid \<and> m' = mid" if "after_write p' m' r = (Inr (Applied pid mid), fs')" for p' m' r
    using that by (auto simp: after_write_def split: prod.splits sum.splits write_result.splits)
  consider (hosted) base key where "base \<noteq> []" "\<exists>name. key = 0x24 # name \<and> env_name name" "mid \<noteq> []" "pid = HOSTED_PROVIDER_ID"
      "mergeAndWriteModelsJson env p random path pid (hostedPresetProvider base key mid) fs = (Inr Written, fs')"
    | (loc) preset where "mid \<noteq> []" "pid = lp_providerId (LOCAL_MODEL_PRESETS preset)"
      "mergeAndWriteModelsJson env p random path pid (localPresetProvider (LOCAL_MODEL_PRESETS preset) mid) fs = (Inr Written, fs')"
    using assms(1)
    by (auto simp: runModelPresetOnboarding_def writeHostedPreset_def writeLocalPreset_def Let_def
        split: option.splits onboarding_choice.splits sum.splits if_splits dest!: ended key_reference base_url)
  then show thesis
  proof cases
    case hosted
    then obtain name where key: "key = 0x24 # name" "env_name name" by blast
    have "admissible env p (hostedPresetProvider base key mid)"
      using preset_admissible(2) [OF assms(2)] hosted(1,3) key(1) by simp
    then show thesis using hosted(4,5) key
      by (intro that [of "[(js ''baseUrl'', JString base), (js ''api'', JString (js ''openai-completions'')),
        (js ''apiKey'', JString key), (js ''models'', only_model mid)]"])
        (auto simp: hostedPresetProvider_def HOSTED_PROVIDER_ID_def proto_key_def js_inject key_kept_def)
  next
    case (loc preset)
    have "admissible env p (localPresetProvider (LOCAL_MODEL_PRESETS preset) mid)"
      using preset_admissible(1) [OF assms(2) loc(1)] .
    moreover have "lp_providerId (LOCAL_MODEL_PRESETS preset) \<noteq> proto_key" by (cases preset) (simp_all add: proto_key_def js_inject)
    ultimately show thesis using loc
      by (intro that [of "[(js ''baseUrl'', JString (lp_baseUrl (LOCAL_MODEL_PRESETS preset))), (js ''api'', JString (js ''openai-completions'')),
        (js ''apiKey'', JString (lp_apiKey (LOCAL_MODEL_PRESETS preset))), (js ''compat'', LOCAL_COMPAT), (js ''models'', only_model mid)]"])
        (auto simp: localPresetProvider_def js_inject key_kept_def simp del: LOCAL_MODEL_PRESETS.simps)
  qed
qed

lemma merged_offers:
  assumes checker: "schema_checker (ce_Check env)" and old: "existing = JUndefined \<or> admissible env p existing"
    and es: "distinct (map fst es)" "map_of es (js ''models'') = Some (only_model mid)" "map_of es (js ''apiKey'') = Some k"
    and merged: "mergeProviderIntoConfig existing (JObject False es) = Some merged"
  shows "opt_prop merged (js ''apiKey'') = k" "\<exists>ms. opt_prop merged (js ''models'') = JArray ms \<and> JString mid \<in> id_of ` set ms"
proof -
  obtain ms where a: "model_entries existing = Some (map (\<lambda>m. (id_of m, m)) ms)" "distinct (map fst (spread_entries existing))"
    using old unfolding admissible_def by (rule schema_checker.provider_parts [OF checker]) (rule that, assumption+)
  have b: "model_entries (JObject False es) = Some [(JString mid, JObject False [(js ''id'', JString mid)])]"
    using es(2) by (simp add: model_entries_def opt_prop_def get_prop_def coalesce_def nullish_def only_model_def)
  have d: "distinct (map fst (spread_entries (JObject False es)))" using es(1) by (simp add: spread_entries_def)
  obtain fields models where g: "mergeProviderIntoConfig existing (JObject False es) = Some (JObject False fields)"
      "map_of fields = (map_of (spread_entries existing) ++ map_of (spread_entries (JObject False es)))(js ''models'' \<mapsto> JArray models)"
      "map id_of models = first_places (map fst (map (\<lambda>m. (id_of m, m)) ms @ [(JString mid, JObject False [(js ''id'', JString mid)])]))"
    by (rule merge_fields [OF a(1) b a(2) d])
  have f: "merged = JObject False fields" "map_of fields = (map_of (spread_entries existing) ++ map_of es)(js ''models'' \<mapsto> JArray models)"
      "map id_of models = first_places (map id_of ms @ [JString mid])"
    using g merged by (simp_all add: spread_entries_def [of "JObject False es"] comp_def)
  show "opt_prop merged (js ''apiKey'') = k" using es(3) by (simp add: f(1,2) opt_prop_def get_prop_def js_inject map_add_def)
  have "JString mid \<in> set (map id_of models)" unfolding f(3) by (simp add: first_places_def)
  then show "\<exists>ms. opt_prop merged (js ''models'') = JArray ms \<and> JString mid \<in> id_of ` set ms"
    by (auto simp: f(1,2) opt_prop_def get_prop_def)
qed

text \<open>C18: When the onboarding on a disk without faults reports a model as applied, a fresh load of the config has the provider with
  this model; the key that is stored for it is the name of an environment variable with a dollar sign or the fixed key of
  a local preset, never another input of the user; all other providers are what they were.\<close>

theorem onboarding_applied:
  assumes "schema_checker (ce_Check env)" "config_ready ds n random fs" "path = abs_path (ds @ [n])"
    and "load_config env (Some path) fs = (Inr c, fs)" "mc_error c = None" "proto_key \<notin> set (getProviderIds c)"
    and "\<forall>x \<in> set (mc_providers c). json_value (snd x) \<and> readable_numbers (pr_number p) (snd x)"
    and run: "runModelPresetOnboarding env p random fetch parse_url a persistSkip path fs = (Inr (Applied pid mid), fs')"
  shows "\<exists>c' provider ms. load_config env (Some path) fs' = (Inr c', fs') \<and> mc_error c' = None
    \<and> getProvider c' pid = Some provider \<and> key_kept (opt_prop provider (js ''apiKey''))
    \<and> opt_prop provider (js ''models'') = JArray ms \<and> JString mid \<in> id_of ` set ms
    \<and> (\<forall>k. k \<noteq> pid \<longrightarrow> getProvider c' k = getProvider c k)"
proof -
  obtain es k where w: "mergeAndWriteModelsJson env p random path pid (JObject False es) fs = (Inr Written, fs')"
      "admissible env p (JObject False es)" "pid \<noteq> proto_key" "map_of es (js ''models'') = Some (only_model mid)"
      "map_of es (js ''apiKey'') = Some k" "key_kept k"
    using applied_write [OF run assms(1)] by metis
  obtain merged c' where m: "mergeProviderIntoConfig (stored_provider c pid) (JObject False es) = Some merged"
      "load_config env (Some path) fs' = (Inr c', fs')" "mc_error c' = None"
      "map_of (mc_providers c') = (map_of (mc_providers c))(pid \<mapsto> merged)"
    using update_loads [OF assms(1-5) w(3) [symmetric] assms(6,7) w(2)] w(1) by (metis prod.inject)
  note old = stored_admissible(2) [OF assms(1,4,5,7), of pid]
  have "distinct (map fst es)" using w(2) by (simp add: admissible_def sound_object)
  note offers = merged_offers [OF assms(1) old this w(4,5) m(1)]
  then show ?thesis using m(2-4) w(6) by (auto simp: getProvider_def)
qed

theorem onboarding_applied_witness:
  "\<exists>fs' c' provider. runModelPresetOnboarding sample_env sample_printer (js ''0f'') (\<lambda>_. None) (\<lambda>_. None)
      \<lparr>an_choice = Some (Choose_local Preset_ollama), an_selected = (\<lambda>_. None), an_modelId = Some (js '' llama3''), an_baseUrl = None, an_envVar = None\<rparr>
      True sample_path empty_disk = (Inr (Applied (js ''ollama'') (js ''llama3'')), fs')
    \<and> load_config sample_env (Some sample_path) fs' = (Inr c', fs') \<and> getProvider c' (js ''ollama'') = Some provider
    \<and> key_kept (opt_prop provider (js ''apiKey''))"
proof -
  let ?a = "\<lparr>an_choice = Some (Choose_local Preset_ollama), an_selected = (\<lambda>_. None), an_modelId = Some (js '' llama3''), an_baseUrl = None, an_envVar = None\<rparr>"
  have ok: "admissible sample_env sample_printer (localPresetProvider (LOCAL_MODEL_PRESETS Preset_ollama) (js ''llama3''))"
    by (rule preset_admissible(1) [OF sample_checker]) (simp add: js_def)
  have np: "proto_key \<noteq> js ''ollama''" by (simp add: proto_key_def js_inject)
  have none: "mc_error \<lparr>mc_providers = [], mc_error = None\<rparr> = None" "proto_key \<notin> set (getProviderIds \<lparr>mc_providers = [], mc_error = None\<rparr>)"
    "\<forall>x \<in> set (mc_providers \<lparr>mc_providers = [], mc_error = None\<rparr>). json_value (snd x) \<and> readable_numbers (pr_number sample_printer) (snd x)"
    by (simp_all add: getProviderIds_def)
  obtain fs' where w: "mergeAndWriteModelsJson sample_env sample_printer (js ''0f'') sample_path (js ''ollama'')
      (localPresetProvider (LOCAL_MODEL_PRESETS Preset_ollama) (js ''llama3'')) empty_disk = (Inr Written, fs')"
    by (rule update_loads [OF sample_checker sample_ready refl sample_load none(1) np none(2,3) ok])
  have "js_trim (js '' llama3'') = js ''llama3''" "js ''llama3'' \<noteq> []" by (simp_all add: js_trim_def trimEnd_def js_def js_space_def)
  then have run: "runModelPresetOnboarding sample_env sample_printer (js ''0f'') (\<lambda>_. None) (\<lambda>_. None) ?a True sample_path empty_disk
      = (Inr (Applied (js ''ollama'') (js ''llama3'')), fs')"
    using w by (simp add: runModelPresetOnboarding_def writeLocalPreset_def probeLocalModels_def named_model_def after_write_def)
  from onboarding_applied [OF sample_checker sample_ready refl sample_load none run] show ?thesis using run by auto
qed

end
