(* ===== verification/Entry_Check.thy ===== *)
theory Entry_Check
  imports Session_Api Session_Json
begin

text \<open>
  The session checks the whole entry that it commits (\<open>commitEntry\<close> of \<open>session.ts\<close>). The model checks the parts whose
  type is unknown; this theory shows that the check of the whole object, typed fields included, gives the same
  answer with the same error.
\<close>

section \<open>Checks in sequence\<close>

definition seq :: "session_error + unit \<Rightarrow> session_error + unit \<Rightarrow> session_error + unit" where
  "seq a b = (case a of Inl e \<Rightarrow> Inl e | Inr _ \<Rightarrow> b)"

definition check_value :: "js_value \<Rightarrow> session_error + unit" where
  "check_value v = tree_loop [v]"

definition check_option :: "js_value option \<Rightarrow> session_error + unit" where
  "check_option v = tree_loop (opt_list v)"

definition check_fields :: "(string \<times> js_value option) list \<Rightarrow> session_error + unit" where
  "check_fields es = tree_loop (map snd (obj es))"

lemma whole_seq_simps [simp]: "seq (Inr ()) b = b" "seq a (Inr ()) = a" "seq (seq a b) c = seq a (seq b c)"
  by (cases a) (auto simp: seq_def split: sum.splits)

lemma whole_append: "tree_loop (xs @ ys) = seq (tree_loop xs) (tree_loop ys)"
  by (simp add: tree_loop_append seq_def)

lemma whole_fields_simps [simp]:
  "check_fields [] = Inr ()" "check_fields ((k, v) # es) = seq (check_option v) (check_fields es)"
proof -
  have "map snd (obj ((k, v) # es)) = opt_list v @ map snd (obj es)" by (simp add: obj.simps opt_list_def split: option.splits)
  then show "check_fields ((k, v) # es) = seq (check_option v) (check_fields es)"
    by (simp only: check_fields_def check_option_def whole_append)
qed (simp add: check_fields_def obj.simps)

lemma whole_object [simp]: "check_value (JObject False (obj es)) = check_fields es"
  by (simp add: check_value_def check_fields_def)

lemma whole_leaf [simp]:
  "check_value (JString s) = Inr ()" "check_value (JBool b) = Inr ()" "check_value JNull = Inr ()"
  "check_value (json_str t) = Inr ()" "check_value (json_nat n) = Inr ()" "check_value (json_int i) = Inr ()"
  "check_value (json_null json_str x) = Inr ()"
  by (auto simp: check_value_def json_str_def json_nat_def json_int_def json_null_def is_finite_number_def split: option.splits)

lemma whole_rat [simp]: "is_double q \<Longrightarrow> check_value (json_rat q) = Inr ()"
  by (auto simp: check_value_def json_rat_def is_double_def rat_of_number_def is_finite_number_def split: js_number.splits)

lemma whole_option_basic [simp]: "check_option None = Inr ()" "check_option (Some v) = check_value v"
  by (simp_all add: check_option_def opt_list_def check_value_def)

lemma whole_option_map: "(\<And>y. check_value (f y) = Inr ()) \<Longrightarrow> check_option (map_option f x) = Inr ()"
  by (cases x) simp_all

lemma whole_option_leaf [simp]:
  "check_option (map_option json_str x) = Inr ()" "check_option (map_option json_nat y) = Inr ()"
  "check_option (map_option JBool z) = Inr ()" "check_option (map_option json_int w) = Inr ()"
  "check_option (map_option JString u) = Inr ()"
  by (simp_all add: whole_option_map)

lemmas whole_parts = check_value_def [symmetric] check_option_def [symmetric]

declare tree_loop.simps(2) [simp del]

lemma whole_tagged [simp]: "check_value (tagged k t es) = check_fields es"
  by (simp add: tagged_def)

lemma whole_array:
  assumes "\<And>x. x \<in> set xs \<Longrightarrow> check_value (f x) = tree_loop (g x)" and "\<And>x. x \<in> set xs \<Longrightarrow> f x \<noteq> JHole"
  shows "check_value (JArray (map f xs)) = tree_loop (concat (map g xs))"
proof -
  have "tree_loop (map f xs) = tree_loop (concat (map g xs))" using assms(1)
  proof (induction xs)
    case (Cons x xs)
    have "tree_loop (map f (x # xs)) = seq (check_value (f x)) (tree_loop (map f xs))"
      using whole_append [of "[f x]" "map f xs"] by (simp add: check_value_def)
    then show ?case using Cons by (simp add: whole_append)
  qed simp
  moreover have "JHole \<notin> set (map f xs)" using assms(2) by force
  ultimately show ?thesis by (simp add: check_value_def tree_loop.simps)
qed

lemma whole_tagged_not_hole [simp]: "tagged k t es \<noteq> JHole"
  by (simp add: tagged_def)

section \<open>Messages and entries\<close>

lemma whole_strings [simp]: "check_value (JArray (map json_str ns)) = Inr ()"
  using whole_array [of ns json_str "\<lambda>_. []"] by (simp add: json_str_def map_replicate_const)

lemma whole_usage [simp]: "usage_doubles u \<Longrightarrow> check_value (usage_object u) = Inr ()"
  by (simp add: usage_object_def cost_object_def usage_doubles_def Let_def)

lemma whole_usage_option [simp]: "pred_option usage_doubles u \<Longrightarrow> check_option (map_option usage_object u) = Inr ()"
  by (cases u) simp_all

lemma whole_user_blocks [simp]: "check_value (JArray (map user_block_object bs)) = Inr ()"
proof -
  have "check_value (user_block_object b) = tree_loop []" "user_block_object b \<noteq> JHole" for b
    by (cases b; simp add: text_object_def image_object_def)+
  then show ?thesis using whole_array [of bs user_block_object "\<lambda>_. []"] by (simp add: map_replicate_const)
qed

lemma whole_content [simp]: "check_value (content_json c) = Inr ()"
  by (cases c) simp_all

lemma whole_assistant_blocks [simp]:
  "check_value (JArray (map assistant_block_object bs)) = tree_loop (concat (map block_unknowns bs))"
proof (rule whole_array)
  show "check_value (assistant_block_object b) = tree_loop (block_unknowns b)" for b
    by (cases b) (simp_all add: text_object_def thinking_object_def tool_call_object_def block_unknowns_def whole_parts)
  show "assistant_block_object b \<noteq> JHole" for b
    by (cases b) (simp_all add: text_object_def thinking_object_def tool_call_object_def)
qed

lemma whole_message:
  assumes "message_doubles m" shows "check_value (message_object m) = tree_loop (message_unknowns m)"
proof (cases m)
  case (AssistantMessage a)
  have "check_option (map_option deferred_object (am_deferred a))
      = tree_loop (case am_deferred a of None \<Rightarrow> [] | Some d \<Rightarrow> opt_list (dh_data d))"
    by (cases "am_deferred a") (simp_all add: deferred_object_def whole_parts option.map_id)
  moreover have "check_value (json_enum stop_reasons (am_stopReason a)) = Inr ()"
    by (cases "am_stopReason a") (simp_all add: json_enum_def stop_reasons_def)
  ultimately show ?thesis using assms AssistantMessage by (simp add: message_unknowns_def whole_append whole_parts)
next
  case (ToolResultMessage r)
  have "check_option (map_option (\<lambda>ns. JArray (map json_str ns)) (tr_addedToolNames r)) = Inr ()"
    by (cases "tr_addedToolNames r") simp_all
  then show ?thesis using assms ToolResultMessage by (simp add: message_unknowns_def whole_parts)
qed (simp_all add: message_unknowns_def whole_parts)

text \<open>The check of a whole provisioned entry is the check of its unknown parts: it accepts the same entries and throws the same errors.\<close>

theorem check_whole_entry:
  assumes "payload_doubles (prov_payload e)"
  shows "tree_loop [provisioned_object e] = tree_loop (provisioned_unknowns e)"
proof -
  have enum: "check_value (json_enum entry_types (payload_type (prov_payload e))) = Inr ()"
    by (cases "prov_payload e") (simp_all add: json_enum_def entry_types_def)
  have "check_fields (payload_fields (prov_payload e)) = tree_loop (provisioned_unknowns e)"
  proof (cases "prov_payload e")
    case (MessageEntry m t)
    then show ?thesis using assms by (cases t) (simp_all add: whole_message provisioned_unknowns_def payload_unknowns_def)
  next
    case (CompactionEntry c)
    have "message_object m \<noteq> JHole" for m by (cases m) simp_all
    then have "check_value (JArray (map message_object (cp_retainedTail c))) = tree_loop (concat (map message_unknowns (cp_retainedTail c)))"
      using assms CompactionEntry by (intro whole_array) (auto simp: whole_message list_all_iff)
    then show ?thesis using assms CompactionEntry
      by (simp add: provisioned_unknowns_def payload_unknowns_def whole_append whole_parts)
  qed (use assms in \<open>simp_all add: provisioned_unknowns_def payload_unknowns_def whole_parts\<close>)
  then show ?thesis using enum
    by (simp add: provisioned_object_def provisioned_fields_def whole_parts)
qed

corollary commitEntry_checks_whole:
  assumes "payload_doubles (prov_payload e)"
  shows "commitEntry ops now st e lane = bindR (tree_loop [provisioned_object e]) (\<lambda>_. so_appendEntry ops now st e lane)"
  by (simp only: commitEntry_def check_whole_entry [OF assms])

end
