(* ===== verification/Spec2Isabelle.thy ===== *)
theory Spec2Isabelle
  imports Lane_Reducer Codec Truncate Edit_Diff Branch_Summary Agent_Class Patchcage_Mode Jsonl_Repo Entry_Check
begin

text \<open>
  Verification of the agent core of PatchCage (TypeScript, under \<open>cli/packages\<close>).

  \<^bold>\<open>The program.\<close> A coding agent keeps its conversation as a durable session: a tree of entries, a log
  of lane records, named lanes that point into the tree. A storage applies mutations to that state; a
  reducer reads the records of a lane and says what a restarted agent has to do next; the context builder
  turns a branch of the tree into the messages a model is given. Tools read, edit and run things, and
  their output is truncated before it goes to the model. Client and server of the agent exchange messages
  as CBOR items in length-prefixed frames.

  \<^bold>\<open>Theories.\<close>
  \<^item> \<open>Pi_Prelude\<close>: strings, bytes, decimal numerals, code that may throw (\<open>'e + 'a\<close>), loops that may
    throw, machines with an invariant (a locale), maps in insertion order, lists.
  \<^item> \<open>Js_Value\<close>, \<open>Utf8\<close>, \<open>Js_Text\<close>: what the code uses of JavaScript values, of \<open>TextEncoder\<close> and
    \<open>TextDecoder\<close>, and of string splitting.
  \<^item> \<open>Session_Types\<close>: the data of \<open>agent/src/harness/session/types.ts\<close>, \<open>messages.ts\<close> and the messages of
    \<open>ai/src/types.ts\<close>.
  \<^item> \<open>Session_State\<close>: the class of \<open>session/state.ts\<close>, one definition per method; every state that
    accepted mutations reach is well formed, walks to the root end, queries and forks do what a
    declarative specification says.
  \<^item> \<open>Session_Storage\<close>: \<open>session/memory.ts\<close>, storage and repository; the locale \<open>entry_storage\<close> states what
    a client of a storage relies on, and the in-memory storage is an instance.
  \<^item> \<open>Lane_Reducer\<close>: \<open>harness/reducer.ts\<close>; the validator accepts exactly the logs of a declarative
    specification, and what the reduction reports of queues, tools and attempts is what the log says.
  \<^item> \<open>Session_Context\<close>: \<open>session/context.ts\<close> and the functions of \<open>harness/messages.ts\<close>.
  \<^item> \<open>Js_Json\<close>, \<open>Compaction\<close>: \<open>JSON.stringify\<close>, and \<open>compaction/compaction.ts\<close> with its \<open>utils.ts\<close>; the
    parts of a prepared compaction are all messages of the branch in their order, the context shows the same but for deferred responses and empty
    branch summaries, and the tail that is kept does not start with a tool result.
  \<^item> \<open>Payload_Check\<close>: the payload check of \<open>session/session.ts\<close> on a heap of objects, with its stack of frames and its set of
    active objects; it ends and accepts exactly the values that unfold to a finite tree of JSON data.
  \<^item> \<open>Session_Api\<close>: the class of \<open>session/session.ts\<close> over any storage, given as a record of its operations; an
    appended message is the end of the branch and the context. Entries and records are trees of data there, on which the check is the loop \<open>tree_loop\<close>.
  \<^item> \<open>Entry_Check\<close>: the check of a whole entry, typed fields included, is the check of its untyped parts.
  \<^item> \<open>Branch_Summary\<close>: \<open>compaction/branch-summarization.ts\<close>; what is summarised is the old branch below the
    deepest common ancestor, within the token budget.
  \<^item> \<open>Agent_Effects\<close>, \<open>Agent_Loop\<close>: the loop of \<open>agent/src/agent-loop.ts\<close> as actions that emit events, call the
    caller's functions and may throw, with weakest preconditions; what a run reports is what it did, under
    every interleaving of parallel tools, and an abort ends it.
  \<^item> \<open>Agent_Invariant\<close>, \<open>Agent_Class\<close>: the locale \<open>run_invariant\<close>, what the owner of a loop promises so that the loop keeps its
    invariant, and the class of \<open>agent/src/agent.ts\<close>, which is such an owner: its state follows the reported events.
  \<^item> \<open>Js_Parse\<close>, \<open>Node_Path\<close>: \<open>JSON.parse\<close>, which reads what \<open>JSON.stringify\<close> prints, and the functions of
    \<open>node:path\<close> on POSIX hosts.
  \<^item> \<open>Patchcage_Sandbox\<close>: \<open>coding-agent/src/core/patchcage-sandbox.ts\<close>, the bridge to the engine; no credential
    reaches the child, targets stay inside the repository, the events are those of the whole output, and
    what is approved has the digest that was verified; descriptors are a table that \<open>open\<close> and \<open>close\<close> change.
  \<^item> \<open>Json_File\<close>, \<open>Model_Config\<close>: JSON in a file that people edit, with its comments, and \<open>coding-agent/src/core/model-config.ts\<close>: schema
    and loading of \<open>models.json\<close>; the locale \<open>schema_checker\<close> is what the package of the schemas documents.
  \<^item> \<open>Models_File\<close>, \<open>Patchcage_Mode\<close>: \<open>coding-agent/src/core/patchcage-agent-mode.ts\<close> and \<open>cli/patchcage-onboarding.ts\<close>; an update of
    \<open>models.json\<close> is atomic and loads again, an applied preset is there, and a provider named \<open>__proto__\<close> is lost.
  \<^item> \<open>Session_Json\<close>, \<open>Jsonl_Codec\<close>: the JavaScript objects of the session data and the lines of \<open>session/jsonl/codec.ts\<close>; a
    line reads back as what was written, a beginning of it is not JSON.
  \<^item> \<open>File_Store\<close>, \<open>Jsonl_Storage\<close>: a file system with faults, and \<open>session/jsonl/storage.ts\<close> on it; the storage refines the
    one in memory, its file gives its state back, an interrupted append is repaired at load, forks are atomic.
  \<^item> \<open>Jsonl_Repo\<close>: \<open>session/jsonl/repo.ts\<close>, with creations, forks and deletions that overlap step by step; one file for
    every id, and where directory names collide not; what is created is listed and opens.
  \<^item> \<open>Truncate\<close>: \<open>harness/utils/truncate.ts\<close>; as many lines as fit are kept, or the longest end of the last line.
  \<^item> \<open>Edit_Diff\<close>: \<open>harness/tools/edit-diff.ts\<close> and the content part of \<open>tools/edit.ts\<close>; exact edits replace what they name, and edits
    matched in a normalised copy leave every line alone that they do not touch.
  \<^item> \<open>Framing\<close>, \<open>Cbor\<close>, \<open>Codec\<close>: \<open>protocol/src/framing.ts\<close>, \<open>protocol/src/cbor\<close>, \<open>protocol/src/codec.ts\<close>;
    the locale \<open>serializer\<close> is what the codec needs of the CBOR coder. The frame decoder counts the bytes it allocates.

  \<^bold>\<open>Conventions.\<close> A class is a record, its methods functions that return the new record; what a method
  throws is the left part of a sum. Calls that return promises are the functions they run, one at a time,
  in the order in which the code awaits them; where calls overlap, they interleave in the steps that are named: a creation in the
  repository has four of them, and a tool runs in one step whose updates are reported when it settles. Clocks, id generators, schema checks and other packages are
  arguments. Natural numbers stand for counts and times that stay below \<open>Number.MAX_SAFE_INTEGER\<close>; costs are
  rational numbers rounded as doubles are; texts are lists of UTF-16 code units.

  \<^bold>\<open>Loops.\<close> The loops of the frame decoder and of the payload check, the walk of a branch summary and the agent loop are partial functions whose value \<open>None\<close> would be a loop that does
  not end; the theorems show that the first three return, and when the agent loop does. All other loops are total functions with a measure. The
  decoder of CBOR items recurses on the nesting levels that are left, at most the configured depth and one.

  \<^bold>\<open>Not modelled.\<close> Providers and authentication (network clients), the terminal interface, the command line
  and its extensions (but for the disclosure gate), the agent harness, most of whose operations are not implemented in the code, and the
  Python engine. Of the edit tool the preparation of its arguments and the queue of file changes, of the loop the wrappers around an
  event stream.
\<close>

end
